(* ===== verification/Prelude.thy ===== *)
theory Prelude
  imports Main "HOL-Library.Word"
begin

text \<open>
  Shared vocabulary of the AiTOS development: the machine types of
  \<^verbatim>\<open>include/lib/stdint.h\<close> and \<^verbatim>\<open>include/aitos/types.h\<close>, the ways in which kernel code
  fails to return (a failed \<^verbatim>\<open>ASSERT\<close> or a \<^verbatim>\<open>PANIC\<close> of \<^verbatim>\<open>include/kernel/debug.h\<close>, both of
  which spin forever in \<^verbatim>\<open>kernel/debug.c\<close>, or an access outside a memory object), the
  sequencing of fallible operations, and generic lemmas on lists and words.
\<close>

unbundle bit_operations_syntax

section \<open>Machine types\<close>

type_synonym u8 = "8 word"
type_synonym u16 = "16 word"
type_synonym u32 = "32 word"
type_synonym u64 = "64 word"

abbreviation NUL :: char where
  "NUL \<equiv> CHR 0x00"

section \<open>Outcomes of kernel code\<close>

text \<open>
  \<open>Assert_failed\<close>: \<^verbatim>\<open>ASSERT(c)\<close> with \<open>c\<close> false. \<open>Panicked\<close>: a direct \<^verbatim>\<open>PANIC\<close>.
  \<open>Out_of_bounds\<close>: a read or write outside the memory object the pointer points into,
  which C leaves undefined. \<open>Diverges\<close>: a loop of the source that never ends. \<open>Suspended\<close>:
  the running thread has blocked in the middle of the operation, and the rest of it is still
  to come when another thread wakes it.
\<close>

datatype fault = Assert_failed | Panicked | Out_of_bounds | Diverges | Suspended

type_synonym 'a result = "fault + 'a"

definition bindE :: "'a result \<Rightarrow> ('a \<Rightarrow> 'b result) \<Rightarrow> 'b result" where
  "bindE m f = (case m of Inl e \<Rightarrow> Inl e | Inr x \<Rightarrow> f x)"

definition assertE :: "bool \<Rightarrow> 'a result \<Rightarrow> 'a result" where
  "assertE c k = (if c then k else Inl Assert_failed)"

named_theorems result_simps \<open>evaluation of fallible code\<close>

lemma bindE_Inr [simp, result_simps]: "bindE (Inr x) f = f x"
  by (simp add: bindE_def)

lemma bindE_Inl [simp, result_simps]: "bindE (Inl e) f = Inl e"
  by (simp add: bindE_def)

lemma assertE_True [simp, result_simps]: "assertE True k = k"
  by (simp add: assertE_def)

lemma assertE_False [simp, result_simps]: "assertE False k = Inl Assert_failed"
  by (simp add: assertE_def)

lemma bindE_eq_Inr: "bindE m f = Inr y \<longleftrightarrow> (\<exists>x. m = Inr x \<and> f x = Inr y)"
  by (cases m) auto

lemma bindE_eq_Inl: "bindE m f = Inl e \<longleftrightarrow> m = Inl e \<or> (\<exists>x. m = Inr x \<and> f x = Inl e)"
  by (cases m) auto

lemma assertE_eq_Inr: "assertE c k = Inr y \<longleftrightarrow> c \<and> k = Inr y"
  by (simp add: assertE_def)

lemma bindE_assoc: "bindE (bindE m f) g = bindE m (\<lambda>x. bindE (f x) g)"
  by (cases m) auto

lemma bindE_cong [fundef_cong]:
  "m = m' \<Longrightarrow> (\<And>x. m' = Inr x \<Longrightarrow> f x = f' x) \<Longrightarrow> bindE m f = bindE m' f'"
  by (cases m') auto

lemma assertE_cong [fundef_cong]:
  "c = c' \<Longrightarrow> (c' \<Longrightarrow> k = k') \<Longrightarrow> assertE c k = assertE c' k'"
  by (simp add: assertE_def)

lemmas result_elims = bindE_eq_Inr assertE_eq_Inr

section \<open>Least indices\<close>

lemma first_index:
  assumes "P i" "i < (n :: nat)"
  obtains f where "f \<le> i" "f < n" "P f" "\<forall>j<f. \<not> P j"
proof
  let ?f = "LEAST k. P k"
  show "?f \<le> i" using assms(1) by (rule Least_le)
  then show "?f < n" using assms(2) by (rule le_less_trans)
  show "P ?f" using assms(1) by (rule LeastI)
  show "\<forall>j<?f. \<not> P j" using not_less_Least by blast
qed

section \<open>Lists\<close>

text \<open>Overwriting a block of an array: what \<^verbatim>\<open>memcpy(xs + i, ys, n)\<close> leaves in \<open>xs\<close>.\<close>

definition splice :: "nat \<Rightarrow> 'a list \<Rightarrow> 'a list \<Rightarrow> 'a list" where
  "splice i ys xs = take i xs @ ys @ drop (i + length ys) xs"

lemma length_splice [simp]:
  "i + length ys \<le> length xs \<Longrightarrow> length (splice i ys xs) = length xs"
  by (simp add: splice_def)

lemma nth_splice:
  assumes "i + length ys \<le> length xs" "k < length xs"
  shows "splice i ys xs ! k = (if i \<le> k \<and> k < i + length ys then ys ! (k - i) else xs ! k)"
  using assms by (auto simp: splice_def nth_append min_def)

lemma take_drop_splice [simp]:
  "i + length ys \<le> length xs \<Longrightarrow> take (length ys) (drop i (splice i ys xs)) = ys"
  by (simp add: splice_def min_def)

lemma take_drop_splice_other:
  assumes "i + length ys \<le> length xs" "j + n \<le> i \<or> i + length ys \<le> j" "j + n \<le> length xs"
  shows "take n (drop j (splice i ys xs)) = take n (drop j xs)"
  using assms by (auto intro!: nth_equalityI simp: nth_splice)

lemma splice_splice:
  assumes "i + length ys + length zs \<le> length xs"
  shows "splice (i + length ys) zs (splice i ys xs) = splice i (ys @ zs) xs"
  using assms by (auto intro!: nth_equalityI simp: nth_splice nth_append)

lemma splice_Nil [simp]: "splice i [] xs = xs"
  by (simp add: splice_def)

section \<open>Words\<close>

lemma unat_lt: "unat (v :: u32) < 2 ^ 32"
  using unsigned_less [of v, where 'a = nat] by simp

lemma unat_drop: "unat (drop_bit n (v :: u32)) = unat v div 2 ^ n"
  by (simp only: unsigned_drop_bit_eq)
    (use unat_lt [of v] in \<open>simp add: drop_bit_eq_div take_bit_nat_eq_self\<close>)

lemma unat_take: "unat (take_bit n (v :: u32)) = unat v mod 2 ^ n"
  by (simp only: unsigned_take_bit_eq) (simp add: take_bit_eq_mod)

lemma unat_push: "unat v * 2 ^ n < 2 ^ 32 \<Longrightarrow> unat (push_bit n (v :: u32)) = unat v * 2 ^ n"
  by (simp only: unsigned_push_bit_eq) (simp add: push_bit_eq_mult take_bit_nat_eq_self)

lemma unat_add_u32: "unat (a :: u32) + unat b < 2 ^ 32 \<Longrightarrow> unat (a + b) = unat a + unat b"
  by (subst unat_add_lem [THEN iffD1]) auto

lemma unat_mult_u32: "unat (a :: u32) * unat b < 2 ^ 32 \<Longrightarrow> unat (a * b) = unat a * unat b"
  by (subst unat_mult_lem [THEN iffD1]) auto

end
