(* ===== verification/CString.thy ===== *)
theory CString
  imports Prelude
begin

text \<open>
  \<^verbatim>\<open>lib/string.c\<close>. A pointer argument is the memory object it points into, from the pointed
  cell to the end of the object, as a list of bytes or characters; reading or writing past
  the end is \<open>Out_of_bounds\<close>. A C string is a list that holds a NUL. The source's \<^verbatim>\<open>char\<close> is
  signed, so comparisons take the two's complement value of a character.
\<close>

section \<open>Model\<close>

definition char_val :: "char \<Rightarrow> int" where
  "char_val c = sint (of_char c :: u8)"

fun memset :: "u8 list \<Rightarrow> int \<Rightarrow> nat \<Rightarrow> u8 list result" where
  "memset p value 0 = Inr p"
| "memset [] value (Suc sz) = Inl Out_of_bounds"
| "memset (b # p) value (Suc sz) =
     bindE (memset p value sz) (\<lambda>p. Inr (word_of_int value # p))"

fun memcpy :: "u8 list \<Rightarrow> u8 list \<Rightarrow> nat \<Rightarrow> u8 list result" where
  "memcpy d s 0 = Inr d"
| "memcpy (x # d) (y # s) (Suc sz) = bindE (memcpy d s sz) (\<lambda>d. Inr (y # d))"
| "memcpy d s (Suc sz) = Inl Out_of_bounds"

fun memcmp :: "u8 list \<Rightarrow> u8 list \<Rightarrow> nat \<Rightarrow> int result" where
  "memcmp x y 0 = Inr 0"
| "memcmp (a # x) (b # y) (Suc sz) =
     (if a \<noteq> b then Inr (uint a - uint b) else memcmp x y sz)"
| "memcmp x y (Suc sz) = Inl Out_of_bounds"

fun strcpy :: "char list \<Rightarrow> char list \<Rightarrow> char list result" where
  "strcpy (d # dst) (c # src) =
     (if c = NUL then Inr (c # dst) else bindE (strcpy dst src) (\<lambda>dst. Inr (c # dst)))"
| "strcpy dst src = Inl Out_of_bounds"

fun strlen :: "char list \<Rightarrow> nat result" where
  "strlen [] = Inl Out_of_bounds"
| "strlen (c # p) = (if c = NUL then Inr 0 else bindE (strlen p) (\<lambda>n. Inr (n + 1)))"

fun strcmp :: "char list \<Rightarrow> char list \<Rightarrow> int result" where
  "strcmp (x # a) (y # b) =
     (if x \<noteq> NUL \<and> x = y then strcmp a b else Inr (char_val x - char_val y))"
| "strcmp a b = Inl Out_of_bounds"

text \<open>\<^verbatim>\<open>strchr\<close> returns a pointer into its argument: the offset of the character, or \<open>None\<close>
  for \<^verbatim>\<open>NULL\<close>.\<close>

fun strchr :: "char list \<Rightarrow> char \<Rightarrow> nat option result" where
  "strchr [] c = Inl Out_of_bounds"
| "strchr (x # s) c =
     (if x \<noteq> NUL
      then if x = c then Inr (Some 0) else bindE (strchr s c) (\<lambda>r. Inr (map_option Suc r))
      else Inr None)"

fun strncmp :: "char list \<Rightarrow> char list \<Rightarrow> nat \<Rightarrow> int result" where
  "strncmp a b 0 = Inr 0"
| "strncmp (x # a) (y # b) (Suc n) =
     (if x \<noteq> NUL \<and> x = y then strncmp a b n else Inr (char_val x - char_val y))"
| "strncmp a b (Suc n) = Inl Out_of_bounds"

section \<open>C strings\<close>

text \<open>\<open>c_str obj s\<close>: the object holds the string \<open>s\<close>, terminated.\<close>

definition c_str :: "char list \<Rightarrow> char list \<Rightarrow> bool" where
  "c_str obj s \<longleftrightarrow> NUL \<notin> set s \<and> (\<exists>rest. obj = s @ NUL # rest)"

lemma c_str_Nil [simp]: "c_str [] s \<longleftrightarrow> False"
  by (simp add: c_str_def)

lemma c_str_Cons:
  "c_str (c # obj) s \<longleftrightarrow> (if c = NUL then s = [] else \<exists>t. s = c # t \<and> c_str obj t)"
  by (cases s) (auto simp: c_str_def)

lemma c_str_snoc_NUL [simp]: "NUL \<notin> set s \<Longrightarrow> c_str (s @ [NUL]) s"
  by (simp add: c_str_def)

lemma c_str_cases:
  assumes "c_str obj s"
  obtains (Nil) r where "obj = NUL # r" "s = []"
        | (Cons) c obj' t where "obj = c # obj'" "s = c # t" "c \<noteq> NUL" "c_str obj' t"
  using assms by (cases obj) (auto simp: c_str_Cons split: if_splits)

lemma char_val_inj: "char_val c = char_val d \<longleftrightarrow> c = d"
proof
  assume "char_val c = char_val d"
  then have "sint (of_char c :: u8) = sint (of_char d :: u8)" by (simp add: char_val_def)
  then have "(of_char c :: u8) = of_char d" by (rule signed_word_eqI)
  moreover have "(of_char c :: u8) = of_nat (of_char c)" "(of_char d :: u8) = of_nat (of_char d)"
    by (simp_all add: of_nat_of_char)
  ultimately have "(of_nat (of_char c) :: u8) = of_nat (of_char d)" by simp
  then have "(of_char c :: nat) = of_char d"
    using nat_of_char_less_256 [of c] nat_of_char_less_256 [of d]
    by (simp add: word_unat_eq_iff unat_of_nat)
  then show "c = d" by simp
qed simp

lemma strlen_c_str: "c_str obj s \<Longrightarrow> strlen obj = Inr (length s)"
  by (induction obj arbitrary: s) (auto simp: c_str_Cons split: if_splits)

lemma strcmp_c_str:
  "c_str a s \<Longrightarrow> c_str b t \<Longrightarrow> \<exists>d. strcmp a b = Inr d \<and> strcmp b a = Inr (- d) \<and> (d = 0 \<longleftrightarrow> s = t)"
proof (induction a b arbitrary: s t rule: strcmp.induct)
  case (1 x a y b)
  show ?case
  proof (cases "x \<noteq> NUL \<and> x = y")
    case True
    then show ?thesis using 1 by (auto simp: c_str_Cons)
  next
    case False
    then show ?thesis using "1.prems" by (auto simp: c_str_Cons char_val_inj split: if_splits)
  qed
qed auto

lemma strcpy_c_str:
  "c_str src s \<Longrightarrow> strcpy dst src =
     (if length s < length dst then Inr (s @ NUL # drop (length s + 1) dst) else Inl Out_of_bounds)"
  by (induction dst src arbitrary: s rule: strcpy.induct) (auto simp: c_str_Cons split: if_splits)

lemma strncmp_c_str:
  "c_str a s \<Longrightarrow> c_str b t \<Longrightarrow> \<exists>d. strncmp a b n = Inr d \<and> (d = 0 \<longleftrightarrow> take n s = take n t)"
proof (induction a b n arbitrary: s t rule: strncmp.induct)
  case (2 x a y b n)
  show ?case
  proof (cases "x \<noteq> NUL \<and> x = y")
    case True
    then show ?thesis using 2 by (auto simp: c_str_Cons)
  next
    case False
    then show ?thesis using "2.prems" by (auto simp: c_str_Cons char_val_inj split: if_splits)
  qed
qed auto

lemma strchr_c_str:
  "c_str obj s \<Longrightarrow> c \<noteq> NUL \<Longrightarrow> strchr obj c =
     Inr (if c \<in> set s then Some (length (takeWhile (\<lambda>x. x \<noteq> c) s)) else None)"
  by (induction obj arbitrary: s) (auto simp: c_str_Cons split: if_splits)

lemma memset_eq:
  "memset p v n = (if n \<le> length p then Inr (replicate n (word_of_int v) @ drop n p)
                   else Inl Out_of_bounds)"
  by (induction p v n rule: memset.induct) auto

lemma memcpy_eq:
  "memcpy d s n = (if n \<le> length d \<and> n \<le> length s then Inr (take n s @ drop n d)
                   else Inl Out_of_bounds)"
  by (induction d s n rule: memcpy.induct) auto

lemma memcmp_eq:
  "n \<le> length x \<Longrightarrow> n \<le> length y \<Longrightarrow> \<exists>d. memcmp x y n = Inr d \<and> (d = 0 \<longleftrightarrow> take n x = take n y)"
  by (induction x y n rule: memcmp.induct) (auto simp: word_uint_eq_iff)

section \<open>Properties\<close>

text \<open>\<^verbatim>\<open>strcmp\<close> on two terminated strings returns, is zero exactly on equal strings, and is
  antisymmetric.\<close>

theorem strcmp_spec:
  assumes "c_str a s" "c_str b t"
  shows "\<exists>d. strcmp a b = Inr d \<and> strcmp b a = Inr (- d) \<and> (d = 0 \<longleftrightarrow> s = t)"
  using assms by (rule strcmp_c_str)

theorem strcmp_spec_witness:
  "\<exists>d. strcmp (''echo'' @ [NUL]) (''exit'' @ [NUL]) = Inr d \<and> d \<noteq> 0"
  using strcmp_spec [of "''echo'' @ [NUL]" "''echo''" "''exit'' @ [NUL]" "''exit''"]
  by (auto simp: c_str_Cons)

text \<open>\<^verbatim>\<open>strcpy\<close> copies the string with its terminator and keeps the rest of the destination;
  it checks no bound, so a destination no longer than the string is overrun. Where it fits,
  \<^verbatim>\<open>strlen\<close> of the copy is the length of the source string and \<^verbatim>\<open>strcmp\<close> finds them equal.\<close>

theorem strcpy_roundtrip:
  assumes "c_str src s"
  shows "if length s < length dst
         then \<exists>out. strcpy dst src = Inr out \<and> length out = length dst \<and>
                strlen out = Inr (length s) \<and> strcmp out src = Inr 0 \<and>
                drop (length s + 1) out = drop (length s + 1) dst
         else strcpy dst src = Inl Out_of_bounds"
proof (cases "length s < length dst")
  case True
  let ?out = "s @ NUL # drop (length s + 1) dst"
  have "c_str ?out s" using assms by (simp add: c_str_def)
  then show ?thesis
    using True assms strcmp_c_str [of ?out s src s] strlen_c_str [of ?out s]
    by (auto simp: strcpy_c_str intro!: exI [of _ ?out])
next
  case False
  then show ?thesis using assms by (simp add: strcpy_c_str)
qed

theorem strcpy_roundtrip_witness:
  "strcpy ''abcdef'' (''hi'' @ [NUL]) = Inr (''hi'' @ NUL # ''def'') \<and>
   strcpy ''ab'' (''hi'' @ [NUL]) = Inl Out_of_bounds"
  using strcpy_roundtrip [of "''hi'' @ [NUL]" "''hi''" "''ab''"] by simp

text \<open>\<^verbatim>\<open>strlen\<close>, \<^verbatim>\<open>strchr\<close> and \<^verbatim>\<open>strncmp\<close> on terminated strings: the length, the offset of the
  first occurrence, and equality of the first \<open>n\<close> characters.\<close>

theorem string_queries:
  assumes "c_str a s" "c_str b t"
  shows "strlen a = Inr (length s) \<and>
         (c \<noteq> NUL \<longrightarrow> strchr a c =
            Inr (if c \<in> set s then Some (length (takeWhile (\<lambda>x. x \<noteq> c) s)) else None)) \<and>
         (\<exists>d. strncmp a b n = Inr d \<and> (d = 0 \<longleftrightarrow> take n s = take n t))"
  using strlen_c_str [OF assms(1)] strchr_c_str [OF assms(1)] strncmp_c_str [OF assms] by simp

theorem string_queries_witness:
  "strlen (''help'' @ [NUL]) = Inr 4 \<and> strchr (''help'' @ [NUL]) (CHR ''l'') = Inr (Some 2) \<and>
   strncmp (''help'' @ [NUL]) (''hero'' @ [NUL]) 2 = Inr 0"
  using string_queries [of "''help'' @ [NUL]" "''help''" "''hero'' @ [NUL]" "''hero''" "CHR ''l''" 2]
  by (simp add: c_str_Cons)

text \<open>\<^verbatim>\<open>memset\<close> and \<^verbatim>\<open>memcpy\<close> write exactly the first \<open>n\<close> bytes and fault when an object is
  shorter than \<open>n\<close>; \<^verbatim>\<open>memcmp\<close> of \<open>n\<close> bytes is zero exactly when they agree.\<close>

theorem mem_functions:
  "memset p v n = (if n \<le> length p then Inr (replicate n (word_of_int v) @ drop n p)
                   else Inl Out_of_bounds) \<and>
   memcpy p q n = (if n \<le> length p \<and> n \<le> length q then Inr (take n q @ drop n p)
                   else Inl Out_of_bounds) \<and>
   (if n \<le> length p \<and> n \<le> length q
    then \<exists>d. memcmp p q n = Inr d \<and> (d = 0 \<longleftrightarrow> take n p = take n q)
    else True)"
  using memset_eq memcpy_eq memcmp_eq by simp

end
