(* ===== verification/Format.thy ===== *)
theory Format
  imports CString
begin

text \<open>
  Formatted output: \<^verbatim>\<open>lib/stdio.c\<close> (\<^verbatim>\<open>itoa\<close>, \<^verbatim>\<open>vsprintf\<close>, \<^verbatim>\<open>sprintf\<close>, of the 32-bit kernel) and
  \<^verbatim>\<open>kernel/printk.c\<close> (of the x86-64 kernel). Formats and buffers are C objects as in
  \<open>CString\<close>; a variable argument list is a list of typed arguments, and taking an argument
  of the wrong type or past the last one is \<open>Out_of_bounds\<close>.
\<close>

datatype va_arg = VInt u32 | VLong u64 | VStr "char list"

fun va_int :: "va_arg list \<Rightarrow> (u32 \<times> va_arg list) result" where
  "va_int (VInt w # ap) = Inr (w, ap)"
| "va_int ap = Inl Out_of_bounds"

fun va_long :: "va_arg list \<Rightarrow> (u64 \<times> va_arg list) result" where
  "va_long (VLong w # ap) = Inr (w, ap)"
| "va_long ap = Inl Out_of_bounds"

fun va_str :: "va_arg list \<Rightarrow> (char list \<times> va_arg list) result" where
  "va_str (VStr p # ap) = Inr (p, ap)"
| "va_str ap = Inl Out_of_bounds"

section \<open>Digits\<close>

definition digit_char :: "nat \<Rightarrow> char" where
  "digit_char m = (if m < 10 then char_of (m + 48) else char_of (m - 10 + 65))"

text \<open>\<open>*((*buf_ptr_addr)++) = c\<close>: store at the buffer position and advance it.\<close>

definition put :: "char \<Rightarrow> char list \<times> nat \<Rightarrow> (char list \<times> nat) result" where
  "put c b = (case b of (str, pos) \<Rightarrow>
     if pos < length str then Inr (str[pos := c], pos + 1) else Inl Out_of_bounds)"

function itoa :: "nat \<Rightarrow> nat \<Rightarrow> char list \<times> nat \<Rightarrow> (char list \<times> nat) result" where
  "itoa value base b =
     (if base < 2 then Inl Diverges
      else let m = value mod base; i = value div base in
           bindE (if i \<noteq> 0 then itoa i base b else Inr b) (put (digit_char m)))"
  by pat_completeness auto
termination
proof (relation "measure (\<lambda>(v, base, b). v)")
  fix v base :: nat and b :: "char list \<times> nat" and x xa
  assume "\<not> base < 2" "xa = v div base" "xa \<noteq> 0"
  then show "((xa, base, b), v, base, b) \<in> measure (\<lambda>(v, base, b). v)"
    by (cases "v = 0") auto
qed simp

declare itoa.simps [simp del]

section \<open>vsprintf\<close>

text \<open>
  The loop of \<^verbatim>\<open>vsprintf\<close>. \<open>fmt\<close> is the format from \<^verbatim>\<open>index_ptr\<close> on, so \<^verbatim>\<open>index_char\<close> is its
  first character. The \<^verbatim>\<open>switch\<close> has no default: a conversion it does not know leaves
  \<^verbatim>\<open>index_char\<close> at the character after the percent sign, which the next round reads as an
  ordinary character.
\<close>

function vsprintf_loop ::
  "char list \<Rightarrow> va_arg list \<Rightarrow> char list \<times> nat \<Rightarrow> (char list \<times> nat) result" where
  "vsprintf_loop fmt ap b =
     (case fmt of
        [] \<Rightarrow> Inl Out_of_bounds
      | index_char # rest \<Rightarrow>
          if index_char = NUL then Inr b
          else if index_char \<noteq> CHR ''%'' then bindE (put index_char b) (vsprintf_loop rest ap)
          else (case rest of
             [] \<Rightarrow> Inl Out_of_bounds
           | c # rest' \<Rightarrow>
               if c = CHR ''s'' then
                 bindE (va_str ap) (\<lambda>(arg_str, ap).
                 bindE (strcpy (drop (snd b) (fst b)) arg_str) (\<lambda>copied.
                 bindE (strlen arg_str) (\<lambda>n.
                   vsprintf_loop rest' ap (take (snd b) (fst b) @ copied, snd b + n))))
               else if c = CHR ''c'' then
                 bindE (va_int ap) (\<lambda>(w, ap).
                 bindE (put (char_of (unat w mod 256)) b) (vsprintf_loop rest' ap))
               else if c = CHR ''d'' then
                 bindE (va_int ap) (\<lambda>(arg_int, ap).
                   if sint arg_int < 0 then
                     bindE (put (CHR ''-'') b) (\<lambda>b.
                     bindE (itoa (unat (0 - arg_int)) 10 b) (vsprintf_loop rest' ap))
                   else bindE (itoa (unat arg_int) 10 b) (vsprintf_loop rest' ap))
               else if c = CHR ''x'' then
                 bindE (va_int ap) (\<lambda>(arg_int, ap).
                 bindE (itoa (unat arg_int) 16 b) (vsprintf_loop rest' ap))
               else vsprintf_loop (c # rest') ap b))"
  by pat_completeness auto
termination
  by (relation "measure (\<lambda>(fmt, ap, b). length fmt)") auto

declare vsprintf_loop.simps [simp del]

definition vsprintf :: "char list \<Rightarrow> char list \<Rightarrow> va_arg list \<Rightarrow> (nat \<times> char list) result" where
  "vsprintf str format ap =
     bindE (vsprintf_loop format ap (str, 0)) (\<lambda>(str, pos).
     bindE (strlen str) (\<lambda>len. Inr (len, str)))"

definition sprintf :: "char list \<Rightarrow> char list \<Rightarrow> va_arg list \<Rightarrow> (nat \<times> char list) result" where
  "sprintf buf format args = vsprintf buf format args"

text \<open>\<^verbatim>\<open>printf\<close> of the user library and \<^verbatim>\<open>printk\<close> of the 32-bit kernel format into a zeroed buffer
  of 1024 bytes; the text is what reaches the \<^verbatim>\<open>write\<close> system call or the console.\<close>

definition printf :: "char list \<Rightarrow> va_arg list \<Rightarrow> (nat \<times> char list) result" where
  "printf format args =
     bindE (vsprintf (replicate 1024 NUL) format args) (\<lambda>(len, buf).
     bindE (strlen buf) (\<lambda>n. Inr (len, take n buf)))"

definition printk32 :: "char list \<Rightarrow> va_arg list \<Rightarrow> char list result" where
  "printk32 format args =
     bindE (vsprintf (replicate 1024 NUL) format args) (\<lambda>(len, buf).
     bindE (strlen buf) (\<lambda>n. Inr (take n buf)))"

section \<open>printk of the x86-64 kernel\<close>

text \<open>\<open>emit_decimal\<close> fills \<^verbatim>\<open>buf[21]\<close> from the end; \<open>i\<close> is the index of the last digit
  written. The result is what goes to the console.\<close>

function emit_decimal_loop :: "nat \<Rightarrow> char list \<Rightarrow> nat \<Rightarrow> (char list \<times> nat) result" where
  "emit_decimal_loop value buf i =
     (if value = 0 then Inr (buf, i)
      else if i = 0 then Inl Out_of_bounds
      else emit_decimal_loop (value div 10) (buf[i - 1 := char_of (48 + value mod 10)]) (i - 1))"
  by pat_completeness auto
termination
  by (relation "measure (\<lambda>(v, buf, i). v)") auto

declare emit_decimal_loop.simps [simp del]

fun emit_string :: "char list \<Rightarrow> char list result" where
  "emit_string [] = Inl Out_of_bounds"
| "emit_string (c # s) = (if c = NUL then Inr [] else bindE (emit_string s) (\<lambda>out. Inr (c # out)))"

definition emit_decimal :: "char list \<Rightarrow> u64 \<Rightarrow> char list result" where
  "emit_decimal buf value =
     (let buf = buf[20 := NUL] in
      if value = 0 then Inr [CHR ''0'']
      else bindE (emit_decimal_loop (unat value) buf 20) (\<lambda>(buf, i). emit_string (drop i buf)))"

text \<open>\<open>p\<close> is the format from the pointer on; \<open>garbage\<close> is the uninitialised local buffer of
  \<^verbatim>\<open>emit_decimal\<close>. The case \<^verbatim>\<open>'%'\<close> and the default case of the source both emit the
  character read. A percent sign before the terminator makes the loop step over it.\<close>

function printk_loop :: "char list \<Rightarrow> char list \<Rightarrow> va_arg list \<Rightarrow> char list result" where
  "printk_loop garbage p ap =
     (case p of
        [] \<Rightarrow> Inl Out_of_bounds
      | c # p1 \<Rightarrow>
          if c = NUL then Inr []
          else if c \<noteq> CHR ''%'' then
            bindE (printk_loop garbage p1 ap) (\<lambda>out. Inr (c # out))
          else (case p1 of
             [] \<Rightarrow> Inl Out_of_bounds
           | d # p2 \<Rightarrow>
               if d = CHR ''s'' then
                 bindE (va_str ap) (\<lambda>(s, ap). bindE (emit_string s) (\<lambda>o1.
                 bindE (printk_loop garbage p2 ap) (\<lambda>out. Inr (o1 @ out))))
               else if d = CHR ''d'' then
                 bindE (va_int ap) (\<lambda>(w, ap). bindE (emit_decimal garbage (scast w)) (\<lambda>o1.
                 bindE (printk_loop garbage p2 ap) (\<lambda>out. Inr (o1 @ out))))
               else if d = CHR ''l'' then
                 (case p2 of
                    [] \<Rightarrow> Inl Out_of_bounds
                  | e # p3 \<Rightarrow>
                      if e = CHR ''l'' \<and> p3 = [] then Inl Out_of_bounds
                      else if e = CHR ''l'' \<and> hd p3 = CHR ''u'' then
                        bindE (va_long ap) (\<lambda>(w, ap). bindE (emit_decimal garbage w) (\<lambda>o1.
                        bindE (printk_loop garbage (tl p3) ap) (\<lambda>out. Inr (o1 @ out))))
                      else if e = CHR ''u'' then
                        bindE (va_long ap) (\<lambda>(w, ap). bindE (emit_decimal garbage w) (\<lambda>o1.
                        bindE (printk_loop garbage p3 ap) (\<lambda>out. Inr (o1 @ out))))
                      else bindE (printk_loop garbage p2 ap) (\<lambda>out. Inr (d # out)))
               else if d = CHR ''c'' then
                 bindE (va_int ap) (\<lambda>(w, ap).
                 bindE (printk_loop garbage p2 ap) (\<lambda>out. Inr (char_of (unat w mod 256) # out)))
               else bindE (printk_loop garbage p2 ap) (\<lambda>out. Inr (d # out))))"
  by pat_completeness auto
termination
  by (relation "measure (\<lambda>(g, p, ap). length p)") auto

declare printk_loop.simps [simp del]

definition printk :: "char list \<Rightarrow> char list \<Rightarrow> va_arg list \<Rightarrow> char list result" where
  "printk garbage fmt ap = printk_loop garbage fmt ap"

section \<open>Positional notation\<close>

text \<open>The digits of a number, most significant first, and the number a digit string denotes.\<close>

function digits :: "nat \<Rightarrow> nat \<Rightarrow> nat list" where
  "digits base v =
     (if base < 2 \<or> v < base then [v] else digits base (v div base) @ [v mod base])"
  by pat_completeness auto
termination
  by (relation "measure (\<lambda>(base, v). v)") auto

declare digits.simps [simp del]

definition digit_val :: "char \<Rightarrow> nat" where
  "digit_val c = (let n = of_char c in if n < 58 then n - 48 else n - 55)"

definition read_num :: "nat \<Rightarrow> char list \<Rightarrow> nat" where
  "read_num base cs = foldl (\<lambda>a c. a * base + digit_val c) 0 cs"

definition read_int :: "char list \<Rightarrow> int" where
  "read_int cs = (case cs of c # ds \<Rightarrow>
     if c = CHR ''-'' then - int (read_num 10 ds) else int (read_num 10 cs) | [] \<Rightarrow> 0)"

definition num_text :: "nat \<Rightarrow> nat \<Rightarrow> char list" where
  "num_text base v = map digit_char (digits base v)"

lemma of_char_digit: "m < 16 \<Longrightarrow> of_char (digit_char m) = (if m < 10 then m + 48 else m + 55)"
  by (simp add: digit_char_def)

lemma digit_val_char [simp]: "m < 16 \<Longrightarrow> digit_val (digit_char m) = m"
  by (simp add: digit_val_def of_char_digit Let_def)

lemma num_text_step:
  "2 \<le> base \<Longrightarrow> num_text base v =
     (if v < base then [] else num_text base (v div base)) @ [digit_char (v mod base)]"
  by (simp add: num_text_def digits.simps [of base v])

lemma num_text_nonempty: "num_text base v \<noteq> []"
  by (simp add: num_text_def digits.simps [of base v])

lemma read_num_text:
  assumes "2 \<le> base" "base \<le> 16"
  shows "read_num base (num_text base v) = v"
  using assms
proof (induction v rule: less_induct)
  case (less v)
  have "v mod base < base" using less.prems by simp
  then have m: "v mod base < 16" using less.prems by linarith
  show ?case
  proof (cases "v < base")
    case True
    then show ?thesis using m less.prems by (simp add: num_text_step [of base v] read_num_def)
  next
    case False
    then have "v div base < v" using less.prems by simp
    then have "read_num base (num_text base (v div base)) = v div base" using less by blast
    then show ?thesis
      using False m less.prems by (simp add: num_text_step [of base v] read_num_def)
  qed
qed

lemma length_num_text: "2 \<le> base \<Longrightarrow> v < base ^ k \<Longrightarrow> 0 < k \<Longrightarrow> length (num_text base v) \<le> k"
proof (induction k arbitrary: v)
  case 0
  then show ?case by simp
next
  case (Suc k)
  show ?case
  proof (cases "v < base")
    case True
    then show ?thesis using Suc.prems by (simp add: num_text_step [of base v])
  next
    case False
    then have "0 < k" using Suc.prems by (cases k) auto
    moreover have "v div base < base ^ k"
      using Suc.prems by (simp add: less_mult_imp_div_less mult.commute)
    ultimately show ?thesis
      using Suc.IH [of "v div base"] Suc.prems False by (simp add: num_text_step [of base v])
  qed
qed

lemma splice_snoc:
  "pos + length ds < length str \<Longrightarrow>
     (splice pos ds str)[pos + length ds := d] = splice pos (ds @ [d]) str"
  by (rule nth_equalityI) (auto simp: nth_splice nth_list_update nth_append)

lemma put_splice:
  "pos + length ds \<le> length str \<Longrightarrow> put c (splice pos ds str, pos + length ds) =
     (if pos + length ds < length str
      then Inr (splice pos (ds @ [c]) str, pos + length ds + 1) else Inl Out_of_bounds)"
  by (simp add: put_def splice_snoc)

lemma itoa_text:
  assumes "2 \<le> base"
  shows "itoa v base (str, pos) =
    (if pos + length (num_text base v) \<le> length str
     then Inr (splice pos (num_text base v) str, pos + length (num_text base v))
     else Inl Out_of_bounds)"
  using assms
proof (induction v rule: less_induct)
  case (less v)
  show ?case
  proof (cases "v < base")
    case True
    then have "v div base = 0" by simp
    then show ?thesis
      using less.prems True put_splice [of pos "[]" str "digit_char v"]
      by (simp add: itoa.simps [of v base] num_text_step [of base v] put_def splice_def
          upd_conv_take_nth_drop)
  next
    case False
    then have d: "v div base \<noteq> 0" "v div base < v" using less.prems by (auto simp: div_eq_0_iff)
    note IH = less.IH [OF d(2) less.prems]
    show ?thesis
      using False d less.prems put_splice [of pos "num_text base (v div base)" str]
      by (simp add: itoa.simps [of v base] num_text_step [of base v] IH Let_def)
  qed
qed

section \<open>Properties of the formatter\<close>

text \<open>\<^verbatim>\<open>itoa\<close> terminates and writes, at the buffer position, a digit string that reads back as
  the number; it faults exactly when the digits do not fit the buffer.\<close>

theorem itoa_roundtrip:
  assumes "base = 10 \<or> base = 16"
  shows "\<exists>ds. ds \<noteq> [] \<and> read_num base ds = v \<and>
           itoa v base (str, pos) =
             (if pos + length ds \<le> length str then Inr (splice pos ds str, pos + length ds)
              else Inl Out_of_bounds)"
  using assms read_num_text [of base v] itoa_text [of base v str pos] num_text_nonempty [of base v]
  by (intro exI [of _ "num_text base v"]) auto

theorem itoa_roundtrip_witness:
  "\<exists>ds. read_num 16 ds = 48879 \<and>
     itoa 48879 16 (replicate 8 NUL, 0) =
       (if length ds \<le> 8 then Inr (splice 0 ds (replicate 8 NUL), length ds) else Inl Out_of_bounds)"
  using itoa_roundtrip [of 16 48879 "replicate 8 NUL" 0] by auto

lemma vsprintf_d:
  "vsprintf_loop (''%d'' @ [NUL]) [VInt w] b =
     (if sint w < 0 then bindE (put (CHR ''-'') b) (itoa (unat (- w)) 10)
      else itoa (unat w) 10 b)"
proof -
  have nul: "vsprintf_loop [NUL] ap b = Inr b" for ap b
    by (simp add: vsprintf_loop.simps)
  have eta: "bindE m (vsprintf_loop [NUL] ap) = m" for m ap
    by (cases m) (simp_all add: nul)
  show ?thesis by (simp add: vsprintf_loop.simps [of "[CHR ''%'', CHR ''d'', NUL]"] eta)
qed

lemma strlen_padded: "NUL \<notin> set txt \<Longrightarrow> 0 < k \<Longrightarrow> strlen (txt @ replicate k NUL) = Inr (length txt)"
  by (rule strlen_c_str) (auto simp: c_str_def gr0_conv_Suc)

lemma splice_replicate:
  "length ds \<le> n \<Longrightarrow> splice 0 ds (replicate n x) = ds @ replicate (n - length ds) x"
  by (simp add: splice_def)

lemma digit_char_not:
  "m < 16 \<Longrightarrow> digit_char m \<noteq> NUL" "m < 16 \<Longrightarrow> digit_char m \<noteq> CHR ''-''"
proof -
  assume "m < 16"
  then have "of_char (digit_char m) \<noteq> (0 :: nat)" "of_char (digit_char m) \<noteq> (45 :: nat)"
    by (auto simp: of_char_digit)
  then show "digit_char m \<noteq> NUL" "digit_char m \<noteq> CHR ''-''" by auto
qed

lemma digits_less: "2 \<le> base \<Longrightarrow> d \<in> set (digits base v) \<Longrightarrow> d < base"
proof (induction v rule: less_induct)
  case (less v)
  show ?case
  proof (cases "v < base")
    case True
    then show ?thesis using less.prems by (auto simp: digits.simps [of base v])
  next
    case False
    then have "v div base < v" using less.prems by simp
    then show ?thesis
      using False less.prems less.IH [of "v div base"] by (auto simp: digits.simps [of base v])
  qed
qed

lemma num_text_chars:
  assumes "c \<in> set (num_text 10 v)"
  shows "c \<noteq> NUL" "c \<noteq> CHR ''-''"
proof -
  from assms obtain d where "c = digit_char d" "d < 10"
    using digits_less [of 10 _ v] by (auto simp: num_text_def)
  then show "c \<noteq> NUL" "c \<noteq> CHR ''-''" using digit_char_not [of d] by auto
qed

lemma read_int_num: "read_int (num_text 10 v) = int v"
  using num_text_chars(2) [of _ v] read_num_text [of 10 v] num_text_nonempty [of 10 v]
  by (cases "num_text 10 v") (auto simp: read_int_def)

lemma read_int_neg: "read_int (CHR ''-'' # num_text 10 v) = - int v"
  using read_num_text [of 10 v] by (simp add: read_int_def)

lemma sint_u32_range: "- (2 ^ 31) \<le> sint (w :: u32)" "sint w < 2 ^ 31"
  using sint_greater_eq [of w] sint_less [of w] by simp_all

lemma unat_of_sint:
  fixes w :: u32
  assumes "0 \<le> sint w"
  shows "int (unat w) = sint w"
proof -
  have "uint w = sint w mod 2 ^ 32" by (simp add: uint_sint take_bit_eq_mod)
  then show ?thesis using assms sint_u32_range [of w] by simp
qed

lemma neg_value:
  fixes w :: u32
  assumes "sint w < 0"
  shows "int (unat (- w)) = - sint w"
proof -
  have "- w = word_of_int (- sint w)" by simp
  then have "uint (- w) = (- sint w) mod 2 ^ 32"
    by (metis len_bit0 len_num1 mult_2 numeral_Bit0 numeral_One uint_word_of_int)
  then show ?thesis using assms sint_u32_range [of w] by simp
qed

text \<open>The texts that the conversions produce in a zeroed buffer.\<close>

definition int_text :: "u32 \<Rightarrow> char list" where
  "int_text w = (if sint w < 0 then CHR ''-'' # num_text 10 (unat (- w)) else num_text 10 (unat w))"

lemma num_text_u32: "length (num_text 10 (unat (x :: u32))) \<le> 10" "length (num_text 16 (unat (x :: u32))) \<le> 8"
  using unsigned_less [of x, where 'a = nat] by (auto intro!: length_num_text)

lemma length_int_text: "length (int_text w) \<le> 11"
  using num_text_u32(1) [of w] num_text_u32(1) [of "- w"] by (simp add: int_text_def)

lemma int_text_no_nul: "NUL \<notin> set (int_text w)"
  using num_text_chars(1) by (auto simp: int_text_def)

lemma read_int_text: "read_int (int_text w) = sint w"
  using neg_value [of w] unat_of_sint [of w] by (simp add: int_text_def read_int_neg read_int_num)

lemma vsprintf_ends:
  assumes "vsprintf_loop fmt ap (replicate n NUL, 0) = Inr (splice 0 t (replicate n NUL), k)"
    "NUL \<notin> set t" "length t < n"
  shows "vsprintf (replicate n NUL) fmt ap = Inr (length t, t @ replicate (n - length t) NUL)"
  using assms strlen_padded [of t "n - length t"] by (simp add: vsprintf_def splice_replicate)

lemma vsprintf_int:
  assumes "12 \<le> n"
  shows "vsprintf (replicate n NUL) (''%d'' @ [NUL]) [VInt w] =
    Inr (length (int_text w), int_text w @ replicate (n - length (int_text w)) NUL)"
proof (rule vsprintf_ends [of _ _ _ _ "length (int_text w)"])
  let ?z = "replicate n NUL" and ?d = "num_text 10 (unat (- w))"
  have put: "put (CHR ''-'') (?z, 0) = Inr (splice 0 [CHR ''-''] ?z, 1)"
    using put_splice [of 0 "[]" ?z "CHR ''-''"] assms by (simp add: splice_def)
  have "splice 1 ?d (splice 0 [CHR ''-''] ?z) = splice 0 (CHR ''-'' # ?d) ?z"
    using assms num_text_u32(1) [of "- w"] by (cases n) (simp_all add: splice_def)
  then show "vsprintf_loop (''%d'' @ [NUL]) [VInt w] (?z, 0) = Inr (splice 0 (int_text w) ?z, length (int_text w))"
    using assms num_text_u32(1) [of w] num_text_u32(1) [of "- w"]
    unfolding vsprintf_d int_text_def by (simp add: put itoa_text)
qed (use assms length_int_text [of w] int_text_no_nul in auto)

lemma hex_no_nul: "NUL \<notin> set (num_text 16 v)"
  using digits_less [of 16 _ v] digit_char_not(1) by (fastforce simp: num_text_def)

lemma vsprintf_hex:
  assumes "9 \<le> n"
  shows "vsprintf (replicate n NUL) (''%x'' @ [NUL]) [VInt w] =
    Inr (length (num_text 16 (unat w)), num_text 16 (unat w) @ replicate (n - length (num_text 16 (unat w))) NUL)"
proof (rule vsprintf_ends [of _ _ _ _ "length (num_text 16 (unat w))"])
  let ?z = "replicate n NUL"
  have nul: "vsprintf_loop [NUL] ap b = Inr b" for ap b
    by (simp add: vsprintf_loop.simps)
  show "vsprintf_loop (''%x'' @ [NUL]) [VInt w] (?z, 0) =
      Inr (splice 0 (num_text 16 (unat w)) ?z, length (num_text 16 (unat w)))"
    using assms num_text_u32(2) [of w]
    by (simp add: vsprintf_loop.simps [of "[CHR ''%'', CHR ''x'', NUL]"] nul itoa_text)
qed (use assms num_text_u32(2) [of w] hex_no_nul in auto)

lemma vsprintf_str:
  assumes "c_str obj t" "length t < n"
  shows "vsprintf (replicate n NUL) (''%s'' @ [NUL]) [VStr obj] = Inr (length t, t @ replicate (n - length t) NUL)"
proof (rule vsprintf_ends [of _ _ _ _ "length t"])
  let ?z = "replicate n NUL"
  have "strcpy ?z obj = Inr (t @ replicate (n - length t) NUL)"
    using strcpy_c_str [OF assms(1), of ?z] assms(2) by (simp add: Suc_diff_Suc replicate_Suc [symmetric] del: replicate_Suc)
  moreover have "strlen obj = Inr (length t)" using assms(1) by (rule strlen_c_str)
  ultimately show "vsprintf_loop (''%s'' @ [NUL]) [VStr obj] (?z, 0) = Inr (splice 0 t ?z, length t)"
    using assms(2) by (simp add: vsprintf_loop.simps [of "[CHR ''%'', CHR ''s'', NUL]"] vsprintf_loop.simps [of "[NUL]"]
        splice_replicate)
  show "NUL \<notin> set t" using assms(1) by (simp add: c_str_def)
qed (use assms in auto)

text \<open>\<^verbatim>\<open>vsprintf\<close> of \<^verbatim>\<open>"%d"\<close> into a zeroed buffer of at least 12 bytes returns for every 32-bit
  argument, the most negative one included: the buffer holds a terminated decimal text that
  reads back as the signed argument, and the returned length is its length.\<close>

theorem vsprintf_decimal:
  fixes w :: u32
  assumes "12 \<le> n"
  shows "\<exists>txt. vsprintf (replicate n NUL) (''%d'' @ [NUL]) [VInt w] =
            Inr (length txt, txt @ replicate (n - length txt) NUL) \<and>
          length txt < n \<and> read_int txt = sint w"
  using vsprintf_int [OF assms, of w] length_int_text [of w] assms read_int_text [of w]
  by (intro exI [of _ "int_text w"]) auto

theorem vsprintf_decimal_witness:
  "\<exists>txt. vsprintf (replicate 12 NUL) (''%d'' @ [NUL]) [VInt 0x80000000] =
            Inr (length txt, txt @ replicate (12 - length txt) NUL) \<and>
          length txt < 12 \<and> read_int txt = - 2147483648"
  using vsprintf_decimal [of 12 "0x80000000"] by simp

lemma vsprintf_loop_plain:
  assumes "\<forall>c\<in>set s. c \<noteq> CHR ''%'' \<and> c \<noteq> NUL" "pos + length s \<le> length str"
  shows "vsprintf_loop (s @ [NUL]) ap (str, pos) = Inr (splice pos s str, pos + length s)"
  using assms
proof (induction s arbitrary: str pos)
  case Nil
  then show ?case by (simp add: vsprintf_loop.simps splice_def)
next
  case (Cons c s)
  have "put c (str, pos) = Inr (str[pos := c], pos + 1)"
    using Cons.prems by (simp add: put_def)
  moreover have "splice (pos + 1) s (str[pos := c]) = splice pos (c # s) str"
    using Cons.prems by (simp add: splice_def take_Suc_conv_app_nth)
  ultimately show ?case
    using Cons.prems Cons.IH [of "pos + 1" "str[pos := c]"]
    by (simp add: vsprintf_loop.simps [of "c # s @ [NUL]"])
qed

lemma strlen_no_nul: "NUL \<notin> set str \<Longrightarrow> strlen str = Inl Out_of_bounds"
  by (induction str) auto

text \<open>\<^verbatim>\<open>vsprintf\<close> of a format without conversions copies the format and leaves the rest of the
  buffer as it was: it writes no terminator. The result is a string only if the rest of the
  caller's buffer holds one, and the final \<^verbatim>\<open>strlen\<close> runs off the buffer if it does not.\<close>

theorem vsprintf_no_terminator:
  assumes "\<forall>c\<in>set s. c \<noteq> CHR ''%'' \<and> c \<noteq> NUL"
    "length old = length s"
  shows "(NUL \<notin> set rest \<longrightarrow> vsprintf (old @ rest) (s @ [NUL]) ap = Inl Out_of_bounds) \<and>
         vsprintf (old @ NUL # rest) (s @ [NUL]) ap = Inr (length s, s @ NUL # rest)"
proof -
  have eq: "vsprintf_loop (s @ [NUL]) ap (old @ r, 0) = Inr (s @ r, length s)"
    for r
    using vsprintf_loop_plain [OF assms(1), of 0 "old @ r" ap] assms(2) by (simp add: splice_def)
  have "NUL \<notin> set s" using assms by auto
  then show ?thesis
    using strlen_c_str [of "s @ NUL # rest" s] by (auto simp: vsprintf_def eq strlen_no_nul c_str_def)
qed

theorem vsprintf_no_terminator_witness:
  "vsprintf ''????'' (''boot'' @ [NUL]) [] = Inl Out_of_bounds \<and>
   vsprintf (''????'' @ [NUL]) (''boot'' @ [NUL]) [] = Inr (4, ''boot'' @ [NUL])"
  using vsprintf_no_terminator [of "''boot''" "''????''" "[]" "[]"] by simp

section \<open>Properties of printk\<close>

lemma emit_decimal_loop_text:
  assumes "length (num_text 10 v) \<le> i" "i \<le> length buf" "0 < v"
  shows "emit_decimal_loop v buf i =
    Inr (splice (i - length (num_text 10 v)) (num_text 10 v) buf, i - length (num_text 10 v))"
  using assms
proof (induction v arbitrary: buf i rule: less_induct)
  case (less v)
  have dig: "digit_char (v mod 10) = char_of (48 + v mod 10)"
    by (simp add: digit_char_def add.commute)
  have i: "0 < i" using less.prems num_text_nonempty [of 10 v] by (cases i) auto
  show ?case
  proof (cases "v < 10")
    case True
    then show ?thesis
      using i less.prems dig
      by (simp add: emit_decimal_loop.simps [of v] emit_decimal_loop.simps [of 0]
          num_text_step [of 10 v] splice_def upd_conv_take_nth_drop)
  next
    case False
    let ?t = "num_text 10 (v div 10)" and ?d = "digit_char (v mod 10)"
    have nt: "num_text 10 v = ?t @ [?d]" using False by (simp add: num_text_step [of 10 v])
    have l: "length ?t \<le> i - 1" using less.prems(1) by (simp add: nt)
    have "splice (i - 1 - length ?t) ?t (buf[i - 1 := ?d]) = splice (i - length (?t @ [?d])) (?t @ [?d]) buf"
      using i l less.prems by (intro nth_equalityI) (auto simp: nth_splice nth_list_update nth_append)
    moreover have "emit_decimal_loop (v div 10) (buf[i - 1 := ?d]) (i - 1) =
      Inr (splice (i - 1 - length ?t) ?t (buf[i - 1 := ?d]), i - 1 - length ?t)"
      using False l less.prems by (intro less.IH) auto
    ultimately show ?thesis
      using False i nt by (simp add: emit_decimal_loop.simps [of v] dig [symmetric])
  qed
qed

lemma emit_string_c_str: "c_str obj s \<Longrightarrow> emit_string obj = Inr s"
  by (induction s arbitrary: obj) (auto simp: c_str_def)

lemma emit_decimal_text:
  assumes "length buf = 21"
  shows "emit_decimal buf w = Inr (num_text 10 (unat w))"
proof (cases "w = 0")
  case True
  moreover have "char_of (48 :: nat) = CHR ''0''" by code_simp
  ultimately show ?thesis by (simp add: emit_decimal_def num_text_step digit_char_def)
next
  case False
  let ?v = "unat w" and ?b = "buf[20 := NUL]"
  let ?n = "num_text 10 ?v"
  have v: "0 < ?v" using False by (simp add: unat_gt_0)
  have l: "length ?n \<le> 20"
    using unsigned_less [of w, where 'a = nat] by (intro length_num_text) auto
  have "drop 20 ?b = [NUL]"
    using assms by (simp add: list_eq_iff_nth_eq)
  then have "drop (20 - length ?n) (splice (20 - length ?n) ?n ?b) = ?n @ [NUL]"
    using l assms by (simp add: splice_def)
  then have "c_str (drop (20 - length ?n) (splice (20 - length ?n) ?n ?b)) ?n"
    using num_text_chars(1) by (auto simp: c_str_def)
  then show ?thesis
    using False l v assms emit_decimal_loop_text [of ?v 20 ?b]
    by (simp add: emit_decimal_def emit_string_c_str)
qed

lemma uint_scast_u32:
  fixes w :: u32
  shows "uint (scast w :: u64) = (if sint w < 0 then 2 ^ 64 + sint w else sint w)"
proof -
  have "uint (scast w :: u64) = sint w mod 2 ^ 64"
    using uint_word_of_int [of "sint w", where 'a = 64] by simp
  then show ?thesis
    using sint_u32_range [of w] mod_pos_pos_trivial [of "2 ^ 64 + sint w" "2 ^ 64"] by simp
qed

text \<open>\<^verbatim>\<open>printk("%d", w)\<close> never overruns the 21-byte buffer of \<^verbatim>\<open>emit_decimal\<close> and prints a
  decimal text; the text denotes the argument when that is not negative and the argument plus
  \<open>2 ^ 64\<close> when it is negative, because the conversion is done unsigned and no sign is printed.\<close>

theorem printk_decimal:
  fixes w :: u32
  assumes "length buf = 21"
  shows "\<exists>ds. printk buf (''%d'' @ [NUL]) [VInt w] = Inr ds \<and> ds \<noteq> [] \<and> length ds \<le> 20 \<and>
    int (read_num 10 ds) = (if sint w < 0 then 2 ^ 64 + sint w else sint w)"
proof (intro exI conjI)
  let ?u = "scast w :: u64"
  show "printk buf (''%d'' @ [NUL]) [VInt w] = Inr (num_text 10 (unat ?u))"
    by (simp add: printk_def printk_loop.simps emit_decimal_text [OF assms])
  show "length (num_text 10 (unat ?u)) \<le> 20"
    using unsigned_less [of ?u, where 'a = nat] by (intro length_num_text) auto
  show "int (read_num 10 (num_text 10 (unat ?u))) = (if sint w < 0 then 2 ^ 64 + sint w else sint w)"
    using uint_scast_u32 [of w] by (simp add: read_num_text)
qed (rule num_text_nonempty)

theorem printk_decimal_witness:
  "\<exists>ds. printk (replicate 21 NUL) (''%d'' @ [NUL]) [VInt (- 1)] = Inr ds \<and> ds \<noteq> [] \<and>
     length ds \<le> 20 \<and> int (read_num 10 ds) = 18446744073709551615"
  using printk_decimal [of "replicate 21 NUL" "- 1"] by simp

lemma printk_loop_plain:
  "\<forall>c\<in>set s. c \<noteq> CHR ''%'' \<and> c \<noteq> NUL \<Longrightarrow>
     printk_loop g (s @ r) ap = bindE (printk_loop g r ap) (\<lambda>out. Inr (s @ out))"
proof (induction s)
  case Nil
  then show ?case by (cases "printk_loop g r ap") simp_all
next
  case (Cons c s)
  then show ?case
    by (cases "printk_loop g r ap") (simp_all add: printk_loop.simps [of g "c # s @ r"])
qed

text \<open>\<^verbatim>\<open>printk\<close> prints a format without conversions unchanged, and substitutes the string
  argument of \<^verbatim>\<open>%s\<close> between the plain text around it; a format that ends in a single percent
  sign makes it step over the terminator and read past the end of the format.\<close>

theorem printk_text:
  assumes "\<forall>c\<in>set (a @ b). c \<noteq> CHR ''%'' \<and> c \<noteq> NUL" "c_str obj s"
  shows "printk g (a @ ''%s'' @ b @ [NUL]) [VStr obj] = Inr (a @ s @ b) \<and>
         printk g (a @ [NUL]) [] = Inr a \<and>
         printk g (a @ ''%'' @ [NUL]) [] = Inl Out_of_bounds"
proof -
  have nul: "printk_loop g [NUL] ap = Inr []" for ap by (simp add: printk_loop.simps)
  have b: "printk_loop g (b @ [NUL]) ap = Inr b" for ap
    using assms printk_loop_plain [of b g "[NUL]" ap] by (simp add: nul)
  have "printk_loop g (''%s'' @ b @ [NUL]) [VStr obj] = Inr (s @ b)"
    using b emit_string_c_str [OF assms(2)] by (simp add: printk_loop.simps [of g "CHR ''%'' # _"])
  moreover have "printk_loop g (''%'' @ [NUL]) [] = Inl Out_of_bounds"
    by (simp add: printk_loop.simps [of g "CHR ''%'' # _"] printk_loop.simps [of g "[]"])
  ultimately show ?thesis
    using assms printk_loop_plain [of a g] by (simp add: printk_def nul)
qed

theorem printk_text_witness:
  "printk [] (''pid '' @ ''%s'' @ '' ok'' @ [NUL]) [VStr (''init'' @ [NUL])] = Inr (''pid '' @ ''init'' @ '' ok'')"
  using printk_text [of "''pid ''" "'' ok''" "''init'' @ [NUL]" "''init''" "[]"]
  by (simp add: c_str_def)

end
