(* ===== verification/Ring.thy ===== *)
theory Ring
  imports Prelude
begin

text \<open>
  Circular buffers with one slot kept free, the representation that \<^verbatim>\<open>drivers/keyboard.c\<close> and
  \<^verbatim>\<open>drivers/ioqueue.c\<close> both use: what such a buffer holds, the effect of storing at the head and
  of reading at the tail, and the interface \<open>bounded_queue\<close> with the first-in first-out law
  that its clients rely on.
\<close>

definition ring_contents :: "nat \<Rightarrow> 'a list \<Rightarrow> nat \<Rightarrow> nat \<Rightarrow> 'a list" where
  "ring_contents n buf h t = map (\<lambda>k. buf ! ((t + k) mod n)) [0..<(h + n - t) mod n]"

lemma ring_length: "length (ring_contents n buf h t) = (h + n - t) mod n"
  by (simp add: ring_contents_def)

lemma ring_distance:
  fixes h n t :: nat
  assumes "h < n" "t < n"
  shows "(h + n - t) mod n = (if t \<le> h then h - t else h + n - t)"
proof (cases "t \<le> h")
  case True
  then have "h + n - t = (h - t) + n" by simp
  then have "(h + n - t) mod n = (h - t) mod n" by (simp only: mod_add_self2)
  then show ?thesis using True assms by simp
next
  case False
  then show ?thesis using assms by simp
qed

lemma ring_next: "h < n \<Longrightarrow> Suc h mod n = (if Suc h = n then 0 else Suc h)"
  by auto

lemma ring_wrap: "t < (n :: nat) \<Longrightarrow> k \<le> n \<Longrightarrow> (t + k) mod n = (if t + k < n then t + k else t + k - n)"
  by (auto simp: le_mod_geq)

lemma ring_bound: "0 < n \<Longrightarrow> length (ring_contents n buf h t) \<le> n - 1"
  by (simp add: ring_length Suc_pred' less_Suc_eq_le [symmetric])

lemma ring_empty: "h < n \<Longrightarrow> t < n \<Longrightarrow> ring_contents n buf h t = [] \<longleftrightarrow> h = t"
  by (auto simp: ring_contents_def ring_distance)

lemma ring_full:
  "h < n \<Longrightarrow> t < n \<Longrightarrow> (h + 1) mod n = t \<longleftrightarrow> length (ring_contents n buf h t) = n - 1"
  by (auto simp: ring_length ring_distance ring_next)

lemma ring_push:
  assumes "h < n" "t < n" "length buf = n" "(h + 1) mod n \<noteq> t"
  shows "ring_contents n (buf[h := c]) ((h + 1) mod n) t = ring_contents n buf h t @ [c]"
proof -
  let ?d = "(h + n - t) mod n"
  have n: "Suc h mod n < n" using assms by simp
  have d: "(Suc h mod n + n - t) mod n = Suc ?d"
    using assms unfolding ring_distance [OF n assms(2)] ring_distance [OF assms(1,2)]
    by (auto simp: ring_next split: if_splits)
  have last: "(t + ?d) mod n = h"
    using assms by (auto simp: ring_distance ring_wrap)
  have before: "(t + k) mod n \<noteq> h" if "k < ?d" for k
    using that assms by (auto simp: ring_distance ring_wrap split: if_splits)
  have "map (\<lambda>k. buf[h := c] ! ((t + k) mod n)) [0..<?d] = ring_contents n buf h t"
    using before [THEN not_sym] by (auto simp: ring_contents_def)
  then show ?thesis
    using assms by (simp add: ring_contents_def [of _ "buf[h := c]"] d last)
qed

lemma ring_pop:
  assumes "h < n" "t < n" "h \<noteq> t"
  shows "ring_contents n buf h t = buf ! t # ring_contents n buf h ((t + 1) mod n)"
proof -
  let ?d = "(h + n - t) mod n"
  have n: "(t + 1) mod n < n" using assms by simp
  have d: "?d = Suc ((h + n - (t + 1) mod n) mod n)"
    using assms unfolding ring_distance [OF assms(1) n] ring_distance [OF assms(1,2)]
    by (auto simp: ring_next split: if_splits)
  have shift: "(Suc t mod n + k) mod n = Suc (t + k) mod n" for k
    by (metis add_Suc mod_add_left_eq)
  show ?thesis
    using assms by (simp add: ring_contents_def d upt_conv_Cons map_Suc_upt [symmetric]
        shift comp_def del: upt_Suc)
qed

section \<open>Bounded first-in first-out queues\<close>

datatype 'a queue_op = Put 'a | Get

text \<open>A sequence of attempts: a \<open>Put\<close> on a full queue and a \<open>Get\<close> on an empty one are refused.
  The result lists what was accepted, what was delivered, and the queue at the end.\<close>

fun run_queue ::
  "('q \<Rightarrow> bool) \<Rightarrow> ('q \<Rightarrow> 'a \<Rightarrow> 'q) \<Rightarrow> ('q \<Rightarrow> bool) \<Rightarrow> ('q \<Rightarrow> 'a \<times> 'q) \<Rightarrow> 'q \<Rightarrow>
     'a queue_op list \<Rightarrow> 'a list \<times> 'a list \<times> 'q" where
  "run_queue full push empt pop q [] = ([], [], q)"
| "run_queue full push empt pop q (Put x # ops) =
     (if full q then run_queue full push empt pop q ops
      else (case run_queue full push empt pop (push q x) ops of
              (acc, out, q') \<Rightarrow> (x # acc, out, q')))"
| "run_queue full push empt pop q (Get # ops) =
     (if empt q then run_queue full push empt pop q ops
      else (case run_queue full push empt pop (snd (pop q)) ops of
              (acc, out, q') \<Rightarrow> (acc, fst (pop q) # out, q')))"

locale bounded_queue =
  fixes full :: "'q \<Rightarrow> bool"
    and push :: "'q \<Rightarrow> 'a \<Rightarrow> 'q"
    and empt :: "'q \<Rightarrow> bool"
    and pop :: "'q \<Rightarrow> 'a \<times> 'q"
    and contents :: "'q \<Rightarrow> 'a list"
    and cap :: nat
    and wf :: "'q \<Rightarrow> bool"
  assumes full_iff: "wf q \<Longrightarrow> full q \<longleftrightarrow> length (contents q) = cap"
    and empt_iff: "wf q \<Longrightarrow> empt q \<longleftrightarrow> contents q = []"
    and within: "wf q \<Longrightarrow> length (contents q) \<le> cap"
    and push_ok: "wf q \<Longrightarrow> \<not> full q \<Longrightarrow> wf (push q x) \<and> contents (push q x) = contents q @ [x]"
    and pop_ok: "wf q \<Longrightarrow> \<not> empt q \<Longrightarrow>
      wf (snd (pop q)) \<and> contents q = fst (pop q) # contents (snd (pop q))"
begin

lemma run_wf: "wf q \<Longrightarrow> wf (snd (snd (run_queue full push empt pop q ops)))"
proof (induction ops arbitrary: q)
  case Nil
  then show ?case by simp
next
  case (Cons op ops)
  show ?case
  proof (cases op)
    case (Put x)
    then show ?thesis
      using Cons.prems Cons.IH [of q] Cons.IH [of "push q x"] push_ok [of q x]
      by (auto split: prod.splits)
  next
    case Get
    then show ?thesis
      using Cons.prems Cons.IH [of q] Cons.IH [of "snd (pop q)"] pop_ok [of q]
      by (auto split: prod.splits)
  qed
qed

lemma fifo:
  "wf q \<Longrightarrow> run_queue full push empt pop q ops = (acc, out, q') \<Longrightarrow>
     contents q @ acc = out @ contents q'"
proof (induction ops arbitrary: q acc out)
  case Nil
  then show ?case by simp
next
  case (Cons op ops)
  show ?case
  proof (cases op)
    case (Put x)
    then show ?thesis
      using Cons.prems Cons.IH [of q] Cons.IH [of "push q x"] push_ok [of q x]
      by (fastforce split: if_splits prod.splits)
  next
    case Get
    then show ?thesis
      using Cons.prems Cons.IH [of q] Cons.IH [of "snd (pop q)"] pop_ok [of q]
      by (fastforce split: if_splits prod.splits)
  qed
qed

lemma refused_only_when_full:
  "wf q \<Longrightarrow> length (contents q) + length ops \<le> cap \<Longrightarrow>
     fst (run_queue full push empt pop q (map Put ops)) = ops"
proof (induction ops arbitrary: q)
  case Nil
  then show ?case by simp
next
  case (Cons x ops)
  then have "\<not> full q" using full_iff [of q] by simp
  then show ?case
    using Cons.prems Cons.IH [of "push q x"] push_ok [of q x] by (auto split: prod.splits)
qed

end

end
