(* ===== verification/Keyboard.thy ===== *)
theory Keyboard
  imports Ring
begin

text \<open>
  The keyboard driver of the x86-64 kernel, \<^verbatim>\<open>drivers/keyboard.c\<close>: the scan-code decoder run by
  the interrupt, the 128-slot ring it fills, and the polling reader, which falls back to the
  serial port. Port input is an argument: the scan code an interrupt finds in port 0x60, and for
  every turn of the reader's loop the scan codes of the interrupts taken before the ring is
  tested, the line status and the data register of COM1.
\<close>

section \<open>State and tables\<close>

record keyboard =
  kbd_ring :: "char list"
  kbd_head :: u32
  kbd_tail :: u32
  shift_down :: u8
  ext_scancode :: u8

definition KBD_BUF_SIZE :: u32 where "KBD_BUF_SIZE = 128"

definition pad :: "char list \<Rightarrow> char list" where
  "pad xs = xs @ replicate (128 - length xs) NUL"

definition keymap :: "char list" where
  "keymap = pad
     ([NUL, CHR 0x1B] @ ''1234567890-='' @ [CHR 0x08] @
      [CHR 0x09] @ ''qwertyuiop[]'' @ [CHR 0x0D] @
      [NUL] @ ''asdfghjkl;'' @ [CHR 0x27, CHR 0x60] @
      [NUL, CHR 0x5C] @ ''zxcvbnm,./'' @ [NUL] @
      ''*'' @ [NUL] @ '' '')"

definition keymap_shift :: "char list" where
  "keymap_shift = pad
     ([NUL, CHR 0x1B] @ ''!@#$%^&*()_+'' @ [CHR 0x08] @
      [CHR 0x09] @ ''QWERTYUIOP{}'' @ [CHR 0x0D] @
      [NUL] @ ''ASDFGHJKL:'' @ [CHR 0x22, CHR 0x7E] @
      [NUL, CHR 0x7C] @ ''ZXCVBNM<>?'' @ [NUL] @
      ''*'' @ [NUL] @ '' '')"

section \<open>Operations\<close>

definition kbd_push :: "keyboard \<Rightarrow> char \<Rightarrow> keyboard" where
  "kbd_push k ch =
     (let next = (kbd_head k + 1) mod KBD_BUF_SIZE in
      if next = kbd_tail k then k
      else k\<lparr>kbd_ring := (kbd_ring k)[unat (kbd_head k) := ch], kbd_head := next\<rparr>)"

definition kbd_irq :: "keyboard \<Rightarrow> u8 \<Rightarrow> keyboard" where
  "kbd_irq k sc =
     (if sc = 0 then k\<lparr>ext_scancode := 0\<rparr>
      else if sc = 0xe0 then k\<lparr>ext_scancode := 1\<rparr>
      else if sc = 0x2a \<or> sc = 0x36 then k\<lparr>shift_down := 1\<rparr>
      else if sc = 0xaa \<or> sc = 0xb6 then k\<lparr>shift_down := 0\<rparr>
      else if sc AND 0x80 \<noteq> 0 then k
      else if sc \<ge> 128 then k
      else (let k = (if shift_down k \<noteq> 0 then kbd_push k (keymap_shift ! unat sc)
                     else kbd_push k (keymap ! unat sc))
            in k\<lparr>ext_scancode := 0\<rparr>))"

text \<open>The part of \<^verbatim>\<open>keyboard_read_char\<close> that takes the oldest character out of the ring.\<close>

definition kbd_take :: "keyboard \<Rightarrow> char \<times> keyboard" where
  "kbd_take k = (kbd_ring k ! unat (kbd_tail k),
                 k\<lparr>kbd_tail := (kbd_tail k + 1) mod KBD_BUF_SIZE\<rparr>)"

type_synonym kbd_poll = "u8 list \<times> u8 \<times> u8"

text \<open>\<^verbatim>\<open>keyboard_read_char\<close>; \<open>None\<close> is the reader still looping when the polls are used up.\<close>

fun keyboard_read_char :: "keyboard \<Rightarrow> kbd_poll list \<Rightarrow> (nat \<times> keyboard) option" where
  "keyboard_read_char k [] = None"
| "keyboard_read_char k ((irqs, lsr, dat) # polls) =
     (let k = foldl kbd_irq k irqs in
      if kbd_head k \<noteq> kbd_tail k then (case kbd_take k of (c, k) \<Rightarrow> Some (of_char c, k))
      else if lsr \<noteq> 0xff \<and> lsr AND 1 \<noteq> 0 then Some (unat dat, k)
      else keyboard_read_char k polls)"

definition keyboard_boot :: keyboard where
  "keyboard_boot = \<lparr>kbd_ring = replicate 128 NUL, kbd_head = 0, kbd_tail = 0, shift_down = 0,
     ext_scancode = 0\<rparr>"

section \<open>The ring as a queue\<close>

definition kbd_full :: "keyboard \<Rightarrow> bool" where
  "kbd_full k \<longleftrightarrow> (kbd_head k + 1) mod KBD_BUF_SIZE = kbd_tail k"

definition kbd_none :: "keyboard \<Rightarrow> bool" where
  "kbd_none k \<longleftrightarrow> kbd_head k = kbd_tail k"

definition kbd_wf :: "keyboard \<Rightarrow> bool" where
  "kbd_wf k \<longleftrightarrow> length (kbd_ring k) = 128 \<and> unat (kbd_head k) < 128 \<and> unat (kbd_tail k) < 128"

definition kbd_pending :: "keyboard \<Rightarrow> char list" where
  "kbd_pending k = ring_contents 128 (kbd_ring k) (unat (kbd_head k)) (unat (kbd_tail k))"

lemma unat_next:
  assumes "unat (h :: u32) < 128"
  shows "unat ((h + 1) mod KBD_BUF_SIZE) = (unat h + 1) mod 128"
proof -
  have "unat (h + 1) = unat h + 1" using assms by (subst unat_add_lem [THEN iffD1]) auto
  then show ?thesis by (simp add: KBD_BUF_SIZE_def unat_mod)
qed

lemma kbd_full_nat:
  "kbd_wf k \<Longrightarrow> kbd_full k \<longleftrightarrow> (unat (kbd_head k) + 1) mod 128 = unat (kbd_tail k)"
  using unat_next [of "kbd_head k"] by (auto simp: kbd_full_def kbd_wf_def word_unat_eq_iff)

lemma kbd_push_full: "kbd_full k \<Longrightarrow> kbd_push k c = k"
  by (simp add: kbd_full_def kbd_push_def)

interpretation kb: bounded_queue kbd_full kbd_push kbd_none kbd_take kbd_pending 127 kbd_wf
proof
  fix k c
  assume wf: "kbd_wf k"
  then have idx: "unat (kbd_head k) < 128" "unat (kbd_tail k) < 128" "length (kbd_ring k) = 128"
    by (auto simp: kbd_wf_def)
  show "kbd_full k \<longleftrightarrow> length (kbd_pending k) = 127"
    using ring_full [of "unat (kbd_head k)" 128 "unat (kbd_tail k)" "kbd_ring k"] idx
    by (simp add: kbd_full_nat [OF wf] kbd_pending_def)
  show "kbd_none k \<longleftrightarrow> kbd_pending k = []"
    using ring_empty [OF idx(1,2), of "kbd_ring k"]
    by (simp add: kbd_none_def kbd_pending_def word_unat_eq_iff)
  show "length (kbd_pending k) \<le> 127"
    using ring_bound [of 128 "kbd_ring k"] by (simp add: kbd_pending_def)
  show "kbd_wf (kbd_push k c) \<and> kbd_pending (kbd_push k c) = kbd_pending k @ [c]"
    if "\<not> kbd_full k"
    using that idx kbd_full_nat [OF wf] unat_next [OF idx(1)]
      ring_push [of "unat (kbd_head k)" 128 "unat (kbd_tail k)" "kbd_ring k" c]
    by (simp add: kbd_push_def kbd_full_def kbd_wf_def kbd_pending_def Let_def)
  show "kbd_wf (snd (kbd_take k)) \<and>
        kbd_pending k = fst (kbd_take k) # kbd_pending (snd (kbd_take k))" if "\<not> kbd_none k"
    using that idx unat_next [OF idx(2)]
      ring_pop [of "unat (kbd_head k)" 128 "unat (kbd_tail k)" "kbd_ring k"]
    by (simp add: kbd_take_def kbd_none_def kbd_wf_def kbd_pending_def word_unat_eq_iff)
qed

lemma kbd_boot: "kbd_wf keyboard_boot" "kbd_pending keyboard_boot = []"
  by (simp_all add: keyboard_boot_def kbd_wf_def kbd_pending_def ring_contents_def)

lemma kbd_push_any:
  "kbd_wf k \<Longrightarrow> kbd_wf (kbd_push k c) \<and>
     kbd_pending (kbd_push k c) = kbd_pending k @ (if length (kbd_pending k) < 127 then [c] else [])"
  using kb.full_iff [of k] kb.within [of k] kb.push_ok [of k c] kbd_push_full [of k c] by fastforce

section \<open>Decoding\<close>

text \<open>The character a scan code stands for, if any: make codes only, the shift keys excepted.\<close>

definition key_char :: "bool \<Rightarrow> u8 \<Rightarrow> char option" where
  "key_char shifted sc =
     (if sc = 0 \<or> sc \<ge> 128 \<or> sc = 0x2a \<or> sc = 0x36 then None
      else Some ((if shifted then keymap_shift else keymap) ! unat sc))"

definition shift_after :: "bool \<Rightarrow> u8 \<Rightarrow> bool" where
  "shift_after shifted sc =
     (if sc = 0x2a \<or> sc = 0x36 then True else if sc = 0xaa \<or> sc = 0xb6 then False else shifted)"

lemma high_bit: "(sc :: u8) AND 0x80 \<noteq> 0 \<longleftrightarrow> sc \<ge> 128"
proof -
  have "sc AND 0x80 \<noteq> 0 \<longleftrightarrow> bit sc 7"
    using and_exp_eq_0_iff_not_bit [of sc 7] by simp
  also have "\<dots> \<longleftrightarrow> bit (unat sc) 7" by (simp add: bit_unsigned_iff)
  also have "\<dots> \<longleftrightarrow> odd (unat sc div 128)" by (simp add: bit_iff_odd)
  also have "\<dots> \<longleftrightarrow> unat sc \<ge> 128"
  proof -
    have "unat sc div 128 \<in> {0, 1}"
      using unsigned_less [of sc, where 'a = nat] by (auto simp: less_mult_imp_div_less div_eq_0_iff)
    then show ?thesis by (auto simp: div_eq_0_iff)
  qed
  finally show ?thesis by (simp add: word_le_nat_alt)
qed

lemma kbd_irq_state:
  assumes "kbd_wf k"
  shows "kbd_wf (kbd_irq k sc)"
    and "kbd_pending (kbd_irq k sc) = kbd_pending k @
           (case key_char (shift_down k \<noteq> 0) sc of None \<Rightarrow> []
            | Some c \<Rightarrow> if length (kbd_pending k) < 127 then [c] else [])"
    and "shift_down (kbd_irq k sc) \<noteq> 0 \<longleftrightarrow> shift_after (shift_down k \<noteq> 0) sc"
proof -
  have upd: "kbd_wf (k\<lparr>ext_scancode := e\<rparr>) = kbd_wf k" "kbd_wf (k\<lparr>shift_down := e\<rparr>) = kbd_wf k"
    "kbd_pending (k\<lparr>ext_scancode := e\<rparr>) = kbd_pending k"
    "kbd_pending (k\<lparr>shift_down := e\<rparr>) = kbd_pending k" for k e
    by (simp_all add: kbd_wf_def kbd_pending_def)
  have sh: "shift_down (kbd_push k c) = shift_down k" for c
    by (simp add: kbd_push_def Let_def)
  note defs = kbd_irq_def upd high_bit key_char_def shift_after_def Let_def
  show "kbd_wf (kbd_irq k sc)"
    using assms kbd_push_any [OF assms] by (simp add: defs)
  show "kbd_pending (kbd_irq k sc) = kbd_pending k @
           (case key_char (shift_down k \<noteq> 0) sc of None \<Rightarrow> []
            | Some c \<Rightarrow> if length (kbd_pending k) < 127 then [c] else [])"
    using kbd_push_any [OF assms] by (simp add: defs)
  show "shift_down (kbd_irq k sc) \<noteq> 0 \<longleftrightarrow> shift_after (shift_down k \<noteq> 0) sc"
    by (simp add: defs sh)
qed

section \<open>Typing and reading\<close>

text \<open>What a sequence of scan codes types, read off the key tables.\<close>

fun typed :: "bool \<Rightarrow> u8 list \<Rightarrow> char list" where
  "typed shifted [] = []"
| "typed shifted (sc # scs) =
     (case key_char shifted sc of None \<Rightarrow> [] | Some c \<Rightarrow> [c]) @ typed (shift_after shifted sc) scs"

lemma kbd_irqs:
  "kbd_wf k \<Longrightarrow> kbd_wf (foldl kbd_irq k scs) \<and>
     kbd_pending (foldl kbd_irq k scs) = take 127 (kbd_pending k @ typed (shift_down k \<noteq> 0) scs) \<and>
     (shift_down (foldl kbd_irq k scs) \<noteq> 0 \<longleftrightarrow> foldl shift_after (shift_down k \<noteq> 0) scs)"
proof (induction scs arbitrary: k)
  case Nil
  then show ?case using kb.within [of k] by simp
next
  case (Cons sc scs)
  note st = kbd_irq_state [OF Cons.prems, of sc]
  note IH = Cons.IH [OF st(1)]
  show ?case
    using IH kb.within [OF Cons.prems] by (auto simp: st(2,3) split: option.splits)
qed

lemma typed_append: "typed b (xs @ ys) = typed b xs @ typed (foldl shift_after b xs) ys"
  by (induction xs arbitrary: b) auto

lemma read_step:
  assumes "kbd_wf k"
  shows "kbd_head k \<noteq> kbd_tail k \<longleftrightarrow> kbd_pending k \<noteq> []"
  using kb.empt_iff [OF assms] by (simp add: kbd_none_def)

text \<open>C28: The interrupt path of the keyboard driver refines typing: after any sequence of scan codes
  the ring holds what was pending followed by the characters the key tables give for the
  sequence (with the shift state it builds up), cut off at 127 characters; the head and tail
  indices stay inside the ring.\<close>

theorem kbd_irq_types:
  assumes "kbd_wf k"
  shows "kbd_wf (foldl kbd_irq k scs) \<and>
    kbd_pending (foldl kbd_irq k scs) = take 127 (kbd_pending k @ typed (shift_down k \<noteq> 0) scs)"
  using kbd_irqs [OF assms] by blast

theorem kbd_irq_types_witness:
  "kbd_wf (foldl kbd_irq keyboard_boot [0x2a, 0x23, 0xa3, 0xaa, 0x17]) \<and>
   kbd_pending (foldl kbd_irq keyboard_boot [0x2a, 0x23, 0xa3, 0xaa, 0x17]) =
     take 127 (typed False [0x2a, 0x23, 0xa3, 0xaa, 0x17])"
  using kbd_irq_types [OF kbd_boot(1), of "[0x2a, 0x23, 0xa3, 0xaa, 0x17]"]
  unfolding kbd_boot(2) by (simp add: keyboard_boot_def)

text \<open>The keyboard ring is first-in first-out and loses nothing it accepted: for every interleaving
  of stores and reads from the boot state, the characters accepted are those delivered followed
  by those still pending, and the ring refuses a character only when 127 are pending.\<close>

theorem kbd_ring_fifo:
  "case run_queue kbd_full kbd_push kbd_none kbd_take keyboard_boot ops of (acc, out, k) \<Rightarrow>
     acc = out @ kbd_pending k \<and> kbd_wf k \<and> length (kbd_pending k) \<le> 127 \<and>
     (kbd_full k \<longleftrightarrow> length (kbd_pending k) = 127)"
proof -
  obtain acc out k where
    run: "run_queue kbd_full kbd_push kbd_none kbd_take keyboard_boot ops = (acc, out, k)"
    by (cases "run_queue kbd_full kbd_push kbd_none kbd_take keyboard_boot ops")
  have "acc = out @ kbd_pending k" using kb.fifo [OF kbd_boot(1) run] by (simp add: kbd_boot)
  moreover have "kbd_wf k" using kb.run_wf [OF kbd_boot(1), of ops] run by simp
  ultimately show ?thesis using run kb.within kb.full_iff by simp
qed

text \<open>The blocking reader returns as soon as there is something to read, and only then: its loop is
  still running after a nonempty sequence of polls exactly when the ring was empty, the
  interrupts taken meanwhile typed nothing, and no poll saw a serial line that was present and
  had data ready. A poll that finds the ring nonempty returns its oldest character.\<close>

theorem keyboard_read_char_returns:
  assumes "kbd_wf k" "polls \<noteq> []"
  shows "(keyboard_read_char k polls = None \<longleftrightarrow>
           kbd_pending k = [] \<and> typed (shift_down k \<noteq> 0) (concat (map fst polls)) = [] \<and>
           list_all (\<lambda>(irqs, lsr, dat). lsr = 0xff \<or> lsr AND 1 = 0) polls) \<and>
         (\<forall>c cs. kbd_pending k = c # cs \<longrightarrow> (\<exists>k'. keyboard_read_char k polls = Some (of_char c, k')))"
  using assms
proof (induction polls arbitrary: k)
  case Nil
  then show ?case by simp
next
  case (Cons p polls)
  obtain irqs lsr dat where p: "p = (irqs, lsr, dat)" by (cases p)
  let ?k = "foldl kbd_irq k irqs" and ?b = "shift_down k \<noteq> 0"
  note ir = kbd_irqs [OF Cons.prems(1), of irqs]
  show ?case
  proof (cases "kbd_pending ?k = []")
    case False
    then obtain c k' where "kbd_take ?k = (c, k')" "kbd_pending ?k = c # kbd_pending k'"
      using kb.pop_ok [of ?k] kb.empt_iff [of ?k] ir by (cases "kbd_take ?k") auto
    then show ?thesis
      using ir False read_step [of ?k] by (auto simp: p Let_def typed_append take_Cons')
  next
    case True
    then have none: "kbd_pending k = []" "typed ?b irqs = []" using ir by auto
    have rec: "keyboard_read_char ?k polls = None \<longleftrightarrow>
      typed (foldl shift_after ?b irqs) (concat (map fst polls)) = [] \<and>
      list_all (\<lambda>(irqs, lsr, dat). lsr = 0xff \<or> lsr AND 1 = 0) polls"
      using Cons.IH [of ?k] ir True by (cases "polls = []") auto
    show ?thesis
      using none True ir rec read_step [of ?k] by (auto simp: p Let_def typed_append)
  qed
qed

theorem keyboard_read_char_returns_witness:
  "keyboard_read_char keyboard_boot [([0x2a, 0xaa], 0, 0), ([], 0xff, 7)] = None \<longleftrightarrow>
     typed False [0x2a, 0xaa] = []"
  using keyboard_read_char_returns [OF kbd_boot(1), of "[([0x2a, 0xaa], 0, 0), ([], 0xff, 7)]"]
  unfolding kbd_boot(2) by (simp add: keyboard_boot_def)

end
