(* ===== verification/Shell.thy ===== *)
theory Shell
  imports Format Keyboard
begin

text \<open>
  The interactive shell of the x86-64 kernel: \<^verbatim>\<open>shell/repl.c\<close> (line editor, argument parser,
  main loop) and \<^verbatim>\<open>shell/cmd.c\<close> (command table and commands), with the console operations of
  \<^verbatim>\<open>drivers/console.c\<close> as output events. Pointers into the line buffer are offsets.
\<close>

section \<open>State\<close>

datatype io_event = Con_char char | Con_clear | Port_out u8 u16

record shell =
  line_buf :: "char list"
  argv_buf :: "nat option list"
  pos :: nat
  screen :: "io_event list"

definition AITOS_SHELL_LINE_MAX :: nat where "AITOS_SHELL_LINE_MAX = 128"

definition SHELL_EXIT :: int where "SHELL_EXIT = 1"

abbreviation LF :: char where "LF \<equiv> CHR 0x0A"

text \<open>\<^verbatim>\<open>printk\<close> on the active console. The shell never prints a number, so the uninitialised
  digit buffer of \<^verbatim>\<open>emit_decimal\<close> is immaterial here.\<close>

definition sh_printk :: "char list \<Rightarrow> va_arg list \<Rightarrow> shell \<Rightarrow> shell result" where
  "sh_printk fmt ap sh =
     bindE (printk (replicate 21 NUL) (fmt @ [NUL]) ap) (\<lambda>out.
       Inr (sh\<lparr>screen := screen sh @ map Con_char out\<rparr>))"

definition console_clear :: "shell \<Rightarrow> shell" where
  "console_clear sh = sh\<lparr>screen := screen sh @ [Con_clear]\<rparr>"

section \<open>The argument parser\<close>

definition blank :: "char \<Rightarrow> bool" where
  "blank c \<longleftrightarrow> c = CHR '' '' \<or> c = CHR 0x09"

function skip_blanks :: "char list \<Rightarrow> nat \<Rightarrow> nat result" where
  "skip_blanks line p =
     (if p \<ge> length line then Inl Out_of_bounds
      else if blank (line ! p) then skip_blanks line (p + 1) else Inr p)"
  by pat_completeness auto
termination
  by (relation "measure (\<lambda>(line, p). length line - p)") auto

function word_end :: "char list \<Rightarrow> nat \<Rightarrow> nat result" where
  "word_end line p =
     (if p \<ge> length line then Inl Out_of_bounds
      else if line ! p \<noteq> NUL \<and> \<not> blank (line ! p) then word_end line (p + 1) else Inr p)"
  by pat_completeness auto
termination
  by (relation "measure (\<lambda>(line, p). length line - p)") auto

declare skip_blanks.simps [simp del] word_end.simps [simp del]

text \<open>The second loop of \<^verbatim>\<open>parse_line\<close>; the count of turns left, \<open>max_arg - 1 - argc\<close>, is the
  recursion argument, so that \<open>argc\<close> is \<open>length args\<close> for the pointers stored so far.\<close>

fun parse_args :: "nat \<Rightarrow> char list \<Rightarrow> nat \<Rightarrow> nat list \<Rightarrow> (nat list \<times> char list) result" where
  "parse_args 0 line p args = (if p \<ge> length line then Inl Out_of_bounds else Inr (args, line))"
| "parse_args (Suc n) line p args =
     (if p \<ge> length line then Inl Out_of_bounds
      else if line ! p = NUL then Inr (args, line)
      else bindE (word_end line p) (\<lambda>q.
             if line ! q = NUL then Inr (args @ [p], line)
             else bindE (skip_blanks (line[q := NUL]) (q + 1)) (\<lambda>p'.
                    parse_args n (line[q := NUL]) p' (args @ [p]))))"

text \<open>The stores into \<^verbatim>\<open>argv\<close> and the final \<^verbatim>\<open>argv[argc] = NULL\<close>.\<close>

definition parse_line ::
  "char list \<Rightarrow> nat option list \<Rightarrow> nat \<Rightarrow> (nat \<times> char list \<times> nat option list) result" where
  "parse_line line argv max_arg =
     bindE (skip_blanks line 0) (\<lambda>p.
     bindE (parse_args (max_arg - 1) line p []) (\<lambda>(args, line).
       if length args < length argv
       then Inr (length args, line,
                 splice 0 (map Some args @ [None]) argv)
       else Inl Out_of_bounds))"

section \<open>Commands\<close>

datatype shell_handler = Cmd_help | Cmd_clear | Cmd_version | Cmd_echo | Cmd_uname | Cmd_exit

record shell_cmd =
  name :: "char list"
  handler :: shell_handler
  help_text :: "char list"

definition shell_cmds :: "shell_cmd list" where
  "shell_cmds =
     [\<lparr>name = ''help'', handler = Cmd_help, help_text = ''show available commands''\<rparr>,
      \<lparr>name = ''clear'', handler = Cmd_clear, help_text = ''clear the screen''\<rparr>,
      \<lparr>name = ''version'', handler = Cmd_version, help_text = ''show AiTOS version''\<rparr>,
      \<lparr>name = ''echo'', handler = Cmd_echo, help_text = ''echo arguments''\<rparr>,
      \<lparr>name = ''uname'', handler = Cmd_uname, help_text = ''print system information''\<rparr>,
      \<lparr>name = ''exit'', handler = Cmd_exit, help_text = ''leave shell and stop QEMU''\<rparr>,
      \<lparr>name = ''logout'', handler = Cmd_exit, help_text = ''alias of exit''\<rparr>]"

text \<open>\<^verbatim>\<open>argv[i]\<close> as an object; a null or missing pointer is \<open>Out_of_bounds\<close> when dereferenced.\<close>

definition arg_obj :: "shell \<Rightarrow> nat \<Rightarrow> char list result" where
  "arg_obj sh i =
     (if i < length (argv_buf sh)
      then (case argv_buf sh ! i of None \<Rightarrow> Inl Out_of_bounds | Some p \<Rightarrow> Inr (drop p (line_buf sh)))
      else Inl Out_of_bounds)"

fun help_loop :: "shell_cmd list \<Rightarrow> shell \<Rightarrow> shell result" where
  "help_loop [] sh = Inr sh"
| "help_loop (c # cs) sh =
     bindE (sh_printk (''  %s - %s'' @ [LF]) [VStr (name c @ [NUL]), VStr (help_text c @ [NUL])] sh)
       (help_loop cs)"

definition shell_print_help :: "shell \<Rightarrow> shell result" where
  "shell_print_help sh = bindE (sh_printk (''Available commands:'' @ [LF]) [] sh) (help_loop shell_cmds)"

definition cmd_help :: "nat \<Rightarrow> shell \<Rightarrow> (int \<times> shell) result" where
  "cmd_help argc sh = bindE (shell_print_help sh) (\<lambda>sh. Inr (0, sh))"

definition cmd_clear :: "nat \<Rightarrow> shell \<Rightarrow> (int \<times> shell) result" where
  "cmd_clear argc sh = Inr (0, console_clear sh)"

definition cmd_version :: "nat \<Rightarrow> shell \<Rightarrow> (int \<times> shell) result" where
  "cmd_version argc sh = bindE (sh_printk (''AiTOS 0.1.0-mvp (x86-64)'' @ [LF]) [] sh) (\<lambda>sh. Inr (0, sh))"

text \<open>The loop of \<^verbatim>\<open>cmd_echo\<close> over the indices \<open>i .. argc - 1\<close>.\<close>

fun echo_loop :: "nat list \<Rightarrow> shell \<Rightarrow> shell result" where
  "echo_loop [] sh = Inr sh"
| "echo_loop (i # is) sh =
     bindE (if i > 1 then sh_printk '' '' [] sh else Inr sh) (\<lambda>sh.
     bindE (arg_obj sh i) (\<lambda>obj.
     bindE (sh_printk ''%s'' [VStr obj] sh) (echo_loop is)))"

definition cmd_echo :: "nat \<Rightarrow> shell \<Rightarrow> (int \<times> shell) result" where
  "cmd_echo argc sh =
     bindE (echo_loop [1..<argc] sh) (\<lambda>sh. bindE (sh_printk [LF] [] sh) (\<lambda>sh. Inr (0, sh)))"

definition cmd_uname :: "nat \<Rightarrow> shell \<Rightarrow> (int \<times> shell) result" where
  "cmd_uname argc sh = bindE (sh_printk (''AiTOS'' @ [LF]) [] sh) (\<lambda>sh. Inr (0, sh))"

definition cmd_exit :: "nat \<Rightarrow> shell \<Rightarrow> (int \<times> shell) result" where
  "cmd_exit argc sh = Inr (SHELL_EXIT, sh)"

fun run_handler :: "shell_handler \<Rightarrow> nat \<Rightarrow> shell \<Rightarrow> (int \<times> shell) result" where
  "run_handler Cmd_help = cmd_help"
| "run_handler Cmd_clear = cmd_clear"
| "run_handler Cmd_version = cmd_version"
| "run_handler Cmd_echo = cmd_echo"
| "run_handler Cmd_uname = cmd_uname"
| "run_handler Cmd_exit = cmd_exit"

fun dispatch_loop :: "shell_cmd list \<Rightarrow> char list \<Rightarrow> nat \<Rightarrow> shell \<Rightarrow> (int \<times> shell) result" where
  "dispatch_loop [] obj argc sh =
     bindE (sh_printk (''aitos-sh: %s: command not found'' @ [LF]) [VStr obj] sh) (\<lambda>sh. Inr (-1, sh))"
| "dispatch_loop (cmd # cmds) obj argc sh =
     bindE (strcmp obj (name cmd @ [NUL])) (\<lambda>d.
       if d = 0 then run_handler (handler cmd) argc sh else dispatch_loop cmds obj argc sh)"

definition shell_dispatch :: "nat \<Rightarrow> shell \<Rightarrow> (int \<times> shell) result" where
  "shell_dispatch argc sh =
     (if argc < 1 then Inr (0, sh)
      else if length (argv_buf sh) = 0 then Inl Out_of_bounds
      else (case argv_buf sh ! 0 of
              None \<Rightarrow> Inr (0, sh)
            | Some p \<Rightarrow>
                (case drop p (line_buf sh) of
                   [] \<Rightarrow> Inl Out_of_bounds
                 | c # cs \<Rightarrow> if c = NUL then Inr (0, sh)
                            else dispatch_loop shell_cmds (c # cs) argc sh)))"

section \<open>The main loop\<close>

text \<open>\<^verbatim>\<open>shell_shutdown\<close> halts the processor, so the state it leaves is final.\<close>

datatype shell_next = Running shell | Halted shell

definition print_prompt :: "shell \<Rightarrow> shell result" where
  "print_prompt sh = sh_printk ''[aitos@localhost]$ '' [] sh"

definition shell_shutdown :: "shell \<Rightarrow> shell_next result" where
  "shell_shutdown sh =
     bindE (sh_printk (''logout'' @ [LF]) [] sh) (\<lambda>sh.
     bindE (sh_printk (''AiTOS halted. Use Ctrl-A X to quit QEMU.'' @ [LF]) []
              (sh\<lparr>screen := screen sh @ [Port_out 0 0xf4]\<rparr>)) (\<lambda>sh. Inr (Halted sh)))"

text \<open>One turn of the loop of \<^verbatim>\<open>shell_run\<close> on the character read.\<close>

definition shell_enter :: "shell \<Rightarrow> shell_next result" where
  "shell_enter sh =
     (if pos sh \<ge> length (line_buf sh) then Inl Out_of_bounds
      else let sh = sh\<lparr>line_buf := (line_buf sh)[pos sh := NUL]\<rparr> in
      bindE (sh_printk [LF] [] sh) (\<lambda>sh.
      bindE (if pos sh > 0
             then bindE (parse_line (line_buf sh) (argv_buf sh) 16) (\<lambda>(argc, line, argv).
                  shell_dispatch argc (sh\<lparr>line_buf := line, argv_buf := argv\<rparr>))
             else Inr (0, sh)) (\<lambda>(ret, sh).
        if ret = SHELL_EXIT then shell_shutdown sh
        else bindE (print_prompt (sh\<lparr>pos := 0\<rparr>)) (\<lambda>sh. Inr (Running sh)))))"

definition shell_key :: "shell \<Rightarrow> char \<Rightarrow> shell_next result" where
  "shell_key sh c =
     (let ch = (if c = CHR 0x0D then LF else c) in
      if ch = CHR 0x04 \<and> pos sh = 0 then bindE (sh_printk [LF] [] sh) shell_shutdown
      else if ch = CHR 0x03 then
        bindE (sh_printk (''^C'' @ [LF]) [] (sh\<lparr>pos := 0\<rparr>)) (\<lambda>sh.
        bindE (print_prompt sh) (\<lambda>sh. Inr (Running sh)))
      else if ch = LF then shell_enter sh
      else if ch = CHR 0x08 \<or> ch = CHR 0x7F then
        (if pos sh > 0
         then bindE (sh_printk [CHR 0x08, CHR '' '', CHR 0x08] [] (sh\<lparr>pos := pos sh - 1\<rparr>)) (\<lambda>sh.
              Inr (Running sh))
         else Inr (Running sh))
      else if char_val ch \<ge> 32 \<and> char_val ch \<le> 126 \<and> pos sh < AITOS_SHELL_LINE_MAX - 1 then
        (if pos sh \<ge> length (line_buf sh) then Inl Out_of_bounds
         else bindE (sh_printk ''%c'' [VInt (word_of_int (char_val ch))]
                (sh\<lparr>line_buf := (line_buf sh)[pos sh := ch], pos := pos sh + 1\<rparr>)) (\<lambda>sh.
              Inr (Running sh)))
      else Inr (Running sh))"

fun shell_loop :: "shell \<Rightarrow> char list \<Rightarrow> shell_next result" where
  "shell_loop sh [] = Inr (Running sh)"
| "shell_loop sh (c # cs) =
     bindE (shell_key sh c) (\<lambda>r. case r of Halted sh \<Rightarrow> Inr (Halted sh) | Running sh \<Rightarrow> shell_loop sh cs)"

definition shell_banner :: "char list" where
  "shell_banner = ''AiTOS Shell ready - type '' @ [CHR 0x27] @ ''help'' @ [CHR 0x27] @
     '' for commands'' @ [LF]"

definition shell_run :: "shell \<Rightarrow> char list \<Rightarrow> shell_next result" where
  "shell_run sh keys =
     (let sh = console_clear (sh\<lparr>pos := 0\<rparr>) in
      bindE (sh_printk shell_banner [] sh) (\<lambda>sh.
      bindE (print_prompt sh) (\<lambda>sh. shell_loop sh keys)))"

section \<open>Parsing as splitting into words\<close>

function words :: "char list \<Rightarrow> char list list" where
  "words s =
     (let t = dropWhile blank s in
      if t = [] then []
      else takeWhile (\<lambda>c. \<not> blank c) t # words (dropWhile (\<lambda>c. \<not> blank c) t))"
  by pat_completeness auto
termination
proof (relation "measure length")
  fix s t assume t: "t = dropWhile blank s" and ne: "t \<noteq> []"
  let ?t = "dropWhile blank s"
  have "\<not> blank (hd ?t)" using ne t hd_dropWhile by blast
  then have "length (dropWhile (\<lambda>c. \<not> blank c) ?t) < length ?t"
    using ne t by (cases ?t) (auto simp: length_dropWhile_le le_imp_less_Suc)
  also have "\<dots> \<le> length s" by (rule length_dropWhile_le)
  finally show "(dropWhile (\<lambda>c. \<not> blank c) t, s) \<in> measure length" using t by simp
qed simp

declare words.simps [simp del]

lemma words_Nil [simp]: "words [] = []"
  by (simp add: words.simps)

lemma words_drop: "words (dropWhile blank s) = words s"
proof -
  have "dropWhile blank (dropWhile blank s) = dropWhile blank s"
    by (induction s) auto
  then show ?thesis by (simp add: words.simps [of s] words.simps [of "dropWhile blank s"] Let_def)
qed

lemma words_step:
  assumes "s \<noteq> []" "\<not> blank (hd s)"
  shows "words s = takeWhile (\<lambda>c. \<not> blank c) s # words (dropWhile (\<lambda>c. \<not> blank c) s)"
proof -
  have "dropWhile blank s = s" using assms by (cases s) auto
  then show ?thesis using assms by (simp add: words.simps [of s])
qed

lemma not_blank_NUL [simp]: "\<not> blank NUL"
  by (simp add: blank_def)

lemma skip_blanks_eq:
  "skip_blanks (pre @ s @ NUL # post) (length pre) = Inr (length pre + length (takeWhile blank s))"
proof (induction s arbitrary: pre)
  case Nil
  then show ?case by (simp add: skip_blanks.simps nth_append)
next
  case (Cons c s)
  then show ?case
    using Cons.IH [of "pre @ [c]"]
    by (simp add: skip_blanks.simps [of "pre @ c # s @ NUL # post"] nth_append)
qed

lemma word_end_eq:
  "NUL \<notin> set s \<Longrightarrow> word_end (pre @ s @ NUL # post) (length pre) =
     Inr (length pre + length (takeWhile (\<lambda>c. \<not> blank c) s))"
proof (induction s arbitrary: pre)
  case Nil
  then show ?case by (simp add: word_end.simps nth_append)
next
  case (Cons c s)
  then show ?case
    using Cons.IH [of "pre @ [c]"]
    by (auto simp: word_end.simps [of "pre @ c # s @ NUL # post"] nth_append)
qed

text \<open>One word of the line: what \<^verbatim>\<open>parse_args\<close> does when it stands at a word.\<close>

lemma parse_args_word:
  assumes "NUL \<notin> set s" "s \<noteq> []" "\<not> blank (hd s)"
  defines "w \<equiv> takeWhile (\<lambda>c. \<not> blank c) s" and "r \<equiv> dropWhile (\<lambda>c. \<not> blank c) s"
  shows "parse_args (Suc n) (pre @ s @ NUL # post) (length pre) args =
    (if r = [] then Inr (args @ [length pre], pre @ s @ NUL # post)
     else let pre' = pre @ w @ [NUL] @ takeWhile blank (tl r) in
          parse_args n (pre' @ dropWhile blank (tl r) @ NUL # post) (length pre') (args @ [length pre]))"
proof -
  let ?line = "pre @ s @ NUL # post" and ?q = "length pre + length w"
  have s: "s = w @ r" by (simp add: w_def r_def)
  have we: "word_end ?line (length pre) = Inr ?q" using word_end_eq [OF assms(1)] w_def by simp
  have hd: "?line ! length pre \<noteq> NUL" using assms(1,2) by (cases s) (auto simp: nth_append)
  show ?thesis
  proof (cases r)
    case Nil
    then have "?line ! ?q = NUL" using s by (simp add: nth_append)
    then show ?thesis using Nil we hd by simp
  next
    case (Cons b r')
    then have q: "?line ! ?q = b" "b \<noteq> NUL" using s assms(1) by (auto simp: nth_append)
    have "skip_blanks ((pre @ w @ [NUL]) @ r' @ NUL # post) (length (pre @ w @ [NUL])) =
      Inr (length (pre @ w @ [NUL]) + length (takeWhile blank r'))"
      by (rule skip_blanks_eq)
    moreover have upd: "?line[?q := NUL] = (pre @ w @ [NUL]) @ r' @ NUL # post"
      unfolding s Cons by (simp add: list_update_append)
    ultimately have sb: "skip_blanks (?line[?q := NUL]) (?q + 1) =
      Inr (length (pre @ w @ [NUL] @ takeWhile blank r'))" by simp
    have split: "r' = takeWhile blank r' @ dropWhile blank r'" by simp
    have "?line[?q := NUL] =
      (pre @ w @ [NUL] @ takeWhile blank r') @ dropWhile blank r' @ NUL # post"
      unfolding upd by (subst (1) split) simp
    then show ?thesis using Cons we hd q sb by (simp add: Let_def)
  qed
qed

lemma parse_args_words:
  assumes "NUL \<notin> set s" "s = [] \<or> \<not> blank (hd s)"
  shows "\<exists>ps line'. parse_args n (pre @ s @ NUL # post) (length pre) args = Inr (args @ ps, line') \<and>
    length line' = length (pre @ s @ NUL # post) \<and> take (length pre) line' = pre \<and>
    list_all2 (\<lambda>p w. c_str (drop p line') w) ps (take n (words s))"
  using assms
proof (induction n arbitrary: pre s args)
  case 0
  then show ?case by simp
next
  case (Suc n)
  let ?w = "takeWhile (\<lambda>c. \<not> blank c) s" and ?r = "dropWhile (\<lambda>c. \<not> blank c) s"
  show ?case
  proof (cases "s = []")
    case True
    then show ?thesis by (simp add: nth_append)
  next
    case False
    then have b: "\<not> blank (hd s)" using Suc.prems by simp
    have w: "NUL \<notin> set ?w" using Suc.prems(1) set_takeWhileD by fastforce
    note step = parse_args_word [OF Suc.prems(1) False b, of n pre post args]
    note ws = words_step [OF False b]
    show ?thesis
    proof (cases ?r)
      case Nil
      then have "?w = s" by (metis append_Nil2 takeWhile_dropWhile_id)
      then have "words s = [s]" using ws by (metis Nil words_Nil)
      then show ?thesis
        using step Suc.prems(1) unfolding Nil by (simp add: c_str_def del: parse_args.simps)
    next
      case (Cons c r')
      let ?pre = "pre @ ?w @ [NUL] @ takeWhile blank r'" and ?s = "dropWhile blank r'"
      have "blank c" using Cons by (metis dropWhile_eq_Cons_conv)
      then have wr: "words ?r = words ?s"
        using words_drop [of ?r] words_drop [of r'] Cons by simp
      have "set r' \<subseteq> set s" using Cons set_dropWhileD [of _ "\<lambda>c. \<not> blank c" s] by auto
      then have "NUL \<notin> set ?s" "?s = [] \<or> \<not> blank (hd ?s)"
        using Suc.prems(1) set_dropWhileD [of NUL blank r'] hd_dropWhile [of blank r'] by auto
      from Suc.IH [OF this, of ?pre "args @ [length pre]"]
      obtain ps line' where
        p: "parse_args n (?pre @ ?s @ NUL # post) (length ?pre) (args @ [length pre]) =
              Inr ((args @ [length pre]) @ ps, line')"
        and l: "length line' = length (?pre @ ?s @ NUL # post)"
        and t: "take (length ?pre) line' = ?pre"
        and a: "list_all2 (\<lambda>p w. c_str (drop p line') w) ps (take n (words ?s))" by blast
      have line': "line' = ?pre @ drop (length ?pre) line'"
        by (metis append_take_drop_id t)
      have "drop (length pre) line' = ?w @ NUL # takeWhile blank r' @ drop (length ?pre) line'"
        by (subst (1) line') simp
      then have "c_str (drop (length pre) line') ?w" using w by (simp add: c_str_def)
      moreover have "take (length pre) line' = pre" by (subst line') simp
      moreover have "s = ?w @ c # r'" "r' = takeWhile blank r' @ ?s"
        using Cons by (metis takeWhile_dropWhile_id, simp)
      then have "length s = length ?w + 1 + length (takeWhile blank r') + length ?s"
        by (metis add.assoc add_Suc_shift length_Cons length_append plus_1_eq_Suc)
      ultimately show ?thesis
        using step Cons p l a ws wr
        by (intro exI [of _ "length pre # ps"] exI [of _ line']) (simp add: Let_def del: parse_args.simps)
    qed
  qed
qed

lemma parse_line_spec:
  assumes "c_str line s" "length argv = 16"
  shows "\<exists>ps line'. parse_line line argv 16 =
           Inr (length ps, line', map Some ps @ None # drop (length ps + 1) argv) \<and>
         length line' = length line \<and>
         list_all2 (\<lambda>p w. c_str (drop p line') w) ps (take 15 (words s))"
proof -
  obtain post where l: "line = [] @ s @ NUL # post" "NUL \<notin> set s" using assms(1) by (auto simp: c_str_def)
  let ?pre = "takeWhile blank s" and ?s = "dropWhile blank s"
  have sb: "skip_blanks line 0 = Inr (length ?pre)" using skip_blanks_eq [of "[]" s post] l by simp
  have line: "line = ?pre @ ?s @ NUL # post" using l by simp
  have "NUL \<notin> set ?s" "?s = [] \<or> \<not> blank (hd ?s)"
    using l(2) set_dropWhileD [of NUL blank s] hd_dropWhile [of blank s] by auto
  from parse_args_words [OF this, of 15 ?pre post "[]"]
  obtain ps line' where p: "parse_args 15 line (length ?pre) [] = Inr (ps, line')"
    and len: "length line' = length line"
    and a: "list_all2 (\<lambda>p w. c_str (drop p line') w) ps (take 15 (words s))"
    unfolding words_drop by (auto simp flip: line)
  have "length ps \<le> 15" using list_all2_lengthD [OF a] by simp
  then have "parse_line line argv 16 =
      Inr (length ps, line', map Some ps @ None # drop (length ps + 1) argv)"
    using assms(2) by (simp add: parse_line_def sb p splice_def)
  then show ?thesis using len a by blast
qed

text \<open>\<^verbatim>\<open>parse_line\<close> returns for every terminated line and splits it into words: it stores at most 15
  pointers followed by a null pointer, and each pointer is the start of a terminated string
  equal to the corresponding word of the line; words past the fifteenth are ignored, the array
  of 16 pointers is never overrun and the line keeps its length.\<close>

theorem parse_line_words:
  assumes "c_str line s" "length argv = 16"
  shows "\<exists>argc line' argv'. parse_line line argv 16 = Inr (argc, line', argv') \<and>
           argc = min 15 (length (words s)) \<and> length line' = length line \<and> length argv' = 16 \<and>
           argv' ! argc = None \<and>
           (\<forall>i<argc. \<exists>p. argv' ! i = Some p \<and> c_str (drop p line') (words s ! i))"
proof -
  obtain ps line' where p: "parse_line line argv 16 =
      Inr (length ps, line', map Some ps @ None # drop (length ps + 1) argv)"
    and l: "length line' = length line"
    and a: "list_all2 (\<lambda>p w. c_str (drop p line') w) ps (take 15 (words s))"
    using parse_line_spec [OF assms] by blast
  have n: "length ps = min 15 (length (words s))" using list_all2_lengthD [OF a] by simp
  moreover have "c_str (drop (ps ! i) line') (words s ! i)" if "i < length ps" for i
    using list_all2_nthD [OF a that] that n by simp
  ultimately show ?thesis
    using p l assms(2) by (auto simp: nth_append)
qed

theorem parse_line_words_witness:
  "\<exists>argc line' argv'. parse_line ('' echo  a'' @ [NUL, NUL]) (replicate 16 None) 16 =
       Inr (argc, line', argv') \<and>
     argc = min 15 (length (words '' echo  a'')) \<and> argv' ! argc = None \<and>
     (\<forall>i<argc. \<exists>p. argv' ! i = Some p \<and> c_str (drop p line') (words '' echo  a'' ! i))"
  using parse_line_words [of "'' echo  a'' @ [NUL, NUL]" "'' echo  a''" "replicate 16 None"]
  by (fastforce simp: c_str_def)

section \<open>Commands as functions of the words\<close>

definition con :: "char list \<Rightarrow> io_event list" where
  "con s = map Con_char s"

fun join :: "char list list \<Rightarrow> char list" where
  "join [] = []"
| "join (a # as) = a @ concat (map (\<lambda>w. CHR '' '' # w) as)"

definition help_lines :: "char list" where
  "help_lines = ''Available commands:'' @ [LF] @
     concat (map (\<lambda>c. ''  '' @ name c @ '' - '' @ help_text c @ [LF]) shell_cmds)"

text \<open>The output of a command line and whether it ends the session.\<close>

fun command :: "char list list \<Rightarrow> io_event list \<times> bool" where
  "command [] = ([], False)"
| "command (w # args) =
     (if w = ''help'' then (con help_lines, False)
      else if w = ''clear'' then ([Con_clear], False)
      else if w = ''version'' then (con (''AiTOS 0.1.0-mvp (x86-64)'' @ [LF]), False)
      else if w = ''echo'' then (con (join args @ [LF]), False)
      else if w = ''uname'' then (con (''AiTOS'' @ [LF]), False)
      else if w = ''exit'' \<or> w = ''logout'' then ([], True)
      else (con (''aitos-sh: '' @ w @ '': command not found'' @ [LF]), False))"

definition prompt :: "char list" where
  "prompt = ''[aitos@localhost]$ ''"

definition farewell :: "io_event list" where
  "farewell = con (''logout'' @ [LF]) @ [Port_out 0 0xf4] @
     con (''AiTOS halted. Use Ctrl-A X to quit QEMU.'' @ [LF])"

definition shown :: "shell \<Rightarrow> io_event list \<Rightarrow> shell" where
  "shown sh out = sh\<lparr>screen := screen sh @ out\<rparr>"

lemma shown_simps [simp]:
  "line_buf (shown sh out) = line_buf sh" "argv_buf (shown sh out) = argv_buf sh"
  "pos (shown sh out) = pos sh" "screen (shown sh out) = screen sh @ out"
  "shown (shown sh a) b = shown sh (a @ b)" "shown sh [] = sh"
  "arg_obj (shown sh out) i = arg_obj sh i"
  by (simp_all add: shown_def arg_obj_def split: option.split)

lemma con_append: "con (a @ b) = con a @ con b"
  by (simp add: con_def)

lemma sh_printk_eq:
  "printk (replicate 21 NUL) (fmt @ [NUL]) ap = Inr out \<Longrightarrow> sh_printk fmt ap sh = Inr (shown sh (con out))"
  by (simp add: sh_printk_def shown_def con_def)

lemma emit_string_lit: "NUL \<notin> set s \<Longrightarrow> emit_string (s @ [NUL]) = Inr s"
  by (rule emit_string_c_str) simp

lemma printk_loop_simps:
  "printk_loop g [NUL] ap = Inr []"
  "c \<noteq> NUL \<Longrightarrow> c \<noteq> CHR ''%'' \<Longrightarrow>
     printk_loop g (c # p) ap = bindE (printk_loop g p ap) (\<lambda>out. Inr (c # out))"
  "c_str obj s \<Longrightarrow> printk_loop g (CHR ''%'' # CHR ''s'' # p) (VStr obj # ap) =
     bindE (printk_loop g p ap) (\<lambda>out. Inr (s @ out))"
  "NUL \<notin> set s \<Longrightarrow> printk_loop g (CHR ''%'' # CHR ''s'' # p) (VStr (s @ [NUL]) # ap) =
     bindE (printk_loop g p ap) (\<lambda>out. Inr (s @ out))"
  "printk_loop g (CHR ''%'' # CHR ''c'' # p) (VInt w # ap) =
     bindE (printk_loop g p ap) (\<lambda>out. Inr (char_of (unat w mod 256) # out))"
  by (simp_all add: printk_loop.simps [of g "_ # _"] emit_string_c_str emit_string_lit)

lemma print_plain:
  "\<forall>c\<in>set s. c \<noteq> CHR ''%'' \<and> c \<noteq> NUL \<Longrightarrow> sh_printk s [] sh = Inr (shown sh (con s))"
  by (rule sh_printk_eq) (simp add: printk_def printk_loop_plain printk_loop_simps(1))

lemma print_string: "c_str obj s \<Longrightarrow> sh_printk ''%s'' [VStr obj] sh = Inr (shown sh (con s))"
  by (rule sh_printk_eq) (simp add: printk_def printk_loop_simps)

lemma help_loop_eq:
  "\<forall>c\<in>set cs. NUL \<notin> set (name c) \<and> NUL \<notin> set (help_text c) \<Longrightarrow>
   help_loop cs sh =
     Inr (shown sh (con (concat (map (\<lambda>c. ''  '' @ name c @ '' - '' @ help_text c @ [LF]) cs))))"
proof (induction cs arbitrary: sh)
  case Nil
  then show ?case by (simp add: con_def)
next
  case (Cons c cs)
  have "sh_printk (''  %s - %s'' @ [LF]) [VStr (name c @ [NUL]), VStr (help_text c @ [NUL])] sh =
      Inr (shown sh (con (''  '' @ name c @ '' - '' @ help_text c @ [LF])))"
    using Cons.prems by (intro sh_printk_eq) (simp add: printk_def printk_loop_simps)
  then show ?case using Cons by (simp add: con_def)
qed

lemma cmd_help_eq: "cmd_help argc sh = Inr (0, shown sh (con help_lines))"
proof -
  have "help_loop shell_cmds sh = Inr (shown sh
      (con (concat (map (\<lambda>c. ''  '' @ name c @ '' - '' @ help_text c @ [LF]) shell_cmds))))" for sh
    by (rule help_loop_eq) (simp add: shell_cmds_def)
  then show ?thesis
    by (simp add: cmd_help_def shell_print_help_def print_plain help_lines_def con_def)
qed

lemma echo_loop_eq:
  assumes "\<forall>j\<in>set is. \<exists>obj. arg_obj sh j = Inr obj \<and> c_str obj (ws ! j)"
  shows "echo_loop is sh =
    Inr (shown sh (con (concat (map (\<lambda>j. (if j > 1 then '' '' else []) @ ws ! j) is))))"
  using assms
proof (induction "is" arbitrary: sh)
  case Nil
  then show ?case by (simp add: con_def)
next
  case (Cons i "is")
  obtain obj where obj: "arg_obj sh i = Inr obj" "c_str obj (ws ! i)" using Cons.prems by auto
  let ?sep = "if i > 1 then '' '' else []"
  have "(if i > 1 then sh_printk '' '' [] sh else Inr sh) = Inr (shown sh (con ?sep))"
    by (simp add: print_plain con_def)
  then show ?case
    using obj Cons by (simp add: print_string con_def)
qed

lemma join_upt:
  "concat (map (\<lambda>j. (if j > 1 then '' '' else []) @ (w # args) ! j) [1..<length (w # args)]) = join args"
proof (cases args)
  case Nil
  then show ?thesis by simp
next
  case (Cons a as)
  have "[2..<2 + length as] = map (\<lambda>k. k + 2) [0..<length as]"
    using map_add_upt [of 2 "length as"] by (simp add: add.commute)
  moreover have "[1..<length (w # args)] = 1 # [2..<2 + length as]"
    by (simp add: Cons upt_conv_Cons numeral_2_eq_2 del: upt_Suc)
  ultimately have "[1..<length (w # args)] = 1 # map (\<lambda>k. k + 2) [0..<length as]" by simp
  moreover have "map (\<lambda>k. CHR '' '' # as ! k) [0..<length as] = map (\<lambda>w. CHR '' '' # w) as"
    by (rule nth_equalityI) auto
  ultimately show ?thesis by (simp add: Cons comp_def del: upt_Suc)
qed

section \<open>Dispatch\<close>

text \<open>\<open>args_are sh ws\<close>: the argument vector of the shell holds the words \<open>ws\<close>.\<close>

definition args_are :: "shell \<Rightarrow> char list list \<Rightarrow> bool" where
  "args_are sh ws \<longleftrightarrow> (\<forall>i<length ws. \<exists>obj. arg_obj sh i = Inr obj \<and> c_str obj (ws ! i))"

lemma strcmp_lit:
  assumes "c_str obj w" "NUL \<notin> set n"
  obtains d where "strcmp obj (n @ [NUL]) = Inr d" "d = 0 \<longleftrightarrow> w = n"
  using strcmp_c_str [OF assms(1) c_str_snoc_NUL [OF assms(2)]] by auto

lemma dispatch_step:
  assumes "c_str obj w" "NUL \<notin> set (name cmd)"
  shows "dispatch_loop (cmd # cmds) obj argc sh =
    (if w = name cmd then run_handler (handler cmd) argc sh else dispatch_loop cmds obj argc sh)"
proof -
  obtain d where "strcmp obj (name cmd @ [NUL]) = Inr d" "d = 0 \<longleftrightarrow> w = name cmd"
    using strcmp_lit [OF assms] .
  then show ?thesis by simp
qed

lemma dispatch_unknown:
  "c_str obj w \<Longrightarrow> dispatch_loop [] obj argc sh =
     Inr (-1, shown sh (con (''aitos-sh: '' @ w @ '': command not found'' @ [LF])))"
  by (simp add: sh_printk_def printk_def printk_loop_simps shown_def con_def)

lemma cmd_echo_eq:
  "args_are sh (w # args) \<Longrightarrow>
     cmd_echo (length (w # args)) sh = Inr (0, shown sh (con (join args @ [LF])))"
proof -
  assume "args_are sh (w # args)"
  then have "\<forall>j\<in>set [1..<length (w # args)]. \<exists>obj. arg_obj sh j = Inr obj \<and> c_str obj ((w # args) ! j)"
    by (auto simp: args_are_def simp del: upt_Suc)
  from echo_loop_eq [OF this]
  have "echo_loop [1..<length (w # args)] sh = Inr (shown sh (con (join args)))"
    by (simp only: join_upt)
  then show ?thesis by (simp add: cmd_echo_def print_plain con_append del: upt_Suc)
qed

lemma console_clear_shown: "console_clear sh = shown sh [Con_clear]"
  by (simp add: console_clear_def shown_def)

lemma dispatch_loop_eq:
  assumes "c_str obj w" "args_are sh (w # args)"
  shows "\<exists>ret. dispatch_loop shell_cmds obj (length (w # args)) sh =
      Inr (ret, shown sh (fst (command (w # args)))) \<and> (ret = SHELL_EXIT \<longleftrightarrow> snd (command (w # args)))"
  using cmd_echo_eq [OF assms(2)]
  by (intro exI [of _ "if w = ''exit'' \<or> w = ''logout'' then SHELL_EXIT
        else if w \<in> {''help'', ''clear'', ''version'', ''echo'', ''uname''} then 0 else -1"])
    (simp add: shell_cmds_def dispatch_step [OF assms(1)] dispatch_unknown [OF assms(1)]
      cmd_help_eq cmd_clear_def cmd_version_def cmd_uname_def cmd_exit_def print_plain
      console_clear_shown SHELL_EXIT_def del: dispatch_loop.simps)

lemma shell_dispatch_eq:
  assumes "args_are sh ws" "\<forall>w\<in>set ws. w \<noteq> []" "argv_buf sh \<noteq> []"
  shows "\<exists>ret. shell_dispatch (length ws) sh = Inr (ret, shown sh (fst (command ws))) \<and>
    (ret = SHELL_EXIT \<longleftrightarrow> snd (command ws))"
proof (cases ws)
  case Nil
  then show ?thesis by (simp add: shell_dispatch_def SHELL_EXIT_def)
next
  case (Cons w args)
  then obtain obj where obj: "arg_obj sh 0 = Inr obj" "c_str obj w"
    using assms(1) by (auto simp: args_are_def)
  then obtain p where p: "argv_buf sh ! 0 = Some p" "obj = drop p (line_buf sh)"
    using assms(3) by (auto simp: arg_obj_def split: option.splits)
  obtain c cs where cs: "obj = c # cs" "c \<noteq> NUL"
    using obj(2) assms(2) Cons by (cases rule: c_str_cases) auto
  have "shell_dispatch (length ws) sh = dispatch_loop shell_cmds obj (length ws) sh"
    using assms(3) p cs Cons by (simp add: shell_dispatch_def flip: p(2))
  then show ?thesis using dispatch_loop_eq [OF obj(2), of sh args] assms(1) Cons by simp
qed

section \<open>The line editor\<close>

definition printable :: "char \<Rightarrow> bool" where
  "printable c \<longleftrightarrow> 32 \<le> (of_char c :: nat) \<and> (of_char c :: nat) \<le> 126"

definition sh_line :: "shell \<Rightarrow> char list" where
  "sh_line sh = take (pos sh) (line_buf sh)"

definition sh_wf :: "shell \<Rightarrow> bool" where
  "sh_wf sh \<longleftrightarrow> length (line_buf sh) = 128 \<and> length (argv_buf sh) = 16 \<and> pos sh \<le> 127 \<and>
     list_all printable (sh_line sh)"

text \<open>The shell as a function of the line typed so far: the new line, what appears on the console,
  and whether the session ends.\<close>

definition abs_key :: "char list \<Rightarrow> char \<Rightarrow> char list \<times> io_event list \<times> bool" where
  "abs_key l c =
     (let ch = (if c = CHR 0x0D then LF else c) in
      if ch = CHR 0x04 \<and> l = [] then ([], con [LF] @ farewell, True)
      else if ch = CHR 0x03 then ([], con (''^C'' @ [LF] @ prompt), False)
      else if ch = LF then
        (case command (take 15 (words l)) of (out, quit) \<Rightarrow>
           ([], con [LF] @ out @ (if quit then farewell else con prompt), quit))
      else if ch = CHR 0x08 \<or> ch = CHR 0x7F then
        (if l \<noteq> [] then (butlast l, con [CHR 0x08, CHR '' '', CHR 0x08], False) else (l, [], False))
      else if printable ch \<and> length l < 127 then (l @ [ch], con [ch], False)
      else (l, [], False))"

fun abs_run :: "char list \<Rightarrow> char list \<Rightarrow> io_event list \<times> bool" where
  "abs_run l [] = ([], False)"
| "abs_run l (c # cs) =
     (case abs_key l c of (l', out, quit) \<Rightarrow>
        if quit then (out, True) else (case abs_run l' cs of (out', q) \<Rightarrow> (out @ out', q)))"

lemma words_nonempty: "w \<in> set (words s) \<Longrightarrow> w \<noteq> []"
proof (induction s rule: words.induct)
  case (1 s)
  let ?t = "dropWhile blank s"
  show ?case
  proof (cases "?t = []")
    case True
    then show ?thesis using 1 by (simp add: words.simps [of s])
  next
    case False
    then have "takeWhile (\<lambda>c. \<not> blank c) ?t \<noteq> []"
      using hd_dropWhile [OF False] by (cases ?t) auto
    moreover have "words s =
      takeWhile (\<lambda>c. \<not> blank c) ?t # words (dropWhile (\<lambda>c. \<not> blank c) ?t)"
      using False by (simp only: words.simps [of s] Let_def if_False)
    ultimately show ?thesis using 1 False by auto
  qed
qed

lemma char_val_eq:
  "char_val c = (if (of_char c :: nat) < 128 then int (of_char c) else int (of_char c) - 256)"
proof -
  let ?n = "of_char c :: nat"
  have n: "?n < 256" by (rule nat_of_char_less_256)
  have "(of_char c :: u8) = word_of_int (int ?n)"
    by (metis of_int_of_nat_eq of_nat_of_char)
  then have "char_val c = (int ?n + 128) mod 256 - 128"
    using int_word_sint [of "int ?n", where 'a = 8] by (simp only: char_val_def) simp
  also have "(int ?n + 128) mod 256 = (if ?n < 128 then int ?n + 128 else int ?n - 128)"
  proof (cases "?n < 128")
    case False
    then have "(int ?n + 128) mod 256 = (int ?n - 128 + 256) mod 256"
      by (simp add: add.commute)
    also have "\<dots> = (int ?n - 128) mod 256" by (rule mod_add_self2)
    finally show ?thesis using False n by simp
  qed simp
  finally show ?thesis by simp
qed

lemma char_val_printable: "char_val c \<ge> 32 \<and> char_val c \<le> 126 \<longleftrightarrow> printable c"
proof -
  define n where "n = (of_char c :: nat)"
  have "n < 256" unfolding n_def by (rule nat_of_char_less_256)
  then show ?thesis unfolding char_val_eq printable_def n_def [symmetric] by auto
qed

text \<open>The \<^verbatim>\<open>(char)va_arg(ap, int)\<close> of \<^verbatim>\<open>%c\<close> undoes the promotion of the argument.\<close>

lemma print_char:
  assumes "printable ch"
  shows "sh_printk ''%c'' [VInt (word_of_int (char_val ch))] sh = Inr (shown sh (con [ch]))"
proof -
  have "char_val ch = int (of_char ch)" "of_char ch < (127 :: nat)"
    using assms by (auto simp: printable_def char_val_eq)
  then have "unat (word_of_int (char_val ch) :: u32) mod 256 = of_char ch"
    by (simp add: unat_of_nat)
  then have "char_of (unat (word_of_int (char_val ch) :: u32) mod 256) = ch" by simp
  then show ?thesis by (intro sh_printk_eq) (simp add: printk_def printk_loop_simps)
qed

lemma shutdown_eq: "\<exists>sh'. shell_shutdown sh = Inr (Halted sh') \<and> screen sh' = screen sh @ farewell"
  by (simp add: shell_shutdown_def print_plain farewell_def con_def)

lemma prompt_eq: "print_prompt sh = Inr (shown sh (con prompt))"
  by (simp add: print_prompt_def prompt_def print_plain)

lemma printable_not_NUL: "printable c \<Longrightarrow> c \<noteq> NUL"
  by (auto simp: printable_def)

lemma enter_eq:
  assumes wf: "sh_wf sh"
  shows "\<exists>sh'. shell_enter sh =
        Inr (if snd (command (take 15 (words (sh_line sh)))) then Halted sh' else Running sh') \<and>
      screen sh' = screen sh @ con [LF] @ fst (command (take 15 (words (sh_line sh)))) @
        (if snd (command (take 15 (words (sh_line sh)))) then farewell else con prompt) \<and>
      (snd (command (take 15 (words (sh_line sh)))) \<or> sh_wf sh' \<and> sh_line sh' = [])"
proof -
  let ?l = "sh_line sh" and ?buf = "(line_buf sh)[pos sh := NUL]"
  let ?sh = "shown (sh\<lparr>line_buf := ?buf\<rparr>) (con [LF])"
  have p: "pos sh < length (line_buf sh)" "length (line_buf sh) = 128" "length (argv_buf sh) = 16"
    using wf by (auto simp: sh_wf_def)
  have "?buf = ?l @ NUL # drop (pos sh + 1) (line_buf sh)"
    using p by (simp add: sh_line_def upd_conv_take_nth_drop)
  moreover have "NUL \<notin> set ?l" using wf printable_not_NUL by (auto simp: sh_wf_def list_all_iff)
  ultimately have cs: "c_str ?buf ?l" by (simp add: c_str_def)
  define body where "body = (if pos ?sh > 0
             then bindE (parse_line (line_buf ?sh) (argv_buf ?sh) 16) (\<lambda>(argc, line, argv).
                  shell_dispatch argc (?sh\<lparr>line_buf := line, argv_buf := argv\<rparr>))
             else Inr (0, ?sh))"
  have enter: "shell_enter sh = bindE body (\<lambda>(ret, sh).
        if ret = SHELL_EXIT then shell_shutdown sh
        else bindE (print_prompt (sh\<lparr>pos := 0\<rparr>)) (\<lambda>sh. Inr (Running sh)))"
    using p by (simp add: shell_enter_def body_def print_plain)
  have fin: ?thesis if "body = Inr (ret, shown s2 (fst (command (take 15 (words ?l)))))"
    and "ret = SHELL_EXIT \<longleftrightarrow> snd (command (take 15 (words ?l)))"
    and "screen s2 = screen ?sh" "length (line_buf s2) = 128" "length (argv_buf s2) = 16"
    for ret s2
    using that shutdown_eq [of "shown s2 (fst (command (take 15 (words ?l))))"]
    by (cases "snd (command (take 15 (words ?l)))")
      (auto simp: enter prompt_eq sh_wf_def sh_line_def shown_def)
  show ?thesis
  proof (cases "pos sh = 0")
    case True
    then have "?l = []" by (simp add: sh_line_def)
    then show ?thesis using fin [of 0 ?sh] True p by (simp add: SHELL_EXIT_def body_def)
  next
    case False
    obtain ps line' where pl: "parse_line ?buf (argv_buf sh) 16 =
          Inr (length ps, line', map Some ps @ None # drop (length ps + 1) (argv_buf sh))"
      and len: "length line' = length ?buf"
      and a: "list_all2 (\<lambda>p w. c_str (drop p line') w) ps (take 15 (words ?l))"
      using parse_line_spec [OF cs p(3)] by blast
    let ?argv = "map Some ps @ None # drop (length ps + 1) (argv_buf sh)"
    let ?s2 = "?sh\<lparr>line_buf := line', argv_buf := ?argv\<rparr>"
    have n: "length ps = length (take 15 (words ?l))" using list_all2_lengthD [OF a] .
    have "args_are ?s2 (take 15 (words ?l))"
      using list_all2_nthD [OF a] n by (auto simp: args_are_def arg_obj_def nth_append)
    moreover have "\<forall>w\<in>set (take 15 (words ?l)). w \<noteq> []"
      using words_nonempty by (metis in_set_takeD)
    ultimately obtain ret where
      "shell_dispatch (length ps) ?s2 = Inr (ret, shown ?s2 (fst (command (take 15 (words ?l)))))"
      "ret = SHELL_EXIT \<longleftrightarrow> snd (command (take 15 (words ?l)))"
      using shell_dispatch_eq [of ?s2 "take 15 (words ?l)"] n by auto
    then show ?thesis using fin [of ret ?s2] False pl len p n by (simp add: body_def)
  qed
qed

lemma key_refines_raw:
  assumes wf: "sh_wf sh" and ch: "ch \<noteq> CHR 0x0D"
  shows "case abs_key (sh_line sh) ch of (l, out, quit) \<Rightarrow>
    \<exists>sh'. shell_key sh ch = Inr (if quit then Halted sh' else Running sh') \<and>
      screen sh' = screen sh @ out \<and> (quit \<or> sh_wf sh' \<and> sh_line sh' = l)"
proof -
  let ?l = "sh_line sh"
  have p: "pos sh \<le> 127" "length (line_buf sh) = 128" "length ?l = pos sh"
    using wf by (auto simp: sh_wf_def sh_line_def)
  have empty: "?l = [] \<longleftrightarrow> pos sh = 0" using p by auto
  note defs = shell_key_def abs_key_def Let_def ch print_plain prompt_eq
  consider (eot) "ch = CHR 0x04" "pos sh = 0" | (intr) "ch = CHR 0x03" | (enter) "ch = LF"
    | (erase) "ch = CHR 0x08 \<or> ch = CHR 0x7F"
    | (other) "ch \<notin> {CHR 0x03, LF, CHR 0x08, CHR 0x7F}" "\<not> (ch = CHR 0x04 \<and> pos sh = 0)" by auto
  then show ?thesis
  proof cases
    case eot
    then show ?thesis
      using empty shutdown_eq [of "shown sh (con [LF])"] by (simp add: defs)
  next
    case intr
    then show ?thesis using wf by (simp add: defs con_def sh_wf_def sh_line_def)
  next
    case enter
    then show ?thesis using enter_eq [OF wf] by (auto simp: defs split: prod.split)
  next
    case erase
    have "take (pos sh - 1) (line_buf sh) = butlast ?l"
      using p by (simp add: sh_line_def butlast_take)
    moreover have "list_all printable (butlast ?l)"
      using wf in_set_butlastD by (fastforce simp: sh_wf_def list_all_iff)
    ultimately show ?thesis
      using erase wf empty by (auto simp: defs sh_wf_def sh_line_def)
  next
    case other
    show ?thesis
    proof (cases "printable ch \<and> pos sh < 127")
      case True
      have "take (pos sh + 1) ((line_buf sh)[pos sh := ch]) = ?l @ [ch]"
        using True p by (simp add: sh_line_def take_Suc_conv_app_nth)
      moreover have "abs_key ?l ch = (?l @ [ch], con [ch], False)"
        using other True p empty ch by (auto simp: abs_key_def Let_def)
      moreover have "shell_key sh ch = Inr (Running (shown
          (sh\<lparr>line_buf := (line_buf sh)[pos sh := ch], pos := pos sh + 1\<rparr>) (con [ch])))"
        using other True p ch char_val_printable [of ch]
        by (auto simp: shell_key_def AITOS_SHELL_LINE_MAX_def print_char)
      ultimately show ?thesis
        using True wf p by (simp add: sh_wf_def sh_line_def)
    next
      case False
      then have "abs_key ?l ch = (?l, [], False)"
        using other p empty ch by (auto simp: abs_key_def Let_def)
      moreover have "\<not> (32 \<le> char_val ch \<and> char_val ch \<le> 126 \<and> pos sh < AITOS_SHELL_LINE_MAX - 1)"
        using False char_val_printable [of ch] unfolding AITOS_SHELL_LINE_MAX_def by simp blast
      then have "shell_key sh ch = Inr (Running sh)"
        using other ch by (simp only: shell_key_def Let_def if_False simp_thms) simp
      ultimately show ?thesis using wf by simp
    qed
  qed
qed

lemma key_refines:
  assumes "sh_wf sh"
  shows "case abs_key (sh_line sh) c of (l, out, quit) \<Rightarrow>
    \<exists>sh'. shell_key sh c = Inr (if quit then Halted sh' else Running sh') \<and>
      screen sh' = screen sh @ out \<and> (quit \<or> sh_wf sh' \<and> sh_line sh' = l)"
proof -
  have "shell_key sh (CHR 0x0D) = shell_key sh LF" "abs_key l (CHR 0x0D) = abs_key l LF" for l
    by (simp_all add: shell_key_def abs_key_def)
  then show ?thesis
    using key_refines_raw [OF assms, of c] key_refines_raw [OF assms, of LF]
    by (cases "c = CHR 0x0D") auto
qed

lemma loop_refines:
  "sh_wf sh \<Longrightarrow>
    \<exists>sh'. shell_loop sh keys = Inr (if snd (abs_run (sh_line sh) keys) then Halted sh' else Running sh') \<and>
      screen sh' = screen sh @ fst (abs_run (sh_line sh) keys)"
proof (induction keys arbitrary: sh)
  case Nil
  then show ?case by simp
next
  case (Cons c keys)
  obtain l out quit where abs: "abs_key (sh_line sh) c = (l, out, quit)" by (cases "abs_key (sh_line sh) c")
  then obtain sh' where s: "shell_key sh c = Inr (if quit then Halted sh' else Running sh')"
    "screen sh' = screen sh @ out" "quit \<or> sh_wf sh' \<and> sh_line sh' = l"
    using key_refines [OF Cons.prems, of c] by auto
  show ?case
    using s abs Cons.IH [of sh'] by (cases quit) (auto split: prod.split)
qed

lemma run_refines:
  assumes "length (line_buf sh) = 128" "length (argv_buf sh) = 16"
  shows "\<exists>sh'. shell_run sh keys = Inr (if snd (abs_run [] keys) then Halted sh' else Running sh') \<and>
    screen sh' = screen sh @ [Con_clear] @
      con shell_banner @ con prompt @ fst (abs_run [] keys)"
proof -
  let ?sh = "shown (sh\<lparr>pos := 0\<rparr>) ([Con_clear] @ con shell_banner @ con prompt)"
  have "sh_printk shell_banner [] s = Inr (shown s (con shell_banner))" for s
    by (rule print_plain) (simp add: shell_banner_def)
  then have "shell_run sh keys = shell_loop ?sh keys"
    by (simp add: shell_run_def console_clear_shown prompt_eq)
  moreover have "sh_wf ?sh" "sh_line ?sh = []"
    using assms by (auto simp: sh_wf_def sh_line_def)
  ultimately show ?thesis using loop_refines [of ?sh keys] by auto
qed

text \<open>C10: The shell never faults and does what its specification says: for every sequence of keys, from
  any shell state with buffers of the declared sizes, \<^verbatim>\<open>shell_run\<close> stays inside its line and
  argument buffers, and the console shows the banner and prompt followed by exactly the output
  of the abstract editor, in which Enter runs the words of the edited line as a command,
  backspace removes the last character, Ctrl-C discards the line, lines stop at 127 characters,
  and the session ends on Ctrl-D at an empty line, \<^verbatim>\<open>exit\<close> or \<^verbatim>\<open>logout\<close>.\<close>

theorem shell_run_refines:
  assumes "length (line_buf sh) = 128" "length (argv_buf sh) = 16"
  shows "\<exists>sh'. shell_run sh keys = Inr (if snd (abs_run [] keys) then Halted sh' else Running sh') \<and>
    screen sh' = screen sh @ [Con_clear] @
      con shell_banner @ con prompt @ fst (abs_run [] keys)"
  using assms by (rule run_refines)

definition shell_boot :: shell where
  "shell_boot = \<lparr>line_buf = replicate 128 NUL, argv_buf = replicate 16 None, pos = 0, screen = []\<rparr>"

theorem shell_run_refines_witness:
  "\<exists>sh'. shell_run shell_boot (''echox'' @ [CHR 0x08, CHR 0x0D]) =
           Inr (if snd (abs_run [] (''echox'' @ [CHR 0x08, CHR 0x0D])) then Halted sh' else Running sh') \<and>
    screen sh' = [Con_clear] @
      con shell_banner @ con prompt @ fst (abs_run [] (''echox'' @ [CHR 0x08, CHR 0x0D]))"
  using shell_run_refines [of shell_boot "''echox'' @ [CHR 0x08, CHR 0x0D]"]
  by (simp add: shell_boot_def)

end
