(* ===== verification/Interrupt.thy ===== *)
theory Interrupt
  imports Prelude
begin

text \<open>
  The interrupt flag of \<^verbatim>\<open>kernel/interrupt.c\<close>. The processor state is the \<^verbatim>\<open>eflags\<close>
  register; \<^verbatim>\<open>sti\<close> and \<^verbatim>\<open>cli\<close> set and clear its bit 9. The record is extensible: every
  kernel state of the development extends it, so the four functions below work on all of
  them.
\<close>

datatype intr_status = INTR_OFF | INTR_ON

record cpu =
  eflags :: u32

definition EFLAGS_IF :: u32 where
  "EFLAGS_IF = 0x200"

definition intr_get_status :: "'a cpu_scheme \<Rightarrow> intr_status" where
  "intr_get_status s = (if EFLAGS_IF AND eflags s \<noteq> 0 then INTR_ON else INTR_OFF)"

definition intr_enable :: "'a cpu_scheme \<Rightarrow> intr_status \<times> 'a cpu_scheme" where
  "intr_enable s =
     (if intr_get_status s = INTR_ON then (INTR_ON, s)
      else (INTR_OFF, s\<lparr>eflags := eflags s OR EFLAGS_IF\<rparr>))"

definition intr_disable :: "'a cpu_scheme \<Rightarrow> intr_status \<times> 'a cpu_scheme" where
  "intr_disable s =
     (if intr_get_status s = INTR_ON
      then (INTR_ON, s\<lparr>eflags := eflags s AND NOT EFLAGS_IF\<rparr>)
      else (INTR_OFF, s))"

definition intr_set_status :: "intr_status \<Rightarrow> 'a cpu_scheme \<Rightarrow> intr_status \<times> 'a cpu_scheme" where
  "intr_set_status status s = (if status = INTR_ON then intr_enable s else intr_disable s)"

named_theorems intr_simps \<open>effects of the interrupt flag functions\<close>

lemma flag_test: "EFLAGS_IF AND w \<noteq> 0 \<longleftrightarrow> bit w 9"
proof -
  have "EFLAGS_IF = push_bit 9 1" by (simp add: EFLAGS_IF_def)
  then show ?thesis by (metis and.commute bit_iff_and_push_bit_not_eq_0)
qed

lemma flag_eqI: "(\<And>n. n < 32 \<Longrightarrow> bit v n = bit w n) \<Longrightarrow> v = (w :: u32)"
  by (rule bit_word_eqI) simp

lemma bit_flag: "bit EFLAGS_IF n \<longleftrightarrow> n = 9"
proof -
  have flag: "EFLAGS_IF = 2 ^ 9" by (simp add: EFLAGS_IF_def)
  show ?thesis unfolding flag bit_exp_iff by auto
qed

lemma get_status_bit [intr_simps]: "intr_get_status s = INTR_ON \<longleftrightarrow> bit (eflags s) 9"
  by (simp add: intr_get_status_def flag_test)

lemma get_status_off [intr_simps]: "intr_get_status s = INTR_OFF \<longleftrightarrow> \<not> bit (eflags s) 9"
  using get_status_bit [of s] by (metis intr_status.distinct(1) intr_status.exhaust)

lemma disable_flag [intr_simps]:
  "snd (intr_disable s) = s\<lparr>eflags := eflags s AND NOT EFLAGS_IF\<rparr>"
proof (cases "bit (eflags s) 9")
  case True
  then show ?thesis by (simp add: intr_disable_def get_status_bit)
next
  case False
  then have "eflags s AND NOT EFLAGS_IF = eflags s"
    by (intro flag_eqI) (auto simp: bit_and_iff bit_not_iff bit_flag)
  then show ?thesis using False by (simp add: intr_disable_def get_status_bit)
qed

lemma disable_off: "intr_get_status (snd (intr_disable s)) = INTR_OFF"
  by (simp add: disable_flag get_status_off bit_and_iff bit_not_iff bit_flag)

text \<open>
  The bracket \<^verbatim>\<open>old = intr_disable(); ... intr_set_status(old)\<close> leaves the flags as they
  were, whatever happens to the rest of the state in between.
\<close>

lemma restore_flag [intr_simps]:
  assumes "eflags t = eflags s AND NOT EFLAGS_IF"
  shows "snd (intr_set_status (fst (intr_disable s)) t) = t\<lparr>eflags := eflags s\<rparr>"
proof (cases "bit (eflags s) 9")
  case True
  have "\<not> bit (eflags t) 9" by (simp add: assms bit_and_iff bit_not_iff bit_flag)
  moreover have "eflags t OR EFLAGS_IF = eflags s"
    using True unfolding assms
    by (intro flag_eqI) (auto simp: bit_and_iff bit_or_iff bit_not_iff bit_flag)
  ultimately show ?thesis
    using True
    by (simp add: intr_set_status_def intr_disable_def intr_enable_def get_status_bit)
next
  case False
  then have "eflags t = eflags s"
    unfolding assms by (intro flag_eqI) (auto simp: bit_and_iff bit_not_iff bit_flag)
  then show ?thesis
    using False by (simp add: intr_set_status_def intr_disable_def get_status_bit)
qed

end
