(* ===== verification/Irq.thy ===== *)
theory Irq
  imports Keyboard Interrupt
begin

text \<open>
  Interrupt set-up and dispatch of the x86-64 kernel, \<^verbatim>\<open>kernel/irq.c\<close>, with the handler
  registration of \<^verbatim>\<open>keyboard_init\<close>. Port output is recorded in order; a handler is a function
  on the state of the device it serves.
\<close>

section \<open>Model\<close>

record gate_desc64 =
  offset_low :: u16
  gate_selector :: u16
  ist :: u8
  type_attr :: u8
  offset_mid :: u16
  offset_high :: u32
  reserved :: u32

record 'd irq_state =
  idt :: "gate_desc64 list"
  irq_table :: "('d \<Rightarrow> 'd) option list"
  idtr :: "u16 \<times> u64"
  ports :: "(u8 \<times> u16) list"
  device :: 'd

definition IDT_VECTORS :: nat where "IDT_VECTORS = 48"

abbreviation PIC_M_CTRL :: u16 where "PIC_M_CTRL \<equiv> 0x20"
abbreviation PIC_M_DATA :: u16 where "PIC_M_DATA \<equiv> 0x21"
abbreviation PIC_S_CTRL :: u16 where "PIC_S_CTRL \<equiv> 0xa0"
abbreviation PIC_S_DATA :: u16 where "PIC_S_DATA \<equiv> 0xa1"
abbreviation PIC_EOI :: u8 where "PIC_EOI \<equiv> 0x20"

definition outb :: "u8 \<Rightarrow> u16 \<Rightarrow> 'd irq_state \<Rightarrow> 'd irq_state" where
  "outb v port s = s\<lparr>ports := ports s @ [(v, port)]\<rparr>"

definition pic_send_eoi :: "u8 \<Rightarrow> 'd irq_state \<Rightarrow> 'd irq_state" where
  "pic_send_eoi vector s =
     (let s = (if vector \<ge> 0x28 then outb PIC_EOI PIC_S_CTRL s else s)
      in outb PIC_EOI PIC_M_CTRL s)"

definition pic_init :: "'d irq_state \<Rightarrow> 'd irq_state" where
  "pic_init s = foldl (\<lambda>s (v, p). outb v p s) s
     [(0xff, PIC_M_DATA), (0xff, PIC_S_DATA),
      (0x11, PIC_M_CTRL), (0x20, PIC_M_DATA), (0x04, PIC_M_DATA), (0x01, PIC_M_DATA),
      (0x11, PIC_S_CTRL), (0x28, PIC_S_DATA), (0x02, PIC_S_DATA), (0x01, PIC_S_DATA),
      (0xf9, PIC_M_DATA), (0xff, PIC_S_DATA)]"

definition set_gate :: "nat \<Rightarrow> u64 \<Rightarrow> 'd irq_state \<Rightarrow> 'd irq_state" where
  "set_gate vec addr s =
     (let type = (if vec < 0x20 then 0x0f else 0x0e) in
      s\<lparr>idt := (idt s)[vec :=
        \<lparr>offset_low = ucast (addr AND 0xffff),
         gate_selector = 0x18,
         ist = 0,
         type_attr = 0x80 OR 0x00 OR type,
         offset_mid = ucast (drop_bit 16 addr AND 0xffff),
         offset_high = ucast (drop_bit 32 addr AND 0xffffffff),
         reserved = 0\<rparr>]\<rparr>)"

definition irq_dispatch :: "u64 \<Rightarrow> 'd irq_state \<Rightarrow> 'd irq_state" where
  "irq_dispatch vector s =
     (let s = (if unat vector < IDT_VECTORS
               then (case irq_table s ! unat vector of None \<Rightarrow> s
                     | Some handler \<Rightarrow> s\<lparr>device := handler (device s)\<rparr>)
               else s)
      in if vector \<ge> 0x20 \<and> vector < 0x40 then pic_send_eoi (ucast vector) s else s)"

definition register_irq_handler :: "u8 \<Rightarrow> ('d \<Rightarrow> 'd) option \<Rightarrow> 'd irq_state \<Rightarrow> 'd irq_state" where
  "register_irq_handler vector handler s =
     (if unat vector < IDT_VECTORS then s\<lparr>irq_table := (irq_table s)[unat vector := handler]\<rparr> else s)"

text \<open>The loop of \<^verbatim>\<open>irq_init\<close> over the vectors in the list; \<open>entry\<close> is \<^verbatim>\<open>intr_entry_table\<close>, the
  addresses of the assembly entry stubs, and \<open>base\<close> the address of the table itself.\<close>

definition set_gates :: "(nat \<Rightarrow> u64) \<Rightarrow> nat list \<Rightarrow> 'd irq_state \<Rightarrow> 'd irq_state" where
  "set_gates entry vecs s = foldl (\<lambda>s i. set_gate i (entry i) s) s vecs"

definition irq_init :: "(nat \<Rightarrow> u64) \<Rightarrow> u64 \<Rightarrow> 'd irq_state \<Rightarrow> 'd irq_state" where
  "irq_init entry base s =
     (let s = set_gates entry [0..<0x30] s in
      pic_init (s\<lparr>idtr := (of_nat (16 * IDT_VECTORS - 1), base)\<rparr>))"

text \<open>\<^verbatim>\<open>keyboard_init\<close>: the device is the keyboard together with the scan code in port 0x60.\<close>

definition keyboard_handler :: "keyboard \<times> u8 \<Rightarrow> keyboard \<times> u8" where
  "keyboard_handler d = (kbd_irq (fst d) (snd d), snd d)"

definition keyboard_init :: "(keyboard \<times> u8) irq_state \<Rightarrow> (keyboard \<times> u8) irq_state" where
  "keyboard_init s = register_irq_handler 0x21 (Some keyboard_handler) s"

section \<open>Gates\<close>

text \<open>The handler address the processor assembles from a gate.\<close>

definition gate_offset :: "gate_desc64 \<Rightarrow> u64" where
  "gate_offset g = ucast (offset_low g) OR push_bit 16 (ucast (offset_mid g)) OR
     push_bit 32 (ucast (offset_high g))"

lemma mask16: "(0xffff :: 'a::len word) = mask 16"
  by (simp add: mask_eq_exp_minus_1)

lemma mask32: "(0xffffffff :: 'a::len word) = mask 32"
  by (simp add: mask_eq_exp_minus_1)

lemma offset_parts:
  fixes a :: u64
  shows "ucast (ucast (a AND 0xffff) :: u16) OR push_bit 16 (ucast (ucast (drop_bit 16 a AND 0xffff) :: u16)) OR
     push_bit 32 (ucast (ucast (drop_bit 32 a AND 0xffffffff) :: u32)) = a"
  unfolding mask16 mask32
proof (rule bit_word_eqI)
  fix n assume "n < LENGTH(64)"
  then consider "n < 16" | "16 \<le> n" "n < 32" | "32 \<le> n" "n < 64" by fastforce
  then show "bit ((ucast (ucast (a AND mask 16) :: u16) :: u64) OR
      push_bit 16 (ucast (ucast (drop_bit 16 a AND mask 16) :: u16)) OR
      push_bit 32 (ucast (ucast (drop_bit 32 a AND mask 32) :: u32))) n = bit a n"
    by cases (auto simp: bit_simps)
qed

lemma set_gates_idt:
  "distinct vecs \<Longrightarrow> \<forall>i\<in>set vecs. i < length (idt s) \<Longrightarrow>
   length (idt (set_gates entry vecs s)) = length (idt s) \<and>
   (\<forall>i<length (idt s). idt (set_gates entry vecs s) ! i =
      (if i \<in> set vecs then idt (set_gate i (entry i) s) ! i else idt s ! i))"
proof (induction vecs arbitrary: s)
  case Nil
  then show ?case by (simp add: set_gates_def)
next
  case (Cons v vecs)
  have "set_gates entry (v # vecs) s = set_gates entry vecs (set_gate v (entry v) s)"
    by (simp add: set_gates_def)
  then show ?case
    using Cons.prems Cons.IH [of "set_gate v (entry v) s"]
    by (auto simp: set_gate_def Let_def nth_list_update)
qed

lemma pic_init_simps [simp]:
  "idt (pic_init s) = idt s" "idtr (pic_init s) = idtr s" "irq_table (pic_init s) = irq_table s"
  "device (pic_init s) = device s"
  by (simp_all add: pic_init_def outb_def)

text \<open>After \<^verbatim>\<open>irq_init\<close> every one of the 48 gates sends its vector to the entry stub of that vector
  (the three offset fields reassemble the full 64-bit address), as a present trap gate for the
  exceptions below 0x20 and a present interrupt gate for the rest, the table limit covers the
  48 gates, and the last masks written to the two interrupt controllers open exactly the
  keyboard and the cascade line.\<close>

theorem irq_init_gates:
  assumes "length (idt s) = IDT_VECTORS"
  shows "(\<forall>v<48. gate_offset (idt (irq_init entry base s) ! v) = entry v \<and>
            type_attr (idt (irq_init entry base s) ! v) = (if v < 32 then 0x8f else 0x8e) \<and>
            gate_selector (idt (irq_init entry base s) ! v) = 0x18) \<and>
         fst (idtr (irq_init entry base s)) = 767 \<and>
         drop (length (ports s) + 10) (ports (irq_init entry base s)) =
           [(0xf9, PIC_M_DATA), (0xff, PIC_S_DATA)]"
proof (intro conjI allI impI)
  let ?s = "irq_init entry base s"
  have len: "length (idt s) = 48" using assms by (simp add: IDT_VECTORS_def)
  have idt: "idt ?s = idt (set_gates entry [0..<48] s)" by (simp add: irq_init_def Let_def)
  fix v :: nat assume v: "v < 48"
  then have "idt ?s ! v = idt (set_gate v (entry v) s) ! v"
    using set_gates_idt [of "[0..<48]" s entry] len by (simp add: idt)
  then have "idt ?s ! v = \<lparr>offset_low = ucast (entry v AND 0xffff), gate_selector = 0x18, ist = 0,
      type_attr = (if v < 32 then 0x8f else 0x8e), offset_mid = ucast (drop_bit 16 (entry v) AND 0xffff),
      offset_high = ucast (drop_bit 32 (entry v) AND 0xffffffff), reserved = 0\<rparr>"
    using v len by (simp add: set_gate_def Let_def)
  then show "gate_offset (idt ?s ! v) = entry v" "type_attr (idt ?s ! v) = (if v < 32 then 0x8f else 0x8e)"
    "gate_selector (idt ?s ! v) = 0x18"
    using offset_parts [of "entry v"] by (simp_all add: gate_offset_def)
next
  have ports: "ports (set_gates entry vecs s) = ports s" for vecs
    by (induction vecs arbitrary: s) (simp_all add: set_gates_def set_gate_def Let_def)
  show "fst (idtr (irq_init entry base s)) = 767"
    by (simp add: irq_init_def Let_def IDT_VECTORS_def)
  show "drop (length (ports s) + 10) (ports (irq_init entry base s)) =
           [(0xf9, PIC_M_DATA), (0xff, PIC_S_DATA)]"
    by (simp add: irq_init_def Let_def pic_init_def outb_def ports)
qed

definition blank_gate :: gate_desc64 where
  "blank_gate = \<lparr>offset_low = 0, gate_selector = 0, ist = 0, type_attr = 0, offset_mid = 0,
     offset_high = 0, reserved = 0\<rparr>"

definition irq_boot :: "(keyboard \<times> u8) irq_state" where
  "irq_boot = \<lparr>idt = replicate 48 blank_gate, irq_table = replicate 48 None, idtr = (0, 0),
     ports = [], device = (keyboard_boot, 0)\<rparr>"

theorem irq_init_gates_witness:
  "gate_offset (idt (irq_init (\<lambda>v. 0xffff800000100000 + 16 * of_nat v) 0x9000 irq_boot) ! 33) =
     0xffff800000100210"
  using irq_init_gates [of irq_boot "\<lambda>v. 0xffff800000100000 + 16 * of_nat v" "0x9000"]
  by (simp add: irq_boot_def IDT_VECTORS_def)

section \<open>Dispatch\<close>

text \<open>\<^verbatim>\<open>irq_dispatch\<close> runs the registered handler of a vector once and no other, never reads the
  handler table out of range, and acknowledges exactly the hardware vectors 0x20 to 0x3f: the
  slave controller first and then the master for vectors from 0x28 on, the master alone below.\<close>

theorem irq_dispatch_spec:
  assumes "length (irq_table s) = IDT_VECTORS"
  shows "device (irq_dispatch v s) =
           (if unat v < length (irq_table s) \<and> irq_table s ! unat v \<noteq> None
            then the (irq_table s ! unat v) (device s) else device s) \<and>
         ports (irq_dispatch v s) = ports s @
           (if 0x28 \<le> unat v \<and> unat v < 0x40 then [(PIC_EOI, PIC_S_CTRL), (PIC_EOI, PIC_M_CTRL)]
            else if 0x20 \<le> unat v \<and> unat v < 0x28 then [(PIC_EOI, PIC_M_CTRL)] else []) \<and>
         irq_table (irq_dispatch v s) = irq_table s"
proof -
  have range: "v \<ge> 0x20 \<longleftrightarrow> 0x20 \<le> unat v" "v < 0x40 \<longleftrightarrow> unat v < 0x40"
    by (simp_all add: word_le_nat_alt word_less_nat_alt)
  have slave: "(ucast v :: u8) \<ge> 0x28 \<longleftrightarrow> 0x28 \<le> unat v" if "unat v < 0x40"
  proof -
    have "unat (ucast v :: u8) = unat v"
      using that by (simp add: unsigned_ucast_eq take_bit_nat_eq_self)
    then show ?thesis by (simp add: word_le_nat_alt)
  qed
  show ?thesis
    using assms slave
    by (auto simp: irq_dispatch_def range pic_send_eoi_def outb_def Let_def IDT_VECTORS_def
        split: option.split)
qed

theorem irq_dispatch_spec_witness:
  "device (irq_dispatch 0x21 (keyboard_init irq_boot)) = (kbd_irq keyboard_boot 0, 0) \<and>
   ports (irq_dispatch 0x21 (keyboard_init irq_boot)) = [(PIC_EOI, PIC_M_CTRL)]"
  using irq_dispatch_spec [of "keyboard_init irq_boot" "0x21"]
  by (simp add: irq_boot_def IDT_VECTORS_def keyboard_init_def register_irq_handler_def
      keyboard_handler_def)

end
