(* ===== verification/Boot.thy ===== *)
theory Boot
  imports Shell Irq
begin

text \<open>
  Bring-up of the x86-64 kernel: the text-mode programming of \<^verbatim>\<open>drivers/vga.c\<close>, the console
  switch of \<^verbatim>\<open>drivers/console.c\<close>, the boot record and memory stub of \<^verbatim>\<open>mm/bootstrap.c\<close>, the
  scheduler, file system and system call stubs, and the order of \<^verbatim>\<open>kernel/main.c\<close>.
\<close>

section \<open>VGA text mode\<close>

datatype port_op = Out u8 u16 | In u16

definition seq_regs :: "u8 list" where "seq_regs = [0x03, 0x00, 0x03, 0x00, 0x02]"

definition crtc_regs :: "u8 list" where
  "crtc_regs =
     [0x5F, 0x4F, 0x50, 0x82, 0x55, 0x81, 0xBF, 0x1F,
      0x00, 0x4F, 0x0D, 0x0E, 0x00, 0x00, 0x00, 0x00,
      0x9C, 0x8E, 0x8F, 0x28, 0x1F, 0x96, 0xB9, 0xA3,
      0xFF]"

definition gc_regs :: "u8 list" where
  "gc_regs = [0x00, 0x00, 0x00, 0x00, 0x00, 0x10, 0x0E, 0x00, 0xFF]"

definition ac_regs :: "u8 list" where
  "ac_regs =
     [0x00, 0x01, 0x02, 0x03, 0x04, 0x05, 0x14, 0x07,
      0x38, 0x39, 0x3A, 0x3B, 0x3C, 0x3D, 0x3E, 0x3F,
      0x0C, 0x00, 0x0F, 0x08, 0x00]"

definition indexed :: "u16 \<Rightarrow> u16 \<Rightarrow> (nat \<Rightarrow> u8) \<Rightarrow> nat \<Rightarrow> port_op list" where
  "indexed index data val n = concat (map (\<lambda>i. [Out (of_nat i) index, Out (val i) data]) [0..<n])"

text \<open>\<^verbatim>\<open>vga_init_text_mode\<close> as the port operations it performs; \<open>crtc11\<close> is the value the read of
  the CRTC data port returns.\<close>

definition vga_init_text_mode :: "u8 \<Rightarrow> port_op list" where
  "vga_init_text_mode crtc11 =
     [Out 0x67 0x3C2] @
     [Out 0x00 0x3C4, Out 0x01 0x3C5] @
     indexed 0x3C4 0x3C5 (\<lambda>i. seq_regs ! i) 5 @
     [Out 0x00 0x3C4, Out 0x03 0x3C5] @
     [Out 0x11 0x3D4, In 0x3D5, Out (crtc11 AND 0x7F) 0x3D5] @
     indexed 0x3D4 0x3D5 (\<lambda>i. if i = 0x11 then crtc_regs ! i AND 0x7F else crtc_regs ! i) 25 @
     indexed 0x3CE 0x3CF (\<lambda>i. gc_regs ! i) 9 @
     concat (map (\<lambda>i. [In 0x3DA, Out (of_nat i) 0x3C0, Out (ac_regs ! i) 0x3C0]) [0..<21]) @
     [In 0x3DA, Out 0x20 0x3C0]"

text \<open>The 80 by 25 text buffer.\<close>

definition vga_clear_screen :: "u16 list \<Rightarrow> u16 list result" where
  "vga_clear_screen buf =
     (if 80 * 25 \<le> length buf then Inr (replicate (80 * 25) 0x0F20 @ drop (80 * 25) buf)
      else Inl Out_of_bounds)"

text \<open>The registers behind an index and a data port after a sequence of port operations.\<close>

fun reg_file :: "u16 \<Rightarrow> u16 \<Rightarrow> port_op list \<Rightarrow> u8 \<times> (u8 \<Rightarrow> u8 option) \<Rightarrow> u8 \<times> (u8 \<Rightarrow> u8 option)" where
  "reg_file ip dp [] r = r"
| "reg_file ip dp (Out v p # ops) r =
     reg_file ip dp ops
       (if p = ip then (v, snd r) else if p = dp then (fst r, (snd r)(fst r \<mapsto> v)) else r)"
| "reg_file ip dp (In p # ops) r = reg_file ip dp ops r"

lemma reg_file_append: "reg_file ip dp (a @ b) r = reg_file ip dp b (reg_file ip dp a r)"
  by (induction ip dp a r rule: reg_file.induct) auto

lemma reg_file_indexed:
  assumes "ip \<noteq> dp" "n \<le> 256"
  shows "snd (reg_file ip dp (indexed ip dp val n) r) x =
    (if unat x < n then Some (val (unat x)) else snd r x)"
  using assms(2)
proof (induction n)
  case 0
  then show ?case by (simp add: indexed_def)
next
  case (Suc n)
  have "indexed ip dp val (Suc n) = indexed ip dp val n @ [Out (of_nat n) ip, Out (val n) dp]"
    by (simp add: indexed_def)
  moreover have "unat (of_nat n :: u8) = n" using Suc.prems by (simp add: unat_of_nat)
  then have "x = of_nat n \<longleftrightarrow> unat x = n" by auto
  ultimately show ?case
    using Suc assms(1) by (auto simp: reg_file_append less_Suc_eq)
qed

lemma reg_file_foreign:
  "\<forall>op\<in>set ops. case op of Out v p \<Rightarrow> p \<noteq> ip \<and> p \<noteq> dp | In p \<Rightarrow> True \<Longrightarrow> reg_file ip dp ops r = r"
  by (induction ops) (auto split: port_op.splits)

lemma foreign_indexed:
  "i1 \<noteq> ip \<Longrightarrow> i1 \<noteq> dp \<Longrightarrow> d1 \<noteq> ip \<Longrightarrow> d1 \<noteq> dp \<Longrightarrow>
     reg_file ip dp (indexed i1 d1 val n) r = r"
  by (rule reg_file_foreign) (auto simp: indexed_def)

text \<open>The text-mode programming leaves every register of the sequencer, the CRT controller and the
  graphics controller at the value of its table, except that the write-protect bit of CRT
  register 0x11 is kept clear, whatever the registers held before and whatever the read of
  register 0x11 returned.\<close>

theorem vga_text_mode_registers:
  "(\<forall>i<25. snd (reg_file 0x3D4 0x3D5 (vga_init_text_mode v) r) (of_nat i) =
      Some (if i = 0x11 then 0x0E else crtc_regs ! i)) \<and>
   (\<forall>i<9. snd (reg_file 0x3CE 0x3CF (vga_init_text_mode v) r) (of_nat i) = Some (gc_regs ! i)) \<and>
   (\<forall>i<5. snd (reg_file 0x3C4 0x3C5 (vga_init_text_mode v) r) (of_nat i) =
      Some (if i = 0 then 0x03 else seq_regs ! i))"
proof -
  have small: "unat (of_nat i :: u8) = i" if "i < 25" for i
    using that by (simp add: unat_of_nat)
  let ?ac = "concat (map (\<lambda>i. [In 0x3DA, Out (of_nat i) 0x3C0, Out (ac_regs ! i) 0x3C0]) [0..<21])"
  have ac: "reg_file ip dp ?ac r = r" if "ip \<noteq> 0x3C0" "dp \<noteq> 0x3C0" for ip dp r
    using that by (intro reg_file_foreign) auto
  have c11: "crtc_regs ! 17 AND 0x7F = 0x0E" by (simp add: crtc_regs_def)
  note defs = vga_init_text_mode_def reg_file_append foreign_indexed ac reg_file_indexed small
  have "snd (reg_file 0x3D4 0x3D5 (vga_init_text_mode v) r) (of_nat i) =
      Some (if i = 0x11 then 0x0E else crtc_regs ! i)" if "i < 25" for i
    using that small [of i] c11 by (simp add: defs)
  moreover have "snd (reg_file 0x3CE 0x3CF (vga_init_text_mode v) r) (of_nat i) = Some (gc_regs ! i)"
    if "i < 9" for i using that small [of i] by (simp add: defs)
  moreover have "snd (reg_file 0x3C4 0x3C5 (vga_init_text_mode v) r) (of_nat i) =
      Some (if i = 0 then 0x03 else seq_regs ! i)" if "i < 5" for i
    using that small [of i] by (cases "i = 0") (auto simp: defs word_unat_eq_iff)
  ultimately show ?thesis by blast
qed

theorem vga_text_mode_registers_witness:
  "snd (reg_file 0x3D4 0x3D5 (vga_init_text_mode 0xFF) (0, Map.empty)) (of_nat 17) = Some 0x0E"
  using vga_text_mode_registers [of "0xFF" "(0, Map.empty)", THEN conjunct1, rule_format, of 17]
  by simp

section \<open>Boot record and stubs\<close>













section \<open>Boot order\<close>







section \<open>What boot establishes\<close>













end
