(* ===== verification/Bitmap.thy ===== *)
theory Bitmap
  imports Prelude
begin

text \<open>
  \<^verbatim>\<open>lib/kernel/bitmap.c\<close>: the byte-array bitmaps that manage physical pages, virtual
  pages, inodes and data blocks. A bitmap is the record of \<^verbatim>\<open>struct bitmap\<close>; its \<open>bits\<close>
  is the memory object the pointer refers to, which holds at least \<open>btmp_bytes_len\<close>
  bytes and may be longer. The arithmetic of \<^verbatim>\<open>bitmap_scan\<close> is that of the 32-bit source: the number of bits
  and the index wrap, and the result is signed. A bitmap is well formed (\<open>bm_wf\<close>) when it has fewer than
  \<open>2 ^ 28\<close> bytes, so that every index is a non-negative \<^verbatim>\<open>int\<close>; the largest of the kernel, for a 4 GB address
  space, has \<open>2 ^ 17\<close>. The index given to \<^verbatim>\<open>bitmap_set\<close> and \<^verbatim>\<open>bitmap_scan_test\<close> is only divided, so a natural
  number stands for it.
\<close>

section \<open>Model\<close>

text \<open>The single-bit masks of the source, \<^verbatim>\<open>BITMAP_MASK << k\<close>, read one bit.\<close>

lemma mask_test_bit: "2 ^ k AND b \<noteq> 0 \<longleftrightarrow> bit (b :: u8) k"
  by (metis and.commute bit_iff_and_push_bit_not_eq_0 push_bit_of_1)

lemma bit_u8_lt: "bit (b :: u8) k \<Longrightarrow> k < 8"
  using bit_imp_le_length [of b k] by simp

lemma next_index: "i < (l :: u32) \<Longrightarrow> unat (i + 1) = Suc (unat i) \<and> unat i < unat l"
proof -
  assume a: "i < l"
  then have "unat i < unat l" by (simp add: word_less_nat_alt)
  moreover have "unat l < 2 ^ 32" using unsigned_less [where ?'a = nat, of l] by simp
  ultimately show ?thesis using unat_add_lem [of i 1] by simp
qed

record bitmap =
  btmp_bytes_len :: u32
  bits :: "u8 list"

definition byte_at :: "bitmap \<Rightarrow> nat \<Rightarrow> u8 result" where
  "byte_at btmp i = (if i < length (bits btmp) then Inr (bits btmp ! i) else Inl Out_of_bounds)"

definition bitmap_init :: "bitmap \<Rightarrow> bitmap result" where
  "bitmap_init btmp =
     (if unat (btmp_bytes_len btmp) \<le> length (bits btmp)
      then Inr (btmp\<lparr>bits := splice 0 (replicate (unat (btmp_bytes_len btmp)) 0) (bits btmp)\<rparr>)
      else Inl Out_of_bounds)"

definition bitmap_scan_test :: "bitmap \<Rightarrow> nat \<Rightarrow> bool result" where
  "bitmap_scan_test btmp bit_idx =
     bindE (byte_at btmp (bit_idx div 8))
       (\<lambda>b. Inr (b AND push_bit (bit_idx mod 8) 1 \<noteq> 0))"

text \<open>
  The three loops of \<^verbatim>\<open>bitmap_scan\<close>. The guard of the first reads the byte before it
  compares the index, as the \<^verbatim>\<open>&&\<close> of the source does.
\<close>

function scan_byte :: "bitmap \<Rightarrow> u32 \<Rightarrow> u32 result" where
  "scan_byte btmp idx_byte =
     (if unat idx_byte < length (bits btmp)
      then if bits btmp ! unat idx_byte = 0xff \<and> idx_byte < btmp_bytes_len btmp
           then scan_byte btmp (idx_byte + 1)
           else Inr idx_byte
      else Inl Out_of_bounds)"
  by pat_completeness auto
termination
  by (relation "measure (\<lambda>(btmp, i). unat (btmp_bytes_len btmp) - unat i)")
    (auto simp: next_index intro!: diff_less_mono2 dest: next_index)

function scan_bit :: "u8 \<Rightarrow> nat \<Rightarrow> nat" where
  "scan_bit b idx_bit =
     (if push_bit idx_bit 1 AND b \<noteq> 0 then scan_bit b (Suc idx_bit) else idx_bit)"
  by pat_completeness auto
termination
  by (relation "measure (\<lambda>(b, i). 8 - i)") (auto simp: mask_test_bit dest: bit_u8_lt)

declare scan_byte.simps [simp del] scan_bit.simps [simp del]

fun scan_run :: "bitmap \<Rightarrow> u32 \<Rightarrow> nat \<Rightarrow> u32 \<Rightarrow> u32 \<Rightarrow> int result" where
  "scan_run btmp cnt 0 bit_next count = Inr (-1)"
| "scan_run btmp cnt (Suc bit_left) bit_next count =
     bindE (bitmap_scan_test btmp (unat bit_next)) (\<lambda>used.
       let count = (if \<not> used then count + 1 else 0) in
       if count = cnt then Inr (sint (bit_next - cnt + 1))
       else scan_run btmp cnt bit_left (bit_next + 1) count)"

definition bitmap_scan :: "bitmap \<Rightarrow> u32 \<Rightarrow> int result" where
  "bitmap_scan btmp cnt =
     bindE (scan_byte btmp 0) (\<lambda>idx_byte.
     assertE (idx_byte < btmp_bytes_len btmp)
       (if idx_byte = btmp_bytes_len btmp then Inr (-1)
        else bindE (byte_at btmp (unat idx_byte)) (\<lambda>b.
          let bit_idx_start = idx_byte * 8 + of_nat (scan_bit b 0) in
          if cnt = 1 then Inr (sint bit_idx_start)
          else scan_run btmp cnt (unat (btmp_bytes_len btmp * 8 - bit_idx_start))
                 (bit_idx_start + 1) 1)))"

definition bitmap_set :: "bitmap \<Rightarrow> nat \<Rightarrow> int \<Rightarrow> bitmap result" where
  "bitmap_set btmp bit_idx value =
     assertE (value = 0 \<or> value = 1)
       (bindE (byte_at btmp (bit_idx div 8)) (\<lambda>b.
          let b' = (if value \<noteq> 0 then b OR push_bit (bit_idx mod 8) 1
                    else b AND NOT (push_bit (bit_idx mod 8) 1))
          in Inr (btmp\<lparr>bits := (bits btmp)[bit_idx div 8 := b']\<rparr>)))"

section \<open>Bits of a bitmap\<close>

text \<open>
  \<open>bm_used\<close> is the abstraction of a bitmap: which bits are set. \<open>bm_wf\<close>: the object
  behind \<open>bits\<close> holds the bytes the length promises, and the number of bits is a non-negative \<^verbatim>\<open>int\<close>.
\<close>

definition bm_used :: "bitmap \<Rightarrow> nat \<Rightarrow> bool" where
  "bm_used btmp i \<longleftrightarrow> bit (bits btmp ! (i div 8)) (i mod 8)"

definition bm_wf :: "bitmap \<Rightarrow> bool" where
  "bm_wf btmp \<longleftrightarrow> unat (btmp_bytes_len btmp) \<le> length (bits btmp) \<and> unat (btmp_bytes_len btmp) < 2 ^ 28"

definition bm_cap :: "bitmap \<Rightarrow> nat" where
  "bm_cap btmp = 8 * unat (btmp_bytes_len btmp)"

named_theorems bm_simps \<open>reading and writing single bits\<close>

lemma byte_at_in [bm_simps]: "i < length (bits btmp) \<Longrightarrow> byte_at btmp i = Inr (bits btmp ! i)"
  by (simp add: byte_at_def)

lemma bm_cap_div: "bm_wf btmp \<Longrightarrow> i < bm_cap btmp \<Longrightarrow> i div 8 < length (bits btmp)"
  by (auto simp: bm_wf_def bm_cap_def less_mult_imp_div_less mult.commute)

lemma scan_test_readable:
  "i div 8 < length (bits btmp) \<Longrightarrow> bitmap_scan_test btmp i = Inr (bm_used btmp i)"
  using mask_test_bit [of "i mod 8" "bits btmp ! (i div 8)"]
  by (simp add: bitmap_scan_test_def bm_used_def byte_at_in and.commute)

lemma scan_test_in [bm_simps]:
  "bm_wf btmp \<Longrightarrow> i < bm_cap btmp \<Longrightarrow> bitmap_scan_test btmp i = Inr (bm_used btmp i)"
  by (simp add: scan_test_readable bm_cap_div)

lemma scan_test_Inr: "bitmap_scan_test btmp i = Inr u \<Longrightarrow> u = bm_used btmp i"
  using scan_test_readable [of i btmp]
  by (cases "i div 8 < length (bits btmp)") (auto simp: bitmap_scan_test_def byte_at_def)

text \<open>Setting or clearing a bit changes that bit only.\<close>

lemma bitmap_set_Inr:
  assumes "i div 8 < length (bits btmp)" "v = 0 \<or> v = 1"
  obtains btmp' where "bitmap_set btmp i v = Inr btmp'"
    and "btmp_bytes_len btmp' = btmp_bytes_len btmp"
    and "length (bits btmp') = length (bits btmp)"
    and "bm_used btmp' = (bm_used btmp)(i := (v = 1))"
proof
  let ?b = "bits btmp ! (i div 8)"
  let ?b' = "if v \<noteq> 0 then ?b OR push_bit (i mod 8) 1 else ?b AND NOT (push_bit (i mod 8) 1)"
  let ?r = "btmp\<lparr>bits := (bits btmp)[i div 8 := ?b']\<rparr>"
  show "bitmap_set btmp i v = Inr ?r"
    using assms by (simp add: bitmap_set_def byte_at_in Let_def)
  show "btmp_bytes_len ?r = btmp_bytes_len btmp" and "length (bits ?r) = length (bits btmp)"
    by simp_all
  show "bm_used ?r = (bm_used btmp)(i := (v = 1))"
  proof
    fix j
    show "bm_used ?r j = ((bm_used btmp)(i := (v = 1))) j"
    proof (cases "j div 8 = i div 8")
      case True
      then have "j = i \<longleftrightarrow> j mod 8 = i mod 8"
        by (metis div_mod_decomp)
      then show ?thesis
        using True assms
        by (auto simp: bm_used_def bit_or_iff bit_and_iff bit_not_iff bit_exp_iff)
    next
      case False
      then show ?thesis by (auto simp: bm_used_def)
    qed
  qed
qed

section \<open>First-fit search\<close>

lemma scan_bit_first:
  assumes "i \<le> k" "\<not> bit b k" "\<forall>j. i \<le> j \<and> j < k \<longrightarrow> bit b j"
  shows "scan_bit b i = k"
  using assms
proof (induction b i rule: scan_bit.induct)
  case (1 b i)
  show ?case
  proof (cases "i = k")
    case True
    then show ?thesis using 1 by (simp add: scan_bit.simps [of b k] mask_test_bit)
  next
    case False
    then have "bit b i" using 1 by simp
    then show ?thesis using 1 False by (simp add: scan_bit.simps [of b i] mask_test_bit)
  qed
qed

lemma byte_not_full: "b \<noteq> 0xff \<Longrightarrow> \<exists>k<8. \<not> bit (b :: u8) k"
proof (rule ccontr)
  assume "b \<noteq> 0xff" "\<not> (\<exists>k<8. \<not> bit b k)"
  moreover have "(0xff :: u8) = - 1" by simp
  ultimately show False
    by (metis bit_eq_iff bit_minus_1_iff bit_u8_lt possible_bit_word len_bit0 len_num1
        mult_2 numeral_Bit0 numeral_One)
qed

lemma byte_full_bit: "k < 8 \<Longrightarrow> bit (0xff :: u8) k"
proof -
  assume "k < 8"
  moreover have "(0xff :: u8) = - 1" by simp
  ultimately show ?thesis by (metis bit_minus_1_iff possible_bit_word len_bit0 len_num1
        mult_2 numeral_Bit0 numeral_One)
qed

lemma scan_byte_first:
  assumes "i \<le> k" "unat k < length (bits btmp)" "k \<le> btmp_bytes_len btmp"
    and "bits btmp ! unat k \<noteq> 0xff \<or> k = btmp_bytes_len btmp"
    and "\<forall>j. unat i \<le> j \<and> j < unat k \<longrightarrow> bits btmp ! j = 0xff"
  shows "scan_byte btmp i = Inr k"
  using assms
proof (induction btmp i rule: scan_byte.induct)
  case (1 btmp i)
  show ?case
  proof (cases "i = k")
    case True
    then show ?thesis using 1 by (auto simp: scan_byte.simps [of btmp k])
  next
    case False
    then have lt: "i < k" using 1(2) by simp
    then have n: "unat (i + 1) = Suc (unat i)" "unat i < unat k" using next_index by blast+
    have i: "bits btmp ! unat i = 0xff" "i < btmp_bytes_len btmp" "unat i < length (bits btmp)"
      using 1(3,4,6) n(2) lt by (auto dest: less_le_trans)
    moreover have "i + 1 \<le> k" using n by (simp add: word_le_nat_alt)
    ultimately show ?thesis using 1(1) 1(3-6) n by (subst scan_byte.simps) auto
  qed
qed

text \<open>When every byte of the bitmap is full the search for a byte runs to the length.\<close>

lemma scan_byte_full:
  assumes "bm_wf btmp" "\<forall>j < unat (btmp_bytes_len btmp). bits btmp ! j = 0xff"
  shows "scan_byte btmp i = Inl Out_of_bounds \<or>
         (\<exists>k. scan_byte btmp i = Inr k \<and> (i \<le> btmp_bytes_len btmp \<longrightarrow> k = btmp_bytes_len btmp))"
  using assms
proof (induction btmp i rule: scan_byte.induct)
  case (1 btmp i)
  show ?case
  proof (cases "unat i < length (bits btmp) \<and> i < btmp_bytes_len btmp")
    case True
    then have n: "unat (i + 1) = Suc (unat i)" "unat i < unat (btmp_bytes_len btmp)" using next_index by blast+
    then have "scan_byte btmp i = scan_byte btmp (i + 1)"
      using 1 True by (auto simp: scan_byte.simps [of btmp i])
    moreover have "i + 1 \<le> btmp_bytes_len btmp" using n by (simp add: word_le_nat_alt)
    ultimately show ?thesis using 1 True n by auto
  next
    case False
    then show ?thesis by (auto simp: scan_byte.simps [of btmp i])
  qed
qed

text \<open>The position found by the byte and bit loops is the first free bit.\<close>

lemma first_free_bit:
  assumes wf: "bm_wf btmp" and f: "f < bm_cap btmp" "\<not> bm_used btmp f"
    and least: "\<forall>i<f. bm_used btmp i"
  shows "scan_byte btmp 0 = Inr (of_nat (f div 8))"
    and "f div 8 < unat (btmp_bytes_len btmp)"
    and "scan_bit (bits btmp ! (f div 8)) 0 = f mod 8"
proof -
  show lt: "f div 8 < unat (btmp_bytes_len btmp)"
    using f by (simp add: bm_cap_def less_mult_imp_div_less mult.commute)
  have full: "bits btmp ! j = 0xff" if "j < f div 8" for j
  proof (rule ccontr)
    assume "bits btmp ! j \<noteq> 0xff"
    then obtain k where "k < 8" "\<not> bit (bits btmp ! j) k"
      using byte_not_full by blast
    then have "\<not> bm_used btmp (8 * j + k)" by (simp add: bm_used_def)
    moreover have "8 * j + k < f" using that \<open>k < 8\<close> by linarith
    ultimately show False using least by blast
  qed
  have "bits btmp ! (f div 8) \<noteq> 0xff"
    using f(2) byte_full_bit [of "f mod 8"] by (auto simp: bm_used_def)
  moreover have k: "unat (of_nat (f div 8) :: u32) = f div 8"
    using lt unsigned_less [where ?'a = nat, of "btmp_bytes_len btmp"] by (simp add: unat_of_nat)
  ultimately show "scan_byte btmp 0 = Inr (of_nat (f div 8))"
    using full lt wf by (intro scan_byte_first) (simp_all add: bm_wf_def word_le_nat_alt)
  have "bit (bits btmp ! (f div 8)) j" if "j < f mod 8" for j
  proof -
    have "8 * (f div 8) + j < f" using that by (metis add_less_cancel_left mult_div_mod_eq)
    then have "bm_used btmp (8 * (f div 8) + j)" using least by blast
    moreover have "j < 8" using that by (meson less_trans mod_less_divisor zero_less_numeral)
    ultimately show ?thesis by (simp add: bm_used_def)
  qed
  then show "scan_bit (bits btmp ! (f div 8)) 0 = f mod 8"
    using f(2) by (intro scan_bit_first) (auto simp: bm_used_def)
qed

text \<open>The run loop on natural numbers; below \<open>2 ^ 31\<close> it is the loop of the source.\<close>

fun run_from :: "bitmap \<Rightarrow> nat \<Rightarrow> nat \<Rightarrow> nat \<Rightarrow> nat \<Rightarrow> int result" where
  "run_from btmp cnt 0 bit_next count = Inr (-1)"
| "run_from btmp cnt (Suc bit_left) bit_next count =
     bindE (bitmap_scan_test btmp bit_next) (\<lambda>used.
       let count = (if \<not> used then count + 1 else 0) in
       if count = cnt then Inr (int bit_next - int cnt + 1)
       else run_from btmp cnt bit_left (bit_next + 1) count)"

lemma sint_of_nat_u32: "n < 2 ^ 31 \<Longrightarrow> sint (of_nat n :: u32) = int n"
  by (simp add: signed_of_nat signed_take_bit_int_eq_self)

lemma unat_of_nat_u32: "n < 2 ^ 32 \<Longrightarrow> unat (of_nat n :: u32) = n"
  by (simp add: unat_of_nat)

lemma cnt1: "0 < (cnt :: u32) \<Longrightarrow> cnt \<noteq> 1 \<Longrightarrow> 1 < unat cnt"
  by (metis One_nat_def less_one linorder_neqE_nat unat_1 unat_eq_0 word_neq_0_conv word_unat_eq_iff)

lemma scan_run_nat:
  assumes "n + left < 2 ^ 31" "count < unat cnt" "count \<le> n"
  shows "scan_run btmp cnt left (of_nat n) (of_nat count) = run_from btmp (unat cnt) left n count"
  using assms
proof (induction left arbitrary: n count)
  case (Suc left)
  have c: "unat cnt < 2 ^ 32" using unsigned_less [where ?'a = nat, of cnt] by simp
  have t: "unat (of_nat n :: u32) = n" using Suc.prems by (simp add: unat_of_nat)
  have u1: "unat ((of_nat count :: u32) + 1) = Suc count"
    using unat_of_nat_u32 [of "Suc count"] Suc.prems(2) c by (simp add: add.commute)
  have eq: "of_nat count + 1 = cnt \<longleftrightarrow> Suc count = unat cnt" by (simp add: word_unat_eq_iff u1)
  have z: "(0 :: u32) \<noteq> cnt" using Suc.prems(2) by auto
  have nx: "(of_nat n :: u32) + 1 = of_nat (Suc n)" "(of_nat count :: u32) + 1 = of_nat (Suc count)" by simp_all
  have r: "sint (of_nat n - cnt + 1 :: u32) = int n - int (unat cnt) + 1" if "Suc count = unat cnt"
  proof -
    have "cnt = of_nat count + 1" using eq that by simp
    then have "of_nat n - cnt + 1 = (of_nat (n - count) :: u32)" using Suc.prems(3) by (simp add: of_nat_diff)
    moreover have "n - count < 2 ^ 31" using Suc.prems by simp
    moreover have "int (n - count) = int n - int (unat cnt) + 1" using that Suc.prems(3) by linarith
    ultimately show ?thesis using sint_of_nat_u32 [of "n - count"] by metis
  qed
  show ?case
  proof (cases "bitmap_scan_test btmp n")
    case (Inr used)
    show ?thesis
    proof (cases "\<not> used \<and> Suc count = unat cnt")
      case True
      then show ?thesis using Inr t eq r by simp
    next
      case False
      have "scan_run btmp cnt left (of_nat (Suc n)) (of_nat c') = run_from btmp (unat cnt) left (Suc n) c'"
        if "c' = 0 \<or> c' = Suc count \<and> Suc count \<noteq> unat cnt" for c'
        using Suc.IH [of "Suc n" c'] Suc.prems that by (auto simp: less_Suc_eq_le)
      from this [of 0] this [of "Suc count"] show ?thesis
        using Inr t eq z False Suc.prems(2) by (cases used) (auto simp del: of_nat_Suc simp: nx)
    qed
  qed (simp add: t)
qed simp

lemma bitmap_scan_from_first_free:
  assumes "bm_wf btmp" "f < bm_cap btmp" "\<not> bm_used btmp f" "\<forall>i<f. bm_used btmp i" "0 < cnt"
  shows "bitmap_scan btmp cnt =
    (if cnt = 1 then Inr (int f) else run_from btmp (unat cnt) (bm_cap btmp - f) (f + 1) 1)"
proof -
  let ?l = "btmp_bytes_len btmp"
  have b: "byte_at btmp (f div 8) = Inr (bits btmp ! (f div 8))"
    using bm_cap_div [OF assms(1,2)] by (rule byte_at_in)
  have cap: "bm_cap btmp + 1 < 2 ^ 31" "unat ?l < 2 ^ 28" using assms(1) by (simp_all add: bm_wf_def bm_cap_def)
  have k: "unat (of_nat (f div 8) :: u32) = f div 8" using assms(2) cap by (intro unat_of_nat_u32) simp
  have st: "of_nat (f div 8) * 8 + of_nat (f mod 8) = (of_nat f :: u32)"
    by (metis div_mult_mod_eq of_nat_add of_nat_mult of_nat_numeral)
  have "?l * 8 - of_nat f = of_nat (bm_cap btmp - f)"
    using assms(2) by (simp add: bm_cap_def of_nat_diff mult.commute)
  then have left: "unat (?l * 8 - of_nat f) = bm_cap btmp - f" using cap by (simp add: unat_of_nat)
  have "cnt \<noteq> 1 \<Longrightarrow> scan_run btmp cnt (bm_cap btmp - f) (of_nat (f + 1)) (of_nat 1) =
      run_from btmp (unat cnt) (bm_cap btmp - f) (f + 1) 1"
    using cap assms(2) cnt1 [OF assms(5)] by (intro scan_run_nat) simp_all
  moreover have "of_nat (f div 8) < ?l" "of_nat (f div 8) \<noteq> ?l"
    using first_free_bit(2) [OF assms(1-4)] k by (auto simp: word_less_nat_alt)
  ultimately show ?thesis
    using first_free_bit [OF assms(1-4)] b sint_of_nat_u32 [of f] assms(2) cap
    by (simp add: bitmap_scan_def Let_def k st left) (simp add: add.commute)
qed

text \<open>
  The run loop: started with the \<open>count\<close> bits before \<open>bit_next\<close> free, it returns the
  first run of \<open>cnt\<close> free bits that starts at or after them.
\<close>

lemma run_from_first:
  assumes "bm_wf btmp" "count < cnt" "count \<le> next"
    and "\<forall>i. next - count \<le> i \<and> i < next \<longrightarrow> \<not> bm_used btmp i"
    and "next - count \<le> s" "s + cnt \<le> next + left" "s + cnt \<le> bm_cap btmp"
    and "\<forall>i. s \<le> i \<and> i < s + cnt \<longrightarrow> \<not> bm_used btmp i"
    and "\<forall>s'. next - count \<le> s' \<and> s' < s \<longrightarrow> (\<exists>i. s' \<le> i \<and> i < s' + cnt \<and> bm_used btmp i)"
  shows "run_from btmp cnt left next count = Inr (int s)"
  using assms
proof (induction left arbitrary: "next" count)
  case 0
  then show ?case by linarith
next
  case (Suc left)
  have lt: "next < s + cnt" using Suc.prems by linarith
  then have test: "bitmap_scan_test btmp next = Inr (bm_used btmp next)"
    using Suc.prems by (intro scan_test_in) auto
  show ?case
  proof (cases "bm_used btmp next")
    case True
    then have s: "Suc next \<le> s" using Suc.prems(8) lt by (meson leI not_less_eq_eq)
    have "run_from btmp cnt left (Suc next) 0 = Inr (int s)"
    proof (rule Suc.IH)
      show "\<forall>s'. Suc next - 0 \<le> s' \<and> s' < s \<longrightarrow>
              (\<exists>i. s' \<le> i \<and> i < s' + cnt \<and> bm_used btmp i)"
        using Suc.prems(9) by auto
    qed (use Suc.prems s in auto)
    then show ?thesis using True Suc.prems(2) by (simp add: test)
  next
    case False
    have free: "\<forall>i. next - count \<le> i \<and> i < Suc next \<longrightarrow> \<not> bm_used btmp i"
      using Suc.prems(4) False by (auto simp: less_Suc_eq)
    show ?thesis
    proof (cases "Suc count = cnt")
      case True
      have "\<not> next - count < s"
      proof
        assume "next - count < s"
        then obtain i where "next - count \<le> i" "i < next - count + cnt" "bm_used btmp i"
          using Suc.prems(9) by blast
        then show False using free True Suc.prems(3) by auto
      qed
      then have "s = next - count" using Suc.prems(5) by simp
      then show ?thesis
        using False True Suc.prems(3) by (simp add: test of_nat_diff)
    next
      case False': False
      have "run_from btmp cnt left (Suc next) (Suc count) = Inr (int s)"
        using Suc.prems free False' by (intro Suc.IH) auto
      then show ?thesis using False False' by (simp add: test)
    qed
  qed
qed

lemma run_from_sound:
  assumes "run_from btmp cnt left next count = Inr r" "count < cnt" "count \<le> next"
    and "\<forall>i. next - count \<le> i \<and> i < next \<longrightarrow> \<not> bm_used btmp i"
  shows "r = -1 \<or> (\<exists>s. r = int s \<and> s + cnt \<le> next + left \<and>
                        (\<forall>i. s \<le> i \<and> i < s + cnt \<longrightarrow> \<not> bm_used btmp i))"
  using assms
proof (induction left arbitrary: "next" count)
  case 0
  then show ?case by simp
next
  case (Suc left)
  then obtain u where test: "bitmap_scan_test btmp next = Inr u"
    by (auto simp: result_elims)
  then have u: "u = bm_used btmp next" by (rule scan_test_Inr)
  show ?case
  proof (cases u)
    case True
    then have "run_from btmp cnt left (Suc next) 0 = Inr r"
      using Suc.prems(1,2) by (simp add: test)
    then show ?thesis using Suc.IH [of "Suc next" 0] Suc.prems by auto
  next
    case False
    have free: "\<forall>i. next - count \<le> i \<and> i < Suc next \<longrightarrow> \<not> bm_used btmp i"
      using Suc.prems(4) False u by (auto simp: less_Suc_eq)
    show ?thesis
    proof (cases "Suc count = cnt")
      case True
      then have "r = int (next - count)"
        using Suc.prems(1,3) False by (auto simp: test)
      then show ?thesis using free True Suc.prems(3) by (intro disjI2 exI [of _ "next - count"]) auto
    next
      case False': False
      then have "run_from btmp cnt left (Suc next) (Suc count) = Inr r"
        using Suc.prems(1) False by (simp add: test)
      then show ?thesis using Suc.IH [of "Suc next" "Suc count"] Suc.prems free False' by auto
    qed
  qed
qed

text \<open>C6: \<^verbatim>\<open>bitmap_scan\<close> is a first-fit search. If a bitmap of fewer than \<open>2 ^ 28\<close> bytes holds a run of \<open>cnt\<close> free
  bits, the call returns the start of the first one, in the 32-bit arithmetic of the source.\<close>

theorem bitmap_scan_first_fit:
  assumes "bm_wf btmp" "0 < cnt" "s + unat cnt \<le> bm_cap btmp"
    and "\<forall>i. s \<le> i \<and> i < s + unat cnt \<longrightarrow> \<not> bm_used btmp i"
    and "\<forall>r. r < s \<longrightarrow> (\<exists>i. r \<le> i \<and> i < r + unat cnt \<and> bm_used btmp i)"
  shows "bitmap_scan btmp cnt = Inr (int s)"
proof -
  obtain f where f: "f \<le> s" "f < bm_cap btmp" "\<not> bm_used btmp f" "\<forall>j<f. bm_used btmp j"
    using first_index [of "\<lambda>i. \<not> bm_used btmp i" s "bm_cap btmp"] assms by (auto simp: word_less_nat_alt)
  note scan = bitmap_scan_from_first_free [OF assms(1) f(2,3,4) assms(2)]
  show ?thesis
  proof (cases "cnt = 1")
    case True
    then have "s \<le> f" using assms(5) [rule_format, of f] f(3) by (cases "f < s") (auto simp: less_Suc_eq_le dest: le_antisym)
    then show ?thesis using scan f(1) True by simp
  next
    case False
    have "1 < unat cnt" using cnt1 [OF assms(2) False] .
    then have "run_from btmp (unat cnt) (bm_cap btmp - f) (f + 1) 1 = Inr (int s)"
      using assms f by (intro run_from_first) (auto simp: less_Suc_eq)
    then show ?thesis using scan False by simp
  qed
qed

theorem bitmap_scan_first_fit_witness:
  "bitmap_scan \<lparr>btmp_bytes_len = 2, bits = [0xdb, 0xf0]\<rparr> 3 = Inr 8"
proof -
  let ?b = "\<lparr>btmp_bytes_len = 2, bits = [0xdb, 0xf0]\<rparr>"
  have free: "\<not> bm_used ?b i" if "8 \<le> i" "i < 8 + 3" for i
  proof -
    have "i = 8 \<or> i = 9 \<or> i = 10" using that by arith
    then show ?thesis by (elim disjE) (simp_all add: bm_used_def)
  qed
  have bits: "bm_used ?b 0" "bm_used ?b 3" "bm_used ?b 4" "bm_used ?b 6" "bm_used ?b 7"
    by (simp_all add: bm_used_def)
  have used: "\<exists>i. r \<le> i \<and> i < r + 3 \<and> bm_used ?b i" if "r < 8" for r
  proof -
    have "r = 0 \<or> (1 \<le> r \<and> r \<le> 3) \<or> r = 4 \<or> (5 \<le> r \<and> r \<le> 6) \<or> r = 7"
      using that by arith
    then show ?thesis
      by (elim disjE) (use bits in \<open>fastforce intro: exI [of _ 0] exI [of _ 3] exI [of _ 4]
            exI [of _ 6] exI [of _ 7]\<close>)+
  qed
  show ?thesis
    using bitmap_scan_first_fit [of ?b 3 8] free used by (simp add: bm_wf_def bm_cap_def)
qed

text \<open>what \<^verbatim>\<open>bitmap_scan\<close> returns is either \<open>-1\<close> or the start of a run of \<open>cnt\<close> bits
  none of which is set; the run may reach one bit past the capacity, because the run loop
  tests one bit more than the bitmap holds.\<close>

theorem bitmap_scan_sound:
  assumes "bm_wf btmp" "0 < cnt" "bitmap_scan btmp cnt = Inr r"
  shows "r = -1 \<or> (0 \<le> r \<and> nat r + unat cnt \<le> bm_cap btmp + 1 \<and>
                     (\<forall>i. nat r \<le> i \<and> i < nat r + unat cnt \<longrightarrow> \<not> bm_used btmp i))"
proof -
  from assms(3) obtain k where k: "scan_byte btmp 0 = Inr k" "k < btmp_bytes_len btmp"
    by (auto simp: bitmap_scan_def result_elims)
  have "\<not> (\<forall>j<unat (btmp_bytes_len btmp). bits btmp ! j = 0xff)"
    using scan_byte_full [OF assms(1), of 0] k by auto
  then obtain j m where j: "j < unat (btmp_bytes_len btmp)" "m < 8" "\<not> bit (bits btmp ! j) m"
    using byte_not_full by blast
  then have "\<not> bm_used btmp (8 * j + m)" "8 * j + m < bm_cap btmp"
    by (simp_all add: bm_used_def bm_cap_def)
  then obtain f where f: "f < bm_cap btmp" "\<not> bm_used btmp f" "\<forall>j<f. bm_used btmp j"
    by (rule first_index) auto
  note scan = bitmap_scan_from_first_free [OF assms(1) f assms(2), unfolded assms(3)]
  show ?thesis
  proof (cases "cnt = 1")
    case True
    then show ?thesis using scan f by (auto simp: le_less_Suc_eq)
  next
    case False
    then have "run_from btmp (unat cnt) (bm_cap btmp - f) (f + 1) 1 = Inr r" using scan by simp
    then have "r = -1 \<or> (\<exists>s. r = int s \<and> s + unat cnt \<le> f + 1 + (bm_cap btmp - f) \<and>
        (\<forall>i. s \<le> i \<and> i < s + unat cnt \<longrightarrow> \<not> bm_used btmp i))"
      by (rule run_from_sound) (use cnt1 [OF assms(2) False] f in \<open>auto simp: le_less_Suc_eq\<close>)
    then show ?thesis using f(1) by auto
  qed
qed

theorem bitmap_scan_sound_witness:
  "bitmap_scan \<lparr>btmp_bytes_len = 1, bits = [0x7f, 0]\<rparr> 2 = Inr 7 \<and>
   \<not> bm_used \<lparr>btmp_bytes_len = 1, bits = [0x7f, 0]\<rparr> 8"
proof -
  let ?b = "\<lparr>btmp_bytes_len = 1, bits = [0x7f, 0]\<rparr>"
  have scan: "bitmap_scan ?b 2 = Inr 7" by code_simp
  show ?thesis
    using bitmap_scan_sound [of ?b 2 7] scan by (simp add: bm_wf_def)
qed

text \<open>on a bitmap with no free bit \<^verbatim>\<open>bitmap_scan\<close> never returns: the byte after the last is
  read and then the \<^verbatim>\<open>ASSERT\<close> fails, although the code after it would return \<open>-1\<close> and every
  caller handles \<open>-1\<close>.\<close>

theorem bitmap_scan_full_faults:
  assumes "bm_wf btmp" "\<forall>i. i < bm_cap btmp \<longrightarrow> bm_used btmp i"
  shows "bitmap_scan btmp cnt = Inl Out_of_bounds \<or> bitmap_scan btmp cnt = Inl Assert_failed"
proof -
  have "bits btmp ! j = 0xff" if "j < unat (btmp_bytes_len btmp)" for j
  proof (rule ccontr)
    assume "bits btmp ! j \<noteq> 0xff"
    then obtain k where "k < 8" "\<not> bit (bits btmp ! j) k" using byte_not_full by blast
    then have "\<not> bm_used btmp (8 * j + k)" "8 * j + k < bm_cap btmp"
      using that by (simp_all add: bm_used_def bm_cap_def)
    then show False using assms(2) by blast
  qed
  then show ?thesis
    using scan_byte_full [OF assms(1), of 0] by (auto simp: bitmap_scan_def)
qed

theorem bitmap_scan_full_faults_witness:
  "bitmap_scan \<lparr>btmp_bytes_len = 1, bits = [0xff, 0]\<rparr> 1 = Inl Assert_failed"
proof -
  let ?b = "\<lparr>btmp_bytes_len = 1, bits = [0xff, 0]\<rparr>"
  have used: "\<forall>i. i < bm_cap ?b \<longrightarrow> bm_used ?b i"
    using byte_full_bit by (simp add: bm_used_def bm_cap_def)
  have "bitmap_scan ?b 1 \<noteq> Inl Out_of_bounds" by code_simp
  then show ?thesis
    using bitmap_scan_full_faults [of ?b 1] used by (simp add: bm_wf_def)
qed

section \<open>The allocator interface\<close>

text \<open>
  What the clients of a bitmap rely on (\<^verbatim>\<open>palloc\<close>, \<^verbatim>\<open>vaddr_get\<close> and \<^verbatim>\<open>vaddr_remove\<close> of
  \<^verbatim>\<open>mm/memory.c\<close>, \<^verbatim>\<open>inode_bitmap_alloc\<close> and \<^verbatim>\<open>block_bitmap_alloc\<close> of \<^verbatim>\<open>fs/file.c\<close>): a search
  for one free bit, and a write of one bit.
\<close>

locale bit_allocator =
  fixes scan :: "'b \<Rightarrow> u32 \<Rightarrow> int result"
    and put :: "'b \<Rightarrow> nat \<Rightarrow> int \<Rightarrow> 'b result"
    and used :: "'b \<Rightarrow> nat \<Rightarrow> bool"
    and cap :: "'b \<Rightarrow> nat"
    and wf :: "'b \<Rightarrow> bool"
  assumes scan_one: "wf b \<Longrightarrow> f < cap b \<Longrightarrow> \<not> used b f \<Longrightarrow> \<forall>i<f. used b i \<Longrightarrow> scan b 1 = Inr (int f)"
    and scan_none: "wf b \<Longrightarrow> \<forall>i<cap b. used b i \<Longrightarrow> \<exists>e. scan b n = Inl e"
    and put_bit: "wf b \<Longrightarrow> i < cap b \<Longrightarrow> v = 0 \<or> v = 1 \<Longrightarrow>
        \<exists>b'. put b i v = Inr b' \<and> wf b' \<and> cap b' = cap b \<and> used b' = (used b)(i := (v = 1))"
begin

lemma alloc_one:
  assumes "wf b" "\<exists>i<cap b. \<not> used b i"
  shows "\<exists>f b'. f < cap b \<and> \<not> used b f \<and> (\<forall>i<f. used b i) \<and> scan b 1 = Inr (int f) \<and>
           put b f 1 = Inr b' \<and> wf b' \<and> cap b' = cap b \<and> used b' = (used b)(f := True)"
proof -
  obtain i where "\<not> used b i" "i < cap b" using assms(2) by blast
  then obtain f where f: "f < cap b" "\<not> used b f" "\<forall>j<f. used b j"
    by (rule first_index) auto
  moreover obtain b' where "put b f 1 = Inr b'" "wf b'" "cap b' = cap b" "used b' = (used b)(f := True)"
    using put_bit [OF assms(1) f(1), of 1] by auto
  ultimately show ?thesis using scan_one [OF assms(1) f] by blast
qed

lemma alloc_Inr:
  assumes "wf b" "scan b 1 = Inr r"
  shows "\<exists>f b'. r = int f \<and> f < cap b \<and> \<not> used b f \<and>
           put b f 1 = Inr b' \<and> wf b' \<and> cap b' = cap b \<and> used b' = (used b)(f := True)"
proof -
  have "\<exists>i<cap b. \<not> used b i"
    using scan_none [OF assms(1), of 1] assms(2) by (metis Inr_Inl_False)
  then show ?thesis using alloc_one [OF assms(1)] assms(2) by auto
qed

lemma release_after_alloc:
  assumes "wf b" "f < cap b" "\<not> used b f" "put b f 1 = Inr b'"
  shows "\<exists>b''. put b' f 0 = Inr b'' \<and> wf b'' \<and> cap b'' = cap b \<and> used b'' = used b"
proof -
  have b': "wf b'" "cap b' = cap b" "used b' = (used b)(f := True)"
    using put_bit [of b f 1] assms by auto
  then have "(used b')(f := False) = used b" using assms(3) by (simp add: fun_upd_idem)
  then show ?thesis using put_bit [of b' f 0] b' assms(2) by auto
qed

end

interpretation bm: bit_allocator bitmap_scan bitmap_set bm_used bm_cap bm_wf
proof
  fix b :: bitmap and f :: nat
  assume "bm_wf b" "f < bm_cap b" "\<not> bm_used b f" "\<forall>i<f. bm_used b i"
  then show "bitmap_scan b 1 = Inr (int f)"
    using bitmap_scan_from_first_free [of b f 1] by simp
next
  fix b :: bitmap and n :: u32
  assume wf: "bm_wf b" and all: "\<forall>i<bm_cap b. bm_used b i"
  have full: "bits b ! j = 0xff" if "j < unat (btmp_bytes_len b)" for j
  proof (rule ccontr)
    assume "bits b ! j \<noteq> 0xff"
    then obtain k where "k < 8" "\<not> bit (bits b ! j) k" using byte_not_full by blast
    then show False using all that by (auto simp: bm_used_def bm_cap_def dest!: spec [of _ "8 * j + k"])
  qed
  then show "\<exists>e. bitmap_scan b n = Inl e"
    using scan_byte_full [OF wf, of 0] by (auto simp: bitmap_scan_def)
next
  fix b :: bitmap and i :: nat and v :: int
  assume "bm_wf b" "i < bm_cap b" "v = 0 \<or> v = 1"
  then show "\<exists>b'. bitmap_set b i v = Inr b' \<and> bm_wf b' \<and> bm_cap b' = bm_cap b \<and>
               bm_used b' = (bm_used b)(i := (v = 1))"
    using bitmap_set_Inr [of i b v] bm_cap_div [of b i] by (metis bm_cap_def bm_wf_def)
qed

text \<open>writing a bit and reading the bitmap back: the written bit has the new value and every
  other bit keeps its old one.\<close>

theorem bitmap_set_test:
  assumes "bm_wf btmp" "i < bm_cap btmp" "j < bm_cap btmp" "v = 0 \<or> v = 1"
  shows "\<exists>btmp'. bitmap_set btmp i v = Inr btmp' \<and>
           bitmap_scan_test btmp' j = Inr (if j = i then v = 1 else bm_used btmp j)"
proof -
  obtain b' where "bitmap_set btmp i v = Inr b'" "bm_wf b'" "bm_cap b' = bm_cap btmp"
    "bm_used b' = (bm_used btmp)(i := (v = 1))"
    using bm.put_bit [OF assms(1,2,4)] by blast
  then show ?thesis using assms(3) by (simp add: scan_test_in)
qed

theorem bitmap_set_test_witness:
  "\<exists>b. bitmap_set \<lparr>btmp_bytes_len = 2, bits = [0, 0]\<rparr> 9 1 = Inr b \<and>
       bitmap_scan_test b 9 = Inr True"
  using bitmap_set_test [of "\<lparr>btmp_bytes_len = 2, bits = [0, 0]\<rparr>" 9 9 1]
  by (simp add: bm_wf_def bm_cap_def)

end
