(* ===== verification/KList.thy ===== *)
theory KList
  imports Interrupt
begin

text \<open>
  \<^verbatim>\<open>lib/kernel/list.c\<close>: the kernel's intrusive doubly linked lists, on an explicit store.
  A node (\<^verbatim>\<open>struct list_elem\<close>) lives at a 32-bit address; \<open>prev\<close> and \<open>nxt\<close> are its two
  fields as functions of the address. A list (\<^verbatim>\<open>struct list\<close>) at address \<open>l\<close> has its head node
  at \<open>l\<close> and its tail node at \<open>l + 8\<close>, the two members of the structure. Node memory is shared
  by all lists, so an element that sits in two lists, or a pop of an empty list, corrupts
  the store exactly as in the source.
\<close>

section \<open>Model\<close>

record kmem = cpu +
  prev :: "u32 \<Rightarrow> u32"
  nxt :: "u32 \<Rightarrow> u32"

definition list_head :: "u32 \<Rightarrow> u32" where
  "list_head l = l"

definition list_tail :: "u32 \<Rightarrow> u32" where
  "list_tail l = l + 8"

definition list_init :: "u32 \<Rightarrow> 'a kmem_scheme \<Rightarrow> 'a kmem_scheme" where
  "list_init l s =
     (let s = s\<lparr>prev := (prev s)(list_head l := 0)\<rparr>;
          s = s\<lparr>nxt := (nxt s)(list_head l := list_tail l)\<rparr>;
          s = s\<lparr>prev := (prev s)(list_tail l := list_head l)\<rparr>;
          s = s\<lparr>nxt := (nxt s)(list_tail l := 0)\<rparr>
      in s)"

definition list_insert_before :: "u32 \<Rightarrow> u32 \<Rightarrow> 'a kmem_scheme \<Rightarrow> 'a kmem_scheme" where
  "list_insert_before before elem s =
     (let (old_status, s) = intr_disable s;
          s = s\<lparr>nxt := (nxt s)(prev s before := elem)\<rparr>;
          s = s\<lparr>prev := (prev s)(elem := prev s before)\<rparr>;
          s = s\<lparr>nxt := (nxt s)(elem := before)\<rparr>;
          s = s\<lparr>prev := (prev s)(before := elem)\<rparr>
      in snd (intr_set_status old_status s))"

definition list_push :: "u32 \<Rightarrow> u32 \<Rightarrow> 'a kmem_scheme \<Rightarrow> 'a kmem_scheme" where
  "list_push plist elem s = list_insert_before (nxt s (list_head plist)) elem s"

definition list_append :: "u32 \<Rightarrow> u32 \<Rightarrow> 'a kmem_scheme \<Rightarrow> 'a kmem_scheme" where
  "list_append plist elem s = list_insert_before (list_tail plist) elem s"

definition list_remove :: "u32 \<Rightarrow> 'a kmem_scheme \<Rightarrow> 'a kmem_scheme" where
  "list_remove pelem s =
     (let (old_status, s) = intr_disable s;
          s = s\<lparr>nxt := (nxt s)(prev s pelem := nxt s pelem)\<rparr>;
          s = s\<lparr>prev := (prev s)(nxt s pelem := prev s pelem)\<rparr>
      in snd (intr_set_status old_status s))"

definition list_pop :: "u32 \<Rightarrow> 'a kmem_scheme \<Rightarrow> u32 \<times> 'a kmem_scheme" where
  "list_pop plist s =
     (let elem = nxt s (list_head plist);
          s = list_remove elem s
      in (elem, s))"

definition list_empty :: "u32 \<Rightarrow> 'a kmem_scheme \<Rightarrow> bool" where
  "list_empty plist s \<longleftrightarrow> nxt s (list_head plist) = list_tail plist"

text \<open>
  The three walks. A walk along a corrupted list need not end, so the loops are partial:
  \<open>None\<close> is a walk that does not return.
\<close>

partial_function (option) find_loop ::
  "'a kmem_scheme \<Rightarrow> u32 \<Rightarrow> u32 \<Rightarrow> u32 \<Rightarrow> bool option" where
  "find_loop s tail obj_elem elem =
     (if elem \<noteq> tail
      then if elem = obj_elem then Some True else find_loop s tail obj_elem (nxt s elem)
      else Some False)"

definition elem_find :: "u32 \<Rightarrow> u32 \<Rightarrow> 'a kmem_scheme \<Rightarrow> bool option" where
  "elem_find plist obj_elem s = find_loop s (list_tail plist) obj_elem (nxt s (list_head plist))"

partial_function (option) traversal_loop ::
  "(u32 \<Rightarrow> 'a kmem_scheme \<Rightarrow> bool \<times> 'a kmem_scheme) \<Rightarrow> u32 \<Rightarrow> u32 \<Rightarrow> 'a kmem_scheme \<Rightarrow>
   (u32 \<times> 'a kmem_scheme) option" where
  "traversal_loop func tail elem s =
     (if elem \<noteq> tail
      then (case func elem s of (found, s) \<Rightarrow>
              if found then Some (elem, s) else traversal_loop func tail (nxt s elem) s)
      else Some (0, s))"

definition list_traversal ::
  "u32 \<Rightarrow> (u32 \<Rightarrow> 'a kmem_scheme \<Rightarrow> bool \<times> 'a kmem_scheme) \<Rightarrow> 'a kmem_scheme \<Rightarrow>
   (u32 \<times> 'a kmem_scheme) option" where
  "list_traversal plist func s =
     (let elem = nxt s (list_head plist) in
      if list_empty plist s then Some (0, s)
      else traversal_loop func (list_tail plist) elem s)"

partial_function (option) len_loop ::
  "'a kmem_scheme \<Rightarrow> u32 \<Rightarrow> u32 \<Rightarrow> u32 \<Rightarrow> u32 option" where
  "len_loop s tail elem len =
     (if elem \<noteq> tail then len_loop s tail (nxt s elem) (len + 1) else Some len)"

definition list_len :: "u32 \<Rightarrow> 'a kmem_scheme \<Rightarrow> u32 option" where
  "list_len plist s = len_loop s (list_tail plist) (nxt s (list_head plist)) 0"

section \<open>Abstraction\<close>

text \<open>
  \<open>chain s a xs b\<close>: from node \<open>a\<close> the \<open>nxt\<close> fields lead through \<open>xs\<close> to \<open>b\<close> and the
  \<open>prev\<close> fields lead back. \<open>klist s l xs\<close>: the list at \<open>l\<close> holds exactly the elements \<open>xs\<close>.
\<close>

fun chain :: "'a kmem_scheme \<Rightarrow> u32 \<Rightarrow> u32 list \<Rightarrow> u32 \<Rightarrow> bool" where
  "chain s a [] b \<longleftrightarrow> nxt s a = b \<and> prev s b = a"
| "chain s a (x # xs) b \<longleftrightarrow> nxt s a = x \<and> prev s x = a \<and> chain s x xs b"

definition klist :: "'a kmem_scheme \<Rightarrow> u32 \<Rightarrow> u32 list \<Rightarrow> bool" where
  "klist s l xs \<longleftrightarrow> chain s (list_head l) xs (list_tail l) \<and>
     distinct (list_head l # xs @ [list_tail l])"

text \<open>The nodes a list occupies.\<close>

definition foot :: "u32 \<Rightarrow> u32 list \<Rightarrow> u32 set" where
  "foot l xs = {list_head l, list_tail l} \<union> set xs"

lemma head_neq_tail [simp]: "list_head l \<noteq> list_tail l" "list_tail l \<noteq> list_head l"
  by (simp_all add: list_head_def list_tail_def)

lemma chain_append [simp]:
  "chain s a (xs @ y # ys) b \<longleftrightarrow> chain s a xs y \<and> chain s y ys b"
  by (induction xs arbitrary: a) auto

lemma chain_cong:
  assumes "\<And>x. x \<in> insert a (set xs) \<Longrightarrow> nxt t x = nxt s x"
    and "\<And>x. x \<in> insert b (set xs) \<Longrightarrow> prev t x = prev s x"
  shows "chain t a xs b = chain s a xs b"
  using assms by (induction xs arbitrary: a) auto

lemma chain_last: "chain s a xs b \<Longrightarrow> prev s b = last (a # xs)"
  by (induction xs arbitrary: a) auto

lemma chain_first: "chain s a xs b \<Longrightarrow> nxt s a = hd (xs @ [b])"
  by (cases xs) auto

section \<open>The stores after the mutating operations\<close>

text \<open>
  The interrupt bracket cancels, so an insertion or a removal is two updates of \<open>nxt\<close> and
  two of \<open>prev\<close>.
\<close>

named_theorems klist_fields \<open>fields after a list operation\<close>

lemma insert_before_eq:
  "list_insert_before b e s =
     s\<lparr>nxt := (nxt s)(prev s b := e, e := b), prev := (prev s)(e := prev s b, b := e)\<rparr>"
  by (simp add: list_insert_before_def Let_def split_beta disable_flag restore_flag)

lemma remove_eq:
  "list_remove e s =
     s\<lparr>nxt := (nxt s)(prev s e := nxt s e),
       prev := (prev s)(((nxt s)(prev s e := nxt s e)) e := prev s e)\<rparr>"
  by (simp add: list_remove_def Let_def split_beta disable_flag restore_flag)

lemma more_ops [klist_fields]:
  "eflags (list_insert_before b e s) = eflags s" "kmem.more (list_insert_before b e s) = kmem.more s"
  "eflags (list_remove e s) = eflags s" "kmem.more (list_remove e s) = kmem.more s"
  by (simp_all add: insert_before_eq remove_eq)

text \<open>Insertion before the end of a chain extends it; a disjoint chain is untouched.\<close>

lemma chain_insert:
  assumes "chain s a xs b" "distinct (a # xs @ [b])" "e \<notin> set (a # xs @ [b])"
  shows "chain (list_insert_before b e s) a (xs @ [e]) b"
proof -
  let ?t = "list_insert_before b e s"
  have last: "prev s b = last (a # xs)" using assms(1) by (rule chain_last)
  have split: "a # xs = butlast (a # xs) @ [last (a # xs)]" by simp
  show ?thesis
  proof (cases xs rule: rev_cases)
    case Nil
    then show ?thesis using assms by (auto simp: insert_before_eq)
  next
    case (snoc ys y)
    then have c: "chain s a ys y" "nxt s y = b" "prev s b = y" using assms(1) by auto
    have "chain ?t a ys y"
      using c(1) by (subst chain_cong [of a ys _ s]) (use assms snoc c in \<open>auto simp: insert_before_eq\<close>)
    then show ?thesis using assms snoc c by (auto simp: insert_before_eq)
  qed
qed

lemma chain_insert_other:
  assumes "chain s a xs b" "prev s c \<notin> insert a (set xs)" "c \<notin> insert b (set xs)"
    and "e \<notin> insert a (insert b (set xs))"
  shows "chain (list_insert_before c e s) a xs b"
  using assms(1)
  by (subst chain_cong [of a xs _ s]) (use assms in \<open>auto simp: insert_before_eq\<close>)

lemma chain_remove:
  assumes "chain s a (xs @ e # ys) b" "distinct (a # (xs @ e # ys) @ [b])"
  shows "chain (list_remove e s) a (xs @ ys) b"
proof -
  let ?t = "list_remove e s" and ?p = "last (a # xs)" and ?n = "hd (ys @ [b])"
  have c: "chain s a xs e" "chain s e ys b" using assms(1) by auto
  have p: "prev s e = ?p" using c(1) by (rule chain_last)
  have n: "nxt s e = ?n" using c(2) by (rule chain_first)
  have pe: "?p \<noteq> e" using assms(2) by (cases xs rule: rev_cases) auto
  have t: "?t = s\<lparr>nxt := (nxt s)(?p := ?n), prev := (prev s)(?n := ?p)\<rparr>"
    using p n pe by (simp add: remove_eq)
  have left: "chain ?t a xs ?n"
  proof (cases xs rule: rev_cases)
    case Nil
    then show ?thesis by (simp add: t)
  next
    case (snoc zs z)
    have "chain ?t a zs z"
      using c(1) snoc assms(2)
      by (subst chain_cong [of a zs _ s]) (cases ys; auto simp: t)+
    then show ?thesis using snoc by (simp add: t)
  qed
  show ?thesis
  proof (cases ys)
    case Nil
    then show ?thesis using left by simp
  next
    case (Cons y zs)
    have "chain ?t y zs b"
      using c(2) Cons assms(2)
      by (subst chain_cong [of y zs _ s]) (cases xs rule: rev_cases; auto simp: t)+
    then show ?thesis using left Cons by simp
  qed
qed

lemma chain_remove_other:
  assumes "chain s a xs b" "prev s e \<notin> insert a (set xs)" "prev s e \<noteq> e"
    and "nxt s e \<notin> insert b (set xs)"
  shows "chain (list_remove e s) a xs b"
  using assms(1)
  by (subst chain_cong [of a xs _ s]) (use assms in \<open>auto simp: remove_eq\<close>)

section \<open>Operations on whole lists\<close>

lemma klist_prev_tail: "klist s l xs \<Longrightarrow> prev s (list_tail l) \<in> foot l xs"
  using chain_last [of s "list_head l" xs "list_tail l"]
  by (cases xs rule: rev_cases) (auto simp: klist_def foot_def)

lemma klist_nxt_head: "klist s l xs \<Longrightarrow> nxt s (list_head l) = hd (xs @ [list_tail l])"
  by (auto simp: klist_def dest: chain_first)

lemma klist_neighbours:
  assumes "klist s l xs" "e \<in> set xs"
  shows "prev s e \<in> insert (list_head l) (set xs)" "nxt s e \<in> insert (list_tail l) (set xs)"
    "prev s e \<noteq> e"
proof -
  obtain ys zs where xs: "xs = ys @ e # zs" using assms(2) by (meson split_list)
  then have "chain s (list_head l) ys e" "chain s e zs (list_tail l)"
    and d: "distinct (list_head l # ys @ e # zs @ [list_tail l])"
    using assms(1) by (auto simp: klist_def)
  then have "prev s e = last (list_head l # ys)" "nxt s e = hd (zs @ [list_tail l])"
    by (blast dest: chain_last chain_first)+
  then show "prev s e \<in> insert (list_head l) (set xs)" "nxt s e \<in> insert (list_tail l) (set xs)"
    "prev s e \<noteq> e"
    using d xs by (cases ys rule: rev_cases; cases zs; auto)+
qed

lemma klist_init: "klist (list_init l s) l []"
  by (simp add: klist_def list_init_def Let_def)

lemma klist_init_other:
  assumes "klist s m ys" "foot l [] \<inter> foot m ys = {}"
  shows "klist (list_init l s) m ys"
proof -
  have "chain (list_init l s) (list_head m) ys (list_tail m) = chain s (list_head m) ys (list_tail m)"
    by (rule chain_cong) (use assms(2) in \<open>auto simp: foot_def list_init_def Let_def\<close>)
  then show ?thesis using assms(1) by (simp add: klist_def)
qed

lemma klist_append:
  "klist s l xs \<Longrightarrow> e \<notin> foot l xs \<Longrightarrow> klist (list_append l e s) l (xs @ [e])"
  using chain_insert [of s "list_head l" xs "list_tail l" e]
  by (auto simp: klist_def list_append_def foot_def)

lemma klist_append_other:
  assumes "klist s l xs" "klist s m ys" "foot l xs \<inter> foot m ys = {}" "e \<notin> foot m ys"
  shows "klist (list_append l e s) m ys"
proof -
  have "chain (list_append l e s) (list_head m) ys (list_tail m)"
    unfolding list_append_def
    using assms(2) klist_prev_tail [OF assms(1)] assms(3,4)
    by (intro chain_insert_other) (auto simp: klist_def foot_def)
  then show ?thesis using assms(2) by (simp add: klist_def)
qed

lemma klist_push:
  assumes "klist s l xs" "e \<notin> foot l xs"
  shows "klist (list_push l e s) l (e # xs)"
proof (cases xs)
  case Nil
  then have "nxt s (list_head l) = list_tail l" using klist_nxt_head [OF assms(1)] by simp
  then show ?thesis
    using klist_append [OF assms] Nil by (simp add: list_push_def list_append_def)
next
  case (Cons x ys)
  then have x: "nxt s (list_head l) = x" using klist_nxt_head [OF assms(1)] by simp
  have c: "chain s (list_head l) [] x" "chain s x ys (list_tail l)"
    using assms(1) Cons by (auto simp: klist_def)
  have "chain (list_insert_before x e s) (list_head l) ([] @ [e]) x"
    using c(1) by (rule chain_insert) (use assms Cons in \<open>auto simp: klist_def foot_def\<close>)
  moreover have "chain (list_insert_before x e s) x ys (list_tail l)"
    using c(2) by (rule chain_insert_other) (use assms Cons c(1) in \<open>auto simp: klist_def foot_def\<close>)
  ultimately show ?thesis
    using assms Cons x by (auto simp: klist_def list_push_def foot_def)
qed

lemma klist_push_other:
  assumes "klist s l xs" "klist s m ys" "foot l xs \<inter> foot m ys = {}" "e \<notin> foot m ys"
  shows "klist (list_push l e s) m ys"
proof -
  let ?b = "nxt s (list_head l)"
  have b: "?b \<in> foot l xs" using klist_nxt_head [OF assms(1)] by (cases xs) (auto simp: foot_def)
  have "prev s ?b = list_head l"
    using assms(1) by (cases xs) (auto simp: klist_def)
  then have "chain (list_push l e s) (list_head m) ys (list_tail m)"
    unfolding list_push_def using assms b
    by (intro chain_insert_other) (auto simp: klist_def foot_def)
  then show ?thesis using assms(2) by (simp add: klist_def)
qed

lemma klist_remove:
  "klist s l (xs @ e # ys) \<Longrightarrow> klist (list_remove e s) l (xs @ ys)"
  using chain_remove [of s "list_head l" xs e ys "list_tail l"] by (auto simp: klist_def)

lemma klist_remove_other:
  assumes "klist s l xs" "e \<in> set xs" "klist s m ys" "foot l xs \<inter> foot m ys = {}"
  shows "klist (list_remove e s) m ys"
proof -
  have "chain (list_remove e s) (list_head m) ys (list_tail m)"
    using assms(3,4) klist_neighbours [OF assms(1,2)]
    by (intro chain_remove_other) (auto simp: klist_def foot_def)
  then show ?thesis using assms(3) by (simp add: klist_def)
qed

lemma klist_pop:
  "klist s l (x # xs) \<Longrightarrow> list_pop l s = (x, list_remove x s) \<and> klist (list_remove x s) l xs"
  using klist_remove [of s l "[]" x xs] klist_nxt_head [of s l "x # xs"]
  by (simp add: list_pop_def Let_def)

lemma klist_empty: "klist s l xs \<Longrightarrow> list_empty l s \<longleftrightarrow> xs = []"
  using klist_nxt_head [of s l xs] by (cases xs) (auto simp: klist_def list_empty_def)

lemma find_loop_chain:
  assumes "chain s a xs b" "b \<notin> set xs"
  shows "find_loop s b e (nxt s a) = Some (e \<in> set xs)"
  using assms
proof (induction xs arbitrary: a)
  case Nil
  then show ?case by (simp add: find_loop.simps)
next
  case (Cons x xs)
  then show ?case by (auto simp: find_loop.simps [of s b e x])
qed

lemma klist_find: "klist s l xs \<Longrightarrow> elem_find l e s = Some (e \<in> set xs)"
  by (auto simp: klist_def elem_find_def find_loop_chain)

lemma len_loop_chain:
  assumes "chain s a xs b" "b \<notin> set xs"
  shows "len_loop s b (nxt s a) n = Some (n + of_nat (length xs))"
  using assms
proof (induction xs arbitrary: a n)
  case Nil
  then show ?case by (simp add: len_loop.simps)
next
  case (Cons x xs)
  then show ?case by (auto simp: len_loop.simps [of s b x] add.commute add.left_commute)
qed

lemma klist_len: "klist s l xs \<Longrightarrow> list_len l s = Some (of_nat (length xs))"
  by (auto simp: klist_def list_len_def len_loop_chain)

lemma traversal_loop_chain:
  assumes "chain s a xs b" "b \<notin> set xs" "\<And>e. func e s = (P e, s)"
  shows "traversal_loop func b (nxt s a) s =
           Some (case find P xs of None \<Rightarrow> 0 | Some e \<Rightarrow> e, s)"
  using assms(1,2)
proof (induction xs arbitrary: a)
  case Nil
  then show ?case by (simp add: traversal_loop.simps)
next
  case (Cons x xs)
  then show ?case using assms(3) by (auto simp: traversal_loop.simps [of func b x])
qed

section \<open>The list interface\<close>

text \<open>
  What the scheduler, the semaphores and the memory allocator rely on: each operation has
  its effect on the sequence a list holds and leaves every list with a disjoint footprint
  alone.
\<close>

locale intrusive_list =
  fixes app :: "u32 \<Rightarrow> u32 \<Rightarrow> 's \<Rightarrow> 's"
    and front :: "u32 \<Rightarrow> u32 \<Rightarrow> 's \<Rightarrow> 's"
    and del :: "u32 \<Rightarrow> 's \<Rightarrow> 's"
    and pop :: "u32 \<Rightarrow> 's \<Rightarrow> u32 \<times> 's"
    and empt :: "u32 \<Rightarrow> 's \<Rightarrow> bool"
    and member :: "u32 \<Rightarrow> u32 \<Rightarrow> 's \<Rightarrow> bool option"
    and holds :: "'s \<Rightarrow> u32 \<Rightarrow> u32 list \<Rightarrow> bool"
    and nodes :: "u32 \<Rightarrow> u32 list \<Rightarrow> u32 set"
  assumes nodes_snoc: "nodes l (xs @ [e]) = insert e (nodes l xs)"
    and nodes_elems: "set xs \<subseteq> nodes l xs"
    and nodes_mono: "set xs \<subseteq> set ys \<Longrightarrow> nodes l xs \<subseteq> nodes l ys"
    and holds_distinct: "holds s l xs \<Longrightarrow> distinct xs"
    and holds_fresh: "holds s l (xs @ e # ys) \<Longrightarrow> e \<notin> nodes l (xs @ ys)"
    and app_holds: "holds s l xs \<Longrightarrow> e \<notin> nodes l xs \<Longrightarrow> holds (app l e s) l (xs @ [e])"
    and app_other: "holds s l xs \<Longrightarrow> holds s m ys \<Longrightarrow> nodes l xs \<inter> nodes m ys = {} \<Longrightarrow>
          e \<notin> nodes m ys \<Longrightarrow> holds (app l e s) m ys"
    and front_holds: "holds s l xs \<Longrightarrow> e \<notin> nodes l xs \<Longrightarrow> holds (front l e s) l (e # xs)"
    and front_other: "holds s l xs \<Longrightarrow> holds s m ys \<Longrightarrow> nodes l xs \<inter> nodes m ys = {} \<Longrightarrow>
          e \<notin> nodes m ys \<Longrightarrow> holds (front l e s) m ys"
    and del_holds: "holds s l (xs @ e # ys) \<Longrightarrow> holds (del e s) l (xs @ ys)"
    and del_other: "holds s l xs \<Longrightarrow> e \<in> set xs \<Longrightarrow> holds s m ys \<Longrightarrow>
          nodes l xs \<inter> nodes m ys = {} \<Longrightarrow> holds (del e s) m ys"
    and pop_first: "holds s l (x # xs) \<Longrightarrow> pop l s = (x, del x s)"
    and empt_iff: "holds s l xs \<Longrightarrow> empt l s \<longleftrightarrow> xs = []"
    and member_iff: "holds s l xs \<Longrightarrow> member l e s = Some (e \<in> set xs)"
begin

text \<open>Popping the first element and appending it to another list.\<close>

lemma transfer:
  assumes "holds s l (x # xs)" "holds s m ys" "nodes l (x # xs) \<inter> nodes m ys = {}"
  shows "holds (app m (fst (pop l s)) (snd (pop l s))) l xs \<and>
         holds (app m (fst (pop l s)) (snd (pop l s))) m (ys @ [x])"
proof -
  have p: "pop l s = (x, del x s)" using assms(1) by (rule pop_first)
  have l: "holds (del x s) l xs" using del_holds [of s l "[]" x xs] assms(1) by simp
  have m: "holds (del x s) m ys" using del_other [OF assms(1) _ assms(2,3)] by simp
  have sub: "nodes l xs \<subseteq> nodes l (x # xs)" by (rule nodes_mono) auto
  have x: "x \<in> nodes l (x # xs)" using nodes_elems [of "x # xs" l] by auto
  then have "holds (app m x (del x s)) m (ys @ [x])"
    using app_holds [OF m] assms(3) by blast
  moreover have "holds (app m x (del x s)) l xs"
    using app_other [OF m l] holds_fresh [of s l "[]" x xs] assms(1,3) sub by auto
  ultimately show ?thesis by (simp add: p)
qed

text \<open>Appending a sequence of fresh elements, one after the other.\<close>

lemma app_all:
  assumes "holds s l xs" "distinct es" "set es \<inter> nodes l xs = {}"
  shows "holds (fold (app l) es s) l (xs @ es)"
  using assms
proof (induction es arbitrary: s xs)
  case Nil
  then show ?case by simp
next
  case (Cons e es)
  have "holds (app l e s) l (xs @ [e])" using Cons.prems by (intro app_holds) auto
  then have "holds (fold (app l) es (app l e s)) l ((xs @ [e]) @ es)"
    by (rule Cons.IH) (use Cons.prems in \<open>auto simp: nodes_snoc\<close>)
  then show ?case by simp
qed

lemma app_all_other:
  assumes "holds s l xs" "holds s m ys" "nodes l xs \<inter> nodes m ys = {}"
    "distinct es" "set es \<inter> nodes l xs = {}" "set es \<inter> nodes m ys = {}"
  shows "holds (fold (app l) es s) m ys"
  using assms
proof (induction es arbitrary: s xs)
  case Nil
  then show ?case by simp
next
  case (Cons e es)
  have "holds (app l e s) l (xs @ [e])" using Cons.prems by (intro app_holds) auto
  moreover have "holds (app l e s) m ys" using Cons.prems by (intro app_other [of s l xs]) auto
  ultimately have "holds (fold (app l) es (app l e s)) m ys"
    by (rule Cons.IH) (use Cons.prems in \<open>auto simp: nodes_snoc\<close>)
  then show ?case by simp
qed

text \<open>Unlinking a set of elements keeps the others in order.\<close>

lemma del_one: "holds s l xs \<Longrightarrow> e \<in> set xs \<Longrightarrow> holds (del e s) l (filter (\<lambda>x. x \<noteq> e) xs)"
proof -
  assume h: "holds s l xs" and e: "e \<in> set xs"
  obtain ys zs where xs: "xs = ys @ e # zs" using e by (meson split_list)
  then have "e \<notin> set ys" "e \<notin> set zs" using holds_distinct [OF h] by auto
  then have "filter (\<lambda>x. x \<noteq> e) xs = ys @ zs" by (auto simp: xs intro!: filter_True arg_cong2 [of _ _ _ _ "(@)"])
  then show ?thesis using del_holds [of s l ys e zs] h xs by simp
qed

lemma del_all:
  assumes "holds s l xs" "distinct es" "set es \<subseteq> set xs"
  shows "holds (fold del es s) l (filter (\<lambda>x. x \<notin> set es) xs)"
  using assms
proof (induction es arbitrary: s xs)
  case Nil
  then show ?case by simp
next
  case (Cons e es)
  have "holds (del e s) l (filter (\<lambda>x. x \<noteq> e) xs)" using Cons.prems by (intro del_one) auto
  then have "holds (fold del es (del e s)) l (filter (\<lambda>x. x \<notin> set es) (filter (\<lambda>x. x \<noteq> e) xs))"
    by (rule Cons.IH) (use Cons.prems in auto)
  then show ?case by (simp add: filter_filter conj_commute)
qed

end

interpretation kl: intrusive_list list_append list_push list_remove list_pop list_empty elem_find
  klist foot
proof
  fix s :: "'a kmem_scheme" and l m e x :: u32 and xs ys :: "u32 list"
  show "foot l (xs @ [e]) = insert e (foot l xs)" "set xs \<subseteq> foot l xs"
    by (auto simp: foot_def)
  show "set xs \<subseteq> set ys \<Longrightarrow> foot l xs \<subseteq> foot l ys" by (auto simp: foot_def)
  show "klist s l xs \<Longrightarrow> distinct xs" by (auto simp: klist_def)
  show "klist s l (xs @ e # ys) \<Longrightarrow> e \<notin> foot l (xs @ ys)" by (auto simp: klist_def foot_def)
  show "klist s l (x # xs) \<Longrightarrow> list_pop l s = (x, list_remove x s)" by (simp add: klist_pop)
qed (fact klist_append klist_append_other klist_push klist_push_other klist_remove
       klist_remove_other klist_empty klist_find)+

section \<open>Properties\<close>

text \<open>C22: appending a fresh element puts it at the end of the list's sequence, keeps every list
  whose nodes are disjoint, and restores the interrupt flag.\<close>

theorem list_append_refines:
  assumes "klist s l xs" "e \<notin> foot l xs"
  shows "klist (list_append l e s) l (xs @ [e]) \<and> eflags (list_append l e s) = eflags s \<and>
         (\<forall>m ys. klist s m ys \<longrightarrow> foot l xs \<inter> foot m ys = {} \<longrightarrow> e \<notin> foot m ys \<longrightarrow>
            klist (list_append l e s) m ys)"
  using kl.app_holds [OF assms] kl.app_other [OF assms(1)]
  by (auto simp: list_append_def klist_fields)

definition demo_mem :: kmem where
  "demo_mem = list_init 0x200 (list_init 0x100
     \<lparr>eflags = 0x202, prev = (\<lambda>_. 0), nxt = (\<lambda>_. 0)\<rparr>)"

lemma demo_lists: "klist demo_mem 0x100 []" "klist demo_mem 0x200 []"
  unfolding demo_mem_def
  by (rule klist_init_other [OF klist_init])
     (simp_all add: foot_def list_head_def list_tail_def klist_init)

theorem list_append_refines_witness:
  "klist (list_append 0x100 0x300 demo_mem) 0x100 [0x300] \<and>
   klist (list_append 0x100 0x300 demo_mem) 0x200 []"
  using list_append_refines [of demo_mem "0x100" "[]" "0x300"] demo_lists
  by (simp add: foot_def list_head_def list_tail_def)

text \<open>\<^verbatim>\<open>list_pop\<close> returns the first element and leaves the rest, and a list popped element by
  element into another one moves in order: the pop of \<open>x # xs\<close> followed by an append to a disjoint
  list \<open>ys\<close> gives \<open>xs\<close> and \<open>ys @ [x]\<close>.\<close>

theorem list_pop_transfer:
  assumes "klist s l (x # xs)" "klist s m ys" "foot l (x # xs) \<inter> foot m ys = {}"
  shows "fst (list_pop l s) = x \<and>
         klist (list_append m (fst (list_pop l s)) (snd (list_pop l s))) l xs \<and>
         klist (list_append m (fst (list_pop l s)) (snd (list_pop l s))) m (ys @ [x])"
  using kl.transfer [OF assms] kl.pop_first [OF assms(1)] by simp

theorem list_pop_transfer_witness:
  "fst (list_pop 0x100 (list_append 0x100 0x300 demo_mem)) = 0x300"
  using list_pop_transfer [of "list_append 0x100 0x300 demo_mem" "0x100" "0x300" "[]" "0x200" "[]"]
    kl.app_holds [OF demo_lists(1), of "0x300"]
    kl.app_other [OF demo_lists(1) demo_lists(2), of "0x300"]
  by (simp add: foot_def list_head_def list_tail_def)

text \<open>C30: on a well-formed list every walk returns: \<^verbatim>\<open>elem_find\<close> decides membership, \<^verbatim>\<open>list_len\<close> is
  the length (modulo \<open>2 ^ 32\<close>), and \<^verbatim>\<open>list_traversal\<close> with a callback that does not change the
  state returns the first element it accepts, or \<^verbatim>\<open>NULL\<close>.\<close>

theorem list_walks:
  assumes "klist s l xs" "\<And>e. func e s = (P e, s)"
  shows "elem_find l obj s = Some (obj \<in> set xs) \<and>
         list_len l s = Some (of_nat (length xs)) \<and>
         list_traversal l func s = Some (case find P xs of None \<Rightarrow> 0 | Some e \<Rightarrow> e, s)"
proof (intro conjI)
  show "elem_find l obj s = Some (obj \<in> set xs)" using assms(1) by (rule kl.member_iff)
  show "list_len l s = Some (of_nat (length xs))" using assms(1) by (rule klist_len)
  show "list_traversal l func s = Some (case find P xs of None \<Rightarrow> 0 | Some e \<Rightarrow> e, s)"
    using assms kl.empt_iff [OF assms(1)] traversal_loop_chain [of s "list_head l" xs "list_tail l" func P]
    by (auto simp: list_traversal_def klist_def)
qed

theorem list_walks_witness:
  "elem_find 0x100 0x300 (list_append 0x100 0x300 demo_mem) = Some True \<and>
   list_len 0x100 (list_append 0x100 0x300 demo_mem) = Some 1"
proof -
  have "klist (list_append 0x100 0x300 demo_mem) 0x100 [0x300]"
    using kl.app_holds [OF demo_lists(1), of "0x300"]
    by (simp add: foot_def list_head_def list_tail_def)
  then show ?thesis
    using list_walks [of "list_append 0x100 0x300 demo_mem" "0x100" "[0x300]" "\<lambda>e s. (False, s)" "\<lambda>_. False"]
    by simp
qed

end
