(* ===== verification/Paging.thy ===== *)
theory Paging
  imports Bitmap KList CString
begin

text \<open>
  The page allocator of the 32-bit kernel, the first half of \<^verbatim>\<open>mm/memory.c\<close>: the physical pools
  and virtual address pools, the page tables reached through the recursive mapping at
  0xffc00000, allocation and release of pages.

  Memory is a typed store: \<open>cell\<close> is the word at a virtual address (page directory and page
  table entries), the list nodes of \<open>KList\<close>, the three fields of \<^verbatim>\<open>struct arena\<close> and the two size
  fields of \<^verbatim>\<open>struct mem_block_desc\<close> are separate fields, indexed by the address of the object. A pool's \<open>plock\<close> is the number of times the
  running thread holds the pool's lock; waiting for another holder is the subject of \<open>Sync\<close>.
\<close>

section \<open>State\<close>

datatype pool_flags = PF_KERNEL | PF_USER

record pool =
  pool_bitmap :: bitmap
  phy_addr_start :: u32
  pool_size :: u32
  plock :: nat

record virtual_addr =
  vaddr_bitmap :: bitmap
  vaddr_start :: u32

text \<open>\<open>cur_pgdir\<close>, \<open>cur_vaddr\<close> and \<open>cur_descs\<close> are the fields \<^verbatim>\<open>pgdir\<close>, \<^verbatim>\<open>userprog_vaddr\<close> and
  (the address of) \<^verbatim>\<open>u_block_desc\<close> of the running thread.\<close>

record vm = kmem +
  cell :: "u32 \<Rightarrow> u32"
  ar_desc :: "u32 \<Rightarrow> u32"
  ar_cnt :: "u32 \<Rightarrow> u32"
  ar_large :: "u32 \<Rightarrow> bool"
  bd_size :: "u32 \<Rightarrow> u32"
  bd_per :: "u32 \<Rightarrow> u32"
  k_block_descs :: u32
  kernel_pool :: pool
  user_pool :: pool
  kernel_vaddr :: virtual_addr
  cur_pgdir :: u32
  cur_vaddr :: virtual_addr
  cur_descs :: u32

definition PG_SIZE :: nat where "PG_SIZE = 4096"

abbreviation PG_FLAGS :: u32 where "PG_FLAGS \<equiv> 7"

fun get_pool :: "pool_flags \<Rightarrow> vm \<Rightarrow> pool" where
  "get_pool PF_KERNEL s = kernel_pool s"
| "get_pool PF_USER s = user_pool s"

fun set_pool :: "pool_flags \<Rightarrow> pool \<Rightarrow> vm \<Rightarrow> vm" where
  "set_pool PF_KERNEL p s = s\<lparr>kernel_pool := p\<rparr>"
| "set_pool PF_USER p s = s\<lparr>user_pool := p\<rparr>"

fun get_vaddr :: "pool_flags \<Rightarrow> vm \<Rightarrow> virtual_addr" where
  "get_vaddr PF_KERNEL s = kernel_vaddr s"
| "get_vaddr PF_USER s = cur_vaddr s"

fun set_vaddr :: "pool_flags \<Rightarrow> virtual_addr \<Rightarrow> vm \<Rightarrow> vm" where
  "set_vaddr PF_KERNEL a s = s\<lparr>kernel_vaddr := a\<rparr>"
| "set_vaddr PF_USER a s = s\<lparr>cur_vaddr := a\<rparr>"

definition lock_acquire_pool :: "pool_flags \<Rightarrow> vm \<Rightarrow> vm" where
  "lock_acquire_pool pf s = set_pool pf ((get_pool pf s)\<lparr>plock := plock (get_pool pf s) + 1\<rparr>) s"

definition lock_release_pool :: "pool_flags \<Rightarrow> vm \<Rightarrow> vm result" where
  "lock_release_pool pf s =
     assertE (plock (get_pool pf s) > 0)
       (Inr (set_pool pf ((get_pool pf s)\<lparr>plock := plock (get_pool pf s) - 1\<rparr>) s))"

text \<open>\<^verbatim>\<open>memset(a, 0, n)\<close> on the typed store.\<close>

definition in_range :: "u32 \<Rightarrow> nat \<Rightarrow> u32 \<Rightarrow> bool" where
  "in_range a n x \<longleftrightarrow> unat (x - a) < n"

definition mem_zero :: "u32 \<Rightarrow> nat \<Rightarrow> vm \<Rightarrow> vm" where
  "mem_zero a n s =
     s\<lparr>cell := (\<lambda>x. if in_range a n x then 0 else cell s x),
       prev := (\<lambda>x. if in_range a n x then 0 else prev s x),
       nxt := (\<lambda>x. if in_range a n x then 0 else nxt s x),
       ar_desc := (\<lambda>x. if in_range a n x then 0 else ar_desc s x),
       ar_cnt := (\<lambda>x. if in_range a n x then 0 else ar_cnt s x),
       ar_large := (\<lambda>x. if in_range a n x then False else ar_large s x),
       bd_size := (\<lambda>x. if in_range a n x then 0 else bd_size s x),
       bd_per := (\<lambda>x. if in_range a n x then 0 else bd_per s x)\<rparr>"

section \<open>Virtual addresses\<close>

fun set_bits :: "nat \<Rightarrow> nat \<Rightarrow> int \<Rightarrow> bitmap \<Rightarrow> bitmap result" where
  "set_bits i 0 v bm = Inr bm"
| "set_bits i (Suc n) v bm = bindE (bitmap_set bm i v) (set_bits (i + 1) n v)"

definition vaddr_get :: "pool_flags \<Rightarrow> nat \<Rightarrow> vm \<Rightarrow> (u32 \<times> vm) result" where
  "vaddr_get pf pg_cnt s =
     (let va = get_vaddr pf s in
      bindE (bitmap_scan (vaddr_bitmap va) (of_nat pg_cnt)) (\<lambda>bit_idx_start.
        if bit_idx_start = -1 then Inr (0, s)
        else bindE (set_bits (nat bit_idx_start) pg_cnt 1 (vaddr_bitmap va)) (\<lambda>bm.
          let s = set_vaddr pf (va\<lparr>vaddr_bitmap := bm\<rparr>) s;
              start = vaddr_start va + word_of_int bit_idx_start * 4096
          in if pf = PF_KERNEL then Inr (start, s)
             else assertE (start < 0xc0000000 - 4096) (Inr (start, s)))))"

definition vaddr_remove :: "pool_flags \<Rightarrow> u32 \<Rightarrow> nat \<Rightarrow> vm \<Rightarrow> vm result" where
  "vaddr_remove pf vaddr pg_cnt s =
     (let va = get_vaddr pf s;
          bit_start_index = (vaddr - vaddr_start va) div 4096
      in bindE (set_bits (unat bit_start_index) pg_cnt 0 (vaddr_bitmap va)) (\<lambda>bm.
           Inr (set_vaddr pf (va\<lparr>vaddr_bitmap := bm\<rparr>) s)))"

section \<open>Page tables\<close>

definition PDE_IDX :: "u32 \<Rightarrow> u32" where
  "PDE_IDX addr = drop_bit 22 (addr AND 0xffc00000)"

definition PTE_IDX :: "u32 \<Rightarrow> u32" where
  "PTE_IDX addr = drop_bit 12 (addr AND 0x003ff000)"

definition pte_ptr :: "u32 \<Rightarrow> u32" where
  "pte_ptr vaddr = 0xffc00000 + drop_bit 10 (vaddr AND 0xffc00000) + PTE_IDX vaddr * 4"

definition pde_ptr :: "u32 \<Rightarrow> u32" where
  "pde_ptr vaddr = 0xfffff000 + PDE_IDX vaddr * 4"

definition palloc :: "pool_flags \<Rightarrow> vm \<Rightarrow> (u32 \<times> vm) result" where
  "palloc pf s =
     (let p = get_pool pf s in
      bindE (bitmap_scan (pool_bitmap p) 1) (\<lambda>bit_idx.
        if bit_idx = -1 then Inr (0, s)
        else bindE (bitmap_set (pool_bitmap p) (nat bit_idx) 1) (\<lambda>bm.
          Inr (word_of_int bit_idx * 4096 + phy_addr_start p, set_pool pf (p\<lparr>pool_bitmap := bm\<rparr>) s))))"

definition set_cell :: "u32 \<Rightarrow> u32 \<Rightarrow> vm \<Rightarrow> vm" where
  "set_cell a v s = s\<lparr>cell := (cell s)(a := v)\<rparr>"

text \<open>The \<^verbatim>\<open>else\<close> branch of the source that follows the assertion in the first case
  (\<^verbatim>\<open>PANIC("pte repeat")\<close>) is kept although the assertion makes it unreachable.\<close>

definition page_table_add :: "u32 \<Rightarrow> u32 \<Rightarrow> vm \<Rightarrow> vm result" where
  "page_table_add vaddr page_phyaddr s =
     (let pde = pde_ptr vaddr; pte = pte_ptr vaddr in
      if cell s pde AND 1 \<noteq> 0 then
        assertE (cell s pte AND 1 = 0)
          (if cell s pte AND 1 = 0 then Inr (set_cell pte (page_phyaddr OR PG_FLAGS) s) else Inl Panicked)
      else
        bindE (palloc PF_KERNEL s) (\<lambda>(pde_phyaddr, s).
          let s = set_cell pde (pde_phyaddr OR PG_FLAGS) s;
              s = mem_zero (pte AND 0xfffff000) PG_SIZE s
          in assertE (cell s pte AND 1 = 0) (Inr (set_cell pte (page_phyaddr OR PG_FLAGS) s))))"

fun map_pages :: "pool_flags \<Rightarrow> nat \<Rightarrow> u32 \<Rightarrow> vm \<Rightarrow> (bool \<times> vm) result" where
  "map_pages pf 0 vaddr s = Inr (True, s)"
| "map_pages pf (Suc cnt) vaddr s =
     bindE (palloc pf s) (\<lambda>(page_phyaddr, s).
       if page_phyaddr = 0 then Inr (False, s)
       else bindE (page_table_add vaddr page_phyaddr s) (map_pages pf cnt (vaddr + 4096)))"

text \<open>\<open>0\<close> is the null pointer.\<close>

definition malloc_page :: "pool_flags \<Rightarrow> nat \<Rightarrow> vm \<Rightarrow> (u32 \<times> vm) result" where
  "malloc_page pf pg_cnt s =
     assertE (pg_cnt > 0 \<and> pg_cnt < 3840)
       (bindE (vaddr_get pf pg_cnt s) (\<lambda>(vaddr_start, s).
          if vaddr_start = 0 then Inr (0, s)
          else bindE (map_pages pf pg_cnt vaddr_start s) (\<lambda>(ok, s).
            Inr (if ok then vaddr_start else 0, s))))"

definition get_kernel_pages :: "nat \<Rightarrow> vm \<Rightarrow> (u32 \<times> vm) result" where
  "get_kernel_pages pg_cnt s =
     bindE (malloc_page PF_KERNEL pg_cnt s) (\<lambda>(vaddr, s).
       Inr (vaddr, if vaddr \<noteq> 0 then mem_zero vaddr (pg_cnt * PG_SIZE) s else s))"

definition get_user_pages :: "nat \<Rightarrow> vm \<Rightarrow> (u32 \<times> vm) result" where
  "get_user_pages pg_cnt s =
     bindE (malloc_page PF_USER pg_cnt (lock_acquire_pool PF_USER s)) (\<lambda>(vaddr, s).
     bindE (lock_release_pool PF_USER (if vaddr \<noteq> 0 then mem_zero vaddr (pg_cnt * PG_SIZE) s else s)) (\<lambda>s.
       Inr (vaddr, s)))"

text \<open>The common tail of \<^verbatim>\<open>get_a_page\<close> and \<^verbatim>\<open>get_a_page_without_opvaddrbitmap\<close>, from \<^verbatim>\<open>palloc\<close> on.\<close>

definition map_one :: "pool_flags \<Rightarrow> u32 \<Rightarrow> vm \<Rightarrow> (u32 \<times> vm) result" where
  "map_one pf vaddr s =
     bindE (palloc pf s) (\<lambda>(page_phyaddr, s).
       if page_phyaddr = 0 then bindE (lock_release_pool pf s) (\<lambda>s. Inr (0, s))
       else bindE (page_table_add vaddr page_phyaddr s) (\<lambda>s.
            bindE (lock_release_pool pf s) (\<lambda>s. Inr (vaddr, s))))"

definition get_a_page :: "pool_flags \<Rightarrow> u32 \<Rightarrow> vm \<Rightarrow> (u32 \<times> vm) result" where
  "get_a_page pf vaddr s =
     (let s = lock_acquire_pool pf s in
      if (cur_pgdir s \<noteq> 0 \<and> pf = PF_USER) \<or> (cur_pgdir s = 0 \<and> pf = PF_KERNEL) then
        (let va = get_vaddr pf s;
             bit_idx = (vaddr - vaddr_start va) div 4096
         in assertE (sint bit_idx > 0)
              (bindE (bitmap_set (vaddr_bitmap va) (unat bit_idx) 1) (\<lambda>bm.
                 map_one pf vaddr (set_vaddr pf (va\<lparr>vaddr_bitmap := bm\<rparr>) s))))
      else Inl Panicked)"

definition get_a_page_without_opvaddrbitmap :: "pool_flags \<Rightarrow> u32 \<Rightarrow> vm \<Rightarrow> (u32 \<times> vm) result" where
  "get_a_page_without_opvaddrbitmap pf vaddr s = map_one pf vaddr (lock_acquire_pool pf s)"

definition addr_v2p :: "u32 \<Rightarrow> vm \<Rightarrow> u32" where
  "addr_v2p vaddr s = (cell s (pte_ptr vaddr) AND 0xfffff000) + (vaddr AND 0x00000fff)"

section \<open>Release\<close>

definition pfree :: "u32 \<Rightarrow> vm \<Rightarrow> vm result" where
  "pfree pg_phy_addr s =
     (let pf = (if pg_phy_addr \<ge> phy_addr_start (user_pool s) then PF_USER else PF_KERNEL);
          p = get_pool pf s;
          index = (pg_phy_addr - phy_addr_start p) div 4096
      in bindE (bitmap_set (pool_bitmap p) (unat index) 0) (\<lambda>bm.
           Inr (set_pool pf (p\<lparr>pool_bitmap := bm\<rparr>) s)))"

text \<open>\<^verbatim>\<open>*pte &= PG_P_0\<close> with \<^verbatim>\<open>PG_P_0\<close> equal to 0 clears the whole entry.\<close>

definition page_table_pte_remove :: "u32 \<Rightarrow> vm \<Rightarrow> vm" where
  "page_table_pte_remove vaddr s = set_cell (pte_ptr vaddr) (cell s (pte_ptr vaddr) AND 0) s"

text \<open>The loop of \<^verbatim>\<open>mfree_page\<close>; \<open>ok\<close> is the range check of the branch taken.\<close>

fun unmap_pages :: "(u32 \<Rightarrow> vm \<Rightarrow> bool) \<Rightarrow> nat \<Rightarrow> u32 \<Rightarrow> vm \<Rightarrow> vm result" where
  "unmap_pages ok 0 vaddr s = Inr s"
| "unmap_pages ok (Suc cnt) vaddr s =
     (let phy_addr = addr_v2p vaddr s in
      assertE (phy_addr mod 4096 = 0 \<and> ok phy_addr s)
        (bindE (pfree phy_addr s) (\<lambda>s.
           unmap_pages ok cnt (vaddr + 4096) (page_table_pte_remove vaddr s))))"

definition user_frame :: "u32 \<Rightarrow> vm \<Rightarrow> bool" where
  "user_frame phy s \<longleftrightarrow> phy \<ge> phy_addr_start (user_pool s)"

definition kernel_frame :: "u32 \<Rightarrow> vm \<Rightarrow> bool" where
  "kernel_frame phy s \<longleftrightarrow> phy \<ge> phy_addr_start (kernel_pool s) \<and> phy < phy_addr_start (user_pool s)"

definition mfree_page :: "pool_flags \<Rightarrow> u32 \<Rightarrow> nat \<Rightarrow> vm \<Rightarrow> vm result" where
  "mfree_page pf vaddr pg_cnt s =
     assertE (pg_cnt > 0 \<and> vaddr mod 4096 = 0)
       (let phy_addr = addr_v2p vaddr s in
        assertE (phy_addr mod 4096 = 0 \<and> phy_addr \<ge> 0x102000)
          (bindE (if phy_addr \<ge> phy_addr_start (user_pool s)
                  then unmap_pages user_frame pg_cnt vaddr s
                  else unmap_pages kernel_frame pg_cnt vaddr s)
             (vaddr_remove pf vaddr pg_cnt)))"

section \<open>Initialisation of the pools\<close>

text \<open>The two page counts are 16-bit variables. The bitmaps lie one after the other in the bytes
  \<open>area\<close> from \<^verbatim>\<open>MEM_BITMAP_BASE\<close> to the main thread's control block.\<close>

definition carve :: "u8 list \<Rightarrow> nat \<Rightarrow> nat \<Rightarrow> bitmap" where
  "carve area off len = \<lparr>btmp_bytes_len = of_nat len, bits = drop off area\<rparr>"

definition mem_pool_init :: "u8 list \<Rightarrow> u32 \<Rightarrow> vm \<Rightarrow> vm result" where
  "mem_pool_init area all_mem s =
     (let page_table_size = 4096 * 256;
          used_mem = page_table_size + 0x100000;
          free_mem = all_mem - used_mem;
          all_free_pages = (ucast (free_mem div 4096) :: u16);
          kernel_free_pages = all_free_pages div 2;
          user_free_pages = all_free_pages - kernel_free_pages;
          kbm_length = unat kernel_free_pages div 8;
          ubm_length = unat user_free_pages div 8;
          kp_start = used_mem;
          up_start = kp_start + ucast kernel_free_pages * 4096
      in bindE (bitmap_init (carve area 0 kbm_length)) (\<lambda>kb.
         bindE (bitmap_init (carve area kbm_length ubm_length)) (\<lambda>ub.
         bindE (bitmap_init (carve area (kbm_length + ubm_length) kbm_length)) (\<lambda>vb.
           Inr (s\<lparr>kernel_pool := \<lparr>pool_bitmap = kb, phy_addr_start = kp_start,
                    pool_size = ucast kernel_free_pages * 4096, plock = 0\<rparr>,
                  user_pool := \<lparr>pool_bitmap = ub, phy_addr_start = up_start,
                    pool_size = ucast user_free_pages * 4096, plock = 0\<rparr>,
                  kernel_vaddr := \<lparr>vaddr_bitmap = vb, vaddr_start = 0xc0100000\<rparr>\<rparr>)))))"

section \<open>Address arithmetic\<close>

lemma bit_u32_lt: "bit (v :: u32) n \<Longrightarrow> n < 32"
  using bit_imp_le_length [of v n] by simp

lemma high_mask: "(v :: u32) AND 0xffc00000 = push_bit 22 (drop_bit 22 v)"
proof -
  have lit: "(0xffc00000 :: u32) = push_bit 22 (mask 10)" by (simp add: mask_eq_exp_minus_1)
  show ?thesis unfolding lit by (auto intro!: bit_word_eqI simp: bit_simps)
qed

lemma mid_mask: "drop_bit 12 ((v :: u32) AND 0x003ff000) = take_bit 10 (drop_bit 12 v)"
proof -
  have lit: "(0x003ff000 :: u32) = push_bit 12 (mask 10)" by (simp add: mask_eq_exp_minus_1)
  show ?thesis unfolding lit by (auto intro!: bit_word_eqI simp: bit_simps)
qed

lemma page_mask: "(v :: u32) AND 0xfffff000 = push_bit 12 (drop_bit 12 v)"
proof -
  have lit: "(0xfffff000 :: u32) = push_bit 12 (mask 20)" by (simp add: mask_eq_exp_minus_1)
  show ?thesis unfolding lit by (auto intro!: bit_word_eqI simp: bit_simps)
qed

lemma offset_mask: "(v :: u32) AND 0x00000fff = take_bit 12 v"
proof -
  have "(0xfff :: u32) = mask 12" by (simp add: mask_eq_exp_minus_1)
  then show ?thesis by (simp add: take_bit_eq_mask)
qed

lemma unat_page: "unat ((v :: u32) AND 0xfffff000) = unat v div 4096 * 4096"
  using unat_lt [of v] unat_push [of "drop_bit 12 v" 12] by (simp add: page_mask unat_drop)

lemma unat_offset: "unat ((v :: u32) AND 0x00000fff) = unat v mod 4096"
  by (simp add: offset_mask unat_take)

lemma unat_pte_ptr: "unat (pte_ptr v) = 0xffc00000 + 4 * (unat v div 4096)"
proof -
  let ?V = "unat v"
  have V: "?V < 2 ^ 32" by (rule unat_lt)
  have "drop_bit 10 (push_bit 22 (drop_bit 22 v)) = push_bit 12 (drop_bit 22 v)"
    by (auto intro!: bit_word_eqI simp: bit_simps; drule bit_u32_lt; simp)
  then have hi: "unat (drop_bit 10 (v AND 0xffc00000)) = ?V div 2 ^ 22 * 4096"
    using V unat_push [of "drop_bit 22 v" 12] by (simp add: high_mask unat_drop)
  have lo: "unat (PTE_IDX v * 4) = ?V div 4096 mod 1024 * 4"
  proof -
    have "unat (PTE_IDX v) = ?V div 4096 mod 1024"
      unfolding PTE_IDX_def mid_mask by (simp add: unat_take unat_drop)
    moreover have "?V div 4096 mod 1024 < 1024" by simp
    ultimately show ?thesis using unat_mult_u32 [of "PTE_IDX v" 4] by simp
  qed
  have sum: "?V div 2 ^ 22 * 4096 + ?V div 4096 mod 1024 * 4 = 4 * (?V div 4096)"
  proof -
    have "?V div 2 ^ 22 = ?V div 4096 div 1024" by (simp add: div_mult2_eq [symmetric])
    then show ?thesis using div_mult_mod_eq [of "?V div 4096" 1024] by linarith
  qed
  have b: "?V div 4096 < 1048576" using V by simp
  have "unat (drop_bit 10 (v AND 0xffc00000) + PTE_IDX v * 4) = 4 * (?V div 4096)"
    using unat_add_u32 [of "drop_bit 10 (v AND 0xffc00000)" "PTE_IDX v * 4"] hi lo sum b by simp
  then have "unat (0xffc00000 + (drop_bit 10 (v AND 0xffc00000) + PTE_IDX v * 4)) =
      0xffc00000 + 4 * (?V div 4096)"
    using unat_add_u32 [of "0xffc00000" "drop_bit 10 (v AND 0xffc00000) + PTE_IDX v * 4"] b by simp
  then show ?thesis by (simp add: pte_ptr_def add.assoc)
qed

lemma unat_pde_ptr: "unat (pde_ptr v) = 0xfffff000 + 4 * (unat v div 2 ^ 22)"
proof -
  have V: "unat v div 2 ^ 22 < 1024" using unat_lt [of v] by simp
  have "drop_bit 22 (push_bit 22 (drop_bit 22 v)) = drop_bit 22 v"
    by (auto intro!: bit_word_eqI simp: bit_simps; drule bit_u32_lt; simp)
  then have "unat (PDE_IDX v) = unat v div 2 ^ 22" by (simp add: PDE_IDX_def high_mask unat_drop)
  then show ?thesis
    using V unat_mult_u32 [of "PDE_IDX v" 4] unat_add_u32 [of "0xfffff000" "PDE_IDX v * 4"]
    by (simp add: pde_ptr_def)
qed

text \<open>The recursive mapping is computed correctly: the entry of a virtual page is the word of that
  page number in the 4 MB window at 0xffc00000, two addresses have the same entry exactly when
  they lie in the same page, and the directory entry of an address is the table entry of its
  table entry, that is, the directory is reached by going through the mapping twice.\<close>

theorem page_table_window:
  "unat (pte_ptr v) = 0xffc00000 + 4 * (unat v div 4096) \<and>
   (pte_ptr v = pte_ptr w \<longleftrightarrow> unat v div 4096 = unat w div 4096) \<and>
   pde_ptr v = pte_ptr (pte_ptr v)"
proof (intro conjI)
  show "unat (pte_ptr v) = 0xffc00000 + 4 * (unat v div 4096)" by (rule unat_pte_ptr)
  show "pte_ptr v = pte_ptr w \<longleftrightarrow> unat v div 4096 = unat w div 4096"
    by (simp add: word_unat_eq_iff unat_pte_ptr)
  let ?q = "unat v div 4096"
  have "(1047552 * 4096 + 4 * ?q) div 4096 = 1047552 + 4 * ?q div 4096" by (rule div_mult_self3) simp
  moreover have "4 * ?q div 4096 = ?q div 1024" using div_mult_mult1 [of 4 ?q 1024] by simp
  moreover have "?q div 1024 = unat v div 2 ^ 22" by (simp add: div_mult2_eq [symmetric])
  ultimately have "unat (pde_ptr v) = unat (pte_ptr (pte_ptr v))"
    unfolding unat_pde_ptr unat_pte_ptr by simp
  then show "pde_ptr v = pte_ptr (pte_ptr v)" by (rule unsigned_word_eqI)
qed

section \<open>Runs of bits\<close>

lemma set_bits_ok:
  assumes "bm_wf bm" "i + n \<le> bm_cap bm" "v = 0 \<or> v = 1"
  shows "\<exists>bm'. set_bits i n v bm = Inr bm' \<and> bm_wf bm' \<and> bm_cap bm' = bm_cap bm \<and>
    bm_used bm' = (\<lambda>j. if i \<le> j \<and> j < i + n then v = 1 else bm_used bm j)"
  using assms
proof (induction n arbitrary: i bm)
  case 0
  then show ?case by auto
next
  case (Suc n)
  have "i < bm_cap bm" using Suc.prems by simp
  then obtain b1 where b1: "bitmap_set bm i v = Inr b1" "bm_wf b1" "bm_cap b1 = bm_cap bm"
    "bm_used b1 = (bm_used bm)(i := (v = 1))"
    using bm.put_bit [of bm i v] Suc.prems by auto
  then obtain b2 where "set_bits (i + 1) n v b1 = Inr b2" "bm_wf b2" "bm_cap b2 = bm_cap bm"
    "bm_used b2 = (\<lambda>j. if i + 1 \<le> j \<and> j < i + 1 + n then v = 1 else bm_used b1 j)"
    using Suc.IH [of b1 "i + 1"] Suc.prems by auto
  then show ?case using b1 by (intro exI [of _ b2]) (auto simp: fun_eq_iff)
qed

section \<open>Pools\<close>

definition frame_addr :: "pool_flags \<Rightarrow> vm \<Rightarrow> nat \<Rightarrow> u32" where
  "frame_addr pf s i = of_nat i * 4096 + phy_addr_start (get_pool pf s)"

definition pool_cap :: "pool_flags \<Rightarrow> vm \<Rightarrow> nat" where
  "pool_cap pf s = bm_cap (pool_bitmap (get_pool pf s))"

definition pool_used :: "pool_flags \<Rightarrow> vm \<Rightarrow> nat \<Rightarrow> bool" where
  "pool_used pf s = bm_used (pool_bitmap (get_pool pf s))"

text \<open>The pools are page aligned, above the low memory, disjoint, and inside the address space.\<close>

definition vm_ok :: "vm \<Rightarrow> bool" where
  "vm_ok s \<longleftrightarrow> (\<forall>pf. bm_wf (pool_bitmap (get_pool pf s)) \<and>
       unat (phy_addr_start (get_pool pf s)) mod 4096 = 0) \<and>
     0x102000 \<le> unat (phy_addr_start (kernel_pool s)) \<and>
     unat (phy_addr_start (kernel_pool s)) + 4096 * pool_cap PF_KERNEL s
       \<le> unat (phy_addr_start (user_pool s)) \<and>
     unat (phy_addr_start (user_pool s)) + 4096 * pool_cap PF_USER s \<le> 2 ^ 32"

definition with_bitmap :: "pool_flags \<Rightarrow> bitmap \<Rightarrow> vm \<Rightarrow> vm" where
  "with_bitmap pf bm s = set_pool pf ((get_pool pf s)\<lparr>pool_bitmap := bm\<rparr>) s"

lemma with_bitmap_simps [simp]:
  "get_pool pf (with_bitmap pf bm s) = (get_pool pf s)\<lparr>pool_bitmap := bm\<rparr>"
  "get_pool pf (s\<lparr>cell := c\<rparr>) = get_pool pf s"
  "get_vaddr pf (with_bitmap pf' bm s) = get_vaddr pf s"
  "get_vaddr pf (s\<lparr>cell := c\<rparr>) = get_vaddr pf s"
  "cell (with_bitmap pf bm s) = cell s"
  "phy_addr_start (get_pool pf' (with_bitmap pf bm s)) = phy_addr_start (get_pool pf' s)"
  "phy_addr_start (user_pool (with_bitmap pf bm s)) = phy_addr_start (user_pool s)"
  "phy_addr_start (kernel_pool (with_bitmap pf bm s)) = phy_addr_start (kernel_pool s)"
  "with_bitmap pf b2 ((with_bitmap pf b1 s)\<lparr>cell := c\<rparr>) = with_bitmap pf b2 (s\<lparr>cell := c\<rparr>)"
  "with_bitmap pf b2 (with_bitmap pf b1 s) = with_bitmap pf b2 s"
  "frame_addr pf' (with_bitmap pf bm s) = frame_addr pf' s"
  "frame_addr pf' (s\<lparr>cell := c\<rparr>) = frame_addr pf' s"
  by (cases pf; cases pf'; simp add: with_bitmap_def frame_addr_def fun_eq_iff)+

lemma cell_upd_comm [simp]: "(with_bitmap pf bm s)\<lparr>cell := c\<rparr> = with_bitmap pf bm (s\<lparr>cell := c\<rparr>)"
  by (cases pf) (simp_all add: with_bitmap_def)

lemma all_pf: "(\<forall>pf. P pf) \<longleftrightarrow> P PF_KERNEL \<and> P PF_USER"
  by (metis pool_flags.exhaust)

lemma vm_ok_upd:
  assumes "vm_ok s" "bm_wf bm" "bm_cap bm = pool_cap pf s"
  shows "vm_ok (with_bitmap pf bm s)" "vm_ok (with_bitmap pf bm (s\<lparr>cell := c\<rparr>))"
  using assms by (cases pf; simp add: vm_ok_def all_pf pool_cap_def with_bitmap_def)+

lemma frame_unat:
  assumes "vm_ok s" "f < pool_cap pf s"
  shows "unat (frame_addr pf s f) = unat (phy_addr_start (get_pool pf s)) + 4096 * f"
    and "unat (frame_addr pf s f) mod 4096 = 0" and "0x102000 \<le> unat (frame_addr pf s f)"
    and "frame_addr pf s f \<ge> phy_addr_start (user_pool s) \<longleftrightarrow> pf = PF_USER"
    and "frame_addr pf s f \<ge> phy_addr_start (get_pool pf s)"
proof -
  let ?st = "phy_addr_start (get_pool pf s)"
  have b: "unat ?st + 4096 * f < 2 ^ 32 \<and> 0x102000 \<le> unat ?st \<and> unat ?st mod 4096 = 0"
    using assms by (cases pf) (simp_all add: vm_ok_def all_pf)
  have "unat (of_nat f :: u32) = f" using b by (simp add: unat_of_nat)
  then have "unat (of_nat f * 4096 :: u32) = 4096 * f"
    using b unat_mult_u32 [of "of_nat f" 4096] by simp
  then show u: "unat (frame_addr pf s f) = unat ?st + 4096 * f"
    using b unat_add_u32 [of "of_nat f * 4096" ?st] by (simp add: frame_addr_def)
  show "unat (frame_addr pf s f) mod 4096 = 0" using b unfolding u by (simp add: mod_eq_0_iff_dvd)
  show "0x102000 \<le> unat (frame_addr pf s f)" using b unfolding u by simp
  show "frame_addr pf s f \<ge> phy_addr_start (user_pool s) \<longleftrightarrow> pf = PF_USER"
    using assms u by (cases pf) (auto simp: vm_ok_def word_le_nat_alt)
  show "frame_addr pf s f \<ge> ?st" using u by (simp add: word_le_nat_alt)
qed

lemma palloc_ok:
  assumes "vm_ok s" "\<exists>i<pool_cap pf s. \<not> pool_used pf s i"
  shows "\<exists>f bm. palloc pf s = Inr (frame_addr pf s f, with_bitmap pf bm s) \<and>
    f < pool_cap pf s \<and> \<not> pool_used pf s f \<and> (\<forall>i<f. pool_used pf s i) \<and>
    bm_wf bm \<and> bm_cap bm = pool_cap pf s \<and> bm_used bm = (pool_used pf s)(f := True)"
proof -
  let ?b = "pool_bitmap (get_pool pf s)"
  have "bm_wf ?b" using assms(1) by (auto simp: vm_ok_def)
  then obtain f bm where f: "f < bm_cap ?b" "\<not> bm_used ?b f" "\<forall>i<f. bm_used ?b i"
    "bitmap_scan ?b 1 = Inr (int f)" "bitmap_set ?b f 1 = Inr bm" "bm_wf bm" "bm_cap bm = bm_cap ?b"
    "bm_used bm = (bm_used ?b)(f := True)"
    using bm.alloc_one [of ?b] assms(2) by (auto simp: pool_cap_def pool_used_def)
  then have "palloc pf s = Inr (frame_addr pf s f, with_bitmap pf bm s)"
    by (simp add: palloc_def frame_addr_def with_bitmap_def Let_def)
  then show ?thesis using f by (auto simp: pool_cap_def pool_used_def)
qed

lemma pfree_ok:
  assumes "vm_ok s" "f < pool_cap pf s"
  shows "\<exists>bm. pfree (frame_addr pf s f) s = Inr (with_bitmap pf bm s) \<and>
    bm_wf bm \<and> bm_cap bm = pool_cap pf s \<and> bm_used bm = (pool_used pf s)(f := False)"
proof -
  let ?b = "pool_bitmap (get_pool pf s)" and ?a = "frame_addr pf s f"
  have pick: "(if ?a \<ge> phy_addr_start (user_pool s) then PF_USER else PF_KERNEL) = pf"
    using frame_unat(4) [OF assms] by (cases pf) auto
  have "unat (?a - phy_addr_start (get_pool pf s)) = 4096 * f"
    using frame_unat(1,5) [OF assms] by (simp add: unat_sub)
  then have idx: "unat ((?a - phy_addr_start (get_pool pf s)) div 4096) = f" by (simp add: unat_div)
  have "bm_wf ?b" "f < bm_cap ?b" using assms by (auto simp: vm_ok_def pool_cap_def)
  then obtain bm where bm: "bitmap_set ?b f 0 = Inr bm" "bm_wf bm" "bm_cap bm = bm_cap ?b"
    "bm_used bm = (bm_used ?b)(f := False)" using bm.put_bit [of ?b f 0] by auto
  then have "pfree ?a s = Inr (with_bitmap pf bm s)"
    by (simp add: pfree_def pick idx with_bitmap_def Let_def)
  then show ?thesis using bm by (auto simp: pool_cap_def pool_used_def)
qed

section \<open>Mapping and unmapping runs of pages\<close>

abbreviation page_of :: "u32 \<Rightarrow> nat \<Rightarrow> u32" where
  "page_of v k \<equiv> v + of_nat k * 4096"

fun write_ptes :: "u32 \<Rightarrow> u32 list \<Rightarrow> (u32 \<Rightarrow> u32) \<Rightarrow> u32 \<Rightarrow> u32" where
  "write_ptes v [] c = c"
| "write_ptes v (e # es) c = write_ptes (v + 4096) es (c(pte_ptr v := e))"

lemma page_of_Suc: "page_of (v + 4096) k = page_of v (Suc k)"
  by (simp add: distrib_right)

lemma unat_page_of:
  fixes v :: u32
  assumes "unat v + 4096 * n \<le> 2 ^ 32" "k < n"
  shows "unat (page_of v k) = unat v + 4096 * k"
proof -
  have "unat (of_nat k :: u32) = k" using assms by (simp add: unat_of_nat)
  then have "unat (of_nat k * 4096 :: u32) = 4096 * k"
    using assms unat_mult_u32 [of "of_nat k" 4096] by simp
  then show ?thesis using assms unat_add_u32 [of v "of_nat k * 4096"] by simp
qed

lemma pte_page_inj:
  assumes "unat v + 4096 * n \<le> 2 ^ 32" "j < n" "k < n"
  shows "pte_ptr (page_of v j) = pte_ptr (page_of v k) \<longleftrightarrow> j = k"
proof -
  have "unat (page_of v i) div 4096 = unat v div 4096 + i" if "i < n" for i
    using unat_page_of [OF assms(1) that] by simp
  then show ?thesis using assms by (simp add: word_unat_eq_iff unat_pte_ptr)
qed

lemma next_page_bound:
  "unat (v :: u32) + 4096 * Suc n \<le> 2 ^ 32 \<Longrightarrow> 0 < n \<Longrightarrow> unat (v + 4096) + 4096 * n \<le> 2 ^ 32"
  using unat_add_u32 [of v 4096] by simp

lemma write_ptes_other:
  "\<forall>k<length es. x \<noteq> pte_ptr (page_of v k) \<Longrightarrow> write_ptes v es c x = c x"
proof (induction es arbitrary: v c)
  case Nil
  then show ?case by simp
next
  case (Cons e es)
  have "x \<noteq> pte_ptr v" using Cons.prems by (auto dest: spec [of _ 0])
  moreover have "\<forall>k<length es. x \<noteq> pte_ptr (page_of (v + 4096) k)"
    unfolding page_of_Suc using Cons.prems by auto
  ultimately show ?case using Cons.IH [of "v + 4096"] by simp
qed

lemma write_ptes_nth:
  "unat v + 4096 * length es \<le> 2 ^ 32 \<Longrightarrow> k < length es \<Longrightarrow>
     write_ptes v es c (pte_ptr (page_of v k)) = es ! k"
proof (induction es arbitrary: v c k)
  case Nil
  then show ?case by simp
next
  case (Cons e es)
  note inj = pte_page_inj [OF Cons.prems(1)]
  show ?case
  proof (cases k)
    case 0
    have "\<forall>j<length es. pte_ptr (page_of v 0) \<noteq> pte_ptr (page_of (v + 4096) j)"
      unfolding page_of_Suc using inj [of 0 "Suc _"] by simp
    then have "write_ptes (v + 4096) es (c(pte_ptr v := e)) (pte_ptr (page_of v 0)) = e"
      by (subst write_ptes_other) auto
    then show ?thesis using 0 by simp
  next
    case (Suc j)
    then have "write_ptes (v + 4096) es (c(pte_ptr v := e)) (pte_ptr (page_of (v + 4096) j)) = es ! j"
      using Cons.prems next_page_bound [of v "length es"] by (intro Cons.IH) (cases es; auto)+
    then show ?thesis using Suc unfolding page_of_Suc by simp
  qed
qed

text \<open>Below the window the table entries never overlap the directory.\<close>

lemma pte_below_pde:
  assumes "unat w < 0xffc00000"
  shows "pte_ptr w \<noteq> pde_ptr x"
proof -
  have "unat w div 4096 < 0xffc00" using assms by (simp add: less_mult_imp_div_less)
  then have "unat (pte_ptr w) < 0xfffff000" unfolding unat_pte_ptr by simp
  then show ?thesis using unat_pde_ptr [of x] by (metis less_irrefl not_add_less1)
qed

lemma page_table_add_present:
  "cell s (pde_ptr v) AND 1 \<noteq> 0 \<Longrightarrow> cell s (pte_ptr v) AND 1 = 0 \<Longrightarrow>
     page_table_add v p s = Inr (s\<lparr>cell := (cell s)(pte_ptr v := p OR PG_FLAGS)\<rparr>)"
  by (simp add: page_table_add_def set_cell_def Let_def)

definition free_frames :: "pool_flags \<Rightarrow> vm \<Rightarrow> nat" where
  "free_frames pf s = card {i. i < pool_cap pf s \<and> \<not> pool_used pf s i}"

text \<open>The pages from \<open>v\<close> on have page tables and are not mapped.\<close>

definition unmapped :: "u32 \<Rightarrow> nat \<Rightarrow> vm \<Rightarrow> bool" where
  "unmapped v n s \<longleftrightarrow> unat v + 4096 * n \<le> 0xffc00000 \<and>
     (\<forall>k<n. cell s (pde_ptr (page_of v k)) AND 1 \<noteq> 0 \<and> cell s (pte_ptr (page_of v k)) AND 1 = 0)"

lemma unmapped_Suc:
  assumes "unmapped v (Suc n) s"
  shows "unmapped (v + 4096) n (with_bitmap pf bm (s\<lparr>cell := (cell s)(pte_ptr v := e)\<rparr>)) \<or> n = 0"
proof (cases "n = 0")
  case False
  have b: "unat v + 4096 * Suc n \<le> 2 ^ 32" using assms by (simp add: unmapped_def)
  have "unat (v + 4096) = unat v + 4096" using unat_page_of [OF b, of 1] False by simp
  moreover have "pte_ptr (page_of v (Suc k)) \<noteq> pte_ptr v" if "k < n" for k
    using pte_page_inj [OF b, of "Suc k" 0] that by simp
  moreover have "pde_ptr w \<noteq> pte_ptr v" for w
    using pte_below_pde [of v w] assms by (auto simp: unmapped_def)
  ultimately show ?thesis using assms by (auto simp: unmapped_def page_of_Suc)
qed simp

lemma free_frames_Suc:
  assumes "Suc n \<le> free_frames pf s"
  shows "\<exists>i<pool_cap pf s. \<not> pool_used pf s i"
proof -
  have "{i. i < pool_cap pf s \<and> \<not> pool_used pf s i} \<noteq> {}"
    using assms by (auto simp: free_frames_def simp del: Collect_empty_eq)
  then show ?thesis by blast
qed

lemma free_frames_alloc:
  assumes "f < pool_cap pf s" "\<not> pool_used pf s f" "bm_cap bm = pool_cap pf s"
    "bm_used bm = (pool_used pf s)(f := True)"
  shows "free_frames pf (with_bitmap pf bm (s\<lparr>cell := c\<rparr>)) = free_frames pf s - 1"
proof -
  have "{i. i < pool_cap pf s \<and> \<not> ((pool_used pf s)(f := True)) i} =
      {i. i < pool_cap pf s \<and> \<not> pool_used pf s i} - {f}" by auto
  then show ?thesis using assms by (simp add: free_frames_def pool_cap_def pool_used_def)
qed

lemma map_pages_ok:
  assumes "vm_ok s" "unmapped v n s" "n \<le> free_frames pf s"
  shows "\<exists>fs bm. map_pages pf n v s = Inr (True, with_bitmap pf bm
      (s\<lparr>cell := write_ptes v (map (\<lambda>f. frame_addr pf s f OR PG_FLAGS) fs) (cell s)\<rparr>)) \<and>
    length fs = n \<and> distinct fs \<and> (\<forall>f\<in>set fs. f < pool_cap pf s \<and> \<not> pool_used pf s f) \<and>
    bm_wf bm \<and> bm_cap bm = pool_cap pf s \<and> bm_used bm = (\<lambda>i. pool_used pf s i \<or> i \<in> set fs)"
  using assms
proof (induction n arbitrary: v s)
  case 0
  have "with_bitmap pf (pool_bitmap (get_pool pf s)) s = s"
    by (cases pf) (simp_all add: with_bitmap_def)
  then show ?case
    using 0 by (auto simp: vm_ok_def pool_cap_def pool_used_def
        intro!: exI [of _ "pool_bitmap (get_pool pf s)"])
next
  case (Suc n)
  obtain f b1 where pa: "palloc pf s = Inr (frame_addr pf s f, with_bitmap pf b1 s)"
    and f: "f < pool_cap pf s" "\<not> pool_used pf s f"
    and b1: "bm_wf b1" "bm_cap b1 = pool_cap pf s" "bm_used b1 = (pool_used pf s)(f := True)"
    using palloc_ok [OF Suc.prems(1) free_frames_Suc [OF Suc.prems(3)]] by blast
  let ?c = "(cell s)(pte_ptr v := frame_addr pf s f OR PG_FLAGS)"
  let ?s = "with_bitmap pf b1 (s\<lparr>cell := ?c\<rparr>)"
  have nz: "frame_addr pf s f \<noteq> 0" using frame_unat(3) [OF Suc.prems(1) f(1)] by auto
  have "cell s (pde_ptr (page_of v 0)) AND 1 \<noteq> 0" "cell s (pte_ptr (page_of v 0)) AND 1 = 0"
    using Suc.prems(2) unfolding unmapped_def by blast+
  then have "page_table_add v (frame_addr pf s f) (with_bitmap pf b1 s) = Inr ?s"
    by (simp add: page_table_add_present)
  then have step: "map_pages pf (Suc n) v s = map_pages pf n (v + 4096) ?s" using pa nz by simp
  have ok: "vm_ok ?s" using vm_ok_upd(2) [OF Suc.prems(1) b1(1,2)] by simp
  have cap: "pool_cap pf ?s = pool_cap pf s" "pool_used pf ?s = (pool_used pf s)(f := True)"
    using b1 by (simp_all add: pool_cap_def pool_used_def)
  show ?case
  proof (cases "n = 0")
    case True
    then show ?thesis using step f b1 by (auto intro!: exI [of _ "[f]"] exI [of _ b1])
  next
    case False
    have "unmapped (v + 4096) n ?s" using unmapped_Suc [OF Suc.prems(2), of pf b1] False by blast
    moreover have "n \<le> free_frames pf ?s"
      using free_frames_alloc [OF f b1(2,3)] Suc.prems(3) by simp
    ultimately obtain fs bm where "map_pages pf n (v + 4096) ?s = Inr (True, with_bitmap pf bm
        (?s\<lparr>cell := write_ptes (v + 4096) (map (\<lambda>f. frame_addr pf ?s f OR PG_FLAGS) fs) (cell ?s)\<rparr>))"
      "length fs = n" "distinct fs" "\<forall>i\<in>set fs. i < pool_cap pf s \<and> \<not> ((pool_used pf s)(f := True)) i"
      "bm_wf bm" "bm_cap bm = pool_cap pf s" "bm_used bm = (\<lambda>i. ((pool_used pf s)(f := True)) i \<or> i \<in> set fs)"
      using Suc.IH [OF ok] unfolding cap by blast
    then show ?thesis
      using step f by (intro exI [of _ "f # fs"] exI [of _ bm]) (auto split: if_splits)
  qed
qed

lemma frame_flags:
  assumes "unat (a :: u32) mod 4096 = 0"
  shows "(a OR PG_FLAGS) AND 0xfffff000 = a"
proof -
  have "(7 :: u32) AND 0xfffff000 = 0" by simp
  moreover have "a AND 0xfffff000 = a"
    using assms unat_page [of a] by (auto simp: word_unat_eq_iff mod_eq_0_iff_dvd)
  ultimately show ?thesis by (simp add: bit.conj_disj_distrib2)
qed

lemma v2p_mapped:
  assumes "vm_ok s" "f < pool_cap pf s" "unat v mod 4096 = 0"
    "cell s (pte_ptr v) = frame_addr pf s f OR PG_FLAGS"
  shows "addr_v2p v s = frame_addr pf s f"
proof -
  have "v AND 0xfff = 0" using unat_offset [of v] assms(3) by (simp add: word_unat_eq_iff)
  then show ?thesis
    using frame_flags [OF frame_unat(2) [OF assms(1,2)]] assms(4) by (simp add: addr_v2p_def)
qed

lemma mod_word_0: "(a :: u32) mod 4096 = 0 \<longleftrightarrow> unat a mod 4096 = 0"
  by (simp add: word_unat_eq_iff unat_mod)

fun frame_ok :: "pool_flags \<Rightarrow> u32 \<Rightarrow> vm \<Rightarrow> bool" where
  "frame_ok PF_USER = user_frame"
| "frame_ok PF_KERNEL = kernel_frame"

lemma frame_ok_addr: "vm_ok s \<Longrightarrow> f < pool_cap pf s \<Longrightarrow> frame_ok pf (frame_addr pf s f) s"
  using frame_unat(4,5) [of s f pf] by (cases pf) (auto simp: user_frame_def kernel_frame_def)

lemma unmap_pages_ok:
  assumes "vm_ok s" "unat v mod 4096 = 0" "unat v + 4096 * length fs \<le> 2 ^ 32" "distinct fs"
    "\<forall>f\<in>set fs. f < pool_cap pf s"
    "\<forall>k<length fs. cell s (pte_ptr (page_of v k)) = frame_addr pf s (fs ! k) OR PG_FLAGS"
  shows "\<exists>bm. unmap_pages (frame_ok pf) (length fs) v s = Inr (with_bitmap pf bm
      (s\<lparr>cell := write_ptes v (replicate (length fs) 0) (cell s)\<rparr>)) \<and>
    bm_wf bm \<and> bm_cap bm = pool_cap pf s \<and> bm_used bm = (\<lambda>i. pool_used pf s i \<and> i \<notin> set fs)"
  using assms
proof (induction fs arbitrary: v s)
  case Nil
  have "with_bitmap pf (pool_bitmap (get_pool pf s)) s = s"
    by (cases pf) (simp_all add: with_bitmap_def)
  then show ?case
    using Nil by (auto simp: vm_ok_def pool_cap_def pool_used_def
        intro!: exI [of _ "pool_bitmap (get_pool pf s)"])
next
  case (Cons f fs)
  have f: "f < pool_cap pf s" using Cons.prems(5) by simp
  have pte: "cell s (pte_ptr v) = frame_addr pf s f OR PG_FLAGS"
    using Cons.prems(6) [rule_format, of 0] by simp
  note v2p = v2p_mapped [OF Cons.prems(1) f Cons.prems(2) pte]
  obtain b1 where free: "pfree (frame_addr pf s f) s = Inr (with_bitmap pf b1 s)"
    and b1: "bm_wf b1" "bm_cap b1 = pool_cap pf s" "bm_used b1 = (pool_used pf s)(f := False)"
    using pfree_ok [OF Cons.prems(1) f] by blast
  let ?s = "with_bitmap pf b1 (s\<lparr>cell := (cell s)(pte_ptr v := 0)\<rparr>)"
  have "frame_addr pf s f mod 4096 = 0" "frame_ok pf (frame_addr pf s f) s"
    using frame_unat(2) [OF Cons.prems(1) f] frame_ok_addr [OF Cons.prems(1) f] by (simp_all add: mod_word_0)
  then have step: "unmap_pages (frame_ok pf) (length (f # fs)) v s =
      unmap_pages (frame_ok pf) (length fs) (v + 4096) ?s"
    by (simp add: v2p free page_table_pte_remove_def set_cell_def)
  show ?case
  proof (cases "fs = []")
    case True
    then show ?thesis using step b1 by (intro exI [of _ b1]) (auto simp: fun_upd_def)
  next
    case False
    have ok: "vm_ok ?s" using vm_ok_upd(2) [OF Cons.prems(1) b1(1,2)] by simp
    have cap: "pool_cap pf ?s = pool_cap pf s" "pool_used pf ?s = (pool_used pf s)(f := False)"
      using b1 by (simp_all add: pool_cap_def pool_used_def)
    have u: "unat (v + 4096) = unat v + 4096"
      using unat_page_of [OF Cons.prems(3), of 1] False by simp
    have "\<exists>bm. unmap_pages (frame_ok pf) (length fs) (v + 4096) ?s = Inr (with_bitmap pf bm
        (?s\<lparr>cell := write_ptes (v + 4096) (replicate (length fs) 0) (cell ?s)\<rparr>)) \<and>
      bm_wf bm \<and> bm_cap bm = pool_cap pf ?s \<and> bm_used bm = (\<lambda>i. pool_used pf ?s i \<and> i \<notin> set fs)"
    proof (rule Cons.IH [OF ok])
      show "unat (v + 4096) mod 4096 = 0" using Cons.prems(2) u by simp
      show "unat (v + 4096) + 4096 * length fs \<le> 2 ^ 32" using Cons.prems(3) u by simp
      show "distinct fs" using Cons.prems(4) by simp
      show "\<forall>f\<in>set fs. f < pool_cap pf ?s" using Cons.prems(5) cap by simp
      show "\<forall>k<length fs. cell ?s (pte_ptr (page_of (v + 4096) k)) = frame_addr pf ?s (fs ! k) OR PG_FLAGS"
        unfolding page_of_Suc
        using Cons.prems(6) pte_page_inj [OF Cons.prems(3), of "Suc _" 0] by (auto dest: spec [of _ "Suc _"])
    qed
    then obtain bm where "unmap_pages (frame_ok pf) (length fs) (v + 4096) ?s = Inr (with_bitmap pf bm
        (?s\<lparr>cell := write_ptes (v + 4096) (replicate (length fs) 0) (cell ?s)\<rparr>))" "bm_wf bm"
      "bm_cap bm = pool_cap pf s" "bm_used bm = (\<lambda>i. ((pool_used pf s)(f := False)) i \<and> i \<notin> set fs)"
      unfolding cap by blast
    then show ?thesis using step by (intro exI [of _ bm]) (auto simp: fun_eq_iff)
  qed
qed

section \<open>Properties of the page allocator\<close>

lemma vaddr_get_ok:
  assumes va: "va = get_vaddr pf s" and wf: "bm_wf (vaddr_bitmap va)"
    and scan: "bitmap_scan (vaddr_bitmap va) (of_nat n) = Inr (int i)" and fit: "i + n \<le> bm_cap (vaddr_bitmap va)"
    and below: "pf = PF_KERNEL \<or> page_of (vaddr_start va) i < 0xbffff000"
  shows "\<exists>bm. vaddr_get pf n s =
      Inr (page_of (vaddr_start va) i, set_vaddr pf (va\<lparr>vaddr_bitmap := bm\<rparr>) s) \<and>
    bm_wf bm \<and> bm_cap bm = bm_cap (vaddr_bitmap va) \<and>
    bm_used bm = (\<lambda>j. (i \<le> j \<and> j < i + n) \<or> bm_used (vaddr_bitmap va) j)"
proof -
  obtain bm where bm: "set_bits i n 1 (vaddr_bitmap va) = Inr bm" "bm_wf bm"
    "bm_cap bm = bm_cap (vaddr_bitmap va)"
    "bm_used bm = (\<lambda>j. if i \<le> j \<and> j < i + n then True else bm_used (vaddr_bitmap va) j)"
    using set_bits_ok [OF wf fit, of 1] by auto
  have "vaddr_get pf n s = Inr (page_of (vaddr_start va) i, set_vaddr pf (va\<lparr>vaddr_bitmap := bm\<rparr>) s)"
    using scan bm(1) below unfolding va vaddr_get_def Let_def by (cases pf) auto
  then show ?thesis using bm by (intro exI [of _ bm]) (auto simp: fun_eq_iff)
qed

lemma set_vaddr_simps [simp]:
  "get_pool pf' (set_vaddr pf va s) = get_pool pf' s" "cell (set_vaddr pf va s) = cell s"
  "kernel_pool (set_vaddr pf va s) = kernel_pool s" "user_pool (set_vaddr pf va s) = user_pool s"
  "get_vaddr pf (set_vaddr pf va s) = va"
  "pool_cap pf' (set_vaddr pf va s) = pool_cap pf' s"
  "pool_used pf' (set_vaddr pf va s) = pool_used pf' s"
  "frame_addr pf' (set_vaddr pf va s) = frame_addr pf' s"
  by (cases pf; cases pf'; simp add: pool_cap_def pool_used_def frame_addr_def fun_eq_iff)+

lemma vaddr_remove_ok:
  assumes va: "va = get_vaddr pf s" and wf: "bm_wf (vaddr_bitmap va)"
    and fit: "i + n \<le> bm_cap (vaddr_bitmap va)" and n: "0 < n"
    and space: "unat (vaddr_start va) + 4096 * bm_cap (vaddr_bitmap va) \<le> 2 ^ 32"
  shows "\<exists>bm. vaddr_remove pf (page_of (vaddr_start va) i) n s =
      Inr (set_vaddr pf (va\<lparr>vaddr_bitmap := bm\<rparr>) s) \<and>
    bm_used bm = (\<lambda>j. \<not> (i \<le> j \<and> j < i + n) \<and> bm_used (vaddr_bitmap va) j)"
proof -
  have "unat (page_of (vaddr_start va) i) = unat (vaddr_start va) + 4096 * i"
    using unat_page_of [OF space, of i] fit n by simp
  moreover have "vaddr_start va \<le> page_of (vaddr_start va) i" by (simp add: word_le_nat_alt calculation)
  ultimately have "unat (page_of (vaddr_start va) i - vaddr_start va) = 4096 * i"
    using unat_sub [of "vaddr_start va" "page_of (vaddr_start va) i"] by simp
  then have "unat ((page_of (vaddr_start va) i - vaddr_start va) div 4096) = i"
    by (simp only: unat_div) simp
  moreover obtain bm where "set_bits i n 0 (vaddr_bitmap va) = Inr bm"
    "bm_used bm = (\<lambda>j. if i \<le> j \<and> j < i + n then False else bm_used (vaddr_bitmap va) j)"
    using set_bits_ok [OF wf fit, of 0] by auto
  ultimately show ?thesis
    by (intro exI [of _ bm]) (auto simp: vaddr_remove_def va [symmetric] Let_def fun_eq_iff)
qed

text \<open>What \<^verbatim>\<open>malloc_page\<close> needs to succeed: a run of free pages at \<open>i\<close>, which the scan finds, page
  tables for it, and enough frames.\<close>

definition room :: "pool_flags \<Rightarrow> nat \<Rightarrow> nat \<Rightarrow> vm \<Rightarrow> bool" where
  "room pf n i s \<longleftrightarrow> (let va = get_vaddr pf s in
     vm_ok s \<and> 0 < n \<and> n < 3840 \<and> bm_wf (vaddr_bitmap va) \<and>
     bitmap_scan (vaddr_bitmap va) (of_nat n) = Inr (int i) \<and> i + n \<le> bm_cap (vaddr_bitmap va) \<and>
     (\<forall>j. i \<le> j \<and> j < i + n \<longrightarrow> \<not> bm_used (vaddr_bitmap va) j) \<and>
     unat (vaddr_start va) mod 4096 = 0 \<and> vaddr_start va \<noteq> 0 \<and>
     unat (vaddr_start va) + 4096 * bm_cap (vaddr_bitmap va) \<le> 2 ^ 32 \<and>
     (pf = PF_KERNEL \<or> page_of (vaddr_start va) i < 0xbffff000) \<and>
     unmapped (page_of (vaddr_start va) i) n s \<and> n \<le> free_frames pf s)"

text \<open>A run of pages as \<^verbatim>\<open>malloc_page\<close> leaves it: mapped to the frames \<open>fs\<close>, its address bits set.\<close>

definition held :: "pool_flags \<Rightarrow> nat \<Rightarrow> nat list \<Rightarrow> vm \<Rightarrow> bool" where
  "held pf i fs s \<longleftrightarrow> (let va = get_vaddr pf s; v = page_of (vaddr_start va) i in
     vm_ok s \<and> fs \<noteq> [] \<and> bm_wf (vaddr_bitmap va) \<and> i + length fs \<le> bm_cap (vaddr_bitmap va) \<and>
     unat (vaddr_start va) + 4096 * bm_cap (vaddr_bitmap va) \<le> 2 ^ 32 \<and>
     unat v mod 4096 = 0 \<and> unat v + 4096 * length fs \<le> 2 ^ 32 \<and> distinct fs \<and>
     (\<forall>f\<in>set fs. f < pool_cap pf s) \<and>
     (\<forall>k<length fs. cell s (pte_ptr (page_of v k)) = frame_addr pf s (fs ! k) OR PG_FLAGS))"

lemma malloc_page_ok:
  assumes "room pf n i s"
  shows "\<exists>fs s1. malloc_page pf n s = Inr (page_of (vaddr_start (get_vaddr pf s)) i, s1) \<and>
    length fs = n \<and> (\<forall>f\<in>set fs. f < pool_cap pf s \<and> \<not> pool_used pf s f) \<and> held pf i fs s1 \<and>
    pool_used pf s1 = (\<lambda>f. pool_used pf s f \<or> f \<in> set fs) \<and>
    vaddr_start (get_vaddr pf s1) = vaddr_start (get_vaddr pf s) \<and>
    bm_used (vaddr_bitmap (get_vaddr pf s1)) =
      (\<lambda>j. (i \<le> j \<and> j < i + n) \<or> bm_used (vaddr_bitmap (get_vaddr pf s)) j) \<and>
    frame_addr pf s1 = frame_addr pf s \<and> (\<exists>b va c. s1 = with_bitmap pf b (set_vaddr pf va s\<lparr>cell := c\<rparr>))"
proof -
  define va v where "va = get_vaddr pf s" and "v = page_of (vaddr_start va) i"
  note r = assms [unfolded room_def Let_def, folded va_def, folded v_def]
  obtain bm where vg: "vaddr_get pf n s = Inr (v, set_vaddr pf (va\<lparr>vaddr_bitmap := bm\<rparr>) s)"
    and bm: "bm_wf bm" "bm_cap bm = bm_cap (vaddr_bitmap va)"
      "bm_used bm = (\<lambda>j. (i \<le> j \<and> j < i + n) \<or> bm_used (vaddr_bitmap va) j)"
    using vaddr_get_ok [OF va_def, of n i] r unfolding v_def by blast
  let ?s = "set_vaddr pf (va\<lparr>vaddr_bitmap := bm\<rparr>) s"
  have ok: "vm_ok ?s" "unmapped v n ?s" "n \<le> free_frames pf ?s"
    using r by (simp_all add: vm_ok_def unmapped_def free_frames_def)
  obtain fs b1 where mp: "map_pages pf n v ?s = Inr (True, with_bitmap pf b1
      (?s\<lparr>cell := write_ptes v (map (\<lambda>f. frame_addr pf s f OR PG_FLAGS) fs) (cell s)\<rparr>))"
    and fs: "length fs = n" "distinct fs" "\<forall>f\<in>set fs. f < pool_cap pf s \<and> \<not> pool_used pf s f"
    and b1: "bm_wf b1" "bm_cap b1 = pool_cap pf s" "bm_used b1 = (\<lambda>i. pool_used pf s i \<or> i \<in> set fs)"
    using map_pages_ok [OF ok] by auto
  let ?c = "write_ptes v (map (\<lambda>f. frame_addr pf s f OR PG_FLAGS) fs) (cell s)"
  let ?s1 = "with_bitmap pf b1 (?s\<lparr>cell := ?c\<rparr>)"
  have vu: "unat v = unat (vaddr_start va) + 4096 * i"
    using unat_page_of [of "vaddr_start va" "bm_cap (vaddr_bitmap va)" i] r by (simp add: v_def)
  have "v \<noteq> 0" using vu r by (auto simp: word_unat_eq_iff)
  then have "malloc_page pf n s = Inr (v, ?s1)" using r vg mp by (simp add: malloc_page_def)
  moreover have space: "unat v + 4096 * n \<le> 2 ^ 32" using r by (simp add: unmapped_def)
  have "cell ?s1 (pte_ptr (page_of v k)) = frame_addr pf ?s1 (fs ! k) OR PG_FLAGS" if "k < n" for k
    using write_ptes_nth [of v "map (\<lambda>f. frame_addr pf s f OR PG_FLAGS) fs" k] that fs(1) space by simp
  moreover have "vm_ok ?s1" "pool_cap pf ?s1 = pool_cap pf s"
    using vm_ok_upd(2) [OF ok(1), of b1 pf ?c] b1 by (simp_all add: pool_cap_def)
  ultimately have "held pf i fs ?s1"
    using r vu fs bm space by (auto simp: held_def Let_def v_def)
  with \<open>malloc_page pf n s = Inr (v, ?s1)\<close> show ?thesis
    using fs bm(3) b1 by (intro exI [of _ fs] exI [of _ ?s1]) (auto simp: v_def va_def pool_used_def)
qed

lemma held_v2p:
  assumes "held pf i fs s" "k < length fs"
  shows "addr_v2p (page_of (page_of (vaddr_start (get_vaddr pf s)) i) k) s = frame_addr pf s (fs ! k)"
proof -
  let ?v = "page_of (vaddr_start (get_vaddr pf s)) i"
  note h = assms(1) [unfolded held_def Let_def]
  have "unat (page_of ?v k) = unat ?v + 4096 * k" using unat_page_of [of ?v "length fs" k] h assms(2) by simp
  then have "unat (page_of ?v k) mod 4096 = 0" using h by simp
  then show ?thesis using v2p_mapped [of s "fs ! k" pf "page_of ?v k"] h assms(2) by simp
qed

lemma mfree_page_ok:
  assumes "held pf i fs s"
  defines "v \<equiv> page_of (vaddr_start (get_vaddr pf s)) i"
  shows "\<exists>s2. mfree_page pf v (length fs) s = Inr s2 \<and>
    pool_used pf s2 = (\<lambda>f. pool_used pf s f \<and> f \<notin> set fs) \<and>
    bm_used (vaddr_bitmap (get_vaddr pf s2)) =
      (\<lambda>j. \<not> (i \<le> j \<and> j < i + length fs) \<and> bm_used (vaddr_bitmap (get_vaddr pf s)) j) \<and>
    (\<forall>k<length fs. cell s2 (pte_ptr (page_of v k)) = 0) \<and>
    (\<exists>b va c. s2 = set_vaddr pf va (with_bitmap pf b (s\<lparr>cell := c\<rparr>)))"
proof -
  let ?n = "length fs" and ?va = "get_vaddr pf s"
  note h = assms(1) [unfolded held_def Let_def, folded v_def]
  obtain b2 where un: "unmap_pages (frame_ok pf) ?n v s = Inr (with_bitmap pf b2
      (s\<lparr>cell := write_ptes v (replicate ?n 0) (cell s)\<rparr>))"
    and b2: "bm_used b2 = (\<lambda>i. pool_used pf s i \<and> i \<notin> set fs)"
    using unmap_pages_ok [of s v fs pf] h by auto
  let ?s2 = "with_bitmap pf b2 (s\<lparr>cell := write_ptes v (replicate ?n 0) (cell s)\<rparr>)"
  have head: "addr_v2p v s = frame_addr pf s (fs ! 0)" "fs ! 0 < pool_cap pf s" "vm_ok s"
    using held_v2p [OF assms(1), of 0] h by (simp_all add: v_def)
  have sel: "(if addr_v2p v s \<ge> phy_addr_start (user_pool s)
      then unmap_pages user_frame ?n v s else unmap_pages kernel_frame ?n v s) = Inr ?s2"
    using frame_unat(4) [OF head(3,2)] un head(1) by (cases pf) simp_all
  obtain b3 where rm: "vaddr_remove pf v ?n ?s2 = Inr (set_vaddr pf (?va\<lparr>vaddr_bitmap := b3\<rparr>) ?s2)"
    and b3: "bm_used b3 = (\<lambda>j. \<not> (i \<le> j \<and> j < i + ?n) \<and> bm_used (vaddr_bitmap ?va) j)"
    using vaddr_remove_ok [OF refl, of pf ?s2 i ?n] h by (auto simp: v_def)
  have "mfree_page pf v ?n s = Inr (set_vaddr pf (?va\<lparr>vaddr_bitmap := b3\<rparr>) ?s2)"
    using h frame_unat(2,3) [OF head(3,2)] sel rm head(1)
    by (simp add: mfree_page_def mod_word_0 word_le_nat_alt Let_def)
  moreover have "cell ?s2 (pte_ptr (page_of v k)) = 0" if "k < ?n" for k
    using write_ptes_nth [of v "replicate ?n 0" k] that h by simp
  ultimately show ?thesis using b2 b3 by (auto simp: pool_used_def)
qed

text \<open>C4: Allocating and freeing pages. If the address pool has a run of \<open>n\<close> free pages at \<open>i\<close>, the
  frames pool has \<open>n\<close> free frames and the pages have page tables, \<^verbatim>\<open>malloc_page\<close> returns the
  address of the run with every page translated by \<^verbatim>\<open>addr_v2p\<close> to a frame of the right pool
  that was free, different pages to different frames. \<^verbatim>\<open>mfree_page\<close> of that result then returns,
  passes all its range checks, puts both bitmaps back to what they were and clears the page
  table entries.\<close>

theorem malloc_mfree_roundtrip:
  assumes "room pf n i s"
  shows "\<exists>v s1 fs s2. malloc_page pf n s = Inr (v, s1) \<and> v = page_of (vaddr_start (get_vaddr pf s)) i \<and>
    length fs = n \<and> distinct fs \<and>
    (\<forall>k<n. fs ! k < pool_cap pf s \<and> \<not> pool_used pf s (fs ! k) \<and> pool_used pf s1 (fs ! k) \<and>
           addr_v2p (page_of v k) s1 = frame_addr pf s (fs ! k)) \<and>
    mfree_page pf v n s1 = Inr s2 \<and> pool_used pf s2 = pool_used pf s \<and>
    bm_used (vaddr_bitmap (get_vaddr pf s2)) = bm_used (vaddr_bitmap (get_vaddr pf s)) \<and>
    (\<forall>k<n. cell s2 (pte_ptr (page_of v k)) = 0)"
proof -
  let ?v = "page_of (vaddr_start (get_vaddr pf s)) i"
  obtain fs s1 where m: "malloc_page pf n s = Inr (?v, s1)" "length fs = n"
      "\<forall>f\<in>set fs. f < pool_cap pf s \<and> \<not> pool_used pf s f" "held pf i fs s1"
      "pool_used pf s1 = (\<lambda>f. pool_used pf s f \<or> f \<in> set fs)"
      "vaddr_start (get_vaddr pf s1) = vaddr_start (get_vaddr pf s)"
      "bm_used (vaddr_bitmap (get_vaddr pf s1)) =
        (\<lambda>j. (i \<le> j \<and> j < i + n) \<or> bm_used (vaddr_bitmap (get_vaddr pf s)) j)"
      "frame_addr pf s1 = frame_addr pf s"
    using malloc_page_ok [OF assms] by (elim exE conjE) (rule that)
  then obtain s2 where f: "mfree_page pf ?v n s1 = Inr s2"
      "pool_used pf s2 = (\<lambda>f. pool_used pf s1 f \<and> f \<notin> set fs)"
      "bm_used (vaddr_bitmap (get_vaddr pf s2)) =
        (\<lambda>j. \<not> (i \<le> j \<and> j < i + n) \<and> bm_used (vaddr_bitmap (get_vaddr pf s1)) j)"
      "\<forall>k<n. cell s2 (pte_ptr (page_of ?v k)) = 0"
    using mfree_page_ok [of pf i fs s1] by auto
  have "pool_used pf s2 = pool_used pf s" using f(2) m(3,5) by (auto simp: fun_eq_iff)
  moreover have "bm_used (vaddr_bitmap (get_vaddr pf s2)) = bm_used (vaddr_bitmap (get_vaddr pf s))"
    using f(3) m(7) assms by (auto simp: room_def Let_def fun_eq_iff)
  moreover have "distinct fs" using m(4) by (simp add: held_def Let_def)
  ultimately show ?thesis
    using m f held_v2p [OF m(4)]
    by (intro exI [of _ ?v] exI [of _ s1] exI [of _ fs] exI [of _ s2]) auto
qed

definition demo_vm :: vm where
  "demo_vm = \<lparr>eflags = 0, prev = (\<lambda>a. 0), nxt = (\<lambda>a. 0),
     cell = (\<lambda>a. if unat a \<ge> 0xfffff000 then 7 else 0), ar_desc = (\<lambda>a. 0), ar_cnt = (\<lambda>a. 0),
     ar_large = (\<lambda>a. False), bd_size = (\<lambda>a. 0), bd_per = (\<lambda>a. 0), k_block_descs = 0xc0007000,
     kernel_pool = \<lparr>pool_bitmap = \<lparr>btmp_bytes_len = 1, bits = [1]\<rparr>, phy_addr_start = 0x200000,
       pool_size = 0x8000, plock = 0\<rparr>,
     user_pool = \<lparr>pool_bitmap = \<lparr>btmp_bytes_len = 1, bits = [0]\<rparr>, phy_addr_start = 0x208000,
       pool_size = 0x8000, plock = 0\<rparr>,
     kernel_vaddr = \<lparr>vaddr_bitmap = \<lparr>btmp_bytes_len = 1, bits = [1]\<rparr>, vaddr_start = 0xc0100000\<rparr>,
     cur_pgdir = 0, cur_vaddr = \<lparr>vaddr_bitmap = \<lparr>btmp_bytes_len = 1, bits = [0]\<rparr>, vaddr_start = 0x8048000\<rparr>,
     cur_descs = 0\<rparr>"

lemma demo_room: "room PF_KERNEL 2 1 demo_vm"
proof -
  have scan: "bitmap_scan \<lparr>btmp_bytes_len = 1, bits = [1]\<rparr> 2 = Inr 1"
    by code_simp
  have wf: "vm_ok demo_vm"
    by (simp add: vm_ok_def all_pf demo_vm_def bm_wf_def pool_cap_def bm_cap_def)
  have used: "bm_used \<lparr>btmp_bytes_len = 1, bits = [1]\<rparr> j \<longleftrightarrow> j = 0" if "j < 8" for j
    using that by (auto simp: bm_used_def bit_1_iff)
  have "{i. i < 8 \<and> \<not> bm_used \<lparr>btmp_bytes_len = 1, bits = [1]\<rparr> i} = {1..<8}" using used by auto
  then have free: "free_frames PF_KERNEL demo_vm = 7"
    by (simp add: free_frames_def pool_cap_def pool_used_def demo_vm_def bm_cap_def)
  have below: "pde_ptr v \<noteq> pte_ptr w" "\<not> unat (pte_ptr w) \<ge> 0xfffff000"
    if "unat w < 0xffc00000" for v w
  proof -
    have "unat w div 4096 < 0xffc00" using that by (simp add: less_mult_imp_div_less)
    then show "\<not> unat (pte_ptr w) \<ge> 0xfffff000" unfolding unat_pte_ptr by simp
    then show "pde_ptr v \<noteq> pte_ptr w" using unat_pde_ptr [of v] by auto
  qed
  have "unat (page_of 0xc0101000 k) < 0xffc00000" if "k < 2" for k
    using that by (auto simp: less_2_cases_iff)
  then have "unmapped 0xc0101000 2 demo_vm"
    using below(2) by (auto simp: unmapped_def demo_vm_def unat_pde_ptr)
  then show ?thesis
    using scan wf free used
    by (auto simp: room_def Let_def demo_vm_def bm_wf_def bm_cap_def)
qed

theorem malloc_mfree_roundtrip_witness:
  "\<exists>s1 fs s2. malloc_page PF_KERNEL 2 demo_vm = Inr (0xc0101000, s1) \<and> length fs = 2 \<and> distinct fs \<and>
     addr_v2p 0xc0102000 s1 = frame_addr PF_KERNEL demo_vm (fs ! 1) \<and>
     mfree_page PF_KERNEL 0xc0101000 2 s1 = Inr s2 \<and>
     pool_used PF_KERNEL s2 = pool_used PF_KERNEL demo_vm"
proof -
  have v: "page_of (vaddr_start (get_vaddr PF_KERNEL demo_vm)) 1 = 0xc0101000" by (simp add: demo_vm_def)
  obtain s1 fs s2 where r: "malloc_page PF_KERNEL 2 demo_vm = Inr (0xc0101000, s1)" "length fs = 2"
    "distinct fs" "\<forall>k<2. addr_v2p (page_of 0xc0101000 k) s1 = frame_addr PF_KERNEL demo_vm (fs ! k)"
    "mfree_page PF_KERNEL 0xc0101000 2 s1 = Inr s2" "pool_used PF_KERNEL s2 = pool_used PF_KERNEL demo_vm"
    using malloc_mfree_roundtrip [OF demo_room] unfolding v by blast
  then show ?thesis using r(4) [rule_format, of 1] by auto
qed

text \<open>A pool with no free frame stops the kernel: \<^verbatim>\<open>palloc\<close> does not return the null pointer its
  callers test for, because the scan of a full bitmap ends in a failed assertion (or reads past
  the bitmap), so \<^verbatim>\<open>malloc_page\<close> and \<^verbatim>\<open>get_a_page\<close> cannot report exhaustion.\<close>

theorem palloc_exhausted:
  assumes "vm_ok s" "\<forall>i<pool_cap pf s. pool_used pf s i"
  shows "(\<exists>e. palloc pf s = Inl e) \<and> (\<exists>e. map_one pf v s = Inl e) \<and> (\<exists>e. map_pages pf (Suc n) v s = Inl e)"
proof -
  have "\<exists>e. bitmap_scan (pool_bitmap (get_pool pf s)) 1 = Inl e"
    using assms by (intro bm.scan_none) (auto simp: vm_ok_def pool_cap_def pool_used_def)
  then show ?thesis by (auto simp: palloc_def map_one_def Let_def)
qed

theorem palloc_exhausted_witness:
  "\<exists>e. palloc PF_KERNEL
     (demo_vm\<lparr>kernel_pool := \<lparr>pool_bitmap = \<lparr>btmp_bytes_len = 1, bits = [0xff]\<rparr>,
        phy_addr_start = 0x200000, pool_size = 0x8000, plock = 0\<rparr>\<rparr>) = Inl e"
proof -
  let ?s = "demo_vm\<lparr>kernel_pool := \<lparr>pool_bitmap = \<lparr>btmp_bytes_len = 1, bits = [0xff]\<rparr>,
        phy_addr_start = 0x200000, pool_size = 0x8000, plock = 0\<rparr>\<rparr>"
  have "vm_ok ?s"
    by (simp add: vm_ok_def all_pf demo_vm_def bm_wf_def pool_cap_def bm_cap_def)
  moreover have "\<forall>i<pool_cap PF_KERNEL ?s. pool_used PF_KERNEL ?s i"
    using byte_full_bit by (simp add: pool_cap_def pool_used_def bm_cap_def bm_used_def)
  ultimately show ?thesis using palloc_exhausted [of ?s PF_KERNEL] by blast
qed

text \<open>\<^verbatim>\<open>get_a_page\<close> refuses the first page of an address pool: for the address the pool starts at
  the page index is 0 and the assertion demands a positive one, so the first page of a user
  program, which is loaded at exactly that address, cannot be obtained. The second page can.\<close>

theorem get_a_page_first_page:
  assumes "cur_pgdir s \<noteq> 0"
  shows "get_a_page PF_USER (vaddr_start (cur_vaddr s)) s = Inl Assert_failed"
  using assms by (simp add: get_a_page_def lock_acquire_pool_def Let_def)

theorem get_a_page_first_page_witness:
  "get_a_page PF_USER 0x8048000 (demo_vm\<lparr>cur_pgdir := 0x300000\<rparr>) = Inl Assert_failed"
  using get_a_page_first_page [of "demo_vm\<lparr>cur_pgdir := 0x300000\<rparr>"] by (simp add: demo_vm_def)

section \<open>The pools after initialisation\<close>

lemma bitmap_init_carve:
  assumes "off + len \<le> length area" "len < 2 ^ 28"
  shows "\<exists>bm. bitmap_init (carve area off len) = Inr bm \<and> bm_wf bm \<and> bm_cap bm = 8 * len \<and>
    (\<forall>i<8 * len. \<not> bm_used bm i)"
proof -
  have u: "unat (of_nat len :: u32) = len" using assms(2) by (simp add: unat_of_nat)
  let ?bm = "\<lparr>btmp_bytes_len = of_nat len, bits = splice 0 (replicate len 0) (drop off area)\<rparr>"
  have "bitmap_init (carve area off len) = Inr ?bm"
    using assms(1) u by (simp add: bitmap_init_def carve_def)
  moreover have "\<not> bm_used ?bm i" if "i < 8 * len" for i
  proof -
    have "i div 8 < len" using that by (simp add: less_mult_imp_div_less mult.commute)
    then show ?thesis using assms by (simp add: bm_used_def splice_def nth_append)
  qed
  ultimately show ?thesis using assms u by (auto simp: bm_wf_def bm_cap_def)
qed

lemma pool_pages:
  fixes a :: u16
  shows "unat (ucast a * 4096 :: u32) = unat a * 4096" "unat (a div 2) = unat a div 2"
    "unat (a - a div 2) = unat a - unat a div 2" "unat a < 65536"
proof -
  show lt: "unat a < 65536" using unsigned_less [of a, where 'a = nat] by simp
  have u: "unat (ucast a :: u32) = unat a"
    using lt by (simp add: unsigned_ucast_eq take_bit_nat_eq_self_iff)
  then show "unat (ucast a * 4096 :: u32) = unat a * 4096"
    using unat_mult_u32 [of "ucast a" 4096] lt by simp
  show d: "unat (a div 2) = unat a div 2" by (simp add: unat_div)
  then have "a div 2 \<le> a" by (simp add: word_le_nat_alt)
  then show "unat (a - a div 2) = unat a - unat a div 2" using d by (simp add: unat_sub)
qed

text \<open>\<^verbatim>\<open>mem_pool_init\<close> splits the memory above 2 MB into two page-aligned, disjoint pools whose
  bitmaps are clear and cover no more pages than the pools have. The number of pages is counted
  modulo 65536, because it is held in a 16-bit variable: with 2 MB + 256 MB of memory both
  pools are empty, although the bitmap area was sized for 512 MB.\<close>

theorem mem_pool_init_split:
  assumes "0x200000 \<le> unat all_mem" "length area = 4 * 4096"
  defines "pages \<equiv> (unat all_mem - 0x200000) div 4096 mod 65536"
  shows "\<exists>t. mem_pool_init area all_mem s = Inr t \<and> vm_ok t \<and>
    unat (pool_size (kernel_pool t)) = 4096 * (pages div 2) \<and>
    unat (pool_size (user_pool t)) = 4096 * (pages - pages div 2) \<and>
    unat (phy_addr_start (kernel_pool t)) = 0x200000 \<and>
    unat (phy_addr_start (user_pool t)) = 0x200000 + 4096 * (pages div 2) \<and>
    4096 * pool_cap PF_KERNEL t \<le> unat (pool_size (kernel_pool t)) \<and>
    4096 * pool_cap PF_USER t \<le> unat (pool_size (user_pool t)) \<and>
    (\<forall>pf. \<forall>i<pool_cap pf t. \<not> pool_used pf t i)"
proof -
  define a where "a = (ucast ((all_mem - 0x200000) div 4096) :: u16)"
  define k where "k = unat (a div 2)"
  define u where "u = unat (a - a div 2)"
  have "unat (all_mem - 0x200000) = unat all_mem - 0x200000"
    using assms(1) by (simp add: unat_sub word_le_nat_alt)
  then have a: "unat a = pages"
    by (simp add: a_def pages_def unsigned_ucast_eq take_bit_eq_mod unat_div)
  have ku: "k = pages div 2" "u = pages - pages div 2" "pages < 65536"
    using pool_pages [of a] a by (simp_all add: k_def u_def)
  have fit: "0 + k div 8 \<le> length area" "k div 8 + u div 8 \<le> length area"
    "k div 8 + u div 8 + k div 8 \<le> length area"
    using assms(2) ku by linarith+
  have small: "k div 8 < 2 ^ 28" "u div 8 < 2 ^ 28" using ku by simp_all
  obtain kb where kb: "bitmap_init (carve area 0 (k div 8)) = Inr kb" "bm_wf kb"
      "bm_cap kb = 8 * (k div 8)" "\<forall>i<8 * (k div 8). \<not> bm_used kb i"
    using bitmap_init_carve [OF fit(1) small(1)] by auto
  obtain ub where ub: "bitmap_init (carve area (k div 8) (u div 8)) = Inr ub" "bm_wf ub"
      "bm_cap ub = 8 * (u div 8)" "\<forall>i<8 * (u div 8). \<not> bm_used ub i"
    using bitmap_init_carve [OF fit(2) small(2)] by auto
  obtain vb where vb: "bitmap_init (carve area (k div 8 + u div 8) (k div 8)) = Inr vb"
    using bitmap_init_carve [OF fit(3) small(1)] by auto
  let ?t = "s\<lparr>kernel_pool := \<lparr>pool_bitmap = kb, phy_addr_start = 0x200000,
        pool_size = ucast (a div 2) * 4096, plock = 0\<rparr>,
      user_pool := \<lparr>pool_bitmap = ub, phy_addr_start = 0x200000 + ucast (a div 2) * 4096,
        pool_size = ucast (a - a div 2) * 4096, plock = 0\<rparr>,
      kernel_vaddr := \<lparr>vaddr_bitmap = vb, vaddr_start = 0xc0100000\<rparr>\<rparr>"
  have init: "mem_pool_init area all_mem s = Inr ?t"
    using kb(1) ub(1) vb by (simp add: mem_pool_init_def Let_def flip: a_def k_def u_def)
  have sizes: "unat (ucast (a div 2) * 4096 :: u32) = 4096 * k"
    "unat (ucast (a - a div 2) * 4096 :: u32) = 4096 * u"
    using pool_pages(1) [of "a div 2"] pool_pages(1) [of "a - a div 2"] by (simp_all add: k_def u_def)
  have us: "unat (0x200000 + ucast (a div 2) * 4096 :: u32) = 0x200000 + 4096 * k"
    using unat_add_u32 [of "0x200000" "ucast (a div 2) * 4096"] sizes(1) ku by simp
  have "4096 * k + 32768 * (u div 8) \<le> 4292870144" using ku by linarith
  then have "vm_ok ?t"
    using kb ub us sizes by (simp add: vm_ok_def all_pf pool_cap_def)
  moreover have "\<forall>pf. \<forall>i<pool_cap pf ?t. \<not> pool_used pf ?t i"
    using kb ub unfolding all_pf by (simp add: pool_cap_def pool_used_def)
  ultimately show ?thesis
    using init sizes us kb ub ku by (intro exI [of _ ?t]) (simp add: pool_cap_def)
qed

theorem mem_pool_init_split_witness:
  "\<exists>t. mem_pool_init (replicate (4 * 4096) 0) 0x10200000 demo_vm = Inr t \<and>
     unat (pool_size (kernel_pool t)) = 0 \<and> unat (pool_size (user_pool t)) = 0"
  using mem_pool_init_split [of "0x10200000" "replicate (4 * 4096) 0" demo_vm] by auto

end
