(* ===== verification/Heap.thy ===== *)
theory Heap
  imports Paging
begin

text \<open>
  The kernel heap, the second half of \<^verbatim>\<open>mm/memory.c\<close>: arenas of equal blocks behind
  \<^verbatim>\<open>sys_malloc\<close> and \<^verbatim>\<open>sys_free\<close>. A \<^verbatim>\<open>struct arena\<close> occupies 12 bytes at the start of a page, a
  \<^verbatim>\<open>struct mem_block_desc\<close> 24 bytes with its free list at offset 8, and a free block is a list
  node at the block's own address.
\<close>

section \<open>Model\<close>

definition ARENA_SIZE :: nat where "ARENA_SIZE = 12"

definition DESC_CNT :: nat where "DESC_CNT = 7"

definition desc_addr :: "u32 \<Rightarrow> nat \<Rightarrow> u32" where
  "desc_addr descs index = descs + of_nat index * 24"

definition free_list :: "u32 \<Rightarrow> u32" where
  "free_list d = d + 8"

text \<open>The loop of \<^verbatim>\<open>block_desc_init\<close>; \<open>sz\<close> is the 16-bit \<^verbatim>\<open>size\<close>.\<close>

fun block_desc_loop :: "u32 \<Rightarrow> nat list \<Rightarrow> u16 \<Rightarrow> vm \<Rightarrow> vm" where
  "block_desc_loop descs [] sz s = s"
| "block_desc_loop descs (index # is) sz s =
     (let d = desc_addr descs index;
          s = s\<lparr>bd_size := (bd_size s)(d := ucast sz)\<rparr>;
          s = s\<lparr>bd_per := (bd_per s)(d := of_nat ((PG_SIZE - ARENA_SIZE) div unat sz))\<rparr>;
          s = list_init (free_list d) s
      in block_desc_loop descs is (sz * 2) s)"

definition block_desc_init :: "u32 \<Rightarrow> vm \<Rightarrow> vm" where
  "block_desc_init desc_array s = block_desc_loop desc_array [0..<DESC_CNT] 16 s"

definition mem_init :: "u8 list \<Rightarrow> u32 \<Rightarrow> vm \<Rightarrow> vm result" where
  "mem_init area mem_bytes_total s =
     bindE (mem_pool_init area mem_bytes_total s) (\<lambda>s. Inr (block_desc_init (k_block_descs s) s))"

definition arena2block :: "u32 \<Rightarrow> nat \<Rightarrow> vm \<Rightarrow> u32" where
  "arena2block a index s = a + of_nat ARENA_SIZE + of_nat index * bd_size s (ar_desc s a)"

definition block2arena :: "u32 \<Rightarrow> u32" where
  "block2arena b = b AND 0xfffff000"

definition set_arena :: "u32 \<Rightarrow> u32 \<Rightarrow> u32 \<Rightarrow> bool \<Rightarrow> vm \<Rightarrow> vm" where
  "set_arena a desc cnt large s =
     s\<lparr>ar_desc := (ar_desc s)(a := desc), ar_cnt := (ar_cnt s)(a := cnt),
       ar_large := (ar_large s)(a := large)\<rparr>"

text \<open>\<^verbatim>\<open>for (index = 0; index < DESC_CNT; index++) if (size <= descs[index].block_size) break;\<close>\<close>

fun find_desc :: "u32 \<Rightarrow> u32 \<Rightarrow> nat list \<Rightarrow> vm \<Rightarrow> nat" where
  "find_desc descs sz [] s = DESC_CNT"
| "find_desc descs sz (index # is) s =
     (if sz \<le> bd_size s (desc_addr descs index) then index else find_desc descs sz is s)"

text \<open>The loop that splits a new arena.\<close>

fun split_arena :: "u32 \<Rightarrow> nat list \<Rightarrow> vm \<Rightarrow> vm result" where
  "split_arena a [] s = Inr s"
| "split_arena a (block_index # is) s =
     (let b = arena2block a block_index s; l = free_list (ar_desc s a) in
      case elem_find l b s of
        None \<Rightarrow> Inl Diverges
      | Some found \<Rightarrow> assertE (\<not> found) (split_arena a is (list_append l b s)))"

definition new_arena :: "pool_flags \<Rightarrow> u32 \<Rightarrow> vm \<Rightarrow> (bool \<times> vm) result" where
  "new_arena pf d s =
     bindE (malloc_page pf 1 s) (\<lambda>(a, s).
       if a = 0 then bindE (lock_release_pool pf s) (\<lambda>s. Inr (False, s))
       else
         (let s = mem_zero a PG_SIZE s;
              s = set_arena a d (bd_per s d) False s;
              (old_status, s) = intr_disable s
          in bindE (split_arena a [0..<unat (bd_per s d)] s) (\<lambda>s.
               Inr (True, snd (intr_set_status old_status s)))))"

definition take_block :: "pool_flags \<Rightarrow> u32 \<Rightarrow> vm \<Rightarrow> (u32 \<times> vm) result" where
  "take_block pf d s =
     (let (b, s) = list_pop (free_list d) s;
          s = mem_zero b (unat (bd_size s d)) s;
          a = block2arena b;
          s = s\<lparr>ar_cnt := (ar_cnt s)(a := ar_cnt s a - 1)\<rparr>
      in bindE (lock_release_pool pf s) (\<lambda>s. Inr (b, s)))"

definition DIV_ROUND_UP :: "u32 \<Rightarrow> u32 \<Rightarrow> u32" where
  "DIV_ROUND_UP x step = (x + step - 1) div step"

definition sys_malloc :: "u32 \<Rightarrow> vm \<Rightarrow> (u32 \<times> vm) result" where
  "sys_malloc sz s =
     (let pf = (if cur_pgdir s = 0 then PF_KERNEL else PF_USER);
          descs = (if cur_pgdir s = 0 then k_block_descs s else cur_descs s)
      in if \<not> (sz > 0 \<and> sz < pool_size (get_pool pf s)) then Inr (0, s)
         else
           (let s = lock_acquire_pool pf s in
            if sz > 1024 then
              (let page_cnt = unat (DIV_ROUND_UP (sz + of_nat ARENA_SIZE) 4096) in
               bindE (malloc_page pf page_cnt s) (\<lambda>(a, s).
                 if a \<noteq> 0 then
                   (let s = set_arena a 0 (of_nat page_cnt) True (mem_zero a (page_cnt * PG_SIZE) s) in
                    bindE (lock_release_pool pf s) (\<lambda>s. Inr (a + of_nat ARENA_SIZE, s)))
                 else bindE (lock_release_pool pf s) (\<lambda>s. Inr (0, s))))
            else
              (let index = find_desc descs sz [0..<DESC_CNT] s; d = desc_addr descs index in
               if index \<ge> DESC_CNT then Inl Out_of_bounds
               else if list_empty (free_list d) s then
                 bindE (new_arena pf d s) (\<lambda>(ok, s).
                   if ok then take_block pf d s else Inr (0, s))
               else take_block pf d s)))"

text \<open>The loop that takes the blocks of an arena off the free list.\<close>

fun unlink_arena :: "u32 \<Rightarrow> nat list \<Rightarrow> vm \<Rightarrow> vm result" where
  "unlink_arena a [] s = Inr s"
| "unlink_arena a (index # is) s =
     (let b = arena2block a index s in
      case elem_find (free_list (ar_desc s a)) b s of
        None \<Rightarrow> Inl Diverges
      | Some found \<Rightarrow> assertE found (unlink_arena a is (list_remove b s)))"

definition free_block :: "pool_flags \<Rightarrow> u32 \<Rightarrow> vm \<Rightarrow> vm result" where
  "free_block pf b s =
     (let a = block2arena b;
          s = list_append (free_list (ar_desc s a)) b s;
          s = s\<lparr>ar_cnt := (ar_cnt s)(a := ar_cnt s a + 1)\<rparr>
      in if ar_cnt s a = bd_per s (ar_desc s a)
         then bindE (unlink_arena a [0..<unat (bd_per s (ar_desc s a))] s) (mfree_page pf a 1)
         else Inr s)"

definition sys_free :: "u32 \<Rightarrow> vm \<Rightarrow> vm result" where
  "sys_free ptr s =
     assertE (ptr \<noteq> 0)
       (let pf = (if cur_pgdir s = 0 then PF_KERNEL else PF_USER) in
        assertE (pf = PF_USER \<or> ptr \<ge> 0xc0100000)
          (let s = lock_acquire_pool pf s; a = block2arena ptr in
           bindE (if ar_desc s a = 0 \<and> ar_large s a
                  then mfree_page pf a (unat (ar_cnt s a)) s
                  else free_block pf ptr s)
             (lock_release_pool pf)))"

section \<open>Geometry of an arena\<close>

definition class_size :: "nat \<Rightarrow> nat" where
  "class_size index = 16 * 2 ^ index"

definition class_count :: "nat \<Rightarrow> nat" where
  "class_count index = 4084 div class_size index"

definition desc_ok :: "nat \<Rightarrow> u32 \<Rightarrow> vm \<Rightarrow> bool" where
  "desc_ok index d s \<longleftrightarrow> index < DESC_CNT \<and> bd_size s d = of_nat (class_size index) \<and>
     bd_per s d = of_nat (class_count index)"

lemma class_bounds:
  assumes "index < 7"
  shows "16 \<le> class_size index" "class_size index \<le> 1024" "3 \<le> class_count index"
    "class_count index \<le> 255" "12 + class_count index * class_size index \<le> 4096"
proof -
  have "index = 0 \<or> index = 1 \<or> index = 2 \<or> index = 3 \<or> index = 4 \<or> index = 5 \<or> index = 6"
    using assms by linarith
  then show "16 \<le> class_size index" "class_size index \<le> 1024" "3 \<le> class_count index"
    "class_count index \<le> 255" "12 + class_count index * class_size index \<le> 4096"
    by (auto simp: class_size_def class_count_def)
qed

lemma desc_unat:
  assumes "desc_ok index d s"
  shows "unat (bd_size s d) = class_size index" "unat (bd_per s d) = class_count index"
  using assms class_bounds [of index] by (auto simp: desc_ok_def DESC_CNT_def unat_of_nat)

lemma arena2block_unat:
  assumes "desc_ok index (ar_desc s a) s" "unat a mod 4096 = 0" "i < class_count index"
  shows "unat (arena2block a i s) = unat a + 12 + i * class_size index"
    and "i * class_size index + 12 + class_size index \<le> 4096"
proof -
  have idx: "index < 7" using assms(1) by (simp add: desc_ok_def DESC_CNT_def)
  have "Suc i * class_size index \<le> class_count index * class_size index"
    using assms(3) by (intro mult_le_mono1) simp
  then show fit: "i * class_size index + 12 + class_size index \<le> 4096"
    using class_bounds(5) [OF idx] by simp
  have a: "unat a + 4096 \<le> 2 ^ 32"
    using assms(2) unat_lt [of a] by (auto elim!: dvdE simp: mod_eq_0_iff_dvd)
  have i: "unat (of_nat i :: u32) = i"
    using assms(3) class_bounds(4) [OF idx] by (simp add: unat_of_nat)
  have m: "unat (of_nat i * bd_size s (ar_desc s a)) = i * class_size index"
    using unat_mult_u32 [of "of_nat i" "bd_size s (ar_desc s a)"] i fit desc_unat(1) [OF assms(1)] by simp
  have "unat (a + 12) = unat a + 12" using unat_add_u32 [of a 12] a by simp
  then show "unat (arena2block a i s) = unat a + 12 + i * class_size index"
    using unat_add_u32 [of "a + 12" "of_nat i * bd_size s (ar_desc s a)"] m fit a class_bounds(1) [OF idx]
    by (simp add: arena2block_def ARENA_SIZE_def)
qed

lemma block2arena_block:
  assumes "desc_ok index (ar_desc s a) s" "unat a mod 4096 = 0" "i < class_count index"
  shows "block2arena (arena2block a i s) = a"
proof -
  have "unat (arena2block a i s) div 4096 * 4096 = unat a"
    using arena2block_unat [OF assms] class_bounds(1) [of index] assms(1,2)
    by (auto simp: mod_eq_0_iff_dvd desc_ok_def DESC_CNT_def elim!: dvdE)
  then show ?thesis by (simp add: block2arena_def word_unat_eq_iff unat_page)
qed

lemma arena2block_inj:
  assumes "desc_ok index (ar_desc s a) s" "unat a mod 4096 = 0" "i < class_count index" "j < class_count index"
  shows "arena2block a i s = arena2block a j s \<longleftrightarrow> i = j"
  using arena2block_unat(1) [OF assms(1,2)] assms(3,4) class_bounds(1) [of index] assms(1)
  by (auto simp: word_unat_eq_iff desc_ok_def DESC_CNT_def)

text \<open>The blocks of an arena lie one after the other inside the arena's page, behind its header, do
  not overlap, and masking the low twelve bits of any block address gives the arena back.\<close>

theorem arena_blocks:
  assumes "desc_ok index (ar_desc s a) s" "unat a mod 4096 = 0" "i < j" "j < class_count index"
  shows "block2arena (arena2block a i s) = a \<and> block2arena (arena2block a j s) = a \<and>
    unat a + 12 \<le> unat (arena2block a i s) \<and>
    unat (arena2block a i s) + class_size index \<le> unat (arena2block a j s) \<and>
    unat (arena2block a j s) + class_size index \<le> unat a + 4096"
proof -
  have i: "i < class_count index" using assms(3,4) by simp
  have "Suc i * class_size index \<le> j * class_size index" using assms(3) by (intro mult_le_mono1) simp
  then show ?thesis
    using arena2block_unat [OF assms(1,2) i] arena2block_unat [OF assms(1,2,4)]
      block2arena_block [OF assms(1,2) i] block2arena_block [OF assms(1,2,4)] by simp
qed

section \<open>Descriptors after initialisation\<close>

lemma desc_addr_unat:
  "unat descs + 168 \<le> 2 ^ 32 \<Longrightarrow> i < 7 \<Longrightarrow> unat (desc_addr descs i) = unat descs + 24 * i"
  using unat_mult_u32 [of "of_nat i" 24] unat_add_u32 [of descs "of_nat i * 24"]
  by (simp add: desc_addr_def unat_of_nat)

lemma desc_foot:
  assumes "unat descs + 168 \<le> 2 ^ 32" "i < 7" "j < 7" "i \<noteq> j"
  shows "foot (free_list (desc_addr descs i)) [] \<inter> foot (free_list (desc_addr descs j)) [] = {}"
proof -
  have node: "unat (desc_addr descs k + 8) = unat descs + 24 * k + 8"
    "unat (desc_addr descs k + 8 + 8) = unat descs + 24 * k + 16" if "k < 7" for k
    using desc_addr_unat [OF assms(1) that] that assms(1)
      unat_add_u32 [of "desc_addr descs k" 8] unat_add_u32 [of "desc_addr descs k + 8" 8] by simp_all
  have "unat (desc_addr descs i + 8) \<noteq> unat (desc_addr descs j + 8)"
    "unat (desc_addr descs i + 8) \<noteq> unat (desc_addr descs j + 8 + 8)"
    "unat (desc_addr descs i + 8 + 8) \<noteq> unat (desc_addr descs j + 8)"
    "unat (desc_addr descs i + 8 + 8) \<noteq> unat (desc_addr descs j + 8 + 8)"
    unfolding node(1) [OF assms(2)] node(2) [OF assms(2)] node(1) [OF assms(3)] node(2) [OF assms(3)]
    using assms(4) by presburger+
  then have "desc_addr descs i + 8 \<noteq> desc_addr descs j + 8"
    "desc_addr descs i + 8 \<noteq> desc_addr descs j + 8 + 8"
    "desc_addr descs i + 8 + 8 \<noteq> desc_addr descs j + 8"
    "desc_addr descs i + 8 + 8 \<noteq> desc_addr descs j + 8 + 8" by metis+
  then show ?thesis
    unfolding foot_def free_list_def list_head_def list_tail_def by auto
qed

definition desc_ready :: "u32 \<Rightarrow> nat \<Rightarrow> vm \<Rightarrow> bool" where
  "desc_ready descs i s \<longleftrightarrow> desc_ok i (desc_addr descs i) s \<and> klist s (free_list (desc_addr descs i)) []"

lemma klist_field_cong:
  "prev t = prev s \<Longrightarrow> nxt t = nxt s \<Longrightarrow> klist t l xs = klist (s :: 'a kmem_scheme) l xs"
  unfolding klist_def by (subst chain_cong [of _ _ t s]) auto

lemma block_desc_loop_ready:
  assumes "unat descs + 168 \<le> 2 ^ 32" "i \<le> 7" "\<forall>j<i. desc_ready descs j s"
  shows "\<forall>j<7. desc_ready descs j (block_desc_loop descs [i..<7] (of_nat (class_size i)) s)"
  using assms(2,3)
proof (induction "7 - i" arbitrary: i s)
  case 0
  then show ?case by simp
next
  case (Suc n)
  then have i: "i < 7" by simp
  let ?d = "desc_addr descs i" and ?sz = "of_nat (class_size i) :: u16"
  let ?s1 = "s\<lparr>bd_size := (bd_size s)(?d := ucast ?sz),
    bd_per := (bd_per s)(?d := of_nat ((PG_SIZE - ARENA_SIZE) div unat ?sz))\<rparr>"
  let ?s2 = "list_init (free_list ?d) ?s1"
  have fields: "bd_size ?s2 = bd_size ?s1" "bd_per ?s2 = bd_per ?s1" by (simp_all add: list_init_def Let_def)
  have u: "unat ?sz = class_size i" using class_bounds(2) [OF i] by (simp add: unat_of_nat)
  then have sz: "unat ?sz = class_size i" "(ucast ?sz :: u32) = of_nat (class_size i)"
    using class_bounds(2) [OF i]
    by (simp_all add: word_unat_eq_iff unat_of_nat unsigned_ucast_eq take_bit_nat_eq_self)
  have new: "desc_ready descs i ?s2"
    unfolding desc_ready_def desc_ok_def fields
    using i sz klist_init by (simp add: DESC_CNT_def PG_SIZE_def ARENA_SIZE_def class_count_def)
  have old: "desc_ready descs j ?s2" if "j < i" for j
  proof -
    have d: "desc_addr descs j \<noteq> ?d"
      using desc_addr_unat [OF assms(1), of i] desc_addr_unat [OF assms(1), of j] that i
      by (auto simp: word_unat_eq_iff)
    have r: "desc_ready descs j s" using Suc.prems that by blast
    then have "klist ?s1 (free_list (desc_addr descs j)) []"
      by (simp add: desc_ready_def klist_field_cong [of ?s1 s])
    then have "klist ?s2 (free_list (desc_addr descs j)) []"
      using desc_foot [OF assms(1), of i j] that i by (intro klist_init_other) auto
    then show ?thesis using r d by (simp add: desc_ready_def desc_ok_def fields)
  qed
  have "\<forall>j<Suc i. desc_ready descs j ?s2" using new old by (simp add: less_Suc_eq)
  moreover have "n = 7 - Suc i" "Suc i \<le> 7" using Suc.hyps(2) i by simp_all
  ultimately have "\<forall>j<7. desc_ready descs j (block_desc_loop descs [Suc i..<7] (of_nat (class_size (Suc i))) ?s2)"
    using Suc.hyps(1) by blast
  moreover have "?sz * 2 = of_nat (class_size (Suc i))" by (simp add: class_size_def)
  ultimately show ?case using i by (simp add: upt_conv_Cons Let_def)
qed

text \<open>\<^verbatim>\<open>block_desc_init\<close> sets up the seven block classes: class \<open>i\<close> has blocks of 16 * 2 ^ i bytes,
  as many as fit behind the 12-byte header of a page, and an empty free list; the seven list
  heads do not disturb one another.\<close>

theorem block_desc_init_classes:
  assumes "unat descs + 168 \<le> 2 ^ 32"
  shows "\<forall>i<7. unat (bd_size (block_desc_init descs s) (desc_addr descs i)) = 16 * 2 ^ i \<and>
    unat (bd_per (block_desc_init descs s) (desc_addr descs i)) = (4096 - 12) div (16 * 2 ^ i) \<and>
    klist (block_desc_init descs s) (free_list (desc_addr descs i)) []"
proof -
  have "\<forall>j<7. desc_ready descs j (block_desc_init descs s)"
    using block_desc_loop_ready [OF assms, of 0 s] 
    by (simp add: block_desc_init_def DESC_CNT_def class_size_def)
  then show ?thesis
    using desc_unat by (auto simp: desc_ready_def class_size_def class_count_def)
qed

theorem block_desc_init_classes_witness:
  "unat (bd_per (block_desc_init 0xc0007000 demo_vm) (desc_addr 0xc0007000 3)) = 31 \<and>
   klist (block_desc_init 0xc0007000 demo_vm) (free_list (desc_addr 0xc0007000 3)) []"
  using block_desc_init_classes [of "0xc0007000" demo_vm, THEN spec, of 3] by simp

theorem arena_blocks_witness:
  "block2arena (arena2block 0xc0101000 2 (demo_vm\<lparr>bd_size := (\<lambda>d. 512), bd_per := (\<lambda>d. 7)\<rparr>)) = 0xc0101000"
  using arena_blocks [of 5 "demo_vm\<lparr>bd_size := (\<lambda>d. 512), bd_per := (\<lambda>d. 7)\<rparr>" "0xc0101000" 1 2]
  by (simp add: desc_ok_def DESC_CNT_def class_size_def class_count_def)

section \<open>Splitting and unlinking arenas\<close>

lemma link_simps [simp]:
  "arena2block a i (s\<lparr>prev := p, nxt := n\<rparr>) = arena2block a i s"
  "desc_ok index d (s\<lparr>prev := p, nxt := n\<rparr>) = desc_ok index d s"
  by (simp_all add: arena2block_def desc_ok_def)

lemma append_link: "\<exists>p n. list_append l e s = s\<lparr>prev := p, nxt := n\<rparr>" for s :: vm
  by (rule exI [of _ "prev (list_append l e s)"], rule exI [of _ "nxt (list_append l e s)"])
    (simp add: list_append_def insert_before_eq)

lemma remove_link: "\<exists>p n. list_remove e s = s\<lparr>prev := p, nxt := n\<rparr>" for s :: vm
  by (rule exI [of _ "prev (list_remove e s)"], rule exI [of _ "nxt (list_remove e s)"])
    (simp add: remove_eq)

lemma split_arena_ok:
  assumes "desc_ok index (ar_desc s a) s" "unat a mod 4096 = 0" "distinct is"
    "\<forall>i\<in>set is. i < class_count index" "klist s (free_list (ar_desc s a)) xs"
    "\<forall>i\<in>set is. arena2block a i s \<notin> foot (free_list (ar_desc s a)) xs"
  shows "\<exists>p n. split_arena a is s = Inr (s\<lparr>prev := p, nxt := n\<rparr>) \<and>
    klist (s\<lparr>prev := p, nxt := n\<rparr>) (free_list (ar_desc s a)) (xs @ map (\<lambda>i. arena2block a i s) is)"
  using assms
proof (induction "is" arbitrary: s xs)
  case Nil
  then show ?case by - (rule exI [where x = "prev s"], rule exI [where x = "nxt s"], auto)
next
  case (Cons i "is")
  let ?l = "free_list (ar_desc s a)" and ?b = "arena2block a i s"
  obtain p n where app: "list_append ?l ?b s = s\<lparr>prev := p, nxt := n\<rparr>" using append_link by blast
  let ?s = "s\<lparr>prev := p, nxt := n\<rparr>"
  have k: "klist ?s ?l (xs @ [?b])"
    using klist_append [OF Cons.prems(5), of ?b] Cons.prems(6) by (simp add: app)
  have fresh: "elem_find ?l ?b s = Some False"
    using klist_find [OF Cons.prems(5), of ?b] Cons.prems(6) by (auto simp: foot_def)
  have "\<forall>j\<in>set is. arena2block a j s \<noteq> ?b"
    using arena2block_inj [OF Cons.prems(1,2)] Cons.prems(3,4) by auto
  then have "\<forall>j\<in>set is. arena2block a j ?s \<notin> foot ?l (xs @ [?b])"
    using Cons.prems(6) by (auto simp: foot_def)
  then obtain p' n' where "split_arena a is ?s = Inr (?s\<lparr>prev := p', nxt := n'\<rparr>)"
    "klist (?s\<lparr>prev := p', nxt := n'\<rparr>) ?l ((xs @ [?b]) @ map (\<lambda>i. arena2block a i ?s) is)"
    using Cons.IH [of ?s "xs @ [?b]"] Cons.prems k by auto
  then show ?case using fresh app by (auto simp: Let_def)
qed

lemma unlink_arena_ok:
  assumes "desc_ok index (ar_desc s a) s" "unat a mod 4096 = 0" "distinct is"
    "\<forall>i\<in>set is. i < class_count index" "klist s (free_list (ar_desc s a)) xs"
    "\<forall>i\<in>set is. arena2block a i s \<in> set xs"
  shows "\<exists>p n ys. unlink_arena a is s = Inr (s\<lparr>prev := p, nxt := n\<rparr>) \<and>
    klist (s\<lparr>prev := p, nxt := n\<rparr>) (free_list (ar_desc s a)) ys \<and>
    set ys = set xs - (\<lambda>i. arena2block a i s) ` set is"
  using assms
proof (induction "is" arbitrary: s xs)
  case Nil
  then show ?case by - (rule exI [where x = "prev s"], rule exI [where x = "nxt s"], auto)
next
  case (Cons i "is")
  let ?l = "free_list (ar_desc s a)" and ?b = "arena2block a i s"
  obtain p n where rem: "list_remove ?b s = s\<lparr>prev := p, nxt := n\<rparr>" using remove_link by blast
  let ?s = "s\<lparr>prev := p, nxt := n\<rparr>"
  obtain us vs where xs: "xs = us @ ?b # vs" using Cons.prems(6) by (auto dest!: split_list)
  have d: "distinct xs" using Cons.prems(5) by (simp add: klist_def)
  have k: "klist ?s ?l (us @ vs)" using klist_remove [of s ?l us ?b vs] Cons.prems(5) xs by (simp add: rem)
  have found: "elem_find ?l ?b s = Some True" using klist_find [OF Cons.prems(5), of ?b] xs by simp
  have "\<forall>j\<in>set is. arena2block a j s \<noteq> ?b"
    using arena2block_inj [OF Cons.prems(1,2)] Cons.prems(3,4) by auto
  then have "\<forall>j\<in>set is. arena2block a j ?s \<in> set (us @ vs)" using Cons.prems(6) xs by auto
  then obtain p' n' ys where "unlink_arena a is ?s = Inr (?s\<lparr>prev := p', nxt := n'\<rparr>)"
    "klist (?s\<lparr>prev := p', nxt := n'\<rparr>) ?l ys"
    "set ys = set (us @ vs) - (\<lambda>i. arena2block a i ?s) ` set is"
    using Cons.IH [of ?s "us @ vs"] Cons.prems k by auto
  moreover have "set (us @ vs) = set xs - {?b}" using d xs by auto
  ultimately show ?case
    using found rem
    by - (rule exI [of _ p'], rule exI [of _ n'], rule exI [of _ ys], auto simp: Let_def)
qed

section \<open>Zeroing and the page state\<close>

text \<open>\<open>same_pages s t\<close>: the pools, the address pools and the page tables are the same.\<close>

definition same_pages :: "vm \<Rightarrow> vm \<Rightarrow> bool" where
  "same_pages s t \<longleftrightarrow>
     (\<forall>pf. pool_bitmap (get_pool pf t) = pool_bitmap (get_pool pf s) \<and>
           phy_addr_start (get_pool pf t) = phy_addr_start (get_pool pf s) \<and>
           get_vaddr pf t = get_vaddr pf s) \<and>
     (\<forall>x. 0xffc00000 \<le> unat x \<longrightarrow> cell t x = cell s x)"

lemma same_pages_obs:
  assumes "same_pages s t"
  shows "pool_cap pf t = pool_cap pf s" "pool_used pf t = pool_used pf s"
    "frame_addr pf t = frame_addr pf s" "get_vaddr pf t = get_vaddr pf s" "vm_ok t = vm_ok s"
    "free_frames pf t = free_frames pf s"
    "cell t (pte_ptr v) = cell s (pte_ptr v)" "cell t (pde_ptr v) = cell s (pde_ptr v)"
proof -
  have k: "phy_addr_start (kernel_pool t) = phy_addr_start (kernel_pool s)"
    "phy_addr_start (user_pool t) = phy_addr_start (user_pool s)"
    using assms unfolding same_pages_def all_pf by simp_all
  show *: "pool_cap pf t = pool_cap pf s" "pool_used pf t = pool_used pf s" for pf
    using assms by (simp_all add: same_pages_def pool_cap_def pool_used_def)
  show "frame_addr pf t = frame_addr pf s" "get_vaddr pf t = get_vaddr pf s"
    using assms by (simp_all add: same_pages_def frame_addr_def fun_eq_iff)
  show "vm_ok t = vm_ok s" "free_frames pf t = free_frames pf s"
    using assms k * by (simp_all add: vm_ok_def free_frames_def same_pages_def)
  show "cell t (pte_ptr v) = cell s (pte_ptr v)" "cell t (pde_ptr v) = cell s (pde_ptr v)"
    using assms by (simp_all add: same_pages_def unat_pte_ptr unat_pde_ptr)
qed

lemma held_same: "held pf i fs s \<Longrightarrow> same_pages s t \<Longrightarrow> held pf i fs t"
  by (simp add: held_def same_pages_obs)

lemma room_same: "room pf n i s \<Longrightarrow> same_pages s t \<Longrightarrow> room pf n i t"
  by (simp add: room_def unmapped_def same_pages_obs)

lemma same_pages_refl [simp]: "same_pages s s"
  by (simp add: same_pages_def)

lemma same_pages_trans: "same_pages s t \<Longrightarrow> same_pages t u \<Longrightarrow> same_pages s u"
  by (simp add: same_pages_def)

lemma same_pages_upd [simp]:
  "same_pages s (t\<lparr>prev := p\<rparr>) = same_pages s t" "same_pages s (t\<lparr>nxt := n\<rparr>) = same_pages s t"
  "same_pages s (t\<lparr>eflags := e\<rparr>) = same_pages s t"
  "same_pages s (t\<lparr>ar_desc := ad\<rparr>) = same_pages s t" "same_pages s (t\<lparr>ar_cnt := ac\<rparr>) = same_pages s t"
  "same_pages s (t\<lparr>ar_large := al\<rparr>) = same_pages s t"
  by (simp_all add: same_pages_def all_pf)

lemma same_pages_lock: "same_pages s (lock_acquire_pool pf s)"
  "lock_release_pool pf s = Inr t \<Longrightarrow> same_pages s t"
  by (cases pf; auto simp: same_pages_def all_pf lock_acquire_pool_def lock_release_pool_def
      assertE_eq_Inr)+

lemma in_range_unat:
  assumes "unat a + n \<le> 2 ^ 32" "0 < n"
  shows "in_range a n x \<longleftrightarrow> unat a \<le> unat x \<and> unat x < unat a + n"
  using assms by (auto simp: in_range_def unat_sub_if')

lemma same_pages_zero:
  assumes "unat a + n \<le> 0xffc00000" "0 < n"
  shows "same_pages s (mem_zero a n s)"
proof -
  have "\<not> in_range a n x" if "0xffc00000 \<le> unat x" for x
    using in_range_unat [of a n x] assms that by simp
  then show ?thesis by (simp add: same_pages_def all_pf mem_zero_def)
qed

lemma klist_zero:
  assumes "klist s l xs" "\<forall>x\<in>foot l xs. \<not> in_range a n x"
  shows "klist (mem_zero a n s) l xs"
proof -
  have "chain (mem_zero a n s) (list_head l) xs (list_tail l) = chain s (list_head l) xs (list_tail l)"
    by (rule chain_cong) (use assms(2) in \<open>auto simp: foot_def mem_zero_def\<close>)
  then show ?thesis using assms(1) by (simp add: klist_def)
qed

lemma find_desc_class:
  assumes "\<forall>j<7. desc_ok j (desc_addr descs j) s" "index < 7" "unat sz \<le> class_size index"
    "\<forall>j<index. class_size j < unat sz" "k \<le> index"
  shows "find_desc descs sz [k..<7] s = index"
  using assms(5)
proof (induction "index - k" arbitrary: k)
  case 0
  then have "k = index" by simp
  then show ?case
    using assms desc_unat(1) [of index "desc_addr descs index" s]
    by (simp add: upt_conv_Cons word_le_nat_alt)
next
  case (Suc n)
  then have "k < index" "n = index - Suc k" by simp_all
  moreover have "\<not> sz \<le> bd_size s (desc_addr descs k)"
    using assms(1,2,4) desc_unat(1) [of k "desc_addr descs k" s] calculation(1)
    by (simp add: word_le_nat_alt not_le)
  ultimately show ?case using Suc.hyps(1) [of "Suc k"] assms(2) by (simp add: upt_conv_Cons)
qed

section \<open>A block from a fresh arena\<close>

text \<open>Block \<open>j\<close> of an arena of class \<open>index\<close> at \<open>v\<close>.\<close>

definition blk :: "u32 \<Rightarrow> nat \<Rightarrow> nat \<Rightarrow> u32" where
  "blk v index j = v + 12 + of_nat j * of_nat (class_size index)"

lemma arena2block_blk: "desc_ok index (ar_desc s a) s \<Longrightarrow> arena2block a j s = blk a index j"
  by (simp add: arena2block_def blk_def desc_ok_def ARENA_SIZE_def)

text \<open>\<open>arena_at s v d index xs\<close>: an arena of class \<open>index\<close> at page \<open>v\<close> with \<open>free\<close> free blocks, its
  descriptor \<open>d\<close> outside the page, and \<open>xs\<close> on the free list of the descriptor.\<close>

definition arena_at :: "vm \<Rightarrow> u32 \<Rightarrow> u32 \<Rightarrow> nat \<Rightarrow> nat \<Rightarrow> u32 list \<Rightarrow> bool" where
  "arena_at s v d index free xs \<longleftrightarrow> ar_desc s v = d \<and> ar_cnt s v = of_nat free \<and> \<not> ar_large s v \<and>
     desc_ok index d s \<and> klist s (free_list d) xs"

text \<open>The page \<open>v\<close> is aligned, below the page table window and apart from the descriptor \<open>d\<close>.\<close>

definition apart :: "u32 \<Rightarrow> u32 \<Rightarrow> bool" where
  "apart v d \<longleftrightarrow> unat v mod 4096 = 0 \<and> 0 < unat v \<and> unat v + 4096 \<le> 0xffc00000 \<and> unat d + 24 \<le> unat v"

lemma apart_facts:
  assumes "apart v d"
  shows "\<not> in_range v 4096 d" "\<not> in_range v 4096 (list_head (free_list d))"
    "\<not> in_range v 4096 (list_tail (free_list d))"
    "unat (list_head (free_list d)) < unat v" "unat (list_tail (free_list d)) < unat v" "d \<noteq> v"
proof -
  have u: "unat (d + 8) = unat d + 8" "unat (d + 8 + 8) = unat d + 16"
    using assms unat_add_u32 [of d 8] unat_add_u32 [of "d + 8" 8] by (simp_all add: apart_def)
  have b: "unat v + 4096 \<le> 2 ^ 32" using assms by (simp add: apart_def)
  note r = in_range_unat [OF b]
  show "\<not> in_range v 4096 d" "\<not> in_range v 4096 (list_head (free_list d))"
    "\<not> in_range v 4096 (list_tail (free_list d))"
    using assms u unfolding apart_def free_list_def list_head_def list_tail_def by (simp_all add: r u)
  show "unat (list_head (free_list d)) < unat v" "unat (list_tail (free_list d)) < unat v" "d \<noteq> v"
    using assms u unfolding apart_def free_list_def list_head_def list_tail_def by auto
qed

lemma blk_unat:
  assumes "apart v d" "index < 7" "j < class_count index"
  shows "unat (blk v index j) = unat v + 12 + j * class_size index"
    and "j * class_size index + 12 + class_size index \<le> 4096"
    and "block2arena (blk v index j) = v"
proof -
  let ?s = "undefined\<lparr>ar_desc := (\<lambda>a. d), bd_size := (\<lambda>a. of_nat (class_size index)),
    bd_per := (\<lambda>a. of_nat (class_count index))\<rparr> :: vm"
  have ok: "desc_ok index (ar_desc ?s v) ?s" using assms(2) by (simp add: desc_ok_def DESC_CNT_def)
  have al: "unat v mod 4096 = 0" using assms(1) by (simp add: apart_def)
  show "unat (blk v index j) = unat v + 12 + j * class_size index"
    "j * class_size index + 12 + class_size index \<le> 4096" "block2arena (blk v index j) = v"
    using arena2block_unat [OF ok al assms(3)] block2arena_block [OF ok al assms(3)]
    by (simp_all add: arena2block_blk [OF ok])
qed

lemma blk_foot:
  assumes "apart v d" "index < 7" "j < class_count index"
  shows "blk v index j \<notin> {list_head (free_list d), list_tail (free_list d)}"
  using blk_unat(1) [OF assms] apart_facts(4,5) [OF assms(1)] by auto

lemma new_arena_ok:
  assumes room: "room PF_KERNEL 1 i s" and d: "desc_ok index d s" "klist s (free_list d) []"
    and v: "v = page_of (vaddr_start (kernel_vaddr s)) i" and ap: "apart v d"
  shows "\<exists>f s1 t. malloc_page PF_KERNEL 1 s = Inr (v, s1) \<and> new_arena PF_KERNEL d s = Inr (True, t) \<and>
    same_pages s1 t \<and> arena_at t v d index (class_count index) (map (blk v index) [0..<class_count index]) \<and>
    cur_pgdir t = cur_pgdir s \<and> plock (kernel_pool t) = plock (kernel_pool s) \<and>
    \<not> pool_used PF_KERNEL s f \<and> held PF_KERNEL i [f] s1 \<and>
    pool_used PF_KERNEL s1 = (\<lambda>g. pool_used PF_KERNEL s g \<or> g = f) \<and>
    vaddr_start (kernel_vaddr s1) = vaddr_start (kernel_vaddr s) \<and>
    bm_used (vaddr_bitmap (kernel_vaddr s1)) = (\<lambda>j. j = i \<or> bm_used (vaddr_bitmap (kernel_vaddr s)) j)"
proof -
  obtain fs s1 b va c where m: "malloc_page PF_KERNEL 1 s = Inr (v, s1)" "length fs = 1"
      "\<forall>f\<in>set fs. f < pool_cap PF_KERNEL s \<and> \<not> pool_used PF_KERNEL s f" "held PF_KERNEL i fs s1"
      "pool_used PF_KERNEL s1 = (\<lambda>f. pool_used PF_KERNEL s f \<or> f \<in> set fs)"
      "vaddr_start (kernel_vaddr s1) = vaddr_start (kernel_vaddr s)"
      "bm_used (vaddr_bitmap (kernel_vaddr s1)) =
        (\<lambda>j. (i \<le> j \<and> j < i + 1) \<or> bm_used (vaddr_bitmap (kernel_vaddr s)) j)"
      and s1: "s1 = with_bitmap PF_KERNEL b (set_vaddr PF_KERNEL va s\<lparr>cell := c\<rparr>)"
    using malloc_page_ok [OF room] unfolding v by auto
  obtain f where fs: "fs = [f]" using m(2) by (auto simp: length_Suc_conv)
  have "(i \<le> j \<and> j < i + 1) = (j = i)" for j by auto
  with m(7) have vb: "bm_used (vaddr_bitmap (kernel_vaddr s1)) =
      (\<lambda>j. j = i \<or> bm_used (vaddr_bitmap (kernel_vaddr s)) j)" by simp
  have idx: "index < 7" using d(1) by (simp add: desc_ok_def DESC_CNT_def)
  have al: "unat v mod 4096 = 0" "v \<noteq> 0" "unat v + 4096 \<le> 0xffc00000" using ap by (auto simp: apart_def)
  let ?s2 = "mem_zero v PG_SIZE s1"
  let ?s3 = "set_arena v d (bd_per ?s2 d) False ?s2"
  let ?s4 = "snd (intr_disable ?s3)"
  have bd: "bd_size ?s4 d = bd_size s d" "bd_per ?s4 d = bd_per s d" "bd_per ?s2 d = bd_per s d"
    using apart_facts(1) [OF ap]
    by (simp_all add: disable_flag set_arena_def mem_zero_def PG_SIZE_def s1 with_bitmap_def)
  have dd: "ar_desc ?s4 v = d" by (simp add: disable_flag set_arena_def)
  have ok4: "desc_ok index (ar_desc ?s4 v) ?s4"
    using d(1) bd by (simp add: desc_ok_def disable_flag set_arena_def)
  have "prev s1 = prev s" "nxt s1 = nxt s" by (simp_all add: s1 with_bitmap_def)
  then have "klist s1 (free_list d) []" using d(2) klist_field_cong [of s1 s] by blast
  then have "klist ?s2 (free_list d) []"
    using apart_facts(2,3) [OF ap] by (intro klist_zero) (auto simp: foot_def PG_SIZE_def)
  then have k4: "klist ?s4 (free_list (ar_desc ?s4 v)) []"
    using klist_field_cong [of ?s4 ?s2 "free_list d" "[]"] by (simp add: disable_flag set_arena_def)
  have fr: "\<forall>j\<in>set [0..<class_count index]. arena2block v j ?s4 \<notin> foot (free_list (ar_desc ?s4 v)) []"
    using blk_foot [OF ap idx] unfolding arena2block_blk [OF ok4] dd by (simp add: foot_def)
  obtain p n where sp: "split_arena v [0..<class_count index] ?s4 = Inr (?s4\<lparr>prev := p, nxt := n\<rparr>)"
      "klist (?s4\<lparr>prev := p, nxt := n\<rparr>) (free_list d) (map (blk v index) [0..<class_count index])"
    using split_arena_ok [OF ok4 al(1) distinct_upt _ k4 fr] unfolding arena2block_blk [OF ok4] dd by auto
  let ?t = "?s4\<lparr>prev := p, nxt := n, eflags := eflags ?s3\<rparr>"
  have cnt: "unat (bd_per ?s4 d) = class_count index" using desc_unat(2) [OF d(1)] bd(2) by simp
  have "snd (intr_set_status (fst (intr_disable ?s3)) (?s4\<lparr>prev := p, nxt := n\<rparr>)) = ?t"
    by (subst restore_flag) (simp_all add: disable_flag)
  then have "new_arena PF_KERNEL d s = Inr (True, ?t)"
    using m(1) al(2) sp(1) cnt by (simp add: new_arena_def Let_def split_beta)
  moreover have "same_pages s1 ?t"
    using same_pages_zero [of v 4096 s1] al by (simp add: disable_flag set_arena_def PG_SIZE_def)
  moreover have "arena_at ?t v d index (class_count index) (map (blk v index) [0..<class_count index])"
    using sp(2) d(1) bd klist_field_cong [of ?t "?s4\<lparr>prev := p, nxt := n\<rparr>"]
    by (simp add: arena_at_def disable_flag set_arena_def desc_ok_def)
  moreover have "cur_pgdir ?t = cur_pgdir s" "plock (kernel_pool ?t) = plock (kernel_pool s)"
    by (simp_all add: disable_flag set_arena_def mem_zero_def s1 with_bitmap_def)
  ultimately show ?thesis using m fs vb by (intro exI [of _ f] exI [of _ s1] exI [of _ ?t]) simp
qed

lemma release_ok:
  "0 < plock (kernel_pool s) \<Longrightarrow> lock_release_pool PF_KERNEL s =
     Inr (s\<lparr>kernel_pool := (kernel_pool s)\<lparr>plock := plock (kernel_pool s) - 1\<rparr>\<rparr>)"
  by (simp add: lock_release_pool_def)

lemma same_pages_plock [simp]:
  "same_pages s (t\<lparr>kernel_pool := (kernel_pool t)\<lparr>plock := n\<rparr>\<rparr>) = same_pages s t"
  by (simp add: same_pages_def all_pf)

lemma arena_at_plock [simp]:
  "arena_at (t\<lparr>kernel_pool := p\<rparr>) v d index n xs = arena_at t v d index n xs"
  using klist_field_cong [of "t\<lparr>kernel_pool := p\<rparr>" t "free_list d" xs]
  by (simp add: arena_at_def desc_ok_def)

lemma mem_zero_simps [simp]:
  "kernel_pool (mem_zero a n s) = kernel_pool s" "cur_pgdir (mem_zero a n s) = cur_pgdir s"
  "eflags (mem_zero a n s) = eflags s"
  by (simp_all add: mem_zero_def)

lemma take_block_ok:
  assumes ar: "arena_at s v d index (Suc n) (blk v index j # xs)" and ap: "apart v d"
    and j: "j < class_count index"
    and others: "\<forall>x\<in>set xs. \<not> in_range (blk v index j) (class_size index) x"
    and lock: "0 < plock (kernel_pool s)"
  shows "\<exists>t. take_block PF_KERNEL d s = Inr (blk v index j, t) \<and> same_pages s t \<and>
    arena_at t v d index n xs \<and> cur_pgdir t = cur_pgdir s \<and>
    plock (kernel_pool t) = plock (kernel_pool s) - 1"
proof -
  let ?b = "blk v index j" and ?z = "class_size index"
  have ok: "desc_ok index d s" and k: "klist s (free_list d) (?b # xs)" using ar by (simp_all add: arena_at_def)
  have idx: "index < 7" using ok by (simp add: desc_ok_def DESC_CNT_def)
  note bu = blk_unat [OF ap idx j]
  have z: "0 < ?z" "unat (bd_size s d) = ?z" using class_bounds(1) [OF idx] desc_unat(1) [OF ok] by simp_all
  have top: "unat ?b + ?z \<le> 0xffc00000" using bu(1,2) ap by (simp add: apart_def)
  have low: "\<not> in_range ?b ?z x" if "unat x \<le> unat v" for x
    using in_range_unat [of ?b ?z x] top z bu(1) that by simp
  have dv: "unat d \<le> unat v" using ap by (simp add: apart_def)
  obtain p m where rem: "list_remove ?b s = s\<lparr>prev := p, nxt := m\<rparr>" using remove_link by blast
  let ?s1 = "s\<lparr>prev := p, nxt := m\<rparr>"
  have pop: "list_pop (free_list d) s = (?b, ?s1)" "klist ?s1 (free_list d) xs"
    using klist_pop [OF k] by (simp_all add: rem)
  let ?s2 = "mem_zero ?b ?z ?s1"
  let ?s3 = "?s2\<lparr>ar_cnt := (ar_cnt ?s2)(v := ar_cnt ?s2 v - 1)\<rparr>"
  have k2: "klist ?s2 (free_list d) xs"
    using others low [of "list_head (free_list d)"] low [of "list_tail (free_list d)"] apart_facts(4,5) [OF ap]
    by (intro klist_zero pop) (auto simp: foot_def)
  have fields: "ar_desc ?s2 v = d" "ar_cnt ?s2 v = of_nat (Suc n)" "\<not> ar_large ?s2 v"
    "bd_size ?s2 d = bd_size s d" "bd_per ?s2 d = bd_per s d"
    using ar low [of v] low [OF dv] by (simp_all add: arena_at_def mem_zero_def)
  let ?s4 = "?s3\<lparr>kernel_pool := (kernel_pool ?s3)\<lparr>plock := plock (kernel_pool ?s3) - 1\<rparr>\<rparr>"
  have "arena_at ?s3 v d index n xs"
    using fields ok k2 klist_field_cong [of ?s3 ?s2 "free_list d" xs] by (simp add: arena_at_def desc_ok_def)
  then have 1: "arena_at ?s4 v d index n xs" by (subst arena_at_plock)
  have "same_pages s ?s3" using same_pages_zero [of ?b ?z ?s1] top z by (simp add: same_pages_def all_pf)
  then have 2: "same_pages s ?s4" by (subst same_pages_plock)
  have 3: "take_block PF_KERNEL d s = Inr (?b, ?s4)"
    using pop(1) z bu(3) lock by (simp add: take_block_def release_ok Let_def)
  have "cur_pgdir ?s4 = cur_pgdir s" "plock (kernel_pool ?s4) = plock (kernel_pool s) - 1" by simp_all
  with 1 2 3 show ?thesis by blast
qed

lemma free_block_last:
  assumes ar: "arena_at s v d index n xs" and ap: "apart v d" and n: "Suc n = class_count index"
    and j: "j < class_count index" "blk v index j \<notin> set xs"
    and all: "insert (blk v index j) (set xs) = blk v index ` {0..<class_count index}"
    and held: "held PF_KERNEL i [f] s" "v = page_of (vaddr_start (kernel_vaddr s)) i"
  shows "\<exists>t. free_block PF_KERNEL (blk v index j) s = Inr t \<and> klist t (free_list d) [] \<and>
    pool_used PF_KERNEL t = (\<lambda>g. pool_used PF_KERNEL s g \<and> g \<noteq> f) \<and>
    bm_used (vaddr_bitmap (kernel_vaddr t)) = (\<lambda>k. k \<noteq> i \<and> bm_used (vaddr_bitmap (kernel_vaddr s)) k) \<and>
    plock (kernel_pool t) = plock (kernel_pool s)"
proof -
  let ?b = "blk v index j"
  have ok: "desc_ok index d s" and k: "klist s (free_list d) xs" and ds: "ar_desc s v = d"
    using ar by (simp_all add: arena_at_def)
  have idx: "index < 7" using ok by (simp add: desc_ok_def DESC_CNT_def)
  have al: "unat v mod 4096 = 0" using ap by (simp add: apart_def)
  obtain p m where app: "list_append (free_list d) ?b s = s\<lparr>prev := p, nxt := m\<rparr>" using append_link by blast
  let ?s1 = "s\<lparr>prev := p, nxt := m, ar_cnt := (ar_cnt s)(v := ar_cnt s v + 1)\<rparr>"
  have "klist (s\<lparr>prev := p, nxt := m\<rparr>) (free_list d) (xs @ [?b])"
    using klist_append [OF k, of ?b] j(2) blk_foot [OF ap idx j(1)] by (simp add: app foot_def)
  then have k1: "klist ?s1 (free_list (ar_desc ?s1 v)) (xs @ [?b])"
    using klist_field_cong [of ?s1 "s\<lparr>prev := p, nxt := m\<rparr>"] ds by simp
  have ok1: "desc_ok index (ar_desc ?s1 v) ?s1" using ok ds by (simp add: desc_ok_def)
  have below: "\<forall>i\<in>set [0..<class_count index]. i < class_count index" by simp
  have mem: "\<forall>i\<in>set [0..<class_count index]. arena2block v i ?s1 \<in> set (xs @ [?b])"
    unfolding arena2block_blk [OF ok1] using all by auto
  obtain p' m' ys where un: "unlink_arena v [0..<class_count index] ?s1 = Inr (?s1\<lparr>prev := p', nxt := m'\<rparr>)"
      "klist (?s1\<lparr>prev := p', nxt := m'\<rparr>) (free_list d) ys"
      "set ys = set (xs @ [?b]) - (\<lambda>i. blk v index i) ` set [0..<class_count index]"
    using unlink_arena_ok [OF ok1 al distinct_upt below k1 mem] ds unfolding arena2block_blk [OF ok1] by auto
  let ?s2 = "?s1\<lparr>prev := p', nxt := m'\<rparr>"
  have ys: "ys = []" using un(3) all by auto
  have "held PF_KERNEL i [f] ?s2" by (rule held_same [OF held(1)]) simp
  then obtain t b va c where t: "mfree_page PF_KERNEL v 1 ?s2 = Inr t"
      "pool_used PF_KERNEL t = (\<lambda>g. pool_used PF_KERNEL ?s2 g \<and> g \<notin> set [f])"
      "bm_used (vaddr_bitmap (kernel_vaddr t)) =
        (\<lambda>j. \<not> (i \<le> j \<and> j < i + 1) \<and> bm_used (vaddr_bitmap (kernel_vaddr ?s2)) j)"
      "t = set_vaddr PF_KERNEL va (with_bitmap PF_KERNEL b (?s2\<lparr>cell := c\<rparr>))"
    using mfree_page_ok [of PF_KERNEL i "[f]" ?s2] held(2) by auto
  have "klist t (free_list d) []"
    using un(2) ys klist_field_cong [of t ?s2] by (simp add: t(4) with_bitmap_def)
  moreover have "of_nat n + 1 = (of_nat (class_count index) :: u32)" by (simp add: n [symmetric])
  then have "free_block PF_KERNEL ?b s = mfree_page PF_KERNEL v 1 ?s2"
    using blk_unat(3) [OF ap idx j(1)] ar app un(1) ok desc_unat(2) [OF ok]
    by (simp add: free_block_def arena_at_def desc_ok_def Let_def)
  moreover have "(\<lambda>k. \<not> (i \<le> k \<and> k < i + 1) \<and> P k) = (\<lambda>k. k \<noteq> i \<and> P k)" for P :: "nat \<Rightarrow> bool"
    by (auto simp: fun_eq_iff)
  ultimately show ?thesis using t by (auto simp: pool_used_def with_bitmap_def)
qed

section \<open>Allocation and release through a fresh arena\<close>

text \<open>A kernel-thread request of class \<open>index\<close> whose free list is empty, with room for the page
  number \<open>i\<close> of the heap; the descriptors lie below the heap.\<close>

definition fresh_ready :: "u32 \<Rightarrow> nat \<Rightarrow> nat \<Rightarrow> vm \<Rightarrow> bool" where
  "fresh_ready sz index i s \<longleftrightarrow> cur_pgdir s = 0 \<and> 0 < unat sz \<and>
     unat sz < unat (pool_size (kernel_pool s)) \<and>
     index < 7 \<and> unat sz \<le> class_size index \<and> (\<forall>j<index. class_size j < unat sz) \<and>
     (\<forall>j<7. desc_ok j (desc_addr (k_block_descs s) j) s) \<and> room PF_KERNEL 1 i s \<and>
     klist s (free_list (desc_addr (k_block_descs s) index)) [] \<and>
     vaddr_start (kernel_vaddr s) = 0xc0100000 \<and> unat (k_block_descs s) + 168 \<le> 0xc0100000"

lemma fresh_apart:
  assumes "fresh_ready sz index i s"
  shows "apart (page_of 0xc0100000 i) (desc_addr (k_block_descs s) index)"
    and "page_of 0xc0100000 i \<ge> 0xc0100000"
proof -
  let ?v = "page_of 0xc0100000 i"
  have st: "vaddr_start (kernel_vaddr s) = 0xc0100000" and
    "unat (vaddr_start (kernel_vaddr s)) + 4096 * bm_cap (vaddr_bitmap (kernel_vaddr s)) \<le> 2 ^ 32"
    "i < bm_cap (vaddr_bitmap (kernel_vaddr s))"
    using assms unfolding fresh_ready_def room_def Let_def get_vaddr.simps by auto
  then have v: "unat ?v = 0xc0100000 + 4096 * i"
    using unat_page_of [of "0xc0100000" "bm_cap (vaddr_bitmap (kernel_vaddr s))" i] unfolding st by simp
  have "unat ?v + 4096 * 1 \<le> 0xffc00000"
    using assms st by (simp add: fresh_ready_def room_def Let_def unmapped_def)
  moreover have "unat (desc_addr (k_block_descs s) index) = unat (k_block_descs s) + 24 * index"
    using assms by (intro desc_addr_unat) (simp_all add: fresh_ready_def)
  ultimately show "apart ?v (desc_addr (k_block_descs s) index)"
    using assms v by (auto simp: apart_def fresh_ready_def)
  show "?v \<ge> 0xc0100000" using v by (simp add: word_le_nat_alt)
qed

lemma malloc_fresh:
  assumes fr: "fresh_ready sz index i s"
  defines "v \<equiv> page_of 0xc0100000 i" and "d \<equiv> desc_addr (k_block_descs s) index"
  shows "\<exists>f t. sys_malloc sz s = Inr (blk v index 0, t) \<and>
    arena_at t v d index (class_count index - 1) (map (blk v index) [1..<class_count index]) \<and>
    held PF_KERNEL i [f] t \<and> vaddr_start (kernel_vaddr t) = 0xc0100000 \<and> cur_pgdir t = 0 \<and>
    plock (kernel_pool t) = plock (kernel_pool s) \<and> \<not> pool_used PF_KERNEL s f \<and>
    pool_used PF_KERNEL t = (\<lambda>g. pool_used PF_KERNEL s g \<or> g = f) \<and>
    \<not> bm_used (vaddr_bitmap (kernel_vaddr s)) i \<and>
    bm_used (vaddr_bitmap (kernel_vaddr t)) = (\<lambda>j. j = i \<or> bm_used (vaddr_bitmap (kernel_vaddr s)) j)"
proof -
  note r = fr [unfolded fresh_ready_def]
  note ap = fresh_apart(1) [OF fr, folded v_def d_def]
  let ?s0 = "lock_acquire_pool PF_KERNEL s"
  have s0: "room PF_KERNEL 1 i ?s0" using room_same [OF _ same_pages_lock(1)] r by blast
  have f0: "desc_ok index d ?s0" "klist ?s0 (free_list d) []" "kernel_vaddr ?s0 = kernel_vaddr s"
    "pool_used PF_KERNEL ?s0 = pool_used PF_KERNEL s" "plock (kernel_pool ?s0) = plock (kernel_pool s) + 1"
    "cur_pgdir ?s0 = 0" "\<forall>j<7. desc_ok j (desc_addr (k_block_descs s) j) ?s0"
    using r klist_field_cong [of ?s0 s]
    by (simp_all add: lock_acquire_pool_def desc_ok_def d_def pool_used_def)
  obtain f s1 t where na: "new_arena PF_KERNEL d ?s0 = Inr (True, t)" "same_pages s1 t"
      "arena_at t v d index (class_count index) (map (blk v index) [0..<class_count index])"
      "cur_pgdir t = 0" "plock (kernel_pool t) = plock (kernel_pool s) + 1"
      "\<not> pool_used PF_KERNEL s f" "held PF_KERNEL i [f] s1"
      "pool_used PF_KERNEL s1 = (\<lambda>g. pool_used PF_KERNEL s g \<or> g = f)"
      "vaddr_start (kernel_vaddr s1) = vaddr_start (kernel_vaddr s)"
      "bm_used (vaddr_bitmap (kernel_vaddr s1)) = (\<lambda>j. j = i \<or> bm_used (vaddr_bitmap (kernel_vaddr s)) j)"
    using new_arena_ok [OF s0 f0(1,2) _ ap] r f0 by (auto simp: v_def)
  have idx: "index < 7" using r by simp
  let ?n = "class_count index"
  have n: "?n = Suc (?n - 1)" using class_bounds(3) [OF idx] by simp
  have up: "map (blk v index) [0..<?n] = blk v index 0 # map (blk v index) [1..<?n]"
    using class_bounds(3) [OF idx] by (simp add: upt_conv_Cons)
  have "\<not> in_range (blk v index 0) (class_size index) (blk v index j)" if "1 \<le> j" "j < ?n" for j
    using in_range_unat [of "blk v index 0" "class_size index" "blk v index j"] class_bounds [OF idx] that
      blk_unat(1,2) [OF ap idx, of 0] blk_unat(1) [OF ap idx, of j] ap mult_le_mono1 [OF that(1), of "class_size index"]
    by (simp add: apart_def)
  then obtain t' where tb: "take_block PF_KERNEL d t = Inr (blk v index 0, t')" "same_pages t t'"
      "arena_at t' v d index (?n - 1) (map (blk v index) [1..<?n])" "cur_pgdir t' = 0"
      "plock (kernel_pool t') = plock (kernel_pool s)"
    using take_block_ok [of t v d index "?n - 1" 0 "map (blk v index) [1..<?n]"] na(3,4,5) ap up n
      class_bounds(3) [OF idx] by auto
  have sp: "same_pages s1 t'" using na(2) tb(2) by (rule same_pages_trans)
  have "find_desc (k_block_descs s) sz [0..<DESC_CNT] ?s0 = index"
    using find_desc_class [OF f0(7), of index sz 0] r by (simp add: DESC_CNT_def)
  moreover have "\<not> sz > 1024"
    using r class_bounds(2) [OF idx] by (simp add: word_less_nat_alt)
  moreover have "0 < sz" "sz < pool_size (kernel_pool s)" using r by (simp_all add: word_less_nat_alt)
  moreover have "list_empty (free_list d) ?s0" using klist_empty [OF f0(2)] by simp
  ultimately have "sys_malloc sz s = Inr (blk v index 0, t')"
    using r na(1) tb(1) idx by (simp add: sys_malloc_def Let_def d_def DESC_CNT_def)
  moreover have "\<not> bm_used (vaddr_bitmap (kernel_vaddr s)) i"
    using r by (simp add: room_def Let_def)
  ultimately show ?thesis
    using tb na held_same [OF na(7) sp] same_pages_obs(2) [OF sp] same_pages_obs(4) [OF sp, of PF_KERNEL] r
    by (intro exI [of _ f] exI [of _ t']) simp
qed

text \<open>C17: Allocation and release through a fresh arena. When a kernel thread asks for a small block and
  the free list of its class is empty, \<^verbatim>\<open>sys_malloc\<close> returns the first block of a newly mapped
  page, which is at least as large as the request, puts the other blocks of the page on the free
  list in order and releases the pool lock. \<^verbatim>\<open>sys_free\<close> of that block then finds the arena
  completely free, takes all its blocks off the list and gives the page back: the free list is
  empty again, the frame and address bitmaps are as before the call, and the lock is released.\<close>

theorem heap_fresh_roundtrip:
  assumes "fresh_ready sz index i s"
  shows "\<exists>p s1 s2. sys_malloc sz s = Inr (p, s1) \<and> block2arena p = page_of 0xc0100000 i \<and>
    unat sz \<le> unat (bd_size s1 (ar_desc s1 (block2arena p))) \<and>
    klist s1 (free_list (desc_addr (k_block_descs s) index))
      (map (blk (block2arena p) index) [1..<class_count index]) \<and>
    plock (kernel_pool s1) = plock (kernel_pool s) \<and>
    sys_free p s1 = Inr s2 \<and> klist s2 (free_list (desc_addr (k_block_descs s) index)) [] \<and>
    pool_used PF_KERNEL s2 = pool_used PF_KERNEL s \<and>
    bm_used (vaddr_bitmap (kernel_vaddr s2)) = bm_used (vaddr_bitmap (kernel_vaddr s)) \<and>
    plock (kernel_pool s2) = plock (kernel_pool s)"
proof -
  define v d where "v = page_of 0xc0100000 i" and "d = desc_addr (k_block_descs s) index"
  note ap = fresh_apart(1) [OF assms, folded v_def d_def]
  have idx: "index < 7" and szc: "unat sz \<le> class_size index" using assms by (simp_all add: fresh_ready_def)
  let ?n = "class_count index" and ?p = "blk v index 0"
  have n0: "3 \<le> ?n" using class_bounds(3) [OF idx] .
  obtain f t where m: "sys_malloc sz s = Inr (?p, t)"
    "arena_at t v d index (?n - 1) (map (blk v index) [1..<?n])" "held PF_KERNEL i [f] t"
    "vaddr_start (kernel_vaddr t) = 0xc0100000" "cur_pgdir t = 0" "plock (kernel_pool t) = plock (kernel_pool s)"
    "\<not> pool_used PF_KERNEL s f" "pool_used PF_KERNEL t = (\<lambda>g. pool_used PF_KERNEL s g \<or> g = f)"
    "\<not> bm_used (vaddr_bitmap (kernel_vaddr s)) i"
    "bm_used (vaddr_bitmap (kernel_vaddr t)) = (\<lambda>j. j = i \<or> bm_used (vaddr_bitmap (kernel_vaddr s)) j)"
    using malloc_fresh [OF assms] unfolding v_def d_def by blast
  have pa: "block2arena ?p = v" "unat ?p = unat v + 12" using blk_unat [OF ap idx, of 0] n0 by simp_all
  let ?t0 = "lock_acquire_pool PF_KERNEL t"
  have t0: "?t0 = t\<lparr>kernel_pool := (kernel_pool t)\<lparr>plock := plock (kernel_pool t) + 1\<rparr>\<rparr>"
    by (simp add: lock_acquire_pool_def)
  have fresh: "?p \<notin> set (map (blk v index) [1..<?n])"
  proof
    assume "?p \<in> set (map (blk v index) [1..<?n])"
    then obtain j where j: "1 \<le> j" "j < ?n" "blk v index 0 = blk v index j" by auto
    then have "0 = j * class_size index"
      using blk_unat(1) [OF ap idx, of j] blk_unat(1) [OF ap idx, of 0] by simp
    then show False using j(1) class_bounds(1) [OF idx] by simp
  qed
  have all: "insert ?p (set (map (blk v index) [1..<?n])) = blk v index ` {0..<?n}"
  proof -
    have "{0..<?n} = insert 0 {1..<?n}" using n0 by auto
    then show ?thesis by simp
  qed
  obtain u where fb: "free_block PF_KERNEL ?p ?t0 = Inr u" "klist u (free_list d) []"
      "pool_used PF_KERNEL u = (\<lambda>g. pool_used PF_KERNEL ?t0 g \<and> g \<noteq> f)"
      "bm_used (vaddr_bitmap (kernel_vaddr u)) = (\<lambda>k. k \<noteq> i \<and> bm_used (vaddr_bitmap (kernel_vaddr ?t0)) k)"
      "plock (kernel_pool u) = plock (kernel_pool t) + 1"
    using free_block_last [of ?t0 v d index "?n - 1" "map (blk v index) [1..<?n]" 0 i f] m(2,4) n0 ap fresh all
      held_same [OF m(3) same_pages_lock(1) [of t PF_KERNEL]] by (auto simp: t0 v_def)
  let ?u = "u\<lparr>kernel_pool := (kernel_pool u)\<lparr>plock := plock (kernel_pool u) - 1\<rparr>\<rparr>"
  have "?p \<ge> 0xc0100000" using fresh_apart(2) [OF assms] pa(2) by (simp add: v_def word_le_nat_alt)
  moreover have "?p \<noteq> 0" using pa(2) by (auto simp: word_unat_eq_iff)
  moreover have "ar_desc t v = d" "\<not> ar_large t v" using m(2) by (simp_all add: arena_at_def)
  ultimately have "sys_free ?p t = Inr ?u"
    using m(5) fb(1,5) pa(1) t0 by (simp add: sys_free_def release_ok)
  moreover have "klist ?u (free_list d) []" using fb(2) klist_field_cong [of ?u u] by simp
  moreover have "pool_used PF_KERNEL ?u = pool_used PF_KERNEL s"
    using fb(3) m(7,8) same_pages_obs(2) [OF same_pages_lock(1) [of t PF_KERNEL], of PF_KERNEL]
    by (auto simp: pool_used_def fun_eq_iff)
  moreover have "bm_used (vaddr_bitmap (kernel_vaddr ?u)) = bm_used (vaddr_bitmap (kernel_vaddr s))"
    using fb(4) m(9,10) by (auto simp: t0 fun_eq_iff)
  moreover have "plock (kernel_pool ?u) = plock (kernel_pool s)" using fb(5) m(6) by simp
  moreover have "unat sz \<le> unat (bd_size t (ar_desc t v))"
    using m(2) szc desc_unat(1) [of index d t] by (simp add: arena_at_def)
  ultimately show ?thesis
    using m(1,2,6) pa(1) unfolding v_def [symmetric] d_def [symmetric]
    by (intro exI [of _ ?p] exI [of _ t] exI [of _ ?u]) (simp add: arena_at_def)
qed

definition heap_demo :: vm where
  "heap_demo = block_desc_init 0xc0007000 demo_vm"

lemma block_desc_loop_frame:
  "same_pages s (block_desc_loop descs is sz s) \<and> cur_pgdir (block_desc_loop descs is sz s) = cur_pgdir s \<and>
   k_block_descs (block_desc_loop descs is sz s) = k_block_descs s \<and>
   kernel_pool (block_desc_loop descs is sz s) = kernel_pool s"
proof (induction descs "is" sz s rule: block_desc_loop.induct)
  case (1 descs sz s)
  then show ?case by simp
next
  case (2 descs index "is" sz s)
  let ?d = "desc_addr descs index"
  let ?s1 = "list_init (free_list ?d) (s\<lparr>bd_size := (bd_size s)(?d := ucast sz),
    bd_per := (bd_per s)(?d := of_nat ((PG_SIZE - ARENA_SIZE) div unat sz))\<rparr>)"
  have "same_pages s ?s1" "cur_pgdir ?s1 = cur_pgdir s" "k_block_descs ?s1 = k_block_descs s"
    "kernel_pool ?s1 = kernel_pool s"
    by (simp_all add: list_init_def Let_def same_pages_def all_pf)
  then show ?case using 2 [OF refl refl refl refl] same_pages_trans by (auto simp: Let_def)
qed

lemma room_shrink:
  "room pf n i s \<Longrightarrow> 0 < m \<Longrightarrow> m \<le> n \<Longrightarrow> bitmap_scan (vaddr_bitmap (get_vaddr pf s)) (of_nat m) = Inr (int i) \<Longrightarrow>
     room pf m i s"
  unfolding room_def Let_def unmapped_def by auto

lemma heap_demo_ready: "fresh_ready 100 3 1 heap_demo"
proof -
  note fr = block_desc_loop_frame [of demo_vm "0xc0007000" "[0..<DESC_CNT]" 16,
      folded block_desc_init_def, folded heap_demo_def]
  have "bitmap_scan \<lparr>btmp_bytes_len = 1, bits = [1]\<rparr> 1 = Inr 1" by code_simp
  then have "room PF_KERNEL 1 1 demo_vm"
    by (intro room_shrink [OF demo_room]) (simp_all add: demo_vm_def)
  then have room: "room PF_KERNEL 1 1 heap_demo" using fr room_same by blast
  have "\<forall>j<7. desc_ready 0xc0007000 j heap_demo"
    using block_desc_loop_ready [of "0xc0007000" 0 demo_vm]
    by (simp add: heap_demo_def block_desc_init_def DESC_CNT_def class_size_def)
  then have d: "\<forall>j<7. desc_ok j (desc_addr 0xc0007000 j) heap_demo"
    "klist heap_demo (free_list (desc_addr 0xc0007000 3)) []" by (simp_all add: desc_ready_def)
  have "kernel_vaddr heap_demo = kernel_vaddr demo_vm"
    using fr same_pages_obs(4) [of demo_vm heap_demo PF_KERNEL] by simp
  then have base: "k_block_descs heap_demo = 0xc0007000" "cur_pgdir heap_demo = 0"
    "unat (pool_size (kernel_pool heap_demo)) = 0x8000" "vaddr_start (kernel_vaddr heap_demo) = 0xc0100000"
    using fr by (simp_all add: demo_vm_def)
  have "class_size j < 100" if "j < 3" for j
  proof -
    have "j = 0 \<or> j = 1 \<or> j = 2" using that by linarith
    then show ?thesis by (auto simp: class_size_def)
  qed
  then show ?thesis using room d base by (simp add: fresh_ready_def class_size_def)
qed

theorem heap_fresh_roundtrip_witness:
  "\<exists>p s1 s2. sys_malloc 100 heap_demo = Inr (p, s1) \<and> block2arena p = 0xc0101000 \<and>
     sys_free p s1 = Inr s2 \<and> pool_used PF_KERNEL s2 = pool_used PF_KERNEL heap_demo"
  using heap_fresh_roundtrip [OF heap_demo_ready] by auto

end
