(* ===== verification/Descriptors.thy ===== *)
theory Descriptors
  imports Prelude
begin

text \<open>
  Descriptor tables of the 32-bit kernel: the interrupt descriptor table, handler table and
  exception names of \<^verbatim>\<open>kernel/interrupt.c\<close>, and the task state segment and segment descriptors of
  \<^verbatim>\<open>proc/tss.c\<close> and \<^verbatim>\<open>include/kernel/global.h\<close>.
\<close>

section \<open>Constants of global.h\<close>

definition SELECTOR_K_CODE :: u16 where "SELECTOR_K_CODE = push_bit 3 1 + push_bit 2 0 + 0"
definition SELECTOR_K_STACK :: u32 where "SELECTOR_K_STACK = push_bit 3 2 + push_bit 2 0 + 0"
definition IDT_DESC_ATTR_DPL0 :: u8 where "IDT_DESC_ATTR_DPL0 = push_bit 7 1 + push_bit 5 0 + 0xE"
definition IDT_DESC_ATTR_DPL3 :: u8 where "IDT_DESC_ATTR_DPL3 = push_bit 7 1 + push_bit 5 3 + 0xE"
definition GDT_ATTR_HIGH :: u8 where "GDT_ATTR_HIGH = push_bit 7 1 + push_bit 6 1 + push_bit 5 0 + push_bit 4 0"
definition GDT_CODE_ATTR_LOW_DPL3 :: u8 where
  "GDT_CODE_ATTR_LOW_DPL3 = push_bit 7 1 + push_bit 5 3 + push_bit 4 1 + 8"
definition GDT_DATA_ATTR_LOW_DPL3 :: u8 where
  "GDT_DATA_ATTR_LOW_DPL3 = push_bit 7 1 + push_bit 5 3 + push_bit 4 1 + 2"
definition TSS_ATTR_HIGH :: u8 where "TSS_ATTR_HIGH = push_bit 7 1 + push_bit 6 0 + push_bit 5 0 + push_bit 4 0 + 0"
definition TSS_ATTR_LOW :: u8 where "TSS_ATTR_LOW = push_bit 7 1 + push_bit 5 0 + push_bit 4 0 + 9"

section \<open>Interrupt descriptors\<close>

record gate_desc =
  func_offset_low_word :: u16
  selector :: u16
  dcount :: u8
  attribute :: u8
  func_offset_high_word :: u16

definition IDT_DESC_CNT :: nat where "IDT_DESC_CNT = 0x81"

definition make_idt_desc :: "u8 \<Rightarrow> u32 \<Rightarrow> gate_desc" where
  "make_idt_desc attr function =
     \<lparr>func_offset_low_word = ucast (function AND 0x0000FFFF),
      selector = SELECTOR_K_CODE,
      dcount = 0,
      attribute = attr,
      func_offset_high_word = ucast (drop_bit 16 (function AND 0xFFFF0000))\<rparr>"

text \<open>Handlers are named by their addresses; \<open>entry\<close> stands for the assembly table
  \<^verbatim>\<open>intr_entry_table\<close>, \<open>syscall_handler\<close> for the assembly system call entry.\<close>

record idt_state =
  idt32 :: "gate_desc list"
  intr_name :: "string list"
  idt_table :: "u32 list"
  ports32 :: "(u16 \<times> u8) list"
  idt_operand :: u64

definition outb32 :: "u16 \<Rightarrow> u8 \<Rightarrow> idt_state \<Rightarrow> idt_state" where
  "outb32 port data s = s\<lparr>ports32 := ports32 s @ [(port, data)]\<rparr>"

definition pic_init32 :: "idt_state \<Rightarrow> idt_state" where
  "pic_init32 s = foldl (\<lambda>s (p, v). outb32 p v s) s
     [(0x20, 0x11), (0x21, 0x20), (0x21, 0x04), (0x21, 0x01),
      (0xa0, 0x11), (0xa1, 0x28), (0xa1, 0x02), (0xa1, 0x01),
      (0x21, 0xf8), (0xa1, 0xbf)]"

definition idt_desc_init :: "(nat \<Rightarrow> u32) \<Rightarrow> u32 \<Rightarrow> idt_state \<Rightarrow> idt_state" where
  "idt_desc_init entry syscall_handler s =
     (let idt = map (\<lambda>i. make_idt_desc IDT_DESC_ATTR_DPL0 (entry i)) [0..<IDT_DESC_CNT];
          lastindex = IDT_DESC_CNT - 1
      in s\<lparr>idt32 := idt[lastindex := make_idt_desc IDT_DESC_ATTR_DPL3 syscall_handler]\<rparr>)"

definition exception_names :: "(nat \<times> string) list" where
  "exception_names =
     [(0, ''#DE Divide Error''), (1, ''#DB Debug Exception''), (2, ''NMI Interrupt''),
      (3, ''#BP Breakpoint Exception''), (4, ''#OF overflow Exception''),
      (5, ''#BR BOUND Range Exceeded Exception''), (6, ''#UD Invalid Opcode Exception''),
      (7, ''#NM Device Not Availible Exception''), (8, ''#DF Double Fault Exception''),
      (9, ''Coprocessor Segment Overrun''), (10, ''#TS Invalid TSS Exception ''),
      (11, ''#NP Segment Not Present''), (12, ''#SS Stack Fault Exception''),
      (13, ''#GP General Protection Exception''), (14, ''#PF Page-Fault Exception''),
      (16, ''#MF x87 FPU Floationg-Point Error''), (17, ''#AC Alignment Check Exception''),
      (18, ''#MC Machine-Check Exception''), (19, ''#XF SIMD Floating-Point Exception'')]"

definition exception_init :: "u32 \<Rightarrow> idt_state \<Rightarrow> idt_state" where
  "exception_init general_intr_handler s =
     s\<lparr>idt_table := replicate IDT_DESC_CNT general_intr_handler,
       intr_name := foldl (\<lambda>ns (i, n). ns[i := n]) (replicate IDT_DESC_CNT ''unknown'') exception_names\<rparr>"

text \<open>\<^verbatim>\<open>register_handler\<close> checks no bound, while the table has 0x81 entries.\<close>

definition register_handler :: "u8 \<Rightarrow> u32 \<Rightarrow> idt_state \<Rightarrow> idt_state result" where
  "register_handler vector_no function s =
     (if unat vector_no < length (idt_table s)
      then Inr (s\<lparr>idt_table := (idt_table s)[unat vector_no := function]\<rparr>) else Inl Out_of_bounds)"

definition idt_init :: "(nat \<Rightarrow> u32) \<Rightarrow> u32 \<Rightarrow> u32 \<Rightarrow> u32 \<Rightarrow> idt_state \<Rightarrow> idt_state" where
  "idt_init entry syscall_handler general_intr_handler idt_addr s =
     (let s = pic_init32 (exception_init general_intr_handler (idt_desc_init entry syscall_handler s))
      in s\<lparr>idt_operand := of_nat (8 * IDT_DESC_CNT - 1) OR push_bit 16 (ucast idt_addr)\<rparr>)"

text \<open>What the default handler shows before it spins; a spurious interrupt returns at once.\<close>

datatype display = Set_cursor nat | Put_char char | Put_str string | Put_int u32

definition general_intr_handler :: "u8 \<Rightarrow> u32 \<Rightarrow> idt_state \<Rightarrow> display list \<times> unit result" where
  "general_intr_handler vec_nr cr2 s =
     (if vec_nr = 0x27 \<or> vec_nr = 0x2f then ([], Inr ())
      else if unat vec_nr \<ge> length (intr_name s) then ([], Inl Out_of_bounds)
      else ([Set_cursor 0] @ replicate 320 (Put_char (CHR '' '')) @ [Set_cursor 0] @
            [Put_str (''!!!!!!!!          excetion message begin         !!!!!!!!'' @ [CHR 0x0A]),
             Set_cursor 88, Put_str (intr_name s ! unat vec_nr)] @
            (if vec_nr = 14
             then [Put_str ([CHR 0x0A] @ ''        page fault address is ''), Put_int cr2] else []) @
            [Put_str ([CHR 0x0A] @ ''!!!!!!!!         exccetion message end            !!!!!!!'' @ [CHR 0x0A])],
            Inl Diverges))"

section \<open>Segment descriptors and the task state segment\<close>

record gdt_desc =
  limit_low_word :: u16
  base_low_word :: u16
  base_mid_byte :: u8
  attr_low_byte :: u8
  limit_high_attr_high :: u8
  base_high_byte :: u8

definition make_gdt_desc :: "u32 \<Rightarrow> u32 \<Rightarrow> u8 \<Rightarrow> u8 \<Rightarrow> gdt_desc" where
  "make_gdt_desc desc_addr limit attr_low attr_high =
     (let desc_base = desc_addr in
      \<lparr>limit_low_word = ucast (limit AND 0x0000ffff),
       base_low_word = ucast (desc_base AND 0x0000ffff),
       base_mid_byte = ucast (drop_bit 16 (desc_base AND 0x00ff0000)),
       attr_low_byte = attr_low,
       limit_high_attr_high = ucast (drop_bit 16 (limit AND 0x000f0000) + ucast attr_high),
       base_high_byte = ucast (drop_bit 24 desc_base)\<rparr>)"

record tss =
  backlink :: u32
  esp0 :: u32
  ss0 :: u32
  esp1 :: u32
  ss1 :: u32
  esp2 :: u32
  ss2 :: u32
  esp3 :: u32
  ss3 :: u32
  cr3 :: u32
  tss_eip :: u32
  tss_eflags :: u32
  tss_gprs :: "u32 list"
  tss_segs :: "u32 list"
  ldt :: u32
  trace :: u32
  io_base :: u32

text \<open>The segment in memory, one word per field in declaration order: \<open>tss_gprs\<close> is
  \<^verbatim>\<open>eax\<close> to \<^verbatim>\<open>edi\<close>, \<open>tss_segs\<close> is \<^verbatim>\<open>es\<close> to \<^verbatim>\<open>gs\<close>.\<close>

definition tss_words :: "tss \<Rightarrow> u32 list" where
  "tss_words t = [backlink t, esp0 t, ss0 t, esp1 t, ss1 t, esp2 t, ss2 t, esp3 t, ss3 t, cr3 t,
     tss_eip t, tss_eflags t] @ tss_gprs t @ tss_segs t @ [ldt t, trace t, io_base t]"

definition tss_zero :: tss where
  "tss_zero = \<lparr>backlink = 0, esp0 = 0, ss0 = 0, esp1 = 0, ss1 = 0, esp2 = 0, ss2 = 0, esp3 = 0,
     ss3 = 0, cr3 = 0, tss_eip = 0, tss_eflags = 0, tss_gprs = replicate 8 0,
     tss_segs = replicate 6 0, ldt = 0, trace = 0, io_base = 0\<rparr>"

definition tss_size :: u32 where
  "tss_size = of_nat (4 * length (tss_words tss_zero))"

record tss_state =
  the_tss :: tss
  gdt :: "u32 \<Rightarrow> gdt_desc option"
  gdt_operand :: u64
  task_register :: u16

definition update_tss_esp :: "u32 \<Rightarrow> tss_state \<Rightarrow> tss_state" where
  "update_tss_esp pthread s = s\<lparr>the_tss := (the_tss s)\<lparr>esp0 := pthread + 4096\<rparr>\<rparr>"

definition tss_init :: "u32 \<Rightarrow> tss_state \<Rightarrow> tss_state" where
  "tss_init tss_addr s =
     s\<lparr>the_tss := tss_zero\<lparr>ss0 := SELECTOR_K_STACK, io_base := tss_size\<rparr>,
       gdt := (gdt s)
         (0xc0000920 \<mapsto> make_gdt_desc tss_addr (tss_size - 1) TSS_ATTR_LOW TSS_ATTR_HIGH,
          0xc0000928 \<mapsto> make_gdt_desc 0 0xfffff GDT_CODE_ATTR_LOW_DPL3 GDT_ATTR_HIGH,
          0xc0000930 \<mapsto> make_gdt_desc 0 0xfffff GDT_DATA_ATTR_LOW_DPL3 GDT_ATTR_HIGH),
       gdt_operand := 55 OR push_bit 16 (ucast (0xc0000900 :: u32)),
       task_register := push_bit 3 4\<rparr>"

section \<open>How the processor reads them\<close>

definition idt_offset :: "gate_desc \<Rightarrow> u32" where
  "idt_offset g = ucast (func_offset_low_word g) OR push_bit 16 (ucast (func_offset_high_word g))"

definition seg_base :: "gdt_desc \<Rightarrow> u32" where
  "seg_base d = ucast (base_low_word d) OR push_bit 16 (ucast (base_mid_byte d)) OR
     push_bit 24 (ucast (base_high_byte d))"

definition seg_limit :: "gdt_desc \<Rightarrow> u32" where
  "seg_limit d =
     (let l = ucast (limit_low_word d) OR push_bit 16 (ucast (limit_high_attr_high d AND 0xf))
      in if bit (limit_high_attr_high d) 7 then push_bit 12 l OR 0xfff else l)"

definition seg_dpl :: "gdt_desc \<Rightarrow> nat" where
  "seg_dpl d = unat (drop_bit 5 (attr_low_byte d) AND 3)"

lemma mask_lits:
  "(0x0000FFFF :: u32) = mask 16" "(0xFFFF0000 :: u32) = push_bit 16 (mask 16)"
  "(0x00ff0000 :: u32) = push_bit 16 (mask 8)" "(0x000f0000 :: u32) = push_bit 16 (mask 4)"
  by (simp_all add: mask_eq_exp_minus_1)

lemma idt_offset_make: "idt_offset (make_idt_desc attr f) = f"
proof (rule bit_word_eqI)
  fix n assume "n < LENGTH(32)"
  then consider "n < 16" | "16 \<le> n" "n < 32" by fastforce
  then show "bit (idt_offset (make_idt_desc attr f)) n = bit f n"
    unfolding idt_offset_def make_idt_desc_def mask_lits by cases (auto simp: bit_simps)
qed

lemma seg_base_make: "seg_base (make_gdt_desc a l lo hi) = a"
proof (rule bit_word_eqI)
  fix n assume "n < LENGTH(32)"
  then consider "n < 16" | "16 \<le> n" "n < 24" | "24 \<le> n" "n < 32" by fastforce
  then show "bit (seg_base (make_gdt_desc a l lo hi)) n = bit a n"
    unfolding seg_base_def make_gdt_desc_def Let_def mask_lits by cases (auto simp: bit_simps)
qed

text \<open>After \<^verbatim>\<open>idt_init\<close> the gates below 0x80 lead to the assembly entry of their own vector and are
  closed to user mode, gate 0x80 leads to the system call entry and is the only one open to
  user mode, and every vector has the default handler and a name.\<close>

theorem idt_init_gates:
  "(\<forall>v<0x80. idt_offset (idt32 (idt_init entry sys gen addr s) ! v) = entry v \<and>
       attribute (idt32 (idt_init entry sys gen addr s) ! v) = 0x8e) \<and>
   idt_offset (idt32 (idt_init entry sys gen addr s) ! 0x80) = sys \<and>
   attribute (idt32 (idt_init entry sys gen addr s) ! 0x80) = 0xee \<and>
   length (idt32 (idt_init entry sys gen addr s)) = 0x81 \<and>
   idt_table (idt_init entry sys gen addr s) = replicate 0x81 gen \<and>
   length (intr_name (idt_init entry sys gen addr s)) = 0x81"
proof -
  let ?s = "idt_init entry sys gen addr s"
  have idt: "idt32 ?s = (map (\<lambda>i. make_idt_desc IDT_DESC_ATTR_DPL0 (entry i)) [0..<129])
      [128 := make_idt_desc IDT_DESC_ATTR_DPL3 sys]"
    by (simp add: idt_init_def pic_init32_def outb32_def exception_init_def idt_desc_init_def
        IDT_DESC_CNT_def Let_def)
  have attr: "attribute (make_idt_desc a f) = a" for a f by (simp add: make_idt_desc_def)
  have names: "length (foldl (\<lambda>ns (i, n). ns[i := n]) ns xs) = length ns"
    for ns :: "string list" and xs
    by (induction xs arbitrary: ns) auto
  have "idt_table ?s = replicate 0x81 gen" "length (intr_name ?s) = 0x81"
    using names
    by (simp_all add: idt_init_def pic_init32_def outb32_def exception_init_def idt_desc_init_def
        IDT_DESC_CNT_def Let_def)
  then show ?thesis
    by (simp add: idt attr idt_offset_make IDT_DESC_ATTR_DPL0_def IDT_DESC_ATTR_DPL3_def
        del: upt_Suc upt_rec_numeral)
qed

definition idt_blank :: idt_state where
  "idt_blank = \<lparr>idt32 = [], intr_name = [], idt_table = [], ports32 = [], idt_operand = 0\<rparr>"

theorem idt_init_gates_witness:
  "idt_offset (idt32 (idt_init (\<lambda>v. 0xc0001000 + of_nat v) 0xc0002000 0xc0003000 0xc0004000 idt_blank) ! 0x20) =
     0xc0001020"
  using idt_init_gates [of "\<lambda>v. 0xc0001000 + of_nat v" "0xc0002000" "0xc0003000" "0xc0004000" idt_blank]
  by simp

text \<open>\<^verbatim>\<open>tss_init\<close> leaves in the descriptor table a task state segment based at the address of
  \<^verbatim>\<open>tss\<close>, and user code and data segments of base 0 that cover the whole 32-bit address space
  with privilege level 3; a later \<^verbatim>\<open>update_tss_esp\<close> makes the ring 0 stack start at the top of
  the page of the thread.\<close>

theorem tss_init_segments:
  "\<exists>t c d. gdt (tss_init addr s) 0xc0000920 = Some t \<and> seg_base t = addr \<and> seg_dpl t = 0 \<and>
     gdt (tss_init addr s) 0xc0000928 = Some c \<and> gdt (tss_init addr s) 0xc0000930 = Some d \<and>
     seg_base c = 0 \<and> seg_limit c = 0xffffffff \<and> seg_dpl c = 3 \<and>
     seg_base d = 0 \<and> seg_limit d = 0xffffffff \<and> seg_dpl d = 3 \<and>
     esp0 (the_tss (update_tss_esp pcb (tss_init addr s))) = pcb + 4096 \<and>
     ss0 (the_tss (update_tss_esp pcb (tss_init addr s))) = 16"
proof -
  have lim: "seg_limit (make_gdt_desc 0 0xfffff lo GDT_ATTR_HIGH) = 0xffffffff" for lo
    by (simp add: seg_limit_def make_gdt_desc_def GDT_ATTR_HIGH_def Let_def)
  have dpl: "seg_dpl (make_gdt_desc a l lo hi) = unat (drop_bit 5 lo AND 3)" for a l lo hi
    by (simp add: seg_dpl_def make_gdt_desc_def)
  show ?thesis
    by (simp add: tss_init_def update_tss_esp_def seg_base_make lim dpl TSS_ATTR_LOW_def
        GDT_CODE_ATTR_LOW_DPL3_def GDT_DATA_ATTR_LOW_DPL3_def SELECTOR_K_STACK_def)
qed

text \<open>\<^verbatim>\<open>tss_init\<close> stores the size of the structure in \<^verbatim>\<open>io_base\<close> to say that there is no I/O
  permission map, but the structure has two fields, \<^verbatim>\<open>esp3\<close> and \<^verbatim>\<open>ss3\<close>, that the segment format
  does not have: the processor takes the map base from the upper half of the word at offset
  100, which is the field \<^verbatim>\<open>gs\<close> and holds 0, well inside the segment limit.\<close>

theorem tss_io_map_base:
  "tss_words (the_tss (tss_init addr s)) ! 28 = tss_size \<and>
   drop_bit 16 (tss_words (the_tss (tss_init addr s)) ! (100 div 4)) = 0 \<and>
   (\<exists>t. gdt (tss_init addr s) 0xc0000920 = Some t \<and> 0 < seg_limit t)"
  by (simp add: tss_init_def tss_words_def tss_zero_def seg_limit_def make_gdt_desc_def
      TSS_ATTR_HIGH_def tss_size_def Let_def nth_append)

end
