(* ===== verification/Sched.thy ===== *)
theory Sched
  imports Heap Descriptors
begin

text \<open>
  The scheduler of \<^verbatim>\<open>sched/thread.c\<close>: \<^verbatim>\<open>schedule\<close>, \<^verbatim>\<open>thread_yield\<close>, \<^verbatim>\<open>thread_block\<close> and
  \<^verbatim>\<open>thread_unblock\<close>, with \<^verbatim>\<open>process_activate\<close> of \<^verbatim>\<open>proc/process.c\<close> and the tick handler of
  \<^verbatim>\<open>drivers/timer.c\<close>.

  Process control blocks are page aligned, so \<^verbatim>\<open>running_thread\<close> finds the current one by masking the
  stack pointer and \<^verbatim>\<open>schedule\<close> finds the next one by masking the address of its list node.
  \<open>task\<close> maps the address of a control block to its contents; the two list nodes in the block
  are nodes of the list store of \<open>mm\<close>, at the offsets 68 and 76 of the structure. The fields
  \<open>cur_pgdir\<close>, \<open>cur_vaddr\<close> and \<open>cur_descs\<close> of \<open>mm\<close> are those of the running thread and change
  with it.

  \<^verbatim>\<open>switch_to\<close> does not return to its caller but to the point where the next thread gave up the
  processor. The operations that end in it therefore stop there, and what the thread does when
  it runs again is an operation of its own (\<open>thread_resume\<close>); the local variable \<^verbatim>\<open>old_status\<close>,
  which waits on the stack of the thread meanwhile, is \<open>blk_old\<close>.
\<close>

section \<open>State\<close>

datatype task_status =
  TASK_RUNNING | TASK_READY | TASK_BLOCKED | TASK_WAITING | TASK_HANGING | TASK_DIED

record task_struct =
  self_kstack :: u32
  pid :: "16 word"
  status :: task_status
  name :: "char list"
  priority :: u8
  ticks :: u8
  elapsed_ticks :: u32
  fd_table :: "u32 list"
  pgdir :: u32
  userprog_vaddr :: virtual_addr
  cwd_inode_nr :: u32
  parent_pid :: "16 word"
  stack_magic :: u32

record ksched =
  mm :: vm
  esp :: u32
  cr3_reg :: u32
  tss_st :: tss_state
  task :: "u32 \<Rightarrow> task_struct"
  thread_ready_list :: u32
  thread_all_list :: u32
  main_thread :: u32
  idle_thread :: u32
  all_ticks :: u32
  blk_old :: "u32 \<Rightarrow> intr_status"

definition general_tag :: "u32 \<Rightarrow> u32" where
  "general_tag p = p + 68"

definition all_list_tag :: "u32 \<Rightarrow> u32" where
  "all_list_tag p = p + 76"

definition u_block_desc :: "u32 \<Rightarrow> u32" where
  "u_block_desc p = p + 100"

definition running_thread :: "'a ksched_scheme \<Rightarrow> u32" where
  "running_thread s = esp s AND 0xfffff000"

definition set_task :: "u32 \<Rightarrow> (task_struct \<Rightarrow> task_struct) \<Rightarrow> 'a ksched_scheme \<Rightarrow> 'a ksched_scheme" where
  "set_task p f s = s\<lparr>task := (task s)(p := f (task s p))\<rparr>"

definition on_mm :: "(vm \<Rightarrow> vm) \<Rightarrow> 'a ksched_scheme \<Rightarrow> 'a ksched_scheme" where
  "on_mm f s = s\<lparr>mm := f (mm s)\<rparr>"

text \<open>\<^verbatim>\<open>ASSERT(!elem_find(l, e))\<close>.\<close>

definition not_in :: "u32 \<Rightarrow> u32 \<Rightarrow> 'a ksched_scheme \<Rightarrow> 'b result \<Rightarrow> 'b result" where
  "not_in l e s k =
     (case elem_find l e (mm s) of None \<Rightarrow> Inl Diverges | Some found \<Rightarrow> assertE (\<not> found) k)"

section \<open>Operations\<close>

definition page_dir_activate :: "u32 \<Rightarrow> 'a ksched_scheme \<Rightarrow> 'a ksched_scheme" where
  "page_dir_activate p s =
     s\<lparr>cr3_reg := if pgdir (task s p) \<noteq> 0 then addr_v2p (pgdir (task s p)) (mm s) else 0x100000\<rparr>"

definition process_activate :: "u32 \<Rightarrow> 'a ksched_scheme \<Rightarrow> 'a ksched_scheme result" where
  "process_activate p s =
     assertE (p \<noteq> 0)
       (let s = page_dir_activate p s in
        Inr (if pgdir (task s p) \<noteq> 0 then s\<lparr>tss_st := update_tss_esp p (tss_st s)\<rparr> else s))"

text \<open>\<^verbatim>\<open>arch/x86/switch.asm\<close>: the stack pointer is stored in the first word of the current control
  block and loaded from that of the next; \<open>esp\<close> stands for its value after the four pushes.\<close>

definition switch_to :: "u32 \<Rightarrow> u32 \<Rightarrow> 'a ksched_scheme \<Rightarrow> 'a ksched_scheme" where
  "switch_to cur nx s =
     (let s = set_task cur (\<lambda>t. t\<lparr>self_kstack := esp s, userprog_vaddr := cur_vaddr (mm s)\<rparr>) s;
          t = task s nx
      in s\<lparr>esp := self_kstack t,
           mm := (mm s)\<lparr>cur_pgdir := pgdir t, cur_vaddr := userprog_vaddr t, cur_descs := u_block_desc nx\<rparr>\<rparr>)"

definition thread_unblock :: "u32 \<Rightarrow> 'a ksched_scheme \<Rightarrow> 'a ksched_scheme result" where
  "thread_unblock p s =
     (let (old_status, m) = intr_disable (mm s); s = s\<lparr>mm := m\<rparr> in
      assertE (status (task s p) = TASK_BLOCKED \<or> status (task s p) = TASK_WAITING \<or>
               status (task s p) = TASK_HANGING)
        (bindE
          (if status (task s p) \<noteq> TASK_READY
           then not_in (thread_ready_list s) (general_tag p) s
                  (Inr (set_task p (\<lambda>t. t\<lparr>status := TASK_READY\<rparr>)
                         (on_mm (list_push (thread_ready_list s) (general_tag p)) s)))
           else Inr s)
          (\<lambda>s. Inr (on_mm (\<lambda>m. snd (intr_set_status old_status m)) s))))"

text \<open>The part of \<^verbatim>\<open>schedule\<close> that takes the first ready thread and switches to it.\<close>

definition dispatch :: "u32 \<Rightarrow> 'a ksched_scheme \<Rightarrow> 'a ksched_scheme result" where
  "dispatch cur s =
     assertE (\<not> list_empty (thread_ready_list s) (mm s))
       (let (thread_tag, m) = list_pop (thread_ready_list s) (mm s);
            nx = thread_tag AND 0xfffff000;
            s = set_task nx (\<lambda>t. t\<lparr>status := TASK_RUNNING\<rparr>) (s\<lparr>mm := m\<rparr>)
        in bindE (process_activate nx s) (\<lambda>s. Inr (switch_to cur nx s)))"

definition schedule :: "'a ksched_scheme \<Rightarrow> 'a ksched_scheme result" where
  "schedule s =
     assertE (intr_get_status (mm s) = INTR_OFF)
       (let cur = running_thread s in
        bindE
          (if status (task s cur) = TASK_RUNNING
           then not_in (thread_ready_list s) (general_tag cur) s
                  (Inr (set_task cur (\<lambda>t. t\<lparr>ticks := priority t, status := TASK_READY\<rparr>)
                         (on_mm (list_append (thread_ready_list s) (general_tag cur)) s)))
           else Inr s)
          (\<lambda>s. bindE
             (if list_empty (thread_ready_list s) (mm s) then thread_unblock (idle_thread s) s else Inr s)
             (dispatch cur)))"

definition thread_yield :: "'a ksched_scheme \<Rightarrow> 'a ksched_scheme result" where
  "thread_yield s =
     (let cur = running_thread s;
          (old_status, m) = intr_disable (mm s);
          s = s\<lparr>mm := m, blk_old := (blk_old s)(cur := old_status)\<rparr>
      in not_in (thread_ready_list s) (general_tag cur) s
           (schedule (set_task cur (\<lambda>t. t\<lparr>status := TASK_READY\<rparr>)
              (on_mm (list_append (thread_ready_list s) (general_tag cur)) s))))"

definition thread_block :: "task_status \<Rightarrow> 'a ksched_scheme \<Rightarrow> 'a ksched_scheme result" where
  "thread_block stat s =
     assertE (stat = TASK_BLOCKED \<or> stat = TASK_WAITING \<or> stat = TASK_HANGING)
       (let (old_status, m) = intr_disable (mm s);
            cur = running_thread s;
            s = s\<lparr>mm := m, blk_old := (blk_old s)(cur := old_status)\<rparr>
        in schedule (set_task cur (\<lambda>t. t\<lparr>status := stat\<rparr>) s))"

text \<open>The last statement of \<^verbatim>\<open>thread_yield\<close> and \<^verbatim>\<open>thread_block\<close>, executed when the thread runs again.\<close>

definition thread_resume :: "'a ksched_scheme \<Rightarrow> 'a ksched_scheme" where
  "thread_resume s = on_mm (\<lambda>m. snd (intr_set_status (blk_old s (running_thread s)) m)) s"

definition intr_timer_handler :: "'a ksched_scheme \<Rightarrow> 'a ksched_scheme result" where
  "intr_timer_handler s =
     (let cur = running_thread s in
      assertE (stack_magic (task s cur) = 0x12345678)
        (let s = set_task cur (\<lambda>t. t\<lparr>elapsed_ticks := elapsed_ticks t + 1\<rparr>) s;
             s = s\<lparr>all_ticks := all_ticks s + 1\<rparr>
         in if ticks (task s cur) = 0 then schedule s
            else Inr (set_task cur (\<lambda>t. t\<lparr>ticks := ticks t - 1\<rparr>) s)))"

section \<open>Abstraction\<close>

text \<open>A control block starts a page, so the node in it leads back to it.\<close>

definition pcb :: "u32 \<Rightarrow> bool" where
  "pcb p \<longleftrightarrow> p \<noteq> 0 \<and> p AND 0xfffff000 = p"

lemma pcb_tag: "pcb p \<Longrightarrow> general_tag p AND 0xfffff000 = p"
proof -
  assume "pcb p"
  then have "unat p div 4096 * 4096 = unat p" unfolding pcb_def by (metis unat_page)
  then obtain k where k: "unat p = k * 4096" by metis
  then have "k < 2 ^ 20" using unat_lt [of p] by simp
  then have "unat (general_tag p) = k * 4096 + 68"
    unfolding general_tag_def using unat_add_u32 [of p 68] k by simp
  then have "unat (general_tag p AND 0xfffff000) = unat p" by (simp add: unat_page k)
  then show ?thesis by (simp add: word_unat_eq_iff)
qed

lemma general_tag_inj [simp]: "general_tag p = general_tag q \<longleftrightarrow> p = q"
  by (simp add: general_tag_def)

lemma inj_general_tag: "inj_on general_tag A"
  by (rule inj_onI) simp

text \<open>\<open>sched_rel T r R s\<close>: of the threads \<open>T\<close>, \<open>r\<close> runs and the ready list is the sequence \<open>R\<close>.\<close>

definition sched_rel :: "u32 set \<Rightarrow> u32 \<Rightarrow> u32 list \<Rightarrow> 'a ksched_scheme \<Rightarrow> bool" where
  "sched_rel T r R s \<longleftrightarrow>
     running_thread s = r \<and> r \<in> T \<and> set R \<subseteq> T \<and> r \<notin> set R \<and>
     klist (mm s) (thread_ready_list s) (map general_tag R) \<and>
     (\<forall>p\<in>T. pcb p \<and> general_tag p \<notin> foot (thread_ready_list s) [] \<and>
        (p \<noteq> r \<longrightarrow> self_kstack (task s p) AND 0xfffff000 = p)) \<and>
     (\<forall>p\<in>set R. status (task s p) = TASK_READY)"

text \<open>What a scheduling operation leaves alone: every list that shares no node with the ready list or
  the threads \<open>T\<close> it moves, the interrupt flag, the globals, and the fields of a control block other than those
  a switch writes.\<close>

definition sched_frame :: "u32 set \<Rightarrow> 'a ksched_scheme \<Rightarrow> 'a ksched_scheme \<Rightarrow> bool" where
  "sched_frame T s s' \<longleftrightarrow>
     (\<forall>m ys. klist (mm s) m ys \<longrightarrow> foot m ys \<inter> (foot (thread_ready_list s) [] \<union> general_tag ` T) = {} \<longrightarrow>
        klist (mm s') m ys) \<and>
     eflags (mm s') = eflags (mm s) \<and>
     thread_ready_list s' = thread_ready_list s \<and> thread_all_list s' = thread_all_list s \<and>
     main_thread s' = main_thread s \<and> idle_thread s' = idle_thread s \<and>
     all_ticks s' = all_ticks s \<and> blk_old s' = blk_old s \<and> ksched.more s' = ksched.more s \<and>
     (\<forall>p. priority (task s' p) = priority (task s p) \<and> stack_magic (task s' p) = stack_magic (task s p) \<and>
        pgdir (task s' p) = pgdir (task s p) \<and> elapsed_ticks (task s' p) = elapsed_ticks (task s p) \<and>
        pid (task s' p) = pid (task s p))"

lemma sched_frame_refl: "sched_frame T s s"
  by (simp add: sched_frame_def)

lemma sched_frame_mono: "sched_frame T s t \<Longrightarrow> T \<subseteq> T' \<Longrightarrow> sched_frame T' s t"
  unfolding sched_frame_def by blast

lemma sched_frame_trans: "sched_frame T s t \<Longrightarrow> sched_frame T t u \<Longrightarrow> sched_frame T s u"
  by (simp add: sched_frame_def)

lemma foot_tags: "foot l (map general_tag R) = foot l [] \<union> general_tag ` set R"
  by (auto simp: foot_def)

named_theorems sched_simps \<open>fields of the scheduler state after an update\<close>

lemma set_task_simps [sched_simps]:
  "task (set_task p f s) q = (if q = p then f (task s p) else task s q)"
  "mm (set_task p f s) = mm s" "esp (set_task p f s) = esp s"
  "thread_ready_list (set_task p f s) = thread_ready_list s"
  "thread_all_list (set_task p f s) = thread_all_list s"
  "main_thread (set_task p f s) = main_thread s" "idle_thread (set_task p f s) = idle_thread s"
  "all_ticks (set_task p f s) = all_ticks s" "blk_old (set_task p f s) = blk_old s"
  "ksched.more (set_task p f s) = ksched.more s" "running_thread (set_task p f s) = running_thread s"
  by (simp_all add: set_task_def running_thread_def)

lemma on_mm_simps [sched_simps]:
  "task (on_mm g s) = task s" "mm (on_mm g s) = g (mm s)" "esp (on_mm g s) = esp s"
  "thread_ready_list (on_mm g s) = thread_ready_list s"
  "thread_all_list (on_mm g s) = thread_all_list s"
  "main_thread (on_mm g s) = main_thread s" "idle_thread (on_mm g s) = idle_thread s"
  "all_ticks (on_mm g s) = all_ticks s" "blk_old (on_mm g s) = blk_old s"
  "ksched.more (on_mm g s) = ksched.more s" "running_thread (on_mm g s) = running_thread s"
  by (simp_all add: on_mm_def running_thread_def)

lemma list_op_flags [sched_simps]:
  "eflags (list_append l e m) = eflags m" "eflags (list_push l e m) = eflags m"
  "eflags (list_remove e m) = eflags m"
  by (simp_all add: list_append_def list_push_def klist_fields)

lemma dispatch_ok:
  assumes l: "klist (mm s) (thread_ready_list s) (map general_tag (n # R))"
    and n: "pcb n" "set (n # R) \<subseteq> T"
    and sk: "(if n = cur then esp s else self_kstack (task s n)) AND 0xfffff000 = n"
  shows "\<exists>s'. dispatch cur s = Inr s' \<and> running_thread s' = n \<and>
    klist (mm s') (thread_ready_list s) (map general_tag R) \<and> sched_frame T s s' \<and>
    (\<forall>p. status (task s' p) = (if p = n then TASK_RUNNING else status (task s p)) \<and>
       ticks (task s' p) = ticks (task s p) \<and>
       self_kstack (task s' p) = (if p = cur then esp s else self_kstack (task s p)))"
proof -
  let ?m = "list_remove (general_tag n) (mm s)"
  have pop: "list_pop (thread_ready_list s) (mm s) = (general_tag n, ?m)"
    using kl.pop_first l by simp
  have rest: "klist ?m (thread_ready_list s) (map general_tag R)"
    using kl.del_holds [of "mm s" _ "[]" "general_tag n"] l by simp
  have oth: "klist ?m m ys"
    if "klist (mm s) m ys" "foot m ys \<inter> (foot (thread_ready_list s) [] \<union> general_tag ` T) = {}" for m ys
  proof (rule kl.del_other [OF l _ that(1)])
    show "foot (thread_ready_list s) (map general_tag (n # R)) \<inter> foot m ys = {}"
      using that(2) n(2) unfolding foot_tags by auto
  qed simp
  have ne: "\<not> list_empty (thread_ready_list s) (mm s)" using kl.empt_iff [OF l] by simp
  have cong: "klist (m\<lparr>cur_pgdir := a, cur_vaddr := b, cur_descs := c\<rparr>) k xs = klist m k xs"
    for m :: vm and a b c k xs
    by (rule klist_field_cong) simp_all
  have nz: "n \<noteq> 0" using n(1) by (simp add: pcb_def)
  show ?thesis
    using ne rest oth sk nz pcb_tag [OF n(1)]
    by (simp add: dispatch_def pop process_activate_def page_dir_activate_def
        switch_to_def Let_def sched_simps cong running_thread_def sched_frame_def split: if_splits)
qed

text \<open>The running thread goes to the end of the ready list, or stays off it when it has blocked.\<close>

lemma not_in_ok: "klist (mm s) l xs \<Longrightarrow> e \<notin> set xs \<Longrightarrow> not_in l e s k = k"
  by (simp add: not_in_def kl.member_iff)

lemma append_ready:
  assumes "sched_rel T r R s"
  shows "klist (list_append (thread_ready_list s) (general_tag r) (mm s)) (thread_ready_list s)
           (map general_tag (R @ [r]))"
    and "klist (mm s) m ys \<Longrightarrow> foot m ys \<inter> (foot (thread_ready_list s) [] \<union> general_tag ` set (r # R)) = {} \<Longrightarrow>
           klist (list_append (thread_ready_list s) (general_tag r) (mm s)) m ys"
    and "general_tag r \<notin> set (map general_tag R)"
proof -
  have l: "klist (mm s) (thread_ready_list s) (map general_tag R)"
    and r: "r \<in> T" "set R \<subseteq> T" "r \<notin> set R" "general_tag r \<notin> foot (thread_ready_list s) []"
    using assms unfolding sched_rel_def by blast+
  show n: "general_tag r \<notin> set (map general_tag R)" using r by auto
  show "klist (list_append (thread_ready_list s) (general_tag r) (mm s)) (thread_ready_list s)
           (map general_tag (R @ [r]))"
    using kl.app_holds [OF l] r n by (simp add: foot_tags)
  show "klist (list_append (thread_ready_list s) (general_tag r) (mm s)) m ys"
    if "klist (mm s) m ys" "foot m ys \<inter> (foot (thread_ready_list s) [] \<union> general_tag ` set (r # R)) = {}"
    by (rule kl.app_other [OF l that(1)]) (use that(2) r in \<open>auto simp: foot_tags\<close>)
qed

text \<open>\<^verbatim>\<open>schedule\<close> of a running thread: round robin.\<close>

lemma schedule_running:
  assumes "sched_rel T r R s" "intr_get_status (mm s) = INTR_OFF" "status (task s r) = TASK_RUNNING"
  shows "\<exists>s'. schedule s = Inr s' \<and> sched_rel T (hd (R @ [r])) (tl (R @ [r])) s' \<and> sched_frame (set (r # R)) s s' \<and>
    (\<forall>p. status (task s' p) = (if p = hd (R @ [r]) then TASK_RUNNING else if p = r then TASK_READY
                               else status (task s p)) \<and>
       ticks (task s' p) = (if p = r then priority (task s r) else ticks (task s p)))"
proof -
  have r: "running_thread s = r" "r \<in> T" "set R \<subseteq> T" "r \<notin> set R"
    and l: "klist (mm s) (thread_ready_list s) (map general_tag R)"
    and T: "\<And>p. p \<in> T \<Longrightarrow> pcb p \<and> general_tag p \<notin> foot (thread_ready_list s) []"
    and sk: "\<And>p. p \<in> T \<Longrightarrow> p \<noteq> r \<Longrightarrow> self_kstack (task s p) AND 0xfffff000 = p"
    and rd: "\<And>p. p \<in> set R \<Longrightarrow> status (task s p) = TASK_READY"
    using assms(1) unfolding sched_rel_def by blast+
  let ?t = "set_task r (\<lambda>t. t\<lparr>ticks := priority t, status := TASK_READY\<rparr>)
              (on_mm (list_append (thread_ready_list s) (general_tag r)) s)"
  obtain n R' where nR: "R @ [r] = n # R'" by (cases "R @ [r]") auto
  have lt: "klist (mm ?t) (thread_ready_list ?t) (map general_tag (n # R'))"
    using append_ready(1) [OF assms(1)] by (simp add: sched_simps nR)
  have frame: "sched_frame (set (r # R)) s ?t"
    using append_ready(2) [OF assms(1)] by (simp add: sched_frame_def sched_simps)
  have nT: "set (n # R') \<subseteq> T" using r by (simp flip: nR)
  have nS: "set (n # R') \<subseteq> set (r # R)" using arg_cong [OF nR, of set] by auto
  have dist: "n \<notin> set R'"
    using kl.holds_distinct [OF lt] by auto
  have e: "esp s AND 0xfffff000 = r" using r(1) by (simp add: running_thread_def)
  have "(if n = r then esp ?t else self_kstack (task ?t n)) AND 0xfffff000 = n"
    using sk [of n] nT e by (simp add: sched_simps)
  then obtain s' where s': "dispatch r ?t = Inr s'" "running_thread s' = n"
      "klist (mm s') (thread_ready_list ?t) (map general_tag R')" "sched_frame (set (r # R)) ?t s'"
      "\<forall>p. status (task s' p) = (if p = n then TASK_RUNNING else status (task ?t p)) \<and>
       ticks (task s' p) = ticks (task ?t p) \<and>
       self_kstack (task s' p) = (if p = r then esp ?t else self_kstack (task ?t p))"
    using dispatch_ok [OF lt _ nS, of r] T [of n] nT by auto
  have ne: "\<not> list_empty (thread_ready_list ?t) (mm ?t)" using kl.empt_iff [OF lt] by simp
  have sch: "schedule s = Inr s'"
    using assms(2,3) r(1) ne s'(1)
    by (simp add: schedule_def Let_def not_in_ok [OF l append_ready(3) [OF assms(1)]])
  have fr: "sched_frame (set (r # R)) s s'" by (rule sched_frame_trans [OF frame s'(4)])
  have trl: "thread_ready_list s' = thread_ready_list s" using fr by (simp add: sched_frame_def)
  have "set R' \<subseteq> insert r (set R)" using nS by simp
  then have "sched_rel T n R' s'"
    unfolding sched_rel_def trl
    using s'(2,3,5) nT dist T sk rd e by (auto simp: sched_simps)
  then show ?thesis using sch fr s'(5) by (auto simp: nR sched_simps)
qed

text \<open>\<^verbatim>\<open>schedule\<close> of a thread that has given up the processor: the first ready thread runs.\<close>

lemma schedule_blocked:
  assumes "sched_rel T r (n # R) s" "intr_get_status (mm s) = INTR_OFF" "status (task s r) \<noteq> TASK_RUNNING"
  shows "\<exists>s'. schedule s = Inr s' \<and> sched_rel T n R s' \<and> sched_frame (set (n # R)) s s' \<and>
    (\<forall>p. status (task s' p) = (if p = n then TASK_RUNNING else status (task s p)) \<and>
       ticks (task s' p) = ticks (task s p))"
proof -
  have r: "running_thread s = r" "r \<in> T" "set (n # R) \<subseteq> T" "r \<notin> set (n # R)"
    and l: "klist (mm s) (thread_ready_list s) (map general_tag (n # R))"
    and T: "\<And>p. p \<in> T \<Longrightarrow> pcb p \<and> general_tag p \<notin> foot (thread_ready_list s) []"
    and sk: "\<And>p. p \<in> T \<Longrightarrow> p \<noteq> r \<Longrightarrow> self_kstack (task s p) AND 0xfffff000 = p"
    and rd: "\<And>p. p \<in> set (n # R) \<Longrightarrow> status (task s p) = TASK_READY"
    using assms(1) unfolding sched_rel_def by blast+
  have "(if n = r then esp s else self_kstack (task s n)) AND 0xfffff000 = n"
    using r sk by auto
  then obtain s' where s': "dispatch r s = Inr s'" "running_thread s' = n"
      "klist (mm s') (thread_ready_list s) (map general_tag R)" "sched_frame (set (n # R)) s s'"
      "\<forall>p. status (task s' p) = (if p = n then TASK_RUNNING else status (task s p)) \<and>
       ticks (task s' p) = ticks (task s p) \<and>
       self_kstack (task s' p) = (if p = r then esp s else self_kstack (task s p))"
    using dispatch_ok [OF l _ order_refl, of r] T [of n] r(3) by auto
  have "\<not> list_empty (thread_ready_list s) (mm s)" using kl.empt_iff [OF l] by simp
  then have sch: "schedule s = Inr s'" using assms(2,3) r(1) s'(1) by (simp add: schedule_def Let_def)
  have trl: "thread_ready_list s' = thread_ready_list s" using s'(4) by (simp add: sched_frame_def)
  have dist: "n \<notin> set R" using kl.holds_distinct [OF l] by auto
  have e: "esp s AND 0xfffff000 = r" using r(1) by (simp add: running_thread_def)
  have "sched_rel T n R s'"
    unfolding sched_rel_def trl using s'(2,3,5) r dist T sk rd e by auto
  then show ?thesis using sch s'(4,5) by auto
qed

text \<open>\<^verbatim>\<open>thread_unblock\<close> puts the thread at the front of the ready list.\<close>

definition waiting :: "task_status \<Rightarrow> bool" where
  "waiting st \<longleftrightarrow> st = TASK_BLOCKED \<or> st = TASK_WAITING \<or> st = TASK_HANGING"

lemma thread_unblock_ok:
  assumes "sched_rel T r R s" "p \<in> T" "p \<noteq> r \<or> waiting (status (task s r))" "waiting (status (task s p))"
  shows "\<exists>s'. thread_unblock p s = Inr s' \<and> sched_frame (set (p # R)) s s' \<and> running_thread s' = r \<and>
    klist (mm s') (thread_ready_list s) (map general_tag (p # R)) \<and>
    (\<forall>q. task s' q = (if q = p then (task s p)\<lparr>status := TASK_READY\<rparr> else task s q)) \<and>
    p \<notin> set R \<and> (p \<noteq> r \<longrightarrow> sched_rel T r (p # R) s') \<and> esp s' = esp s"
proof -
  have r: "running_thread s = r" "r \<in> T" "set R \<subseteq> T" "r \<notin> set R"
    and l: "klist (mm s) (thread_ready_list s) (map general_tag R)"
    and T: "\<And>p. p \<in> T \<Longrightarrow> pcb p \<and> general_tag p \<notin> foot (thread_ready_list s) []"
    and sk: "\<And>p. p \<in> T \<Longrightarrow> p \<noteq> r \<Longrightarrow> self_kstack (task s p) AND 0xfffff000 = p"
    and rd: "\<And>p. p \<in> set R \<Longrightarrow> status (task s p) = TASK_READY"
    using assms(1) unfolding sched_rel_def by blast+
  have pR: "p \<notin> set R" using rd assms(4) by (auto simp: waiting_def)
  let ?m = "(mm s)\<lparr>eflags := eflags (mm s) AND NOT EFLAGS_IF\<rparr>"
  let ?t = "set_task p (\<lambda>t. t\<lparr>status := TASK_READY\<rparr>)
              (on_mm (list_push (thread_ready_list s) (general_tag p)) (s\<lparr>mm := ?m\<rparr>))"
  let ?s' = "?t\<lparr>mm := (mm ?t)\<lparr>eflags := eflags (mm s)\<rparr>\<rparr>"
  have cong: "klist (m\<lparr>eflags := f\<rparr>) k xs = klist m k xs" for m :: vm and f k xs
    by (rule klist_field_cong) simp_all
  have lm: "klist ?m (thread_ready_list s) (map general_tag R)" using l by (simp add: cong)
  have notin: "general_tag p \<notin> set (map general_tag R)" using pR by auto
  have front: "klist (list_push (thread_ready_list s) (general_tag p) ?m) (thread_ready_list s)
      (map general_tag (p # R))"
    using kl.front_holds [OF lm] notin T [OF assms(2)] by (simp add: foot_tags)
  have oth: "klist (list_push (thread_ready_list s) (general_tag p) ?m) m ys"
    if "klist (mm s) m ys" "foot m ys \<inter> (foot (thread_ready_list s) [] \<union> general_tag ` set (p # R)) = {}" for m ys
    by (rule kl.front_other [OF lm]) (use that r assms(2) in \<open>auto simp: foot_tags cong\<close>)
  have flag: "snd (intr_set_status (fst (intr_disable (mm s))) (mm ?t)) = (mm ?t)\<lparr>eflags := eflags (mm s)\<rparr>"
    by (rule restore_flag) (simp add: sched_simps)
  have "not_in (thread_ready_list s) (general_tag p) (s\<lparr>mm := ?m\<rparr>) k = k" for k :: "'a ksched_scheme result"
    by (rule not_in_ok [OF _ notin]) (use lm in simp)
  then have un: "thread_unblock p s = Inr ?s'"
    using assms(4) flag
    by (auto simp: thread_unblock_def Let_def split_beta disable_flag waiting_def on_mm_def)
  have frame: "sched_frame (set (p # R)) s ?s'"
    using oth by (simp add: sched_frame_def sched_simps cong)
  have lists: "klist (mm ?s') (thread_ready_list s) (map general_tag (p # R))"
    using front by (simp add: sched_simps cong)
  have "p \<noteq> r \<Longrightarrow> sched_rel T r (p # R) ?s'"
    using lists r T sk rd assms(2) pR by (auto simp: sched_rel_def sched_simps running_thread_def)
  then show ?thesis
    using un frame lists pR r(1) by (simp add: sched_simps running_thread_def)
qed

text \<open>With nothing ready the idle thread is woken, even when it is the idle thread that blocks.\<close>

lemma schedule_idle:
  assumes "sched_rel T r [] s" "intr_get_status (mm s) = INTR_OFF" "waiting (status (task s r))"
    "idle_thread s \<in> T" "waiting (status (task s (idle_thread s)))"
  shows "\<exists>s'. schedule s = Inr s' \<and> sched_rel T (idle_thread s) [] s' \<and> sched_frame {idle_thread s} s s' \<and>
    (\<forall>p. status (task s' p) = (if p = idle_thread s then TASK_RUNNING else status (task s p)) \<and>
       ticks (task s' p) = ticks (task s p))"
proof -
  let ?i = "idle_thread s"
  have r: "running_thread s = r" and l: "klist (mm s) (thread_ready_list s) []"
    and T: "\<And>p. p \<in> T \<Longrightarrow> pcb p \<and> general_tag p \<notin> foot (thread_ready_list s) []"
    and sk: "\<And>p. p \<in> T \<Longrightarrow> p \<noteq> r \<Longrightarrow> self_kstack (task s p) AND 0xfffff000 = p"
    and rT: "r \<in> T"
    using assms(1) unfolding sched_rel_def by auto
  obtain t where t: "thread_unblock ?i s = Inr t" "sched_frame {idle_thread s} s t" "running_thread t = r"
      "klist (mm t) (thread_ready_list s) (map general_tag [?i])"
      "\<And>q. task t q = (if q = ?i then (task s ?i)\<lparr>status := TASK_READY\<rparr> else task s q)" "esp t = esp s"
    using thread_unblock_ok [OF assms(1,4) _ assms(5)] assms(3) by auto
  have trl: "thread_ready_list t = thread_ready_list s" using t(2) by (simp add: sched_frame_def)
  have lt: "klist (mm t) (thread_ready_list t) (map general_tag [?i])" using t(4) trl by simp
  have e: "esp s AND 0xfffff000 = r" using r by (simp add: running_thread_def)
  have "(if ?i = r then esp t else self_kstack (task t ?i)) AND 0xfffff000 = ?i"
    using sk [OF assms(4)] e by (simp add: t(5,6))
  then obtain s' where s': "dispatch r t = Inr s'" "running_thread s' = ?i"
      "klist (mm s') (thread_ready_list t) []" "sched_frame {idle_thread s} t s'"
      "\<forall>p. status (task s' p) = (if p = ?i then TASK_RUNNING else status (task t p)) \<and>
       ticks (task s' p) = ticks (task t p) \<and>
       self_kstack (task s' p) = (if p = r then esp t else self_kstack (task t p))"
    using dispatch_ok [OF lt, of "{?i}" r] T [OF assms(4)] assms(4) by auto
  have "list_empty (thread_ready_list s) (mm s)" using kl.empt_iff [OF l] by simp
  then have sch: "schedule s = Inr s'"
    using assms(2,3) r s'(1) t(1) by (simp add: schedule_def Let_def waiting_def) auto
  have fr: "sched_frame {idle_thread s} s s'" by (rule sched_frame_trans [OF t(2) s'(4)])
  then have trl': "thread_ready_list s' = thread_ready_list s" by (simp add: sched_frame_def)
  have "sched_rel T ?i [] s'"
    unfolding sched_rel_def trl' using s'(2,3,5) T sk e assms(4) by (auto simp: t(5,6) trl)
  then show ?thesis using sch fr s'(5) by (auto simp: t(5))
qed

text \<open>\<^verbatim>\<open>thread_block\<close> as a whole, with the flag as \<^verbatim>\<open>intr_disable\<close> leaves it.\<close>

definition blocking :: "task_status \<Rightarrow> 'a ksched_scheme \<Rightarrow> 'a ksched_scheme" where
  "blocking stat s =
     set_task (running_thread s) (\<lambda>t. t\<lparr>status := stat\<rparr>)
       (s\<lparr>mm := snd (intr_disable (mm s)),
          blk_old := (blk_old s)(running_thread s := fst (intr_disable (mm s)))\<rparr>)"

lemma thread_block_eq: "waiting stat \<Longrightarrow> thread_block stat s = schedule (blocking stat s)"
  by (auto simp: thread_block_def blocking_def waiting_def Let_def split_beta running_thread_def)

lemma disabled_list: "klist (snd (intr_disable m)) l xs = klist (m :: vm) l xs"
  by (rule klist_field_cong) (simp_all add: disable_flag)

lemma blocking_rel:
  assumes "sched_rel T r R s"
  shows "sched_rel T r R (blocking stat s)" "intr_get_status (mm (blocking stat s)) = INTR_OFF"
    "status (task (blocking stat s) p) = (if p = r then stat else status (task s p))"
    "ticks (task (blocking stat s) p) = ticks (task s p)" "idle_thread (blocking stat s) = idle_thread s"
proof -
  have r: "running_thread s = r" using assms by (simp add: sched_rel_def)
  show "sched_rel T r R (blocking stat s)"
    using assms by (auto simp: sched_rel_def blocking_def sched_simps disabled_list running_thread_def)
  show "intr_get_status (mm (blocking stat s)) = INTR_OFF"
    using disable_off [of "mm s"] by (simp add: blocking_def sched_simps)
  show "status (task (blocking stat s) p) = (if p = r then stat else status (task s p))"
    "ticks (task (blocking stat s) p) = ticks (task s p)" "idle_thread (blocking stat s) = idle_thread s"
    by (simp_all add: blocking_def sched_simps r)
qed

lemmas blocking_simps = blocking_rel(3-5)

section \<open>Properties\<close>

fun schedules :: "nat \<Rightarrow> 'a ksched_scheme \<Rightarrow> 'a ksched_scheme result" where
  "schedules 0 s = Inr s"
| "schedules (Suc k) s = bindE (schedule s) (schedules k)"

lemma frame_flag: "sched_frame T s s' \<Longrightarrow> intr_get_status (mm s') = intr_get_status (mm s)"
  by (simp add: sched_frame_def intr_get_status_def)

lemma schedules_rotate:
  assumes "sched_rel T r R s" "intr_get_status (mm s) = INTR_OFF" "status (task s r) = TASK_RUNNING"
  shows "\<exists>s'. schedules k s = Inr s' \<and>
    sched_rel T (hd (rotate k (r # R))) (tl (rotate k (r # R))) s' \<and>
    status (task s' (hd (rotate k (r # R)))) = TASK_RUNNING"
  using assms
proof (induction k arbitrary: r R s)
  case 0
  then show ?case by simp
next
  case (Suc k)
  obtain t where t: "schedule s = Inr t" "sched_rel T (hd (R @ [r])) (tl (R @ [r])) t" "sched_frame (set (r # R)) s t"
      "status (task t (hd (R @ [r]))) = TASK_RUNNING"
    using schedule_running [OF Suc.prems] by auto
  have "rotate (Suc k) (r # R) = rotate k (hd (R @ [r]) # tl (R @ [r]))"
    by (simp only: rotate_Suc rotate1_rotate_swap rotate1.simps) simp
  then show ?case
    using Suc.IH [OF t(2) _ t(4)] frame_flag [OF t(3)] Suc.prems(2) t(1) by simp
qed

text \<open>C16: Scheduling is round robin. From a state in which \<open>r\<close> runs and the ready list holds \<open>R\<close>, any
  number \<open>k\<close> of calls of \<^verbatim>\<open>schedule\<close> returns and leaves the processor and the ready list as the
  sequence \<open>r # R\<close> rotated \<open>k\<close> times, so that every ready thread gets the processor after at most
  as many switches as there are threads before it, and the one that runs is marked so.\<close>

theorem schedule_round_robin:
  assumes "sched_rel T r R s" "intr_get_status (mm s) = INTR_OFF" "status (task s r) = TASK_RUNNING"
  shows "\<exists>s'. schedules k s = Inr s' \<and>
    sched_rel T (hd (rotate k (r # R))) (tl (rotate k (r # R))) s' \<and>
    status (task s' (hd (rotate k (r # R)))) = TASK_RUNNING"
  using assms by (rule schedules_rotate)

definition demo_task :: "task_status \<Rightarrow> u32 \<Rightarrow> task_struct" where
  "demo_task st p = \<lparr>self_kstack = p + 0xf00, pid = 1, status = st, name = ''demo'', priority = 2, ticks = 2,
     elapsed_ticks = 0, fd_table = [], pgdir = 0, userprog_vaddr = kernel_vaddr demo_vm, cwd_inode_nr = 0,
     parent_pid = -1, stack_magic = 0x12345678\<rparr>"

definition demo_sched :: ksched where
  "demo_sched = \<lparr>mm = (list_append 0x100 (general_tag 0x2000) (list_init 0x100 demo_vm))\<lparr>eflags := 2\<rparr>,
     esp = 0x1f00, cr3_reg = 0x100000,
     tss_st = \<lparr>the_tss = tss_zero, gdt = Map.empty, gdt_operand = 0, task_register = 0\<rparr>,
     task = (\<lambda>p. demo_task (if p = 0x1000 then TASK_RUNNING else if p = 0x2000 then TASK_READY else TASK_BLOCKED) p),
     thread_ready_list = 0x100, thread_all_list = 0x200, main_thread = 0x1000, idle_thread = 0x3000,
     all_ticks = 0, blk_old = (\<lambda>_. INTR_OFF)\<rparr>"

lemma demo_rel: "sched_rel {0x1000, 0x2000, 0x3000} 0x1000 [0x2000] demo_sched"
proof -
  have cong: "klist (m\<lparr>eflags := f\<rparr>) k xs = klist m k xs" for m :: vm and f k xs
    by (rule klist_field_cong) simp_all
  have "klist (list_append 0x100 (general_tag 0x2000) (list_init 0x100 demo_vm)) 0x100 [general_tag 0x2000]"
    using kl.app_holds [OF klist_init, of "general_tag 0x2000" "0x100"]
    by (simp add: foot_def list_head_def list_tail_def general_tag_def)
  then show ?thesis
    unfolding sched_rel_def demo_sched_def running_thread_def
    by (simp add: cong demo_task_def pcb_def foot_def list_head_def list_tail_def general_tag_def)
qed

lemma demo_off: "intr_get_status (mm demo_sched) = INTR_OFF"
  by (simp add: demo_sched_def intr_get_status_def EFLAGS_IF_def)

lemma demo_running: "status (task demo_sched 0x1000) = TASK_RUNNING"
  by (simp add: demo_sched_def demo_task_def)

theorem schedule_round_robin_witness:
  "\<exists>s'. schedules 1 demo_sched = Inr s' \<and> sched_rel {0x1000, 0x2000, 0x3000} 0x2000 [0x1000] s'"
  using schedule_round_robin [OF demo_rel demo_off demo_running, of 1] by auto

text \<open>C31: A thread that blocks gives the processor to the first ready thread and stays off the ready list;
  a wake-up puts it at the front, so that the next switch runs it, and when it leaves \<^verbatim>\<open>thread_block\<close>
  the interrupt flag is as it was when it entered.\<close>

theorem block_wakeup_cycle:
  assumes "sched_rel T r (n # R) s" "waiting stat"
  shows "\<exists>s1 s2 s3. thread_block stat s = Inr s1 \<and> sched_rel T n R s1 \<and> status (task s1 r) = stat \<and>
    thread_unblock r s1 = Inr s2 \<and> sched_rel T n (r # R) s2 \<and>
    schedule s2 = Inr s3 \<and> sched_rel T r (R @ [n]) s3 \<and> status (task s3 r) = TASK_RUNNING \<and>
    eflags (mm (thread_resume s3)) = eflags (mm s)"
proof -
  have r: "running_thread s = r" "r \<in> T" "r \<noteq> n" using assms(1) by (auto simp: sched_rel_def)
  note b = blocking_rel [OF assms(1), of stat]
  have "stat \<noteq> TASK_RUNNING" using assms(2) by (auto simp: waiting_def)
  then obtain s1 where s1: "thread_block stat s = Inr s1" "sched_rel T n R s1"
      "sched_frame (set (n # R)) (blocking stat s) s1" "status (task s1 r) = stat" "status (task s1 n) = TASK_RUNNING"
    using schedule_blocked [OF b(1,2)] r(3) by (auto simp: thread_block_eq [OF assms(2)] b(3))
  obtain s2 where s2: "thread_unblock r s1 = Inr s2" "sched_frame (set (r # R)) s1 s2" "sched_rel T n (r # R) s2"
      "status (task s2 n) = TASK_RUNNING"
    using thread_unblock_ok [OF s1(2) r(2)] r(3) assms(2) s1(4,5) by auto
  have off: "intr_get_status (mm s2) = INTR_OFF"
    using frame_flag [OF s2(2)] frame_flag [OF s1(3)] b(2) by simp
  obtain s3 where s3: "schedule s2 = Inr s3" "sched_rel T r (R @ [n]) s3" "sched_frame (set (n # r # R)) s2 s3"
      "status (task s3 r) = TASK_RUNNING"
    using schedule_running [OF s2(3) off s2(4)] by auto
  have "sched_frame (set (n # r # R)) (blocking stat s) s1" "sched_frame (set (n # r # R)) s1 s2"
    by (rule sched_frame_mono [OF s1(3)], auto) (rule sched_frame_mono [OF s2(2)], auto)
  then have fr: "sched_frame (set (n # r # R)) (blocking stat s) s3"
    using s3(3) by (blast intro: sched_frame_trans)
  have "blk_old s3 r = fst (intr_disable (mm s))" "eflags (mm s3) = eflags (mm s) AND NOT EFLAGS_IF"
    "running_thread s3 = r"
    using fr s3(2) r(1) by (simp_all add: sched_frame_def blocking_def sched_simps disable_flag sched_rel_def)
  then have "eflags (mm (thread_resume s3)) = eflags (mm s)"
    using restore_flag [of "mm s3" "mm s"] by (simp add: thread_resume_def sched_simps)
  then show ?thesis using s1 s2 s3 by blast
qed

theorem block_wakeup_cycle_witness:
  "\<exists>s1. thread_block TASK_BLOCKED demo_sched = Inr s1 \<and> sched_rel {0x1000, 0x2000, 0x3000} 0x2000 [] s1"
  using block_wakeup_cycle [OF demo_rel, of TASK_BLOCKED] by (auto simp: waiting_def)

text \<open>When the last ready thread blocks, the idle thread runs: \<^verbatim>\<open>schedule\<close> wakes it and never meets an
  empty ready list, also when it is the idle thread itself that blocks.\<close>

theorem block_runs_idle:
  assumes "sched_rel T r [] s" "waiting stat" "idle_thread s \<in> T"
    "idle_thread s = r \<or> waiting (status (task s (idle_thread s)))"
  shows "\<exists>s'. thread_block stat s = Inr s' \<and> sched_rel T (idle_thread s) [] s' \<and>
    status (task s' (idle_thread s)) = TASK_RUNNING \<and>
    (idle_thread s \<noteq> r \<longrightarrow> status (task s' r) = stat)"
proof -
  note b = blocking_rel [OF assms(1), of stat]
  have "waiting (status (task (blocking stat s) r))"
    "waiting (status (task (blocking stat s) (idle_thread (blocking stat s))))"
    "idle_thread (blocking stat s) \<in> T"
    using assms(2-4) by (auto simp: b(3,5))
  from schedule_idle [OF b(1,2) this(1,3,2)] show ?thesis
    by (auto simp: thread_block_eq [OF assms(2)] b(3,5))
qed

lemma demo_last: "sched_rel {0x1000, 0x3000} 0x3000 [] (demo_sched\<lparr>esp := 0x3f00, mm := list_init 0x100 demo_vm\<rparr>)"
  using klist_init [of "0x100" demo_vm]
  by (simp add: sched_rel_def demo_sched_def running_thread_def demo_task_def pcb_def foot_def
      list_head_def list_tail_def general_tag_def)

theorem block_runs_idle_witness:
  "\<exists>s'. thread_block TASK_BLOCKED (demo_sched\<lparr>esp := 0x3f00, mm := list_init 0x100 demo_vm\<rparr>) = Inr s' \<and>
     sched_rel {0x1000, 0x3000} 0x3000 [] s'"
  using block_runs_idle [OF demo_last, of TASK_BLOCKED] by (auto simp: waiting_def demo_sched_def)

fun timer_interrupts :: "nat \<Rightarrow> 'a ksched_scheme \<Rightarrow> 'a ksched_scheme result" where
  "timer_interrupts 0 s = Inr s"
| "timer_interrupts (Suc k) s = bindE (intr_timer_handler s) (timer_interrupts k)"

text \<open>The accounting that precedes the decision of the handler.\<close>

definition ticked :: "'a ksched_scheme \<Rightarrow> 'a ksched_scheme" where
  "ticked s = (set_task (running_thread s) (\<lambda>t. t\<lparr>elapsed_ticks := elapsed_ticks t + 1\<rparr>) s)
     \<lparr>all_ticks := all_ticks s + 1\<rparr>"

lemma ticked_simps [sched_simps]:
  "mm (ticked s) = mm s" "esp (ticked s) = esp s" "thread_ready_list (ticked s) = thread_ready_list s"
  "running_thread (ticked s) = running_thread s" "status (task (ticked s) p) = status (task s p)"
  "ticks (task (ticked s) p) = ticks (task s p)" "self_kstack (task (ticked s) p) = self_kstack (task s p)"
  "priority (task (ticked s) p) = priority (task s p)"
  by (simp_all add: ticked_def sched_simps running_thread_def)

lemma timer_handler_eq:
  "stack_magic (task s (running_thread s)) = 0x12345678 \<Longrightarrow>
   intr_timer_handler s =
     (if ticks (task s (running_thread s)) = 0 then schedule (ticked s)
      else Inr (set_task (running_thread s) (\<lambda>t. t\<lparr>ticks := ticks t - 1\<rparr>) (ticked s)))"
  by (simp add: intr_timer_handler_def ticked_def Let_def sched_simps)

lemma ticked_rel: "sched_rel T r R (ticked s) = sched_rel T r R s"
  by (simp add: sched_rel_def sched_simps)

lemma slice_tick:
  assumes "sched_rel T r R s" "stack_magic (task s r) = 0x12345678" "ticks (task s r) \<noteq> 0"
  shows "\<exists>s'. intr_timer_handler s = Inr s' \<and> sched_rel T r R s' \<and> mm s' = mm s \<and>
    stack_magic (task s' r) = 0x12345678 \<and> status (task s' r) = status (task s r) \<and>
    priority (task s' r) = priority (task s r) \<and>
    elapsed_ticks (task s' r) = elapsed_ticks (task s r) + 1 \<and> ticks (task s' r) = ticks (task s r) - 1"
proof -
  have r: "running_thread s = r" using assms(1) by (simp add: sched_rel_def)
  let ?s' = "set_task r (\<lambda>t. t\<lparr>ticks := ticks t - 1\<rparr>) (ticked s)"
  have "intr_timer_handler s = Inr ?s'" using timer_handler_eq [of s] assms(2,3) r by simp
  moreover have "sched_rel T r R ?s'"
    using assms(1) unfolding sched_rel_def by (auto simp: sched_simps)
  ultimately show ?thesis using assms(2) r by (auto simp: sched_simps) (simp_all add: ticked_def sched_simps)
qed

lemma slice_ticks:
  assumes "sched_rel T r R s" "stack_magic (task s r) = 0x12345678" "k \<le> unat (ticks (task s r))"
  shows "\<exists>s'. timer_interrupts k s = Inr s' \<and> sched_rel T r R s' \<and> mm s' = mm s \<and>
    stack_magic (task s' r) = 0x12345678 \<and> status (task s' r) = status (task s r) \<and>
    priority (task s' r) = priority (task s r) \<and>
    elapsed_ticks (task s' r) = elapsed_ticks (task s r) + of_nat k \<and>
    ticks (task s' r) = ticks (task s r) - of_nat k"
  using assms
proof (induction k arbitrary: s)
  case 0
  then show ?case by simp
next
  case (Suc k)
  then have nz: "ticks (task s r) \<noteq> 0" by auto
  from slice_tick [OF Suc.prems(1,2) nz] obtain t where
    t: "intr_timer_handler s = Inr t" "sched_rel T r R t" "mm t = mm s"
    "stack_magic (task t r) = 0x12345678" "status (task t r) = status (task s r)"
    "priority (task t r) = priority (task s r)"
    "elapsed_ticks (task t r) = elapsed_ticks (task s r) + 1" "ticks (task t r) = ticks (task s r) - 1"
    by auto
  have "k \<le> unat (ticks (task t r))" using Suc.prems(3) nz by (simp add: t(8) unat_minus_one)
  from Suc.IH [OF t(2,4) this] show ?case using t by (auto simp: algebra_simps)
qed

text \<open>Time slices. A running thread with \<open>n\<close> ticks left keeps the processor through \<open>n\<close> timer
  interrupts, each of which counts against it, and at the next one it is preempted: it goes to the
  end of the ready list with its ticks reloaded from its priority.\<close>

theorem time_slice:
  assumes "sched_rel T r R s" "stack_magic (task s r) = 0x12345678" "status (task s r) = TASK_RUNNING"
    "intr_get_status (mm s) = INTR_OFF"
  shows "(\<forall>k \<le> unat (ticks (task s r)). \<exists>s'. timer_interrupts k s = Inr s' \<and> sched_rel T r R s' \<and>
            elapsed_ticks (task s' r) = elapsed_ticks (task s r) + of_nat k \<and>
            ticks (task s' r) = ticks (task s r) - of_nat k) \<and>
         (\<exists>s1 s'. timer_interrupts (unat (ticks (task s r))) s = Inr s1 \<and> intr_timer_handler s1 = Inr s' \<and>
            sched_rel T (hd (R @ [r])) (tl (R @ [r])) s' \<and> ticks (task s' r) = priority (task s r))"
proof (intro conjI)
  show "\<forall>k \<le> unat (ticks (task s r)). \<exists>s'. timer_interrupts k s = Inr s' \<and> sched_rel T r R s' \<and>
          elapsed_ticks (task s' r) = elapsed_ticks (task s r) + of_nat k \<and>
          ticks (task s' r) = ticks (task s r) - of_nat k"
    using slice_ticks [OF assms(1,2)] by blast
  obtain s1 where s1: "timer_interrupts (unat (ticks (task s r))) s = Inr s1" "sched_rel T r R s1"
      "mm s1 = mm s" "stack_magic (task s1 r) = 0x12345678" "status (task s1 r) = TASK_RUNNING"
      "priority (task s1 r) = priority (task s r)" "ticks (task s1 r) = 0"
    using slice_ticks [OF assms(1,2) order_refl] assms(3) by auto
  have r: "running_thread s1 = r" using s1(2) by (simp add: sched_rel_def)
  have "intr_timer_handler s1 = schedule (ticked s1)" using timer_handler_eq [of s1] s1(4,7) r by simp
  moreover have "sched_rel T r R (ticked s1)" "intr_get_status (mm (ticked s1)) = INTR_OFF"
    "status (task (ticked s1) r) = TASK_RUNNING"
    using s1 assms(4) by (simp_all add: ticked_rel sched_simps)
  ultimately show "\<exists>s1 s'. timer_interrupts (unat (ticks (task s r))) s = Inr s1 \<and>
      intr_timer_handler s1 = Inr s' \<and> sched_rel T (hd (R @ [r])) (tl (R @ [r])) s' \<and>
      ticks (task s' r) = priority (task s r)"
    using schedule_running [of T r R "ticked s1"] s1(1,6) by (auto simp: sched_simps)
qed

theorem time_slice_witness:
  "\<exists>s1 s'. timer_interrupts 2 demo_sched = Inr s1 \<and> intr_timer_handler s1 = Inr s' \<and>
     sched_rel {0x1000, 0x2000, 0x3000} 0x2000 [0x1000] s' \<and> ticks (task s' 0x1000) = 2"
  using time_slice [OF demo_rel _ demo_running demo_off] by (simp add: demo_sched_def demo_task_def)

end
