(* ===== verification/Syscall.thy ===== *)
theory Syscall
  imports Sched
begin

text \<open>
  System calls of the 32-bit kernel: the numbers of \<^verbatim>\<open>include/lib/user/syscall.h\<close>, the table that
  \<^verbatim>\<open>proc/syscall-init.c\<close> fills, and the functions of \<^verbatim>\<open>lib/user/syscall.c\<close> through which a user program
  reaches it. A user function loads the number and its arguments into registers and executes
  \<^verbatim>\<open>int $0x80\<close>; the handler in \<^verbatim>\<open>arch/x86/kernel.asm\<close> pushes \<^verbatim>\<open>edx\<close>, \<^verbatim>\<open>ecx\<close> and \<^verbatim>\<open>ebx\<close> and calls the entry of
  the table that \<^verbatim>\<open>eax\<close> selects, which reads as many of the three words as it has parameters.

  A function pointer is the name of a function (\<open>kfun\<close>); a call of it with the parameters that it has
  found on the stack is a \<open>kcall\<close>. What the kernel function does is an argument \<open>kern\<close>.
\<close>

section \<open>Numbers and functions\<close>

datatype SYSCALL_NR =
  SYS_GETPID | SYS_WRITE | SYS_MALLOC | SYS_FREE | SYS_FORK | SYS_READ | SYS_PUTCHAR |
  SYS_CLEAR | SYS_GETCWD | SYS_OPEN | SYS_CLOSE | SYS_LSEEK | SYS_UNLINK | SYS_MKDIR |
  SYS_OPENDIR | SYS_CLOSEDIR | SYS_CHDIR | SYS_RMDIR | SYS_READDIR | SYS_REWINDDIR | SYS_STAT |
  SYS_PS | SYS_EXECV

text \<open>The value of an enumerator is its position.\<close>

fun sys_nr :: "SYSCALL_NR \<Rightarrow> u32" where
  "sys_nr SYS_GETPID = 0"
| "sys_nr SYS_WRITE = 1"
| "sys_nr SYS_MALLOC = 2"
| "sys_nr SYS_FREE = 3"
| "sys_nr SYS_FORK = 4"
| "sys_nr SYS_READ = 5"
| "sys_nr SYS_PUTCHAR = 6"
| "sys_nr SYS_CLEAR = 7"
| "sys_nr SYS_GETCWD = 8"
| "sys_nr SYS_OPEN = 9"
| "sys_nr SYS_CLOSE = 10"
| "sys_nr SYS_LSEEK = 11"
| "sys_nr SYS_UNLINK = 12"
| "sys_nr SYS_MKDIR = 13"
| "sys_nr SYS_OPENDIR = 14"
| "sys_nr SYS_CLOSEDIR = 15"
| "sys_nr SYS_CHDIR = 16"
| "sys_nr SYS_RMDIR = 17"
| "sys_nr SYS_READDIR = 18"
| "sys_nr SYS_REWINDDIR = 19"
| "sys_nr SYS_STAT = 20"
| "sys_nr SYS_PS = 21"
| "sys_nr SYS_EXECV = 22"

datatype kfun =
  F_sys_getpid | F_sys_write | F_sys_malloc | F_sys_free | F_sys_fork | F_sys_read |
  F_sys_putchar | F_cls_screen | F_sys_getcwd | F_sys_open | F_sys_close | F_sys_lseek |
  F_sys_unlink | F_sys_mkdir | F_sys_opendir | F_sys_closedir | F_sys_chdir | F_sys_rmdir |
  F_sys_readdir | F_sys_rewinddir | F_sys_stat | F_sys_ps | F_sys_execv

text \<open>Parameters by the prototypes in \<^verbatim>\<open>fs/fs.h\<close>, \<^verbatim>\<open>mm/memory.h\<close>, \<^verbatim>\<open>proc/fork.h\<close>, \<^verbatim>\<open>proc/exec.h\<close> and \<^verbatim>\<open>proc/syscall-init.h\<close>.\<close>

datatype kcall =
  K_sys_getpid | K_sys_write u32 u32 u32 | K_sys_malloc u32 | K_sys_free u32 | K_sys_fork |
  K_sys_read u32 u32 u32 | K_sys_putchar u8 | K_cls_screen | K_sys_getcwd u32 u32 |
  K_sys_open u32 u8 | K_sys_close u32 | K_sys_lseek u32 u32 u8 | K_sys_unlink u32 |
  K_sys_mkdir u32 | K_sys_opendir u32 | K_sys_closedir u32 | K_sys_chdir u32 |
  K_sys_rmdir u32 | K_sys_readdir u32 | K_sys_rewinddir u32 | K_sys_stat u32 u32 | K_sys_ps |
  K_sys_execv u32 u32

record regs =
  eax :: u32
  ebx :: u32
  ecx :: u32
  edx :: u32

fun kcall_of :: "kfun \<Rightarrow> regs \<Rightarrow> kcall" where
  "kcall_of F_sys_getpid r = K_sys_getpid"
| "kcall_of F_sys_write r = K_sys_write (ebx r) (ecx r) (edx r)"
| "kcall_of F_sys_malloc r = K_sys_malloc (ebx r)"
| "kcall_of F_sys_free r = K_sys_free (ebx r)"
| "kcall_of F_sys_fork r = K_sys_fork"
| "kcall_of F_sys_read r = K_sys_read (ebx r) (ecx r) (edx r)"
| "kcall_of F_sys_putchar r = K_sys_putchar (ucast (ebx r))"
| "kcall_of F_cls_screen r = K_cls_screen"
| "kcall_of F_sys_getcwd r = K_sys_getcwd (ebx r) (ecx r)"
| "kcall_of F_sys_open r = K_sys_open (ebx r) (ucast (ecx r))"
| "kcall_of F_sys_close r = K_sys_close (ebx r)"
| "kcall_of F_sys_lseek r = K_sys_lseek (ebx r) (ecx r) (ucast (edx r))"
| "kcall_of F_sys_unlink r = K_sys_unlink (ebx r)"
| "kcall_of F_sys_mkdir r = K_sys_mkdir (ebx r)"
| "kcall_of F_sys_opendir r = K_sys_opendir (ebx r)"
| "kcall_of F_sys_closedir r = K_sys_closedir (ebx r)"
| "kcall_of F_sys_chdir r = K_sys_chdir (ebx r)"
| "kcall_of F_sys_rmdir r = K_sys_rmdir (ebx r)"
| "kcall_of F_sys_readdir r = K_sys_readdir (ebx r)"
| "kcall_of F_sys_rewinddir r = K_sys_rewinddir (ebx r)"
| "kcall_of F_sys_stat r = K_sys_stat (ebx r) (ecx r)"
| "kcall_of F_sys_ps r = K_sys_ps"
| "kcall_of F_sys_execv r = K_sys_execv (ebx r) (ecx r)"

section \<open>The kernel side\<close>

definition sys_getpid :: "'a ksched_scheme \<Rightarrow> u32" where
  "sys_getpid s = scast (pid (task s (running_thread s)))"

definition sys_putchar :: "u8 \<Rightarrow> display list" where
  "sys_putchar char_ascii = [Put_char (char_of (unat char_ascii))]"

definition syscall_nr :: nat where "syscall_nr = 32"

text \<open>One assignment of \<^verbatim>\<open>syscall_init\<close>.\<close>

definition install :: "SYSCALL_NR \<times> kfun \<Rightarrow> kfun option list result \<Rightarrow> kfun option list result" where
  "install e t =
     bindE t (\<lambda>t. if unat (sys_nr (fst e)) < length t then Inr (t[unat (sys_nr (fst e)) := Some (snd e)])
                 else Inl Out_of_bounds)"

definition syscall_init :: "kfun option list \<Rightarrow> (display list \<times> kfun option list) result" where
  "syscall_init syscall_table =
     bindE
      (fold install
        [(SYS_GETPID, F_sys_getpid), (SYS_WRITE, F_sys_write), (SYS_MALLOC, F_sys_malloc),
        (SYS_FREE, F_sys_free), (SYS_FORK, F_sys_fork), (SYS_READ, F_sys_read),
        (SYS_PUTCHAR, F_sys_putchar), (SYS_CLEAR, F_cls_screen), (SYS_GETCWD, F_sys_getcwd),
        (SYS_OPEN, F_sys_open), (SYS_CLOSE, F_sys_close), (SYS_LSEEK, F_sys_lseek),
        (SYS_UNLINK, F_sys_unlink), (SYS_MKDIR, F_sys_mkdir), (SYS_OPENDIR, F_sys_opendir),
        (SYS_CLOSEDIR, F_sys_closedir), (SYS_RMDIR, F_sys_rmdir), (SYS_READDIR, F_sys_readdir),
        (SYS_REWINDDIR, F_sys_rewinddir), (SYS_STAT, F_sys_stat), (SYS_CHDIR, F_sys_chdir),
        (SYS_PS, F_sys_ps), (SYS_EXECV, F_sys_execv)]
        (Inr syscall_table))
      (\<lambda>t. Inr ([Put_str (''syscall_init start'' @ [CHR 0x0A]), Put_str (''syscall_init done'' @ [CHR 0x0A])], t))"

text \<open>\<^verbatim>\<open>syscall_handler\<close>: the number is not compared with the size of the table. An entry without a function
  is a null pointer.\<close>

definition syscall_handler ::
  "kfun option list \<Rightarrow> (kcall \<Rightarrow> 's \<Rightarrow> (u32 \<times> 's) result) \<Rightarrow> regs \<Rightarrow> 's \<Rightarrow> (u32 \<times> 's) result" where
  "syscall_handler table kern r s =
     (if unat (eax r) < length table
      then (case table ! unat (eax r) of
              None \<Rightarrow> Inl Out_of_bounds
            | Some f \<Rightarrow> kern (kcall_of f r) s)
      else Inl Out_of_bounds)"

section \<open>The user side\<close>

text \<open>
  \<open>int80\<close> is the trap, from the registers at the instruction to the value of \<^verbatim>\<open>eax\<close> after it. Of a
  register that holds an eight bit argument the other bits are left as they were, and so are the registers
  that carry no argument.
\<close>

type_synonym 's trap = "regs \<Rightarrow> 's \<Rightarrow> (u32 \<times> 's) result"

definition low8 :: "u32 \<Rightarrow> u8 \<Rightarrow> u32" where
  "low8 old v = (old AND 0xffffff00) OR ucast v"

definition syscall0 :: "'s trap \<Rightarrow> SYSCALL_NR \<Rightarrow> 's trap" where
  "syscall0 int80 n r = int80 (r\<lparr>eax := sys_nr n\<rparr>)"

definition syscall1 :: "'s trap \<Rightarrow> SYSCALL_NR \<Rightarrow> u32 \<Rightarrow> 's trap" where
  "syscall1 int80 n a r = int80 (r\<lparr>eax := sys_nr n, ebx := a\<rparr>)"

definition syscall2 :: "'s trap \<Rightarrow> SYSCALL_NR \<Rightarrow> u32 \<Rightarrow> u32 \<Rightarrow> 's trap" where
  "syscall2 int80 n a b r = int80 (r\<lparr>eax := sys_nr n, ebx := a, ecx := b\<rparr>)"

definition syscall3 :: "'s trap \<Rightarrow> SYSCALL_NR \<Rightarrow> u32 \<Rightarrow> u32 \<Rightarrow> u32 \<Rightarrow> 's trap" where
  "syscall3 int80 n a b c r = int80 (r\<lparr>eax := sys_nr n, ebx := a, ecx := b, edx := c\<rparr>)"

definition getpid :: "'s trap \<Rightarrow> 's trap" where
  "getpid int80 r = syscall0 int80 SYS_GETPID r"

definition write_user :: "'s trap \<Rightarrow> u32 \<Rightarrow> u32 \<Rightarrow> u32 \<Rightarrow> 's trap" where
  "write_user int80 fd buf count r = syscall3 int80 SYS_WRITE fd buf count r"

definition malloc :: "'s trap \<Rightarrow> u32 \<Rightarrow> 's trap" where
  "malloc int80 sz r = syscall1 int80 SYS_MALLOC sz r"

definition free :: "'s trap \<Rightarrow> u32 \<Rightarrow> 's trap" where
  "free int80 ptr r = syscall1 int80 SYS_FREE ptr r"

text \<open>\<^verbatim>\<open>pid_t\<close> has sixteen bits.\<close>

definition fork :: "'s trap \<Rightarrow> regs \<Rightarrow> 's \<Rightarrow> (16 word \<times> 's) result" where
  "fork int80 r s = bindE (syscall0 int80 SYS_FORK r s) (\<lambda>(v, s). Inr (ucast v, s))"

definition read :: "'s trap \<Rightarrow> u32 \<Rightarrow> u32 \<Rightarrow> u32 \<Rightarrow> 's trap" where
  "read int80 fd buf count r = syscall3 int80 SYS_READ fd buf count r"

definition putchar :: "'s trap \<Rightarrow> u8 \<Rightarrow> 's trap" where
  "putchar int80 char_ascii r = syscall1 int80 SYS_PUTCHAR (low8 (ebx r) char_ascii) r"

definition clear :: "'s trap \<Rightarrow> 's trap" where
  "clear int80 r = syscall0 int80 SYS_CLEAR r"

definition getcwd :: "'s trap \<Rightarrow> u32 \<Rightarrow> u32 \<Rightarrow> 's trap" where
  "getcwd int80 buf sz r = syscall2 int80 SYS_GETCWD buf sz r"

definition open_user :: "'s trap \<Rightarrow> u32 \<Rightarrow> u8 \<Rightarrow> 's trap" where
  "open_user int80 pathname flag r = syscall2 int80 SYS_OPEN pathname (low8 (ecx r) flag) r"

definition close :: "'s trap \<Rightarrow> u32 \<Rightarrow> 's trap" where
  "close int80 fd r = syscall1 int80 SYS_CLOSE fd r"

definition lseek :: "'s trap \<Rightarrow> u32 \<Rightarrow> u32 \<Rightarrow> u8 \<Rightarrow> 's trap" where
  "lseek int80 fd offset whence r = syscall3 int80 SYS_LSEEK fd offset (low8 (edx r) whence) r"

definition unlink :: "'s trap \<Rightarrow> u32 \<Rightarrow> 's trap" where
  "unlink int80 pathname r = syscall1 int80 SYS_UNLINK pathname r"

definition mkdir :: "'s trap \<Rightarrow> u32 \<Rightarrow> 's trap" where
  "mkdir int80 pathname r = syscall1 int80 SYS_MKDIR pathname r"

definition opendir :: "'s trap \<Rightarrow> u32 \<Rightarrow> 's trap" where
  "opendir int80 path r = syscall1 int80 SYS_OPENDIR path r"

definition closedir :: "'s trap \<Rightarrow> u32 \<Rightarrow> 's trap" where
  "closedir int80 dir r = syscall1 int80 SYS_CLOSEDIR dir r"

definition rmdir :: "'s trap \<Rightarrow> u32 \<Rightarrow> 's trap" where
  "rmdir int80 pathname r = syscall1 int80 SYS_RMDIR pathname r"

definition readdir :: "'s trap \<Rightarrow> u32 \<Rightarrow> 's trap" where
  "readdir int80 dir r = syscall1 int80 SYS_READDIR dir r"

definition rewinddir :: "'s trap \<Rightarrow> u32 \<Rightarrow> 's trap" where
  "rewinddir int80 dir r = syscall1 int80 SYS_REWINDDIR dir r"

definition stat_user :: "'s trap \<Rightarrow> u32 \<Rightarrow> u32 \<Rightarrow> 's trap" where
  "stat_user int80 path buf r = syscall2 int80 SYS_STAT path buf r"

definition chdir :: "'s trap \<Rightarrow> u32 \<Rightarrow> 's trap" where
  "chdir int80 path r = syscall1 int80 SYS_CHDIR path r"

definition ps :: "'s trap \<Rightarrow> 's trap" where
  "ps int80 r = syscall0 int80 SYS_PS r"

definition execv :: "'s trap \<Rightarrow> u32 \<Rightarrow> u32 \<Rightarrow> 's trap" where
  "execv int80 path argv r = syscall2 int80 SYS_EXECV path argv r"

section \<open>Every user function reaches its kernel function\<close>

lemma low8_back [simp]: "ucast (low8 old v) = v"
proof -
  have "(0xffffff00 :: u32) = NOT (mask 8)" by (simp add: mask_eq_exp_minus_1)
  note m = this
  show ?thesis unfolding low8_def m by (auto intro!: bit_word_eqI simp: bit_simps)
qed

definition installed :: "(SYSCALL_NR \<times> kfun) list" where
  "installed =
    [(SYS_GETPID, F_sys_getpid), (SYS_WRITE, F_sys_write), (SYS_MALLOC, F_sys_malloc),
     (SYS_FREE, F_sys_free), (SYS_FORK, F_sys_fork), (SYS_READ, F_sys_read),
     (SYS_PUTCHAR, F_sys_putchar), (SYS_CLEAR, F_cls_screen), (SYS_GETCWD, F_sys_getcwd),
     (SYS_OPEN, F_sys_open), (SYS_CLOSE, F_sys_close), (SYS_LSEEK, F_sys_lseek),
     (SYS_UNLINK, F_sys_unlink), (SYS_MKDIR, F_sys_mkdir), (SYS_OPENDIR, F_sys_opendir),
     (SYS_CLOSEDIR, F_sys_closedir), (SYS_CHDIR, F_sys_chdir), (SYS_RMDIR, F_sys_rmdir),
     (SYS_READDIR, F_sys_readdir), (SYS_REWINDDIR, F_sys_rewinddir), (SYS_STAT, F_sys_stat),
     (SYS_PS, F_sys_ps), (SYS_EXECV, F_sys_execv)]"

text \<open>The table after \<^verbatim>\<open>syscall_init\<close>, in the order of the numbers; the rest of it is as before.\<close>

lemma syscall_init_eq:
  assumes "length t = syscall_nr"
  shows "syscall_init t = Inr ([Put_str (''syscall_init start'' @ [CHR 0x0A]), Put_str (''syscall_init done'' @ [CHR 0x0A])],
           map (Some \<circ> snd) installed @ drop 23 t)"
proof -
  have "length (take 23 t) = Suc (Suc (Suc (Suc (Suc (Suc (Suc (Suc (Suc (Suc (Suc (Suc
      (Suc (Suc (Suc (Suc (Suc (Suc (Suc (Suc (Suc (Suc (Suc 0))))))))))))))))))))))"
    using assms by (simp add: syscall_nr_def)
  then obtain xs ys where t: "t = xs @ ys" and len: "length xs = Suc (Suc (Suc (Suc (Suc (Suc (Suc (Suc (Suc
      (Suc (Suc (Suc (Suc (Suc (Suc (Suc (Suc (Suc (Suc (Suc (Suc (Suc (Suc 0))))))))))))))))))))))"
    by (metis append_take_drop_id)
  show ?thesis
    unfolding t using len unfolding length_Suc_conv
    by (elim exE conjE) (simp add: syscall_init_def install_def installed_def)
qed

lemmas user_functions =
  getpid_def write_user_def malloc_def free_def fork_def read_def putchar_def clear_def getcwd_def
  open_user_def close_def lseek_def unlink_def mkdir_def opendir_def closedir_def rmdir_def
  readdir_def rewinddir_def stat_user_def chdir_def ps_def execv_def

lemma syscall_table_entry:
  assumes "length t = syscall_nr" "syscall_init t = Inr (out, table)" "eax r = sys_nr n"
  shows "syscall_handler table kern r s = kern (kcall_of (snd (installed ! unat (sys_nr n))) r) s"
proof -
  have table: "table = map (Some \<circ> snd) installed @ drop 23 t" "length table = 32"
    using assms(1,2) unfolding syscall_init_eq [OF assms(1)]
    by (simp_all add: installed_def syscall_nr_def del: list.map) auto
  moreover have "unat (sys_nr n) < length installed" by (cases n) (simp_all add: installed_def)
  ultimately show ?thesis using assms(3) by (simp add: syscall_handler_def nth_append)
qed

lemmas traps = syscall0_def syscall1_def syscall2_def syscall3_def

lemma syscall_traps:
  assumes "length t = syscall_nr" "syscall_init t = Inr (out, table)"
  defines "f \<equiv> \<lambda>n. snd (installed ! unat (sys_nr n))"
  shows "syscall0 (syscall_handler table kern) n r s = kern (kcall_of (f n) (r\<lparr>eax := sys_nr n\<rparr>)) s"
    and "syscall1 (syscall_handler table kern) n a r s =
           kern (kcall_of (f n) (r\<lparr>eax := sys_nr n, ebx := a\<rparr>)) s"
    and "syscall2 (syscall_handler table kern) n a b r s =
           kern (kcall_of (f n) (r\<lparr>eax := sys_nr n, ebx := a, ecx := b\<rparr>)) s"
    and "syscall3 (syscall_handler table kern) n a b c r s =
           kern (kcall_of (f n) (r\<lparr>eax := sys_nr n, ebx := a, ecx := b, edx := c\<rparr>)) s"
  unfolding traps f_def by (rule syscall_table_entry [OF assms(1,2)], simp)+

text \<open>C25: After \<^verbatim>\<open>syscall_init\<close> each function of \<^verbatim>\<open>lib/user/syscall.c\<close>, called with any contents of the registers,
  calls the kernel function it is named after, once, with its own arguments in their order, and returns
  what that returns; the orders of the enumeration, of the assignments and of the functions differ.\<close>

theorem user_calls_reach_kernel:
  assumes "length t = syscall_nr" "syscall_init t = Inr (out, table)" "int80 = syscall_handler table kern"
  shows
    "getpid int80 r s = kern K_sys_getpid s \<and>
    write_user int80 fd buf count r s = kern (K_sys_write fd buf count) s \<and>
    malloc int80 sz r s = kern (K_sys_malloc sz) s \<and>
    free int80 ptr r s = kern (K_sys_free ptr) s \<and>
    fork int80 r s = bindE (kern K_sys_fork s) (\<lambda>(v, s). Inr (ucast v, s)) \<and>
    read int80 fd buf count r s = kern (K_sys_read fd buf count) s \<and>
    putchar int80 char_ascii r s = kern (K_sys_putchar char_ascii) s \<and>
    clear int80 r s = kern K_cls_screen s \<and>
    getcwd int80 buf sz r s = kern (K_sys_getcwd buf sz) s \<and>
    open_user int80 pathname flag r s = kern (K_sys_open pathname flag) s \<and>
    close int80 fd r s = kern (K_sys_close fd) s \<and>
    lseek int80 fd offset whence r s = kern (K_sys_lseek fd offset whence) s \<and>
    unlink int80 pathname r s = kern (K_sys_unlink pathname) s \<and>
    mkdir int80 pathname r s = kern (K_sys_mkdir pathname) s \<and>
    opendir int80 path r s = kern (K_sys_opendir path) s \<and>
    closedir int80 dir r s = kern (K_sys_closedir dir) s \<and>
    rmdir int80 pathname r s = kern (K_sys_rmdir pathname) s \<and>
    readdir int80 dir r s = kern (K_sys_readdir dir) s \<and>
    rewinddir int80 dir r s = kern (K_sys_rewinddir dir) s \<and>
    stat_user int80 path buf r s = kern (K_sys_stat path buf) s \<and>
    chdir int80 path r s = kern (K_sys_chdir path) s \<and>
    ps int80 r s = kern K_sys_ps s \<and>
    execv int80 path argv r s = kern (K_sys_execv path argv) s"
  by (simp add: assms(3) user_functions syscall_traps [OF assms(1,2)] installed_def)

theorem user_calls_reach_kernel_witness:
  "\<exists>out table. syscall_init (replicate syscall_nr None) = Inr (out, table) \<and>
     lseek (syscall_handler table (\<lambda>c s. Inr (7, c # s))) 3 10 1 \<lparr>eax = 0, ebx = 0, ecx = 0, edx = 0xffffffff\<rparr> []
       = Inr (7, [K_sys_lseek 3 10 1])"
proof -
  obtain out table where t: "syscall_init (replicate syscall_nr None) = Inr (out, table)"
    using syscall_init_eq [of "replicate syscall_nr None"] by (auto simp: syscall_nr_def)
  then show ?thesis
    using user_calls_reach_kernel [OF _ t refl, of "\<lambda>c s. Inr (7, c # s)"] by simp
qed

text \<open>A number that has no system call is not refused: with a table that starts as zero the handler calls a null
  pointer or reads its target behind the table.\<close>

lemma unknown_number_faults:
  assumes "syscall_init (replicate syscall_nr None) = Inr (out, table)" "23 \<le> eax r"
  shows "syscall_handler table kern r s = Inl Out_of_bounds"
proof -
  have table: "table = map (Some \<circ> snd) installed @ replicate 9 None"
    using assms(1) syscall_init_eq [of "replicate syscall_nr None"] by (simp add: syscall_nr_def)
  have "23 \<le> unat (eax r)" using assms(2) by (simp add: word_le_nat_alt)
  then show ?thesis by (auto simp: syscall_handler_def table installed_def nth_append)
qed

end
