(* ===== verification/Sync.thy ===== *)
theory Sync
  imports Sched
begin

text \<open>
  \<^verbatim>\<open>sched/sync.c\<close>: semaphores and recursive locks on top of the scheduler. A semaphore is a
  \<^verbatim>\<open>uint8_t\<close> and a list of waiting threads; a lock is a holder, a repeat count and a binary
  semaphore. Both live at an address: the semaphore of a lock is its second member, at offset 4,
  and the list of waiters of a semaphore is at offset 4 of the semaphore.

  \<^verbatim>\<open>sema_down\<close> may give up the processor inside its loop. One evaluation of the loop condition with
  what follows up to the next switch or the return is \<open>sema_try\<close>: it yields \<open>True\<close> when
  \<^verbatim>\<open>sema_down\<close> has returned, \<open>False\<close> when the thread has blocked and another one runs; the
  blocked thread continues with \<open>sema_down_resume\<close>. Its local \<^verbatim>\<open>old_status\<close> is \<open>sm_old\<close>.

  The second half composes them: threads that take and release one lock, preempted by the timer
  between the steps where interrupts are on, as a step function over the interleavings. The assignments behind \<^verbatim>\<open>sema_down\<close> in
  \<^verbatim>\<open>lock_acquire\<close> (\<open>lock_acquired\<close>) and those before \<^verbatim>\<open>sema_up\<close> in \<^verbatim>\<open>lock_release\<close> (\<open>lock_release_begin\<close>) are one
  step each: only the thread that has the semaphore writes the holder and the count, and the others only compare the
  holder with themselves.
\<close>

section \<open>State and operations\<close>

record klock = ksched +
  sm_value :: "u32 \<Rightarrow> u8"
  sm_old :: "u32 \<Rightarrow> intr_status"
  lk_holder :: "u32 \<Rightarrow> u32"
  lk_repeat :: "u32 \<Rightarrow> u32"

definition sema_waiters :: "u32 \<Rightarrow> u32" where
  "sema_waiters psema = psema + 4"

definition lock_sema :: "u32 \<Rightarrow> u32" where
  "lock_sema lk = lk + 4"

definition sema_init :: "u32 \<Rightarrow> u8 \<Rightarrow> 'a klock_scheme \<Rightarrow> 'a klock_scheme" where
  "sema_init psema value s =
     on_mm (list_init (sema_waiters psema)) (s\<lparr>sm_value := (sm_value s)(psema := value)\<rparr>)"

definition lock_init :: "u32 \<Rightarrow> 'a klock_scheme \<Rightarrow> 'a klock_scheme" where
  "lock_init lk s =
     sema_init (lock_sema lk) 1
       (s\<lparr>lk_holder := (lk_holder s)(lk := 0), lk_repeat := (lk_repeat s)(lk := 0)\<rparr>)"

definition sema_try :: "u32 \<Rightarrow> 'a klock_scheme \<Rightarrow> (bool \<times> 'a klock_scheme) result" where
  "sema_try psema s =
     (let cur = running_thread s in
      if sm_value s psema = 0
      then not_in (sema_waiters psema) (general_tag cur) s
             (bindE (thread_block TASK_BLOCKED (on_mm (list_append (sema_waiters psema) (general_tag cur)) s))
                (\<lambda>s. Inr (False, s)))
      else
        (let s = s\<lparr>sm_value := (sm_value s)(psema := sm_value s psema - 1)\<rparr> in
         assertE (sm_value s psema = 0)
           (Inr (True, on_mm (\<lambda>m. snd (intr_set_status (sm_old s cur) m)) s))))"

definition sema_down :: "u32 \<Rightarrow> 'a klock_scheme \<Rightarrow> (bool \<times> 'a klock_scheme) result" where
  "sema_down psema s =
     (let (old_status, m) = intr_disable (mm s) in
      sema_try psema (s\<lparr>mm := m, sm_old := (sm_old s)(running_thread s := old_status)\<rparr>))"

definition sema_down_resume :: "u32 \<Rightarrow> 'a klock_scheme \<Rightarrow> (bool \<times> 'a klock_scheme) result" where
  "sema_down_resume psema s = sema_try psema (thread_resume s)"

definition sema_up :: "u32 \<Rightarrow> 'a klock_scheme \<Rightarrow> 'a klock_scheme result" where
  "sema_up psema s =
     (let (old_status, m) = intr_disable (mm s); s = s\<lparr>mm := m\<rparr> in
      assertE (sm_value s psema = 0)
        (bindE
          (if \<not> list_empty (sema_waiters psema) (mm s)
           then (let (tag, m) = list_pop (sema_waiters psema) (mm s) in
                 thread_unblock (tag AND 0xfffff000) (s\<lparr>mm := m\<rparr>))
           else Inr s)
          (\<lambda>s. let s = s\<lparr>sm_value := (sm_value s)(psema := sm_value s psema + 1)\<rparr> in
               assertE (sm_value s psema = 1)
                 (Inr (on_mm (\<lambda>m. snd (intr_set_status old_status m)) s)))))"

text \<open>\<^verbatim>\<open>lock_acquire\<close> up to the return of \<^verbatim>\<open>sema_down\<close>, and the three statements after it.\<close>

definition lock_acquire :: "u32 \<Rightarrow> 'a klock_scheme \<Rightarrow> (bool \<times> 'a klock_scheme) result" where
  "lock_acquire lk s =
     (if lk_holder s lk \<noteq> running_thread s then sema_down (lock_sema lk) s
      else Inr (True, s\<lparr>lk_repeat := (lk_repeat s)(lk := lk_repeat s lk + 1)\<rparr>))"

definition lock_acquired :: "u32 \<Rightarrow> 'a klock_scheme \<Rightarrow> 'a klock_scheme result" where
  "lock_acquired lk s =
     (let s = s\<lparr>lk_holder := (lk_holder s)(lk := running_thread s)\<rparr> in
      assertE (lk_repeat s lk = 0) (Inr (s\<lparr>lk_repeat := (lk_repeat s)(lk := 1)\<rparr>)))"

text \<open>\<^verbatim>\<open>lock_release\<close> up to the call of \<^verbatim>\<open>sema_up\<close>: \<open>False\<close> when an inner release has returned.\<close>

definition lock_release_begin :: "u32 \<Rightarrow> 'a klock_scheme \<Rightarrow> (bool \<times> 'a klock_scheme) result" where
  "lock_release_begin lk s =
     assertE (lk_holder s lk = running_thread s)
       (if lk_repeat s lk > 1
        then Inr (False, s\<lparr>lk_repeat := (lk_repeat s)(lk := lk_repeat s lk - 1)\<rparr>)
        else assertE (lk_repeat s lk = 1)
          (Inr (True, s\<lparr>lk_holder := (lk_holder s)(lk := 0), lk_repeat := (lk_repeat s)(lk := 0)\<rparr>)))"

definition lock_release :: "u32 \<Rightarrow> 'a klock_scheme \<Rightarrow> 'a klock_scheme result" where
  "lock_release lk s =
     bindE (lock_release_begin lk s) (\<lambda>(outer, s). if outer then sema_up (lock_sema lk) s else Inr s)"

section \<open>Threads that share a lock\<close>

text \<open>
  Where a thread is in its use of the lock: outside, in the loop of \<^verbatim>\<open>sema_down\<close>, back from
  \<^verbatim>\<open>sema_down\<close> but not yet the holder, holding, or between giving up the holder field and
  \<^verbatim>\<open>sema_up\<close>. \<open>cont\<close> says how a thread that is not running continues: it returns from the
  timer interrupt that preempted it, which turns interrupts on again, or from \<^verbatim>\<open>thread_block\<close>.
\<close>

datatype lock_pc = Outside | Waits | Got | Holds | Gives

datatype cont = Runs | In_interrupt | In_block

record lsys =
  sys :: klock
  pc :: "u32 \<Rightarrow> lock_pc"
  cont :: "u32 \<Rightarrow> cont"

datatype action = Acquire | Acquired | Release | Up | Preempt | Resume

definition cur :: "lsys \<Rightarrow> u32" where
  "cur z = running_thread (sys z)"

definition int_on :: "lsys \<Rightarrow> bool" where
  "int_on z \<longleftrightarrow> intr_get_status (mm (sys z)) = INTR_ON"

text \<open>Which action the running thread can take. A repeat count about to wrap is excluded.\<close>

fun enabled :: "u32 \<Rightarrow> action \<Rightarrow> lsys \<Rightarrow> bool" where
  "enabled lk Acquire z \<longleftrightarrow> int_on z \<and>
     (pc z (cur z) = Outside \<or> pc z (cur z) = Holds \<and> lk_repeat (sys z) lk < 0xffffffff)"
| "enabled lk Acquired z \<longleftrightarrow> int_on z \<and> pc z (cur z) = Got"
| "enabled lk Release z \<longleftrightarrow> int_on z \<and> pc z (cur z) = Holds"
| "enabled lk Up z \<longleftrightarrow> int_on z \<and> pc z (cur z) = Gives"
| "enabled lk Preempt z \<longleftrightarrow> int_on z"
| "enabled lk Resume z \<longleftrightarrow> \<not> int_on z"

definition after_down :: "u32 \<Rightarrow> lsys \<Rightarrow> bool \<times> klock \<Rightarrow> lsys" where
  "after_down p z r =
     \<lparr>sys = snd r, pc = (pc z)(p := if fst r then Got else Waits),
      cont = (cont z)(p := if fst r then Runs else In_block)\<rparr>"

fun perform :: "u32 \<Rightarrow> action \<Rightarrow> lsys \<Rightarrow> lsys result" where
  "perform lk Acquire z =
     bindE (lock_acquire lk (sys z)) (\<lambda>r.
       if pc z (cur z) = Holds then Inr (z\<lparr>sys := snd r\<rparr>) else Inr (after_down (cur z) z r))"
| "perform lk Acquired z =
     bindE (lock_acquired lk (sys z)) (\<lambda>s. Inr (z\<lparr>sys := s, pc := (pc z)(cur z := Holds)\<rparr>))"
| "perform lk Release z =
     bindE (lock_release_begin lk (sys z)) (\<lambda>(outer, s).
       Inr (z\<lparr>sys := s, pc := (pc z)(cur z := if outer then Gives else Holds)\<rparr>))"
| "perform lk Up z =
     bindE (sema_up (lock_sema lk) (sys z)) (\<lambda>s. Inr (z\<lparr>sys := s, pc := (pc z)(cur z := Outside)\<rparr>))"
| "perform lk Preempt z =
     bindE (schedule (on_mm (\<lambda>m. snd (intr_disable m)) (sys z))) (\<lambda>s.
       Inr (z\<lparr>sys := s, cont := (cont z)(cur z := In_interrupt)\<rparr>))"
| "perform lk Resume z =
     (if cont z (cur z) = In_block
      then bindE (sema_down_resume (lock_sema lk) (sys z)) (\<lambda>r. Inr (after_down (cur z) z r))
      else Inr (z\<lparr>sys := on_mm (\<lambda>m. snd (intr_enable m)) (sys z), cont := (cont z)(cur z := Runs)\<rparr>))"

inductive reach :: "u32 \<Rightarrow> lsys \<Rightarrow> lsys \<Rightarrow> bool" for lk where
  start: "reach lk z z"
| step: "reach lk z y \<Longrightarrow> enabled lk a y \<Longrightarrow> perform lk a y = Inr x \<Longrightarrow> reach lk z x"

section \<open>Lists of the lock and of the scheduler\<close>

text \<open>\<open>lists_on lk B T r R W s\<close>: of the threads \<open>T\<close>, \<open>r\<close> runs, \<open>R\<close> is ready, \<open>W\<close> waits for the
  lock and \<open>B\<close> is blocked on something else, each thread in exactly one place and its status in accord.\<close>

abbreviation wait_list :: "u32 \<Rightarrow> u32" where
  "wait_list lk \<equiv> sema_waiters (lock_sema lk)"

definition lists_on :: "u32 \<Rightarrow> u32 set \<Rightarrow> u32 set \<Rightarrow> u32 \<Rightarrow> u32 list \<Rightarrow> u32 list \<Rightarrow> 'a ksched_scheme \<Rightarrow> bool" where
  "lists_on lk B T r R W s \<longleftrightarrow>
     sched_rel T r R s \<and> T = set (r # R) \<union> set W \<union> B \<and> set (r # R) \<inter> (set W \<union> B) = {} \<and> set W \<inter> B = {} \<and>
     klist (mm s) (wait_list lk) (map general_tag W) \<and>
     foot (wait_list lk) [] \<inter> (foot (thread_ready_list s) [] \<union> general_tag ` T) = {} \<and>
     status (task s r) = TASK_RUNNING \<and> (\<forall>p\<in>set W \<union> B. status (task s p) = TASK_BLOCKED)"

abbreviation lists_inv :: "u32 \<Rightarrow> u32 set \<Rightarrow> u32 \<Rightarrow> u32 list \<Rightarrow> u32 list \<Rightarrow> 'a ksched_scheme \<Rightarrow> bool" where
  "lists_inv lk \<equiv> lists_on lk {}"

lemma lists_cong:
  assumes "prev (mm t) = prev (mm s)" "nxt (mm t) = nxt (mm s)" "esp t = esp s" "task t = task s"
    "thread_ready_list t = thread_ready_list s"
  shows "lists_on lk B T r R W t = lists_on lk B T r R W (s :: 'a ksched_scheme)"
  using assms klist_field_cong [of "mm t" "mm s"]
  by (simp add: lists_on_def sched_rel_def running_thread_def)

lemma more_klock:
  fixes s t :: "'a klock_scheme"
  assumes "ksched.more t = ksched.more s"
  shows "sm_value t = sm_value s" "sm_old t = sm_old s" "lk_holder t = lk_holder s" "lk_repeat t = lk_repeat s"
  using assms by (cases s; cases t; simp)+

lemma on_mm_klock [sched_simps]:
  fixes s :: "'a klock_scheme"
  shows "sm_value (on_mm f s) = sm_value s" "sm_old (on_mm f s) = sm_old s"
    "lk_holder (on_mm f s) = lk_holder s" "lk_repeat (on_mm f s) = lk_repeat s"
  by (simp_all add: on_mm_def)

lemma blocking_fields [sched_simps]:
  "ksched.more (blocking st s) = ksched.more s" "thread_ready_list (blocking st s) = thread_ready_list s"
    "mm (blocking st s) = snd (intr_disable (mm s))"
    "blk_old (blocking st s) = (blk_old s)(running_thread s := fst (intr_disable (mm s)))"
  by (simp_all add: blocking_def sched_simps)

text \<open>The processor goes to the first ready thread, or to the idle thread when there is none.\<close>

definition next_up :: "u32 set \<Rightarrow> u32 list \<Rightarrow> u32 \<Rightarrow> u32 set \<Rightarrow> u32 \<Rightarrow> u32 list \<Rightarrow> bool" where
  "next_up B R idle B' n R' \<longleftrightarrow> R = n # R' \<and> B' = B \<or> R = [] \<and> R' = [] \<and> n = idle \<and> n \<in> B \<and> B' = B - {n}"

definition blocks_to ::
  "u32 \<Rightarrow> u32 set \<Rightarrow> u32 set \<Rightarrow> u32 \<Rightarrow> u32 list \<Rightarrow> u32 list \<Rightarrow> 'a ksched_scheme \<Rightarrow> 'a ksched_scheme \<Rightarrow> bool" where
  "blocks_to lk B T n R W s s' \<longleftrightarrow>
     lists_on lk B T n R W s' \<and> intr_get_status (mm s') = INTR_OFF \<and> ksched.more s' = ksched.more s \<and>
     blk_old s' = (blk_old s)(running_thread s := INTR_OFF) \<and> idle_thread s' = idle_thread s"

lemma block_switches:
  assumes rel: "sched_rel T r R s" and st: "\<And>p. p \<in> B \<Longrightarrow> status (task s p) = TASK_BLOCKED"
    and B: "B \<subseteq> T" "set (r # R) \<inter> B = {}" and nx: "next_up B R (idle_thread s) B' n R'"
  shows "\<exists>s'. thread_block TASK_BLOCKED s = Inr s' \<and> sched_rel T n R' s' \<and>
      sched_frame (set (n # R')) (blocking TASK_BLOCKED s) s' \<and>
      (\<forall>p. status (task s' p) = (if p = n then TASK_RUNNING else if p = r then TASK_BLOCKED else status (task s p)))"
proof -
  note b = blocking_rel [OF rel, of TASK_BLOCKED]
  have wt: "waiting TASK_BLOCKED" by (simp add: waiting_def)
  show ?thesis
    unfolding thread_block_eq [OF wt] using nx unfolding next_up_def
  proof
    assume "R = n # R' \<and> B' = B"
    then show "\<exists>s'. schedule (blocking TASK_BLOCKED s) = Inr s' \<and> sched_rel T n R' s' \<and>
        sched_frame (set (n # R')) (blocking TASK_BLOCKED s) s' \<and>
        (\<forall>p. status (task s' p) = (if p = n then TASK_RUNNING else if p = r then TASK_BLOCKED else status (task s p)))"
      using schedule_blocked [of T r n R', OF _ b(2)] b(1) by (auto simp: b(3))
  next
    assume i: "R = [] \<and> R' = [] \<and> n = idle_thread s \<and> n \<in> B \<and> B' = B - {n}"
    then have "waiting (status (task (blocking TASK_BLOCKED s) r))"
      "waiting (status (task (blocking TASK_BLOCKED s) (idle_thread (blocking TASK_BLOCKED s))))"
      "idle_thread (blocking TASK_BLOCKED s) \<in> T" "sched_rel T r [] (blocking TASK_BLOCKED s)"
      using b st B wt by auto
    from schedule_idle [OF this(4) b(2) this(1,3,2)]
    show "\<exists>s'. schedule (blocking TASK_BLOCKED s) = Inr s' \<and> sched_rel T n R' s' \<and>
        sched_frame (set (n # R')) (blocking TASK_BLOCKED s) s' \<and>
        (\<forall>p. status (task s' p) = (if p = n then TASK_RUNNING else if p = r then TASK_BLOCKED else status (task s p)))"
      using i by (auto simp: b(3,5))
  qed
qed

text \<open>The running thread blocks on something else (\<open>V = W\<close>), or it has joined the waiters of the lock.\<close>

lemma block_next:
  assumes rel: "sched_rel T r R s"
    and T: "T = set (r # R) \<union> set W \<union> B" "set (r # R) \<inter> (set W \<union> B) = {}" "set W \<inter> B = {}"
    and w: "klist (mm s) (wait_list lk) (map general_tag V)"
    and ft: "foot (wait_list lk) [] \<inter> (foot (thread_ready_list s) [] \<union> general_tag ` T) = {}"
    and st: "\<And>p. p \<in> set W \<union> B \<Longrightarrow> status (task s p) = TASK_BLOCKED"
    and off: "intr_get_status (mm s) = INTR_OFF" and nx: "next_up B R (idle_thread s) B' n R'"
    and V: "V = W \<and> B'' = insert r B' \<or> V = W @ [r] \<and> B'' = B'"
  shows "\<exists>s'. thread_block TASK_BLOCKED s = Inr s' \<and> blocks_to lk B'' T n R' V s s'"
proof -
  have r: "running_thread s = r" "r \<notin> set R"
    and tT: "\<And>p. p \<in> T \<Longrightarrow> general_tag p \<notin> foot (thread_ready_list s) []"
    using rel unfolding sched_rel_def by blast+
  note b = blocking_rel [OF rel, of TASK_BLOCKED]
  have "distinct (map general_tag R)" using rel kl.holds_distinct unfolding sched_rel_def by blast
  then have nT: "n \<in> T" "n \<noteq> r" "n \<notin> set W" "set R' \<subseteq> set R" "n \<notin> set R'"
    using nx T r by (auto simp: distinct_map next_up_def)
  obtain s' where s': "thread_block TASK_BLOCKED s = Inr s'" "sched_rel T n R' s'"
      "sched_frame (set (n # R')) (blocking TASK_BLOCKED s) s'"
      "\<And>p. status (task s' p) = (if p = n then TASK_RUNNING else if p = r then TASK_BLOCKED else status (task s p))"
    using block_switches [OF rel _ _ _ nx] st T by blast
  have offm: "fst (intr_disable (mm s)) = INTR_OFF"
    using off by (simp add: intr_disable_def intr_get_status_def)
  have same: "thread_ready_list s' = thread_ready_list s" "ksched.more s' = ksched.more s"
    "blk_old s' = (blk_old s)(running_thread s := INTR_OFF)" "idle_thread s' = idle_thread s"
    using s'(3) offm by (simp_all add: sched_frame_def sched_simps b(5))
  have "foot (wait_list lk) (map general_tag V) \<inter> (foot (thread_ready_list (blocking TASK_BLOCKED s)) [] \<union>
      general_tag ` set (n # R')) = {}"
    unfolding foot_tags using ft tT T nT nx V r by (auto simp: sched_simps next_up_def)
  then have "klist (mm s') (wait_list lk) (map general_tag V)"
    using s'(3) w unfolding sched_frame_def by (simp add: sched_simps disabled_list)
  moreover have "T = set (n # R') \<union> set V \<union> B''" "set (n # R') \<inter> (set V \<union> B'') = {}" "set V \<inter> B'' = {}"
    using nx T r nT V by (auto simp: next_up_def)
  moreover have "\<forall>p\<in>set V \<union> B''. status (task s' p) = TASK_BLOCKED"
    using nx T nT st V s'(4) by (auto simp: next_up_def)
  moreover have "intr_get_status (mm s') = INTR_OFF" using frame_flag [OF s'(3)] b(2) by simp
  ultimately have "blocks_to lk B'' T n R' V s s'"
    using s'(2,4) ft same unfolding blocks_to_def lists_on_def by simp
  then show ?thesis using s'(1) by blast
qed

lemma try_waits:
  fixes s :: "'a klock_scheme"
  assumes inv: "lists_on lk B T r R W s" and z: "sm_value s (lock_sema lk) = 0"
    and off: "intr_get_status (mm s) = INTR_OFF" and nx: "next_up B R (idle_thread s) B' n R'"
  shows "\<exists>s'. sema_try (lock_sema lk) s = Inr (False, s') \<and> blocks_to lk B' T n R' (W @ [r]) s s'"
proof -
  have rel: "sched_rel T r R s" and T: "T = set (r # R) \<union> set W \<union> B" "set (r # R) \<inter> (set W \<union> B) = {}" "set W \<inter> B = {}"
    and w: "klist (mm s) (wait_list lk) (map general_tag W)"
    and ft: "foot (wait_list lk) [] \<inter> (foot (thread_ready_list s) [] \<union> general_tag ` T) = {}"
    and st: "\<And>p. p \<in> set W \<union> B \<Longrightarrow> status (task s p) = TASK_BLOCKED"
    using inv unfolding lists_on_def by blast+
  have r: "running_thread s = r" "r \<notin> set R" and l: "klist (mm s) (thread_ready_list s) (map general_tag R)"
    and tT: "\<And>p. p \<in> T \<Longrightarrow> general_tag p \<notin> foot (thread_ready_list s) []"
    using rel unfolding sched_rel_def by blast+
  let ?m = "list_append (wait_list lk) (general_tag r) (mm s)"
  let ?t = "on_mm (list_append (wait_list lk) (general_tag r)) s"
  have rw: "general_tag r \<notin> foot (wait_list lk) (map general_tag W)" using T ft by (auto simp: foot_tags)
  have w': "klist ?m (wait_list lk) (map general_tag (W @ [r]))" using kl.app_holds [OF w rw] by simp
  have "foot (wait_list lk) (map general_tag W) \<inter> foot (thread_ready_list s) (map general_tag R) = {}"
    "general_tag r \<notin> foot (thread_ready_list s) (map general_tag R)"
    unfolding foot_tags using ft tT T r by auto
  then have l': "klist ?m (thread_ready_list s) (map general_tag R)"
    using kl.app_other [OF w l] by blast
  have relt: "sched_rel T r R ?t"
    using rel l' by (simp add: sched_rel_def sched_simps)
  obtain s' where "thread_block TASK_BLOCKED ?t = Inr s'" "blocks_to lk B' T n R' (W @ [r]) ?t s'"
    using block_next [OF relt T, of lk "W @ [r]" B' n R' B'] w' ft st off nx
    by (auto simp: sched_simps intr_get_status_def)
  moreover have "general_tag r \<notin> set (map general_tag W)" using rw by (simp add: foot_tags)
  ultimately show ?thesis
    using z r by (auto simp: sema_try_def not_in_ok [OF w] blocks_to_def sched_simps)
qed

lemma try_blocks:
  fixes s :: "'a klock_scheme"
  assumes "lists_on lk B T r (n # R) W s" "sm_value s (lock_sema lk) = 0" "intr_get_status (mm s) = INTR_OFF"
  shows "\<exists>s'. sema_try (lock_sema lk) s = Inr (False, s') \<and> lists_on lk B T n R (W @ [r]) s' \<and>
    intr_get_status (mm s') = INTR_OFF \<and> ksched.more s' = ksched.more s \<and>
    blk_old s' = (blk_old s)(r := INTR_OFF)"
proof -
  have "running_thread s = r" using assms(1) by (simp add: lists_on_def sched_rel_def)
  then show ?thesis
    using try_waits [OF assms, of B n R] by (auto simp: next_up_def blocks_to_def)
qed

lemma try_takes:
  fixes s :: "'a klock_scheme"
  assumes "running_thread s = r" "sm_value s q = 1"
  shows "sema_try q s = Inr (True, on_mm (\<lambda>m. snd (intr_set_status (sm_old s r) m))
           (s\<lparr>sm_value := (sm_value s)(q := 0)\<rparr>))"
  using assms by (simp add: sema_try_def Let_def)

text \<open>The timer interrupt that ends a slice.\<close>

lemma preempt_ok:
  fixes s :: "'a klock_scheme"
  assumes inv: "lists_on lk B T r R W s"
  shows "\<exists>s'. schedule (on_mm (\<lambda>m. snd (intr_disable m)) s) = Inr s' \<and>
    lists_on lk B T (hd (R @ [r])) (tl (R @ [r])) W s' \<and> intr_get_status (mm s') = INTR_OFF \<and>
    ksched.more s' = ksched.more s \<and> blk_old s' = blk_old s"
proof -
  let ?t = "on_mm (\<lambda>m. snd (intr_disable m)) s"
  have rel: "sched_rel T r R s" and T: "T = set (r # R) \<union> set W \<union> B" "set (r # R) \<inter> (set W \<union> B) = {}" "set W \<inter> B = {}"
    and w: "klist (mm s) (wait_list lk) (map general_tag W)"
    and ft: "foot (wait_list lk) [] \<inter> (foot (thread_ready_list s) [] \<union> general_tag ` T) = {}"
    and st: "status (task s r) = TASK_RUNNING" "\<And>p. p \<in> set W \<union> B \<Longrightarrow> status (task s p) = TASK_BLOCKED"
    using inv unfolding lists_on_def by blast+
  have relt: "sched_rel T r R ?t"
    using rel by (simp add: sched_rel_def sched_simps disabled_list)
  have tT: "\<And>p. p \<in> T \<Longrightarrow> general_tag p \<notin> foot (thread_ready_list s) []"
    using rel unfolding sched_rel_def by blast
  have off: "intr_get_status (mm ?t) = INTR_OFF" by (simp add: sched_simps disable_off)
  obtain s' where s': "schedule ?t = Inr s'" "sched_rel T (hd (R @ [r])) (tl (R @ [r])) s'"
      "sched_frame (set (r # R)) ?t s'"
      "\<And>p. status (task s' p) = (if p = hd (R @ [r]) then TASK_RUNNING else if p = r then TASK_READY
                               else status (task s p))"
    using schedule_running [OF relt off] st(1) by (auto simp: sched_simps)
  have "foot (wait_list lk) (map general_tag W) \<inter> (foot (thread_ready_list ?t) [] \<union> general_tag ` set (r # R)) = {}"
    unfolding foot_tags using ft tT T by (auto simp: sched_simps)
  then have w': "klist (mm s') (wait_list lk) (map general_tag W)"
    using s'(3) w unfolding sched_frame_def by (simp add: sched_simps disabled_list)
  have hd: "set (hd (R @ [r]) # tl (R @ [r])) = set (r # R)" "hd (R @ [r]) \<in> set (r # R)"
    by (cases R; auto)+
  have "\<forall>p\<in>set W \<union> B. status (task s' p) = TASK_BLOCKED"
    using s'(4) st(2) T(2) hd(2) by auto
  moreover have "thread_ready_list s' = thread_ready_list s" "ksched.more s' = ksched.more s" "blk_old s' = blk_old s"
    using s'(3) by (simp_all add: sched_frame_def sched_simps)
  moreover have "intr_get_status (mm s') = INTR_OFF" using frame_flag [OF s'(3)] off by simp
  moreover have "status (task s' (hd (R @ [r]))) = TASK_RUNNING" using s'(4) by simp
  ultimately show ?thesis
    using s'(1,2) w' T ft hd(1) unfolding lists_on_def by (metis (no_types, lifting))
qed

text \<open>\<^verbatim>\<open>sema_up\<close> wakes the first waiter, which goes to the front of the ready list.\<close>

lemma up_ok:
  fixes s :: "'a klock_scheme"
  assumes inv: "lists_on lk B T r R W s" and z: "sm_value s (lock_sema lk) = 0"
  shows "\<exists>s'. sema_up (lock_sema lk) s = Inr s' \<and> lists_on lk B T r (take 1 W @ R) (drop 1 W) s' \<and>
    eflags (mm s') = eflags (mm s) \<and> sm_value s' = (sm_value s)(lock_sema lk := 1) \<and>
    sm_old s' = sm_old s \<and> lk_holder s' = lk_holder s \<and> lk_repeat s' = lk_repeat s \<and> blk_old s' = blk_old s"
proof -
  have rel: "sched_rel T r R s" and T: "T = set (r # R) \<union> set W \<union> B" "set (r # R) \<inter> (set W \<union> B) = {}" "set W \<inter> B = {}"
    and w: "klist (mm s) (wait_list lk) (map general_tag W)"
    and ft: "foot (wait_list lk) [] \<inter> (foot (thread_ready_list s) [] \<union> general_tag ` T) = {}"
    and st: "status (task s r) = TASK_RUNNING" "\<And>p. p \<in> set W \<union> B \<Longrightarrow> status (task s p) = TASK_BLOCKED"
    using inv unfolding lists_on_def by blast+
  have l: "klist (mm s) (thread_ready_list s) (map general_tag R)"
    and tT: "\<And>p. p \<in> T \<Longrightarrow> pcb p \<and> general_tag p \<notin> foot (thread_ready_list s) []"
    using rel unfolding sched_rel_def by blast+
  let ?m = "snd (intr_disable (mm s))" and ?old = "fst (intr_disable (mm s))" and ?q = "lock_sema lk"
  have wm: "klist ?m (wait_list lk) (map general_tag W)" and lm: "klist ?m (thread_ready_list s) (map general_tag R)"
    using w l by (simp_all add: disabled_list)
  have fin: "\<exists>s'. (let u = t\<lparr>sm_value := (sm_value t)(?q := sm_value t ?q + 1)\<rparr> in
        assertE (sm_value u ?q = 1) (Inr (on_mm (\<lambda>m. snd (intr_set_status ?old m)) u))) = Inr s' \<and>
      lists_on lk B T r R' W' s' \<and> eflags (mm s') = eflags (mm s) \<and> sm_value s' = (sm_value s)(?q := 1) \<and>
      sm_old s' = sm_old s \<and> lk_holder s' = lk_holder s \<and> lk_repeat s' = lk_repeat s \<and> blk_old s' = blk_old s"
    if t: "lists_on lk B T r R' W' t" "eflags (mm t) = eflags (mm s) AND NOT EFLAGS_IF"
      "ksched.more t = ksched.more s" "blk_old t = blk_old s" for t :: "'a klock_scheme" and R' W'
  proof -
    let ?u = "t\<lparr>sm_value := (sm_value t)(?q := 1)\<rparr>"
    have "snd (intr_set_status ?old (mm ?u)) = (mm ?u)\<lparr>eflags := eflags (mm s)\<rparr>"
      by (rule restore_flag) (use t(2) in simp)
    then have u: "on_mm (\<lambda>m. snd (intr_set_status ?old m)) ?u = ?u\<lparr>mm := (mm ?u)\<lparr>eflags := eflags (mm s)\<rparr>\<rparr>"
      by (simp add: on_mm_def)
    have v: "sm_value t ?q = 0" using z by (simp add: more_klock [OF t(3)])
    have "lists_on lk B T r R' W' (?u\<lparr>mm := (mm ?u)\<lparr>eflags := eflags (mm s)\<rparr>\<rparr>)"
      using t(1) by (subst lists_cong [of _ t]) simp_all
    moreover have "(let u = t\<lparr>sm_value := (sm_value t)(?q := sm_value t ?q + 1)\<rparr> in
        assertE (sm_value u ?q = 1) (Inr (on_mm (\<lambda>m. snd (intr_set_status ?old m)) u))) =
        Inr (?u\<lparr>mm := (mm ?u)\<lparr>eflags := eflags (mm s)\<rparr>\<rparr>)"
      by (simp add: v u)
    ultimately show ?thesis using t(4) more_klock [OF t(3)] by simp
  qed
  show ?thesis
  proof (cases W)
    case Nil
    have e: "list_empty (wait_list lk) ?m" using kl.empt_iff [OF wm] Nil by simp
    have "lists_on lk B T r R [] (s\<lparr>mm := ?m\<rparr>)"
      using inv Nil by (subst lists_cong [of _ s]) (simp_all add: disable_flag)
    with fin [of R "[]" "s\<lparr>mm := ?m\<rparr>"] show ?thesis
      using z e Nil by (simp add: sema_up_def Let_def split_beta disable_flag)
  next
    case (Cons p V)
    have p: "p \<in> T" "p \<noteq> r" "p \<notin> set R" using T Cons by auto
    let ?m' = "list_remove (general_tag p) ?m"
    have e: "\<not> list_empty (wait_list lk) ?m" using kl.empt_iff [OF wm] Cons by simp
    have pop: "list_pop (wait_list lk) ?m = (general_tag p, ?m')" using kl.pop_first wm Cons by simp
    have wv: "klist ?m' (wait_list lk) (map general_tag V)"
      using kl.del_holds [of ?m _ "[]" "general_tag p"] wm Cons by simp
    have "foot (wait_list lk) (map general_tag W) \<inter> foot (thread_ready_list s) (map general_tag R) = {}"
      unfolding foot_tags using ft tT T by auto
    then have lv: "klist ?m' (thread_ready_list s) (map general_tag R)"
      using kl.del_other [OF wm _ lm] Cons by simp
    have relv: "sched_rel T r R (s\<lparr>mm := ?m'\<rparr>)"
      using rel lv by (auto simp: sched_rel_def running_thread_def)
    obtain t where t: "thread_unblock p (s\<lparr>mm := ?m'\<rparr>) = Inr t" "sched_frame (set (p # R)) (s\<lparr>mm := ?m'\<rparr>) t"
        "\<And>x. task t x = (if x = p then (task s p)\<lparr>status := TASK_READY\<rparr> else task s x)"
        "sched_rel T r (p # R) t"
      using thread_unblock_ok [OF relv p(1)] p(2) st(2) Cons by (auto simp: waiting_def)
    have trl: "thread_ready_list t = thread_ready_list s" using t(2) by (simp add: sched_frame_def)
    have dV: "p \<notin> set V" using kl.holds_distinct [OF w] Cons by auto
    have "foot (wait_list lk) (map general_tag V) \<inter> (foot (thread_ready_list (s\<lparr>mm := ?m'\<rparr>)) [] \<union> general_tag ` set (p # R)) = {}"
      unfolding foot_tags using ft tT T Cons dV p by auto
    then have "klist (mm t) (wait_list lk) (map general_tag V)"
      using t(2) wv unfolding sched_frame_def by simp
    then have "lists_on lk B T r (p # R) V t"
      unfolding lists_on_def trl using t(3,4) T ft st p dV Cons by auto
    moreover have "eflags (mm t) = eflags (mm s) AND NOT EFLAGS_IF" "ksched.more t = ksched.more s" "blk_old t = blk_old s"
      using t(2) by (simp_all add: sched_frame_def sched_simps disable_flag)
    ultimately show ?thesis
      using fin [of "p # R" V t] z e t(1) Cons
      by (simp add: sema_up_def Let_def split_beta pop pcb_tag tT p)
  qed
qed

section \<open>The invariant of a shared lock\<close>

fun owner :: "lock_pc \<Rightarrow> bool" where
  "owner Outside = False" | "owner Waits = False" | "owner Got = True" | "owner Holds = True" | "owner Gives = True"

text \<open>The semaphore is up exactly when no thread is between \<^verbatim>\<open>sema_down\<close> and \<^verbatim>\<open>sema_up\<close>, at most
  one is, and the holder and the repeat count belong to the one that holds.\<close>

definition lock_ok :: "u32 set \<Rightarrow> (u32 \<Rightarrow> lock_pc) \<Rightarrow> u8 \<Rightarrow> u32 \<Rightarrow> u32 \<Rightarrow> bool" where
  "lock_ok T f v h n \<longleftrightarrow>
     (v = 0 \<or> v = 1) \<and> (v = 1 \<longleftrightarrow> (\<forall>p\<in>T. \<not> owner (f p))) \<and>
     (\<forall>p\<in>T. \<forall>q\<in>T. owner (f p) \<longrightarrow> owner (f q) \<longrightarrow> p = q) \<and>
     (\<forall>p\<in>T. h = p \<longleftrightarrow> f p = Holds) \<and>
     (n \<noteq> 0 \<longleftrightarrow> (\<exists>p\<in>T. f p = Holds))"

definition lock_inv :: "u32 \<Rightarrow> u32 set \<Rightarrow> lsys \<Rightarrow> bool" where
  "lock_inv lk T z \<longleftrightarrow>
     lock_ok T (pc z) (sm_value (sys z) (lock_sema lk)) (lk_holder (sys z) lk) (lk_repeat (sys z) lk)"

lemma lock_ok_value: "lock_ok T f v h n \<Longrightarrow> v \<noteq> 1 \<Longrightarrow> v = 0 \<and> (\<exists>p\<in>T. owner (f p))"
  unfolding lock_ok_def by blast

lemma lock_ok_owner: "lock_ok T f v h n \<Longrightarrow> r \<in> T \<Longrightarrow> owner (f r) \<Longrightarrow> v = 0"
  unfolding lock_ok_def by blast

lemma lock_ok_others: "lock_ok T f v h n \<Longrightarrow> r \<in> T \<Longrightarrow> owner (f r) \<Longrightarrow> p \<in> T \<Longrightarrow> p \<noteq> r \<Longrightarrow> \<not> owner (f p)"
  unfolding lock_ok_def by blast

lemma not_owner_holds: "\<not> owner x \<Longrightarrow> x \<noteq> Holds"
  by auto

lemma lock_ok_down:
  assumes "lock_ok T f 1 h n" "r \<in> T"
  shows "lock_ok T (f(r := Got)) 0 h n"
proof -
  have no: "\<And>p. p \<in> T \<Longrightarrow> \<not> owner (f p)" using assms(1) by (simp add: lock_ok_def)
  then have nh: "\<And>p. p \<in> T \<Longrightarrow> f p \<noteq> Holds" by (rule not_owner_holds)
  then have "n = 0" "\<And>p. p \<in> T \<Longrightarrow> h \<noteq> p" using assms(1) unfolding lock_ok_def by blast+
  then show ?thesis using no nh assms(2) unfolding lock_ok_def by auto
qed

lemma lock_ok_same:
  assumes "lock_ok T f v h n" "\<not> owner (f r)" "\<not> owner x"
  shows "lock_ok T (f(r := x)) v h n"
proof -
  have o: "owner ((f(r := x)) p) = owner (f p)" for p using assms(2,3) by simp
  have h: "((f(r := x)) p = Holds) = (f p = Holds)" for p
    using assms(2,3) not_owner_holds by auto
  show ?thesis using assms(1) unfolding lock_ok_def o h .
qed

lemma lock_ok_hold:
  assumes "lock_ok T f v h n" "r \<in> T" "f r = Got"
  shows "lock_ok T (f(r := Holds)) v r 1 \<and> n = 0"
proof -
  have o: "owner ((f(r := Holds)) p) = owner (f p)" for p using assms(3) by simp
  have no: "f p \<noteq> Holds" if "p \<in> T" for p
    using lock_ok_others [OF assms(1,2) _ that] assms(3) by (cases "p = r") auto
  then have "n = 0" using assms(1) unfolding lock_ok_def by blast
  moreover have "lock_ok T (f(r := Holds)) v r 1"
    using assms(1,2) no unfolding lock_ok_def o by auto
  ultimately show ?thesis by blast
qed

lemma lock_ok_repeat: "lock_ok T f v h n \<Longrightarrow> r \<in> T \<Longrightarrow> f r = Holds \<Longrightarrow> m \<noteq> 0 \<Longrightarrow> lock_ok T f v h m \<and> h = r \<and> n \<noteq> 0"
  unfolding lock_ok_def by blast

lemma lock_ok_give:
  assumes "lock_ok T f v h n" "r \<in> T" "f r = Holds" "0 \<notin> T"
  shows "lock_ok T (f(r := Gives)) v 0 0"
proof -
  have o: "owner ((f(r := Gives)) p) = owner (f p)" for p using assms(3) by simp
  have "(f(r := Gives)) p \<noteq> Holds" if "p \<in> T" for p
    using lock_ok_others [OF assms(1,2) _ that] assms(3) by auto
  then show ?thesis using assms(1,4) unfolding lock_ok_def o by auto
qed

lemma lock_ok_up:
  assumes "lock_ok T f v h n" "r \<in> T" "f r = Gives"
  shows "lock_ok T (f(r := Outside)) 1 h n"
proof -
  have no: "\<not> owner ((f(r := Outside)) p)" if "p \<in> T" for p
    using lock_ok_others [OF assms(1,2) _ that] assms(3) by auto
  have h: "((f(r := Outside)) p = Holds) = (f p = Holds)" for p using assms(3) by simp
  show ?thesis using assms(1) no unfolding lock_ok_def h by blast
qed

text \<open>A thread that is not running, or runs with interrupts still off.\<close>

definition parked :: "lsys \<Rightarrow> u32 \<Rightarrow> bool" where
  "parked z p \<longleftrightarrow> cont z p = In_interrupt \<and> pc z p \<noteq> Waits \<or>
     cont z p = In_block \<and> pc z p = Waits \<and> sm_old (sys z) p = INTR_ON \<and> blk_old (sys z) p = INTR_OFF"

definition linv :: "u32 \<Rightarrow> u32 set \<Rightarrow> u32 \<Rightarrow> u32 list \<Rightarrow> u32 list \<Rightarrow> lsys \<Rightarrow> bool" where
  "linv lk T r R W z \<longleftrightarrow>
     lists_inv lk T r R W (sys z) \<and> lock_inv lk T z \<and>
     (\<forall>p\<in>set R. parked z p) \<and> (\<forall>p\<in>set W. parked z p \<and> pc z p = Waits) \<and>
     (if int_on z then cont z r = Runs \<and> pc z r \<noteq> Waits else parked z r) \<and>
     (W \<noteq> [] \<longrightarrow> sm_value (sys z) (lock_sema lk) = 1 \<longrightarrow> (\<exists>p\<in>set (r # R). pc z p = Waits))"

lemma enable_on: "intr_get_status (snd (intr_enable m)) = INTR_ON"
  by (simp add: intr_enable_def get_status_bit bit_or_iff bit_flag)

lemma enabled_list: "klist (snd (intr_enable m)) l xs = klist (m :: vm) l xs"
  by (rule klist_field_cong) (simp_all add: intr_enable_def)

lemma lists_flag:
  fixes s :: "'a klock_scheme"
  shows "lists_inv lk T r R W (on_mm (\<lambda>m. snd (intr_enable m)) s) = lists_inv lk T r R W s"
    "lists_inv lk T r R W (on_mm (\<lambda>m. snd (intr_disable m)) s) = lists_inv lk T r R W s"
  by (rule lists_cong; simp add: sched_simps intr_enable_def disable_flag)+

lemma lists_upd:
  fixes s :: "'a klock_scheme"
  shows "lists_inv lk T r R W (s\<lparr>sm_value := v\<rparr>) = lists_inv lk T r R W s"
    "lists_inv lk T r R W (s\<lparr>lk_holder := h\<rparr>) = lists_inv lk T r R W s"
    "lists_inv lk T r R W (s\<lparr>lk_repeat := n\<rparr>) = lists_inv lk T r R W s"
    "lists_inv lk T r R W (s\<lparr>sm_old := old\<rparr>) = lists_inv lk T r R W s"
  by (rule lists_cong; simp)+

lemma lists_members:
  "lists_inv lk T r R W s \<Longrightarrow> r \<in> T \<and> r \<notin> set R \<and> r \<notin> set W \<and> set R \<subseteq> T \<and> set W \<subseteq> T \<and>
     running_thread s = r \<and> set R \<inter> set W = {}"
  unfolding lists_on_def sched_rel_def by auto

text \<open>One round of the loop of \<^verbatim>\<open>sema_down\<close>, from the state \<open>t\<close> in which its condition is evaluated.\<close>

lemma down_step:
  assumes lists: "lists_inv lk T r R W t" and off: "intr_get_status (mm t) = INTR_OFF"
    and inv: "lock_inv lk T z" and pc: "pc z r = Outside \<or> pc z r = Waits"
    and R: "\<forall>p\<in>set R. parked z p" and W: "\<forall>p\<in>set W. parked z p \<and> pc z p = Waits"
    and same: "sm_value t = sm_value (sys z)" "lk_holder t = lk_holder (sys z)" "lk_repeat t = lk_repeat (sys z)"
      "sm_old t = (sm_old (sys z))(r := INTR_ON)" "blk_old t = blk_old (sys z)"
  shows "\<exists>x r' R' W'. sema_try (lock_sema lk) t = Inr x \<and> linv lk T r' R' W' (after_down r z x)"
proof -
  note mem = lists_members [OF lists]
  show ?thesis
  proof (cases "sm_value t (lock_sema lk) = 1")
    case True
    let ?s = "on_mm (\<lambda>m. snd (intr_enable m)) (t\<lparr>sm_value := (sm_value t)(lock_sema lk := 0)\<rparr>)"
    have take: "sema_try (lock_sema lk) t = Inr (True, ?s)"
      using try_takes [OF _ True] mem same(4) by (simp add: intr_set_status_def)
    have "lists_inv lk T r R W ?s" using lists by (simp add: lists_flag lists_upd)
    moreover have "lock_inv lk T (after_down r z (True, ?s))"
      using lock_ok_down [of T "pc z" _ _ r] inv mem True
      by (simp add: lock_inv_def after_down_def sched_simps same)
    moreover have "int_on (after_down r z (True, ?s))"
      by (simp add: int_on_def after_down_def sched_simps enable_on)
    ultimately have "linv lk T r R W (after_down r z (True, ?s))"
      using R W mem by (auto simp: linv_def after_down_def parked_def sched_simps same)
    then show ?thesis using take by blast
  next
    case False
    then obtain p where z0: "sm_value t (lock_sema lk) = 0" and p: "p \<in> T" "owner (pc z p)"
      using lock_ok_value [of T "pc z"] inv same(1) unfolding lock_inv_def by metis
    have "p \<noteq> r" "p \<notin> set W" using p(2) pc W by auto
    then have "p \<in> set R" using p(1) lists by (auto simp: lists_on_def)
    then obtain n R' where nR: "R = n # R'" by (cases R) auto
    obtain s' where s': "sema_try (lock_sema lk) t = Inr (False, s')" "lists_inv lk T n R' (W @ [r]) s'"
        "intr_get_status (mm s') = INTR_OFF" "ksched.more s' = ksched.more t" "blk_old s' = (blk_old t)(r := INTR_OFF)"
      using try_blocks [OF lists [unfolded nR] z0 off] by blast
    note f = more_klock [OF s'(4)]
    have "lock_inv lk T (after_down r z (False, s'))"
      using lock_ok_same [of T "pc z" _ _ _ r Waits] inv pc
      by (auto simp: lock_inv_def after_down_def f same)
    moreover have "\<not> int_on (after_down r z (False, s'))"
      using s'(3) by (simp add: int_on_def after_down_def)
    ultimately have "linv lk T n R' (W @ [r]) (after_down r z (False, s'))"
      using R W mem s'(2) z0 unfolding nR
      by (auto simp: linv_def after_down_def parked_def f same s'(5))
    then show ?thesis using s'(1) by blast
  qed
qed

lemma linv_lists: "linv lk T r R W z \<Longrightarrow> lists_inv lk T r R W (sys z)"
  by (simp add: linv_def)

lemma linv_lock:
  "linv lk T r R W z \<Longrightarrow>
   lock_ok T (pc z) (sm_value (sys z) (lock_sema lk)) (lk_holder (sys z) lk) (lk_repeat (sys z) lk)"
  by (simp add: linv_def lock_inv_def)

lemma linv_parts:
  assumes "linv lk T r R W z"
  shows "lock_inv lk T z" "\<forall>p\<in>set R. parked z p" "\<forall>p\<in>set W. parked z p \<and> pc z p = Waits"
  using assms by (simp_all add: linv_def)

lemma linv_cur: "linv lk T r R W z \<Longrightarrow> cur z = r \<and> r \<in> T \<and> 0 \<notin> T"
proof -
  assume inv: "linv lk T r R W z"
  then have "\<forall>p\<in>T. pcb p" unfolding linv_def lists_on_def sched_rel_def by blast
  then show ?thesis using lists_members [OF linv_lists [OF inv]] by (auto simp: cur_def pcb_def)
qed

lemma holder_iff: "linv lk T r R W z \<Longrightarrow> lk_holder (sys z) lk = r \<longleftrightarrow> pc z r = Holds"
  using linv_cur [of lk T r R W z] by (auto simp: linv_def lock_inv_def lock_ok_def)

text \<open>Steps that change the fields of the lock and the position of the running thread only.\<close>

lemma linv_local:
  assumes inv: "linv lk T r R W z" and on: "int_on z"
    and s: "sm_value s = sm_value (sys z)" "sm_old s = sm_old (sys z)" "blk_old s = blk_old (sys z)" "mm s = mm (sys z)"
      "lists_inv lk T r R W s"
    and ok: "lock_ok T ((pc z)(r := x)) (sm_value s (lock_sema lk)) (lk_holder s lk) (lk_repeat s lk)"
    and x: "x \<noteq> Waits"
  shows "linv lk T r R W (z\<lparr>sys := s, pc := (pc z)(r := x)\<rparr>)"
proof -
  have mem: "r \<notin> set R" "r \<notin> set W" using lists_members [OF s(5)] by auto
  have on': "int_on (z\<lparr>sys := s, pc := (pc z)(r := x)\<rparr>)" using on s(4) by (simp add: int_on_def)
  have "pc z r \<noteq> Waits" using inv on by (simp add: linv_def)
  then show ?thesis
    using inv on on' s ok x mem unfolding linv_def lock_inv_def parked_def by auto
qed

lemma count_up: "(a :: u32) < 0xffffffff \<Longrightarrow> a + 1 \<noteq> 0"
  by unat_arith simp

lemma perform_acquire:
  assumes inv: "linv lk T r R W z" and en: "enabled lk Acquire z"
  shows "\<exists>z' r' R' W'. perform lk Acquire z = Inr z' \<and> linv lk T r' R' W' z'"
proof (cases "pc z r = Holds")
  case True
  note c = linv_cur [OF inv]
  have h: "lk_holder (sys z) lk = r" using holder_iff [OF inv] True by simp
  have nz: "lk_repeat (sys z) lk + 1 \<noteq> 0"
    using en True c by (intro count_up) auto
  let ?s = "(sys z)\<lparr>lk_repeat := (lk_repeat (sys z))(lk := lk_repeat (sys z) lk + 1)\<rparr>"
  have "lock_ok T ((pc z)(r := Holds)) (sm_value ?s (lock_sema lk)) (lk_holder ?s lk) (lk_repeat ?s lk)"
    using lock_ok_repeat [OF linv_lock [OF inv], of r "lk_repeat (sys z) lk + 1"] True c nz
    by (auto simp: fun_upd_idem)
  from linv_local [OF inv _ _ _ _ _ _ this] have "linv lk T r R W (z\<lparr>sys := ?s\<rparr>)"
    using en linv_lists [OF inv] True by (simp add: lists_upd fun_upd_idem)
  moreover have "perform lk Acquire z = Inr (z\<lparr>sys := ?s\<rparr>)"
    using h True c by (simp add: lock_acquire_def cur_def)
  ultimately show ?thesis by blast
next
  case False
  note c = linv_cur [OF inv]
  have out: "pc z r = Outside" and on: "intr_get_status (mm (sys z)) = INTR_ON"
    using en False c by (auto simp: int_on_def)
  let ?t = "(sys z)\<lparr>mm := snd (intr_disable (mm (sys z))), sm_old := (sm_old (sys z))(r := INTR_ON)\<rparr>"
  have lt: "lists_inv lk T r R W ?t"
    using linv_lists [OF inv] by (subst lists_cong [of _ "sys z"]) (simp_all add: disable_flag)
  have off: "intr_get_status (mm ?t) = INTR_OFF" by (simp add: disable_off)
  obtain x r' R' W' where
    x: "sema_try (lock_sema lk) ?t = Inr x" "linv lk T r' R' W' (after_down r z x)"
    using down_step [OF lt off linv_parts(1) [OF inv] _ linv_parts(2,3) [OF inv]] out by auto
  have "lock_acquire lk (sys z) = Inr x"
    using x(1) holder_iff [OF inv] out c on
    by (simp add: lock_acquire_def sema_down_def cur_def split_beta Let_def intr_disable_def)
  then show ?thesis using x(2) False c by auto
qed

lemma perform_acquired:
  assumes inv: "linv lk T r R W z" and en: "enabled lk Acquired z"
  shows "\<exists>z' r' R' W'. perform lk Acquired z = Inr z' \<and> linv lk T r' R' W' z'"
proof -
  note c = linv_cur [OF inv]
  have g: "pc z r = Got" "int_on z" using en c by auto
  have ok: "lock_ok T ((pc z)(r := Holds)) (sm_value (sys z) (lock_sema lk)) r 1" "lk_repeat (sys z) lk = 0"
    using lock_ok_hold [OF linv_lock [OF inv], of r] c g by auto
  let ?s = "(sys z)\<lparr>lk_holder := (lk_holder (sys z))(lk := r), lk_repeat := (lk_repeat (sys z))(lk := 1)\<rparr>"
  have "linv lk T r R W (z\<lparr>sys := ?s, pc := (pc z)(r := Holds)\<rparr>)"
    by (rule linv_local [OF inv g(2)]) (use ok linv_lists [OF inv] in \<open>simp_all add: lists_upd\<close>)
  moreover have "perform lk Acquired z = Inr (z\<lparr>sys := ?s, pc := (pc z)(r := Holds)\<rparr>)"
    using ok(2) c by (simp add: lock_acquired_def cur_def Let_def)
  ultimately show ?thesis by blast
qed

lemma perform_release:
  assumes inv: "linv lk T r R W z" and en: "enabled lk Release z"
  shows "\<exists>z' r' R' W'. perform lk Release z = Inr z' \<and> linv lk T r' R' W' z'"
proof -
  note c = linv_cur [OF inv]
  have g: "pc z r = Holds" "int_on z" using en c by auto
  have h: "lk_holder (sys z) lk = r" using holder_iff [OF inv] g by simp
  have lo: "lock_ok T (pc z) (sm_value (sys z) (lock_sema lk)) (lk_holder (sys z) lk) (lk_repeat (sys z) lk)"
    using inv by (rule linv_lock)
  have nz: "lk_repeat (sys z) lk \<noteq> 0" using lock_ok_repeat [OF lo _ g(1), of 1] c by simp
  show ?thesis
  proof (cases "lk_repeat (sys z) lk > 1")
    case True
    then have "lk_repeat (sys z) lk - 1 \<noteq> 0" by auto
    then have ok: "lock_ok T ((pc z)(r := Holds)) (sm_value (sys z) (lock_sema lk)) r (lk_repeat (sys z) lk - 1)"
      using lock_ok_repeat [OF lo _ g(1)] c h g(1) by (simp add: fun_upd_idem)
    let ?s = "(sys z)\<lparr>lk_repeat := (lk_repeat (sys z))(lk := lk_repeat (sys z) lk - 1)\<rparr>"
    have "linv lk T r R W (z\<lparr>sys := ?s, pc := (pc z)(r := Holds)\<rparr>)"
      by (rule linv_local [OF inv g(2)]) (use ok h linv_lists [OF inv] in \<open>simp_all add: lists_upd\<close>)
    moreover have "perform lk Release z = Inr (z\<lparr>sys := ?s, pc := (pc z)(r := Holds)\<rparr>)"
      using True c h by (simp add: lock_release_begin_def cur_def)
    ultimately show ?thesis by blast
  next
    case False
    then have one: "lk_repeat (sys z) lk = 1" using nz by (metis not_less_iff_gr_or_eq word_less_1)
    have ok: "lock_ok T ((pc z)(r := Gives)) (sm_value (sys z) (lock_sema lk)) 0 0"
      using lock_ok_give [OF lo _ g(1)] c by simp
    let ?s = "(sys z)\<lparr>lk_holder := (lk_holder (sys z))(lk := 0), lk_repeat := (lk_repeat (sys z))(lk := 0)\<rparr>"
    have "linv lk T r R W (z\<lparr>sys := ?s, pc := (pc z)(r := Gives)\<rparr>)"
      by (rule linv_local [OF inv g(2)]) (use ok linv_lists [OF inv] in \<open>simp_all add: lists_upd\<close>)
    moreover have "perform lk Release z = Inr (z\<lparr>sys := ?s, pc := (pc z)(r := Gives)\<rparr>)"
      using one c h by (simp add: lock_release_begin_def cur_def)
    ultimately show ?thesis by blast
  qed
qed

lemma perform_up:
  assumes inv: "linv lk T r R W z" and en: "enabled lk Up z"
  shows "\<exists>z' r' R' W'. perform lk Up z = Inr z' \<and> linv lk T r' R' W' z'"
proof -
  note c = linv_cur [OF inv]
  have g: "pc z r = Gives" "int_on z" using en c by auto
  have v: "sm_value (sys z) (lock_sema lk) = 0"
    using lock_ok_owner [OF linv_lock [OF inv], of r] c g by simp
  obtain s' where s': "sema_up (lock_sema lk) (sys z) = Inr s'" "lists_inv lk T r (take 1 W @ R) (drop 1 W) s'"
      "eflags (mm s') = eflags (mm (sys z))" "sm_value s' = (sm_value (sys z))(lock_sema lk := 1)"
      "sm_old s' = sm_old (sys z)" "lk_holder s' = lk_holder (sys z)" "lk_repeat s' = lk_repeat (sys z)"
      "blk_old s' = blk_old (sys z)"
    using up_ok [OF linv_lists [OF inv] v] by blast
  let ?z = "z\<lparr>sys := s', pc := (pc z)(r := Outside)\<rparr>"
  have on: "int_on ?z" using g(2) s'(3) by (simp add: int_on_def intr_get_status_def)
  have ok: "lock_inv lk T ?z"
    using lock_ok_up [OF linv_lock [OF inv], of r] c g by (simp add: lock_inv_def s'(4-7))
  have mem: "r \<notin> set R" "r \<notin> set W" using lists_members [OF linv_lists [OF inv]] by auto
  have pk: "parked ?z p" if "p \<in> set R \<union> set W" for p
    using inv that mem by (auto simp: linv_def parked_def s'(5,8))
  have wt: "pc ?z p = Waits" if "p \<in> set W" for p
    using inv that mem by (auto simp: linv_def)
  have "linv lk T r (take 1 W @ R) (drop 1 W) ?z"
  proof (cases W)
    case Nil
    then show ?thesis using s'(2) ok on pk g inv by (simp add: linv_def)
  next
    case (Cons p V)
    then show ?thesis using s'(2) ok on pk wt g inv by (simp add: linv_def)
  qed
  moreover have "perform lk Up z = Inr ?z" using s'(1) c by simp
  ultimately show ?thesis by blast
qed

lemma perform_preempt:
  assumes inv: "linv lk T r R W z" and en: "enabled lk Preempt z"
  shows "\<exists>z' r' R' W'. perform lk Preempt z = Inr z' \<and> linv lk T r' R' W' z'"
proof -
  note c = linv_cur [OF inv]
  obtain s' where s': "schedule (on_mm (\<lambda>m. snd (intr_disable m)) (sys z)) = Inr s'"
      "lists_inv lk T (hd (R @ [r])) (tl (R @ [r])) W s'" "intr_get_status (mm s') = INTR_OFF"
      "ksched.more s' = ksched.more (sys z)" "blk_old s' = blk_old (sys z)"
    using preempt_ok [OF linv_lists [OF inv]] by blast
  note f = more_klock [OF s'(4)]
  let ?z = "z\<lparr>sys := s', cont := (cont z)(r := In_interrupt)\<rparr>"
  have off: "\<not> int_on ?z" using s'(3) by (simp add: int_on_def)
  have ok: "lock_inv lk T ?z" using linv_lock [OF inv] by (simp add: lock_inv_def f)
  have nw: "pc z r \<noteq> Waits" using inv en by (simp add: linv_def)
  have mem: "r \<notin> set W" using lists_members [OF linv_lists [OF inv]] by auto
  have pk: "parked ?z p" if "p \<in> set (r # R) \<union> set W" for p
    using inv that nw by (auto simp: linv_def parked_def f s'(5))
  have hd: "set (hd (R @ [r]) # tl (R @ [r])) = set (r # R)" by (cases R) auto
  have h: "hd (R @ [r]) \<in> set (r # R)" and t: "set (tl (R @ [r])) \<subseteq> set (r # R)"
    by (metis hd list.set_intros(1), metis hd set_subset_Cons)
  have p1: "parked ?z (hd (R @ [r]))" using h by (intro pk) blast
  have p2: "\<forall>p\<in>set (tl (R @ [r])). parked ?z p" using t by (intro ballI pk) blast
  have p3: "\<forall>p\<in>set W. parked ?z p \<and> pc ?z p = Waits" using pk inv by (simp add: linv_def)
  have p4: "W \<noteq> [] \<longrightarrow> sm_value (sys ?z) (lock_sema lk) = 1 \<longrightarrow> (\<exists>p\<in>set (hd (R @ [r]) # tl (R @ [r])). pc ?z p = Waits)"
    unfolding hd using inv by (simp add: linv_def f)
  have "linv lk T (hd (R @ [r])) (tl (R @ [r])) W ?z"
    using s'(2) ok off p1 p2 p3 p4 by (simp add: linv_def)
  moreover have "perform lk Preempt z = Inr ?z" using s'(1) c by simp
  ultimately show ?thesis by blast
qed

lemma perform_resume:
  assumes inv: "linv lk T r R W z" and en: "enabled lk Resume z"
  shows "\<exists>z' r' R' W'. perform lk Resume z = Inr z' \<and> linv lk T r' R' W' z'"
proof -
  note c = linv_cur [OF inv]
  have off: "intr_get_status (mm (sys z)) = INTR_OFF" using en by (simp add: int_on_def get_status_bit get_status_off)
  have pk: "parked z r" using inv en by (simp add: linv_def)
  have mem: "r \<notin> set R" "r \<notin> set W" using lists_members [OF linv_lists [OF inv]] by auto
  show ?thesis
  proof (cases "cont z r = In_block")
    case True
    then have b: "pc z r = Waits" "sm_old (sys z) r = INTR_ON" "blk_old (sys z) r = INTR_OFF"
      using pk by (auto simp: parked_def)
    let ?t = "thread_resume (sys z)"
    have t: "?t = sys z"
      using b(3) off c by (simp add: thread_resume_def on_mm_def intr_set_status_def intr_disable_def cur_def)
    have old: "sm_old (sys z) = (sm_old (sys z))(r := INTR_ON)" using b(2) by (simp add: fun_upd_idem)
    obtain x r' R' W' where
      x: "sema_try (lock_sema lk) (sys z) = Inr x" "linv lk T r' R' W' (after_down r z x)"
      using down_step [OF linv_lists [OF inv] off linv_parts(1) [OF inv] _ linv_parts(2,3) [OF inv] _ _ _ old] b(1)
      by auto
    then show ?thesis using True c by (simp add: sema_down_resume_def t) blast
  next
    case False
    then have i: "cont z r = In_interrupt" "pc z r \<noteq> Waits" using pk by (auto simp: parked_def)
    let ?z = "z\<lparr>sys := on_mm (\<lambda>m. snd (intr_enable m)) (sys z), cont := (cont z)(r := Runs)\<rparr>"
    have on: "int_on ?z" by (simp add: int_on_def sched_simps enable_on)
    have ok: "lock_inv lk T ?z" using linv_lock [OF inv] by (simp add: lock_inv_def sched_simps)
    have pk': "parked z p \<Longrightarrow> p \<noteq> r \<Longrightarrow> parked ?z p" for p by (simp add: parked_def sched_simps)
    have "parked ?z p" if "p \<in> set R \<union> set W" for p
      using that mem linv_parts(2,3) [OF inv] by (intro pk') auto
    then have "\<forall>p\<in>set R. parked ?z p" "\<forall>p\<in>set W. parked ?z p \<and> pc ?z p = Waits"
      using linv_parts(3) [OF inv] by simp_all
    then have "linv lk T r R W ?z"
      using linv_lists [OF inv] ok on i inv by (simp add: linv_def lists_flag sched_simps)
    then show ?thesis using i(1) c by auto
  qed
qed

lemma perform_ok:
  assumes "linv lk T r R W z" "enabled lk a z"
  shows "\<exists>z' r' R' W'. perform lk a z = Inr z' \<and> linv lk T r' R' W' z'"
proof (cases a)
  case Acquire then show ?thesis using perform_acquire [OF assms(1)] assms(2) by blast
next
  case Acquired then show ?thesis using perform_acquired [OF assms(1)] assms(2) by blast
next
  case Release then show ?thesis using perform_release [OF assms(1)] assms(2) by blast
next
  case Up then show ?thesis using perform_up [OF assms(1)] assms(2) by blast
next
  case Preempt then show ?thesis using perform_preempt [OF assms(1)] assms(2) by blast
next
  case Resume then show ?thesis using perform_resume [OF assms(1)] assms(2) by blast
qed

section \<open>Properties\<close>

text \<open>The start: \<^verbatim>\<open>lock_init\<close> has run on a state in which \<open>r\<close> runs with interrupts on and the other
  threads \<open>R\<close> are ready, and no thread has touched the lock.\<close>

definition lock_start :: "u32 \<Rightarrow> u32 \<Rightarrow> u32 list \<Rightarrow> lsys \<Rightarrow> bool" where
  "lock_start lk r R z \<longleftrightarrow>
     (\<exists>s. sys z = lock_init lk s \<and> sched_rel (set (r # R)) r R s \<and> status (task s r) = TASK_RUNNING \<and>
        foot (wait_list lk) [] \<inter> (foot (thread_ready_list s) [] \<union> general_tag ` set (r # R)) = {}) \<and>
     int_on z \<and> cont z r = Runs \<and> (\<forall>p\<in>set R. cont z p = In_interrupt) \<and> (\<forall>p. pc z p = Outside)"

lemma lock_init_fields:
  fixes s :: "'a klock_scheme"
  shows "sm_value (lock_init lk s) (lock_sema lk) = 1" "lk_holder (lock_init lk s) lk = 0"
    "lk_repeat (lock_init lk s) lk = 0" "mm (lock_init lk s) = list_init (wait_list lk) (mm s)"
    "task (lock_init lk s) = task s" "thread_ready_list (lock_init lk s) = thread_ready_list s"
    "esp (lock_init lk s) = esp s"
  by (simp_all add: lock_init_def sema_init_def sched_simps)

lemma start_linv:
  assumes "lock_start lk r R z"
  shows "linv lk (set (r # R)) r R [] z"
proof -
  obtain s where s: "sys z = lock_init lk s" "sched_rel (set (r # R)) r R s" "status (task s r) = TASK_RUNNING"
      "foot (wait_list lk) [] \<inter> (foot (thread_ready_list s) [] \<union> general_tag ` set (r # R)) = {}"
    and z: "int_on z" "cont z r = Runs" "\<forall>p\<in>set R. cont z p = In_interrupt" "\<And>p. pc z p = Outside"
    using assms unfolding lock_start_def by blast
  have l: "klist (mm s) (thread_ready_list s) (map general_tag R)" using s(2) by (simp add: sched_rel_def)
  have "klist (list_init (wait_list lk) (mm s)) (thread_ready_list s) (map general_tag R)"
    by (rule klist_init_other [OF l]) (use s(4) in \<open>auto simp: foot_tags foot_def\<close>)
  then have "lists_inv lk (set (r # R)) r R [] (sys z)"
    using s by (simp add: lists_on_def sched_rel_def lock_init_fields running_thread_def klist_init)
  moreover have "\<forall>p\<in>set (r # R). pcb p" using s(2) unfolding sched_rel_def by blast
  then have "lock_inv lk (set (r # R)) z"
    by (auto simp: lock_inv_def s(1) lock_init_fields lock_ok_def z(4) pcb_def)
  ultimately show ?thesis using z by (simp add: linv_def parked_def)
qed

lemma reach_linv:
  assumes "reach lk z0 z" "linv lk T r0 R0 W0 z0"
  shows "\<exists>r R W. linv lk T r R W z"
  using assms
proof (induction rule: reach.induct)
  case (start z)
  then show ?case by blast
next
  case (step z y a x)
  then show ?case by (metis perform_ok sum.inject(2))
qed

text \<open>C3: Mutual exclusion. However the threads that share a lock are interleaved by timer interrupts, in
  every reachable state at most one of them is past \<^verbatim>\<open>sema_down\<close> and not yet through \<^verbatim>\<open>sema_up\<close>,
  the semaphore is down exactly then, and the holder field names a thread exactly while it holds the
  lock.\<close>

theorem lock_mutual_exclusion:
  assumes "lock_start lk r R z0" "reach lk z0 z"
  shows "(\<forall>p\<in>set (r # R). \<forall>q\<in>set (r # R). owner (pc z p) \<longrightarrow> owner (pc z q) \<longrightarrow> p = q) \<and>
         (sm_value (sys z) (lock_sema lk) = 0 \<longleftrightarrow> (\<exists>p\<in>set (r # R). owner (pc z p))) \<and>
         (\<forall>p\<in>set (r # R). lk_holder (sys z) lk = p \<longleftrightarrow> pc z p = Holds)"
proof -
  obtain x X W where "linv lk (set (r # R)) x X W z"
    using reach_linv [OF assms(2) start_linv [OF assms(1)]] by blast
  from linv_lock [OF this] show ?thesis unfolding lock_ok_def by (metis zero_neq_one)
qed

text \<open>C19: No reachable operation on a lock stops the kernel: none of the assertions of \<^verbatim>\<open>sema_down\<close>,
  \<^verbatim>\<open>sema_up\<close>, \<^verbatim>\<open>lock_acquire\<close>, \<^verbatim>\<open>lock_release\<close>, \<^verbatim>\<open>thread_unblock\<close> and \<^verbatim>\<open>schedule\<close> fails and every
  list walk in them ends, whatever the interleaving, and some action is always possible.\<close>

theorem lock_never_faults:
  assumes "lock_start lk r R z0" "reach lk z0 z"
  shows "(\<forall>a. enabled lk a z \<longrightarrow> (\<exists>z'. perform lk a z = Inr z')) \<and> (\<exists>a. enabled lk a z)"
proof -
  obtain x X W where "linv lk (set (r # R)) x X W z"
    using reach_linv [OF assms(2) start_linv [OF assms(1)]] by blast
  then have "\<forall>a. enabled lk a z \<longrightarrow> (\<exists>z'. perform lk a z = Inr z')" by (meson perform_ok)
  moreover have "enabled lk (if int_on z then Preempt else Resume) z" by simp
  ultimately show ?thesis by blast
qed

text \<open>C32: No wake-up is lost and no thread is lost. In every reachable state each thread runs, or is in the
  ready list, or is in the list of waiters of the lock, and nowhere twice; a thread in the list of
  waiters is blocked in \<^verbatim>\<open>sema_down\<close>; and if the semaphore is up while threads wait, then a thread
  that was woken from that list is running or ready.\<close>

theorem lock_no_lost_wakeup:
  assumes "lock_start lk r R z0" "reach lk z0 z"
  shows "\<exists>x X W. lists_inv lk (set (r # R)) x X W (sys z) \<and> (\<forall>p\<in>set W. pc z p = Waits) \<and>
           (W \<noteq> [] \<longrightarrow> sm_value (sys z) (lock_sema lk) = 1 \<longrightarrow> (\<exists>p\<in>set (x # X). pc z p = Waits))"
  using reach_linv [OF assms(2) start_linv [OF assms(1)]] unfolding linv_def by blast

definition demo_lock :: lsys where
  "demo_lock = \<lparr>sys = lock_init 0x400
       (ksched.extend (demo_sched\<lparr>mm := (mm demo_sched)\<lparr>eflags := 0x202\<rparr>\<rparr>)
          (klock.fields (\<lambda>_. 0) (\<lambda>_. INTR_OFF) (\<lambda>_. 0) (\<lambda>_. 0))),
     pc = (\<lambda>_. Outside), cont = (\<lambda>p. if p = 0x1000 then Runs else In_interrupt)\<rparr>"

lemma demo_lock_start: "lock_start 0x400 0x1000 [0x2000] demo_lock"
proof -
  have cong: "klist (m\<lparr>eflags := f\<rparr>) k xs = klist m k xs" for m :: vm and f k xs
    by (rule klist_field_cong) simp_all
  let ?s = "ksched.extend (demo_sched\<lparr>mm := (mm demo_sched)\<lparr>eflags := 0x202\<rparr>\<rparr>)
          (klock.fields (\<lambda>_. 0) (\<lambda>_. INTR_OFF) (\<lambda>_. 0) (\<lambda>_. 0))"
  have "sched_rel {0x1000, 0x2000} 0x1000 [0x2000] ?s"
    using demo_rel by (simp add: sched_rel_def ksched.defs running_thread_def cong)
  moreover have "status (task ?s 0x1000) = TASK_RUNNING" using demo_running by (simp add: ksched.defs)
  moreover have "foot (wait_list 0x400) [] \<inter> (foot (thread_ready_list ?s) [] \<union> general_tag ` {0x1000, 0x2000}) = {}"
    by (simp add: ksched.defs demo_sched_def foot_def list_head_def list_tail_def general_tag_def
        sema_waiters_def lock_sema_def)
  moreover have "int_on demo_lock"
    by (simp add: int_on_def demo_lock_def lock_init_fields ksched.defs list_init_def intr_get_status_def EFLAGS_IF_def)
  ultimately show ?thesis
    unfolding lock_start_def demo_lock_def by (auto simp del: foot_tags)
qed

theorem lock_mutual_exclusion_witness:
  "sm_value (sys demo_lock) (lock_sema 0x400) = 0 \<longleftrightarrow>
     (\<exists>p\<in>{0x1000, 0x2000}. owner (pc demo_lock p))"
  using lock_mutual_exclusion [OF demo_lock_start reach.start] by simp

theorem lock_never_faults_witness: "\<exists>z'. perform 0x400 Acquire demo_lock = Inr z'"
proof -
  have "enabled 0x400 Acquire demo_lock"
    using demo_lock_start by (simp add: lock_start_def demo_lock_def)
  then show ?thesis using lock_never_faults [OF demo_lock_start reach.start] by blast
qed

theorem lock_no_lost_wakeup_witness:
  "\<exists>x X W. lists_inv 0x400 {0x1000, 0x2000} x X W (sys demo_lock) \<and> (\<forall>p\<in>set W. pc demo_lock p = Waits)"
  using lock_no_lost_wakeup [OF demo_lock_start reach.start] by auto

end
