(* ===== verification/IoQueue.thy ===== *)
theory IoQueue
  imports Sync Ring
begin

text \<open>
  \<^verbatim>\<open>drivers/ioqueue.c\<close>: a queue of 63 characters between threads, with a lock and the control blocks of a
  waiting producer and a waiting consumer. The lock is the first member of the structure, so its address is
  that of the queue.

  \<^verbatim>\<open>ioq_getchar\<close> and \<^verbatim>\<open>ioq_putchar\<close> run with interrupts off and give up the processor in two places, in
  \<^verbatim>\<open>lock_acquire\<close> and in \<^verbatim>\<open>ioq_wait\<close>. Each is modelled up to the next such place: the outcome says
  where the thread is now, and \<open>getchar_resume\<close> and \<open>putchar_resume\<close> continue a thread that runs again.
\<close>

section \<open>The queue\<close>

record ioqueue =
  producer :: u32
  consumer :: u32
  buf :: "char list"
  head :: int
  tail :: int

record kioq = klock +
  ioq :: ioqueue

definition bufsize :: int where "bufsize = 64"

definition ioqueue_init :: "u32 \<Rightarrow> kioq \<Rightarrow> kioq" where
  "ioqueue_init lk s = (lock_init lk s)\<lparr>ioq := (ioq s)\<lparr>producer := 0, consumer := 0, head := 0, tail := 0\<rparr>\<rparr>"

text \<open>The remainder of C has the sign of the dividend.\<close>

definition next_pos :: "int \<Rightarrow> int" where
  "next_pos pos = (if pos + 1 < 0 then - (- (pos + 1) mod bufsize) else (pos + 1) mod bufsize)"

definition ioq_full :: "kioq \<Rightarrow> bool result" where
  "ioq_full s = assertE (intr_get_status (mm s) = INTR_OFF) (Inr (next_pos (head (ioq s)) = tail (ioq s)))"

definition ioq_empty :: "kioq \<Rightarrow> bool result" where
  "ioq_empty s = assertE (intr_get_status (mm s) = INTR_OFF) (Inr (head (ioq s) = tail (ioq s)))"

text \<open>The accesses to the array.\<close>

definition buf_put :: "char \<Rightarrow> ioqueue \<Rightarrow> ioqueue result" where
  "buf_put c q =
     (if 0 \<le> head q \<and> head q < int (length (buf q))
      then Inr (q\<lparr>buf := (buf q)[nat (head q) := c], head := next_pos (head q)\<rparr>) else Inl Out_of_bounds)"

definition buf_get :: "ioqueue \<Rightarrow> (char \<times> ioqueue) result" where
  "buf_get q =
     (if 0 \<le> tail q \<and> tail q < int (length (buf q))
      then Inr (buf q ! nat (tail q), q\<lparr>tail := next_pos (tail q)\<rparr>) else Inl Out_of_bounds)"

section \<open>Waiting\<close>

datatype side = Producer | Consumer

fun waiter :: "side \<Rightarrow> ioqueue \<Rightarrow> u32" where
  "waiter Producer q = producer q"
| "waiter Consumer q = consumer q"

fun set_waiter :: "side \<Rightarrow> u32 \<Rightarrow> ioqueue \<Rightarrow> ioqueue" where
  "set_waiter Producer p q = q\<lparr>producer := p\<rparr>"
| "set_waiter Consumer p q = q\<lparr>consumer := p\<rparr>"

definition ioq_wait :: "side \<Rightarrow> kioq \<Rightarrow> kioq result" where
  "ioq_wait w s =
     assertE (waiter w (ioq s) = 0)
       (thread_block TASK_BLOCKED (s\<lparr>ioq := set_waiter w (running_thread s) (ioq s)\<rparr>))"

definition wakeup :: "side \<Rightarrow> kioq \<Rightarrow> kioq result" where
  "wakeup w s =
     assertE (waiter w (ioq s) \<noteq> 0)
       (bindE (thread_unblock (waiter w (ioq s)) s) (\<lambda>s. Inr (s\<lparr>ioq := set_waiter w 0 (ioq s)\<rparr>)))"

text \<open>Where a call stands when the processor goes to another thread, or that it has returned.\<close>

datatype 'a progress = Done 'a | In_lock | In_wait

text \<open>The body of the two loops: take the lock and wait. A thread that holds the lock already takes it again
  without \<^verbatim>\<open>sema_down\<close>.\<close>

definition loop_body :: "u32 \<Rightarrow> side \<Rightarrow> kioq \<Rightarrow> ('a progress \<times> kioq) result" where
  "loop_body lk w s =
     bindE (lock_acquire lk s) (\<lambda>(got, s').
       if \<not> got then Inr (In_lock, s')
       else bindE (if lk_holder s lk = running_thread s then Inr s' else lock_acquired lk s') (\<lambda>s.
            bindE (ioq_wait w s) (\<lambda>s. Inr (In_wait, s))))"

text \<open>The rest of the body after the lock was contended.\<close>

definition lock_resume :: "u32 \<Rightarrow> side \<Rightarrow> kioq \<Rightarrow> ('a progress \<times> kioq) result" where
  "lock_resume lk w s =
     bindE (sema_down_resume (lock_sema lk) s) (\<lambda>(got, s).
       if \<not> got then Inr (In_lock, s)
       else bindE (lock_acquired lk s) (\<lambda>s. bindE (ioq_wait w s) (\<lambda>s. Inr (In_wait, s))))"

section \<open>Operations\<close>

text \<open>One evaluation of the loop condition with what follows.\<close>

definition getchar_loop :: "u32 \<Rightarrow> kioq \<Rightarrow> (char progress \<times> kioq) result" where
  "getchar_loop lk s =
     bindE (ioq_empty s) (\<lambda>e.
       if e then loop_body lk Consumer s
       else bindE (buf_get (ioq s)) (\<lambda>(result, q).
              let s = s\<lparr>ioq := q\<rparr> in
              bindE (if producer (ioq s) \<noteq> 0 then wakeup Producer s else Inr s) (\<lambda>s. Inr (Done result, s))))"

definition ioq_getchar :: "u32 \<Rightarrow> kioq \<Rightarrow> (char progress \<times> kioq) result" where
  "ioq_getchar lk s = assertE (intr_get_status (mm s) = INTR_OFF) (getchar_loop lk s)"

definition getchar_resume :: "u32 \<Rightarrow> char progress \<Rightarrow> kioq \<Rightarrow> (char progress \<times> kioq) result" where
  "getchar_resume lk at s =
     (if at = In_lock then lock_resume lk Consumer s
      else bindE (lock_release lk (thread_resume s)) (getchar_loop lk))"

definition putchar_loop :: "u32 \<Rightarrow> char \<Rightarrow> kioq \<Rightarrow> (unit progress \<times> kioq) result" where
  "putchar_loop lk c s =
     bindE (ioq_full s) (\<lambda>f.
       if f then loop_body lk Producer s
       else bindE (buf_put c (ioq s)) (\<lambda>q.
              let s = s\<lparr>ioq := q\<rparr> in
              bindE (if consumer (ioq s) \<noteq> 0 then wakeup Consumer s else Inr s) (\<lambda>s. Inr (Done (), s))))"

definition ioq_putchar :: "u32 \<Rightarrow> char \<Rightarrow> kioq \<Rightarrow> (unit progress \<times> kioq) result" where
  "ioq_putchar lk c s = assertE (intr_get_status (mm s) = INTR_OFF) (putchar_loop lk c s)"

definition putchar_resume :: "u32 \<Rightarrow> char \<Rightarrow> unit progress \<Rightarrow> kioq \<Rightarrow> (unit progress \<times> kioq) result" where
  "putchar_resume lk c at s =
     (if at = In_lock then lock_resume lk Producer s
      else bindE (lock_release lk (thread_resume s)) (putchar_loop lk c))"

section \<open>The ring\<close>

definition ioq_wf :: "ioqueue \<Rightarrow> bool" where
  "ioq_wf q \<longleftrightarrow> length (buf q) = 64 \<and> 0 \<le> head q \<and> head q < 64 \<and> 0 \<le> tail q \<and> tail q < 64"

definition ioq_contents :: "ioqueue \<Rightarrow> char list" where
  "ioq_contents q = ring_contents 64 (buf q) (nat (head q)) (nat (tail q))"

definition ring_is_full :: "ioqueue \<Rightarrow> bool" where
  "ring_is_full q \<longleftrightarrow> next_pos (head q) = tail q"

definition ring_is_empty :: "ioqueue \<Rightarrow> bool" where
  "ring_is_empty q \<longleftrightarrow> head q = tail q"

definition ring_put :: "ioqueue \<Rightarrow> char \<Rightarrow> ioqueue" where
  "ring_put q c = q\<lparr>buf := (buf q)[nat (head q) := c], head := next_pos (head q)\<rparr>"

definition ring_get :: "ioqueue \<Rightarrow> char \<times> ioqueue" where
  "ring_get q = (buf q ! nat (tail q), q\<lparr>tail := next_pos (tail q)\<rparr>)"

lemma next_pos_nat: "0 \<le> p \<Longrightarrow> nat (next_pos p) = (nat p + 1) mod 64"
  by (simp add: next_pos_def bufsize_def nat_mod_distrib nat_add_distrib)

lemma next_pos_range: "0 \<le> p \<Longrightarrow> 0 \<le> next_pos p \<and> next_pos p < 64"
  by (simp add: next_pos_def bufsize_def)

interpretation ioq_ring: bounded_queue ring_is_full ring_put ring_is_empty ring_get ioq_contents 63 ioq_wf
proof
  fix q assume q: "ioq_wf q"
  then have nat_eq: "next_pos (head q) = tail q \<longleftrightarrow> (nat (head q) + 1) mod 64 = nat (tail q)"
    by (smt (verit) ioq_wf_def nat_eq_iff2 next_pos_nat next_pos_range)
  show "ring_is_full q \<longleftrightarrow> length (ioq_contents q) = 63"
    using q ring_full [of "nat (head q)" 64 "nat (tail q)" "buf q"]
    by (simp add: ring_is_full_def nat_eq ioq_contents_def ioq_wf_def nat_less_iff)
  show "ring_is_empty q \<longleftrightarrow> ioq_contents q = []"
    using q ring_empty [of "nat (head q)" 64 "nat (tail q)" "buf q"]
    by (simp add: ring_is_empty_def ioq_contents_def ioq_wf_def nat_less_iff eq_nat_nat_iff)
  show "length (ioq_contents q) \<le> 63"
    using ring_bound [of 64 "buf q"] by (simp add: ioq_contents_def)
  show "ioq_wf (ring_put q x) \<and> ioq_contents (ring_put q x) = ioq_contents q @ [x]" if "\<not> ring_is_full q" for x
    using q that next_pos_range [of "head q"] ring_push [of "nat (head q)" 64 "nat (tail q)" "buf q" x]
    by (simp add: ring_is_full_def nat_eq ring_put_def ioq_contents_def ioq_wf_def next_pos_nat nat_less_iff)
  show "ioq_wf (snd (ring_get q)) \<and> ioq_contents q = fst (ring_get q) # ioq_contents (snd (ring_get q))"
    if "\<not> ring_is_empty q"
    using q that next_pos_range [of "tail q"] ring_pop [of "nat (head q)" 64 "nat (tail q)" "buf q"]
    by (simp add: ring_is_empty_def ring_get_def ioq_contents_def ioq_wf_def next_pos_nat nat_less_iff eq_nat_nat_iff)
qed

section \<open>Scheduling and locking leave the queue alone\<close>

lemma more_ioq:
  fixes s t :: "'a kioq_scheme"
  assumes "ksched.more t = ksched.more s"
  shows "ioq t = ioq s"
  using assms by (cases s; cases t) simp

lemma not_in_Inr: "not_in l e s k = Inr x \<Longrightarrow> k = Inr x"
  by (simp add: not_in_def assertE_def split: option.splits if_splits)

lemma unblock_more: "thread_unblock p s = Inr t \<Longrightarrow> ksched.more t = ksched.more s"
  by (auto simp: thread_unblock_def Let_def result_elims sched_simps split: prod.splits if_splits dest!: not_in_Inr)

lemma dispatch_more: "dispatch c s = Inr t \<Longrightarrow> ksched.more t = ksched.more s"
  by (auto simp: dispatch_def Let_def result_elims process_activate_def page_dir_activate_def switch_to_def sched_simps
      split: prod.splits if_splits)

lemma schedule_more: "schedule s = Inr t \<Longrightarrow> ksched.more t = ksched.more s"
  by (auto simp: schedule_def Let_def result_elims sched_simps split: if_splits
      dest!: not_in_Inr dispatch_more unblock_more)

lemma block_more: "thread_block st s = Inr t \<Longrightarrow> ksched.more t = ksched.more s"
  by (auto simp: thread_block_def Let_def result_elims sched_simps split: prod.splits dest!: schedule_more)

lemma unblock_ioq: "thread_unblock p s = Inr t \<Longrightarrow> ioq t = ioq s"
  by (rule more_ioq) (erule unblock_more)

lemma schedule_ioq: "schedule s = Inr t \<Longrightarrow> ioq t = ioq s"
  by (rule more_ioq) (erule schedule_more)

lemma block_ioq: "thread_block st s = Inr t \<Longrightarrow> ioq t = ioq s"
  by (rule more_ioq) (erule block_more)

lemma on_mm_ioq [simp]: "ioq (on_mm f s) = ioq s"
  by (simp add: on_mm_def)

lemma resume_ioq [simp]: "ioq (thread_resume s) = ioq s"
  by (simp add: thread_resume_def)

lemma try_ioq: "sema_try x s = Inr (g, t) \<Longrightarrow> ioq t = ioq s"
  by (auto simp: sema_try_def Let_def result_elims split: if_splits dest!: not_in_Inr block_ioq)

lemma down_ioq: "sema_down x s = Inr (g, t) \<Longrightarrow> ioq t = ioq s"
  by (auto simp: sema_down_def split: prod.splits dest!: try_ioq)

lemma acquire_ioq: "lock_acquire lk s = Inr (g, t) \<Longrightarrow> ioq t = ioq s"
  by (auto simp: lock_acquire_def split: if_splits dest!: down_ioq)

lemma acquired_ioq: "lock_acquired lk s = Inr t \<Longrightarrow> ioq t = ioq s"
  by (auto simp: lock_acquired_def Let_def result_elims)

lemma up_ioq: "sema_up x s = Inr t \<Longrightarrow> ioq t = ioq s"
  by (auto simp: sema_up_def Let_def result_elims split: if_splits prod.splits dest!: unblock_ioq)

lemma release_ioq: "lock_release lk s = Inr t \<Longrightarrow> ioq t = ioq s"
  by (auto simp: lock_release_def lock_release_begin_def result_elims split: if_splits dest!: up_ioq)

text \<open>The contents and the shape of the ring do not depend on who waits.\<close>

lemma set_waiter_ring [simp]:
  "ioq_wf (set_waiter w p q) = ioq_wf q" "ioq_contents (set_waiter w p q) = ioq_contents q"
  by (cases w; simp add: ioq_wf_def ioq_contents_def)+

definition same_ring :: "kioq \<Rightarrow> kioq \<Rightarrow> bool" where
  "same_ring s t \<longleftrightarrow> ioq_wf (ioq t) = ioq_wf (ioq s) \<and> ioq_contents (ioq t) = ioq_contents (ioq s)"

lemma same_ringI: "ioq t = ioq s \<Longrightarrow> same_ring s t"
  by (simp add: same_ring_def)

lemma same_ring_trans: "same_ring s t \<Longrightarrow> same_ring t u \<Longrightarrow> same_ring s u"
  by (simp add: same_ring_def)

lemma wait_ring: "ioq_wait w s = Inr t \<Longrightarrow> same_ring s t"
  by (auto simp: ioq_wait_def result_elims same_ring_def dest!: block_ioq)

lemma wakeup_ring: "wakeup w s = Inr t \<Longrightarrow> same_ring s t"
  by (auto simp: wakeup_def result_elims same_ring_def dest!: unblock_ioq)

lemma body_ring:
  assumes "loop_body lk w s = Inr (p, t)"
  shows "same_ring s t \<and> (p = In_lock \<or> p = In_wait)"
  using assms unfolding loop_body_def
  by (auto simp: result_elims split: if_splits
      dest!: acquire_ioq acquired_ioq wait_ring intro: same_ringI same_ring_trans [OF same_ringI])

lemma lock_resume_ring:
  assumes "lock_resume lk w s = Inr (p, t)"
  shows "same_ring s t \<and> (p = In_lock \<or> p = In_wait)"
  using assms unfolding lock_resume_def sema_down_resume_def
  by (auto simp: result_elims split: if_splits
      dest!: try_ioq acquired_ioq wait_ring intro: same_ringI same_ring_trans [OF same_ringI])

text \<open>What a call does to the ring: it has returned and has moved one character, or it waits because the
  queue was empty or full and the queue is as before.\<close>

fun got :: "kioq \<Rightarrow> char progress \<Rightarrow> kioq \<Rightarrow> bool" where
  "got s (Done c) t \<longleftrightarrow> ioq_contents (ioq s) = c # ioq_contents (ioq t) \<and> ioq_wf (ioq t)"
| "got s _ t \<longleftrightarrow> same_ring s t"

fun put_in :: "char \<Rightarrow> kioq \<Rightarrow> unit progress \<Rightarrow> kioq \<Rightarrow> bool" where
  "put_in c s (Done _) t \<longleftrightarrow> ioq_contents (ioq t) = ioq_contents (ioq s) @ [c] \<and> ioq_wf (ioq t)"
| "put_in c s _ t \<longleftrightarrow> same_ring s t"

lemma buf_get_ring: "ioq_wf q \<Longrightarrow> buf_get q = Inr (ring_get q)"
  by (simp add: buf_get_def ring_get_def ioq_wf_def)

lemma buf_put_ring: "ioq_wf q \<Longrightarrow> buf_put c q = Inr (ring_put q c)"
  by (simp add: buf_put_def ring_put_def ioq_wf_def)

lemma woken: "(if b then wakeup w s else Inr s) = Inr t \<Longrightarrow> same_ring s t"
  by (auto dest: wakeup_ring intro: same_ringI split: if_splits)

lemma getchar_loop_got:
  assumes wf: "ioq_wf (ioq s)" and "getchar_loop lk s = Inr (p, t)"
  shows "got s p t"
proof (cases "ring_is_empty (ioq s)")
  case True
  then have "loop_body lk Consumer s = Inr (p, t)"
    using assms(2) by (auto simp: getchar_loop_def ioq_empty_def ring_is_empty_def result_elims)
  then show ?thesis using body_ring by fastforce
next
  case False
  let ?s = "s\<lparr>ioq := snd (ring_get (ioq s))\<rparr>"
  have "p = Done (fst (ring_get (ioq s)))" "same_ring ?s t"
    using assms False
    by (auto simp: getchar_loop_def ioq_empty_def ring_is_empty_def result_elims buf_get_ring Let_def
        dest!: woken split: prod.splits)
  then show ?thesis using ioq_ring.pop_ok [OF wf False] by (simp add: same_ring_def)
qed

lemma putchar_loop_put:
  assumes wf: "ioq_wf (ioq s)" and "putchar_loop lk c s = Inr (p, t)"
  shows "put_in c s p t"
proof (cases "ring_is_full (ioq s)")
  case True
  then have "loop_body lk Producer s = Inr (p, t)"
    using assms(2) by (auto simp: putchar_loop_def ioq_full_def ring_is_full_def result_elims)
  then show ?thesis using body_ring by fastforce
next
  case False
  let ?s = "s\<lparr>ioq := ring_put (ioq s) c\<rparr>"
  have "p = Done ()" "same_ring ?s t"
    using assms False
    by (auto simp: putchar_loop_def ioq_full_def ring_is_full_def result_elims buf_put_ring Let_def
        dest!: woken)
  then show ?thesis using ioq_ring.push_ok [OF wf False] by (simp add: same_ring_def)
qed

lemma got_same: "same_ring s t \<Longrightarrow> got t p u \<Longrightarrow> got s p u"
  by (cases p) (auto simp: same_ring_def)

lemma put_same: "same_ring s t \<Longrightarrow> put_in c t p u \<Longrightarrow> put_in c s p u"
  by (cases p) (auto simp: same_ring_def)

lemma released_ring: "lock_release lk (thread_resume s) = Inr t \<Longrightarrow> same_ring s t"
  using release_ioq [of lk "thread_resume s" t] by (simp add: same_ring_def)

lemma getchar_resume_got:
  assumes "ioq_wf (ioq s)" "getchar_resume lk x s = Inr (p, t)"
  shows "got s p t"
proof (cases "x = In_lock")
  case True
  then show ?thesis using assms(2) lock_resume_ring [of lk Consumer s p t] by (auto simp: getchar_resume_def)
next
  case False
  then obtain u where "lock_release lk (thread_resume s) = Inr u" "getchar_loop lk u = Inr (p, t)"
    using assms(2) by (auto simp: getchar_resume_def result_elims)
  then show ?thesis
    using getchar_loop_got assms(1) released_ring got_same by (metis same_ring_def)
qed

lemma putchar_resume_put:
  assumes "ioq_wf (ioq s)" "putchar_resume lk c x s = Inr (p, t)"
  shows "put_in c s p t"
proof (cases "x = In_lock")
  case True
  then show ?thesis using assms(2) lock_resume_ring [of lk Producer s p t] by (auto simp: putchar_resume_def)
next
  case False
  then obtain u where "lock_release lk (thread_resume s) = Inr u" "putchar_loop lk c u = Inr (p, t)"
    using assms(2) by (auto simp: putchar_resume_def result_elims)
  then show ?thesis
    using putchar_loop_put assms(1) released_ring put_same by (metis same_ring_def)
qed

section \<open>Threads that share a queue\<close>

text \<open>
  The threads that share the queue put and get characters, in any order. \<open>call_at\<close> says where a thread is in a call;
  \<open>accepted\<close> are the characters whose \<^verbatim>\<open>ioq_putchar\<close> has stored them and \<open>delivered\<close> those that \<^verbatim>\<open>ioq_getchar\<close> has
  returned. A thread outside a call can lose the processor (\<open>switch\<close>).
\<close>

datatype call = Outside_call | Getting "char progress" | Putting char "unit progress"

record iosys =
  ist :: kioq
  call_at :: "u32 \<Rightarrow> call"
  accepted :: "char list"
  delivered :: "char list"

abbreviation this :: "iosys \<Rightarrow> u32" where
  "this z \<equiv> running_thread (ist z)"

fun after_get :: "iosys \<Rightarrow> char progress \<times> kioq \<Rightarrow> iosys" where
  "after_get z (Done c, s) =
     z\<lparr>ist := s, call_at := (call_at z)(this z := Outside_call), delivered := delivered z @ [c]\<rparr>"
| "after_get z (p, s) = z\<lparr>ist := s, call_at := (call_at z)(this z := Getting p)\<rparr>"

fun after_put :: "char \<Rightarrow> iosys \<Rightarrow> unit progress \<times> kioq \<Rightarrow> iosys" where
  "after_put c z (Done _, s) =
     z\<lparr>ist := s, call_at := (call_at z)(this z := Outside_call), accepted := accepted z @ [c]\<rparr>"
| "after_put c z (p, s) = z\<lparr>ist := s, call_at := (call_at z)(this z := Putting c p)\<rparr>"

inductive io_step :: "u32 \<Rightarrow> iosys \<Rightarrow> iosys \<Rightarrow> bool" for lk where
  get: "call_at z (this z) = Outside_call \<Longrightarrow> ioq_getchar lk (ist z) = Inr r \<Longrightarrow> io_step lk z (after_get z r)"
| get_on: "call_at z (this z) = Getting p \<Longrightarrow> getchar_resume lk p (ist z) = Inr r \<Longrightarrow>
    io_step lk z (after_get z r)"
| put: "call_at z (this z) = Outside_call \<Longrightarrow> ioq_putchar lk c (ist z) = Inr r \<Longrightarrow> io_step lk z (after_put c z r)"
| put_on: "call_at z (this z) = Putting c p \<Longrightarrow> putchar_resume lk c p (ist z) = Inr r \<Longrightarrow>
    io_step lk z (after_put c z r)"
| switch: "call_at z (this z) = Outside_call \<Longrightarrow> schedule (ist z) = Inr s \<Longrightarrow> io_step lk z (z\<lparr>ist := s\<rparr>)"

abbreviation io_reach :: "u32 \<Rightarrow> iosys \<Rightarrow> iosys \<Rightarrow> bool" where
  "io_reach lk \<equiv> (io_step lk)\<^sup>*\<^sup>*"

definition io_inv :: "iosys \<Rightarrow> bool" where
  "io_inv z \<longleftrightarrow> ioq_wf (ioq (ist z)) \<and> accepted z = delivered z @ ioq_contents (ioq (ist z))"

lemma after_get_inv: "io_inv z \<Longrightarrow> got (ist z) (fst r) (snd r) \<Longrightarrow> io_inv (after_get z r)"
  by (cases "(z, r)" rule: after_get.cases) (auto simp: io_inv_def same_ring_def)

lemma after_put_inv: "io_inv z \<Longrightarrow> put_in c (ist z) (fst r) (snd r) \<Longrightarrow> io_inv (after_put c z r)"
  by (cases "(c, z, r)" rule: after_put.cases) (auto simp: io_inv_def same_ring_def)

lemma io_step_inv: "io_step lk z z' \<Longrightarrow> io_inv z \<Longrightarrow> io_inv z'"
proof (induction rule: io_step.induct)
  case (get z r)
  then show ?case
    using after_get_inv getchar_loop_got [of "ist z" lk "fst r" "snd r"]
    by (simp add: ioq_getchar_def result_elims io_inv_def)
next
  case (get_on z p r)
  then show ?case
    using after_get_inv getchar_resume_got [of "ist z" lk p "fst r" "snd r"] by (simp add: io_inv_def)
next
  case (put z c r)
  then show ?case
    using after_put_inv putchar_loop_put [of "ist z" lk c "fst r" "snd r"]
    by (simp add: ioq_putchar_def result_elims io_inv_def)
next
  case (put_on z c p r)
  then show ?case
    using after_put_inv putchar_resume_put [of "ist z" lk c p "fst r" "snd r"] by (simp add: io_inv_def)
next
  case (switch z s)
  then show ?case using schedule_ioq [of "ist z" s] by (simp add: io_inv_def)
qed

lemma io_reach_inv: "io_reach lk z z' \<Longrightarrow> io_inv z \<Longrightarrow> io_inv z'"
  by (induction rule: rtranclp_induct) (auto dest: io_step_inv)

section \<open>A deadlock\<close>

lemma unblock_idle: "thread_unblock p s = Inr t \<Longrightarrow> idle_thread t = idle_thread s"
  by (auto simp: thread_unblock_def Let_def result_elims sched_simps split: prod.splits if_splits dest!: not_in_Inr)

lemma unblock_on:
  assumes inv: "lists_on lk B T r R W s" and p: "p \<in> B"
  shows "\<exists>s'. thread_unblock p s = Inr s' \<and> lists_on lk (B - {p}) T r (p # R) W s' \<and>
    eflags (mm s') = eflags (mm s) \<and> ksched.more s' = ksched.more s \<and> blk_old s' = blk_old s \<and>
    idle_thread s' = idle_thread s"
proof -
  have rel: "sched_rel T r R s" and T: "T = set (r # R) \<union> set W \<union> B" "set (r # R) \<inter> (set W \<union> B) = {}" "set W \<inter> B = {}"
    and w: "klist (mm s) (wait_list lk) (map general_tag W)"
    and ft: "foot (wait_list lk) [] \<inter> (foot (thread_ready_list s) [] \<union> general_tag ` T) = {}"
    and st: "status (task s r) = TASK_RUNNING" "\<And>p. p \<in> set W \<union> B \<Longrightarrow> status (task s p) = TASK_BLOCKED"
    using inv unfolding lists_on_def by blast+
  have tT: "\<And>p. p \<in> T \<Longrightarrow> general_tag p \<notin> foot (thread_ready_list s) []"
    using rel unfolding sched_rel_def by blast
  have pr: "p \<in> T" "p \<noteq> r" using p T by auto
  obtain t where t: "thread_unblock p s = Inr t" "sched_frame (set (p # R)) s t"
      "\<And>x. task t x = (if x = p then (task s p)\<lparr>status := TASK_READY\<rparr> else task s x)"
      "sched_rel T r (p # R) t"
    using thread_unblock_ok [OF rel pr(1)] pr(2) p st(2) by (auto simp: waiting_def)
  have same: "thread_ready_list t = thread_ready_list s" "eflags (mm t) = eflags (mm s)"
    "ksched.more t = ksched.more s" "blk_old t = blk_old s" "idle_thread t = idle_thread s"
    using t(2) by (simp_all add: sched_frame_def)
  have "foot (wait_list lk) (map general_tag W) \<inter> (foot (thread_ready_list s) [] \<union> general_tag ` set (p # R)) = {}"
    unfolding foot_tags using ft tT T p by auto
  then have "klist (mm t) (wait_list lk) (map general_tag W)"
    using t(2) w unfolding sched_frame_def by simp
  then have "lists_on lk (B - {p}) T r (p # R) W t"
    unfolding lists_on_def same using t(3,4) T ft st p pr by auto
  then show ?thesis using t(1) same by blast
qed

text \<open>The state between the steps: who runs, is ready, waits for the lock or is blocked elsewhere, interrupts off,
  and the fields of the lock and the waiters of the queue.\<close>

definition io_at ::
  "u32 \<Rightarrow> u32 set \<Rightarrow> u32 set \<Rightarrow> u32 \<Rightarrow> u32 list \<Rightarrow> u32 list \<Rightarrow> u32 \<Rightarrow> u8 \<Rightarrow> kioq \<Rightarrow> bool" where
  "io_at lk B T r R W holder v s \<longleftrightarrow>
     lists_on lk B T r R W s \<and> intr_get_status (mm s) = INTR_OFF \<and> sm_value s (lock_sema lk) = v \<and>
     lk_holder s lk = holder \<and> lk_repeat s lk = (if holder = 0 then 0 else 1)"

lemma io_at_running: "io_at lk B T r R W h v s \<Longrightarrow> running_thread s = r \<and> r \<noteq> 0 \<and> r \<in> T"
  by (auto simp: io_at_def lists_on_def sched_rel_def pcb_def)

lemma off_set:
  assumes "intr_get_status (mm s) = INTR_OFF"
  shows "intr_set_status INTR_OFF (mm s) = (INTR_OFF, mm s)" "intr_disable (mm s) = (INTR_OFF, mm s)"
  using assms by (simp_all add: intr_set_status_def intr_disable_def)

lemma io_at_ioq [simp]: "io_at lk B T r R W h v (s\<lparr>ioq := q\<rparr>) = io_at lk B T r R W h v s"
  unfolding io_at_def by (subst lists_cong [of _ s]) simp_all

text \<open>An uncontended pass through the loop: the thread has the lock and waits.\<close>

lemma body_waits:
  assumes at: "io_at lk B T r R W 0 1 s" and w: "waiter w (ioq s) = 0"
    and nx: "next_up B R (idle_thread s) B' n R'"
  shows "\<exists>s'. loop_body lk w s = Inr (In_wait, s') \<and> io_at lk (insert r B') T n R' W r 0 s' \<and>
    ioq s' = set_waiter w r (ioq s) \<and> blk_old s' = (blk_old s)(r := INTR_OFF) \<and> idle_thread s' = idle_thread s"
proof -
  have lists: "lists_on lk B T r R W s" and off: "intr_get_status (mm s) = INTR_OFF"
    and v: "sm_value s (lock_sema lk) = 1" and h: "lk_holder s lk = 0" "lk_repeat s lk = 0"
    using at by (simp_all add: io_at_def)
  have r: "running_thread s = r" "r \<noteq> 0" using io_at_running [OF at] by simp_all
  let ?a = "s\<lparr>sm_old := (sm_old s)(r := INTR_OFF), sm_value := (sm_value s)(lock_sema lk := 0)\<rparr>"
  let ?b = "?a\<lparr>lk_holder := (lk_holder s)(lk := r), lk_repeat := (lk_repeat s)(lk := 1)\<rparr>"
  let ?c = "?b\<lparr>ioq := set_waiter w r (ioq s)\<rparr>"
  have rt: "running_thread ?a = r" "running_thread ?b = r" using r by (simp_all add: running_thread_def)
  have "sema_down (lock_sema lk) s = Inr (True, ?a)"
    using v r(1) by (simp add: sema_down_def off_set [OF off] sema_try_def Let_def on_mm_def running_thread_def)
  then have "lock_acquire lk s = Inr (True, ?a)" using r h by (simp add: lock_acquire_def)
  moreover have "lock_acquired lk ?a = Inr ?b" using h rt by (simp add: lock_acquired_def Let_def)
  ultimately have body: "loop_body lk w s = bindE (thread_block TASK_BLOCKED ?c) (\<lambda>s. Inr (In_wait, s))"
    using w r h rt by (simp add: loop_body_def ioq_wait_def)
  have c: "lists_on lk B T r R W ?c" using lists by (subst lists_cong [of _ s]) simp_all
  obtain s' where "thread_block TASK_BLOCKED ?c = Inr s'" "blocks_to lk (insert r B') T n R' W ?c s'"
    using block_next [of T r R ?c W B lk W B' n R' "insert r B'"] c off nx unfolding lists_on_def by auto
  moreover have "running_thread ?c = r" using r by (simp add: running_thread_def)
  ultimately show ?thesis
    using body more_klock [of s' ?c] more_ioq [of s' ?c] r(2) by (auto simp: blocks_to_def io_at_def)
qed

text \<open>A contended one: the thread waits for the lock, at first and again when it is woken in vain.\<close>

lemma try_contended:
  assumes at: "io_at lk B T r R W h 0 s" and nx: "next_up B R (idle_thread s) B' n R'"
  shows "\<exists>s'. sema_try (lock_sema lk) s = Inr (False, s') \<and> io_at lk B' T n R' (W @ [r]) h 0 s' \<and>
    ioq s' = ioq s \<and> blk_old s' = (blk_old s)(r := INTR_OFF) \<and> idle_thread s' = idle_thread s"
proof -
  obtain s' where "sema_try (lock_sema lk) s = Inr (False, s')" "blocks_to lk B' T n R' (W @ [r]) s s'"
    using try_waits [of lk B T r R W s B' n R'] at nx by (auto simp: io_at_def)
  then show ?thesis
    using more_klock [of s' s] more_ioq [of s' s] at io_at_running [OF at] by (auto simp: blocks_to_def io_at_def)
qed

lemma body_contended:
  assumes at: "io_at lk B T r R W h 0 s" and h: "h \<noteq> r" and nx: "next_up B R (idle_thread s) B' n R'"
  shows "\<exists>s'. loop_body lk w s = Inr (In_lock, s') \<and> io_at lk B' T n R' (W @ [r]) h 0 s' \<and>
    ioq s' = ioq s \<and> blk_old s' = (blk_old s)(r := INTR_OFF) \<and> idle_thread s' = idle_thread s"
proof -
  have r: "running_thread s = r" using io_at_running [OF at] by simp
  have off: "intr_get_status (mm s) = INTR_OFF" using at by (simp add: io_at_def)
  let ?a = "s\<lparr>sm_old := (sm_old s)(r := INTR_OFF)\<rparr>"
  have a: "io_at lk B T r R W h 0 ?a"
    using at unfolding io_at_def by (subst lists_cong [of _ s]) simp_all
  have "sema_down (lock_sema lk) s = sema_try (lock_sema lk) ?a"
    by (simp add: sema_down_def off_set [OF off] r)
  then have "lock_acquire lk s = sema_try (lock_sema lk) ?a"
    using h at by (auto simp: lock_acquire_def io_at_def r)
  then show ?thesis
    using try_contended [OF a, of B' n R'] nx by (auto simp: loop_body_def)
qed

lemma resumed: 
  assumes "io_at lk B T r R W h v s" "blk_old s r = INTR_OFF"
  shows "thread_resume s = s"
  using assms io_at_running [OF assms(1)] off_set [of s]
  by (simp add: thread_resume_def on_mm_def io_at_def)

lemma resume_contended:
  assumes "io_at lk B T r R W h 0 s" "blk_old s r = INTR_OFF" "next_up B R (idle_thread s) B' n R'"
  shows "\<exists>s'. lock_resume lk w s = Inr (In_lock, s') \<and> io_at lk B' T n R' (W @ [r]) h 0 s' \<and>
    ioq s' = ioq s \<and> blk_old s' = (blk_old s)(r := INTR_OFF) \<and> idle_thread s' = idle_thread s"
  using try_contended [OF assms(1,3)] resumed [OF assms(1,2)]
  by (auto simp: lock_resume_def sema_down_resume_def)

lemma up_idle: "sema_up x s = Inr t \<Longrightarrow> idle_thread t = idle_thread s"
  by (auto simp: sema_up_def Let_def result_elims sched_simps split: if_splits prod.splits dest!: unblock_idle)

lemma waiter_releases:
  assumes at: "io_at lk B T r R W r 0 s" and old: "blk_old s r = INTR_OFF"
  shows "\<exists>s'. lock_release lk (thread_resume s) = Inr s' \<and> io_at lk B T r (take 1 W @ R) (drop 1 W) 0 1 s' \<and>
    ioq s' = ioq s \<and> blk_old s' = blk_old s \<and> idle_thread s' = idle_thread s"
proof -
  have r: "running_thread s = r" "r \<noteq> 0" using io_at_running [OF at] by simp_all
  let ?a = "s\<lparr>lk_holder := (lk_holder s)(lk := 0), lk_repeat := (lk_repeat s)(lk := 0)\<rparr>"
  have "lists_on lk B T r R W ?a" using at by (subst lists_cong [of _ s]) (simp_all add: io_at_def)
  moreover have "sm_value ?a (lock_sema lk) = 0" using at by (simp add: io_at_def)
  note up_ok [OF calculation this]
  then obtain s' where s': "sema_up (lock_sema lk) ?a = Inr s'"
      "lists_on lk B T r (take 1 W @ R) (drop 1 W) s'" "eflags (mm s') = eflags (mm s)"
      "sm_value s' = (sm_value s)(lock_sema lk := 1)" "lk_holder s' = lk_holder ?a" "lk_repeat s' = lk_repeat ?a"
      "blk_old s' = blk_old s"
    by auto
  have "lock_release lk (thread_resume s) = Inr s'"
    using at r s'(1) by (simp add: resumed [OF at old] lock_release_def lock_release_begin_def io_at_def)
  then show ?thesis
    using s' at up_ioq [OF s'(1)] up_idle [OF s'(1)] by (auto simp: io_at_def intr_get_status_def)
qed

text \<open>Calls that do not wait and find nobody waiting.\<close>

lemma getchar_plain:
  assumes "io_at lk B T r R W h v s" "ioq_wf (ioq s)" "ioq_contents (ioq s) \<noteq> []" "producer (ioq s) = 0"
  shows "getchar_loop lk s = Inr (Done (fst (ring_get (ioq s))), s\<lparr>ioq := snd (ring_get (ioq s))\<rparr>)"
  using assms ioq_ring.empt_iff [of "ioq s"]
  by (simp add: getchar_loop_def ioq_empty_def ring_is_empty_def io_at_def buf_get_ring split_beta ring_get_def)

lemma putchar_plain:
  assumes "io_at lk B T r R W h v s" "ioq_wf (ioq s)" "length (ioq_contents (ioq s)) < 63" "consumer (ioq s) = 0"
  shows "putchar_loop lk c s = Inr (Done (), s\<lparr>ioq := ring_put (ioq s) c\<rparr>)"
  using assms ioq_ring.full_iff [of "ioq s"]
  by (simp add: putchar_loop_def ioq_full_def ring_is_full_def io_at_def buf_put_ring ring_put_def)

lemma ring_waiters [simp]:
  "producer (ring_put q c) = producer q" "consumer (ring_put q c) = consumer q"
  "producer (snd (ring_get q)) = producer q" "consumer (snd (ring_get q)) = consumer q"
  by (simp_all add: ring_put_def ring_get_def)

text \<open>Runs of such calls.\<close>

lemma put_run:
  assumes "io_at lk B T r R W h v (ist z)" "call_at z r = Outside_call" "ioq_wf (ioq (ist z))"
    "length (ioq_contents (ioq (ist z))) + length cs \<le> 63" "consumer (ioq (ist z)) = 0"
  shows "\<exists>q a. io_reach lk z (z\<lparr>ist := (ist z)\<lparr>ioq := q\<rparr>, accepted := a\<rparr>) \<and> ioq_wf q \<and>
    ioq_contents q = ioq_contents (ioq (ist z)) @ cs \<and> producer q = producer (ioq (ist z)) \<and> consumer q = 0"
  using assms
proof (induction cs arbitrary: z)
  case Nil
  have "z\<lparr>ist := (ist z)\<lparr>ioq := ioq (ist z)\<rparr>, accepted := accepted z\<rparr> = z" by simp
  then show ?case using Nil by (metis append.right_neutral rtranclp.rtrancl_refl)
next
  case (Cons c cs)
  let ?q = "ring_put (ioq (ist z)) c"
  let ?z = "z\<lparr>ist := (ist z)\<lparr>ioq := ?q\<rparr>, accepted := accepted z @ [c]\<rparr>"
  have r: "this z = r" using io_at_running [OF Cons.prems(1)] by simp
  have "\<not> ring_is_full (ioq (ist z))" using Cons.prems(3,4) ioq_ring.full_iff by fastforce
  then have q: "ioq_wf ?q" "ioq_contents ?q = ioq_contents (ioq (ist z)) @ [c]"
    using ioq_ring.push_ok Cons.prems(3) by blast+
  have "ioq_putchar lk c (ist z) = Inr (Done (), (ist z)\<lparr>ioq := ?q\<rparr>)"
    using putchar_plain [OF Cons.prems(1,3) _ Cons.prems(5), of c] Cons.prems(1,4) by (simp add: ioq_putchar_def io_at_def)
  from io_step.put [of z, OF _ this] have step: "io_step lk z ?z"
    using Cons.prems(2) by (simp add: r fun_upd_idem)
  obtain q a where "io_reach lk ?z (?z\<lparr>ist := (ist ?z)\<lparr>ioq := q\<rparr>, accepted := a\<rparr>)" "ioq_wf q"
      "ioq_contents q = ioq_contents ?q @ cs" "producer q = producer ?q" "consumer q = 0"
    using Cons.IH [of ?z] Cons.prems q by auto
  then show ?case using q step by (auto intro!: exI [of _ q] exI [of _ a] converse_rtranclp_into_rtranclp [of "io_step lk", OF step])
qed

lemma get_run:
  assumes "io_at lk B T r R W h v (ist z)" "call_at z r = Outside_call" "ioq_wf (ioq (ist z))"
    "ioq_contents (ioq (ist z)) = cs" "producer (ioq (ist z)) = 0"
  shows "\<exists>q d. io_reach lk z (z\<lparr>ist := (ist z)\<lparr>ioq := q\<rparr>, delivered := d\<rparr>) \<and> ioq_wf q \<and>
    ioq_contents q = [] \<and> consumer q = consumer (ioq (ist z)) \<and> producer q = 0"
  using assms
proof (induction cs arbitrary: z)
  case Nil
  have "z\<lparr>ist := (ist z)\<lparr>ioq := ioq (ist z)\<rparr>, delivered := delivered z\<rparr> = z" by simp
  then show ?case using Nil by (metis rtranclp.rtrancl_refl)
next
  case (Cons c cs)
  let ?q = "snd (ring_get (ioq (ist z)))"
  let ?z = "z\<lparr>ist := (ist z)\<lparr>ioq := ?q\<rparr>, delivered := delivered z @ [fst (ring_get (ioq (ist z)))]\<rparr>"
  have r: "this z = r" using io_at_running [OF Cons.prems(1)] by simp
  have "\<not> ring_is_empty (ioq (ist z))" using Cons.prems(3,4) ioq_ring.empt_iff by fastforce
  then have q: "ioq_wf ?q" "ioq_contents ?q = cs"
    using ioq_ring.pop_ok [of "ioq (ist z)"] Cons.prems(3,4) by auto
  have "ioq_getchar lk (ist z) = Inr (Done (fst (ring_get (ioq (ist z)))), (ist z)\<lparr>ioq := ?q\<rparr>)"
    using getchar_plain [OF Cons.prems(1,3) _ Cons.prems(5)] Cons.prems(1,4) by (simp add: ioq_getchar_def io_at_def)
  from io_step.get [of z, OF _ this] have step: "io_step lk z ?z"
    using Cons.prems(2) by (simp add: r fun_upd_idem)
  obtain q d where "io_reach lk ?z (?z\<lparr>ist := (ist ?z)\<lparr>ioq := q\<rparr>, delivered := d\<rparr>)" "ioq_wf q"
      "ioq_contents q = []" "consumer q = consumer ?q" "producer q = 0"
    using Cons.IH [of ?z] Cons.prems q by auto
  then show ?case using q step by (auto intro!: exI [of _ q] exI [of _ d] converse_rtranclp_into_rtranclp [of "io_step lk", OF step])
qed

text \<open>A put that finds the consumer waiting wakes it.\<close>

lemma putchar_wakes:
  assumes at: "io_at lk B T r R W h v s" and q: "ioq_wf (ioq s)" "length (ioq_contents (ioq s)) < 63"
    and c: "consumer (ioq s) = p" "p \<in> B" "p \<noteq> 0"
  shows "\<exists>s'. putchar_loop lk c s = Inr (Done (), s') \<and> io_at lk (B - {p}) T r (p # R) W h v s' \<and>
    ioq s' = (ring_put (ioq s) c)\<lparr>consumer := 0\<rparr> \<and> blk_old s' = blk_old s \<and> idle_thread s' = idle_thread s"
proof -
  let ?s = "s\<lparr>ioq := ring_put (ioq s) c\<rparr>"
  have off: "intr_get_status (mm s) = INTR_OFF" using at by (simp add: io_at_def)
  have "io_at lk B T r R W h v ?s" using at by simp
  then obtain t where t: "thread_unblock p ?s = Inr t" "lists_on lk (B - {p}) T r (p # R) W t"
      "eflags (mm t) = eflags (mm ?s)" "ksched.more t = ksched.more ?s" "blk_old t = blk_old s"
      "idle_thread t = idle_thread s"
    using unblock_on [of lk B T r R W ?s p] c(2) by (auto simp: io_at_def)
  have "\<not> ring_is_full (ioq s)" using ioq_ring.full_iff q by fastforce
  then have "putchar_loop lk c s = Inr (Done (), t\<lparr>ioq := (ioq t)\<lparr>consumer := 0\<rparr>\<rparr>)"
    using off q c t(1) by (simp add: putchar_loop_def ioq_full_def ring_is_full_def buf_put_ring wakeup_def)
  moreover have "io_at lk (B - {p}) T r (p # R) W h v t"
    using at t more_klock [OF t(4)] by (simp add: io_at_def intr_get_status_def)
  ultimately show ?thesis using t more_ioq [OF t(4)] by simp
qed

text \<open>One producer and one consumer beside the idle thread, with an empty queue.\<close>

definition io_start :: "u32 \<Rightarrow> u32 \<Rightarrow> u32 \<Rightarrow> u32 \<Rightarrow> iosys \<Rightarrow> bool" where
  "io_start lk C P I z \<longleftrightarrow>
     io_at lk {I} {C, P, I} C [P] [] 0 1 (ist z) \<and> idle_thread (ist z) = I \<and>
     ioq_wf (ioq (ist z)) \<and> ioq_contents (ioq (ist z)) = [] \<and> producer (ioq (ist z)) = 0 \<and>
     consumer (ioq (ist z)) = 0 \<and> (\<forall>p. call_at z p = Outside_call) \<and> accepted z = delivered z"

text \<open>The consumer waits with the lock, and the first character of the producer wakes it.\<close>

definition woken :: "u32 \<Rightarrow> u32 \<Rightarrow> u32 \<Rightarrow> u32 \<Rightarrow> iosys \<Rightarrow> bool" where
  "woken lk C P I z \<longleftrightarrow>
     io_at lk {I} {C, P, I} P [C] [] C 0 (ist z) \<and> idle_thread (ist z) = I \<and> ioq_wf (ioq (ist z)) \<and>
     ioq_contents (ioq (ist z)) = [CHR ''x''] \<and> producer (ioq (ist z)) = 0 \<and> consumer (ioq (ist z)) = 0 \<and>
     blk_old (ist z) C = INTR_OFF \<and> call_at z C = Getting In_wait \<and> call_at z P = Outside_call"

lemma reach_woken:
  assumes start: "io_start lk C P I z0"
  shows "\<exists>z. io_reach lk z0 z \<and> woken lk C P I z"
proof -
  let ?T = "{C, P, I}" and ?x = "CHR ''x''"
  have at0: "io_at lk {I} ?T C [P] [] 0 1 (ist z0)" and I: "idle_thread (ist z0) = I"
    and q0: "ioq_wf (ioq (ist z0))" "ioq_contents (ioq (ist z0)) = []" "producer (ioq (ist z0)) = 0" "consumer (ioq (ist z0)) = 0"
    and out: "\<And>p. call_at z0 p = Outside_call"
    using start by (auto simp: io_start_def)
  have C: "this z0 = C" "C \<noteq> 0" using io_at_running [OF at0] by simp_all
  have CP: "C \<noteq> P" "C \<noteq> I" using at0 by (auto simp: io_at_def lists_on_def sched_rel_def)
  have e0: "head (ioq (ist z0)) = tail (ioq (ist z0))" using ioq_ring.empt_iff [OF q0(1)] q0(2) by (simp add: ring_is_empty_def)
  obtain s1 where s1: "loop_body lk Consumer (ist z0) = Inr (In_wait :: char progress, s1)"
      "io_at lk {C, I} ?T P [] [] C 0 s1" "ioq s1 = set_waiter Consumer C (ioq (ist z0))"
      "blk_old s1 = (blk_old (ist z0))(C := INTR_OFF)" "idle_thread s1 = I"
    using body_waits [OF at0, of Consumer "{I}" P "[]"] q0(4) I by (auto simp: next_up_def)
  let ?z1 = "z0\<lparr>ist := s1, call_at := (call_at z0)(C := Getting In_wait)\<rparr>"
  have "ioq_getchar lk (ist z0) = Inr (In_wait, s1)"
    using at0 s1(1) e0 by (simp add: ioq_getchar_def getchar_loop_def ioq_empty_def io_at_def)
  from io_step.get [OF _ this] have st1: "io_step lk z0 ?z1" using out by (simp add: C)
  have P: "this ?z1 = P" "P \<noteq> 0" using io_at_running [OF s1(2)] by simp_all
  have q1: "ioq_wf (ioq s1)" "ioq_contents (ioq s1) = []" "producer (ioq s1) = 0" "consumer (ioq s1) = C"
    using q0 set_waiter_ring [of Consumer C "ioq (ist z0)"] unfolding s1(3) by simp_all
  obtain s2 where s2: "putchar_loop lk ?x s1 = Inr (Done (), s2)" "io_at lk {I} ?T P [C] [] C 0 s2"
      "ioq s2 = (ring_put (ioq s1) ?x)\<lparr>consumer := 0\<rparr>" "blk_old s2 = blk_old s1" "idle_thread s2 = I"
    using putchar_wakes [OF s1(2) q1(1) _ q1(4), of ?x] q1(2) C CP s1(5) by auto
  let ?z2 = "z0\<lparr>ist := s2, call_at := (call_at z0)(C := Getting In_wait), accepted := accepted z0 @ [?x]\<rparr>"
  have "ioq_putchar lk ?x (ist ?z1) = Inr (Done (), s2)"
    using s1(2) s2(1) by (simp add: ioq_putchar_def io_at_def)
  from io_step.put [of ?z1, OF _ this] have st2: "io_step lk ?z1 ?z2"
    using out CP io_at_running [OF s1(2)] by (simp add: fun_upd_idem)
  have "\<not> ring_is_full (ioq s1)" using ioq_ring.full_iff q1 by fastforce
  then have "ioq_wf (ring_put (ioq s1) ?x)" "ioq_contents (ring_put (ioq s1) ?x) = [?x]"
    using ioq_ring.push_ok [OF q1(1)] q1(2) by simp_all
  then have "woken lk C P I ?z2"
    using q1(3) s2 s1(4) out CP by (simp add: woken_def ioq_wf_def ioq_contents_def)
  moreover have "io_reach lk z0 ?z2"
    using st1 st2 by (auto intro: converse_rtranclp_into_rtranclp)
  ultimately show ?thesis by blast
qed

text \<open>The producer fills the queue before the consumer runs, and waits for the lock, which the consumer holds.\<close>

definition filled :: "u32 \<Rightarrow> u32 \<Rightarrow> u32 \<Rightarrow> u32 \<Rightarrow> iosys \<Rightarrow> bool" where
  "filled lk C P I z \<longleftrightarrow>
     io_at lk {I} {C, P, I} C [] [P] C 0 (ist z) \<and> idle_thread (ist z) = I \<and> ioq_wf (ioq (ist z)) \<and>
     ioq_contents (ioq (ist z)) \<noteq> [] \<and> producer (ioq (ist z)) = 0 \<and> consumer (ioq (ist z)) = 0 \<and>
     blk_old (ist z) C = INTR_OFF \<and> blk_old (ist z) P = INTR_OFF \<and>
     call_at z C = Getting In_wait \<and> call_at z P = Putting (CHR ''x'') In_lock"

lemma reach_filled:
  assumes z: "woken lk C P I z"
  shows "\<exists>z'. io_reach lk z z' \<and> filled lk C P I z'"
proof -
  let ?T = "{C, P, I}" and ?x = "CHR ''x''"
  have at: "io_at lk {I} ?T P [C] [] C 0 (ist z)" and out: "call_at z P = Outside_call" "call_at z C = Getting In_wait"
    using z by (simp_all add: woken_def)
  have CP: "C \<noteq> P" using out by auto
  obtain q a where q: "io_reach lk z (z\<lparr>ist := (ist z)\<lparr>ioq := q\<rparr>, accepted := a\<rparr>)" "ioq_wf q"
      "length (ioq_contents q) = 63" "producer q = 0" "consumer q = 0"
    using put_run [OF at out(1), of "replicate 62 ?x"] z by (auto simp: woken_def)
  let ?z = "z\<lparr>ist := (ist z)\<lparr>ioq := q\<rparr>, accepted := a\<rparr>"
  have full: "next_pos (head q) = tail q" using ioq_ring.full_iff [OF q(2)] q(3) by (simp add: ring_is_full_def)
  have at': "io_at lk {I} ?T P [C] [] C 0 (ist ?z)" using at by simp
  obtain s where s: "loop_body lk Producer (ist ?z) = Inr (In_lock :: unit progress, s)"
      "io_at lk {I} ?T C [] [P] C 0 s" "ioq s = q" "blk_old s = (blk_old (ist z))(P := INTR_OFF)" "idle_thread s = I"
    using body_contended [OF at' CP, of "{I}" C "[]" Producer] z by (auto simp: next_up_def woken_def)
  have "ioq_putchar lk ?x (ist ?z) = Inr (In_lock, s)"
    using at' s(1) full by (simp add: ioq_putchar_def putchar_loop_def ioq_full_def io_at_def)
  from io_step.put [of ?z, OF _ this]
  have "io_step lk ?z (?z\<lparr>ist := s, call_at := (call_at z)(P := Putting ?x In_lock)\<rparr>)"
    using out io_at_running [OF at'] by simp
  moreover have "filled lk C P I (?z\<lparr>ist := s, call_at := (call_at z)(P := Putting ?x In_lock)\<rparr>)"
    using s q z CP by (auto simp: filled_def woken_def)
  ultimately show ?thesis using q(1) by (blast intro: rtranclp.rtrancl_into_rtrancl)
qed

text \<open>The consumer releases the lock and takes every character; nobody is registered as a waiting producer.\<close>

definition drained :: "u32 \<Rightarrow> u32 \<Rightarrow> u32 \<Rightarrow> u32 \<Rightarrow> iosys \<Rightarrow> bool" where
  "drained lk C P I z \<longleftrightarrow>
     io_at lk {I} {C, P, I} C [P] [] 0 1 (ist z) \<and> idle_thread (ist z) = I \<and> ioq_wf (ioq (ist z)) \<and>
     ioq_contents (ioq (ist z)) = [] \<and> producer (ioq (ist z)) = 0 \<and> consumer (ioq (ist z)) = 0 \<and>
     blk_old (ist z) P = INTR_OFF \<and> call_at z C = Outside_call \<and> call_at z P = Putting (CHR ''x'') In_lock"

lemma reach_drained:
  assumes z: "filled lk C P I z"
  shows "\<exists>z'. io_reach lk z z' \<and> drained lk C P I z'"
proof -
  let ?T = "{C, P, I}"
  have at: "io_at lk {I} ?T C [] [P] C 0 (ist z)" and old: "blk_old (ist z) C = INTR_OFF"
    and call: "call_at z C = Getting In_wait" "call_at z P = Putting (CHR ''x'') In_lock"
    using z by (simp_all add: filled_def)
  have CP: "C \<noteq> P" using call by auto
  obtain s where s: "lock_release lk (thread_resume (ist z)) = Inr s" "io_at lk {I} ?T C [P] [] 0 1 s"
      "ioq s = ioq (ist z)" "blk_old s = blk_old (ist z)" "idle_thread s = I"
    using waiter_releases [OF at old] z by (auto simp: filled_def)
  let ?q = "snd (ring_get (ioq s))" and ?c = "fst (ring_get (ioq s))"
  let ?z = "z\<lparr>ist := s\<lparr>ioq := ?q\<rparr>, call_at := (call_at z)(C := Outside_call), delivered := delivered z @ [?c]\<rparr>"
  have q: "ioq_wf (ioq s)" "ioq_contents (ioq s) \<noteq> []" "producer (ioq s) = 0" "consumer (ioq s) = 0"
    using z s(3) by (simp_all add: filled_def)
  have "getchar_resume lk In_wait (ist z) = Inr (Done ?c, s\<lparr>ioq := ?q\<rparr>)"
    using s(1) getchar_plain [OF s(2) q(1-3)] by (simp add: getchar_resume_def)
  from io_step.get_on [of z, OF _ this] have st: "io_step lk z ?z"
    using call io_at_running [OF at] by simp
  have "\<not> ring_is_empty (ioq s)" using ioq_ring.empt_iff q by blast
  then have q': "ioq_wf ?q" using ioq_ring.pop_ok q(1) by blast
  obtain q'' d where e: "io_reach lk ?z (?z\<lparr>ist := (ist ?z)\<lparr>ioq := q''\<rparr>, delivered := d\<rparr>)" "ioq_wf q''"
      "ioq_contents q'' = []" "consumer q'' = 0" "producer q'' = 0"
    using get_run [of lk "{I}" ?T C "[P]" "[]" 0 1 ?z] s(2) q q' by auto
  moreover have "drained lk C P I (?z\<lparr>ist := (ist ?z)\<lparr>ioq := q''\<rparr>, delivered := d\<rparr>)"
    using s e z CP by (auto simp: drained_def filled_def)
  ultimately show ?thesis using st by (blast intro: converse_rtranclp_into_rtranclp)
qed

text \<open>The consumer takes the free lock again and waits; the producer finds it taken again.\<close>

definition deadlocked :: "u32 \<Rightarrow> u32 \<Rightarrow> u32 \<Rightarrow> u32 \<Rightarrow> iosys \<Rightarrow> bool" where
  "deadlocked lk C P I z \<longleftrightarrow>
     lists_on lk {C} {C, P, I} I [] [P] (ist z) \<and> lk_holder (ist z) lk = C \<and> sm_value (ist z) (lock_sema lk) = 0 \<and>
     call_at z C = Getting In_wait \<and> call_at z P = Putting (CHR ''x'') In_lock \<and>
     ioq_contents (ioq (ist z)) = [] \<and> consumer (ioq (ist z)) = C \<and> idle_thread (ist z) = I"

lemma reach_deadlock:
  assumes z: "drained lk C P I z"
  shows "\<exists>z'. io_reach lk z z' \<and> deadlocked lk C P I z'"
proof -
  let ?T = "{C, P, I}"
  have at: "io_at lk {I} ?T C [P] [] 0 1 (ist z)" and q: "ioq_wf (ioq (ist z))" "ioq_contents (ioq (ist z)) = []"
      "producer (ioq (ist z)) = 0" "consumer (ioq (ist z)) = 0"
    and call: "call_at z C = Outside_call" "call_at z P = Putting (CHR ''x'') In_lock"
    using z by (simp_all add: drained_def)
  have CP: "C \<noteq> P" "C \<noteq> I" using at call by (auto simp: io_at_def lists_on_def)
  have e: "head (ioq (ist z)) = tail (ioq (ist z))" using ioq_ring.empt_iff [OF q(1)] q(2) by (simp add: ring_is_empty_def)
  obtain s where s: "loop_body lk Consumer (ist z) = Inr (In_wait :: char progress, s)"
      "io_at lk {C, I} ?T P [] [] C 0 s" "ioq s = set_waiter Consumer C (ioq (ist z))"
      "blk_old s = (blk_old (ist z))(C := INTR_OFF)" "idle_thread s = I"
    using body_waits [OF at, of Consumer "{I}" P "[]"] q(4) z by (auto simp: next_up_def drained_def)
  let ?z = "z\<lparr>ist := s, call_at := (call_at z)(C := Getting In_wait)\<rparr>"
  have "ioq_getchar lk (ist z) = Inr (In_wait, s)"
    using at s(1) e by (simp add: ioq_getchar_def getchar_loop_def ioq_empty_def io_at_def)
  from io_step.get [of z, OF _ this] have st: "io_step lk z ?z"
    using call io_at_running [OF at] by simp
  have nx: "next_up {C, I} [] (idle_thread s) {C} I []" using s(5) CP by (auto simp: next_up_def)
  have "blk_old s P = INTR_OFF" using z s(4) CP by (simp add: drained_def)
  then obtain t where t: "lock_resume lk Producer s = Inr (In_lock :: unit progress, t)"
      "io_at lk {C} ?T I [] [P] C 0 t" "ioq t = ioq s" "idle_thread t = I"
    using resume_contended [OF s(2) _ nx, of Producer] s(5) by auto
  have "putchar_resume lk (CHR ''x'') In_lock (ist ?z) = Inr (In_lock, t)"
    using t(1) by (simp add: putchar_resume_def)
  from io_step.put_on [of ?z, OF _ this]
  have st': "io_step lk ?z (?z\<lparr>ist := t, call_at := (call_at ?z)(P := Putting (CHR ''x'') In_lock)\<rparr>)"
    using call CP io_at_running [OF s(2)] by simp
  have "deadlocked lk C P I (?z\<lparr>ist := t, call_at := (call_at ?z)(P := Putting (CHR ''x'') In_lock)\<rparr>)"
    using t s(3) q(2) CP set_waiter_ring [of Consumer C "ioq (ist z)"] by (simp add: deadlocked_def io_at_def)
  then show ?thesis using st st' by (blast intro: converse_rtranclp_into_rtranclp)
qed

text \<open>
  The idle thread makes no calls to the queue. It blocks itself and is the next to run when no other thread is ready,
  goes on behind \<^verbatim>\<open>thread_block\<close>, enables interrupts and halts, and takes the ticks of the timer, which find the
  interrupt flag cleared by the gate. Together with the calls of the other threads these are the steps of
  a system with one consumer \<open>C\<close>, one producer \<open>P\<close> and the idle thread \<open>I\<close>.
\<close>

inductive sys_step :: "u32 \<Rightarrow> u32 \<Rightarrow> iosys \<Rightarrow> iosys \<Rightarrow> bool" for lk I where
  call: "this z \<noteq> I \<Longrightarrow> io_step lk z z' \<Longrightarrow> sys_step lk I z z'"
| idle_block: "this z = I \<Longrightarrow> thread_block TASK_BLOCKED (ist z) = Inr s \<Longrightarrow> sys_step lk I z (z\<lparr>ist := s\<rparr>)"
| idle_resume: "this z = I \<Longrightarrow> sys_step lk I z (z\<lparr>ist := thread_resume (ist z)\<rparr>)"
| idle_sti: "this z = I \<Longrightarrow> sys_step lk I z (z\<lparr>ist := on_mm (\<lambda>m. snd (intr_enable m)) (ist z)\<rparr>)"
| idle_tick: "this z = I \<Longrightarrow> intr_timer_handler (on_mm (\<lambda>m. snd (intr_disable m)) (ist z)) = Inr s \<Longrightarrow>
    sys_step lk I z (z\<lparr>ist := s\<rparr>)"

abbreviation sys_reach :: "u32 \<Rightarrow> u32 \<Rightarrow> iosys \<Rightarrow> iosys \<Rightarrow> bool" where
  "sys_reach lk I \<equiv> (sys_step lk I)\<^sup>*\<^sup>*"

text \<open>\<open>alone\<close>: a thread runs, no other one is ready, and nothing but its own scheduling changes.\<close>

definition alone :: "u32 \<Rightarrow> u32 set \<Rightarrow> u32 set \<Rightarrow> u32 \<Rightarrow> u32 list \<Rightarrow> kioq \<Rightarrow> kioq \<Rightarrow> bool" where
  "alone lk B T r W s t \<longleftrightarrow> lists_on lk B T r [] W t \<and> ksched.more t = ksched.more s \<and> idle_thread t = idle_thread s"

lemma lists_status:
  assumes "prev (mm t) = prev (mm s)" "nxt (mm t) = nxt (mm s)" "esp t = esp s" "thread_ready_list t = thread_ready_list s"
    "\<And>p. status (task t p) = status (task s p)" "\<And>p. self_kstack (task t p) = self_kstack (task s p)"
  shows "lists_on lk B T r R W t = lists_on lk B T r R W (s :: 'a ksched_scheme)"
  using assms klist_field_cong [of "mm t" "mm s"]
  by (simp add: lists_on_def sched_rel_def running_thread_def)

lemma alone_sched:
  assumes l: "lists_on lk B T r [] W s" and u: "klist (mm u) (wait_list lk) (map general_tag W)"
      "thread_ready_list u = thread_ready_list s" "ksched.more u = ksched.more s" "idle_thread u = idle_thread s"
    and t: "sched_rel T r [] t" "sched_frame {r} u t" "\<And>p. status (task t p) = (if p = r then TASK_RUNNING else status (task s p))"
  shows "alone lk B T r W s t"
proof -
  have T: "T = {r} \<union> set W \<union> B" "r \<notin> set W \<union> B" "set W \<inter> B = {}"
    and ft: "foot (wait_list lk) [] \<inter> (foot (thread_ready_list s) [] \<union> general_tag ` T) = {}"
    and st: "\<forall>p\<in>set W \<union> B. status (task s p) = TASK_BLOCKED" and rel: "sched_rel T r [] s"
    using l unfolding lists_on_def by auto
  have "\<And>p. p \<in> T \<Longrightarrow> general_tag p \<notin> foot (thread_ready_list s) []" using rel unfolding sched_rel_def by blast
  then have "foot (wait_list lk) (map general_tag W) \<inter> (foot (thread_ready_list u) [] \<union> general_tag ` {r}) = {}"
    unfolding foot_tags using ft T u(2) by auto
  then have "klist (mm t) (wait_list lk) (map general_tag W)" using t(2) u(1) unfolding sched_frame_def by simp
  moreover have "thread_ready_list t = thread_ready_list s" "ksched.more t = ksched.more s" "idle_thread t = idle_thread s"
    using t(2) u by (simp_all add: sched_frame_def)
  moreover have "\<forall>p\<in>set W \<union> B. status (task t p) = TASK_BLOCKED" using st t(3) T(2) by auto
  ultimately show ?thesis using T ft t(1,3) by (simp add: alone_def lists_on_def)
qed

lemma alone_block:
  assumes l: "lists_on lk B T r [] W s" and i: "idle_thread s = r" and b: "thread_block TASK_BLOCKED s = Inr t"
  shows "alone lk B T r W s t"
proof -
  let ?u = "blocking TASK_BLOCKED s"
  have rel: "sched_rel T r [] s" and w: "klist (mm s) (wait_list lk) (map general_tag W)"
    using l unfolding lists_on_def by blast+
  have r: "r \<in> T" using rel by (simp add: sched_rel_def)
  note u = blocking_rel [OF rel, of TASK_BLOCKED]
  obtain t' where "schedule ?u = Inr t'" "sched_rel T r [] t'" "sched_frame {r} ?u t'"
      "\<And>p. status (task t' p) = (if p = r then TASK_RUNNING else status (task ?u p))"
    using schedule_idle [OF u(1,2)] u(3,5) i r by (auto simp: waiting_def)
  moreover have "thread_block TASK_BLOCKED s = schedule ?u" by (rule thread_block_eq) (simp add: waiting_def)
  ultimately have t: "sched_rel T r [] t" "sched_frame {r} ?u t"
      "\<And>p. status (task t p) = (if p = r then TASK_RUNNING else status (task s p))"
    using b u(3) by auto
  show ?thesis
    by (rule alone_sched [OF l _ _ _ u(5) t]) (use w in \<open>simp_all add: blocking_def sched_simps disabled_list\<close>)
qed

lemma alone_schedule:
  assumes l: "lists_on lk B T r [] W s" and b: "schedule s = Inr t"
  shows "alone lk B T r W s t"
proof -
  have rel: "sched_rel T r [] s" and w: "klist (mm s) (wait_list lk) (map general_tag W)"
    and st: "status (task s r) = TASK_RUNNING" using l unfolding lists_on_def by blast+
  have off: "intr_get_status (mm s) = INTR_OFF" using b by (simp add: schedule_def result_elims)
  have t: "sched_rel T r [] t" "sched_frame {r} s t"
      "\<And>p. status (task t p) = (if p = r then TASK_RUNNING else status (task s p))"
    using schedule_running [OF rel off st] b by auto
  show ?thesis by (rule alone_sched [OF l w _ _ _ t]) simp_all
qed

lemma alone_tick:
  assumes l: "lists_on lk B T r [] W s" and b: "intr_timer_handler (on_mm (\<lambda>m. snd (intr_disable m)) s) = Inr t"
  shows "alone lk B T r W s t"
proof -
  let ?m = "on_mm (\<lambda>m. snd (intr_disable m)) s"
  let ?e = "set_task (running_thread ?m) (\<lambda>t. t\<lparr>elapsed_ticks := elapsed_ticks t + 1\<rparr>) ?m"
  let ?u = "?e\<lparr>all_ticks := all_ticks ?e + 1\<rparr>"
  have lu: "lists_on lk B T r [] W ?u" using l by (subst lists_status [of _ s]) (simp_all add: sched_simps disable_flag)
  have more: "ksched.more ?u = ksched.more s" "idle_thread ?u = idle_thread s" by (simp_all add: sched_simps)
  consider "schedule ?u = Inr t" | x where "t = set_task x (\<lambda>t. t\<lparr>ticks := ticks t - 1\<rparr>) ?u"
    using b by (auto simp: intr_timer_handler_def Let_def result_elims split: if_splits)
  then have "alone lk B T r W ?u t"
  proof cases
    case 1
    then show ?thesis by (rule alone_schedule [OF lu])
  next
    case 2
    then show ?thesis using lu by (subst alone_def, subst lists_status [of _ ?u]) (simp_all add: sched_simps)
  qed
  then show ?thesis using more by (simp add: alone_def)
qed

lemma alone_flag:
  assumes "lists_on lk B T r [] W s" "prev (f (mm s)) = prev (mm s)" "nxt (f (mm s)) = nxt (mm s)"
  shows "alone lk B T r W s (on_mm f s)"
  unfolding alone_def using assms by (subst lists_cong [of _ s]) (simp_all add: on_mm_def)

text \<open>Nothing that can happen wakes the two.\<close>

lemma deadlocked_alone:
  assumes "deadlocked lk C P I z" "alone lk {C} {C, P, I} I [P] (ist z) s"
  shows "deadlocked lk C P I (z\<lparr>ist := s\<rparr>)"
  using assms more_klock [of s "ist z"] more_ioq [of s "ist z"] by (simp add: deadlocked_def alone_def)

lemma sys_step_deadlocked:
  assumes "sys_step lk I z z'" "deadlocked lk C P I z"
  shows "deadlocked lk C P I z' \<and> accepted z' = accepted z \<and> delivered z' = delivered z"
proof -
  have l: "lists_on lk {C} {C, P, I} I [] [P] (ist z)" and i: "idle_thread (ist z) = I"
    using assms(2) by (simp_all add: deadlocked_def)
  then have run: "this z = I" by (simp add: lists_on_def sched_rel_def)
  obtain s where s: "z' = z\<lparr>ist := s\<rparr>" "alone lk {C} {C, P, I} I [P] (ist z) s"
    using assms(1)
  proof cases
    case call
    then show ?thesis using run by simp
  next
    case (idle_block s)
    then show ?thesis using alone_block [OF l i] that by blast
  next
    case idle_resume
    moreover have "alone lk {C} {C, P, I} I [P] (ist z) (thread_resume (ist z))"
      unfolding thread_resume_def by (rule alone_flag [OF l]) (simp_all add: intr_set_status_def intr_enable_def disable_flag)
    ultimately show ?thesis using that by blast
  next
    case idle_sti
    moreover have "alone lk {C} {C, P, I} I [P] (ist z) (on_mm (\<lambda>m. snd (intr_enable m)) (ist z))"
      by (rule alone_flag [OF l]) (simp_all add: intr_enable_def)
    ultimately show ?thesis using that by blast
  next
    case (idle_tick s)
    then show ?thesis using alone_tick [OF l] that by blast
  qed
  then show ?thesis using deadlocked_alone [OF assms(2) s(2)] by simp
qed

lemma sys_reach_deadlocked:
  assumes "sys_reach lk I z z'" "deadlocked lk C P I z"
  shows "deadlocked lk C P I z' \<and> accepted z' = accepted z \<and> delivered z' = delivered z"
  using assms
proof (induction rule: rtranclp_induct)
  case (step y x)
  then show ?case using sys_step_deadlocked [OF step.hyps(2), of C P] by simp
qed simp

section \<open>Properties\<close>

text \<open>C8: A queue shared by threads of which each may put and get is first in, first out: in every interleaving of
  their calls, with the waits in them, the characters delivered are those accepted, in their order and each
  once, and the difference is what the buffer holds, at most 63 characters. The system starts with three threads, of which
  one runs, one is ready and one is the idle thread.\<close>

theorem ioq_fifo:
  assumes "io_reach lk z0 z" "io_start lk C P I z0"
  shows "accepted z = delivered z @ ioq_contents (ioq (ist z)) \<and> length (ioq_contents (ioq (ist z))) \<le> 63"
proof -
  have "io_inv z0" using assms(2) by (simp add: io_start_def io_inv_def)
  then have "io_inv z" using io_reach_inv assms(1) by blast
  then show ?thesis using ioq_ring.within by (simp add: io_inv_def)
qed

text \<open>C37: The queue can stop for good. A producer and a consumer reach a state in which the queue is empty, the consumer
  waits for a character while it holds the lock, and the producer, whose character was refused when
  the queue was full, waits for that lock; neither is ready and only the idle thread runs. From there on, whatever
  the idle thread does and however often the timer ticks, both stay where they are and no character is accepted or delivered
  any more.\<close>

theorem ioq_deadlock:
  assumes "io_start lk C P I z0"
  shows "\<exists>z. io_reach lk z0 z \<and> deadlocked lk C P I z \<and>
    (\<forall>z'. sys_reach lk I z z' \<longrightarrow> deadlocked lk C P I z' \<and> accepted z' = accepted z \<and> delivered z' = delivered z)"
proof -
  obtain z where z: "io_reach lk z0 z" "deadlocked lk C P I z"
    using reach_woken [OF assms] reach_filled reach_drained reach_deadlock by (meson rtranclp_trans)
  then show ?thesis using sys_reach_deadlocked by blast
qed

definition demo_ioq :: iosys where
  "demo_ioq = \<lparr>ist = ioqueue_init 0x400
       \<lparr>mm = mm demo_sched, esp = 0x1f00, cr3_reg = 0x100000, tss_st = tss_st demo_sched, task = task demo_sched,
        thread_ready_list = 0x100, thread_all_list = 0x200, main_thread = 0x1000, idle_thread = 0x3000,
        all_ticks = 0, blk_old = (\<lambda>_. INTR_OFF), sm_value = (\<lambda>_. 0), sm_old = (\<lambda>_. INTR_OFF), lk_holder = (\<lambda>_. 0),
        lk_repeat = (\<lambda>_. 0), ioq = \<lparr>producer = 0, consumer = 0, buf = replicate 64 NUL, head = 0, tail = 0\<rparr>\<rparr>,
     call_at = (\<lambda>_. Outside_call), accepted = [], delivered = []\<rparr>"

lemma demo_ioq_start: "io_start 0x400 0x1000 0x2000 0x3000 demo_ioq"
proof -
  have rel: "sched_rel {0x1000, 0x2000, 0x3000} 0x1000 [0x2000] demo_sched" by (rule demo_rel)
  have "klist (mm demo_sched) 0x100 (map general_tag [0x2000])"
    using rel by (simp add: sched_rel_def demo_sched_def)
  then have "klist (list_init (wait_list 0x400) (mm demo_sched)) 0x100 (map general_tag [0x2000])"
    by (rule klist_init_other)
      (simp add: foot_def list_head_def list_tail_def general_tag_def sema_waiters_def lock_sema_def)
  moreover have "klist (list_init (wait_list 0x400) (mm demo_sched)) (wait_list 0x400) []" by (rule klist_init)
  moreover have "foot (wait_list 0x400) [] \<inter> (foot 0x100 [] \<union> general_tag ` {0x1000, 0x2000, 0x3000}) = {}"
    by (simp add: foot_def list_head_def list_tail_def general_tag_def sema_waiters_def lock_sema_def)
  moreover have "intr_get_status (list_init (wait_list 0x400) (mm demo_sched)) = INTR_OFF"
    using demo_off by (simp add: list_init_def intr_get_status_def)
  ultimately show ?thesis
    using rel unfolding io_start_def io_at_def lists_on_def demo_ioq_def ioqueue_init_def
    by (auto simp: lock_init_fields lock_init_def sema_init_def sched_simps sched_rel_def running_thread_def
        demo_sched_def demo_task_def ioq_wf_def ioq_contents_def ring_contents_def)
qed

theorem ioq_fifo_witness:
  "\<exists>z. io_reach 0x400 demo_ioq z \<and> accepted z = delivered z @ [CHR ''x'']"
proof -
  obtain z where z: "io_reach 0x400 demo_ioq z" "woken 0x400 0x1000 0x2000 0x3000 z"
    using reach_woken [OF demo_ioq_start] by blast
  then show ?thesis using ioq_fifo [OF z(1) demo_ioq_start] by (auto simp: woken_def)
qed

theorem ioq_deadlock_witness:
  "\<exists>z. io_reach 0x400 demo_ioq z \<and> deadlocked 0x400 0x1000 0x2000 0x3000 z \<and>
     (\<forall>z'. sys_reach 0x400 0x3000 z z' \<longrightarrow> deadlocked 0x400 0x1000 0x2000 0x3000 z')"
  using ioq_deadlock [OF demo_ioq_start] by blast

end
