(* ===== verification/Timer.thy ===== *)
theory Timer
  imports Heap Descriptors
begin

text \<open>
  The rest of \<^verbatim>\<open>drivers/timer.c\<close>: programming of the interval timer and sleeping. The handler of the timer interrupt is
  in \<open>Sched\<close>. A sleeping thread yields until the tick counter has moved far enough; the values of the counter that its
  loop condition meets are an argument.
\<close>

definition IRQ0_FREQUENCY :: nat where "IRQ0_FREQUENCY = 30000"

definition INPUT_FREQUENCY :: nat where "INPUT_FREQUENCY = 1193180"

definition COUNTER0_VALUE :: nat where "COUNTER0_VALUE = INPUT_FREQUENCY div IRQ0_FREQUENCY"

definition mil_seconds_per_intr :: u32 where "mil_seconds_per_intr = 10"

definition frequency_set :: "u8 \<Rightarrow> u8 \<Rightarrow> u8 \<Rightarrow> u8 \<Rightarrow> u16 \<Rightarrow> idt_state \<Rightarrow> idt_state" where
  "frequency_set counter_port counter_no rwl counter_mode counter_value s =
     outb32 (ucast counter_port) (ucast (drop_bit 8 counter_value))
       (outb32 (ucast counter_port) (ucast counter_value)
         (outb32 0x43 (push_bit 6 counter_no OR push_bit 4 rwl OR push_bit 1 counter_mode) s))"

definition timer_init :: "u32 \<Rightarrow> idt_state \<Rightarrow> (display list \<times> idt_state) result" where
  "timer_init handler s =
     bindE (register_handler 0x20 handler (frequency_set 0x40 0 3 2 (of_nat COUNTER0_VALUE) s)) (\<lambda>s.
       Inr ([Put_str (''timer_init start '' @ [CHR 0x0A]), Put_str (''timer_init done '' @ [CHR 0x0A])], s))"

text \<open>The loop of \<^verbatim>\<open>ticks_to_sleep\<close>: \<open>seen\<close> are the values of \<^verbatim>\<open>ticks\<close> at the successive tests, and the result is the
  number of yields, or \<open>None\<close> when the loop is not over after them.\<close>

fun ticks_to_sleep :: "u32 \<Rightarrow> u32 \<Rightarrow> u32 list \<Rightarrow> nat option" where
  "ticks_to_sleep start_ticks sleep_ticks [] = None"
| "ticks_to_sleep start_ticks sleep_ticks (ticks # seen) =
     (if ticks - start_ticks < sleep_ticks
      then map_option Suc (ticks_to_sleep start_ticks sleep_ticks seen) else Some 0)"

definition mtime_sleep_ticks :: "u32 \<Rightarrow> u32 result" where
  "mtime_sleep_ticks m_seconds =
     (let sleep_ticks = DIV_ROUND_UP m_seconds mil_seconds_per_intr in assertE (sleep_ticks > 0) (Inr sleep_ticks))"

definition mtime_sleep_for :: "u32 \<Rightarrow> u32 \<Rightarrow> u32 list \<Rightarrow> nat option result" where
  "mtime_sleep_for m_seconds start_ticks seen =
     bindE (mtime_sleep_ticks m_seconds) (\<lambda>n. Inr (ticks_to_sleep start_ticks n seen))"

section \<open>How long a sleep is\<close>

text \<open>The thread sleeps until the first time it sees the counter far enough from where it started, modulo \<open>2 ^ 32\<close>.\<close>

lemma ticks_to_sleep_first:
  "ticks_to_sleep start n seen = Some k \<longleftrightarrow>
     k < length seen \<and> n \<le> seen ! k - start \<and> (\<forall>j<k. seen ! j - start < n)"
proof (induction seen arbitrary: k)
  case (Cons t seen)
  then show ?case by (cases k) (auto simp: nth_Cons' less_Suc_eq_0_disj)
qed simp

lemma mtime_sleep_ticks_eq:
  assumes "0 < unat ms" "unat ms + 9 < 2 ^ 32"
  shows "\<exists>n. mtime_sleep_ticks ms = Inr n \<and> unat n = (unat ms + 9) div 10"
proof -
  have "unat (ms + 10 - 1) = unat ms + 9"
    using unat_add_u32 [of ms 9] assms(2) by (simp add: add_diff_eq [symmetric])
  then have "unat (DIV_ROUND_UP ms mil_seconds_per_intr) = (unat ms + 9) div 10"
    by (simp add: DIV_ROUND_UP_def mil_seconds_per_intr_def unat_div)
  moreover have "0 < (unat ms + 9) div 10" using assms(1) by (simp add: div_greater_zero_iff)
  ultimately show ?thesis by (simp add: mtime_sleep_ticks_def word_gt_0_no word_less_nat_alt Let_def)
qed

text \<open>\<^verbatim>\<open>mtime_sleep\<close> does not sleep for the milliseconds it is given. The timer is programmed for 30000 interrupts a second
  while the conversion counts one interrupt as ten milliseconds, so that the number of cycles of the input clock for
  which it sleeps is less than a thirtieth of those in the time asked for, for every argument that is not
  zero and does not wrap.\<close>

theorem mtime_sleep_too_short:
  assumes "0 < unat ms" "unat ms + 9 < 2 ^ 32"
  shows "\<exists>n. mtime_sleep_ticks ms = Inr n \<and>
    30 * (unat n * COUNTER0_VALUE * 1000) < unat ms * INPUT_FREQUENCY"
proof -
  obtain n where n: "mtime_sleep_ticks ms = Inr n" "unat n = (unat ms + 9) div 10"
    using mtime_sleep_ticks_eq [OF assms] by blast
  have "unat n \<le> unat ms" unfolding n(2) using assms(1) by linarith
  then show ?thesis
    using n(1) assms(1) by (simp add: COUNTER0_VALUE_def INPUT_FREQUENCY_def IRQ0_FREQUENCY_def)
qed

theorem mtime_sleep_too_short_witness:
  "\<exists>n. mtime_sleep_ticks 1000 = Inr n \<and> 30 * (unat n * COUNTER0_VALUE * 1000) < 1000 * INPUT_FREQUENCY"
  using mtime_sleep_too_short [of 1000] by simp

end
