(* ===== verification/Ide.thy ===== *)
theory Ide
  imports Prelude Format
begin

text \<open>
  \<^verbatim>\<open>drivers/ide.c\<close>: the ATA driver. The processor sees the controller through ports; \<open>io\<close> is the
  last value written to a port, and \<open>media c d n\<close> the contents of sector \<open>n\<close> of drive \<open>d\<close> on channel
  \<open>c\<close>. The other side of the ports is the drive's PIO protocol of the ATA specification. The command register
  decides what happens: READ SECTORS (0x20), WRITE SECTORS (0x30) and IDENTIFY DEVICE (0xec) take the sector
  number (bits 0 to 27, in four registers), the sector count (zero means 256) and the drive (bit 4 of the device
  register) as they are when the command is written, and every other command transfers nothing. The data port
  moves one block of 512 bytes per sector, in the direction of the command, and only while the
  drive is not busy and requests data (DRQ); at any other time words read are whatever the bus holds (\<open>floating\<close>) and words
  written are lost. The drive interrupts before each block it delivers and after each block it has taken.

  Time is the environment's: \<open>seek_time\<close> and \<open>gap_time\<close> are for how many reads of the status register
  the drive stays busy after a command and after a block, by the number of commands and blocks before.

  The driver waits for the interrupt of a command in \<^verbatim>\<open>sema_down(&disk_done)\<close>. The interrupt of the drive is
  taken there, and \<^verbatim>\<open>intr_hd_handler\<close> answers with \<^verbatim>\<open>sema_up\<close>; a wait for which the drive has no
  interrupt does not end. The lock of a channel is counted, as in \<open>Paging\<close>.
\<close>

section \<open>State\<close>

record ide_channel =
  chan_name :: "char list"
  port_base :: u16
  irq_no :: u8
  chan_lock :: nat
  expecting_intr :: bool
  disk_done :: u8

record partition =
  start_lba :: u32
  sec_cnt :: u32
  my_disk :: "nat \<times> nat"
  part_name :: "char list"

record disk =
  disk_name :: "char list"
  my_channel :: nat
  dev_no :: u8
  prim_parts :: "partition list"
  logic_parts :: "partition list"

datatype ata_xfer =
    Idle
  | Reading nat nat nat
  | Writing nat nat nat
  | Identifying nat

text \<open>What a drive is at: \<open>Reading d n k\<close> has the \<open>k\<close> sectors from \<open>n\<close> of drive \<open>d\<close> still to deliver,
  \<open>Writing d n k\<close> has them still to take. \<open>busy\<close> counts the reads of the status register that will find the drive busy, \<open>intrq\<close>
  is the interrupt it raises at the end of that time.\<close>

record ata =
  xfer :: ata_xfer
  busy :: nat
  intrq :: bool

record ide =
  channels :: "ide_channel list"
  io :: "u16 \<Rightarrow> u8"
  media :: "nat \<Rightarrow> nat \<Rightarrow> nat \<Rightarrow> u8 list"
  id_data :: "nat \<Rightarrow> nat \<Rightarrow> u8 list"
  ata_of :: "nat \<Rightarrow> ata"
  seek_time :: "nat \<Rightarrow> nat"
  gap_time :: "nat \<Rightarrow> nat"
  events :: nat
  floating :: u8
  slept :: nat
  handlers :: "u8 \<Rightarrow> bool"

definition max_lba :: u32 where "max_lba = 80 * 1024 * 1024 div 512 - 1"

definition chan :: "nat \<Rightarrow> ide \<Rightarrow> ide_channel" where
  "chan c s = channels s ! c"

definition set_chan :: "nat \<Rightarrow> (ide_channel \<Rightarrow> ide_channel) \<Rightarrow> ide \<Rightarrow> ide" where
  "set_chan c f s = s\<lparr>channels := (channels s)[c := f (channels s ! c)]\<rparr>"

definition port :: "nat \<Rightarrow> u16 \<Rightarrow> ide \<Rightarrow> u16" where
  "port c off s = port_base (chan c s) + off"

definition ide_outb :: "u16 \<Rightarrow> u8 \<Rightarrow> ide \<Rightarrow> ide" where
  "ide_outb p v s = s\<lparr>io := (io s)(p := v)\<rparr>"

fun drq :: "ata_xfer \<Rightarrow> bool" where
  "drq (Reading _ _ (Suc _)) = True"
| "drq (Writing _ _ (Suc _)) = True"
| "drq (Identifying _) = True"
| "drq _ = False"

definition status_of :: "ata \<Rightarrow> u8" where
  "status_of a = (if busy a > 0 then 0x80 else if drq (xfer a) then 0x58 else 0x50)"

definition set_ata :: "nat \<Rightarrow> ata \<Rightarrow> ide \<Rightarrow> ide" where
  "set_ata c a s = s\<lparr>ata_of := (ata_of s)(c := a)\<rparr>"

definition inb_status :: "nat \<Rightarrow> ide \<Rightarrow> u8 \<times> ide" where
  "inb_status c s = (let a = ata_of s c in (status_of a, set_ata c (a\<lparr>busy := busy a - 1\<rparr>) s))"

section \<open>The drive's view of the registers\<close>

definition drive_lba :: "nat \<Rightarrow> ide \<Rightarrow> nat" where
  "drive_lba c s = unat (io s (port c 3 s)) + 256 * unat (io s (port c 4 s)) +
     65536 * unat (io s (port c 5 s)) + 16777216 * unat (io s (port c 6 s) AND 0x0f)"

definition drive_cnt :: "nat \<Rightarrow> ide \<Rightarrow> nat" where
  "drive_cnt c s = (if io s (port c 2 s) = 0 then 256 else unat (io s (port c 2 s)))"

definition drive_dev :: "nat \<Rightarrow> ide \<Rightarrow> nat" where
  "drive_dev c s = (if bit (io s (port c 6 s)) 4 then 1 else 0)"

definition drive_command :: "nat \<Rightarrow> u8 \<Rightarrow> ide \<Rightarrow> ide" where
  "drive_command c cmd s =
     (if busy (ata_of s c) > 0 then s
      else let d = drive_dev c s; n = drive_lba c s; k = drive_cnt c s;
               x = (if cmd = 0x20 then Reading d n k else if cmd = 0x30 then Writing d n k
                    else if cmd = 0xec then Identifying d else Idle)
           in (set_ata c \<lparr>xfer = x, busy = seek_time s (events s), intrq = (cmd \<noteq> 0x30)\<rparr> s)\<lparr>events := events s + 1\<rparr>)"

text \<open>One block through the data port.\<close>

definition read_block :: "nat \<Rightarrow> ide \<Rightarrow> u8 list \<times> ide" where
  "read_block c s =
     (if busy (ata_of s c) > 0 then (replicate 512 (floating s), s)
      else case xfer (ata_of s c) of
        Reading d n (Suc 0) \<Rightarrow>
          (media s c d n, (set_ata c \<lparr>xfer = Idle, busy = 0, intrq = False\<rparr> s)\<lparr>events := events s + 1\<rparr>)
      | Reading d n (Suc k) \<Rightarrow>
          (media s c d n,
           (set_ata c \<lparr>xfer = Reading d (n + 1) k, busy = gap_time s (events s), intrq = True\<rparr> s)\<lparr>events := events s + 1\<rparr>)
      | Identifying d \<Rightarrow>
          (id_data s c d, (set_ata c \<lparr>xfer = Idle, busy = 0, intrq = False\<rparr> s)\<lparr>events := events s + 1\<rparr>)
      | _ \<Rightarrow> (replicate 512 (floating s), s))"

definition write_block :: "nat \<Rightarrow> u8 list \<Rightarrow> ide \<Rightarrow> ide" where
  "write_block c b s =
     (if busy (ata_of s c) > 0 then s
      else case xfer (ata_of s c) of
        Writing d n (Suc k) \<Rightarrow>
          (set_ata c \<lparr>xfer = Writing d (n + 1) k, busy = gap_time s (events s), intrq = True\<rparr> s)
            \<lparr>media := (media s)(c := (media s c)(d := (media s c d)(n := b))), events := events s + 1\<rparr>
      | _ \<Rightarrow> s)"

text \<open>\<^verbatim>\<open>insw\<close> from the data port and \<^verbatim>\<open>outsw\<close> to it count in words; the driver moves whole blocks of 256 words.\<close>

primrec in_blocks :: "nat \<Rightarrow> nat \<Rightarrow> ide \<Rightarrow> u8 list \<times> ide" where
  "in_blocks c 0 s = ([], s)"
| "in_blocks c (Suc k) s = (case read_block c s of (b, s) \<Rightarrow> case in_blocks c k s of (bs, s) \<Rightarrow> (b @ bs, s))"

primrec out_blocks :: "nat \<Rightarrow> nat \<Rightarrow> u8 list \<Rightarrow> ide \<Rightarrow> ide" where
  "out_blocks c 0 bs s = s"
| "out_blocks c (Suc k) bs s = out_blocks c k (drop 512 bs) (write_block c (take 512 bs) s)"

definition insw :: "nat \<Rightarrow> nat \<Rightarrow> ide \<Rightarrow> u8 list \<times> ide" where
  "insw c word_cnt s = in_blocks c (word_cnt div 256) s"

definition outsw :: "nat \<Rightarrow> u8 list \<Rightarrow> nat \<Rightarrow> ide \<Rightarrow> ide" where
  "outsw c bs word_cnt s = out_blocks c (word_cnt div 256) bs s"

section \<open>Commands\<close>

definition select_disk :: "disk \<Rightarrow> ide \<Rightarrow> ide" where
  "select_disk dk s =
     (let reg_device = (0xa0 OR 0x40) OR (if dev_no dk = 1 then 0x10 else 0) in
      ide_outb (port (my_channel dk) 6 s) reg_device s)"

definition select_sector :: "disk \<Rightarrow> u32 \<Rightarrow> u8 \<Rightarrow> ide \<Rightarrow> ide result" where
  "select_sector dk lba cnt s =
     assertE (lba \<le> max_lba)
       (let c = my_channel dk;
            s = ide_outb (port c 2 s) cnt s;
            s = ide_outb (port c 3 s) (ucast lba) s;
            s = ide_outb (port c 4 s) (ucast (drop_bit 8 lba)) s;
            s = ide_outb (port c 5 s) (ucast (drop_bit 16 lba)) s;
            s = ide_outb (port c 6 s)
                  (ucast ((0xa0 :: u32) OR 0x40 OR (if dev_no dk = 1 then 0x10 else 0) OR drop_bit 24 lba)) s
        in Inr s)"

definition cmd_out :: "nat \<Rightarrow> u8 \<Rightarrow> ide \<Rightarrow> ide" where
  "cmd_out c cmd s =
     drive_command c cmd (ide_outb (port c 7 s) cmd (set_chan c (\<lambda>ch. ch\<lparr>expecting_intr := True\<rparr>) s))"

definition size_in_byte :: "u8 \<Rightarrow> nat" where
  "size_in_byte cnt = (if cnt = 0 then 256 * 512 else unat cnt * 512)"

text \<open>The buffer of a transfer is the list \<open>buf\<close> from the offset \<open>at\<close> on.\<close>

definition read_from_sector :: "disk \<Rightarrow> u8 list \<Rightarrow> nat \<Rightarrow> u8 \<Rightarrow> ide \<Rightarrow> (u8 list \<times> ide) result" where
  "read_from_sector dk buf at cnt s =
     (if at + size_in_byte cnt \<le> length buf
      then case insw (my_channel dk) (size_in_byte cnt div 2) s of (bs, s) \<Rightarrow> Inr (splice at bs buf, s)
      else Inl Out_of_bounds)"

definition write_to_sector :: "disk \<Rightarrow> u8 list \<Rightarrow> nat \<Rightarrow> u8 \<Rightarrow> ide \<Rightarrow> ide result" where
  "write_to_sector dk buf at cnt s =
     (if at + size_in_byte cnt \<le> length buf
      then Inr (outsw (my_channel dk) (take (size_in_byte cnt) (drop at buf)) (size_in_byte cnt div 2) s)
      else Inl Out_of_bounds)"

text \<open>\<^verbatim>\<open>mtime_sleep(10)\<close> lets the clock run on. The condition \<^verbatim>\<open>time_limit -= 10 >= 0\<close> reads
  \<^verbatim>\<open>time_limit -= (10 >= 0)\<close>.\<close>

definition mtime_sleep :: "nat \<Rightarrow> ide \<Rightarrow> ide" where
  "mtime_sleep ms s = s\<lparr>slept := slept s + ms\<rparr>"

function busy_loop :: "nat \<Rightarrow> u16 \<Rightarrow> ide \<Rightarrow> bool \<times> ide" where
  "busy_loop c time_limit s =
     (let time_limit = time_limit - (if (10 :: int) \<ge> 0 then 1 else 0) in
      if time_limit = 0 then (False, s)
      else (case inb_status c s of (st, s) \<Rightarrow>
              if st AND 0x80 = 0
              then (case inb_status c s of (st, s) \<Rightarrow> (st AND 0x8 \<noteq> 0, s))
              else busy_loop c time_limit (mtime_sleep 10 s)))"
  by pat_completeness auto
termination
proof (relation "measure (\<lambda>(_, t, _). if t = 0 then 2 ^ 16 else unat t)")
  fix c :: nat and t :: u16 and s :: ide and x :: u16
  fix st :: u8 and s' :: ide
  assume x: "x = t - (if (10 :: int) \<ge> 0 then 1 else 0)" "x \<noteq> 0"
  then have "unat x = (if t = 0 then 2 ^ 16 else unat t) - 1" by (cases "t = 0") (simp_all add: unat_minus_one unsigned_minus_1_eq_mask mask_eq_exp_minus_1)
  then show "((c, x, mtime_sleep 10 s'), c, t, s) \<in> measure (\<lambda>(_, t, _). if t = 0 then 2 ^ 16 else unat t)"
    using x(2) by (auto simp: unat_eq_0 unat_gt_0)
qed simp

declare busy_loop.simps [simp del]

definition busy_wait :: "disk \<Rightarrow> ide \<Rightarrow> bool \<times> ide" where
  "busy_wait dk s = busy_loop (my_channel dk) (30 * 1000) s"

text \<open>\<^verbatim>\<open>intr_hd_handler\<close>; \<^verbatim>\<open>sema_up\<close> asserts that the semaphore is down.\<close>

definition intr_hd_handler :: "u8 \<Rightarrow> ide \<Rightarrow> ide result" where
  "intr_hd_handler irq s =
     assertE (irq = 0x2e \<or> irq = 0x2f)
       (let ch_no = unat (irq - 0x2e) in
        assertE (irq_no (chan ch_no s) = irq)
          (if expecting_intr (chan ch_no s)
           then let s = set_chan ch_no (\<lambda>ch. ch\<lparr>expecting_intr := False\<rparr>) s in
                assertE (disk_done (chan ch_no s) = 0)
                  (Inr (snd (inb_status ch_no (set_chan ch_no (\<lambda>ch. ch\<lparr>disk_done := disk_done ch + 1\<rparr>) s))))
           else Inr s))"

text \<open>\<^verbatim>\<open>sema_down(&disk_done)\<close>: with the semaphore down the thread sleeps until the drive is no longer
  busy, raises its interrupt and the handler has run.\<close>

definition wait_done :: "nat \<Rightarrow> ide \<Rightarrow> ide result" where
  "wait_done c s =
     bindE (if disk_done (chan c s) = 0
            then if intrq (ata_of s c)
                 then intr_hd_handler (irq_no (chan c s)) (set_ata c ((ata_of s c)\<lparr>busy := 0, intrq := False\<rparr>) s)
                 else Inl Diverges
            else Inr s)
       (\<lambda>s. if disk_done (chan c s) = 0 then Inl Diverges
            else let s = set_chan c (\<lambda>ch. ch\<lparr>disk_done := disk_done ch - 1\<rparr>) s in
                 assertE (disk_done (chan c s) = 0) (Inr s))"

section \<open>Reading and writing\<close>

definition secs_op :: "u32 \<Rightarrow> u32 \<Rightarrow> u32" where
  "secs_op sd cnt = (if sd + 256 \<le> cnt then 256 else cnt - sd)"

lemma secs_op_bound:
  assumes "sd < cnt"
  shows "0 < unat (secs_op sd cnt) \<and> unat (secs_op sd cnt) \<le> 256"
proof (cases "sd + 256 \<le> cnt")
  case False
  have d: "unat (cnt - sd) = unat cnt - unat sd" "unat sd < unat cnt"
    using assms by (simp_all add: unat_sub word_less_nat_alt word_le_nat_alt)
  have "unat cnt < unat sd + 256"
  proof (rule ccontr)
    assume "\<not> unat cnt < unat sd + 256"
    moreover have "unat cnt < 2 ^ 32" by (rule unat_lt)
    ultimately have "unat (sd + 256) = unat sd + 256" using unat_add_lem [of sd 256] by simp
    then show False using False \<open>\<not> unat cnt < unat sd + 256\<close> by (simp add: word_le_nat_alt)
  qed
  then show ?thesis using False d by (simp add: secs_op_def)
qed (simp add: secs_op_def)

lemma select_sector_lba: "select_sector dk lba cnt s = Inr t \<Longrightarrow> lba \<le> max_lba"
  by (simp add: select_sector_def assertE_eq_Inr)

text \<open>The sector a round starts at grows with every round and is checked against the last one.\<close>

lemma next_lba:
  assumes "sd < cnt" "lba + sd \<le> max_lba"
  shows "unat (lba + (sd + secs_op sd cnt)) = unat (lba + sd) + unat (secs_op sd cnt)"
proof -
  have "unat (lba + sd) \<le> 163839" using assms(2) by (simp add: max_lba_def word_le_nat_alt)
  then have "unat (lba + sd) + unat (secs_op sd cnt) < 2 ^ 32"
    using secs_op_bound [OF assms(1)] by simp
  then show ?thesis using unat_add_lem [of "lba + sd" "secs_op sd cnt"] by (simp add: add.assoc)
qed

lemma round_measure:
  assumes "sd < cnt" "lba + sd \<le> max_lba"
  shows "164096 - unat (lba + (sd + secs_op sd cnt)) < 164096 - unat (lba + sd)"
proof -
  have "unat (lba + sd) \<le> 163839" using assms(2) by (simp add: max_lba_def word_le_nat_alt)
  then show ?thesis using next_lba [OF assms] secs_op_bound [OF assms(1)] by arith
qed

function read_loop :: "disk \<Rightarrow> u32 \<Rightarrow> u8 list \<Rightarrow> u32 \<Rightarrow> u32 \<Rightarrow> ide \<Rightarrow> (u8 list \<times> ide) result" where
  "read_loop dk lba buf cnt sd s =
     (if sd < cnt
      then bindE (select_sector dk (lba + sd) (ucast (secs_op sd cnt)) s) (\<lambda>s.
           bindE (wait_done (my_channel dk) (cmd_out (my_channel dk) 0x20 s)) (\<lambda>s.
           case busy_wait dk s of (ok, s) \<Rightarrow>
             if \<not> ok then Inl Panicked
             else bindE (read_from_sector dk buf (unat (sd * 512)) (ucast (secs_op sd cnt)) s) (\<lambda>(buf, s).
               read_loop dk lba buf cnt (sd + secs_op sd cnt) s)))
      else Inr (buf, s))"
  by pat_completeness auto

termination
  by (relation "measure (\<lambda>(dk, lba, buf, cnt, sd, s). 164096 - unat (lba + sd))")
    (auto dest!: select_sector_lba intro: round_measure)

function write_loop :: "disk \<Rightarrow> u32 \<Rightarrow> u8 list \<Rightarrow> u32 \<Rightarrow> u32 \<Rightarrow> ide \<Rightarrow> ide result" where
  "write_loop dk lba buf cnt sd s =
     (if sd < cnt
      then bindE (select_sector dk (lba + sd) (ucast (secs_op sd cnt)) s) (\<lambda>s.
           case busy_wait dk (cmd_out (my_channel dk) 0x30 s) of (ok, s) \<Rightarrow>
             if \<not> ok then Inl Panicked
             else bindE (write_to_sector dk buf (unat (sd * 512)) (ucast (secs_op sd cnt)) s) (\<lambda>s.
                  bindE (wait_done (my_channel dk) s) (\<lambda>s.
                    write_loop dk lba buf cnt (sd + secs_op sd cnt) s)))
      else Inr s)"
  by pat_completeness auto
termination
  by (relation "measure (\<lambda>(dk, lba, buf, cnt, sd, s). 164096 - unat (lba + sd))")
    (auto dest!: select_sector_lba intro: round_measure)

declare read_loop.simps [simp del] write_loop.simps [simp del]

definition chan_acquire :: "nat \<Rightarrow> ide \<Rightarrow> ide" where
  "chan_acquire c s = set_chan c (\<lambda>ch. ch\<lparr>chan_lock := chan_lock ch + 1\<rparr>) s"

definition chan_release :: "nat \<Rightarrow> ide \<Rightarrow> ide result" where
  "chan_release c s =
     assertE (chan_lock (chan c s) > 0) (Inr (set_chan c (\<lambda>ch. ch\<lparr>chan_lock := chan_lock ch - 1\<rparr>) s))"

definition ide_read :: "disk \<Rightarrow> u32 \<Rightarrow> u8 list \<Rightarrow> u32 \<Rightarrow> ide \<Rightarrow> (u8 list \<times> ide) result" where
  "ide_read dk lba buf cnt s =
     assertE (lba \<le> max_lba) (assertE (cnt > 0)
       (bindE (read_loop dk lba buf cnt 0 (select_disk dk (chan_acquire (my_channel dk) s))) (\<lambda>(buf, s).
          bindE (chan_release (my_channel dk) s) (\<lambda>s. Inr (buf, s)))))"

definition ide_write :: "disk \<Rightarrow> u32 \<Rightarrow> u8 list \<Rightarrow> u32 \<Rightarrow> ide \<Rightarrow> ide result" where
  "ide_write dk lba buf cnt s =
     assertE (lba \<le> max_lba) (assertE (cnt > 0)
       (bindE (write_loop dk lba buf cnt 0 (select_disk dk (chan_acquire (my_channel dk) s)))
          (chan_release (my_channel dk))))"

section \<open>What the drive is told\<close>

lemma u8_of_u32: "unat (ucast (w :: u32) :: u8) = unat w mod 256"
  by (simp add: unsigned_ucast_eq take_bit_eq_mod)

lemma max_lba_nat: "lba \<le> max_lba \<longleftrightarrow> unat lba \<le> 163839"
  by (simp add: max_lba_def word_le_nat_alt)

lemma port_outb [simp]: "port c off (ide_outb p v s) = port c off s"
  by (simp add: port_def chan_def ide_outb_def)

text \<open>The number of the drive that the driver addresses.\<close>

definition dev_of :: "disk \<Rightarrow> nat" where
  "dev_of dk = (if dev_no dk = 1 then 1 else 0)"

lemma select_sector_ok:
  assumes "lba \<le> max_lba"
  shows "\<exists>i. select_sector dk lba cnt s = Inr (s\<lparr>io := i\<rparr>) \<and>
    drive_lba (my_channel dk) (s\<lparr>io := i\<rparr>) = unat lba \<and>
    drive_cnt (my_channel dk) (s\<lparr>io := i\<rparr>) = (if cnt = 0 then 256 else unat cnt) \<and>
    drive_dev (my_channel dk) (s\<lparr>io := i\<rparr>) = dev_of dk"
proof -
  let ?c = "my_channel dk"
  let ?d = "ucast ((0xa0 :: u32) OR 0x40 OR (if dev_no dk = 1 then 0x10 else 0) OR drop_bit 24 lba) :: u8"
  define i where "i = (io s)(port ?c 2 s := cnt, port ?c 3 s := ucast lba, port ?c 4 s := ucast (drop_bit 8 lba),
    port ?c 5 s := ucast (drop_bit 16 lba), port ?c 6 s := ?d)"
  have l: "unat lba \<le> 163839" using assms by (simp add: max_lba_nat)
  have "drop_bit 24 lba = 0" using l by (simp add: unat_drop word_unat_eq_iff)
  then have d: "?d = (if dev_no dk = 1 then 0xf0 else 0xe0)" by simp
  have sel: "select_sector dk lba cnt s = Inr (s\<lparr>io := i\<rparr>)"
    using assms unfolding i_def by (simp add: select_sector_def Let_def) (simp add: ide_outb_def)
  have p: "port ?c k (s\<lparr>io := i\<rparr>) = port_base (chan ?c s) + k" for k by (simp add: port_def chan_def)
  have low: "unat (ucast lba :: u8) = unat lba mod 256"
    "unat (ucast (drop_bit 8 lba) :: u8) = unat lba div 256 mod 256"
    "unat (ucast (drop_bit 16 lba) :: u8) = unat lba div 65536 mod 256"
    by (simp_all add: u8_of_u32 unat_drop)
  have "drive_lba ?c (s\<lparr>io := i\<rparr>) =
      unat lba mod 256 + 256 * (unat lba div 256 mod 256) + 65536 * (unat lba div 65536 mod 256)"
    unfolding drive_lba_def p by (simp add: i_def port_def low d)
  also have "\<dots> = unat lba"
  proof -
    have "unat lba div 65536 mod 256 = unat lba div 256 div 256"
      using l by (simp add: div_mult2_eq [symmetric])
    moreover have "unat lba div 256 mod 256 + 256 * (unat lba div 256 div 256) = unat lba div 256"
      "unat lba mod 256 + 256 * (unat lba div 256) = unat lba"
      by (simp_all only: mod_mult_div_eq)
    ultimately show ?thesis by linarith
  qed
  finally have lba: "drive_lba ?c (s\<lparr>io := i\<rparr>) = unat lba" .
  have "drive_cnt ?c (s\<lparr>io := i\<rparr>) = (if cnt = 0 then 256 else unat cnt)"
    unfolding drive_cnt_def p by (simp add: i_def port_def)
  moreover have "drive_dev ?c (s\<lparr>io := i\<rparr>) = dev_of dk"
    unfolding drive_dev_def p dev_of_def by (simp add: i_def port_def d)
  ultimately show ?thesis using sel lba by blast
qed

section \<open>One command\<close>

text \<open>The channel is configured, no driver thread is owed an interrupt, and the drives start on a command
  before \<^verbatim>\<open>busy_wait\<close> gives up. A prompt drive has the next block ready, or has taken the last one,
  by the time the processor touches the data port again.\<close>

definition configured :: "nat \<Rightarrow> ide \<Rightarrow> bool" where
  "configured c s \<longleftrightarrow> length (channels s) = 2 \<and> c < 2 \<and> irq_no (chan c s) = 0x2e + of_nat c \<and>
     disk_done (chan c s) = 0 \<and> (\<forall>n. seek_time s n < 29999)"

definition chan_ready :: "nat \<Rightarrow> ide \<Rightarrow> bool" where
  "chan_ready c s \<longleftrightarrow> configured c s \<and> busy (ata_of s c) = 0"

definition prompt_drive :: "ide \<Rightarrow> bool" where
  "prompt_drive s \<longleftrightarrow> (\<forall>n. gap_time s n = 0)"

lemma chan_set [simp]:
  "c < length (channels s) \<Longrightarrow> chan c (set_chan c f s) = f (chan c s)"
  "length (channels (set_chan c f s)) = length (channels s)"
  "media (set_chan c f s) = media s" "io (set_chan c f s) = io s" "ata_of (set_chan c f s) = ata_of s"
  "seek_time (set_chan c f s) = seek_time s" "gap_time (set_chan c f s) = gap_time s"
  "events (set_chan c f s) = events s"
  by (simp_all add: chan_def set_chan_def)

lemma ata_set [simp]:
  "chan c (set_ata b a s) = chan c s" "channels (set_ata b a s) = channels s"
  "media (set_ata b a s) = media s" "io (set_ata b a s) = io s" "ata_of (set_ata c a s) c = a"
  "seek_time (set_ata b a s) = seek_time s" "gap_time (set_ata b a s) = gap_time s"
  "events (set_ata b a s) = events s"
  "set_ata c (ata_of s c) s = s" "set_ata c a' (set_ata c a s) = set_ata c a' s"
  by (simp_all add: chan_def set_ata_def)

lemma set_ata_idle: "busy (ata_of s c) = 0 \<Longrightarrow> set_ata c ((ata_of s c)\<lparr>busy := 0\<rparr>) s = s"
proof -
  assume "busy (ata_of s c) = 0"
  then have e: "(ata_of s c)\<lparr>busy := 0\<rparr> = ata_of s c" by (cases "ata_of s c") simp
  show ?thesis by (simp only: e ata_set(9))
qed

lemma inb_status_eq:
  "inb_status c s = (if busy (ata_of s c) > 0 then 0x80 else if drq (xfer (ata_of s c)) then 0x58 else 0x50,
     set_ata c ((ata_of s c)\<lparr>busy := busy (ata_of s c) - 1\<rparr>) s)"
  by (simp add: inb_status_def status_of_def Let_def)

lemma inb_status_idle:
  "busy (ata_of s c) = 0 \<Longrightarrow> inb_status c s = (if drq (xfer (ata_of s c)) then 0x58 else 0x50, s)"
  by (simp add: inb_status_eq set_ata_idle)

text \<open>\<^verbatim>\<open>busy_wait\<close> outlasts a drive that is busy for less than its limit, and then reports whether the drive requests data.\<close>

lemma busy_loop_step:
  assumes "unat t > 1" "busy (ata_of s c) > 0"
  shows "busy_loop c t s = busy_loop c (t - 1) (mtime_sleep 10 (set_ata c ((ata_of s c)\<lparr>busy := busy (ata_of s c) - 1\<rparr>) s))"
proof -
  have "t - 1 \<noteq> 0" using assms(1) by auto
  then show ?thesis using assms(2) by (subst busy_loop.simps) (simp add: inb_status_eq)
qed

lemma busy_loop_ok:
  assumes "busy (ata_of s c) + 1 < unat t"
  shows "busy_loop c t s = (drq (xfer (ata_of s c)),
    (set_ata c ((ata_of s c)\<lparr>busy := 0\<rparr>) s)\<lparr>slept := slept s + 10 * busy (ata_of s c)\<rparr>)"
  using assms
proof (induction "busy (ata_of s c)" arbitrary: t s)
  case 0
  then have t: "t - 1 \<noteq> 0" by auto
  show ?case using t 0(1) inb_status_idle [of s c] set_ata_idle [of s c] by (subst busy_loop.simps) simp
next
  case (Suc b)
  let ?s = "mtime_sleep 10 (set_ata c ((ata_of s c)\<lparr>busy := b\<rparr>) s)"
  have a: "ata_of ?s c = (ata_of s c)\<lparr>busy := b\<rparr>" by (simp add: mtime_sleep_def)
  have u: "unat (t - 1) = unat t - 1" using Suc.prems by (simp add: unat_minus_one unat_gt_0 [symmetric])
  have "busy_loop c t s = busy_loop c (t - 1) ?s"
    using busy_loop_step [of t s c] Suc.prems Suc.hyps(2) [symmetric] by simp
  also have "\<dots> = (drq (xfer (ata_of ?s c)),
      (set_ata c ((ata_of ?s c)\<lparr>busy := 0\<rparr>) ?s)\<lparr>slept := slept ?s + 10 * busy (ata_of ?s c)\<rparr>)"
    by (rule Suc.hyps(1)) (use a u Suc.prems Suc.hyps(2) [symmetric] in simp_all)
  finally show ?case using Suc.hyps(2) [symmetric] by (simp add: a) (simp add: mtime_sleep_def set_ata_def)
qed

lemma busy_wait_ok:
  assumes "busy (ata_of s (my_channel dk)) < 29999"
  shows "busy_wait dk s = (drq (xfer (ata_of s (my_channel dk))),
    (set_ata (my_channel dk) ((ata_of s (my_channel dk))\<lparr>busy := 0\<rparr>) s)
      \<lparr>slept := slept s + 10 * busy (ata_of s (my_channel dk))\<rparr>)"
  using busy_loop_ok [of s "my_channel dk" 30000] assms by (simp add: busy_wait_def)

lemma irq_chan: "c < 2 \<Longrightarrow> irq = (0x2e :: u8) + of_nat c \<Longrightarrow> (irq = 0x2e \<or> irq = 0x2f) \<and> unat (irq - 0x2e) = c"
  by (auto simp: less_2_cases_iff)

text \<open>\<open>kept\<close> is what stays of a channel through a command: its configuration, its lock and the speed of its drives.\<close>

definition kept :: "nat \<Rightarrow> ide \<Rightarrow> ide \<Rightarrow> bool" where
  "kept c s t \<longleftrightarrow> configured c t \<and> chan_lock (chan c t) = chan_lock (chan c s) \<and> gap_time t = gap_time s"

lemma kept_trans: "kept c s t \<Longrightarrow> kept c t u \<Longrightarrow> kept c s u"
  by (simp add: kept_def)

lemma kept_prompt: "kept c s t \<Longrightarrow> prompt_drive t = prompt_drive s"
  by (simp add: kept_def prompt_drive_def)

lemma configured_upd [simp]:
  "configured c (set_ata b a s) = configured c s" "configured c (s\<lparr>slept := k\<rparr>) = configured c s"
  "configured c (s\<lparr>events := k\<rparr>) = configured c s" "configured c (s\<lparr>media := m\<rparr>) = configured c s"
  "configured c (s\<lparr>io := i\<rparr>) = configured c s"
  by (simp_all add: configured_def chan_def)

lemma chan_upd [simp]:
  "chan c (s\<lparr>slept := k\<rparr>) = chan c s" "chan c (s\<lparr>events := k\<rparr>) = chan c s"
  "chan c (s\<lparr>media := m\<rparr>) = chan c s" "chan c (s\<lparr>io := i\<rparr>) = chan c s"
  by (simp_all add: chan_def)

text \<open>Writing the command register starts the drive on the sectors that the other registers name.\<close>

lemma cmd_out_ok:
  assumes "chan_ready c s"
  shows "ata_of (cmd_out c v s) c =
      \<lparr>xfer = (if v = 0x20 then Reading (drive_dev c s) (drive_lba c s) (drive_cnt c s)
               else if v = 0x30 then Writing (drive_dev c s) (drive_lba c s) (drive_cnt c s)
               else if v = 0xec then Identifying (drive_dev c s) else Idle),
       busy = seek_time s (events s), intrq = (v \<noteq> 0x30)\<rparr>"
    "kept c s (cmd_out c v s)" "media (cmd_out c v s) = media s" "expecting_intr (chan c (cmd_out c v s))"
proof -
  have c: "c < length (channels s)" using assms by (simp add: chan_ready_def configured_def)
  let ?s = "ide_outb (port c 7 s) v (set_chan c (\<lambda>ch. ch\<lparr>expecting_intr := True\<rparr>) s)"
  have p: "port c k (set_chan c (\<lambda>ch. ch\<lparr>expecting_intr := True\<rparr>) s) = port c k s" for k using c by (simp add: port_def)
  have "port c k s \<noteq> port c 7 s" if "k \<in> {2, 3, 4, 5, 6}" for k using that by (auto simp: port_def)
  then have r: "io ?s (port c k s) = io s (port c k s)" if "k \<in> {2, 3, 4, 5, 6}" for k
    using that by (auto simp: ide_outb_def)
  have d: "drive_dev c ?s = drive_dev c s" "drive_lba c ?s = drive_lba c s" "drive_cnt c ?s = drive_cnt c s"
    by (simp_all add: drive_dev_def drive_lba_def drive_cnt_def p r)
  have e: "events ?s = events s" "seek_time ?s = seek_time s" "media ?s = media s" "busy (ata_of ?s c) = 0" "gap_time ?s = gap_time s"
    using assms by (simp_all add: ide_outb_def chan_ready_def)
  have k: "configured c ?s" "chan c ?s = (chan c s)\<lparr>expecting_intr := True\<rparr>"
    using assms c by (simp_all add: chan_ready_def configured_def ide_outb_def)
  note u = cmd_out_def drive_command_def Let_def
  show "ata_of (cmd_out c v s) c = \<lparr>xfer = (if v = 0x20 then Reading (drive_dev c s) (drive_lba c s) (drive_cnt c s)
               else if v = 0x30 then Writing (drive_dev c s) (drive_lba c s) (drive_cnt c s)
               else if v = 0xec then Identifying (drive_dev c s) else Idle),
       busy = seek_time s (events s), intrq = (v \<noteq> 0x30)\<rparr>"
    "kept c s (cmd_out c v s)" "media (cmd_out c v s) = media s" "expecting_intr (chan c (cmd_out c v s))"
    using k e d by (simp_all add: u kept_def)
qed

text \<open>After a command has been given, waiting for the interrupt consumes it.\<close>

lemma wait_done_ok:
  assumes "configured c s" "expecting_intr (chan c s)" "intrq (ata_of s c)"
  shows "\<exists>t. wait_done c s = Inr t \<and> kept c s t \<and> media t = media s \<and>
    ata_of t = (ata_of s)(c := (ata_of s c)\<lparr>busy := 0, intrq := False\<rparr>)"
proof -
  let ?s = "set_ata c ((ata_of s c)\<lparr>busy := 0, intrq := False\<rparr>) s"
  have c: "c < 2" "length (channels s) = 2" "irq_no (chan c s) = 0x2e + of_nat c" "disk_done (chan c s) = 0"
    using assms(1) by (simp_all add: configured_def)
  let ?t = "set_chan c (\<lambda>ch. ch\<lparr>disk_done := disk_done ch + 1\<rparr>)
      (set_chan c (\<lambda>ch. ch\<lparr>expecting_intr := False\<rparr>) ?s)"
  note irq = irq_chan [OF c(1,3)]
  have i: "inb_status c ?t = (if drq (xfer (ata_of ?t c)) then 0x58 else 0x50, ?t)" by (rule inb_status_idle) simp
  have h: "intr_hd_handler (irq_no (chan c s)) ?s = Inr ?t"
    using irq assms(2) c i by (simp add: intr_hd_handler_def Let_def)
  let ?v = "set_chan c (\<lambda>ch. ch\<lparr>disk_done := disk_done ch - 1\<rparr>) ?t"
  have "wait_done c s = Inr ?v"
    using h assms(3) c by (simp add: wait_done_def Let_def)
  moreover have "chan c ?v = (chan c s)\<lparr>expecting_intr := False\<rparr>" using c by simp
  moreover have "ata_of ?v = (ata_of s)(c := (ata_of s c)\<lparr>busy := 0, intrq := False\<rparr>)" by (simp add: set_ata_def)
  ultimately show ?thesis using assms(1) c by (simp add: kept_def configured_def)
qed

section \<open>Transfers of many sectors\<close>

definition sectors :: "(nat \<Rightarrow> u8 list) \<Rightarrow> nat \<Rightarrow> nat \<Rightarrow> u8 list" where
  "sectors f a n = concat (map f [a..<a + n])"

definition store :: "nat \<Rightarrow> u8 list \<Rightarrow> (nat \<Rightarrow> u8 list) \<Rightarrow> nat \<Rightarrow> u8 list" where
  "store a bs f = (\<lambda>n. if a \<le> n \<and> n < a + length bs div 512 then take 512 (drop (512 * (n - a)) bs) else f n)"

definition full :: "(nat \<Rightarrow> u8 list) \<Rightarrow> bool" where
  "full f \<longleftrightarrow> (\<forall>n. length (f n) = 512)"

lemma length_sectors: "full f \<Longrightarrow> length (sectors f a n) = 512 * n"
  by (induction n) (simp_all add: sectors_def full_def)

lemma sectors_add: "sectors f a (m + n) = sectors f a m @ sectors f (a + m) n"
  by (simp only: sectors_def add.assoc [symmetric] upt_add_eq_append [OF le_add1] map_append concat_append)

lemma full_store: "full f \<Longrightarrow> full (store a bs f)"
proof -
  assume "full f"
  moreover have "length (take 512 (drop (512 * (n - a)) bs)) = 512"
    if "a \<le> n" "n < a + length bs div 512" for n
  proof -
    have "Suc (n - a) \<le> length bs div 512" using that by simp
    then have "512 * Suc (n - a) \<le> 512 * (length bs div 512)" by (rule mult_le_mono2)
    also have "\<dots> \<le> length bs" by simp
    finally show ?thesis by simp
  qed
  ultimately have "length (store a bs f n) = 512" for n
    by (cases "a \<le> n \<and> n < a + length bs div 512") (simp_all add: store_def full_def del: length_take length_drop)
  then show ?thesis by (simp add: full_def)
qed

lemma op_size: "sd < cnt \<Longrightarrow> size_in_byte (ucast (secs_op sd cnt)) = 512 * unat (secs_op sd cnt) \<and>
    (if (ucast (secs_op sd cnt) :: u8) = 0 then 256 else unat (ucast (secs_op sd cnt) :: u8)) = unat (secs_op sd cnt)"
proof -
  assume "sd < cnt"
  then have b: "0 < unat (secs_op sd cnt)" "unat (secs_op sd cnt) \<le> 256" using secs_op_bound by auto
  have u: "unat (ucast (secs_op sd cnt) :: u8) = unat (secs_op sd cnt) mod 256" by (rule u8_of_u32)
  show ?thesis
  proof (cases "unat (secs_op sd cnt) = 256")
    case True
    then have "unat (ucast (secs_op sd cnt) :: u8) = 0" using u by simp
    then show ?thesis using True by (simp add: size_in_byte_def unat_eq_0)
  next
    case False
    then have "unat (ucast (secs_op sd cnt) :: u8) = unat (secs_op sd cnt)" using u b by simp
    then show ?thesis using b by (auto simp: size_in_byte_def)
  qed
qed

text \<open>The command of one round: the drive gets the sector number and the count of the round.\<close>

lemma round_setup:
  assumes "chan_ready (my_channel dk) s" "lba \<le> max_lba"
  shows "\<exists>i. select_sector dk lba cnt s = Inr (s\<lparr>io := i\<rparr>) \<and> chan_ready (my_channel dk) (s\<lparr>io := i\<rparr>) \<and>
    drive_lba (my_channel dk) (s\<lparr>io := i\<rparr>) = unat lba \<and>
    drive_cnt (my_channel dk) (s\<lparr>io := i\<rparr>) = (if cnt = 0 then 256 else unat cnt) \<and>
    drive_dev (my_channel dk) (s\<lparr>io := i\<rparr>) = dev_of dk"
  using select_sector_ok [OF assms(2), of dk cnt s] assms(1) by (auto simp: chan_ready_def)

definition last_start :: "nat \<Rightarrow> nat \<Rightarrow> nat" where
  "last_start lba cnt = lba + 256 * ((cnt - 1) div 256)"

lemma unat_secs_op:
  assumes "sd < cnt" "unat cnt + 256 < 2 ^ 32"
  shows "unat (secs_op sd cnt) = min 256 (unat cnt - unat sd)"
proof -
  have lt: "unat sd < unat cnt" using assms(1) by (simp add: word_less_nat_alt)
  have "unat (sd + 256) = unat sd + 256" using lt assms(2) by (intro unat_add_u32 [of sd 256, simplified]) simp
  then show ?thesis using lt by (auto simp: secs_op_def word_le_nat_alt unat_sub)
qed

lemma round_arith:
  assumes "sd < cnt" "unat cnt + 256 < 2 ^ 32" "last_start (unat lba + unat sd) (unat cnt - unat sd) \<le> 163839"
  shows "unat (lba + sd) = unat lba + unat sd" "lba + sd \<le> max_lba"
    "unat (sd + secs_op sd cnt) = unat sd + unat (secs_op sd cnt)"
    "unat (sd + secs_op sd cnt) \<le> unat cnt" "unat cnt - unat (sd + secs_op sd cnt) < unat cnt - unat sd"
    "unat cnt - unat sd = unat (secs_op sd cnt) + (unat cnt - unat (sd + secs_op sd cnt))"
    "unat (sd + secs_op sd cnt) < unat cnt \<Longrightarrow>
       last_start (unat lba + unat (sd + secs_op sd cnt)) (unat cnt - unat (sd + secs_op sd cnt)) \<le> 163839"
proof -
  let ?op = "secs_op sd cnt"
  have lt: "unat sd < unat cnt" using assms(1) by (simp add: word_less_nat_alt)
  have op: "unat ?op = min 256 (unat cnt - unat sd)" by (rule unat_secs_op [OF assms(1,2)])
  have start: "unat lba + unat sd \<le> 163839" using assms(3) by (simp add: last_start_def)
  then show ul: "unat (lba + sd) = unat lba + unat sd" by (intro unat_add_u32) simp
  show "lba + sd \<le> max_lba" using start ul by (simp add: max_lba_nat)
  show us: "unat (sd + ?op) = unat sd + unat ?op" by (rule unat_add_u32) (use op lt assms(2) in simp)
  show "unat (sd + ?op) \<le> unat cnt" "unat cnt - unat (sd + ?op) < unat cnt - unat sd"
    "unat cnt - unat sd = unat ?op + (unat cnt - unat (sd + ?op))"
    using us op lt by (auto simp: min_def)
  show "last_start (unat lba + unat (sd + ?op)) (unat cnt - unat (sd + ?op)) \<le> 163839"
    if "unat (sd + ?op) < unat cnt"
  proof -
    have o: "unat ?op = 256" "256 < unat cnt - unat sd" using that op us by (auto simp: min_def split: if_splits)
    have "(unat cnt - unat sd - 1) div 256 = Suc ((unat cnt - unat sd - 256 - 1) div 256)"
      using o(2) by (simp add: div_if [of "unat cnt - unat sd - 1"])
    then show ?thesis using assms(3) o us by (simp add: last_start_def)
  qed
qed

text \<open>The state in which the data of a round is transferred.\<close>

lemma round_drive:
  assumes "chan_ready c s" "c = my_channel dk" "sd < cnt" "lba \<le> max_lba"
  shows "\<exists>i. select_sector dk lba (ucast (secs_op sd cnt)) s = Inr (s\<lparr>io := i\<rparr>) \<and> chan_ready c (s\<lparr>io := i\<rparr>) \<and>
    drive_lba c (s\<lparr>io := i\<rparr>) = unat lba \<and> drive_cnt c (s\<lparr>io := i\<rparr>) = unat (secs_op sd cnt) \<and>
    drive_dev c (s\<lparr>io := i\<rparr>) = dev_of dk"
  using round_setup [of dk s lba "ucast (secs_op sd cnt)"] assms op_size [OF assms(3)] by auto

lemma in_blocks_reading:
  assumes "xfer (ata_of s c) = Reading d n (Suc k)" "busy (ata_of s c) = 0" "k = 0 \<or> prompt_drive s"
  shows "in_blocks c (Suc k) s = (sectors (media s c d) n (Suc k),
    (set_ata c \<lparr>xfer = Idle, busy = 0, intrq = False\<rparr> s)\<lparr>events := events s + Suc k\<rparr>)"
  using assms
proof (induction k arbitrary: s n)
  case 0
  then show ?case by (simp add: read_block_def sectors_def)
next
  case (Suc k)
  let ?s = "(set_ata c \<lparr>xfer = Reading d (n + 1) (Suc k), busy = 0, intrq = True\<rparr> s)\<lparr>events := events s + 1\<rparr>"
  have "read_block c s = (media s c d n, ?s)"
    using Suc.prems by (simp add: read_block_def prompt_drive_def)
  moreover have "in_blocks c (Suc k) ?s = (sectors (media s c d) (n + 1) (Suc k),
      (set_ata c \<lparr>xfer = Idle, busy = 0, intrq = False\<rparr> ?s)\<lparr>events := events ?s + Suc k\<rparr>)"
    using Suc.IH [of ?s "n + 1"] Suc.prems by (simp add: prompt_drive_def del: in_blocks.simps)
  moreover have "sectors (media s c d) n (1 + Suc k) = media s c d n @ sectors (media s c d) (n + 1) (Suc k)"
    unfolding sectors_add by (simp add: sectors_def)
  ultimately show ?case by (simp del: in_blocks.simps(2) add: in_blocks.simps(2) [of c "Suc k"]) (simp add: set_ata_def)
qed

text \<open>One round of a read: the command, its interrupt and the transfer.\<close>

lemma read_round:
  assumes "chan_ready c s" "c = my_channel dk" "drive_cnt c s = k" "size_in_byte cnt = 512 * k" "k > 0"
    "k = 1 \<or> prompt_drive s" "at + 512 * k \<le> length buf"
  shows "\<exists>t u b. wait_done c (cmd_out c 0x20 s) = Inr t \<and> busy_wait dk t = (True, u) \<and>
    read_from_sector dk buf at cnt u = Inr (splice at (sectors (media s c (drive_dev c s)) (drive_lba c s) k) buf, b) \<and>
    kept c s b \<and> chan_ready c b \<and> media b = media s"
proof -
  let ?s = "cmd_out c 0x20 s"
  obtain j where j: "k = Suc j" using assms(5) by (cases k) simp_all
  note co = cmd_out_ok [OF assms(1), of "0x20"]
  have "configured c ?s" "intrq (ata_of ?s c)" using co(1,2) by (simp_all add: kept_def)
  then obtain t where t: "wait_done c ?s = Inr t" "kept c ?s t" "media t = media s"
      "ata_of t c = \<lparr>xfer = Reading (drive_dev c s) (drive_lba c s) k, busy = 0, intrq = False\<rparr>"
    using wait_done_ok [of c ?s] co assms(3) by auto
  have same: "set_ata c ((ata_of t c)\<lparr>busy := 0\<rparr>) t = t" by (rule set_ata_idle) (simp add: t(4))
  have w: "busy_wait dk t = (True, t)"
    using busy_wait_ok [of t dk] same t(4) assms(2) j by simp
  have kst: "kept c s t" using co(2) t(2) by (rule kept_trans)
  then have pr: "j = 0 \<or> prompt_drive t" using assms(6) j kept_prompt by auto
  let ?b = "(set_ata c \<lparr>xfer = Idle, busy = 0, intrq = False\<rparr> t)\<lparr>events := events t + k\<rparr>"
  have "in_blocks c k t = (sectors (media s c (drive_dev c s)) (drive_lba c s) k, ?b)"
    using in_blocks_reading [of t c _ _ j, OF _ _ pr] t(3,4) j by simp
  then have r: "read_from_sector dk buf at cnt t =
      Inr (splice at (sectors (media s c (drive_dev c s)) (drive_lba c s) k) buf, ?b)"
    using assms(2,4,7) by (simp add: read_from_sector_def insw_def)
  have "kept c s ?b" "chan_ready c ?b" "media ?b = media s"
    using kst t(3) by (simp_all add: kept_def chan_ready_def)
  then show ?thesis using t(1) w r by blast
qed

lemma read_loop_ok:
  assumes "chan_ready c s" "c = my_channel dk" "full (media s c (dev_of dk))"
    "unat sd \<le> unat cnt" "512 * unat cnt \<le> length buf" "length buf < 2 ^ 32"
    "unat sd < unat cnt \<Longrightarrow> last_start (unat lba + unat sd) (unat cnt - unat sd) \<le> 163839"
    "unat cnt = 1 \<or> prompt_drive s"
  shows "\<exists>t. read_loop dk lba buf cnt sd s =
      Inr (splice (512 * unat sd) (sectors (media s c (dev_of dk)) (unat lba + unat sd) (unat cnt - unat sd)) buf, t) \<and>
    chan_ready c t \<and> kept c s t \<and> media t = media s"
  using assms
proof (induction "unat cnt - unat sd" arbitrary: sd s buf rule: less_induct)
  case less
  show ?case
  proof (cases "sd < cnt")
    case False
    then have "unat cnt - unat sd = 0" by (simp add: word_less_nat_alt)
    then show ?thesis using False less.prems(1) by (simp add: read_loop.simps sectors_def kept_def chan_ready_def)
  next
    case True
    then have lt: "unat sd < unat cnt" by (simp add: word_less_nat_alt)
    have small: "unat cnt + 256 < 2 ^ 32" using less.prems(5,6) by simp
    let ?op = "secs_op sd cnt" and ?img = "media s c (dev_of dk)"
    note ar = round_arith [OF True small less.prems(7) [OF lt]]
    note us = ar(3) and cut = ar(6)
    have ub: "unat (sd * 512) = 512 * unat sd"
      using unat_mult_u32 [of sd 512] lt less.prems(5,6) by (simp add: mult.commute)
    obtain i where i: "select_sector dk (lba + sd) (ucast ?op) s = Inr (s\<lparr>io := i\<rparr>)" "chan_ready c (s\<lparr>io := i\<rparr>)"
        "drive_lba c (s\<lparr>io := i\<rparr>) = unat lba + unat sd" "drive_cnt c (s\<lparr>io := i\<rparr>) = unat ?op"
        "drive_dev c (s\<lparr>io := i\<rparr>) = dev_of dk"
      using round_drive [OF less.prems(1,2) True ar(2)] ar(1) by auto
    let ?bs = "sectors ?img (unat lba + unat sd) (unat ?op)"
    let ?buf = "splice (512 * unat sd) ?bs buf"
    have fit: "512 * unat sd + 512 * unat ?op \<le> length buf" using cut lt less.prems(5) by simp
    have pr: "unat ?op = 1 \<or> prompt_drive (s\<lparr>io := i\<rparr>)"
      using less.prems(8) lt cut secs_op_bound [OF True] by (auto simp: prompt_drive_def)
    obtain t u b where tub: "wait_done c (cmd_out c 0x20 (s\<lparr>io := i\<rparr>)) = Inr t" "busy_wait dk t = (True, u)"
        "read_from_sector dk buf (512 * unat sd) (ucast ?op) u = Inr (?buf, b)"
        "kept c s b" "chan_ready c b" "media b = media s"
      using read_round [OF i(2) less.prems(2) i(4) conjunct1 [OF op_size [OF True]] conjunct1 [OF secs_op_bound [OF True]] pr fit]
        i(3,5) by (auto simp: kept_def)
    have lb: "length ?bs = 512 * unat ?op" using length_sectors [OF less.prems(3)] .
    have lbuf: "length ?buf = length buf" using fit lb by simp
    have step: "read_loop dk lba buf cnt sd s = read_loop dk lba ?buf cnt (sd + ?op) b"
      using True i(1) tub(1-3) less.prems(2) ub by (subst read_loop.simps) simp
    have "\<exists>u. read_loop dk lba ?buf cnt (sd + ?op) b =
        Inr (splice (512 * unat (sd + ?op)) (sectors (media b c (dev_of dk)) (unat lba + unat (sd + ?op)) (unat cnt - unat (sd + ?op))) ?buf, u) \<and>
      chan_ready c u \<and> kept c b u \<and> media u = media b"
      by (rule less.hyps [OF ar(5) tub(5) less.prems(2)])
        (use less.prems(3,5,6,8) ar(4,7) lbuf tub(6) kept_prompt [OF tub(4)] in \<open>simp_all del: One_nat_def\<close>)
    then obtain u where u: "read_loop dk lba ?buf cnt (sd + ?op) b =
        Inr (splice (512 * unat (sd + ?op)) (sectors ?img (unat lba + unat (sd + ?op)) (unat cnt - unat (sd + ?op))) ?buf, u)"
      "chan_ready c u" "media u = media s" "kept c s u"
      using tub(6) kept_trans [OF tub(4)] by auto
    have "splice (512 * unat (sd + ?op)) (sectors ?img (unat lba + unat (sd + ?op)) (unat cnt - unat (sd + ?op))) ?buf =
        splice (512 * unat sd) (sectors ?img (unat lba + unat sd) (unat cnt - unat sd)) buf"
      unfolding cut sectors_add us
      using splice_splice [of "512 * unat sd" ?bs "sectors ?img (unat lba + unat sd + unat ?op) (unat cnt - (unat sd + unat ?op))" buf]
        lb length_sectors [OF less.prems(3)] less.prems(5) us cut lt
      by (simp add: distrib_left add.assoc)
    then show ?thesis using step u by auto
  qed
qed

lemma store_store:
  assumes "length xs = 512 * m"
  shows "store (a + m) ys (store a xs f) = store a (xs @ ys) f"
proof
  fix n
  have len: "length (xs @ ys) div 512 = m + length ys div 512" using assms by simp
  consider "n < a" | "a \<le> n" "n < a + m" | "a + m \<le> n" by linarith
  then show "store (a + m) ys (store a xs f) n = store a (xs @ ys) f n"
  proof cases
    case 2
    then have "512 * (n - a) + 512 \<le> length xs" using assms by simp
    then show ?thesis using 2 assms by (simp add: store_def len)
  next
    case 3
    then have d: "512 * (n - a) = length xs + 512 * (n - (a + m))" using assms by (simp add: diff_mult_distrib2)
    show ?thesis using 3 assms unfolding store_def len by (simp add: d)
  qed (simp add: store_def)
qed

lemma store_Nil [simp]: "store a [] f = f"
  by (auto simp: store_def fun_eq_iff)

lemma sectors_store: "length bs = 512 * n \<Longrightarrow> sectors (store a bs f) a n = bs"
proof (induction n arbitrary: bs a f)
  case 0
  then show ?case by (simp add: sectors_def)
next
  case (Suc n)
  let ?x = "take 512 bs" and ?y = "drop 512 bs"
  have l: "length ?x = 512 * 1" "length ?y = 512 * n" using Suc.prems by simp_all
  have "store a bs f = store (a + 1) ?y (store a ?x f)" using store_store [OF l(1), of a ?y f] by simp
  moreover have "sectors (store (a + 1) ?y (store a ?x f)) (a + 1) n = ?y" using Suc.IH [OF l(2)] .
  moreover have "store (a + 1) ?y (store a ?x f) a = ?x" using l(1) by (simp add: store_def)
  ultimately have "sectors (store a bs f) a (1 + n) = ?x @ ?y"
    unfolding sectors_add by (simp add: sectors_def)
  then show ?case by simp
qed

abbreviation put_media :: "nat \<Rightarrow> nat \<Rightarrow> (nat \<Rightarrow> u8 list) \<Rightarrow> ide \<Rightarrow> nat \<Rightarrow> nat \<Rightarrow> nat \<Rightarrow> u8 list" where
  "put_media c d f s \<equiv> (media s)(c := (media s c)(d := f))"

lemma out_blocks_writing:
  assumes "xfer (ata_of s c) = Writing d n (Suc k)" "busy (ata_of s c) = 0" "k = 0 \<or> prompt_drive s" "length bs = 512 * Suc k"
  shows "\<exists>b. out_blocks c (Suc k) bs s =
    (set_ata c \<lparr>xfer = Writing d (n + Suc k) 0, busy = b, intrq = True\<rparr> s)
      \<lparr>media := put_media c d (store n bs (media s c d)) s, events := events s + Suc k\<rparr>"
  using assms
proof (induction k arbitrary: s n bs)
  case 0
  then have "store n bs (media s c d) = (media s c d)(n := bs)" by (auto simp: store_def fun_eq_iff)
  then have "out_blocks c (Suc 0) bs s = (set_ata c \<lparr>xfer = Writing d (n + Suc 0) 0, busy = gap_time s (events s), intrq = True\<rparr> s)
      \<lparr>media := put_media c d (store n bs (media s c d)) s, events := events s + Suc 0\<rparr>"
    using 0 by (simp add: write_block_def del: fun_upd_apply)
  then show ?case by (rule exI)
next
  case (Suc k)
  let ?x = "take 512 bs" and ?y = "drop 512 bs"
  let ?f = "store n ?x (media s c d)"
  let ?s = "(set_ata c \<lparr>xfer = Writing d (n + 1) (Suc k), busy = 0, intrq = True\<rparr> s)
      \<lparr>media := put_media c d ?f s, events := events s + 1\<rparr>"
  have l: "length ?x = 512 * 1" "length ?y = 512 * Suc k" using Suc.prems(4) by simp_all
  have "?f = (media s c d)(n := ?x)" using l(1) by (auto simp: store_def fun_eq_iff)
  then have w: "write_block c ?x s = ?s" using Suc.prems by (simp add: write_block_def prompt_drive_def)
  have a: "xfer (ata_of ?s c) = Writing d (n + 1) (Suc k)" "busy (ata_of ?s c) = 0" "k = 0 \<or> prompt_drive ?s"
    using Suc.prems(3) by (simp_all add: prompt_drive_def)
  obtain b where b: "out_blocks c (Suc k) ?y ?s =
      (set_ata c \<lparr>xfer = Writing d (n + 1 + Suc k) 0, busy = b, intrq = True\<rparr> ?s)
        \<lparr>media := put_media c d (store (n + 1) ?y (media ?s c d)) ?s, events := events ?s + Suc k\<rparr>"
    using Suc.IH [OF a l(2)] by blast
  have "store (n + 1) ?y (media ?s c d) = store n bs (media s c d)"
    using store_store [OF l(1), of n ?y "media s c d"] by simp
  then have "out_blocks c (Suc (Suc k)) bs s =
    (set_ata c \<lparr>xfer = Writing d (n + Suc (Suc k)) 0, busy = b, intrq = True\<rparr> s)
      \<lparr>media := put_media c d (store n bs (media s c d)) s, events := events s + Suc (Suc k)\<rparr>"
    using b w by (simp only: out_blocks.simps(2) [of c "Suc k"]) (simp add: set_ata_def)
  then show ?case by blast
qed

text \<open>One round of a write: the command, the transfer and the interrupt.\<close>

lemma write_round:
  assumes "chan_ready c s" "c = my_channel dk" "drive_cnt c s = k" "size_in_byte cnt = 512 * k" "k > 0"
    "k = 1 \<or> prompt_drive s" "at + 512 * k \<le> length buf"
  shows "\<exists>t u b. busy_wait dk (cmd_out c 0x30 s) = (True, t) \<and> write_to_sector dk buf at cnt t = Inr u \<and>
    wait_done c u = Inr b \<and> kept c s b \<and> chan_ready c b \<and>
    media b = put_media c (drive_dev c s) (store (drive_lba c s) (take (512 * k) (drop at buf)) (media s c (drive_dev c s))) s"
proof -
  let ?s = "cmd_out c 0x30 s" and ?d = "drive_dev c s" and ?n = "drive_lba c s" and ?bs = "take (512 * k) (drop at buf)"
  obtain j where j: "k = Suc j" using assms(5) by (cases k) simp_all
  note co = cmd_out_ok [OF assms(1), of "0x30"]
  have "seek_time s (events s) < 29999" using assms(1) by (simp add: chan_ready_def configured_def)
  then obtain t where t: "busy_wait dk ?s = (True, t)" "kept c ?s t" "media t = media s" "expecting_intr (chan c t)"
      "xfer (ata_of t c) = Writing ?d ?n k" "busy (ata_of t c) = 0"
    using busy_wait_ok [of ?s dk] co assms(2,3) j by (simp add: kept_def)
  have kst: "kept c s t" using co(2) t(2) by (rule kept_trans)
  then have pr: "j = 0 \<or> prompt_drive t" using assms(6) j kept_prompt by auto
  obtain b where b: "out_blocks c k ?bs t =
      (set_ata c \<lparr>xfer = Writing ?d (?n + k) 0, busy = b, intrq = True\<rparr> t)
        \<lparr>media := put_media c ?d (store ?n ?bs (media s c ?d)) s, events := events t + k\<rparr>"
    using out_blocks_writing [of t c ?d ?n j ?bs, OF _ t(6) pr] t(3,5) assms(7) j by auto
  let ?u = "(set_ata c \<lparr>xfer = Writing ?d (?n + k) 0, busy = b, intrq = True\<rparr> t)
        \<lparr>media := put_media c ?d (store ?n ?bs (media s c ?d)) s, events := events t + k\<rparr>"
  have w: "write_to_sector dk buf at cnt t = Inr ?u"
    using b assms(2,4,7) by (simp add: write_to_sector_def outsw_def)
  have "configured c ?u" "expecting_intr (chan c ?u)" "intrq (ata_of ?u c)"
    using kst t(4) by (simp_all add: kept_def)
  then obtain v where v: "wait_done c ?u = Inr v" "kept c ?u v" "media v = media ?u" "busy (ata_of v c) = 0"
    using wait_done_ok [of c ?u] by auto
  have "kept c s ?u" using kst by (simp add: kept_def)
  then have "kept c s v" using v(2) by (rule kept_trans)
  then have "kept c s v" "chan_ready c v" using v(4) by (simp_all add: kept_def chan_ready_def)
  then show ?thesis using t(1) w v(1,3) by auto
qed

lemma write_loop_ok:
  assumes "chan_ready c s" "c = my_channel dk"
    "unat sd \<le> unat cnt" "512 * unat cnt \<le> length buf" "length buf < 2 ^ 32"
    "unat sd < unat cnt \<Longrightarrow> last_start (unat lba + unat sd) (unat cnt - unat sd) \<le> 163839"
    "unat cnt = 1 \<or> prompt_drive s"
  shows "\<exists>t. write_loop dk lba buf cnt sd s = Inr t \<and> chan_ready c t \<and> kept c s t \<and>
    media t = put_media c (dev_of dk) (store (unat lba + unat sd)
      (take (512 * (unat cnt - unat sd)) (drop (512 * unat sd) buf)) (media s c (dev_of dk))) s"
  using assms
proof (induction "unat cnt - unat sd" arbitrary: sd s rule: less_induct)
  case less
  show ?case
  proof (cases "sd < cnt")
    case False
    then have "unat cnt - unat sd = 0" by (simp add: word_less_nat_alt)
    then show ?thesis using False less.prems(1) by (simp add: write_loop.simps kept_def chan_ready_def)
  next
    case True
    then have lt: "unat sd < unat cnt" by (simp add: word_less_nat_alt)
    have small: "unat cnt + 256 < 2 ^ 32" using less.prems(4,5) by simp
    let ?op = "secs_op sd cnt" and ?f = "media s c (dev_of dk)"
    note ar = round_arith [OF True small less.prems(6) [OF lt]]
    note us = ar(3) and cut = ar(6)
    have ub: "unat (sd * 512) = 512 * unat sd"
      using unat_mult_u32 [of sd 512] lt less.prems(4,5) by (simp add: mult.commute)
    obtain i where i: "select_sector dk (lba + sd) (ucast ?op) s = Inr (s\<lparr>io := i\<rparr>)" "chan_ready c (s\<lparr>io := i\<rparr>)"
        "drive_lba c (s\<lparr>io := i\<rparr>) = unat lba + unat sd" "drive_cnt c (s\<lparr>io := i\<rparr>) = unat ?op"
        "drive_dev c (s\<lparr>io := i\<rparr>) = dev_of dk"
      using round_drive [OF less.prems(1,2) True ar(2)] ar(1) by auto
    let ?bs = "take (512 * unat ?op) (drop (512 * unat sd) buf)"
    have fit: "512 * unat sd + 512 * unat ?op \<le> length buf" using cut lt less.prems(4) by simp
    then have lb: "length ?bs = 512 * unat ?op" by simp
    have pr: "unat ?op = 1 \<or> prompt_drive (s\<lparr>io := i\<rparr>)"
      using less.prems(7) lt cut secs_op_bound [OF True] by (auto simp: prompt_drive_def)
    define g where "g = store (unat lba + unat sd) ?bs ?f"
    obtain t u b where tub: "busy_wait dk (cmd_out c 0x30 (s\<lparr>io := i\<rparr>)) = (True, t)"
        "write_to_sector dk buf (512 * unat sd) (ucast ?op) t = Inr u" "wait_done c u = Inr b"
        "kept c s b" "chan_ready c b" "media b = put_media c (dev_of dk) g s"
      using write_round [OF i(2) less.prems(2) i(4) conjunct1 [OF op_size [OF True]] conjunct1 [OF secs_op_bound [OF True]] pr fit]
        i(3,5) by (auto simp: kept_def g_def)
    have step: "write_loop dk lba buf cnt sd s = write_loop dk lba buf cnt (sd + ?op) b"
      using True i(1) tub(1-3) less.prems(2) ub by (subst write_loop.simps) simp
    have pb: "unat cnt = 1 \<or> prompt_drive b" using less.prems(7) kept_prompt [OF tub(4)] by simp
    obtain v where v: "write_loop dk lba buf cnt (sd + ?op) b = Inr v" "chan_ready c v" "kept c b v"
      "media v = put_media c (dev_of dk) (store (unat lba + unat (sd + ?op))
         (take (512 * (unat cnt - unat (sd + ?op))) (drop (512 * unat (sd + ?op)) buf)) (media b c (dev_of dk))) b"
      using less.hyps [OF ar(5) tub(5) less.prems(2) ar(4) less.prems(4,5) ar(7) pb] by auto
    have "take (512 * (unat cnt - unat sd)) (drop (512 * unat sd) buf) =
        ?bs @ take (512 * (unat cnt - unat (sd + ?op))) (drop (512 * unat (sd + ?op)) buf)"
      unfolding cut distrib_left take_add by (simp add: us algebra_simps)
    then have "store (unat lba + unat sd) (take (512 * (unat cnt - unat sd)) (drop (512 * unat sd) buf)) ?f =
        store (unat lba + unat (sd + ?op))
          (take (512 * (unat cnt - unat (sd + ?op))) (drop (512 * unat (sd + ?op)) buf)) g"
      using store_store [OF lb, of "unat lba + unat sd"] by (simp add: g_def us add.assoc)
    then show ?thesis using step v tub(6) kept_trans [OF tub(4) v(3)] by simp
  qed
qed

section \<open>Properties\<close>

lemma kept_upd:
  assumes "chan_ready c s"
  shows "chan_ready c (set_chan c (\<lambda>ch. ch\<lparr>chan_lock := f ch\<rparr>) s)" "chan_ready c (select_disk dk s)"
    "kept c s (select_disk dk s)" "media (select_disk dk s) = media s"
proof -
  have "c < length (channels s)" using assms by (simp add: chan_ready_def configured_def)
  then show "chan_ready c (set_chan c (\<lambda>ch. ch\<lparr>chan_lock := f ch\<rparr>) s)" using assms by (simp add: chan_ready_def configured_def)
  show "chan_ready c (select_disk dk s)" "kept c s (select_disk dk s)" "media (select_disk dk s) = media s"
    using assms by (simp_all add: select_disk_def Let_def ide_outb_def chan_ready_def kept_def)
qed

text \<open>A transfer runs between acquiring and releasing the channel, with the disk selected.\<close>

lemma lock_cycle:
  assumes "chan_ready c s" "chan_ready c t" "kept c (select_disk dk (chan_acquire c s)) t"
  shows "\<exists>u. chan_release c t = Inr u \<and> chan_ready c u \<and> kept c s u \<and> media u = media t"
proof -
  have l: "c < length (channels s)" "c < length (channels t)" using assms by (simp_all add: chan_ready_def configured_def)
  have ra: "chan_ready c (chan_acquire c s)" unfolding chan_acquire_def by (rule kept_upd(1) [OF assms(1)])
  have "kept c (chan_acquire c s) t" using kept_upd(3) [OF ra] assms(3) by (rule kept_trans)
  then have "chan_lock (chan c t) = Suc (chan_lock (chan c s))" "gap_time t = gap_time s"
    using l by (simp_all add: chan_acquire_def kept_def)
  then show ?thesis
    using l kept_upd(1) [OF assms(2), of "\<lambda>ch. chan_lock ch - 1"] by (simp add: chan_release_def kept_def chan_ready_def)
qed

lemma transfer_start:
  assumes "chan_ready c s"
  shows "chan_ready c (select_disk dk (chan_acquire c s))" "media (select_disk dk (chan_acquire c s)) = media s"
    "prompt_drive (select_disk dk (chan_acquire c s)) = prompt_drive s"
proof -
  have ra: "chan_ready c (chan_acquire c s)" unfolding chan_acquire_def by (rule kept_upd(1) [OF assms])
  show "chan_ready c (select_disk dk (chan_acquire c s))" by (rule kept_upd(2) [OF ra])
  show "media (select_disk dk (chan_acquire c s)) = media s" by (simp add: kept_upd(4) [OF ra]) (simp add: chan_acquire_def)
  show "prompt_drive (select_disk dk (chan_acquire c s)) = prompt_drive s"
    using kept_prompt [OF kept_upd(3) [OF ra]] by (simp add: prompt_drive_def chan_acquire_def)
qed

lemma ide_read_ok:
  assumes "chan_ready (my_channel dk) s" "full (media s (my_channel dk) (dev_of dk))" "cnt > 0"
    "512 * unat cnt \<le> length buf" "length buf < 2 ^ 32" "last_start (unat lba) (unat cnt) \<le> 163839"
    "unat cnt = 1 \<or> prompt_drive s"
  shows "\<exists>t. ide_read dk lba buf cnt s =
      Inr (splice 0 (sectors (media s (my_channel dk) (dev_of dk)) (unat lba) (unat cnt)) buf, t) \<and>
    chan_ready (my_channel dk) t \<and> kept (my_channel dk) s t \<and> media t = media s"
proof -
  let ?c = "my_channel dk"
  let ?s = "select_disk dk (chan_acquire ?c s)"
  note st = transfer_start [OF assms(1), of dk]
  have "lba \<le> max_lba" using assms(6) by (simp add: max_lba_nat last_start_def)
  moreover obtain t where t: "read_loop dk lba buf cnt 0 ?s =
      Inr (splice 0 (sectors (media s ?c (dev_of dk)) (unat lba) (unat cnt)) buf, t)"
      "chan_ready ?c t" "kept ?c ?s t" "media t = media s"
    using read_loop_ok [OF st(1), of dk 0 cnt buf lba] assms(2,4-7) st by auto
  ultimately show ?thesis
    using lock_cycle [OF assms(1) t(2,3)] assms(3) t(1,4) by (auto simp: ide_read_def)
qed

lemma ide_write_ok:
  assumes "chan_ready (my_channel dk) s" "cnt > 0"
    "512 * unat cnt \<le> length buf" "length buf < 2 ^ 32" "last_start (unat lba) (unat cnt) \<le> 163839"
    "unat cnt = 1 \<or> prompt_drive s"
  shows "\<exists>t. ide_write dk lba buf cnt s = Inr t \<and> chan_ready (my_channel dk) t \<and> kept (my_channel dk) s t \<and>
    media t = put_media (my_channel dk) (dev_of dk)
      (store (unat lba) (take (512 * unat cnt) buf) (media s (my_channel dk) (dev_of dk))) s"
proof -
  let ?c = "my_channel dk"
  let ?s = "select_disk dk (chan_acquire ?c s)"
  note st = transfer_start [OF assms(1), of dk]
  have "lba \<le> max_lba" using assms(5) by (simp add: max_lba_nat last_start_def)
  moreover obtain t where t: "write_loop dk lba buf cnt 0 ?s = Inr t" "chan_ready ?c t" "kept ?c ?s t"
      "media t = put_media ?c (dev_of dk) (store (unat lba) (take (512 * unat cnt) buf) (media s ?c (dev_of dk))) s"
    using write_loop_ok [OF st(1), of dk 0 cnt buf lba] assms(3-6) st by auto
  ultimately show ?thesis
    using lock_cycle [OF assms(1) t(2,3)] assms(2) t(1,4) by (auto simp: ide_write_def)
qed

text \<open>A read of \<open>cnt\<close> sectors is split into commands of at most 256 sectors and
  delivers exactly the sectors from \<open>lba\<close> on, in order, at the start of the buffer; the rest of the
  buffer, the drive and the channel's lock are as before. One sector is read from every drive, more
  than one from a drive that has the next sector ready as soon as the last one has been fetched, because the driver
  moves all sectors of a command after one interrupt.\<close>

theorem ide_read_sectors:
  assumes "chan_ready (my_channel dk) s" "full (media s (my_channel dk) (dev_of dk))" "cnt > 0"
    "512 * unat cnt \<le> length buf" "length buf < 2 ^ 32" "last_start (unat lba) (unat cnt) \<le> 163839"
    "unat cnt = 1 \<or> prompt_drive s"
  shows "\<exists>t. ide_read dk lba buf cnt s =
      Inr (splice 0 (sectors (media s (my_channel dk) (dev_of dk)) (unat lba) (unat cnt)) buf, t) \<and>
    chan_ready (my_channel dk) t \<and> kept (my_channel dk) s t \<and> media t = media s"
  using assms by (rule ide_read_ok)

definition demo_ide :: ide where
  "demo_ide = \<lparr>channels = [
       \<lparr>chan_name = ''ide0'', port_base = 0x1f0, irq_no = 0x2e, chan_lock = 0, expecting_intr = False, disk_done = 0\<rparr>,
       \<lparr>chan_name = ''ide1'', port_base = 0x170, irq_no = 0x2f, chan_lock = 0, expecting_intr = False, disk_done = 0\<rparr>],
     io = (\<lambda>_. 0), media = (\<lambda>c d n. replicate 512 (of_nat n)), id_data = (\<lambda>c d. replicate 512 0),
     ata_of = (\<lambda>_. \<lparr>xfer = Idle, busy = 0, intrq = False\<rparr>), seek_time = (\<lambda>_. 40), gap_time = (\<lambda>_. 3), events = 0,
     floating = 0xff, slept = 0, handlers = (\<lambda>_. False)\<rparr>"

definition demo_disk :: disk where
  "demo_disk = \<lparr>disk_name = ''sdb'' @ [NUL], my_channel = 0, dev_no = 1, prim_parts = [], logic_parts = []\<rparr>"

lemma demo_ide_ready: "chan_ready (my_channel demo_disk) demo_ide" "full (media demo_ide (my_channel demo_disk) (dev_of demo_disk))"
  by (simp_all add: chan_ready_def configured_def demo_ide_def demo_disk_def chan_def full_def)

theorem ide_read_sectors_witness:
  "\<exists>t. ide_read demo_disk 3 (replicate 1024 0) 1 demo_ide = Inr (replicate 512 3 @ replicate 512 0, t)"
proof -
  have "\<exists>t. ide_read demo_disk 3 (replicate 1024 0) 1 demo_ide =
      Inr (splice 0 (sectors (media demo_ide (my_channel demo_disk) (dev_of demo_disk)) 3 1) (replicate 1024 0), t)"
    using ide_read_sectors [OF demo_ide_ready, of 1 "replicate 1024 0" 3] by (auto simp: last_start_def)
  then show ?thesis by (simp add: sectors_def demo_ide_def splice_def)
qed

text \<open>C20: What \<^verbatim>\<open>ide_write\<close> has written \<^verbatim>\<open>ide_read\<close> reads back, and the write
  changes no other sector of the drive and no other drive: for one sector with every drive that starts on a
  command within the time \<^verbatim>\<open>busy_wait\<close> allows, and for any number of sectors with a drive that has the next
  sector ready, or has taken the last one, at once. The driver moves up to 256 sectors after one interrupt.\<close>

theorem ide_write_read_back:
  assumes "chan_ready (my_channel dk) s" "full (media s (my_channel dk) (dev_of dk))" "cnt > 0"
    "length bs = 512 * unat cnt" "length bs < 2 ^ 32" "last_start (unat lba) (unat cnt) \<le> 163839" "length buf = length bs"
    "unat cnt = 1 \<or> prompt_drive s"
  shows "\<exists>t u. ide_write dk lba bs cnt s = Inr t \<and> ide_read dk lba buf cnt t = Inr (bs, u) \<and>
    (\<forall>n. n < unat lba \<or> unat lba + unat cnt \<le> n \<longrightarrow>
       media t (my_channel dk) (dev_of dk) n = media s (my_channel dk) (dev_of dk) n) \<and>
    (\<forall>c d. (c, d) \<noteq> (my_channel dk, dev_of dk) \<longrightarrow> media t c d = media s c d)"
proof -
  let ?c = "my_channel dk" and ?d = "dev_of dk"
  obtain t where t: "ide_write dk lba bs cnt s = Inr t" "chan_ready ?c t" "kept ?c s t"
      "media t = put_media ?c ?d (store (unat lba) bs (media s ?c ?d)) s"
    using ide_write_ok [OF assms(1,3) _ assms(5,6,8)] assms(4) by auto
  have m: "media t ?c ?d = store (unat lba) bs (media s ?c ?d)" using t(4) by simp
  obtain u where "ide_read dk lba buf cnt t = Inr (splice 0 (sectors (media t ?c ?d) (unat lba) (unat cnt)) buf, u)"
    using ide_read_ok [OF t(2) _ assms(3), of buf lba] full_store [OF assms(2)] assms(4-8) m kept_prompt [OF t(3)] by auto
  moreover have "splice 0 (sectors (media t ?c ?d) (unat lba) (unat cnt)) buf = bs"
    using sectors_store [OF assms(4)] assms(7) m by (simp add: splice_def)
  ultimately show ?thesis using t(1,4) m assms(4) by (auto simp: store_def)
qed

theorem ide_write_read_back_witness:
  "\<exists>t u. ide_write demo_disk 3 (replicate 512 9) 1 demo_ide = Inr t \<and>
     ide_read demo_disk 3 (replicate 512 0) 1 t = Inr (replicate 512 9, u)"
  using ide_write_read_back [OF demo_ide_ready, of 1 "replicate 512 9" 3 "replicate 512 0"]
  by (auto simp: last_start_def)

lemma busy_loop_timeout:
  assumes "unat t \<le> busy (ata_of s c) + 1" "t \<noteq> 0"
  shows "\<exists>a. busy_loop c t s = (False, (set_ata c a s)\<lparr>slept := slept s + 10 * (unat t - 1)\<rparr>)"
  using assms
proof (induction "unat t" arbitrary: t s rule: less_induct)
  case less
  show ?case
  proof (cases "t = 1")
    case True
    then have "busy_loop c t s = (False, (set_ata c (ata_of s c) s)\<lparr>slept := slept s + 10 * (unat t - 1)\<rparr>)"
      by (simp add: busy_loop.simps)
    then show ?thesis by blast
  next
    case False
    then have nz: "t - 1 \<noteq> 0" by simp
    have u: "unat (t - 1) = unat t - 1" using less.prems(2) by (simp add: unat_minus_one)
    have big: "unat t > 1" using False less.prems(2) by (metis less_one nat_neq_iff unat_1 unat_eq_0 word_unat_eq_iff)
    let ?s = "mtime_sleep 10 (set_ata c ((ata_of s c)\<lparr>busy := busy (ata_of s c) - 1\<rparr>) s)"
    have a: "busy (ata_of ?s c) = busy (ata_of s c) - 1" by (simp add: mtime_sleep_def)
    have "\<exists>a. busy_loop c (t - 1) ?s = (False, (set_ata c a ?s)\<lparr>slept := slept ?s + 10 * (unat (t - 1) - 1)\<rparr>)"
      by (rule less.hyps) (use u big nz less.prems(1) a in simp_all)
    then obtain a where "busy_loop c (t - 1) ?s = (False, (set_ata c a s)\<lparr>slept := slept s + 10 * (unat t - 1)\<rparr>)"
      using u big by (auto simp: mtime_sleep_def set_ata_def diff_mult_distrib2 algebra_simps)
    then show ?thesis using busy_loop_step [of t s c] big less.prems(1) by auto
  qed
qed

text \<open>\<^verbatim>\<open>busy_wait\<close> always returns. With a drive that stays busy it gives up after 29999 polls and
  sleeps of 10 ms, that is after 300 seconds; the comment above it promises 30.\<close>

theorem busy_wait_timeout:
  assumes "busy (ata_of s (my_channel dk)) \<ge> 29999"
  shows "\<exists>t. busy_wait dk s = (False, t) \<and> slept t = slept s + 299990"
  using busy_loop_timeout [of "30000" s "my_channel dk"] assms by (auto simp: busy_wait_def)

theorem busy_wait_timeout_witness:
  "fst (busy_wait demo_disk (set_ata 0 \<lparr>xfer = Idle, busy = 30000, intrq = False\<rparr> demo_ide)) = False"
  using busy_wait_timeout [of "set_ata 0 \<lparr>xfer = Idle, busy = 30000, intrq = False\<rparr> demo_ide" demo_disk]
  by (auto simp: demo_disk_def)

text \<open>The driver polls for the first sector of a command only. With a drive that needs time between two sectors
  the second half of a two-sector transfer is whatever the bus holds.\<close>

theorem ide_read_outruns_drive:
  assumes "xfer (ata_of s c) = Reading d n 2" "busy (ata_of s c) = 0" "gap_time s (events s) > 0"
  shows "fst (insw c 512 s) = media s c d n @ replicate 512 (floating s)"
  using assms by (simp add: insw_def numeral_2_eq_2 read_block_def) (simp add: set_ata_def)

theorem ide_read_outruns_drive_witness:
  "fst (insw 0 512 (set_ata 0 \<lparr>xfer = Reading 1 7 2, busy = 0, intrq = False\<rparr> demo_ide)) = replicate 512 7 @ replicate 512 0xff"
  using ide_read_outruns_drive [of "set_ata 0 \<lparr>xfer = Reading 1 7 2, busy = 0, intrq = False\<rparr> demo_ide" 0 1 7]
  by (simp add: demo_ide_def set_ata_def)

end
