(* ===== verification/Inode.thy ===== *)
theory Inode
  imports Ide Bitmap
begin

text \<open>
  \<^verbatim>\<open>fs/inode.c\<close>: the inode table of a partition. The drive is seen through \<open>dread\<close> and \<open>dwrite\<close>, which are
  what \<open>Ide\<close> proves of \<^verbatim>\<open>ide_read\<close> and \<^verbatim>\<open>ide_write\<close>: whole sectors, with the same assertions. Structures
  on disk are their bytes, little endian; an inode is 19 words, 76 bytes.

  Inodes in memory live at addresses that \<^verbatim>\<open>sys_malloc\<close> hands out: \<open>heap n\<close> is the result of the \<open>n\<close>-th
  allocation (zero is the null pointer), so that code which allocates runs against any allocator.
  \<open>core\<close> maps addresses to inodes and \<open>open_inode\<close> is the partition's list of open ones, front first.
\<close>

section \<open>State\<close>

record inode =
  i_no :: u32
  i_size :: u32
  i_open_cnts :: u32
  write_deny :: bool
  i_sectors :: "u32 list"

record super_block =
  magic :: u32
  sb_sec_cnt :: u32
  inode_cnt :: u32
  part_lba_base :: u32
  block_bitmap_lba :: u32
  block_bitmap_sects :: u32
  inode_bitmap_lba :: u32
  inode_bitmap_sects :: u32
  inode_table_lba :: u32
  inode_table_sects :: u32
  data_start_lba :: u32
  root_inode_no :: u32
  dir_entry_size :: u32

record kfile =
  fd_pos :: u32
  fd_flag :: u32
  fd_inode :: u32

record fsys =
  sects :: "nat \<Rightarrow> u8 list"
  part_start :: u32
  part_cnt :: u32
  sb :: super_block
  block_bitmap :: bitmap
  inode_bitmap :: bitmap
  core :: "u32 \<Rightarrow> inode"
  open_inode :: "u32 list"
  heap :: "nat \<Rightarrow> u32"
  heap_n :: nat
  file_table :: "kfile list"
  fd_table :: "u32 list"

section \<open>The drive\<close>

definition dread :: "u32 \<Rightarrow> nat \<Rightarrow> fsys \<Rightarrow> u8 list result" where
  "dread lba n s = assertE (n > 0 \<and> last_start (unat lba) n \<le> 163839) (Inr (sectors (sects s) (unat lba) n))"

definition dwrite :: "u32 \<Rightarrow> u8 list \<Rightarrow> nat \<Rightarrow> fsys \<Rightarrow> fsys result" where
  "dwrite lba bs n s =
     assertE (n > 0 \<and> last_start (unat lba) n \<le> 163839)
       (if 512 * n \<le> length bs then Inr (s\<lparr>sects := store (unat lba) (take (512 * n) bs) (sects s)\<rparr>)
        else Inl Out_of_bounds)"

definition sys_malloc_obj :: "fsys \<Rightarrow> u32 \<times> fsys" where
  "sys_malloc_obj s = (heap s (heap_n s), s\<lparr>heap_n := heap_n s + 1\<rparr>)"

section \<open>Bytes and words\<close>

definition le32 :: "u32 \<Rightarrow> u8 list" where
  "le32 w = [ucast w, ucast (drop_bit 8 w), ucast (drop_bit 16 w), ucast (drop_bit 24 w)]"

definition rd32 :: "u8 \<Rightarrow> u8 \<Rightarrow> u8 \<Rightarrow> u8 \<Rightarrow> u32" where
  "rd32 a b c d = ucast a OR push_bit 8 (ucast b) OR push_bit 16 (ucast c) OR push_bit 24 (ucast d)"

fun words_of :: "u8 list \<Rightarrow> u32 list" where
  "words_of (a # b # c # d # bs) = rd32 a b c d # words_of bs"
| "words_of bs = []"

definition bytes_of :: "u32 list \<Rightarrow> u8 list" where
  "bytes_of ws = concat (map le32 ws)"

text \<open>The image of an inode with the fields that have no meaning on disk cleared, and back.\<close>

definition pure_bytes :: "inode \<Rightarrow> u8 list" where
  "pure_bytes i = bytes_of ([i_no i, i_size i, 0, 0] @ i_sectors i @ [0, 0])"

definition inode_of :: "u8 list \<Rightarrow> inode" where
  "inode_of bs =
     (let ws = words_of bs in
      \<lparr>i_no = ws ! 0, i_size = ws ! 1, i_open_cnts = ws ! 2, write_deny = (ws ! 3 \<noteq> 0),
       i_sectors = take 13 (drop 4 ws)\<rparr>)"

section \<open>Operations\<close>

definition INODE_SIZE :: nat where "INODE_SIZE = 76"

record inode_position =
  two_sec :: bool
  sec_lba :: u32
  off_size :: u32

definition inode_locate :: "u32 \<Rightarrow> fsys \<Rightarrow> inode_position result" where
  "inode_locate inode_no s =
     assertE (inode_no < 4096)
       (let off = inode_no * of_nat INODE_SIZE;
            off_sec = off div 512;
            off_in_sec = off mod 512;
            left_in_sector = 512 - off_in_sec
        in Inr \<lparr>two_sec = \<not> left_in_sector > of_nat INODE_SIZE, sec_lba = inode_table_lba (sb s) + off_sec,
                off_size = off_in_sec\<rparr>)"

text \<open>Read the sectors an inode lies in, replace its bytes by \<open>bs\<close>, write them back.\<close>

definition patch_inode :: "inode_position \<Rightarrow> u8 list \<Rightarrow> fsys \<Rightarrow> fsys result" where
  "patch_inode pos bs s =
     (let n = if two_sec pos then 2 else 1 in
      bindE (dread (sec_lba pos) n s) (\<lambda>buf.
        dwrite (sec_lba pos) (splice (unat (off_size pos)) bs buf) n s))"

definition inode_sync :: "inode \<Rightarrow> fsys \<Rightarrow> fsys result" where
  "inode_sync i s =
     (let inode_no = ucast (i_no i) :: u8 in
      bindE (inode_locate (ucast inode_no) s) (\<lambda>pos.
        assertE (sec_lba pos \<le> part_start s + part_cnt s) (patch_inode pos (pure_bytes i) s)))"

fun find_open :: "u32 \<Rightarrow> u32 list \<Rightarrow> fsys \<Rightarrow> u32 option" where
  "find_open inode_no [] s = None"
| "find_open inode_no (a # as) s = (if i_no (core s a) = inode_no then Some a else find_open inode_no as s)"

definition set_core :: "u32 \<Rightarrow> (inode \<Rightarrow> inode) \<Rightarrow> fsys \<Rightarrow> fsys" where
  "set_core a f s = s\<lparr>core := (core s)(a := f (core s a))\<rparr>"

definition load_inode :: "u32 \<Rightarrow> fsys \<Rightarrow> inode result" where
  "load_inode inode_no s =
     bindE (inode_locate inode_no s) (\<lambda>pos.
     bindE (dread (sec_lba pos) (if two_sec pos then 2 else 1) s) (\<lambda>buf.
       Inr (inode_of (take INODE_SIZE (drop (unat (off_size pos)) buf)))))"

definition inode_open :: "u32 \<Rightarrow> fsys \<Rightarrow> (u32 \<times> fsys) result" where
  "inode_open inode_no s =
     (case find_open inode_no (open_inode s) s of
        Some a \<Rightarrow> Inr (a, set_core a (\<lambda>i. i\<lparr>i_open_cnts := i_open_cnts i + 1\<rparr>) s)
      | None \<Rightarrow>
          bindE (load_inode inode_no s) (\<lambda>i.
            let (a, s) = sys_malloc_obj s; (buf, s) = sys_malloc_obj s in
            if a = 0 \<or> buf = 0 then Inl Out_of_bounds
            else Inr (a, s\<lparr>core := (core s)(a := i\<lparr>i_open_cnts := 1\<rparr>), open_inode := a # open_inode s\<rparr>)))"

definition inode_close :: "u32 \<Rightarrow> fsys \<Rightarrow> fsys" where
  "inode_close a s =
     (let s = set_core a (\<lambda>i. i\<lparr>i_open_cnts := i_open_cnts i - 1\<rparr>) s in
      if i_open_cnts (core s a) = 0 then s\<lparr>open_inode := remove1 a (open_inode s)\<rparr> else s)"

definition inode_init :: "u32 \<Rightarrow> inode \<Rightarrow> inode" where
  "inode_init inode_no i =
     i\<lparr>i_no := inode_no, i_size := 0, i_open_cnts := 0, write_deny := False, i_sectors := replicate 13 0\<rparr>"

definition inode_delete :: "u32 \<Rightarrow> fsys \<Rightarrow> fsys result" where
  "inode_delete inode_no s =
     assertE (inode_no < 4096)
       (bindE (inode_locate inode_no s) (\<lambda>pos.
          assertE (sec_lba pos \<le> part_start s + part_cnt s)
            (patch_inode pos (replicate INODE_SIZE 0) s)))"

section \<open>Bitmaps of the partition\<close>

datatype bitmap_type = INODE_BITMAP | BLOCK_BITMAP

definition inode_bitmap_alloc :: "fsys \<Rightarrow> (int \<times> fsys) result" where
  "inode_bitmap_alloc s =
     bindE (bitmap_scan (inode_bitmap s) 1) (\<lambda>index.
       if index = -1 then Inr (-1, s)
       else bindE (bitmap_set (inode_bitmap s) (nat index) 1) (\<lambda>bm. Inr (index, s\<lparr>inode_bitmap := bm\<rparr>)))"

definition block_bitmap_alloc :: "fsys \<Rightarrow> (int \<times> fsys) result" where
  "block_bitmap_alloc s =
     bindE (bitmap_scan (block_bitmap s) 1) (\<lambda>index.
       if index = -1 then Inr (-1, s)
       else bindE (bitmap_set (block_bitmap s) (nat index) 1) (\<lambda>bm.
         Inr (sint (data_start_lba (sb s) + of_int index), s\<lparr>block_bitmap := bm\<rparr>)))"

definition bitmap_sync :: "u32 \<Rightarrow> bitmap_type \<Rightarrow> fsys \<Rightarrow> fsys result" where
  "bitmap_sync bit_idx btmp s =
     (let off_sec = bit_idx div 4096; off = unat (off_sec * 512) in
      case btmp of
        INODE_BITMAP \<Rightarrow> dwrite (inode_bitmap_lba (sb s) + off_sec) (drop off (bits (inode_bitmap s))) 1 s
      | BLOCK_BITMAP \<Rightarrow> dwrite (block_bitmap_lba (sb s) + off_sec) (drop off (bits (block_bitmap s))) 1 s)"

text \<open>\<^verbatim>\<open>inode_release\<close>: the blocks of the file, then the inode itself.\<close>

fun release_blocks :: "u32 list \<Rightarrow> fsys \<Rightarrow> fsys result" where
  "release_blocks [] s = Inr s"
| "release_blocks (b # bs) s =
     (if b \<noteq> 0
      then let idx = b - data_start_lba (sb s) in
           assertE (idx > 0)
             (bindE (bitmap_set (block_bitmap s) (unat idx) 0) (\<lambda>bm.
              bindE (bitmap_sync idx BLOCK_BITMAP (s\<lparr>block_bitmap := bm\<rparr>)) (release_blocks bs)))
      else release_blocks bs s)"

definition inode_release :: "u32 \<Rightarrow> fsys \<Rightarrow> fsys result" where
  "inode_release inode_no s =
     bindE (inode_open inode_no s) (\<lambda>(a, s).
       let i = core s a; direct = take 12 (i_sectors i); table = i_sectors i ! 12 in
       assertE (i_no i = inode_no)
         (bindE
           (if table \<noteq> 0
            then bindE (dread table 1 s) (\<lambda>buf.
                 let idx = table - data_start_lba (sb s) in
                 bindE (bitmap_set (block_bitmap s) (unat idx) 0) (\<lambda>bm.
                 bindE (bitmap_sync idx BLOCK_BITMAP (s\<lparr>block_bitmap := bm\<rparr>)) (\<lambda>s.
                   Inr (direct @ words_of buf, s))))
            else Inr (direct, s))
           (\<lambda>(all_blocks, s).
              bindE (release_blocks all_blocks s) (\<lambda>s.
              bindE (bitmap_set (inode_bitmap s) (unat inode_no) 0) (\<lambda>bm.
              bindE (bitmap_sync inode_no INODE_BITMAP (s\<lparr>inode_bitmap := bm\<rparr>)) (\<lambda>s.
              let (buf, s) = sys_malloc_obj s in
              if buf = 0 then Inl Out_of_bounds
              else bindE (inode_delete inode_no s) (\<lambda>s. Inr (inode_close a s))))))))"

section \<open>Bytes\<close>

lemma le32_rd32: "rd32 (ucast w) (ucast (drop_bit 8 w)) (ucast (drop_bit 16 w)) (ucast (drop_bit 24 w)) = w"
proof (rule bit_word_eqI)
  fix n assume "n < LENGTH(32)"
  then consider "n < 8" | "8 \<le> n" "n < 16" | "16 \<le> n" "n < 24" | "24 \<le> n" "n < 32" by fastforce
  then show "bit (rd32 (ucast w) (ucast (drop_bit 8 w)) (ucast (drop_bit 16 w)) (ucast (drop_bit 24 w))) n = bit w n"
    by cases (auto simp: rd32_def bit_simps)
qed

lemma words_bytes [simp]: "words_of (bytes_of ws) = ws"
  by (induction ws) (simp_all add: bytes_of_def le32_def le32_rd32)

lemma length_bytes_of [simp]: "length (bytes_of ws) = 4 * length ws"
  by (induction ws) (simp_all add: bytes_of_def le32_def)

text \<open>Part of an area of the disk, and a write inside it.\<close>

lemma sectors_sub:
  assumes "full f" "q + k \<le> n"
  shows "sectors f (t + q) k = take (512 * k) (drop (512 * q) (sectors f t n))"
proof -
  have n: "n = q + (k + (n - q - k))" using assms(2) by simp
  have "sectors f t n = sectors f t q @ sectors f (t + q) k @ sectors f (t + q + k) (n - q - k)"
    by (subst n) (simp only: sectors_add)
  then show ?thesis using length_sectors [OF assms(1)] by simp
qed

lemma sectors_other:
  assumes "t + n \<le> a \<or> a + length bs div 512 \<le> t"
  shows "sectors (store a bs f) t n = sectors f t n"
proof -
  have "store a bs f k = f k" if "k \<in> set [t..<t + n]" for k using assms that by (auto simp: store_def)
  then show ?thesis unfolding sectors_def by (intro arg_cong [of _ _ concat] map_cong refl)
qed

lemma sectors_store_within:
  assumes "full f" "length bs = 512 * k" "q + k \<le> n"
  shows "sectors (store (t + q) bs f) t n = splice (512 * q) bs (sectors f t n)"
proof -
  have n: "n = q + (k + (n - q - k))" using assms(3) by simp
  have old: "sectors f t n = sectors f t q @ sectors f (t + q) k @ sectors f (t + q + k) (n - q - k)"
    by (subst n) (simp only: sectors_add)
  have "sectors (store (t + q) bs f) t n =
      sectors (store (t + q) bs f) t q @ sectors (store (t + q) bs f) (t + q) k @
      sectors (store (t + q) bs f) (t + q + k) (n - q - k)"
    by (subst n) (simp only: sectors_add)
  also have "\<dots> = sectors f t q @ bs @ sectors f (t + q + k) (n - q - k)"
    using sectors_store [OF assms(2)] assms(2) by (simp add: sectors_other)
  also have "\<dots> = splice (512 * q) bs (sectors f t n)"
    unfolding old splice_def using length_sectors [OF assms(1)] assms(2) by simp
  finally show ?thesis .
qed

section \<open>The inode table\<close>

definition table :: "fsys \<Rightarrow> u8 list" where
  "table s = sectors (sects s) (unat (inode_table_lba (sb s))) 609"

definition slot :: "nat \<Rightarrow> fsys \<Rightarrow> u8 list" where
  "slot n s = take 76 (drop (76 * n) (table s))"

text \<open>The table lies in the partition and in the part of the drive the driver reaches.\<close>

definition table_ok :: "fsys \<Rightarrow> bool" where
  "table_ok s \<longleftrightarrow> full (sects s) \<and> unat (inode_table_lba (sb s)) + 609 \<le> 163839 \<and>
     unat (inode_table_lba (sb s)) + 609 \<le> unat (part_start s) + unat (part_cnt s) \<and>
     unat (part_start s) + unat (part_cnt s) < 2 ^ 32"

lemma locate_ok:
  assumes "table_ok s" "no < 4096"
  shows "\<exists>pos. inode_locate no s = Inr pos \<and>
    unat (sec_lba pos) = unat (inode_table_lba (sb s)) + 76 * unat no div 512 \<and>
    unat (off_size pos) = 76 * unat no mod 512 \<and>
    76 * unat no mod 512 + 76 \<le> 512 * (if two_sec pos then 2 else 1) \<and>
    76 * unat no div 512 + (if two_sec pos then 2 else 1) \<le> 609 \<and>
    sec_lba pos \<le> part_start s + part_cnt s"
proof -
  have no: "unat no < 4096" using assms(2) by (simp add: word_less_nat_alt)
  have off: "unat (no * 76) = 76 * unat no" using unat_mult_u32 [of no 76] no by simp
  have sec: "unat (no * 76 div 512) = 76 * unat no div 512" by (simp add: unat_div off)
  have ins: "unat (no * 76 mod 512) = 76 * unat no mod 512" by (simp add: unat_mod off)
  have q: "76 * unat no div 512 \<le> 607" using no by simp
  have lba: "unat (inode_table_lba (sb s) + no * 76 div 512) = unat (inode_table_lba (sb s)) + 76 * unat no div 512"
    using assms(1) q by (subst unat_add_u32) (simp_all add: sec table_ok_def)
  have "76 * unat no mod 512 < 512" by simp
  then have left: "unat (512 - no * 76 mod 512) = 512 - 76 * unat no mod 512"
    by (subst unat_sub) (simp_all add: ins word_le_nat_alt)
  have "(512 - no * 76 mod 512 > 76) = (76 * unat no mod 512 + 76 < 512)"
    using left by (simp add: word_less_nat_alt) linarith
  moreover have "unat (part_start s + part_cnt s) = unat (part_start s) + unat (part_cnt s)"
    using assms(1) by (intro unat_add_u32) (simp add: table_ok_def)
  then have "inode_table_lba (sb s) + no * 76 div 512 \<le> part_start s + part_cnt s"
    using assms(1) q by (simp add: word_le_nat_alt lba table_ok_def)
  ultimately show ?thesis
    using assms(2) lba ins q \<open>76 * unat no mod 512 < 512\<close> by (auto simp: inode_locate_def Let_def INODE_SIZE_def)
qed

lemma sectors_here:
  assumes "table_ok s" "unat lba = unat (inode_table_lba (sb s)) + q" "n \<in> {1, 2}" "q + n \<le> 609"
  shows "dread lba n s = Inr (take (512 * n) (drop (512 * q) (table s)))"
proof -
  have "last_start (unat lba) n \<le> 163839" using assms by (auto simp: last_start_def table_ok_def)
  moreover have "sectors (sects s) (unat lba) n = take (512 * n) (drop (512 * q) (table s))"
    unfolding assms(2) table_def by (rule sectors_sub) (use assms(1,4) in \<open>simp_all add: table_ok_def\<close>)
  ultimately show ?thesis using assms(3) by (auto simp: dread_def)
qed

lemma take_drop_inner: "off + k \<le> m \<Longrightarrow> take k (drop off (take m (drop d xs))) = take k (drop (d + off) xs)"
  by (auto simp: drop_take drop_drop add.commute)

lemma load_slot:
  assumes "table_ok s" "no < 4096"
  shows "load_inode no s = Inr (inode_of (slot (unat no) s))"
proof -
  obtain pos where pos: "inode_locate no s = Inr pos"
    "unat (sec_lba pos) = unat (inode_table_lba (sb s)) + 76 * unat no div 512"
    "unat (off_size pos) = 76 * unat no mod 512"
    "76 * unat no mod 512 + 76 \<le> 512 * (if two_sec pos then 2 else 1)"
    "76 * unat no div 512 + (if two_sec pos then 2 else 1) \<le> 609"
    using locate_ok [OF assms] by blast
  have "512 * (76 * unat no div 512) + 76 * unat no mod 512 = 76 * unat no" by (rule mult_div_mod_eq)
  then have "take 76 (drop (76 * unat no mod 512)
      (take (512 * (if two_sec pos then 2 else 1)) (drop (512 * (76 * unat no div 512)) (table s)))) = slot (unat no) s"
    unfolding take_drop_inner [OF pos(4)] slot_def by simp
  then show ?thesis
    using sectors_here [OF assms(1) pos(2) _ pos(5)] pos(1,3) by (simp add: load_inode_def INODE_SIZE_def)
qed

text \<open>Writing an inode's bytes changes its 76 bytes of the table.\<close>

lemma length_table: "table_ok s \<Longrightarrow> length (table s) = 512 * 609"
  unfolding table_def by (rule length_sectors) (simp add: table_ok_def)

lemma splice_splice_inner:
  assumes "off + length bs \<le> m" "d + m \<le> length xs"
  shows "splice d (splice off bs (take m (drop d xs))) xs = splice (d + off) bs xs"
  using assms by (auto intro!: nth_equalityI simp: nth_splice) (linarith+)

text \<open>The first 256 inodes, which are those that \<^verbatim>\<open>inode_sync\<close> writes, lie in the first 40 sectors.\<close>

definition outside_table :: "fsys \<Rightarrow> fsys \<Rightarrow> bool" where
  "outside_table s t \<longleftrightarrow> (\<forall>m. m < unat (inode_table_lba (sb s)) \<or> unat (inode_table_lba (sb s)) + 40 \<le> m \<longrightarrow>
     sects t m = sects s m)"

lemma patch_ok:
  assumes "table_ok s" "no < 4096" "inode_locate no s = Inr pos" "length bs = 76"
  shows "\<exists>t. patch_inode pos bs s = Inr t \<and> table t = splice (76 * unat no) bs (table s) \<and> table_ok t \<and>
    t = s\<lparr>sects := sects t\<rparr> \<and> (unat no < 256 \<longrightarrow> outside_table s t)"
proof -
  have pos: "unat (sec_lba pos) = unat (inode_table_lba (sb s)) + 76 * unat no div 512"
    "unat (off_size pos) = 76 * unat no mod 512"
    "76 * unat no mod 512 + 76 \<le> 512 * (if two_sec pos then 2 else 1)"
    "76 * unat no div 512 + (if two_sec pos then 2 else 1) \<le> 609"
    using locate_ok [OF assms(1,2)] assms(3) by auto
  define q n off where "q = 76 * unat no div 512" and "n = (if two_sec pos then 2 else 1 :: nat)"
    and "off = 76 * unat no mod 512"
  note pos = pos [folded q_def n_def off_def]
  let ?buf = "take (512 * n) (drop (512 * q) (table s))"
  let ?new = "splice off bs ?buf"
  have fl: "full (sects s)" using assms(1) by (simp add: table_ok_def)
  have fit: "512 * q + 512 * n \<le> length (table s)"
    using mult_le_mono2 [OF pos(4), of 512] length_table [OF assms(1)] by (simp only: distrib_left)
  have lb: "length ?buf = 512 * n" using fit by simp
  have ln: "length ?new = 512 * n" using lb pos(3) assms(4) by simp
  have rd: "dread (sec_lba pos) n s = Inr ?buf"
    using sectors_here [OF assms(1) pos(1) _ pos(4)] by (simp add: n_def)
  let ?t = "s\<lparr>sects := store (unat (sec_lba pos)) ?new (sects s)\<rparr>"
  have ls: "n > 0 \<and> last_start (unat (sec_lba pos)) n \<le> 163839"
    using assms(1) pos(1,4) by (auto simp: last_start_def table_ok_def n_def)
  have "patch_inode pos bs s = Inr ?t"
    using rd ls ln pos(2) unfolding patch_inode_def n_def [symmetric] Let_def by (simp add: dwrite_def)
  moreover have "table ?t = splice (512 * q) ?new (table s)"
    using sectors_store_within [OF fl ln pos(4)] by (simp add: table_def pos(1))
  moreover have "splice (512 * q) ?new (table s) = splice (512 * q + off) bs (table s)"
    by (rule splice_splice_inner) (use pos(3) assms(4) fit in simp_all)
  moreover have "512 * q + off = 76 * unat no" unfolding q_def off_def by (rule mult_div_mod_eq)
  moreover have "table_ok ?t" using assms(1) full_store [OF fl] by (simp add: table_ok_def)
  moreover have "outside_table s ?t" if "unat no < 256"
  proof -
    have "q \<le> 37" "n \<le> 2" using that by (simp_all add: q_def n_def)
    then show ?thesis using pos(1) ln by (auto simp: outside_table_def store_def)
  qed
  ultimately show ?thesis by auto
qed

lemma slot_patch:
  assumes "table_ok s" "table t = splice (76 * n) bs (table s)" "length bs = 76" "n < 4096" "j < 4096"
  shows "slot j t = (if j = n then bs else slot j s)"
proof -
  have l: "length (table s) = 512 * 609" using length_table [OF assms(1)] .
  have fit: "76 * n + length bs \<le> length (table s)" using assms(3,4) l by simp
  show ?thesis
  proof (cases "j = n")
    case True
    then show ?thesis using fit assms(2,3) take_drop_splice [OF fit] by (simp add: slot_def)
  next
    case False
    then have "76 * j + 76 \<le> 76 * n \<or> 76 * n + length bs \<le> 76 * j" using assms(3) by auto
    then show ?thesis
      using take_drop_splice_other [OF fit _] False assms(2,5) l by (simp add: slot_def)
  qed
qed

section \<open>Properties\<close>

text \<open>What is left of an inode on disk.\<close>

abbreviation at_rest :: "inode \<Rightarrow> inode" where
  "at_rest i \<equiv> i\<lparr>i_open_cnts := 0, write_deny := False\<rparr>"

lemma pure_bytes_of:
  assumes "length (i_sectors i) = 13"
  shows "length (pure_bytes i) = 76" "inode_of (pure_bytes i) = at_rest i"
proof -
  show "length (pure_bytes i) = 76" using assms by (simp add: pure_bytes_def)
  show "inode_of (pure_bytes i) = at_rest i"
    using assms by (cases i) (simp add: inode_of_def pure_bytes_def Let_def)
qed

lemma sync_slot:
  assumes "table_ok s" "length (i_sectors i) = 13"
  shows "\<exists>t. inode_sync i s = Inr t \<and> table_ok t \<and> t = s\<lparr>sects := sects t\<rparr> \<and> outside_table s t \<and>
    (\<forall>j<4096. slot j t = (if j = unat (i_no i) mod 256 then pure_bytes i else slot j s))"
proof -
  let ?n = "ucast (ucast (i_no i) :: u8) :: u32"
  have un: "unat ?n = unat (i_no i) mod 256" by (simp add: u8_of_u32 unsigned_ucast_eq unat_take)
  then have lt: "?n < 4096" by (simp add: word_less_nat_alt)
  obtain pos where pos: "inode_locate ?n s = Inr pos" "sec_lba pos \<le> part_start s + part_cnt s"
    using locate_ok [OF assms(1) lt] by blast
  obtain t where t: "patch_inode pos (pure_bytes i) s = Inr t"
      "table t = splice (76 * unat ?n) (pure_bytes i) (table s)" "table_ok t" "t = s\<lparr>sects := sects t\<rparr>" "outside_table s t"
    using patch_ok [OF assms(1) lt pos(1) pure_bytes_of(1) [OF assms(2)]] un by auto
  have "slot j t = (if j = unat (i_no i) mod 256 then pure_bytes i else slot j s)" if "j < 4096" for j
    using slot_patch [OF assms(1) t(2) pure_bytes_of(1) [OF assms(2)] _ that] un by simp
  then show ?thesis using pos t by (auto simp: inode_sync_def Let_def)
qed

text \<open>C21: An inode with a number below 256 that is written to disk reads back as it was, without its open
  count and its write lock, and no other inode of the table changes, although inodes are not
  aligned to sectors and one may lie in two.\<close>

theorem inode_sync_roundtrip:
  assumes "table_ok s" "length (i_sectors i) = 13" "i_no i < 256"
  shows "\<exists>t. inode_sync i s = Inr t \<and> load_inode (i_no i) t = Inr (at_rest i) \<and>
    (\<forall>j<4096. j \<noteq> i_no i \<longrightarrow> load_inode j t = load_inode j s)"
proof -
  have n: "unat (i_no i) < 256" using assms(3) by (simp add: word_less_nat_alt)
  obtain t where t: "inode_sync i s = Inr t" "table_ok t"
      "\<And>j. j < 4096 \<Longrightarrow> slot j t = (if j = unat (i_no i) then pure_bytes i else slot j s)"
    using sync_slot [OF assms(1,2)] n by auto
  have "load_inode j t = (if j = i_no i then Inr (at_rest i) else load_inode j s)" if "j < 4096" for j
  proof -
    have "unat j < 4096" using that by (simp add: word_less_nat_alt)
    then show ?thesis
      using load_slot [OF t(2) that] load_slot [OF assms(1) that] t(3) [of "unat j"]
        pure_bytes_of(2) [OF assms(2)] by (auto simp: word_unat_eq_iff)
  qed
  moreover have "i_no i < 4096" using n by (simp add: word_less_nat_alt)
  ultimately show ?thesis using t(1) by auto
qed

definition demo_fs :: fsys where
  "demo_fs = \<lparr>sects = (\<lambda>_. replicate 512 0), part_start = 100, part_cnt = 4000,
     sb = \<lparr>magic = 0x23333333, sb_sec_cnt = 4000, inode_cnt = 4096, part_lba_base = 100, block_bitmap_lba = 102, block_bitmap_sects = 1,
       inode_bitmap_lba = 103, inode_bitmap_sects = 1, inode_table_lba = 104, inode_table_sects = 608,
       data_start_lba = 712, root_inode_no = 0, dir_entry_size = 24\<rparr>,
     block_bitmap = \<lparr>btmp_bytes_len = 512, bits = 1 # replicate 511 0\<rparr>,
     inode_bitmap = \<lparr>btmp_bytes_len = 512, bits = 1 # replicate 511 0\<rparr>,
     core = (\<lambda>_. \<lparr>i_no = 0, i_size = 0, i_open_cnts = 0, write_deny = False, i_sectors = replicate 13 0\<rparr>),
     open_inode = [], heap = (\<lambda>n. 0xc0200000 + 1024 * of_nat n), heap_n = 0,
     file_table = replicate 32 \<lparr>fd_pos = 0, fd_flag = 0, fd_inode = 0\<rparr>, fd_table = [0, 1, 2, -1, -1, -1, -1, -1]\<rparr>"

lemma demo_table_ok: "table_ok demo_fs"
  by (simp add: table_ok_def demo_fs_def full_def)

definition demo_inode :: "u32 \<Rightarrow> inode" where
  "demo_inode n = \<lparr>i_no = n, i_size = 48, i_open_cnts = 2, write_deny = True, i_sectors = 712 # replicate 12 0\<rparr>"

theorem inode_sync_roundtrip_witness:
  "\<exists>t. inode_sync (demo_inode 6) demo_fs = Inr t \<and> load_inode 6 t = Inr (at_rest (demo_inode 6))"
  using inode_sync_roundtrip [OF demo_table_ok, of "demo_inode 6"] by (auto simp: demo_inode_def)

text \<open>\<^verbatim>\<open>inode_sync\<close> keeps the inode number in eight bits: an inode with a number from 256 up is written
  over the inode whose number is the remainder modulo 256, and its own slot is left as it was.\<close>

theorem inode_sync_truncates:
  assumes "table_ok s" "length (i_sectors i) = 13" "256 \<le> i_no i" "i_no i < 4096"
  shows "\<exists>t. inode_sync i s = Inr t \<and> load_inode (i_no i mod 256) t = Inr (at_rest i) \<and>
    load_inode (i_no i) t = load_inode (i_no i) s"
proof -
  have n: "256 \<le> unat (i_no i)" "unat (i_no i) < 4096" using assms(3,4) by (simp_all add: word_less_nat_alt word_le_nat_alt)
  have um: "unat (i_no i mod 256) = unat (i_no i) mod 256" by (simp add: unat_mod)
  have lt: "i_no i mod 256 < 4096" by (simp add: word_less_nat_alt um)
  obtain t where t: "inode_sync i s = Inr t" "table_ok t"
      "\<And>j. j < 4096 \<Longrightarrow> slot j t = (if j = unat (i_no i) mod 256 then pure_bytes i else slot j s)"
    using sync_slot [OF assms(1,2)] by auto
  have m: "unat (i_no i) mod 256 < 256" by simp
  then have "slot (unat (i_no i) mod 256) t = pure_bytes i" "slot (unat (i_no i)) t = slot (unat (i_no i)) s"
    using t(3) [of "unat (i_no i) mod 256"] t(3) [of "unat (i_no i)"] n by (simp, auto)
  then show ?thesis
    using t(1) load_slot [OF t(2) lt] load_slot [OF t(2) assms(4)] load_slot [OF assms(1,4)] um
      pure_bytes_of(2) [OF assms(2)] by simp
qed

theorem inode_sync_truncates_witness:
  "\<exists>t. inode_sync (demo_inode 260) demo_fs = Inr t \<and> load_inode (260 mod 256) t = Inr (at_rest (demo_inode 260))"
  using inode_sync_truncates [OF demo_table_ok, of "demo_inode 260"] by (auto simp: demo_inode_def)

end
