(* ===== verification/File.thy ===== *)
theory File
  imports Inode
begin

text \<open>
  \<^verbatim>\<open>fs/file.c\<close>: the table of open files, reading and appending to files. An inode has twelve direct
  block numbers and the number of a block with 128 more; the code gathers the ones it needs in
  \<^verbatim>\<open>all_blocks\<close>, which \<^verbatim>\<open>sys_malloc\<close> hands out zeroed, and then moves data block by block.

  A file operation returns the value of the C function; \<^verbatim>\<open>file_read\<close> also returns the bytes it
  stores in the caller's buffer, and \<^verbatim>\<open>file_write\<close> takes the buffer as a list. The two counters of
  the data loops, bytes moved and bytes left, add up to the size, so the loops below carry the second.
\<close>

section \<open>Tables\<close>

fun free_slot :: "nat list \<Rightarrow> kfile list \<Rightarrow> int" where
  "free_slot [] ft = -1"
| "free_slot (i # is) ft = (if fd_inode (ft ! i) = 0 then int i else free_slot is ft)"

definition get_free_slot_in_global :: "fsys \<Rightarrow> int" where
  "get_free_slot_in_global s = free_slot [3..<32] (file_table s)"

fun free_fd :: "nat list \<Rightarrow> u32 list \<Rightarrow> nat option" where
  "free_fd [] t = None"
| "free_fd (i # is) t = (if t ! i = -1 then Some i else free_fd is t)"

definition pcb_fd_install :: "int \<Rightarrow> fsys \<Rightarrow> int \<times> fsys" where
  "pcb_fd_install global_fd s =
     (case free_fd [3..<8] (fd_table s) of
        None \<Rightarrow> (-1, s)
      | Some i \<Rightarrow> (int i, s\<lparr>fd_table := (fd_table s)[i := of_int global_fd]\<rparr>))"

definition file_open :: "u32 \<Rightarrow> u8 \<Rightarrow> fsys \<Rightarrow> (int \<times> fsys) result" where
  "file_open inode_no flag s =
     (let fd = get_free_slot_in_global s in
      if fd = -1 then Inr (-1, s)
      else bindE (inode_open inode_no s) (\<lambda>(a, s).
        let s = s\<lparr>file_table := (file_table s)[nat fd := \<lparr>fd_pos = 0, fd_flag = ucast flag, fd_inode = a\<rparr>]\<rparr> in
        if flag AND 1 \<noteq> 0 \<or> flag AND 2 \<noteq> 0
        then if write_deny (core s a) then Inr (-1, s)
             else Inr (pcb_fd_install fd (set_core a (\<lambda>i. i\<lparr>write_deny := True\<rparr>) s))
        else Inr (pcb_fd_install fd s)))"

definition file_close :: "nat \<Rightarrow> fsys \<Rightarrow> int \<times> fsys" where
  "file_close f s =
     (let a = fd_inode (file_table s ! f);
          s = inode_close a (set_core a (\<lambda>i. i\<lparr>write_deny := False\<rparr>) s)
      in (0, s\<lparr>file_table := (file_table s)[f := (file_table s ! f)\<lparr>fd_inode := 0\<rparr>]\<rparr>))"

section \<open>Reading\<close>

text \<open>\<^verbatim>\<open>all_blocks + 12\<close> filled from the indirect block; \<^verbatim>\<open>all_blocks[k] = i_sectors[k]\<close> for a range.\<close>

definition load_indirect :: "u32 \<Rightarrow> u32 list \<Rightarrow> fsys \<Rightarrow> u32 list result" where
  "load_indirect tab ab s = bindE (dread tab 1 s) (\<lambda>buf. Inr (take 12 ab @ words_of buf))"

fun copy_blocks :: "nat list \<Rightarrow> u32 list \<Rightarrow> u32 list \<Rightarrow> u32 list" where
  "copy_blocks [] sec ab = ab"
| "copy_blocks (k # ks) sec ab = copy_blocks ks sec (ab[k := sec ! k])"

definition read_blocks :: "nat \<Rightarrow> nat \<Rightarrow> u32 list \<Rightarrow> fsys \<Rightarrow> u32 list result" where
  "read_blocks start fin sec s =
     (let ab = replicate 140 0 in
      if fin = start then
        assertE (start = fin)
          (if fin < 12 then Inr (ab[start := sec ! start]) else load_indirect (sec ! 12) ab s)
      else if fin < 12 then Inr (copy_blocks [start..<fin + 1] sec ab)
      else if start < 12 \<and> fin > 12 then
        (let ab = copy_blocks [start..<12 + 1] sec ab in
         assertE (sec ! 12 \<noteq> 0) (load_indirect (sec ! 12) ab s))
      else assertE (sec ! 12 \<noteq> 0) (load_indirect (sec ! 12) ab s))"

definition chunk_size :: "u32 \<Rightarrow> u32 \<Rightarrow> u32" where
  "chunk_size pos size_left = (let sec_left = 512 - pos mod 512 in if size_left > sec_left then sec_left else size_left)"

lemma unat_chunk: "unat (chunk_size pos size_left) = min (unat size_left) (512 - unat pos mod 512)"
proof -
  have "unat (pos mod 512) = unat pos mod 512" by (simp add: unat_mod)
  moreover have "unat pos mod 512 < 512" by simp
  ultimately have "unat (512 - pos mod 512) = 512 - unat pos mod 512"
    by (subst unat_sub) (simp_all add: word_le_nat_alt)
  then show ?thesis by (auto simp: chunk_size_def Let_def word_less_nat_alt)
qed

lemma chunk_progress: "size_left > 0 \<Longrightarrow> unat (size_left - chunk_size pos size_left) < unat size_left"
proof -
  assume "size_left > 0"
  then have "0 < unat size_left" by (simp add: word_less_nat_alt)
  moreover have "unat pos mod 512 < 512" by simp
  moreover have "unat (size_left - chunk_size pos size_left) = unat size_left - unat (chunk_size pos size_left)"
    by (rule unat_sub) (simp add: word_le_nat_alt unat_chunk)
  ultimately show ?thesis by (simp add: unat_chunk)
qed

function read_data :: "u32 list \<Rightarrow> u32 \<Rightarrow> u32 \<Rightarrow> fsys \<Rightarrow> (u8 list \<times> u32) result" where
  "read_data ab pos size_left s =
     (if size_left > 0
      then let sec_idx = unat (pos div 512); off = unat (pos mod 512); chunk = chunk_size pos size_left in
           if sec_idx \<ge> length ab then Inl Out_of_bounds
           else bindE (dread (ab ! sec_idx) 1 s) (\<lambda>io_buf.
                bindE (read_data ab (pos + chunk) (size_left - chunk) s) (\<lambda>(bs, pos).
                  Inr (take (unat chunk) (drop off io_buf) @ bs, pos)))
      else Inr ([], pos))"
  by pat_completeness auto
termination
  by (relation "measure (\<lambda>(ab, pos, size_left, s). unat size_left)") (auto simp: chunk_progress)

declare read_data.simps [simp del]

definition set_file :: "nat \<Rightarrow> (kfile \<Rightarrow> kfile) \<Rightarrow> fsys \<Rightarrow> fsys" where
  "set_file f g s = s\<lparr>file_table := (file_table s)[f := g (file_table s ! f)]\<rparr>"

definition file_read :: "nat \<Rightarrow> u32 \<Rightarrow> fsys \<Rightarrow> (int \<times> u8 list \<times> fsys) result" where
  "file_read f count s =
     (let fl = file_table s ! f; i = core s (fd_inode fl);
          over = fd_pos fl + count > i_size i;
          sz = (if over then i_size i - fd_pos fl else count)
      in if over \<and> sz = 0 then Inr (-1, [], s)
         else
           (let (io_buf, s) = sys_malloc_obj s in
            if io_buf = 0 then Inr (-1, [], s)
            else
              (let (all_blocks, s) = sys_malloc_obj s in
               if all_blocks = 0 then Inr (-1, [], s)
               else
                 (let start = fd_pos fl div 512; fin = (fd_pos fl + sz) div 512 in
                  assertE (start < 139 \<and> fin < 139)
                    (bindE (read_blocks (unat start) (unat fin) (i_sectors i) s) (\<lambda>ab.
                     bindE (read_data ab (fd_pos fl) sz s) (\<lambda>(bs, pos).
                       Inr (sint sz, bs, set_file f (\<lambda>fl. fl\<lparr>fd_pos := pos\<rparr>) s))))))))"

section \<open>Writing\<close>

text \<open>The three loops that allocate blocks: in the first the index is a direct one and the block a bitmap
  index other than zero, in the second it may be either, in the third it is an indirect one.\<close>

datatype alloc_case = All_direct | Crossing | All_indirect

fun alloc_blocks :: "alloc_case \<Rightarrow> nat list \<Rightarrow> u32 \<Rightarrow> u32 list \<Rightarrow> fsys \<Rightarrow> (u32 list option \<times> fsys) result" where
  "alloc_blocks c [] a ab s = Inr (Some ab, s)"
| "alloc_blocks c (k # ks) a ab s =
     bindE (block_bitmap_alloc s) (\<lambda>(lba, s).
       if lba = -1 then Inr (None, s)
       else
         (let b = of_int lba :: u32; idx = b - data_start_lba (sb s);
              direct = (c = All_direct \<or> c = Crossing \<and> k < 12) in
          assertE (direct \<longrightarrow> i_sectors (core s a) ! k = 0)
            (let s = (if direct then set_core a (\<lambda>i. i\<lparr>i_sectors := (i_sectors i)[k := b]\<rparr>) s else s) in
             assertE (c = All_direct \<longrightarrow> idx \<noteq> 0)
               (bindE (bitmap_sync idx BLOCK_BITMAP s) (alloc_blocks c ks a (ab[k := b]))))))"

text \<open>The indirect block written back, when the blocks were found.\<close>

definition write_indirect :: "u32 \<Rightarrow> u32 list option \<times> fsys \<Rightarrow> (u32 list option \<times> fsys) result" where
  "write_indirect tab r =
     (case r of (None, s) \<Rightarrow> Inr (None, s)
      | (Some ab, s) \<Rightarrow> bindE (dwrite tab (bytes_of (drop 12 ab)) 1 s) (\<lambda>s. Inr (Some ab, s)))"

text \<open>The block numbers of a write that takes the file from \<open>used\<close> to \<open>will\<close> blocks. \<open>None\<close>: a failed
  allocation, for which the caller returns \<open>-1\<close>. The sum of size and count may wrap around, so that
  \<open>will\<close> may be the smaller one; then the last block in use need not be a direct one.\<close>

definition write_blocks :: "nat \<Rightarrow> nat \<Rightarrow> u32 \<Rightarrow> fsys \<Rightarrow> (u32 list option \<times> fsys) result" where
  "write_blocks used will a s =
     (let ab = replicate 140 0; sec = i_sectors (core s a) in
      if will = used then
        if will \<le> 12 then Inr (Some (ab[used - 1 := sec ! (used - 1)]), s)
        else assertE (sec ! 12 \<noteq> 0) (bindE (load_indirect (sec ! 12) ab s) (\<lambda>ab. Inr (Some ab, s)))
      else if will \<le> 12 then
        if length sec < used then Inl Out_of_bounds
        else assertE (sec ! (used - 1) \<noteq> 0)
          (alloc_blocks All_direct [used..<will] a (ab[used - 1 := sec ! (used - 1)]) s)
      else if used \<le> 12 then
        bindE (block_bitmap_alloc s) (\<lambda>(lba, s).
          if lba = -1 then Inr (None, s)
          else assertE (i_sectors (core s a) ! 12 = 0)
            (let tab = of_int lba :: u32; s = set_core a (\<lambda>i. i\<lparr>i_sectors := (i_sectors i)[12 := tab]\<rparr>) s in
             bindE (alloc_blocks Crossing [used..<will] a (ab[used - 1 := sec ! (used - 1)]) s)
               (write_indirect tab)))
      else
        assertE (sec ! 12 \<noteq> 0)
          (bindE (load_indirect (sec ! 12) ab s) (\<lambda>ab.
           bindE (alloc_blocks All_indirect [used..<will] a ab s) (write_indirect (sec ! 12)))))"

function write_data :: "u32 list \<Rightarrow> bool \<Rightarrow> u8 list \<Rightarrow> u32 \<Rightarrow> nat \<Rightarrow> u32 \<Rightarrow> fsys \<Rightarrow> fsys result" where
  "write_data ab first src size_left f a s =
     (if size_left > 0
      then let pos = i_size (core s a); sec_idx = unat (pos div 512); off = unat (pos mod 512);
               chunk = chunk_size pos size_left in
           if sec_idx \<ge> length ab \<or> length src < unat chunk then Inl Out_of_bounds
           else bindE (if first then dread (ab ! sec_idx) 1 s else Inr (replicate 512 0)) (\<lambda>io_buf.
                bindE (dwrite (ab ! sec_idx) (splice off (take (unat chunk) src) io_buf) 1 s) (\<lambda>s.
                  write_data ab False (drop (unat chunk) src) (size_left - chunk) f a
                    (set_file f (\<lambda>fl. fl\<lparr>fd_pos := fd_pos fl + chunk\<rparr>)
                      (set_core a (\<lambda>i. i\<lparr>i_size := i_size i + chunk\<rparr>) s))))
      else Inr s)"
  by pat_completeness auto
termination
  by (relation "measure (\<lambda>(ab, first, src, size_left, f, a, s). unat size_left)") (auto simp: chunk_progress)

declare write_data.simps [simp del]

text \<open>The first block of an empty file.\<close>

definition first_block :: "u32 \<Rightarrow> fsys \<Rightarrow> (bool \<times> fsys) result" where
  "first_block a s =
     (if i_sectors (core s a) ! 0 = 0
      then bindE (block_bitmap_alloc s) (\<lambda>(lba, s).
        if lba = -1 then Inr (False, s)
        else
          (let b = of_int lba :: u32; s = set_core a (\<lambda>i. i\<lparr>i_sectors := (i_sectors i)[0 := b]\<rparr>) s;
               idx = b - data_start_lba (sb s) in
           assertE (idx \<noteq> 0) (bindE (bitmap_sync idx BLOCK_BITMAP s) (\<lambda>s. Inr (True, s)))))
      else Inr (True, s))"

definition file_write :: "nat \<Rightarrow> u8 list \<Rightarrow> u32 \<Rightarrow> fsys \<Rightarrow> (int \<times> fsys) result" where
  "file_write f buf count s =
     (let a = fd_inode (file_table s ! f) in
      if i_size (core s a) + count > 512 * 140 then Inr (-1, s)
      else
        (let (io_buf, s) = sys_malloc_obj s in
         if io_buf = 0 then Inr (-1, s)
         else
           (let (all_blocks, s) = sys_malloc_obj s in
            if all_blocks = 0 then Inr (-1, s)
            else bindE (first_block a s) (\<lambda>(ok, s).
              if \<not> ok then Inr (-1, s)
              else
                (let used = i_size (core s a) div 512 + 1; will = (i_size (core s a) + count) div 512 + 1 in
                 assertE (will < 140)
                   (bindE (write_blocks (unat used) (unat will) a s) (\<lambda>(r, s).
                      case r of None \<Rightarrow> Inr (-1, s)
                      | Some ab \<Rightarrow>
                          let s = set_file f (\<lambda>fl. fl\<lparr>fd_pos := i_size (core s a) - 1\<rparr>) s in
                          bindE (write_data ab True buf count f a s) (\<lambda>s.
                            let (sync_buf, s) = sys_malloc_obj s in
                            if sync_buf = 0 then Inr (-1, s)
                            else bindE (inode_sync (core s a) s) (\<lambda>s. Inr (sint count, s))))))))))"

end
