(* ===== verification/FileRead.thy ===== *)
theory FileRead
  imports File
begin

text \<open>
  What \<^verbatim>\<open>file_read\<close> delivers. The blocks of a file are the twelve direct ones and those of the indirect
  block; byte \<open>p\<close> of a file is byte \<open>p mod 512\<close> of block \<open>p div 512\<close>.
\<close>

section \<open>The bytes of a file\<close>

definition file_byte :: "u32 list \<Rightarrow> fsys \<Rightarrow> nat \<Rightarrow> u8" where
  "file_byte bl s p = sects s (unat (bl ! (p div 512))) ! (p mod 512)"

definition file_blocks :: "inode \<Rightarrow> fsys \<Rightarrow> u32 list" where
  "file_blocks i s = take 12 (i_sectors i) @ words_of (sects s (unat (i_sectors i ! 12)))"

definition file_bytes :: "inode \<Rightarrow> fsys \<Rightarrow> nat \<Rightarrow> nat \<Rightarrow> u8 list" where
  "file_bytes i s p n = map (file_byte (file_blocks i s) s) [p..<p + n]"

lemma length_words_of: "length (words_of bs) = length bs div 4"
  by (induction bs rule: words_of.induct) simp_all

lemma sint_small: "unat (w :: u32) < 2 ^ 31 \<Longrightarrow> sint w = int (unat w)"
proof -
  assume "unat w < 2 ^ 31"
  then have "int (unat w) < int (2 ^ 31)" by (rule of_nat_less_iff [THEN iffD2])
  then have "uint w < 2 ^ 31" by simp
  moreover have "- (2 ^ 31) \<le> uint w" by (rule order_trans [of _ 0]) simp_all
  ultimately have "signed_take_bit 31 (uint w) = uint w" by (intro signed_take_bit_int_eq_self)
  then show ?thesis by (simp add: sint_uint)
qed

lemma dread_one: "unat lba \<le> 163839 \<Longrightarrow> dread lba (Suc 0) s = Inr (sects s (unat lba))"
  by (simp add: dread_def last_start_def sectors_def)

section \<open>The data loop\<close>

lemma chunk_end:
  assumes "unat pos + unat n < 2 ^ 32"
  shows "unat (pos + chunk_size pos n) = unat pos + unat (chunk_size pos n)"
    "unat (n - chunk_size pos n) = unat n - unat (chunk_size pos n)"
proof -
  have "unat (chunk_size pos n) \<le> unat n" by (simp add: unat_chunk)
  then show "unat (pos + chunk_size pos n) = unat pos + unat (chunk_size pos n)"
    "unat (n - chunk_size pos n) = unat n - unat (chunk_size pos n)"
    using assms by (auto intro!: unat_add_u32 unat_sub simp: word_le_nat_alt)
qed

lemma chunk_in_block:
  assumes "q < (c :: nat)" "c \<le> 512 - p mod 512"
  shows "(p + q) div 512 = p div 512" "(p + q) mod 512 = p mod 512 + q"
proof -
  have "p mod 512 < 512" by simp
  with assms have "p mod 512 + q < 512" by simp
  moreover have "p + q = p div 512 * 512 + (p mod 512 + q)" by simp
  ultimately show "(p + q) div 512 = p div 512" "(p + q) mod 512 = p mod 512 + q"
    by (metis add.commute div_mult_self3 div_less add_0 zero_neq_numeral, metis mod_less mod_mult_self3)
qed

lemma chunk_bytes:
  assumes "full (sects s)" "c \<le> 512 - p mod 512"
  shows "take c (drop (p mod 512) (sects s (unat (ab ! (p div 512))))) = map (file_byte ab s) [p..<p + c]"
proof (rule nth_equalityI)
  have "p mod 512 < 512" by simp
  then have l: "p mod 512 + c \<le> 512" using assms(2) by simp
  have full: "length (sects s (unat (ab ! (p div 512)))) = 512" using assms(1) by (simp add: full_def)
  show "length (take c (drop (p mod 512) (sects s (unat (ab ! (p div 512)))))) = length (map (file_byte ab s) [p..<p + c])"
    using l full by simp
  fix q assume "q < length (take c (drop (p mod 512) (sects s (unat (ab ! (p div 512))))))"
  then have q: "q < c" by simp
  show "take c (drop (p mod 512) (sects s (unat (ab ! (p div 512))))) ! q = map (file_byte ab s) [p..<p + c] ! q"
    using q l full chunk_in_block [OF q assms(2)] by (simp add: file_byte_def)
qed

lemma read_data_ok:
  assumes "full (sects s)" "unat pos + unat n < 2 ^ 32"
    "\<And>k. unat pos div 512 \<le> k \<Longrightarrow> 512 * k < unat pos + unat n \<Longrightarrow> k < length ab \<and> unat (ab ! k) \<le> 163839"
  shows "read_data ab pos n s = Inr (map (file_byte ab s) [unat pos..<unat pos + unat n], pos + n)"
  using assms(2,3)
proof (induction "unat n" arbitrary: pos n rule: less_induct)
  case less
  show ?case
  proof (cases "n = 0")
    case True
    then show ?thesis by (subst read_data.simps) simp
  next
    case False
    then have n: "n > 0" "0 < unat n" by (simp_all add: word_gt_0 unat_gt_0)
    let ?c = "chunk_size pos n"
    have c: "unat ?c = min (unat n) (512 - unat pos mod 512)" by (rule unat_chunk)
    note e = chunk_end [OF less.prems(1)]
    have pd: "unat pos div 512 * 512 + unat pos mod 512 = unat pos" by (rule div_mult_mod_eq)
    have k: "unat pos div 512 < length ab" "unat (ab ! (unat pos div 512)) \<le> 163839"
      using less.prems(2) [of "unat pos div 512"] pd n(2) by auto
    have rec: "read_data ab (pos + ?c) (n - ?c) s =
        Inr (map (file_byte ab s) [unat pos + unat ?c..<unat pos + unat n], pos + ?c + (n - ?c))"
    proof -
      have le: "unat ?c \<le> unat n" by (simp add: c)
      then have s1: "unat (pos + ?c) + unat (n - ?c) = unat pos + unat n" by (simp add: e)
      have "unat pos div 512 \<le> unat (pos + ?c) div 512" by (simp add: e div_le_mono)
      then have "\<And>k. unat (pos + ?c) div 512 \<le> k \<Longrightarrow> 512 * k < unat (pos + ?c) + unat (n - ?c) \<Longrightarrow>
          k < length ab \<and> unat (ab ! k) \<le> 163839"
        unfolding s1 using less.prems(2) le_trans by blast
      then show ?thesis
        using less.hyps [of "n - ?c" "pos + ?c"] chunk_progress [OF n(1), of pos] less.prems(1) s1 e le by simp
    qed
    have "take (unat ?c) (drop (unat (pos mod 512)) (sects s (unat (ab ! unat (pos div 512))))) =
        map (file_byte ab s) [unat pos..<unat pos + unat ?c]"
      using chunk_bytes [OF assms(1), of "unat ?c" "unat pos" ab] by (simp add: c unat_mod unat_div)
    moreover have "[unat pos..<unat pos + unat n] =
        [unat pos..<unat pos + unat ?c] @ [unat pos + unat ?c..<unat pos + unat n]"
      using upt_add_eq_append [of "unat pos" "unat pos + unat ?c" "unat n - unat ?c"] by (simp add: c)
    ultimately show ?thesis
      by (subst read_data.simps) (use n k rec in \<open>simp add: Let_def unat_div dread_one\<close>)
  qed
qed

section \<open>The block numbers\<close>

lemma copy_blocks_spec:
  "length (copy_blocks ks sec ab) = length ab \<and>
   (\<forall>j<length ab. copy_blocks ks sec ab ! j = (if j \<in> set ks then sec ! j else ab ! j))"
  by (induction ks arbitrary: ab) (auto simp: nth_list_update)

text \<open>What a file's inode must satisfy for a read from block \<open>start\<close> to block \<open>fin\<close>.\<close>

definition blocks_readable :: "nat \<Rightarrow> nat \<Rightarrow> inode \<Rightarrow> fsys \<Rightarrow> bool" where
  "blocks_readable start fin i s \<longleftrightarrow>
     full (sects s) \<and> length (i_sectors i) = 13 \<and> fin < 139 \<and>
     (fin \<ge> 12 \<longrightarrow> i_sectors i ! 12 \<noteq> 0 \<and> unat (i_sectors i ! 12) \<le> 163839) \<and>
     (\<forall>k\<in>{start..fin}. unat (file_blocks i s ! k) \<le> 163839)"

lemma nth_file_blocks:
  assumes "length (i_sectors i) = 13"
  shows "k < 12 \<Longrightarrow> file_blocks i s ! k = i_sectors i ! k"
    "12 \<le> k \<Longrightarrow> file_blocks i s ! k = words_of (sects s (unat (i_sectors i ! 12))) ! (k - 12)"
  using assms by (simp_all add: file_blocks_def nth_append)

lemma load_indirect_ok:
  assumes "unat tab \<le> 163839" "length ab = 140" "full (sects s)"
  shows "\<exists>ab'. load_indirect tab ab s = Inr ab' \<and> length ab' = 140 \<and> take 12 ab' = take 12 ab \<and>
    drop 12 ab' = words_of (sects s (unat tab))"
  using assms by (simp add: load_indirect_def dread_one length_words_of full_def)

lemma nth_take_drop:
  assumes "length ab = 140" "k < 140"
  shows "k < 12 \<Longrightarrow> ab ! k = take 12 ab ! k" "12 \<le> k \<Longrightarrow> ab ! k = drop 12 ab ! (k - 12)"
  using assms by simp_all

lemma read_blocks_ok:
  assumes "blocks_readable start fin i s" "start \<le> fin" "\<not> (start < 12 \<and> fin = 12)"
  shows "\<exists>ab. read_blocks start fin (i_sectors i) s = Inr ab \<and> length ab = 140 \<and>
    (\<forall>k\<in>{start..fin}. ab ! k = file_blocks i s ! k)"
proof (cases "fin < 12")
  case True
  have "length (i_sectors i) = 13" using assms(1) by (simp add: blocks_readable_def)
  then show ?thesis
    using True assms(2) copy_blocks_spec [of "[start..<Suc fin]" "i_sectors i" "replicate 140 0"]
    by (auto simp: read_blocks_def Let_def nth_file_blocks)
next
  case False
  have i: "length (i_sectors i) = 13" "full (sects s)" "i_sectors i ! 12 \<noteq> 0" "unat (i_sectors i ! 12) \<le> 163839" "fin < 139"
    using assms(1) False by (auto simp: blocks_readable_def)
  let ?ab = "if start < 12 then copy_blocks [start..<13] (i_sectors i) (replicate 140 0) else replicate 140 0"
  have len: "length ?ab = 140" using copy_blocks_spec [of "[start..<13]" "i_sectors i" "replicate 140 0"] by simp
  obtain ab where ab: "load_indirect (i_sectors i ! 12) ?ab s = Inr ab" "length ab = 140" "take 12 ab = take 12 ?ab"
      "drop 12 ab = words_of (sects s (unat (i_sectors i ! 12)))"
    using load_indirect_ok [OF i(4) len i(2)] by blast
  have "read_blocks start fin (i_sectors i) s = Inr ab"
    using ab(1) False assms(2,3) i(3) by (auto simp: read_blocks_def Let_def)
  moreover have "ab ! k = file_blocks i s ! k" if "k \<in> {start..fin}" for k
  proof (cases "k < 12")
    case True
    then have "ab ! k = ?ab ! k" using nth_take_drop(1) [OF ab(2) _ True] ab(3) by simp
    then show ?thesis
      using True that copy_blocks_spec [of "[start..<13]" "i_sectors i" "replicate 140 0"] i(1)
      by (auto simp: nth_file_blocks)
  next
    case False
    then show ?thesis
      using nth_take_drop(2) [OF ab(2), of k] ab(4) that i(1,5) by (simp add: nth_file_blocks)
  qed
  ultimately show ?thesis using ab(2) by blast
qed

section \<open>Reading a file\<close>

definition read_size :: "kfile \<Rightarrow> inode \<Rightarrow> u32 \<Rightarrow> nat" where
  "read_size fl i count = min (unat count) (unat (i_size i) - unat (fd_pos fl))"

lemma file_read_size:
  assumes "fd_pos fl \<le> i_size i" "unat (fd_pos fl) + unat count < 2 ^ 32"
  shows "unat (if fd_pos fl + count > i_size i then i_size i - fd_pos fl else count) = read_size fl i count"
  using assms unat_add_u32 [OF assms(2)] unat_sub [of "fd_pos fl" "i_size i"]
  by (auto simp: read_size_def word_less_nat_alt word_le_nat_alt)

text \<open>The situation of a read: \<open>i\<close> is the inode of the open file \<open>fl\<close>, both buffers can be allocated, the
  position lies in the file and the sum of position and count does not wrap.\<close>

definition read_ready :: "nat \<Rightarrow> u32 \<Rightarrow> inode \<Rightarrow> kfile \<Rightarrow> fsys \<Rightarrow> bool" where
  "read_ready f count i fl s \<longleftrightarrow>
     f < length (file_table s) \<and> fl = file_table s ! f \<and> i = core s (fd_inode fl) \<and>
     heap s (heap_n s) \<noteq> 0 \<and> heap s (heap_n s + 1) \<noteq> 0 \<and>
     fd_pos fl \<le> i_size i \<and> unat (fd_pos fl) + unat count < 2 ^ 32"

definition start_block :: "kfile \<Rightarrow> nat" where
  "start_block fl = unat (fd_pos fl) div 512"

definition end_block :: "kfile \<Rightarrow> inode \<Rightarrow> u32 \<Rightarrow> nat" where
  "end_block fl i count = (unat (fd_pos fl) + read_size fl i count) div 512"

lemma start_le_end: "start_block fl \<le> end_block fl i count"
  by (simp add: start_block_def end_block_def div_le_mono)

text \<open>The result in terms of the block numbers gathered.\<close>

lemma file_read_gathered:
  assumes "read_ready f count i fl s" "\<not> (fd_pos fl = i_size i \<and> count > 0)"
    "blocks_readable (start_block fl) (end_block fl i count) i s"
    "read_blocks (start_block fl) (end_block fl i count) (i_sectors i) (s\<lparr>heap_n := heap_n s + 2\<rparr>) = Inr ab"
    "length ab = 140" "\<And>k. k \<in> {start_block fl..end_block fl i count} \<Longrightarrow> unat (ab ! k) \<le> 163839"
  shows "file_read f count s = Inr (int (read_size fl i count),
    map (file_byte ab s) [unat (fd_pos fl)..<unat (fd_pos fl) + read_size fl i count],
    set_file f (\<lambda>fl. fl\<lparr>fd_pos := fd_pos fl + of_nat (read_size fl i count)\<rparr>) (s\<lparr>heap_n := heap_n s + 2\<rparr>))"
proof -
  let ?s = "s\<lparr>heap_n := Suc (Suc (heap_n s))\<rparr>"
  define sz where "sz = (if fd_pos fl + count > i_size i then i_size i - fd_pos fl else count)"
  have fl: "fl = file_table s ! f" "i = core s (fd_inode fl)" "fd_pos fl \<le> i_size i"
    "unat (fd_pos fl) + unat count < 2 ^ 32" "heap s (heap_n s) \<noteq> 0" "heap s (Suc (heap_n s)) \<noteq> 0"
    using assms(1) by (auto simp: read_ready_def)
  have sz: "unat sz = read_size fl i count" unfolding sz_def by (rule file_read_size) (fact fl)+
  have sum: "unat (fd_pos fl) + unat sz < 2 ^ 32" using fl(4) sz by (simp add: read_size_def)
  have fin: "end_block fl i count < 139" using assms(3) by (simp add: blocks_readable_def)
  then have small: "unat sz < 2 ^ 31" by (simp add: end_block_def sz)
  have ends: "unat (fd_pos fl div 512) = start_block fl" "unat ((fd_pos fl + sz) div 512) = end_block fl i count"
    using unat_add_u32 [OF sum] sz by (simp_all add: unat_div start_block_def end_block_def)
  have asr: "fd_pos fl div 512 < 139 \<and> (fd_pos fl + sz) div 512 < 139"
    using ends fin start_le_end [of fl i count] by (simp add: word_less_nat_alt)
  have nz: "\<not> (fd_pos fl + count > i_size i \<and> sz = 0)"
  proof
    assume over: "fd_pos fl + count > i_size i \<and> sz = 0"
    then have "fd_pos fl = i_size i" by (auto simp: sz_def)
    then show False using over assms(2) by (cases "count = 0") (auto simp: word_gt_0)
  qed
  have rd: "read_data ab (fd_pos fl) sz ?s =
      Inr (map (file_byte ab ?s) [unat (fd_pos fl)..<unat (fd_pos fl) + unat sz], fd_pos fl + sz)"
  proof (rule read_data_ok)
    fix j assume "unat (fd_pos fl) div 512 \<le> j" "512 * j < unat (fd_pos fl) + unat sz"
    then have "j \<in> {start_block fl..end_block fl i count}"
      by (simp add: start_block_def end_block_def sz less_eq_div_iff_mult_less_eq)
    then show "j < length ab \<and> unat (ab ! j) \<le> 163839" using assms(5,6) fin by auto
  qed (use sum assms(3) in \<open>simp_all add: blocks_readable_def\<close>)
  have mal: "sys_malloc_obj s = (heap s (heap_n s), s\<lparr>heap_n := Suc (heap_n s)\<rparr>)"
    "sys_malloc_obj (s\<lparr>heap_n := Suc (heap_n s)\<rparr>) = (heap s (Suc (heap_n s)), ?s)"
    by (simp_all add: sys_malloc_obj_def)
  have "file_read f count s = Inr (sint sz, map (file_byte ab ?s) [unat (fd_pos fl)..<unat (fd_pos fl) + unat sz],
      set_file f (\<lambda>fl. fl\<lparr>fd_pos := fd_pos (file_table s ! f) + sz\<rparr>) ?s)"
    unfolding file_read_def Let_def fl(1) [symmetric] fl(2) [symmetric] sz_def [symmetric]
    using nz fl(5,6) assms(4) by (simp add: mal asr ends rd)
  moreover have "file_byte ab ?s = file_byte ab s" by (simp add: file_byte_def fun_eq_iff)
  moreover have "sz = of_nat (read_size fl i count)" using sz by (simp flip: sz)
  moreover have "sint sz = int (read_size fl i count)" using sint_small [OF small] sz by (simp only:)
  ultimately show ?thesis using sz fl(1) by (simp add: set_file_def)
qed

lemma file_read_eq:
  assumes "read_ready f count i fl s" "blocks_readable (start_block fl) (end_block fl i count) i s"
    "\<not> (start_block fl < 12 \<and> end_block fl i count = 12)"
  shows "file_read f count s =
    (if fd_pos fl = i_size i \<and> count > 0 then Inr (-1, [], s)
     else Inr (int (read_size fl i count), file_bytes i s (unat (fd_pos fl)) (read_size fl i count),
            set_file f (\<lambda>fl. fl\<lparr>fd_pos := fd_pos fl + of_nat (read_size fl i count)\<rparr>) (s\<lparr>heap_n := heap_n s + 2\<rparr>)))"
proof (cases "fd_pos fl = i_size i \<and> count > 0")
  case True
  have fl: "fl = file_table s ! f" "i = core s (fd_inode fl)" "unat (fd_pos fl) + unat count < 2 ^ 32"
    using assms(1) by (auto simp: read_ready_def)
  then have "unat (fd_pos fl + count) > unat (i_size i)"
    using unat_add_u32 [OF fl(3)] True by (simp add: word_less_nat_alt)
  then have "fd_pos fl + count > i_size i" by (simp add: word_less_nat_alt)
  then show ?thesis using True fl(1,2) by (simp add: file_read_def Let_def)
next
  case False
  let ?s = "s\<lparr>heap_n := heap_n s + 2\<rparr>"
  have rb: "blocks_readable (start_block fl) (end_block fl i count) i ?s"
    using assms(2) by (simp add: blocks_readable_def file_blocks_def)
  then obtain ab where ab: "read_blocks (start_block fl) (end_block fl i count) (i_sectors i) ?s = Inr ab" "length ab = 140"
      "\<And>k. k \<in> {start_block fl..end_block fl i count} \<Longrightarrow> ab ! k = file_blocks i ?s ! k"
    using read_blocks_ok [OF rb start_le_end assms(3)] by blast
  have "file_byte ab s p = file_byte (file_blocks i s) s p"
    if "p \<in> set [unat (fd_pos fl)..<unat (fd_pos fl) + read_size fl i count]" for p
  proof -
    have "p div 512 \<in> {start_block fl..end_block fl i count}"
      using that by (simp add: start_block_def end_block_def div_le_mono)
    then show ?thesis using ab(3) by (simp add: file_byte_def file_blocks_def)
  qed
  then have "map (file_byte ab s) [unat (fd_pos fl)..<unat (fd_pos fl) + read_size fl i count] =
      file_bytes i s (unat (fd_pos fl)) (read_size fl i count)"
    unfolding file_bytes_def by (rule map_cong [OF refl])
  moreover have "unat (ab ! k) \<le> 163839" if "k \<in> {start_block fl..end_block fl i count}" for k
    using ab(3) [OF that] rb that by (simp add: blocks_readable_def)
  ultimately show ?thesis using file_read_gathered [OF assms(1) False assms(2) ab(1,2)] False by simp
qed

text \<open>C15: A read from position \<open>pos\<close> of a file of \<open>i_size\<close> bytes returns the bytes of the file from there on,
  as many as asked for or as there are, and advances the position by their number; at the end of the
  file it returns -1. Excluded is a read that starts in a direct block and ends in block 12, the first indirect one,
  for which the code returns other bytes.\<close>

theorem file_read_bytes:
  assumes "read_ready f count i fl s" "blocks_readable (start_block fl) (end_block fl i count) i s"
    "\<not> (start_block fl < 12 \<and> end_block fl i count = 12)"
  shows "file_read f count s =
    (if fd_pos fl = i_size i \<and> count > 0 then Inr (-1, [], s)
     else Inr (int (read_size fl i count), file_bytes i s (unat (fd_pos fl)) (read_size fl i count),
            set_file f (\<lambda>fl. fl\<lparr>fd_pos := fd_pos fl + of_nat (read_size fl i count)\<rparr>) (s\<lparr>heap_n := heap_n s + 2\<rparr>)))"
  using assms by (rule file_read_eq)

text \<open>A drive whose sectors hold their own number, with a file of 7000 bytes in the sectors from 713 on and the
  indirect block in sector 900, open in slot 3.\<close>

definition demo_sects :: "nat \<Rightarrow> u8 list" where
  "demo_sects n = (if n = 900 then bytes_of (map (\<lambda>k. 725 + of_nat k) [0..<128]) else replicate 512 (of_nat n))"

definition demo_file :: inode where
  "demo_file = \<lparr>i_no = 5, i_size = 7000, i_open_cnts = 1, write_deny = False,
     i_sectors = map (\<lambda>k. 713 + of_nat k) [0..<12] @ [900]\<rparr>"

definition read_demo :: "u32 \<Rightarrow> fsys" where
  "read_demo pos = demo_fs\<lparr>sects := demo_sects, core := (\<lambda>_. demo_file),
     file_table := (replicate 32 \<lparr>fd_pos = 0, fd_flag = 0, fd_inode = 0\<rparr>)[3 := \<lparr>fd_pos = pos, fd_flag = 0, fd_inode = 0xc0200000\<rparr>]\<rparr>"

lemma full_demo: "full demo_sects"
  by (simp add: full_def demo_sects_def)

lemma demo_block: "k < 140 \<Longrightarrow> file_blocks demo_file (read_demo pos) ! k = 713 + of_nat k"
  by (simp add: file_blocks_def demo_file_def read_demo_def demo_sects_def nth_append)

lemma unat_demo_block: "k < 140 \<Longrightarrow> unat (713 + of_nat k :: u32) = 713 + k"
  by (subst unat_add_u32) (simp_all add: unat_of_nat)

lemma demo_byte:
  assumes "p < 7000"
  shows "file_byte (file_blocks demo_file (read_demo pos)) (read_demo pos) p = of_nat (713 + p div 512)"
proof -
  have k: "p div 512 < 14" using assms by simp
  then have "sects (read_demo pos) (713 + p div 512) = replicate 512 (of_nat (713 + p div 512))"
    by (simp add: read_demo_def demo_sects_def)
  then show ?thesis using k demo_block [of "p div 512" pos] unat_demo_block [of "p div 512"]
    by (simp add: file_byte_def)
qed

lemma demo_table: "length (i_sectors demo_file) = 13" "i_sectors demo_file ! 12 = 900"
  by (simp_all add: demo_file_def nth_append)

lemma demo_readable: "fin < 139 \<Longrightarrow> blocks_readable start fin demo_file (read_demo pos)"
proof -
  assume "fin < 139"
  then have "unat (file_blocks demo_file (read_demo pos) ! k) \<le> 163839" if "k \<in> {start..fin}" for k
    using that demo_block [of k pos] unat_demo_block [of k] by simp
  then show ?thesis using \<open>fin < 139\<close> full_demo demo_table
    by (simp add: blocks_readable_def) (simp add: read_demo_def)
qed

lemma demo_ready: "unat pos + unat count < 2 ^ 32 \<Longrightarrow> pos \<le> 7000 \<Longrightarrow>
    read_ready 3 count demo_file \<lparr>fd_pos = pos, fd_flag = 0, fd_inode = 0xc0200000\<rparr> (read_demo pos)"
  by (simp add: read_ready_def read_demo_def demo_fs_def demo_file_def)

theorem file_read_bytes_witness:
  "\<exists>t. file_read 3 8 (read_demo 1020) = Inr (8, [202, 202, 202, 202, 203, 203, 203, 203], t)"
proof -
  let ?fl = "\<lparr>fd_pos = 1020, fd_flag = 0, fd_inode = 0xc0200000\<rparr>"
  have "read_size ?fl demo_file 8 = 8" "start_block ?fl = 1" "end_block ?fl demo_file 8 = 2"
    by (simp_all add: read_size_def start_block_def end_block_def demo_file_def)
  then have "\<exists>t. file_read 3 8 (read_demo 1020) = Inr (8, file_bytes demo_file (read_demo 1020) 1020 8, t)"
    using file_read_bytes [OF demo_ready [of 1020 8] demo_readable] by (auto simp: demo_file_def)
  moreover have "file_bytes demo_file (read_demo 1020) 1020 8 = [202, 202, 202, 202, 203, 203, 203, 203]"
    by (simp add: file_bytes_def demo_byte)
  ultimately show ?thesis by simp
qed

text \<open>C33: A read that starts in a direct block and ends in block 12 returns, for every byte that lies in a
  direct block, the byte of sector 0 of the drive at the same offset: the direct block
  numbers are not gathered in this case.\<close>

theorem file_read_crossing:
  assumes "read_ready f count i fl s" "blocks_readable (start_block fl) (end_block fl i count) i s"
    "start_block fl < 12" "end_block fl i count = 12"
  shows "\<exists>bs t. file_read f count s = Inr (int (read_size fl i count), bs, t) \<and> length bs = read_size fl i count \<and>
    (\<forall>q<read_size fl i count. unat (fd_pos fl) + q < 12 * 512 \<longrightarrow> bs ! q = sects s 0 ! ((unat (fd_pos fl) + q) mod 512))"
proof -
  let ?s = "s\<lparr>heap_n := heap_n s + 2\<rparr>" and ?p = "unat (fd_pos fl)"
  have i: "full (sects s)" "i_sectors i ! 12 \<noteq> 0" "unat (i_sectors i ! 12) \<le> 163839" "length (i_sectors i) = 13"
    "\<And>k. k \<in> {start_block fl..12} \<Longrightarrow> unat (file_blocks i s ! k) \<le> 163839"
    using assms(2,4) by (simp_all add: blocks_readable_def)
  have neq: "\<not> (fd_pos fl = i_size i \<and> count > 0)"
  proof
    assume "fd_pos fl = i_size i \<and> count > 0"
    then have "read_size fl i count = 0" by (simp add: read_size_def)
    then show False using assms(3,4) by (simp add: start_block_def end_block_def)
  qed
  obtain ab where ab: "load_indirect (i_sectors i ! 12) (replicate 140 0) ?s = Inr ab" "length ab = 140"
      "take 12 ab = take 12 (replicate 140 0)" "drop 12 ab = words_of (sects ?s (unat (i_sectors i ! 12)))"
    using load_indirect_ok [OF i(3), of "replicate 140 0" ?s] i(1) by auto
  have low: "ab ! k = 0" if "k < 12" for k using nth_take_drop(1) [OF ab(2) _ that] ab(3) that by simp
  have "read_blocks (start_block fl) (end_block fl i count) (i_sectors i) ?s = Inr ab"
    using ab(1) assms(3,4) i(2) by (simp add: read_blocks_def Let_def)
  moreover have "unat (ab ! k) \<le> 163839" if "k \<in> {start_block fl..end_block fl i count}" for k
  proof (cases "k < 12")
    case False
    then have "k = 12" using that assms(4) by simp
    then show ?thesis
      using i(5) [of 12] assms(3) nth_take_drop(2) [OF ab(2), of 12] ab(4) i(4) by (simp add: nth_file_blocks)
  qed (simp add: low)
  ultimately have "file_read f count s = Inr (int (read_size fl i count),
      map (file_byte ab s) [?p..<?p + read_size fl i count],
      set_file f (\<lambda>fl. fl\<lparr>fd_pos := fd_pos fl + of_nat (read_size fl i count)\<rparr>) ?s)"
    by (rule file_read_gathered [OF assms(1) neq assms(2) _ ab(2)])
  moreover have "map (file_byte ab s) [?p..<?p + read_size fl i count] ! q = sects s 0 ! ((?p + q) mod 512)"
    if "q < read_size fl i count" "?p + q < 12 * 512" for q
    using that low [of "(?p + q) div 512"] by (simp add: file_byte_def)
  ultimately show ?thesis by auto
qed

theorem file_read_crossing_witness:
  "\<exists>bs t. file_read 3 600 (read_demo 5632) = Inr (600, bs, t) \<and> bs ! 0 = 0 \<and>
     file_byte (file_blocks demo_file (read_demo 5632)) (read_demo 5632) 5632 = 212"
proof -
  let ?fl = "\<lparr>fd_pos = 5632, fd_flag = 0, fd_inode = 0xc0200000\<rparr>"
  have c: "read_size ?fl demo_file 600 = 600" "start_block ?fl = 11" "end_block ?fl demo_file 600 = 12"
    by (simp_all add: read_size_def start_block_def end_block_def demo_file_def)
  obtain bs t where "file_read 3 600 (read_demo 5632) = Inr (600, bs, t)"
      "\<forall>q<600. 5632 + q < 12 * 512 \<longrightarrow> bs ! q = sects (read_demo 5632) 0 ! ((5632 + q) mod 512)"
    using file_read_crossing [OF demo_ready [of 5632 600] demo_readable] c by auto
  moreover have "sects (read_demo 5632) 0 ! 0 = 0" by (simp add: read_demo_def demo_sects_def)
  moreover have "file_byte (file_blocks demo_file (read_demo 5632)) (read_demo 5632) 5632 = 212"
    using demo_byte [of 5632 5632] by simp
  ultimately show ?thesis by auto
qed

end
