(* ===== verification/FileWrite.thy ===== *)
theory FileWrite
  imports FileRead
begin

text \<open>
  What \<^verbatim>\<open>file_write\<close> does: it appends. The areas of a partition (block bitmap, inode table, data) do not
  overlap, a file owns blocks that the bitmap marks as used, and blocks allocated for a write are new;
  so the old bytes of the file, the files beside it and the inode table stay as they are.
\<close>

section \<open>Partitions\<close>

abbreviation data_start :: "fsys \<Rightarrow> nat" where
  "data_start s \<equiv> unat (data_start_lba (sb s))"

definition layout :: "fsys \<Rightarrow> bool" where
  "layout s \<longleftrightarrow>
     table_ok s \<and> bm_wf (block_bitmap s) \<and> bm_used (block_bitmap s) 0 \<and> 512 dvd unat (btmp_bytes_len (block_bitmap s)) \<and>
     0 < unat (btmp_bytes_len (block_bitmap s)) \<and>
     unat (block_bitmap_lba (sb s)) + unat (btmp_bytes_len (block_bitmap s)) div 512 \<le> unat (inode_table_lba (sb s)) \<and>
     unat (inode_table_lba (sb s)) + 609 \<le> data_start s + 1 \<and>
     data_start s + bm_cap (block_bitmap s) \<le> 163840"

definition allocated :: "fsys \<Rightarrow> u32 \<Rightarrow> bool" where
  "allocated s b \<longleftrightarrow> data_start s < unat b \<and> unat b - data_start s < bm_cap (block_bitmap s) \<and>
     bm_used (block_bitmap s) (unat b - data_start s)"

text \<open>The number of free blocks.\<close>

definition free_blocks :: "fsys \<Rightarrow> nat" where
  "free_blocks s = card {j. j < bm_cap (block_bitmap s) \<and> \<not> bm_used (block_bitmap s) j}"

text \<open>What the allocation of blocks leaves alone.\<close>

definition meta :: "fsys \<Rightarrow> _" where
  "meta s = (sb s, part_start s, part_cnt s, inode_bitmap s, open_inode s, heap s, heap_n s, file_table s, fd_table s)"

text \<open>\<open>t\<close> comes from \<open>s\<close> by allocating the blocks \<open>bs\<close>: nothing else changes but sectors below the inode
  table and inodes in memory.\<close>

definition takes :: "u32 list \<Rightarrow> fsys \<Rightarrow> fsys \<Rightarrow> bool" where
  "takes bs s t \<longleftrightarrow>
     layout t \<and> meta t = meta s \<and>
     (\<forall>m\<ge>unat (inode_table_lba (sb s)). sects t m = sects s m) \<and>
     distinct bs \<and> (\<forall>b. allocated t b \<longleftrightarrow> allocated s b \<or> b \<in> set bs) \<and> (\<forall>b\<in>set bs. \<not> allocated s b) \<and>
     free_blocks s = free_blocks t + length bs"

lemma layout_full [dest]: "layout s \<Longrightarrow> full (sects s)"
  by (simp add: layout_def table_ok_def)

lemma allocated_low: "layout s \<Longrightarrow> allocated s b \<Longrightarrow> unat b \<le> 163839"
  by (auto simp: layout_def allocated_def)

lemma allocated_high: "layout s \<Longrightarrow> allocated s b \<Longrightarrow> unat (inode_table_lba (sb s)) + 609 \<le> unat b"
  by (auto simp: layout_def allocated_def)

lemma allocated_nz: "allocated s b \<Longrightarrow> b \<noteq> 0"
  by (auto simp: allocated_def)

lemma takes_refl: "layout s \<Longrightarrow> takes [] s s"
  by (simp add: takes_def)

lemma takes_sb: "takes bs s t \<Longrightarrow> sb t = sb s"
  by (simp add: takes_def meta_def)

lemma takes_trans:
  assumes "takes bs s t" "takes cs t u"
  shows "takes (bs @ cs) s u"
  using assms takes_sb [OF assms(1)] unfolding takes_def by (intro conjI) auto

section \<open>Allocating a block\<close>

lemma alloc_block:
  assumes "layout s" "free_blocks s > 0"
  shows "\<exists>b t. block_bitmap_alloc s = Inr (int (unat b), t) \<and> takes [b] s t \<and> core t = core s \<and>
    unat (b - data_start_lba (sb s)) = unat b - data_start s \<and> unat b < 2 ^ 31"
proof -
  have l: "bm_wf (block_bitmap s)" "bm_used (block_bitmap s) 0" "data_start s + bm_cap (block_bitmap s) \<le> 163840"
    using assms(1) by (auto simp: layout_def)
  have "\<exists>j<bm_cap (block_bitmap s). \<not> bm_used (block_bitmap s) j"
    using assms(2) unfolding free_blocks_def by (metis (mono_tags, lifting) card_gt_0_iff empty_Collect_eq)
  then obtain f b' where f: "f < bm_cap (block_bitmap s)" "\<not> bm_used (block_bitmap s) f"
      "bitmap_scan (block_bitmap s) 1 = Inr (int f)" "bitmap_set (block_bitmap s) f 1 = Inr b'"
      "bm_wf b'" "bm_cap b' = bm_cap (block_bitmap s)" "bm_used b' = (bm_used (block_bitmap s))(f := True)"
    using bm.alloc_one [OF l(1)] by blast
  have f0: "f \<noteq> 0" using f(2) l(2) by metis
  define b where "b = data_start_lba (sb s) + of_nat f"
  have ub: "unat b = data_start s + f"
    unfolding b_def using f(1) l(3) by (subst unat_add_u32) (simp_all add: unat_of_nat)
  let ?t = "s\<lparr>block_bitmap := b'\<rparr>"
  have "sint b = int (unat b)" by (rule sint_small) (use ub f(1) l(3) in simp)
  then have al: "block_bitmap_alloc s = Inr (int (unat b), ?t)"
    using f(3,4) by (simp add: block_bitmap_alloc_def b_def)
  have "unat (btmp_bytes_len b') = unat (btmp_bytes_len (block_bitmap s))" using f(6) by (simp add: bm_cap_def)
  then have lt: "layout ?t" using assms(1) f(5-7) by (simp add: layout_def table_ok_def)
  have "allocated ?t c \<longleftrightarrow> allocated s c \<or> c = b" for c
    using ub f f0 by (auto simp: allocated_def word_unat_eq_iff)
  moreover have "\<not> allocated s b" using ub f(2) by (simp add: allocated_def)
  moreover have "free_blocks s = free_blocks ?t + 1"
  proof -
    have "{j. j < bm_cap (block_bitmap s) \<and> \<not> bm_used (block_bitmap s) j} =
        insert f {j. j < bm_cap b' \<and> \<not> bm_used b' j}" using f by auto
    then show ?thesis using f(7) by (simp add: free_blocks_def)
  qed
  ultimately have "takes [b] s ?t" using lt by (simp add: takes_def meta_def)
  moreover have "unat (b - data_start_lba (sb s)) = unat b - data_start s" by (rule unat_sub) (simp add: word_le_nat_alt ub)
  moreover have "unat b < 2 ^ 31" "core ?t = core s" using ub f(1) l(3) by simp_all
  ultimately show ?thesis using al by blast
qed

lemma sync_range:
  assumes "layout s" "data_start s < unat b" "unat b - data_start s < bm_cap (block_bitmap s)"
  shows "\<exists>t. bitmap_sync (b - data_start_lba (sb s)) BLOCK_BITMAP s = Inr t \<and> takes [] s t \<and> core t = core s"
proof -
  let ?idx = "b - data_start_lba (sb s)" and ?b = "block_bitmap s"
  let ?q = "unat ?idx div 4096"
  have ui: "unat ?idx = unat b - data_start s" by (rule unat_sub) (use assms(2) in \<open>simp add: word_le_nat_alt\<close>)
  have l: "bm_wf ?b" "512 dvd unat (btmp_bytes_len ?b)" "data_start s + bm_cap ?b \<le> 163840"
      "unat (block_bitmap_lba (sb s)) + unat (btmp_bytes_len ?b) div 512 \<le> unat (inode_table_lba (sb s))"
      "unat (inode_table_lba (sb s)) + 609 \<le> 163839"
    using assms(1) by (auto simp: layout_def table_ok_def)
  obtain m where m: "unat (btmp_bytes_len ?b) = 512 * m" using l(2) by (auto elim: dvdE)
  have q: "?q < m" using assms(3) ui m by (simp add: bm_cap_def div_less_iff_less_mult mult.commute)
  have dq: "unat (?idx div 4096) = ?q" by (simp add: unat_div)
  have off: "unat (?idx div 4096 * 512) = 512 * ?q"
    using q l(4,5) m by (subst unat_mult_u32) (simp_all add: dq)
  have lba: "unat (block_bitmap_lba (sb s) + ?idx div 4096) = unat (block_bitmap_lba (sb s)) + ?q"
    using q l(4,5) m by (subst unat_add_u32) (simp_all add: dq)
  have low: "unat (block_bitmap_lba (sb s)) + ?q < unat (inode_table_lba (sb s))" using q l(4) m by simp
  have len: "512 + 512 * ?q \<le> length (bits ?b)" using l(1) m q by (simp add: bm_wf_def)
  let ?t = "s\<lparr>sects := store (unat (block_bitmap_lba (sb s)) + ?q) (take 512 (drop (512 * ?q) (bits ?b))) (sects s)\<rparr>"
  have "bitmap_sync ?idx BLOCK_BITMAP s = Inr ?t"
    using lba off low l(5) len by (simp add: bitmap_sync_def Let_def dwrite_def last_start_def)
  moreover have "layout ?t" using assms(1) full_store [OF layout_full [OF assms(1)]] by (simp add: layout_def table_ok_def)
  then have "takes [] s ?t"
    using low len by (simp add: takes_def meta_def allocated_def free_blocks_def store_def)
  ultimately show ?thesis by auto
qed

lemma sync_block:
  assumes "layout s" "allocated s b"
  shows "\<exists>t. bitmap_sync (b - data_start_lba (sb s)) BLOCK_BITMAP s = Inr t \<and> takes [] s t \<and> core t = core s"
  by (rule sync_range [OF assms(1)]) (use assms(2) in \<open>simp_all add: allocated_def\<close>)

text \<open>A block is taken and the bitmap written back.\<close>

lemma uint_not_neg: "uint (b :: u32) \<noteq> -1"
proof -
  have "0 \<le> uint b" by simp
  then show ?thesis by linarith
qed

lemma set_core_layout [simp]: "layout (set_core a g s) = layout s" "allocated (set_core a g s) = allocated s"
  "free_blocks (set_core a g s) = free_blocks s" "sb (set_core a g s) = sb s" "sects (set_core a g s) = sects s"
  "core (set_core a g s) = (core s)(a := g (core s a))" "meta (set_core a g s) = meta s"
  "file_table (set_core a g s) = file_table s"
  by (simp_all add: set_core_def layout_def table_ok_def allocated_def free_blocks_def fun_eq_iff meta_def)

lemma set_core_takes: "takes bs s t \<Longrightarrow> takes bs s (set_core a g t)"
  by (simp add: takes_def)

lemma splice_one: "k < length xs \<Longrightarrow> splice k [b] xs = xs[k := b]"
  by (simp add: splice_def upd_conv_take_nth_drop)

lemma splice_Cons: "k + length bs < length xs \<Longrightarrow> splice (Suc k) bs (xs[k := b]) = splice k (b # bs) xs"
  using splice_splice [of k "[b]" bs xs] splice_one [of k xs b] by simp

text \<open>The new list of the inode's block numbers.\<close>

abbreviation with_blocks :: "nat \<Rightarrow> u32 list \<Rightarrow> inode \<Rightarrow> inode" where
  "with_blocks k bs i \<equiv> i\<lparr>i_sectors := splice k (take (12 - k) bs) (i_sectors i)\<rparr>"

lemma with_blocks_Cons:
  assumes "length (i_sectors i) = 13"
  shows "with_blocks k (b # bs) i = with_blocks (Suc k) bs (if k < 12 then i\<lparr>i_sectors := (i_sectors i)[k := b]\<rparr> else i)"
proof (cases "k < 12")
  case True
  then have "12 - k = Suc (12 - Suc k)" by simp
  moreover have "length (take (12 - Suc k) bs) \<le> 12 - Suc k" by simp
  then have "k + length (take (12 - Suc k) bs) < 13" using True by linarith
  ultimately show ?thesis using True assms splice_Cons [of k "take (12 - Suc k) bs" "i_sectors i" b] by simp
qed simp

lemma alloc_blocks_ok:
  assumes "layout s" "n \<le> free_blocks s" "length ab = 140" "k + n \<le> 140" "length (i_sectors (core s a)) = 13"
    "c = All_direct \<Longrightarrow> k + n \<le> 12" "c = All_indirect \<Longrightarrow> 12 \<le> k"
    "\<And>j. k \<le> j \<Longrightarrow> j < 12 \<Longrightarrow> i_sectors (core s a) ! j = 0"
  shows "\<exists>bs t. alloc_blocks c [k..<k + n] a ab s = Inr (Some (splice k bs ab), t) \<and> length bs = n \<and> takes bs s t \<and>
    core t = (core s)(a := with_blocks k bs (core s a))"
  using assms
proof (induction n arbitrary: k ab s)
  case 0
  have "core s = (core s)(a := with_blocks k [] (core s a))" by simp
  then show ?case using takes_refl [OF 0(1)] by (auto intro!: exI [of _ s])
next
  case (Suc n)
  let ?i = "core s a"
  have "free_blocks s > 0" using Suc.prems(2) by simp
  then obtain b s1 where b: "block_bitmap_alloc s = Inr (int (unat b), s1)" "takes [b] s s1" "core s1 = core s"
      "unat (b - data_start_lba (sb s)) = unat b - data_start s"
    using alloc_block [OF Suc.prems(1)] by blast
  have al: "allocated s1 b" "layout s1" "sb s1 = sb s" using b(2) takes_sb [OF b(2)] by (simp_all add: takes_def)
  have nz: "b - data_start_lba (sb s) \<noteq> 0"
    using al(1,3) b(4) by (auto simp: allocated_def word_unat_eq_iff)
  define direct where "direct = (c = All_direct \<or> c = Crossing \<and> k < 12)"
  have direct: "direct \<longleftrightarrow> k < 12" using Suc.prems(6,7) by (cases c) (auto simp: direct_def)
  define s2 where "s2 = (if direct then set_core a (\<lambda>i. i\<lparr>i_sectors := (i_sectors i)[k := b]\<rparr>) s1 else s1)"
  have s2: "layout s2" "allocated s2 b" "takes [b] s s2" "sb s2 = sb s"
      "core s2 = (core s)(a := if k < 12 then ?i\<lparr>i_sectors := (i_sectors ?i)[k := b]\<rparr> else ?i)"
    using al b(2,3) set_core_takes [OF b(2)] by (auto simp: s2_def direct)
  obtain s3 where s3: "bitmap_sync (b - data_start_lba (sb s)) BLOCK_BITMAP s2 = Inr s3" "takes [] s2 s3" "core s3 = core s2"
    using sync_block [OF s2(1,2)] s2(4) by auto
  have t3: "takes [b] s s3" using takes_trans [OF s2(3) s3(2)] by simp
  have prem: "layout s3" "n \<le> free_blocks s3" "length (i_sectors (core s3 a)) = 13"
      "\<And>j. Suc k \<le> j \<Longrightarrow> j < 12 \<Longrightarrow> i_sectors (core s3 a) ! j = 0"
    using t3 Suc.prems(2,5,8) s2(5) s3(3) by (simp_all add: takes_def)
  have bound: "length (ab[k := b]) = 140" "Suc k + n \<le> 140" "c = All_direct \<Longrightarrow> Suc k + n \<le> 12"
      "c = All_indirect \<Longrightarrow> 12 \<le> Suc k"
    using Suc.prems(3,4,6,7) by auto
  obtain bs t where t: "alloc_blocks c [Suc k..<Suc k + n] a (ab[k := b]) s3 = Inr (Some (splice (Suc k) bs (ab[k := b])), t)"
      "length bs = n" "takes bs s3 t" "core t = (core s3)(a := with_blocks (Suc k) bs (core s3 a))"
    using Suc.IH [OF prem(1,2) bound(1,2) prem(3) bound(3,4) prem(4)] by blast
  have "i_sectors (core s1 a) ! k = 0" if direct using Suc.prems(8) [of k] that direct b(3) by simp
  then have "alloc_blocks c (k # [Suc k..<Suc k + n]) a ab s = Inr (Some (splice (Suc k) bs (ab[k := b])), t)"
    using b(1) s3(1) t(1) nz al(3) uint_not_neg [of b]
    by (simp add: Let_def direct_def [symmetric] s2_def [symmetric])
  moreover have "splice (Suc k) bs (ab[k := b]) = splice k (b # bs) ab"
    using splice_Cons [of k bs ab b] t(2) Suc.prems(3,4) by simp
  moreover have "[k..<k + Suc n] = k # [Suc k..<Suc k + n]" by (simp add: upt_rec)
  moreover have "takes (b # bs) s t" using takes_trans [OF t3 t(3)] by simp
  moreover have "core t = (core s)(a := with_blocks k (b # bs) ?i)"
    unfolding with_blocks_Cons [OF Suc.prems(5)] t(4) s3(3) s2(5) by simp
  ultimately show ?case using t(2) by (metis length_Cons)
qed

section \<open>Writing the data\<close>

text \<open>The blocks that hold the bytes from \<open>pos\<close> to \<open>pos + n\<close>.\<close>

definition span :: "nat \<Rightarrow> nat \<Rightarrow> nat set" where
  "span pos n = (\<lambda>p. p div 512) ` {pos..<pos + n}"

lemma span_rest: "c \<le> n \<Longrightarrow> span (pos + c) (n - c) \<subseteq> span pos n"
  by (auto simp: span_def)

lemma span_start: "0 < n \<Longrightarrow> pos div 512 \<in> span pos n"
  by (simp add: span_def)

text \<open>After a first chunk \<open>c\<close> of \<open>n\<close> bytes that leaves some, the next byte begins a new block.\<close>

lemma chunk_next:
  assumes "c = min n (512 - pos mod 512)" "c < (n :: nat)"
  shows "(pos + c) mod 512 = 0" "(pos + c) div 512 = Suc (pos div 512)"
proof -
  have "pos mod 512 < 512" by simp
  moreover have "c = 512 - pos mod 512" using assms by auto
  ultimately have "pos + c = 512 * Suc (pos div 512)" using mult_div_mod_eq [of 512 pos] unfolding mult_Suc_right by linarith
  then show "(pos + c) mod 512 = 0" "(pos + c) div 512 = Suc (pos div 512)" by simp_all
qed

text \<open>\<open>t\<close> holds the bytes \<open>src\<close> from \<open>pos\<close> on in the blocks \<open>ab\<close>, the bytes before it in the first block and
  all sectors besides are those of \<open>s\<close>.\<close>

definition written :: "u32 list \<Rightarrow> nat \<Rightarrow> u8 list \<Rightarrow> fsys \<Rightarrow> fsys \<Rightarrow> bool" where
  "written ab pos src s t \<longleftrightarrow> full (sects t) \<and>
     (\<forall>p. pos div 512 \<le> p div 512 \<longrightarrow> p < pos + length src \<longrightarrow>
        file_byte ab t p = (if p < pos then file_byte ab s p else src ! (p - pos))) \<and>
     (\<forall>m. m \<notin> (\<lambda>k. unat (ab ! k)) ` span pos (length src) \<longrightarrow> sects t m = sects s m)"

lemma written_Nil: "full (sects s) \<Longrightarrow> written ab pos [] s s"
  by (auto simp: written_def)

lemma written_step:
  assumes "full (sects s)" "src \<noteq> []" "c = min (length src) (512 - pos mod 512)" "pos mod 512 = 0 \<or> buf = sects s (unat (ab ! (pos div 512)))"
    "length buf = 512" "inj_on (\<lambda>k. unat (ab ! k)) (span pos (length src))"
    "sects s' = (sects s)(unat (ab ! (pos div 512)) := splice (pos mod 512) (take c src) buf)"
    "written ab (pos + c) (drop c src) s' t"
  shows "written ab pos src s t"
proof -
  let ?k = "pos div 512" and ?o = "pos mod 512"
  have o: "?o < 512" by simp
  then have c: "0 < c" "c \<le> length src" "?o + c \<le> 512" using assms(2,3) by auto
  have fitl: "?o + length (take c src) \<le> length buf" using c assms(5) by simp
  have sub: "span (pos + c) (length (drop c src)) \<subseteq> span pos (length src)" using span_rest c(2) by simp
  have next_block: "Suc ?k \<le> p div 512" if "pos + c \<le> p" "p < pos + length src" for p
    using chunk_next(2) [OF assms(3)] div_le_mono [OF that(1), of 512] that by simp
  have fresh: "unat (ab ! ?k) \<notin> (\<lambda>k. unat (ab ! k)) ` span (pos + c) (length (drop c src))"
  proof
    assume "unat (ab ! ?k) \<in> (\<lambda>k. unat (ab ! k)) ` span (pos + c) (length (drop c src))"
    then obtain k where k: "k \<in> span (pos + c) (length (drop c src))" "unat (ab ! ?k) = unat (ab ! k)" by auto
    have "k \<in> span pos (length src)" using sub k(1) by auto
    then have "?k = k" using inj_onD [OF assms(6) k(2)] span_start [of "length src" pos] assms(2) by simp
    moreover have "Suc ?k \<le> k" using k(1) next_block by (auto simp: span_def)
    ultimately show False by simp
  qed
  have rest: "full (sects t)"
      "\<And>p. (pos + c) div 512 \<le> p div 512 \<Longrightarrow> p < pos + length src \<Longrightarrow>
        file_byte ab t p = (if p < pos + c then file_byte ab s' p else drop c src ! (p - (pos + c)))"
      "\<And>m. m \<notin> (\<lambda>k. unat (ab ! k)) ` span (pos + c) (length (drop c src)) \<Longrightarrow> sects t m = sects s' m"
    using assms(8) c(2) by (auto simp: written_def)
  have here: "sects t (unat (ab ! ?k)) = splice ?o (take c src) buf" using rest(3) [OF fresh] assms(7) by simp
  have "file_byte ab t p = (if p < pos then file_byte ab s p else src ! (p - pos))"
    if p: "?k \<le> p div 512" "p < pos + length src" for p
  proof (cases "p < pos + c")
    case True
    have "(pos + c - 1) div 512 = ?k" using chunk_in_block(1) [of "c - 1" c pos] c o by simp
    moreover have "p div 512 \<le> (pos + c - 1) div 512" using True by (intro div_le_mono) simp
    ultimately have pk: "p div 512 = ?k" using p(1) by simp
    then have split: "p = 512 * ?k + p mod 512" "pos = 512 * ?k + ?o" using mult_div_mod_eq [of 512 p] by simp_all
    have rel: "p < pos \<longleftrightarrow> p mod 512 < ?o" "p - pos = p mod 512 - ?o" "p mod 512 < ?o + c"
      using split True by linarith+
    then have inner: "\<not> p mod 512 < ?o \<Longrightarrow> p mod 512 - ?o < c" by linarith
    have "file_byte ab t p = splice ?o (take c src) buf ! (p mod 512)" using here pk by (simp add: file_byte_def)
    also have "\<dots> = (if p < pos then buf ! (p mod 512) else src ! (p - pos))"
      using nth_splice [OF fitl, of "p mod 512"] assms(5) rel c(2) inner by auto
    finally show ?thesis using assms(4) pk rel(1) by (auto simp: file_byte_def)
  next
    case False
    then show ?thesis using rest(2) [of p] p c div_le_mono [of "pos + c" p 512] by (simp add: add.commute)
  qed
  moreover have "sects t m = sects s m" if "m \<notin> (\<lambda>k. unat (ab ! k)) ` span pos (length src)" for m
  proof -
    have "m \<notin> (\<lambda>k. unat (ab ! k)) ` span (pos + c) (length (drop c src))" using that sub by auto
    moreover have "m \<noteq> unat (ab ! ?k)" using that span_start [of "length src" pos] assms(2) by auto
    ultimately show ?thesis using rest(3) assms(7) by simp
  qed
  ultimately show ?thesis using rest(1) by (simp add: written_def)
qed

lemma full_upd: "full f \<Longrightarrow> length bs = 512 \<Longrightarrow> full (f(m := bs))"
  by (simp add: full_def)

lemma dwrite_one:
  assumes "unat lba \<le> 163839" "length bs = 512"
  shows "dwrite lba bs (Suc 0) s = Inr (s\<lparr>sects := (sects s)(unat lba := bs)\<rparr>)"
proof -
  have "store (unat lba) bs f = f(unat lba := bs)" for f
    using assms(2) by (auto simp: store_def fun_eq_iff)
  then show ?thesis using assms by (simp add: dwrite_def last_start_def)
qed

text \<open>What the data loop does besides writing sectors.\<close>

definition advanced :: "nat \<Rightarrow> u32 \<Rightarrow> u32 \<Rightarrow> fsys \<Rightarrow> fsys" where
  "advanced f a n s = set_file f (\<lambda>fl. fl\<lparr>fd_pos := fd_pos fl + n\<rparr>) (set_core a (\<lambda>i. i\<lparr>i_size := i_size i + n\<rparr>) s)"

lemma advanced_sects [simp]: "sects (advanced f a n s) = sects s" "i_size (core (advanced f a n s) a) = i_size (core s a) + n"
  by (simp_all add: advanced_def set_file_def)

lemma advanced_add:
  assumes "f < length (file_table s)"
  shows "advanced f a m (advanced f a n s\<lparr>sects := g\<rparr>) = advanced f a (n + m) s\<lparr>sects := g\<rparr>"
    "advanced f a n (s\<lparr>sects := g\<rparr>) = advanced f a n s\<lparr>sects := g\<rparr>"
  using assms by (simp_all add: advanced_def set_file_def set_core_def add.assoc)

lemma write_data_ok:
  assumes "full (sects s)" "pos = unat (i_size (core s a))" "pos + unat n < 2 ^ 32" "unat n \<le> length src"
    "\<And>k. k \<in> span pos (unat n) \<Longrightarrow> k < length ab \<and> unat (ab ! k) \<le> 163839"
    "inj_on (\<lambda>k. unat (ab ! k)) (span pos (unat n))" "first \<or> pos mod 512 = 0 \<or> n = 0" "f < length (file_table s)"
  shows "\<exists>g. write_data ab first src n f a s = Inr (advanced f a n s\<lparr>sects := g\<rparr>) \<and>
    written ab pos (take (unat n) src) s (advanced f a n s\<lparr>sects := g\<rparr>)"
  using assms
proof (induction "unat n" arbitrary: pos n src first s rule: less_induct)
  case less
  show ?case
  proof (cases "n = 0")
    case True
    have "write_data ab first src n f a s = Inr (advanced f a n s\<lparr>sects := sects s\<rparr>)"
      using True by (subst write_data.simps) (simp add: advanced_def set_file_def set_core_def)
    moreover have "written ab pos [] s (advanced f a n s\<lparr>sects := sects s\<rparr>)"
      using less.prems(1) by (simp add: written_def span_def file_byte_def)
    ultimately show ?thesis using True by auto
  next
    case False
    then have n: "n > 0" "0 < unat n" by (simp_all add: word_gt_0 unat_gt_0)
    let ?w = "i_size (core s a)" and ?k = "pos div 512" and ?o = "pos mod 512"
    let ?c = "chunk_size ?w n"
    have c: "unat ?c = min (unat n) (512 - ?o)" using unat_chunk [of ?w n] less.prems(2) by simp
    have e: "unat (?w + ?c) = pos + unat ?c" "unat (n - ?c) = unat n - unat ?c"
      using chunk_end [of ?w n] less.prems(2,3) by simp_all
    have wd: "unat (?w div 512) = ?k" "unat (?w mod 512) = ?o" using less.prems(2) by (simp_all add: unat_div unat_mod)
    have kk: "?k < length ab" "unat (ab ! ?k) \<le> 163839" using less.prems(5) [OF span_start [OF n(2)]] by simp_all
    define buf where "buf = (if first then sects s (unat (ab ! ?k)) else replicate 512 0)"
    have lb: "length buf = 512" using less.prems(1) by (simp add: buf_def full_def)
    define new where "new = splice ?o (take (unat ?c) src) buf"
    have o: "?o < 512" by simp
    have lc: "length (take (unat ?c) src) = unat ?c" using c less.prems(4) by simp
    have "?o + length (take (unat ?c) src) \<le> length buf" unfolding lc lb using c o by linarith
    then have ln: "length new = 512" unfolding new_def using lb by simp
    define s1 where "s1 = advanced f a ?c (s\<lparr>sects := (sects s)(unat (ab ! ?k) := new)\<rparr>)"
    have s1: "full (sects s1)" "unat (i_size (core s1 a)) = pos + unat ?c" "f < length (file_table s1)"
        "sects s1 = (sects s)(unat (ab ! ?k) := new)"
      using full_upd [OF less.prems(1) ln] e(1) less.prems(8) by (simp_all add: s1_def advanced_def set_file_def)
    have cn: "unat ?c \<le> unat n" using c by simp
    have sub: "span (pos + unat ?c) (unat (n - ?c)) \<subseteq> span pos (unat n)" using span_rest [OF cn] e(2) by simp
    have aligned: "(pos + unat ?c) mod 512 = 0 \<or> n - ?c = 0"
      using chunk_next(1) [OF c] e(2) by (cases "unat ?c < unat n") (auto simp: unat_eq_zero)
    have more: "pos + unat ?c + unat (n - ?c) < 2 ^ 32" "unat (n - ?c) \<le> length (drop (unat ?c) src)"
        "\<And>k. k \<in> span (pos + unat ?c) (unat (n - ?c)) \<Longrightarrow> k < length ab \<and> unat (ab ! k) \<le> 163839"
        "False \<or> (pos + unat ?c) mod 512 = 0 \<or> n - ?c = 0"
      using e(2) cn less.prems(3,4) aligned less.prems(5) subsetD [OF sub] by auto
    obtain g where g: "write_data ab False (drop (unat ?c) src) (n - ?c) f a s1 = Inr (advanced f a (n - ?c) s1\<lparr>sects := g\<rparr>)"
        "written ab (pos + unat ?c) (take (unat (n - ?c)) (drop (unat ?c) src)) s1 (advanced f a (n - ?c) s1\<lparr>sects := g\<rparr>)"
      using less.hyps [of "n - ?c" s1 "pos + unat ?c" "drop (unat ?c) src" False, 
          OF chunk_progress [OF n(1)] s1(1) s1(2) [symmetric] more(1,2,3) inj_on_subset [OF less.prems(6) sub] more(4) s1(3)]
      by blast
    have tk: "take (unat (n - ?c)) (drop (unat ?c) src) = drop (unat ?c) (take (unat n) src)"
      using e(2) by (simp add: drop_take)
    have final: "advanced f a (n - ?c) s1\<lparr>sects := g\<rparr> = advanced f a n s\<lparr>sects := g\<rparr>"
      unfolding s1_def advanced_add(2) [OF less.prems(8)] advanced_add(1) [OF less.prems(8)] by simp
    have "written ab pos (take (unat n) src) s (advanced f a n s\<lparr>sects := g\<rparr>)"
    proof (rule written_step [OF less.prems(1) _ _ _ lb])
      show "take (unat n) src \<noteq> []" using n(2) less.prems(4) by auto
      show "unat ?c = min (length (take (unat n) src)) (512 - ?o)" using c less.prems(4) by simp
      show "?o = 0 \<or> buf = sects s (unat (ab ! ?k))" using less.prems(7) False by (auto simp: buf_def)
      show "inj_on (\<lambda>k. unat (ab ! k)) (span pos (length (take (unat n) src)))" using less.prems(4,6) by simp
      show "sects s1 = (sects s)(unat (ab ! ?k) := splice ?o (take (unat ?c) (take (unat n) src)) buf)"
        using s1(4) cn by (simp add: new_def min_def)
      show "written ab (pos + unat ?c) (drop (unat ?c) (take (unat n) src)) s1 (advanced f a n s\<lparr>sects := g\<rparr>)"
        using g(2) unfolding tk final .
    qed
    moreover have "write_data ab first src n f a s = Inr (advanced f a n s\<lparr>sects := g\<rparr>)"
    proof -
      have rd: "(if first then dread (ab ! ?k) 1 s else Inr (replicate 512 0)) = Inr buf"
        using dread_one [OF kk(2)] by (simp add: buf_def)
      have wr: "dwrite (ab ! ?k) new 1 s = Inr (s\<lparr>sects := (sects s)(unat (ab ! ?k) := new)\<rparr>)"
        using dwrite_one [OF kk(2) ln] by simp
      have "unat ?c \<le> length src" using cn less.prems(4) by simp
      then show ?thesis
        using g(1) [unfolded final, unfolded s1_def advanced_def [of f a ?c]] kk(1) n(1)
        by (subst write_data.simps) (simp only: Let_def wd rd bindE_Inr new_def [symmetric] wr if_True if_False not_le not_less le_less_linear simp_thms, simp)
    qed
    ultimately show ?thesis by blast
  qed
qed

section \<open>The blocks a file owns\<close>

text \<open>The first \<open>n\<close> blocks of a file and its indirect block, when it has one.\<close>

definition owned :: "nat \<Rightarrow> inode \<Rightarrow> fsys \<Rightarrow> u32 list" where
  "owned n i s = take n (file_blocks i s) @ (if n > 12 then [i_sectors i ! 12] else [])"

definition blocks_ok :: "nat \<Rightarrow> inode \<Rightarrow> fsys \<Rightarrow> bool" where
  "blocks_ok n i s \<longleftrightarrow> length (i_sectors i) = 13 \<and> 0 < n \<and> n \<le> 140 \<and> distinct (owned n i s) \<and>
     (\<forall>b\<in>set (owned n i s). allocated s b) \<and> (\<forall>k. n \<le> k \<longrightarrow> k < 12 \<longrightarrow> i_sectors i ! k = 0) \<and>
     (n \<le> 12 \<longrightarrow> i_sectors i ! 12 = 0)"

text \<open>\<open>t\<close> is \<open>s\<close> with the file at \<open>a\<close> grown from \<open>used\<close> to \<open>will\<close> blocks, and \<open>ab\<close> has the numbers of the blocks
  to be written.\<close>

definition grown :: "nat \<Rightarrow> nat \<Rightarrow> u32 \<Rightarrow> fsys \<Rightarrow> u32 list \<Rightarrow> fsys \<Rightarrow> bool" where
  "grown used will a s ab t \<longleftrightarrow>
     layout t \<and> meta t = meta s \<and> (\<forall>b. allocated s b \<longrightarrow> allocated t b) \<and>
     core t = (core s)(a := (core s a)\<lparr>i_sectors := i_sectors (core t a)\<rparr>) \<and>
     (\<forall>m. unat (inode_table_lba (sb s)) \<le> m \<and> m < unat (inode_table_lba (sb s)) + 609 \<longrightarrow> sects t m = sects s m) \<and>
     (\<forall>b. allocated s b \<longrightarrow> b \<notin> set (owned will (core t a) t) \<longrightarrow> sects t (unat b) = sects s (unat b)) \<and>
     (\<forall>k<used. sects t (unat (file_blocks (core s a) s ! k)) = sects s (unat (file_blocks (core s a) s ! k))) \<and>
     length ab = 140 \<and> blocks_ok will (core t a) t \<and>
     (\<forall>k. used - 1 \<le> k \<longrightarrow> k < will \<longrightarrow> ab ! k = file_blocks (core t a) t ! k) \<and>
     (\<forall>k<used. file_blocks (core t a) t ! k = file_blocks (core s a) s ! k) \<and>
     (\<forall>b\<in>set (owned will (core t a) t). b \<in> set (owned used (core s a) s) \<or> \<not> allocated s b)"

lemma length_file_blocks: "full (sects s) \<Longrightarrow> length (i_sectors i) = 13 \<Longrightarrow> length (file_blocks i s) = 140"
  by (simp add: file_blocks_def length_words_of full_def)

lemma take_blocks:
  assumes "length xs = 140" "length ys = 140" "n + length zs \<le> 140" "\<And>k. k < n \<Longrightarrow> ys ! k = xs ! k"
    "\<And>j. j < length zs \<Longrightarrow> ys ! (n + j) = zs ! j"
  shows "take (n + length zs) ys = take n xs @ zs"
proof (rule nth_equalityI)
  show "length (take (n + length zs) ys) = length (take n xs @ zs)" using assms(1-3) by simp
  fix k assume "k < length (take (n + length zs) ys)"
  then show "take (n + length zs) ys ! k = (take n xs @ zs) ! k"
    using assms(4) [of k] assms(5) [of "k - n"] assms(1-3) by (auto simp: nth_append min_def)
qed

lemma grownI:
  assumes "layout s" "blocks_ok used (core s a) s" "takes new s u" "set bs \<subseteq> set new" "distinct bs"
    "layout t" "meta t = meta s" "allocated t = allocated u"
    "\<And>m. (12 < used + length bs \<Longrightarrow> m \<noteq> unat (sec ! 12)) \<Longrightarrow> unat (inode_table_lba (sb s)) \<le> m \<Longrightarrow> sects t m = sects u m"
    "core t = (core s)(a := (core s a)\<lparr>i_sectors := sec\<rparr>)" "length sec = 13" "length ab = 140" "used + length bs \<le> 140"
    "\<And>k. k < used \<Longrightarrow> file_blocks (core t a) t ! k = file_blocks (core s a) s ! k"
    "\<And>j. j < length bs \<Longrightarrow> file_blocks (core t a) t ! (used + j) = bs ! j"
    "ab ! (used - 1) = file_blocks (core s a) s ! (used - 1)" "\<And>j. j < length bs \<Longrightarrow> ab ! (used + j) = bs ! j"
    "\<And>k. used + length bs \<le> k \<Longrightarrow> k < 12 \<Longrightarrow> sec ! k = 0" "used + length bs \<le> 12 \<Longrightarrow> sec ! 12 = 0"
    "12 < used + length bs \<Longrightarrow> sec ! 12 \<in> set new - set bs \<or> 12 < used \<and> sec ! 12 = i_sectors (core s a) ! 12"
  shows "grown used (used + length bs) a s ab t"
proof -
  let ?i = "core s a" and ?w = "used + length bs"
  have i: "length (i_sectors ?i) = 13" "0 < used" "distinct (owned used ?i s)" "\<And>b. b \<in> set (owned used ?i s) \<Longrightarrow> allocated s b"
    using assms(2) by (auto simp: blocks_ok_def)
  have it: "i_sectors (core t a) = sec" using assms(10) by simp
  have tk: "take ?w (file_blocks (core t a) t) = take used (file_blocks ?i s) @ bs"
    by (rule take_blocks)
      (use assms(1,6,11,13,14,15) i(1) it layout_full length_file_blocks in auto)
  have u: "\<And>b. allocated u b \<longleftrightarrow> allocated s b \<or> b \<in> set new" "\<And>b. b \<in> set new \<Longrightarrow> \<not> allocated s b"
      "\<And>m. unat (inode_table_lba (sb s)) \<le> m \<Longrightarrow> sects u m = sects s m"
    using assms(3) by (auto simp: takes_def)
  have ow: "owned ?w (core t a) t = take used (file_blocks ?i s) @ bs @ (if ?w > 12 then [sec ! 12] else [])"
    by (simp add: owned_def tk it)
  have old: "b \<in> set (take used (file_blocks ?i s)) \<Longrightarrow> b \<in> set (owned used ?i s)" for b by (simp add: owned_def)
  have tab: "sec ! 12 \<notin> set (take used (file_blocks ?i s))" "sec ! 12 \<notin> set bs" "allocated t (sec ! 12)"
      "sec ! 12 \<in> set (owned used ?i s) \<or> \<not> allocated s (sec ! 12)" if w: "?w > 12"
  proof -
    consider "sec ! 12 \<in> set new" "sec ! 12 \<notin> set bs" | "12 < used" "sec ! 12 = i_sectors ?i ! 12" using assms(20) [OF w] by blast
    then have "sec ! 12 \<notin> set (take used (file_blocks ?i s)) \<and> sec ! 12 \<notin> set bs \<and> allocated t (sec ! 12) \<and>
      (sec ! 12 \<in> set (owned used ?i s) \<or> \<not> allocated s (sec ! 12))"
    proof cases
      case 1
      have na: "\<not> allocated s (sec ! 12)" by (rule u(2)) (rule 1)
      then have "sec ! 12 \<notin> set (take used (file_blocks ?i s))" using old i(4) by metis
      moreover have "allocated t (sec ! 12)" using u(1) assms(8) 1(1) by simp
      ultimately show ?thesis using na 1(2) by simp
    next
      case 2
      then have "sec ! 12 \<in> set (owned used ?i s)" "sec ! 12 \<notin> set (take used (file_blocks ?i s))"
        using i(3) by (auto simp: owned_def)
      moreover from this(1) have "allocated s (sec ! 12)" by (rule i(4))
      moreover from this have "sec ! 12 \<notin> set bs" using u(2) assms(4) by blast
      ultimately show ?thesis using u(1) assms(8) by simp
    qed
    then show "sec ! 12 \<notin> set (take used (file_blocks ?i s))" "sec ! 12 \<notin> set bs" "allocated t (sec ! 12)"
      "sec ! 12 \<in> set (owned used ?i s) \<or> \<not> allocated s (sec ! 12)" by simp_all
  qed
  have bo: "blocks_ok ?w (core t a) t"
  proof -
    have "distinct (take used (file_blocks ?i s))" using i(3) by (simp add: owned_def)
    moreover have "set (take used (file_blocks ?i s)) \<inter> set bs = {}" using u(2) assms(4) old i(4) by blast
    ultimately have "distinct (owned ?w (core t a) t)" unfolding ow using tab assms(5) by auto
    moreover have "\<forall>b\<in>set (owned ?w (core t a) t). allocated t b"
      unfolding ow using tab(3) u(1) assms(4,8) old i(4) by auto
    ultimately show ?thesis using it i(2) assms(11,13,18,19) by (simp add: blocks_ok_def)
  qed
  have tabhigh: "unat (inode_table_lba (sb s)) + 609 \<le> unat (sec ! 12)" if "?w > 12"
    using allocated_high [OF assms(6) tab(3) [OF that]] assms(7) by (simp add: meta_def)
  have same: "sects t m = sects s m" if "12 < ?w \<Longrightarrow> m \<noteq> unat (sec ! 12)" "unat (inode_table_lba (sb s)) \<le> m" for m
    using assms(9) [OF that] u(3) [OF that(2)] by simp
  have "sects t (unat b) = sects s (unat b)" if b: "allocated s b" "?w > 12 \<Longrightarrow> b \<noteq> sec ! 12" for b
    by (rule same) (use b allocated_high [OF assms(1) b(1)] in \<open>auto simp: word_unat_eq_iff\<close>)
  note sect = this
  have "sects t (unat (file_blocks ?i s ! k)) = sects s (unat (file_blocks ?i s ! k))" if "k < used" for k
  proof -
    have "file_blocks ?i s ! k \<in> set (take used (file_blocks ?i s))"
      using that assms(13) length_file_blocks [OF layout_full [OF assms(1)] i(1)] by (auto simp: in_set_conv_nth)
    then show ?thesis using sect old i(4) tab(1) by metis
  qed
  moreover have "\<forall>m. unat (inode_table_lba (sb s)) \<le> m \<and> m < unat (inode_table_lba (sb s)) + 609 \<longrightarrow> sects t m = sects s m"
    using same tabhigh by fastforce
  moreover have "\<forall>b. allocated s b \<longrightarrow> b \<notin> set (owned ?w (core t a) t) \<longrightarrow> sects t (unat b) = sects s (unat b)"
    using sect ow by auto
  moreover have "\<forall>b\<in>set (owned ?w (core t a) t). b \<in> set (owned used ?i s) \<or> \<not> allocated s b"
    unfolding ow using tab(4) u(2) assms(4) old by auto
  moreover have "\<forall>b. allocated s b \<longrightarrow> allocated t b" using u(1) assms(8) by simp
  moreover have "ab ! k = file_blocks (core t a) t ! k" if "used - 1 \<le> k" "k < ?w" for k
  proof (cases "k = used - 1")
    case True
    then show ?thesis using assms(14) [of k] assms(16) i(2) by simp
  next
    case False
    then have "k = used + (k - used)" "k - used < length bs" using that i(2) by auto
    then show ?thesis using assms(15,17) [of "k - used"] by simp
  qed
  ultimately show ?thesis
    unfolding grown_def using bo assms(6,7,12,14) it assms(10) by simp
qed

section \<open>Growing a file\<close>

lemma nth_owned: "blocks_ok n i s \<Longrightarrow> k < n \<Longrightarrow> full (sects s) \<Longrightarrow> file_blocks i s ! k \<in> set (owned n i s)"
  using length_file_blocks [of s i] by (auto simp: blocks_ok_def owned_def in_set_conv_nth)

lemma block_allocated:
  assumes "blocks_ok n i s" "k < n" "full (sects s)"
  shows "allocated s (file_blocks i s ! k)"
  using nth_owned [OF assms] assms(1) by (simp add: blocks_ok_def)

lemma table_allocated: "blocks_ok n i s \<Longrightarrow> 12 < n \<Longrightarrow> allocated s (i_sectors i ! 12)"
  by (simp add: blocks_ok_def owned_def)

text \<open>The sector with the indirect block numbers.\<close>

lemma layout_sects: "layout s \<Longrightarrow> length bs = 512 \<Longrightarrow> layout (s\<lparr>sects := (sects s)(m := bs)\<rparr>)"
  using full_upd [of "sects s" bs m] by (simp add: layout_def table_ok_def)

lemma allocated_sects [simp]: "allocated (s\<lparr>sects := g\<rparr>) = allocated s" "meta (s\<lparr>sects := g\<rparr>) = meta s"
  by (simp_all add: allocated_def fun_eq_iff meta_def)

lemma write_same:
  assumes "layout s" "blocks_ok used (core s a) s"
  shows "\<exists>ab. write_blocks used used a s = Inr (Some ab, s) \<and> grown used used a s ab s"
proof -
  let ?sec = "i_sectors (core s a)"
  have sec: "length ?sec = 13" "0 < used" "used \<le> 140" using assms(2) by (auto simp: blocks_ok_def)
  obtain ab where ab: "write_blocks used used a s = Inr (Some ab, s)" "length ab = 140"
      "ab ! (used - 1) = file_blocks (core s a) s ! (used - 1)"
  proof (cases "used \<le> 12")
    case True
    show ?thesis
      by (rule that [of "(replicate 140 0)[used - 1 := ?sec ! (used - 1)]"])
        (use True sec in \<open>auto simp: write_blocks_def Let_def nth_file_blocks\<close>)
  next
    case False
    have al: "allocated s (?sec ! 12)" using table_allocated [OF assms(2)] False by simp
    obtain ab where ab: "load_indirect (?sec ! 12) (replicate 140 0) s = Inr ab" "length ab = 140"
        "drop 12 ab = words_of (sects s (unat (?sec ! 12)))"
      using load_indirect_ok [OF allocated_low [OF assms(1) al], of "replicate 140 0"] layout_full [OF assms(1)] by auto
    show ?thesis
      by (rule that [of ab])
        (use False sec ab allocated_nz [OF al] nth_take_drop(2) [OF ab(2), of "used - 1"] in
          \<open>auto simp: write_blocks_def Let_def nth_file_blocks\<close>)
  qed
  have "grown used (used + length ([] :: u32 list)) a s ab s"
    by (rule grownI [OF assms takes_refl [OF assms(1)], where sec = ?sec])
      (use assms ab sec in \<open>auto simp: blocks_ok_def\<close>)
  then show ?thesis using ab(1) by auto
qed

text \<open>The first entries of \<^verbatim>\<open>all_blocks\<close>: zero but for the last block in use.\<close>

abbreviation last_used :: "nat \<Rightarrow> u32 list \<Rightarrow> u32 list" where
  "last_used used sec \<equiv> (replicate 140 0)[used - 1 := sec ! (used - 1)]"

lemma write_direct:
  assumes "layout s" "blocks_ok used (core s a) s" "0 < n" "used + n \<le> 12" "n \<le> free_blocks s"
  shows "\<exists>ab t. write_blocks used (used + n) a s = Inr (Some ab, t) \<and> grown used (used + n) a s ab t"
proof -
  let ?i = "core s a" and ?ab = "last_used used (i_sectors (core s a))"
  have i: "length (i_sectors ?i) = 13" "0 < used" "\<And>k. used \<le> k \<Longrightarrow> k < 12 \<Longrightarrow> i_sectors ?i ! k = 0" "i_sectors ?i ! 12 = 0"
    using assms(2,4) by (auto simp: blocks_ok_def)
  have nz: "i_sectors ?i ! (used - 1) \<noteq> 0"
    using allocated_nz [OF block_allocated [OF assms(2) _ layout_full [OF assms(1)], of "used - 1"]] i(1,2) assms(4)
    by (simp add: nth_file_blocks)
  obtain bs t where t: "alloc_blocks All_direct [used..<used + n] a ?ab s = Inr (Some (splice used bs ?ab), t)"
      "length bs = n" "takes bs s t" "core t = (core s)(a := with_blocks used bs ?i)"
    using alloc_blocks_ok [OF assms(1,5), of ?ab used a All_direct] i assms(4) by auto
  have wb: "write_blocks used (used + n) a s = Inr (Some (splice used bs ?ab), t)"
    using t(1) nz assms(3,4) i(1) by (simp add: write_blocks_def Let_def)
  define sec where "sec = splice used bs (i_sectors ?i)"
  have "take (12 - used) bs = bs" using t(2) assms(4) by simp
  then have ct: "core t = (core s)(a := ?i\<lparr>i_sectors := sec\<rparr>)" using t(4) by (simp add: sec_def)
  have fit: "used + length bs \<le> length (i_sectors ?i)" "used + length bs \<le> length ?ab" using t(2) assms(4) i(1) by simp_all
  note nth = nth_splice [OF fit(1), folded sec_def] nth_splice [OF fit(2)]
  have ls: "length sec = 13" using fit(1) i(1) by (simp add: sec_def)
  have "grown used (used + length bs) a s (splice used bs ?ab) t"
    by (rule grownI [OF assms(1,2) t(3) _ _ _ _ _ _ ct ls])
      (use t(2,3) assms(4) fit i ls ct nth in \<open>auto simp: takes_def nth_file_blocks not_less less_Suc_eq_le intro: le_antisym\<close>)
  then show ?thesis using wb t(2) by blast
qed

text \<open>Writing back the indirect block.\<close>

lemma write_indirect_ok:
  assumes "layout t" "allocated t (i_sectors i ! 12)" "length ab = 140" "length (i_sectors i) = 13"
  shows "\<exists>u. write_indirect (i_sectors i ! 12) (Some ab, t) = Inr (Some ab, u) \<and> layout u \<and> meta u = meta t \<and>
    allocated u = allocated t \<and> core u = core t \<and> (\<forall>m. m \<noteq> unat (i_sectors i ! 12) \<longrightarrow> sects u m = sects t m) \<and>
    file_blocks i u = take 12 (i_sectors i) @ drop 12 ab"
proof -
  have l: "length (bytes_of (drop 12 ab)) = 512" using assms(3) by simp
  show ?thesis
    using dwrite_one [OF allocated_low [OF assms(1,2)] l] layout_sects [OF assms(1) l]
    by (simp add: write_indirect_def file_blocks_def)
qed

lemma write_beyond:
  assumes "layout s" "blocks_ok used (core s a) s" "12 < used" "0 < n" "used + n \<le> 140" "n \<le> free_blocks s"
  shows "\<exists>ab t. write_blocks used (used + n) a s = Inr (Some ab, t) \<and> grown used (used + n) a s ab t"
proof -
  let ?i = "core s a"
  have i: "length (i_sectors ?i) = 13" using assms(2) by (simp add: blocks_ok_def)
  have al: "allocated s (i_sectors ?i ! 12)" using table_allocated [OF assms(2,3)] .
  obtain ab where ab: "load_indirect (i_sectors ?i ! 12) (replicate 140 0) s = Inr ab" "length ab = 140"
      "drop 12 ab = words_of (sects s (unat (i_sectors ?i ! 12)))"
    using load_indirect_ok [OF allocated_low [OF assms(1) al], of "replicate 140 0"] layout_full [OF assms(1)] by auto
  obtain bs t where t: "alloc_blocks All_indirect [used..<used + n] a ab s = Inr (Some (splice used bs ab), t)"
      "length bs = n" "takes bs s t" "core t = (core s)(a := with_blocks used bs ?i)"
    using alloc_blocks_ok [OF assms(1,6) ab(2) assms(5) i, of All_indirect] assms(3) by auto
  have fit: "used + length bs \<le> length ab" using t(2) ab(2) assms(5) by simp
  have la: "length (splice used bs ab) = 140" using fit ab(2) by simp
  have lt: "layout t" "allocated t (i_sectors ?i ! 12)" using t(3) al by (simp_all add: takes_def)
  obtain u where u: "write_indirect (i_sectors ?i ! 12) (Some (splice used bs ab), t) = Inr (Some (splice used bs ab), u)"
      "layout u" "meta u = meta t" "allocated u = allocated t" "core u = core t"
      "\<And>m. m \<noteq> unat (i_sectors ?i ! 12) \<Longrightarrow> sects u m = sects t m"
      "file_blocks ?i u = take 12 (i_sectors ?i) @ drop 12 (splice used bs ab)"
    using write_indirect_ok [OF lt la i] by auto
  have wb: "write_blocks used (used + n) a s = Inr (Some (splice used bs ab), u)"
    using t(1) u(1) ab(1) allocated_nz [OF al] assms(3,4) by (simp add: write_blocks_def Let_def)
  have cu: "core u = (core s)(a := ?i\<lparr>i_sectors := i_sectors ?i\<rparr>)" using t(4) u(5) assms(3) by simp
  have fb: "file_blocks (core u a) u ! k = (if k < 12 then i_sectors ?i ! k else splice used bs ab ! k)" if "k < 140" for k
    using u(7) cu i la that by (simp add: nth_append)
  have ab0: "ab ! k = file_blocks ?i s ! k" if "12 \<le> k" "k < 140" for k
    using nth_take_drop(2) [OF ab(2) that(2,1)] ab(3) that i by (simp add: nth_file_blocks)
  note nth = nth_splice [OF fit]
  have "grown used (used + length bs) a s (splice used bs ab) u"
  proof (rule grownI [OF assms(1,2) t(3) _ _ u(2) _ u(4) _ cu i la])
    show "file_blocks (core u a) u ! k = file_blocks ?i s ! k" if "k < used" for k
      using that fb [of k] nth [of k] ab0 [of k] fit ab(2) i by (auto simp: nth_file_blocks)
    show "file_blocks (core u a) u ! (used + j) = bs ! j" if "j < length bs" for j
      using that fb [of "used + j"] nth [of "used + j"] fit ab(2) assms(3) by simp
    show "splice used bs ab ! (used - 1) = file_blocks ?i s ! (used - 1)"
      using nth [of "used - 1"] ab0 [of "used - 1"] fit ab(2) assms(3) by auto
    show "splice used bs ab ! (used + j) = bs ! j" if "j < length bs" for j
      using that nth [of "used + j"] fit ab(2) by simp
  qed (use t(2,3) u(3,6) assms(3,5) in \<open>auto simp: takes_def\<close>)
  then show ?thesis using wb t(2) by blast
qed

lemma write_crossing:
  assumes "layout s" "blocks_ok used (core s a) s" "used \<le> 12" "12 < used + n" "used + n \<le> 140" "n < free_blocks s"
  shows "\<exists>ab t. write_blocks used (used + n) a s = Inr (Some ab, t) \<and> grown used (used + n) a s ab t"
proof -
  let ?i = "core s a" and ?ab = "last_used used (i_sectors (core s a))"
  have i: "length (i_sectors ?i) = 13" "0 < used" "\<And>k. used \<le> k \<Longrightarrow> k < 12 \<Longrightarrow> i_sectors ?i ! k = 0" "i_sectors ?i ! 12 = 0"
    using assms(2,3) by (auto simp: blocks_ok_def)
  obtain tab s1 where s1: "block_bitmap_alloc s = Inr (int (unat tab), s1)" "takes [tab] s s1" "core s1 = core s"
    using alloc_block [OF assms(1)] assms(6) by auto
  define s2 where "s2 = set_core a (\<lambda>i. i\<lparr>i_sectors := (i_sectors i)[12 := tab]\<rparr>) s1"
  have t2: "takes [tab] s s2" unfolding s2_def by (rule set_core_takes) (rule s1(2))
  have c2: "core s2 a = ?i\<lparr>i_sectors := (i_sectors ?i)[12 := tab]\<rparr>" by (simp add: s2_def s1(3))
  have l2: "layout s2" "n \<le> free_blocks s2" using t2 assms(6) by (simp_all add: takes_def)
  obtain bs t where t: "alloc_blocks Crossing [used..<used + n] a ?ab s2 = Inr (Some (splice used bs ?ab), t)"
      "length bs = n" "takes bs s2 t" "core t = (core s2)(a := with_blocks used bs (core s2 a))"
    using alloc_blocks_ok [OF l2, of ?ab used a Crossing] i assms(5) c2 by auto
  have tk: "takes (tab # bs) s t" using takes_trans [OF t2 t(3)] by simp
  define sec where "sec = splice used (take (12 - used) bs) ((i_sectors ?i)[12 := tab])"
  have fit: "used + length (take (12 - used) bs) \<le> length ((i_sectors ?i)[12 := tab])" "used + length bs \<le> length ?ab"
    using i(1) assms(3,5) t(2) by auto
  note nth = nth_splice [OF fit(1), folded sec_def] nth_splice [OF fit(2)]
  have ls: "length sec = 13" using fit(1) i(1) by (simp add: sec_def)
  have s12: "sec ! 12 = tab" using nth(1) [of 12] i(1) assms(3) by (simp add: min_def split: if_splits)
  have ct: "core t = (core s)(a := ?i\<lparr>i_sectors := sec\<rparr>)" using t(4) c2 by (simp add: sec_def s2_def s1(3))
  have la: "length (splice used bs ?ab) = 140" using fit(2) by simp
  have lt: "layout t" "allocated t tab" using tk by (simp_all add: takes_def)
  obtain u where u: "write_indirect tab (Some (splice used bs ?ab), t) = Inr (Some (splice used bs ?ab), u)"
      "layout u" "meta u = meta t" "allocated u = allocated t" "core u = core t"
      "\<And>m. m \<noteq> unat tab \<Longrightarrow> sects u m = sects t m"
      "file_blocks (?i\<lparr>i_sectors := sec\<rparr>) u = take 12 sec @ drop 12 (splice used bs ?ab)"
    using write_indirect_ok [of t "?i\<lparr>i_sectors := sec\<rparr>" "splice used bs ?ab"] lt la ls s12 by auto
  have wb: "write_blocks used (used + n) a s = Inr (Some (splice used bs ?ab), u)"
    using t(1) u(1) s1(1,3) i(4) assms(3,4) uint_not_neg [of tab] by (simp add: write_blocks_def Let_def s2_def)
  have fb: "file_blocks (core u a) u ! k = (if k < 12 then sec ! k else splice used bs ?ab ! k)" if "k < 140" for k
    using u(5,7) ct la ls that by (simp add: nth_append)
  have "grown used (used + length bs) a s (splice used bs ?ab) u"
  proof (rule grownI [OF assms(1,2) tk _ _ u(2) _ u(4) _ _ ls la])
    show "core u = (core s)(a := ?i\<lparr>i_sectors := sec\<rparr>)" using u(5) ct by simp
    show "file_blocks (core u a) u ! k = file_blocks ?i s ! k" if "k < used" for k
      using that fb [of k] nth(1) [of k] assms(3) i(1) by (simp add: nth_file_blocks)
    show "file_blocks (core u a) u ! (used + j) = bs ! j" if "j < length bs" for j
      using that fb [of "used + j"] nth(1) [of "used + j"] nth(2) [of "used + j"] fit(2) assms(3) i(1) by auto
    show "splice used bs ?ab ! (used - 1) = file_blocks ?i s ! (used - 1)"
      using nth(2) [of "used - 1"] i(1,2) assms(3) by (auto simp: nth_file_blocks)
    show "splice used bs ?ab ! (used + j) = bs ! j" if "j < length bs" for j
      using that nth(2) [of "used + j"] fit(2) by simp
  qed (use t(2) tk u(3,6) s12 assms(4,5) in \<open>auto simp: takes_def\<close>)
  then show ?thesis using wb t(2) by blast
qed

lemma write_blocks_ok:
  assumes "layout s" "blocks_ok used (core s a) s" "used \<le> will" "will \<le> 140" "will - used < free_blocks s"
  shows "\<exists>ab t. write_blocks used will a s = Inr (Some ab, t) \<and> grown used will a s ab t"
proof -
  obtain n where n: "will = used + n" using assms(3) le_Suc_ex by blast
  consider "n = 0" | "0 < n" "used + n \<le> 12" | "used \<le> 12" "12 < used + n" | "0 < n" "12 < used" by linarith
  then show ?thesis
    using write_same [OF assms(1,2)] write_direct [OF assms(1,2), of n] write_crossing [OF assms(1,2), of n]
      write_beyond [OF assms(1,2), of n] assms(4,5) n by cases auto
qed

section \<open>Appending\<close>

lemma span_blocks: "k \<in> span pos n \<Longrightarrow> pos div 512 \<le> k \<and> k < (pos + n) div 512 + 1"
  by (auto simp: span_def less_Suc_eq_le div_le_mono)

lemma file_blocks_cong:
  assumes "length (i_sectors i) = 13" "i_sectors j = i_sectors i" "k < n" "12 < n \<Longrightarrow> sects t (unat (i_sectors i ! 12)) = sects s (unat (i_sectors i ! 12))"
  shows "file_blocks j t ! k = file_blocks i s ! k"
  using assms by (cases "k < 12") (simp_all add: nth_file_blocks)

lemma blocks_inj:
  assumes "blocks_ok n i s" "full (sects s)"
  shows "inj_on (\<lambda>k. unat (file_blocks i s ! k)) {..<n}"
    "12 < n \<Longrightarrow> k < n \<Longrightarrow> file_blocks i s ! k \<noteq> i_sectors i ! 12"
proof -
  have l: "n \<le> length (file_blocks i s)" "distinct (take n (file_blocks i s))"
    using assms length_file_blocks [of s i] by (auto simp: blocks_ok_def owned_def)
  show "inj_on (\<lambda>k. unat (file_blocks i s ! k)) {..<n}"
  proof (rule inj_onI)
    fix x y assume *: "x \<in> {..<n}" "y \<in> {..<n}" "unat (file_blocks i s ! x) = unat (file_blocks i s ! y)"
    then have "take n (file_blocks i s) ! x = take n (file_blocks i s) ! y" by (simp add: word_unat_eq_iff)
    then show "x = y" using nth_eq_iff_index_eq [OF l(2), of x y] * l(1) by simp
  qed
  assume *: "12 < n" "k < n"
  then have "file_blocks i s ! k \<in> set (take n (file_blocks i s))" using l(1) by (auto simp: in_set_conv_nth)
  then show "file_blocks i s ! k \<noteq> i_sectors i ! 12" using assms(1) * by (auto simp: blocks_ok_def owned_def)
qed

text \<open>The data loop on a file that has been grown.\<close>

lemma append_data:
  assumes "layout s" "blocks_ok w i s" "i = core s a" "pos = unat (i_size i)" "pos + unat n < 2 ^ 32" "w = (pos + unat n) div 512 + 1"
    "unat n \<le> length buf" "length ab = 140" "\<And>k. pos div 512 \<le> k \<Longrightarrow> k < w \<Longrightarrow> ab ! k = file_blocks i s ! k"
    "f < length (file_table s)"
  shows "\<exists>g. write_data ab True buf n f a s = Inr (advanced f a n s\<lparr>sects := g\<rparr>) \<and> full g \<and>
    (\<forall>p<pos + unat n. file_byte (file_blocks i s) (s\<lparr>sects := g\<rparr>) p = (if p < pos then file_byte (file_blocks i s) s p else buf ! (p - pos))) \<and>
    (\<forall>m. m \<notin> (\<lambda>k. unat (file_blocks i s ! k)) ` {..<w} \<longrightarrow> g m = sects s m)"
proof -
  let ?bl = "file_blocks i s"
  have w: "w \<le> 140" using assms(2) by (simp add: blocks_ok_def)
  have full: "full (sects s)" using assms(1) by (rule layout_full)
  have sp: "span pos (unat n) \<subseteq> {..<w}" using span_blocks assms(6) by fastforce
  have ab: "ab ! k = ?bl ! k" if "k \<in> span pos (unat n)" for k using assms(6,9) span_blocks [OF that] by simp
  have inj: "inj_on (\<lambda>k. unat (ab ! k)) (span pos (unat n))"
    using inj_on_subset [OF blocks_inj(1) [OF assms(2) full] sp] ab inj_on_cong [of "span pos (unat n)" "\<lambda>k. unat (ab ! k)"] by metis
  have low: "k < length ab \<and> unat (ab ! k) \<le> 163839" if "k \<in> span pos (unat n)" for k
    using allocated_low [OF assms(1) block_allocated [OF assms(2) _ full, of k]] ab [OF that] that sp w assms(8) by auto
  obtain g where g: "write_data ab True buf n f a s = Inr (advanced f a n s\<lparr>sects := g\<rparr>)"
      "written ab pos (take (unat n) buf) s (advanced f a n s\<lparr>sects := g\<rparr>)"
    using write_data_ok [OF full _ assms(5,7) low inj _ assms(10)] assms(3,4) by auto
  have ln: "length (take (unat n) buf) = unat n" using assms(7) by simp
  have wr: "full g" "\<And>p. pos div 512 \<le> p div 512 \<Longrightarrow> p < pos + unat n \<Longrightarrow>
        file_byte ab (s\<lparr>sects := g\<rparr>) p = (if p < pos then file_byte ab s p else buf ! (p - pos))"
      "\<And>m. m \<notin> (\<lambda>k. unat (ab ! k)) ` span pos (unat n) \<Longrightarrow> g m = sects s m"
    using g(2) unfolding written_def ln by (auto simp: file_byte_def)
  have im: "(\<lambda>k. unat (ab ! k)) ` span pos (unat n) = (\<lambda>k. unat (?bl ! k)) ` span pos (unat n)" using ab by auto
  have "file_byte ?bl (s\<lparr>sects := g\<rparr>) p = (if p < pos then file_byte ?bl s p else buf ! (p - pos))" if p: "p < pos + unat n" for p
  proof (cases "pos div 512 \<le> p div 512")
    case True
    have "p div 512 < w" using p assms(6) by (simp add: less_Suc_eq_le div_le_mono)
    then show ?thesis using wr(2) [OF True p] assms(9) [OF True] by (simp add: file_byte_def)
  next
    case False
    then have lt: "p div 512 < pos div 512" "p < pos" using div_le_mono [of pos p 512] by auto
    then have "p div 512 < w" using assms(6) div_le_mono [of pos "pos + unat n" 512] by simp
    then have "unat (?bl ! (p div 512)) \<notin> (\<lambda>k. unat (?bl ! k)) ` span pos (unat n)"
      using inj_on_image_mem_iff [OF blocks_inj(1) [OF assms(2) full] _ sp] span_blocks lt(1) by fastforce
    then show ?thesis using wr(3) im lt(2) by (simp add: file_byte_def)
  qed
  moreover have "g m = sects s m" if "m \<notin> (\<lambda>k. unat (?bl ! k)) ` {..<w}" for m
    using wr(3) [of m] im that sp by blast
  ultimately show ?thesis using g(1) wr(1) by blast
qed

section \<open>Files\<close>

text \<open>An empty file owns nothing; otherwise a file owns a block for every 512 bytes and one more.\<close>

definition file_ok :: "inode \<Rightarrow> fsys \<Rightarrow> bool" where
  "file_ok i s \<longleftrightarrow> length (i_sectors i) = 13 \<and>
     (if i_sectors i ! 0 = 0 then i_size i = 0 \<and> i_sectors i = replicate 13 0
      else blocks_ok (unat (i_size i) div 512 + 1) i s)"

definition held :: "inode \<Rightarrow> fsys \<Rightarrow> u32 list" where
  "held i s = (if i_sectors i ! 0 = 0 then [] else owned (unat (i_size i) div 512 + 1) i s)"

definition contents :: "inode \<Rightarrow> fsys \<Rightarrow> u8 list" where
  "contents i s = file_bytes i s 0 (unat (i_size i))"

text \<open>What depends on parts of the state only.\<close>

lemma heap_simps [simp]:
  "layout (s\<lparr>heap_n := h\<rparr>) = layout s" "allocated (s\<lparr>heap_n := h\<rparr>) = allocated s" "free_blocks (s\<lparr>heap_n := h\<rparr>) = free_blocks s"
  "file_blocks i (s\<lparr>heap_n := h\<rparr>) = file_blocks i s" "table_ok (s\<lparr>heap_n := h\<rparr>) = table_ok s"
  "layout (set_file f g s) = layout s" "allocated (set_file f g s) = allocated s" "file_blocks i (set_file f g s) = file_blocks i s"
  "sects (set_file f g s) = sects s" "core (set_file f g s) = core s" "sb (set_file f g s) = sb s"
  "length (file_table (set_file f g s)) = length (file_table s)"
  "file_byte bl (s\<lparr>heap_n := h\<rparr>) = file_byte bl s" "file_byte bl (set_file f g s) = file_byte bl s"
  by (simp_all add: layout_def table_ok_def allocated_def free_blocks_def file_blocks_def set_file_def fun_eq_iff file_byte_def)

lemma owned_simps [simp]:
  "owned n i (s\<lparr>heap_n := h\<rparr>) = owned n i s" "blocks_ok n i (s\<lparr>heap_n := h\<rparr>) = blocks_ok n i s"
  "owned n i (set_file f g s) = owned n i s" "blocks_ok n i (set_file f g s) = blocks_ok n i s"
  by (simp_all add: owned_def blocks_ok_def)

lemma file_ok_heap [simp]: "file_ok i (s\<lparr>heap_n := h\<rparr>) = file_ok i s" "held i (s\<lparr>heap_n := h\<rparr>) = held i s"
  by (simp_all add: file_ok_def held_def)

lemma first_block_ok:
  assumes "layout s" "file_ok (core s a) s" "0 < free_blocks s" "n = unat (i_size (core s a)) div 512 + 1"
  shows "\<exists>bs t. first_block a s = Inr (True, t) \<and> takes bs s t \<and> length bs \<le> 1 \<and>
    core t = (core s)(a := (core s a)\<lparr>i_sectors := i_sectors (core t a)\<rparr>) \<and> blocks_ok n (core t a) t \<and>
    (\<forall>b\<in>set (owned n (core t a) t). b \<in> set (held (core s a) s) \<or> \<not> allocated s b) \<and>
    contents (core t a) t = contents (core s a) s"
proof (cases "i_sectors (core s a) ! 0 = 0")
  case False
  have "core s = (core s)(a := (core s a)\<lparr>i_sectors := i_sectors (core s a)\<rparr>)" by simp
  then show ?thesis
    using False assms(2,4) takes_refl [OF assms(1)]
    by (auto simp: first_block_def file_ok_def held_def intro!: exI [of _ s] exI [of _ "[]"])
next
  case True
  let ?i = "core s a"
  have i: "i_size ?i = 0" "i_sectors ?i = replicate 13 0" "n = 1" using True assms(2,4) by (simp_all add: file_ok_def)
  obtain b s1 where b: "block_bitmap_alloc s = Inr (int (unat b), s1)" "takes [b] s s1" "core s1 = core s"
      "unat (b - data_start_lba (sb s)) = unat b - data_start s"
    using alloc_block [OF assms(1,3)] by blast
  define s2 where "s2 = set_core a (\<lambda>i. i\<lparr>i_sectors := (i_sectors i)[0 := b]\<rparr>) s1"
  have t2: "takes [b] s s2" unfolding s2_def by (rule set_core_takes) (rule b(2))
  have al: "allocated s2 b" "layout s2" "sb s2 = sb s" "\<not> allocated s b" using t2 takes_sb [OF t2] by (simp_all add: takes_def)
  obtain s3 where s3: "bitmap_sync (b - data_start_lba (sb s)) BLOCK_BITMAP s2 = Inr s3" "takes [] s2 s3" "core s3 = core s2"
    using sync_block [OF al(2,1)] al(3) by auto
  have nz: "b - data_start_lba (sb s) \<noteq> 0" using al(1,3) b(4) by (auto simp: allocated_def word_unat_eq_iff)
  have t3: "takes [b] s s3" using takes_trans [OF t2 s3(2)] by simp
  have c3: "core s3 = (core s)(a := ?i\<lparr>i_sectors := b # replicate 12 0\<rparr>)"
    using s3(3) b(3) i(2) by (simp add: s2_def numeral_eq_Suc)
  have al3: "allocated s3 b" "layout s3" "full (sects s3)" using t3 by (auto simp: takes_def)
  have ow: "owned 1 (core s3 a) s3 = [b]" using c3 by (simp add: owned_def file_blocks_def numeral_eq_Suc)
  have "(b # replicate 12 0) ! k = 0" if "1 \<le> k" "k < 13" for k using that by (simp add: nth_Cons')
  then have "blocks_ok 1 (core s3 a) s3" unfolding blocks_ok_def ow using al3 c3 by simp
  moreover have "first_block a s = Inr (True, s3)"
    using True b(1,3) s3(1) nz uint_not_neg [of b] takes_sb [OF b(2)] by (simp add: first_block_def Let_def s2_def [symmetric])
  moreover have "contents (core s3 a) s3 = contents ?i s" using c3 i(1) by (simp add: contents_def file_bytes_def)
  ultimately show ?thesis using t3 c3 ow al(4) i(3) by auto
qed

text \<open>The situation of a write.\<close>

definition write_ready :: "nat \<Rightarrow> u32 \<Rightarrow> u8 list \<Rightarrow> u32 \<Rightarrow> fsys \<Rightarrow> bool" where
  "write_ready f a buf count s \<longleftrightarrow>
     f < length (file_table s) \<and> fd_inode (file_table s ! f) = a \<and>
     heap s (heap_n s) \<noteq> 0 \<and> heap s (heap_n s + 1) \<noteq> 0 \<and> heap s (heap_n s + 2) \<noteq> 0 \<and>
     layout s \<and> file_ok (core s a) s \<and> i_no (core s a) < 256 \<and> unat count \<le> length buf"

lemma contents_nth:
  "length (contents i s) = unat (i_size i)" "p < unat (i_size i) \<Longrightarrow> contents i s ! p = file_byte (file_blocks i s) s p"
  by (simp_all add: contents_def file_bytes_def)

lemma contentsI:
  assumes "unat (i_size j) = unat (i_size i) + n" "n \<le> length buf"
    "\<And>p. p < unat (i_size i) + n \<Longrightarrow> file_byte (file_blocks j t) t p =
       (if p < unat (i_size i) then file_byte (file_blocks i s) s p else buf ! (p - unat (i_size i)))"
  shows "contents j t = contents i s @ take n buf"
  by (rule nth_equalityI) (use assms in \<open>auto simp: contents_nth nth_append\<close>)

text \<open>The states a write goes through: \<open>s1\<close> with a first block, \<open>s2\<close> grown, \<open>s3\<close> with the data, \<open>t\<close> with the
  inode on disk.\<close>

lemma grown_appended:
  assumes "layout s" "blocks_ok n i s" "i = core s a" "n = unat (i_size i) div 512 + 1" "w = (unat (i_size i) + unat count) div 512 + 1"
    "w < 140" "grown n w a s ab s2" "unat count \<le> length buf" "f < length (file_table s)" "u = set_file f h s2"
  shows "\<exists>g. write_data ab True buf count f a u = Inr (advanced f a count u\<lparr>sects := g\<rparr>) \<and> full g \<and>
    blocks_ok w (core s2 a) (s2\<lparr>sects := g\<rparr>) \<and> contents ((core s2 a)\<lparr>i_size := i_size i + count\<rparr>) (s2\<lparr>sects := g\<rparr>) = contents i s @ take (unat count) buf \<and>
    (\<forall>m. m \<notin> unat ` set (owned w (core s2 a) s2) \<longrightarrow> g m = sects s2 m) \<and>
    owned w (core s2 a) (s2\<lparr>sects := g\<rparr>) = owned w (core s2 a) s2"
proof -
  let ?j = "core s2 a" and ?pos = "unat (i_size i)"
  have gr: "layout s2" "blocks_ok w ?j s2" "length ab = 140" "meta s2 = meta s" "core s2 = (core s)(a := i\<lparr>i_sectors := i_sectors ?j\<rparr>)"
      "\<And>k. n - 1 \<le> k \<Longrightarrow> k < w \<Longrightarrow> ab ! k = file_blocks ?j s2 ! k"
      "\<And>k. k < n \<Longrightarrow> file_blocks ?j s2 ! k = file_blocks i s ! k"
      "\<And>k. k < n \<Longrightarrow> sects s2 (unat (file_blocks i s ! k)) = sects s (unat (file_blocks i s ! k))"
    using assms(3,7) by (simp_all add: grown_def)
  have sz: "i_size ?j = i_size i" using arg_cong [OF gr(5), of "\<lambda>c. i_size (c a)"] by simp
  have small: "?pos + unat count < 140 * 512" using assms(5,6) by simp
  have bu: "layout u" "blocks_ok w ?j u" "?j = core u a" "length (file_table u) = length (file_table s)" "file_blocks ?j u = file_blocks ?j s2" "sects u = sects s2"
    using gr(1,2,4) assms(10) by (simp_all add: meta_def)
  obtain g where g: "write_data ab True buf count f a u = Inr (advanced f a count u\<lparr>sects := g\<rparr>)" "full g"
      "\<And>p. p < ?pos + unat count \<Longrightarrow> file_byte (file_blocks ?j s2) (u\<lparr>sects := g\<rparr>) p =
         (if p < ?pos then file_byte (file_blocks ?j s2) u p else buf ! (p - ?pos))"
      "\<And>m. m \<notin> (\<lambda>k. unat (file_blocks ?j s2 ! k)) ` {..<w} \<Longrightarrow> g m = sects s2 m"
    using append_data [OF bu(1,2,3) refl _ _ assms(8) gr(3), of f] small gr(6) assms(4,5,9) bu(4-6) sz by auto
  have full2: "full (sects s2)" using gr(1) by auto
  have tab: "g (unat (i_sectors ?j ! 12)) = sects s2 (unat (i_sectors ?j ! 12))" if "12 < w"
  proof (rule g(4), rule notI)
    assume "unat (i_sectors ?j ! 12) \<in> (\<lambda>k. unat (file_blocks ?j s2 ! k)) ` {..<w}"
    then obtain k where k: "k < w" "file_blocks ?j s2 ! k = i_sectors ?j ! 12" by (auto simp: word_unat_eq_iff)
    then show False using blocks_inj(2) [OF gr(2) full2 that k(1)] by simp
  qed
  have l13: "length (i_sectors ?j) = 13" using gr(2) by (simp add: blocks_ok_def)
  have fb: "file_blocks (?j\<lparr>i_size := z\<rparr>) (s2\<lparr>sects := g\<rparr>) ! k = file_blocks ?j s2 ! k" if "k < w" for k z
    by (rule file_blocks_cong [OF l13 _ that]) (use tab in simp_all)
  have len: "length (file_blocks ?j (s2\<lparr>sects := g\<rparr>)) = 140" "length (file_blocks ?j s2) = 140"
    using length_file_blocks [of "s2\<lparr>sects := g\<rparr>"] length_file_blocks [OF full2 l13] g(2) l13 by simp_all
  have "take w (file_blocks ?j (s2\<lparr>sects := g\<rparr>)) = take w (file_blocks ?j s2)"
    by (rule nth_equalityI) (use fb [of _ "i_size ?j"] len in simp_all)
  then have ow: "owned w ?j (s2\<lparr>sects := g\<rparr>) = owned w ?j s2" by (simp add: owned_def)
  then have "blocks_ok w ?j (s2\<lparr>sects := g\<rparr>)" using gr(2) by (simp add: blocks_ok_def)
  moreover have "contents (?j\<lparr>i_size := i_size i + count\<rparr>) (s2\<lparr>sects := g\<rparr>) = contents i s @ take (unat count) buf"
  proof (rule contentsI [OF _ assms(8)])
    show "unat (i_size (?j\<lparr>i_size := i_size i + count\<rparr>)) = ?pos + unat count" using unat_add_u32 [of "i_size i" count] small by simp
    fix p assume p: "p < ?pos + unat count"
    then have pw: "p div 512 < w" using assms(5) by (simp add: less_Suc_eq_le div_le_mono)
    have "file_byte (file_blocks (?j\<lparr>i_size := i_size i + count\<rparr>) (s2\<lparr>sects := g\<rparr>)) (s2\<lparr>sects := g\<rparr>) p =
        file_byte (file_blocks ?j s2) (u\<lparr>sects := g\<rparr>) p"
      using fb [OF pw] by (simp add: file_byte_def)
    moreover have "file_byte (file_blocks ?j s2) u p = file_byte (file_blocks i s) s p" if "p < ?pos"
    proof -
      have "p div 512 < n" using that assms(4) by (simp add: less_Suc_eq_le div_le_mono)
      then show ?thesis using gr(7,8) bu(6) by (simp add: file_byte_def)
    qed
    ultimately show "file_byte (file_blocks (?j\<lparr>i_size := i_size i + count\<rparr>) (s2\<lparr>sects := g\<rparr>)) (s2\<lparr>sects := g\<rparr>) p =
        (if p < ?pos then file_byte (file_blocks i s) s p else buf ! (p - ?pos))"
      using g(3) [OF p] by simp
  qed
  moreover have "g m = sects s2 m" if "m \<notin> unat ` set (owned w ?j s2)" for m
  proof (rule g(4))
    have "(\<lambda>k. unat (file_blocks ?j s2 ! k)) ` {..<w} \<subseteq> unat ` set (owned w ?j s2)"
      using nth_owned [OF gr(2) _ full2] by auto
    then show "m \<notin> (\<lambda>k. unat (file_blocks ?j s2 ! k)) ` {..<w}" using that by blast
  qed
  ultimately show ?thesis using g(1,2) ow by blast
qed

lemma file_write_run:
  assumes "write_ready f a buf count s" "unat (i_size (core s a)) + unat count < 71168"
    "first_block a (s\<lparr>heap_n := heap_n s + 2\<rparr>) = Inr (True, s1)" "i_size (core s1 a) = i_size (core s a)"
    "write_blocks (unat (i_size (core s a)) div 512 + 1) ((unat (i_size (core s a)) + unat count) div 512 + 1) a s1 = Inr (Some ab, s2)"
    "u = set_file f (\<lambda>fl. fl\<lparr>fd_pos := i_size (core s2 a) - 1\<rparr>) s2" "write_data ab True buf count f a u = Inr s3"
    "heap s3 (heap_n s3) \<noteq> 0" "inode_sync (core s3 a) (s3\<lparr>heap_n := heap_n s3 + 1\<rparr>) = Inr t"
  shows "file_write f buf count s = Inr (int (unat count), t)"
proof -
  have a: "fd_inode (file_table s ! f) = a" "heap s (heap_n s) \<noteq> 0" "heap s (Suc (heap_n s)) \<noteq> 0"
    using assms(1) by (simp_all add: write_ready_def)
  have sum: "unat (i_size (core s a) + count) = unat (i_size (core s a)) + unat count"
    using assms(2) by (intro unat_add_u32) simp
  have lim: "\<not> i_size (core s a) + count > 512 * 140" using sum assms(2) by (simp add: word_less_nat_alt)
  have blk: "unat (i_size (core s a) div 512 + 1) = unat (i_size (core s a)) div 512 + 1"
    "unat ((i_size (core s a) + count) div 512 + 1) = (unat (i_size (core s a)) + unat count) div 512 + 1"
    using sum assms(2) by (auto simp: unat_div intro!: unat_add_u32 [THEN trans])
  have asr: "(i_size (core s a) + count) div 512 + 1 < 140" using blk(2) assms(2) by (simp add: word_less_nat_alt del: One_nat_def)
  have "sint count = int (unat count)" by (rule sint_small) (use assms(2) in simp)
  then show ?thesis
    using a lim asr assms(3-9) blk unfolding file_write_def Let_def
    by (simp add: sys_malloc_obj_def)
qed

text \<open>A file depends on the sectors it owns only.\<close>

lemma owned_cong:
  assumes "blocks_ok w i s" "full (sects s)" "full (sects t)" "\<And>b. b \<in> set (owned w i s) \<Longrightarrow> sects t (unat b) = sects s (unat b)"
  shows "k < w \<Longrightarrow> file_blocks i t ! k = file_blocks i s ! k" "owned w i t = owned w i s"
proof -
  have l: "length (i_sectors i) = 13" using assms(1) by (simp add: blocks_ok_def)
  have "12 < w \<Longrightarrow> i_sectors i ! 12 \<in> set (owned w i s)" by (simp add: owned_def)
  then have fb: "file_blocks i t ! k = file_blocks i s ! k" if "k < w" for k
    using file_blocks_cong [OF l refl that] assms(4) by blast
  then show "k < w \<Longrightarrow> file_blocks i t ! k = file_blocks i s ! k" .
  have "take w (file_blocks i t) = take w (file_blocks i s)"
    by (rule nth_equalityI) (use fb length_file_blocks l assms(2,3) in simp_all)
  then show "owned w i t = owned w i s" by (simp add: owned_def)
qed

lemma contents_cong:
  assumes "blocks_ok w i s" "full (sects s)" "full (sects t)" "\<And>b. b \<in> set (owned w i s) \<Longrightarrow> sects t (unat b) = sects s (unat b)"
    "unat (i_size i) div 512 < w"
  shows "contents i t = contents i s"
proof (rule nth_equalityI)
  fix p assume "p < length (contents i t)"
  then have p: "p < unat (i_size i)" by (simp add: contents_nth)
  then have w: "p div 512 < w" using assms(5) div_le_mono [of p "unat (i_size i)" 512] by simp
  show "contents i t ! p = contents i s ! p"
    using p owned_cong(1) [OF assms(1-4) w] assms(4) [OF nth_owned [OF assms(1) w assms(2)]]
    by (simp add: contents_nth file_byte_def)
qed (simp add: contents_nth)

lemma blocks_ok_mono:
  assumes "blocks_ok w i s" "owned w j t = owned w i s" "i_sectors j = i_sectors i" "\<And>b. allocated s b \<Longrightarrow> allocated t b"
  shows "blocks_ok w j t"
  using assms by (simp add: blocks_ok_def)

text \<open>The inode on disk: nothing but the table changes.\<close>

lemma sync_appended:
  assumes "layout s" "blocks_ok w i s" "unat (i_size i) div 512 < w" "i_no i < 256"
  shows "\<exists>t. inode_sync i s = Inr t \<and> layout t \<and> t = s\<lparr>sects := sects t\<rparr> \<and> (\<forall>b. allocated s b \<longrightarrow> sects t (unat b) = sects s (unat b)) \<and>
    load_inode (i_no i) t = Inr (at_rest i) \<and> blocks_ok w i t \<and> contents i t = contents i s"
proof -
  have tb: "table_ok s" using assms(1) by (simp add: layout_def)
  have l: "length (i_sectors i) = 13" using assms(2) by (simp add: blocks_ok_def)
  obtain t where t: "inode_sync i s = Inr t" "table_ok t" "t = s\<lparr>sects := sects t\<rparr>" "outside_table s t"
      "\<And>j. j < 4096 \<Longrightarrow> slot j t = (if j = unat (i_no i) mod 256 then pure_bytes i else slot j s)"
    using sync_slot [OF tb l] by blast
  have fields: "sb t = sb s" "block_bitmap t = block_bitmap s" "part_start t = part_start s" "part_cnt t = part_cnt s"
    by (subst t(3), simp)+
  have lt: "layout t" using assms(1) t(2) fields by (simp add: layout_def)
  have al: "allocated t = allocated s" using fields by (simp add: allocated_def fun_eq_iff)
  have same: "sects t (unat b) = sects s (unat b)" if "allocated s b" for b
    using allocated_high [OF assms(1) that] t(4) by (simp add: outside_table_def)
  have own: "\<And>b. b \<in> set (owned w i s) \<Longrightarrow> sects t (unat b) = sects s (unat b)"
    using same assms(2) by (simp add: blocks_ok_def)
  note full = layout_full [OF assms(1)] layout_full [OF lt]
  have n: "unat (i_no i) < 256" using assms(4) by (simp add: word_less_nat_alt)
  then have "i_no i < 4096" by (simp add: word_less_nat_alt)
  then have "load_inode (i_no i) t = Inr (at_rest i)"
    using load_slot [OF t(2), of "i_no i"] t(5) [of "unat (i_no i)"] n pure_bytes_of(2) [OF l] by simp
  moreover have "blocks_ok w i t"
    by (rule blocks_ok_mono [OF assms(2) owned_cong(2) [OF assms(2) full own]]) (simp_all add: al)
  moreover have "contents i t = contents i s" by (rule contents_cong [OF assms(2) full own assms(3)])
  ultimately show ?thesis using t(1,3) lt same by blast
qed

text \<open>The state before the inode is written to disk.\<close>

definition others_kept :: "u32 list \<Rightarrow> fsys \<Rightarrow> fsys \<Rightarrow> bool" where
  "others_kept bs s t \<longleftrightarrow> (\<forall>b. allocated s b \<longrightarrow> b \<notin> set bs \<longrightarrow> allocated t b \<and> sects t (unat b) = sects s (unat b))"

lemma file_write_data:
  assumes "write_ready f a buf count s" "unat (i_size (core s a)) + unat count < 71168"
    "(unat (i_size (core s a)) + unat count) div 512 - unat (i_size (core s a)) div 512 + 1 < free_blocks s"
  shows "\<exists>u i'. (\<forall>t. inode_sync i' u = Inr t \<longrightarrow> file_write f buf count s = Inr (int (unat count), t)) \<and>
    i' = core u a \<and> i_no i' = i_no (core s a) \<and> unat (i_size i') = unat (i_size (core s a)) + unat count \<and>
    layout u \<and> blocks_ok (unat (i_size i') div 512 + 1) i' u \<and> contents i' u = contents (core s a) s @ take (unat count) buf \<and>
    others_kept (held (core s a) s) s u \<and> (\<forall>x. x \<noteq> a \<longrightarrow> core u x = core s x)"
proof -
  let ?i = "core s a" and ?s = "s\<lparr>heap_n := heap_n s + 2\<rparr>"
  define n w where "n = unat (i_size ?i) div 512 + 1" and "w = (unat (i_size ?i) + unat count) div 512 + 1"
  have r: "f < length (file_table s)" "layout s" "file_ok ?i s" "unat count \<le> length buf" "heap s (heap_n s + 2) \<noteq> 0"
    using assms(1) by (simp_all add: write_ready_def)
  have w: "w < 140" "n \<le> w" using assms(2) by (simp_all add: w_def n_def div_le_mono)
  have free: "w - n + 1 < free_blocks s" using assms(3) by (simp add: w_def n_def)
  obtain bs s1 where s1: "first_block a ?s = Inr (True, s1)" "takes bs ?s s1" "length bs \<le> 1"
      "core s1 = (core s)(a := ?i\<lparr>i_sectors := i_sectors (core s1 a)\<rparr>)" "blocks_ok n (core s1 a) s1"
      "\<And>b. b \<in> set (owned n (core s1 a) s1) \<Longrightarrow> b \<in> set (held ?i s) \<or> \<not> allocated s b"
      "contents (core s1 a) s1 = contents ?i ?s"
    using first_block_ok [of ?s a n] r free by (auto simp: n_def)
  have tk1: "layout s1" "meta s1 = meta ?s" "\<And>b. allocated s b \<Longrightarrow> allocated s1 b" "free_blocks s = free_blocks s1 + length bs"
      "\<And>m. unat (inode_table_lba (sb s)) \<le> m \<Longrightarrow> sects s1 m = sects s m"
    using s1(2) by (auto simp: takes_def)
  obtain ab s2 where s2: "write_blocks n w a s1 = Inr (Some ab, s2)" "grown n w a s1 ab s2"
    using write_blocks_ok [OF tk1(1) s1(5) w(2)] w(1) free s1(3) tk1(4) by auto
  have gr: "layout s2" "meta s2 = meta s1" "\<And>b. allocated s1 b \<Longrightarrow> allocated s2 b"
      "core s2 = (core s1)(a := (core s1 a)\<lparr>i_sectors := i_sectors (core s2 a)\<rparr>)"
      "\<And>b. allocated s1 b \<Longrightarrow> b \<notin> set (owned w (core s2 a) s2) \<Longrightarrow> sects s2 (unat b) = sects s1 (unat b)"
      "\<And>b. b \<in> set (owned w (core s2 a) s2) \<Longrightarrow> b \<in> set (owned n (core s1 a) s1) \<or> \<not> allocated s1 b"
    using s2(2) by (auto simp: grown_def)
  have i1: "i_size (core s1 a) = i_size ?i" "i_no (core s1 a) = i_no ?i"
    using arg_cong [OF s1(4), of "\<lambda>c. i_size (c a)"] arg_cong [OF s1(4), of "\<lambda>c. i_no (c a)"] by simp_all
  have i2: "i_size (core s2 a) = i_size ?i" "i_no (core s2 a) = i_no ?i"
    using arg_cong [OF gr(4), of "\<lambda>c. i_size (c a)"] arg_cong [OF gr(4), of "\<lambda>c. i_no (c a)"] i1 by simp_all
  define v where "v = set_file f (\<lambda>fl. fl\<lparr>fd_pos := i_size (core s2 a) - 1\<rparr>) s2"
  have ft: "f < length (file_table s1)" using r(1) tk1(2) by (simp add: meta_def)
  obtain g where g: "write_data ab True buf count f a v = Inr (advanced f a count v\<lparr>sects := g\<rparr>)" "full g"
      "blocks_ok w (core s2 a) (s2\<lparr>sects := g\<rparr>)"
      "contents ((core s2 a)\<lparr>i_size := i_size (core s1 a) + count\<rparr>) (s2\<lparr>sects := g\<rparr>) = contents (core s1 a) s1 @ take (unat count) buf"
      "\<And>m. m \<notin> unat ` set (owned w (core s2 a) s2) \<Longrightarrow> g m = sects s2 m"
    using grown_appended [OF tk1(1) s1(5) refl _ _ w(1) s2(2) r(4) ft v_def] i1(1) by (auto simp: n_def w_def)
  define s3 where "s3 = advanced f a count v\<lparr>sects := g\<rparr>"
  define u where "u = s3\<lparr>heap_n := heap_n s3 + 1\<rparr>"
  have m3: "heap s3 = heap s" "heap_n s3 = heap_n s + 2" "sb u = sb s2" "block_bitmap u = block_bitmap s2" "sects u = g"
      "part_start u = part_start s2" "part_cnt u = part_cnt s2" "core s3 = core u"
      "core u = (core s2)(a := (core s2 a)\<lparr>i_size := i_size ?i + count\<rparr>)"
    using gr(2) tk1(2) i2(1) by (simp_all add: u_def s3_def advanced_def v_def set_file_def set_core_def meta_def)
  have lu: "layout u" using gr(1) g(2) m3 by (simp add: layout_def table_ok_def)
  have au: "allocated u = allocated s2" using m3(3,4) by (simp add: allocated_def fun_eq_iff)
  have cu: "core u a = (core s2 a)\<lparr>i_size := i_size ?i + count\<rparr>" using m3(9) by simp
  have sz: "unat (i_size ?i + count) = unat (i_size ?i) + unat count" using assms(2) by (intro unat_add_u32) simp
  have "file_write f buf count s = Inr (int (unat count), t)" if "inode_sync (core u a) u = Inr t" for t
  proof (rule file_write_run [OF assms(1,2) s1(1) i1(1) s2(1) [unfolded n_def w_def] v_def g(1) [folded s3_def]])
    show "heap s3 (heap_n s3) \<noteq> 0" using m3(1,2) r(5) by simp
    show "inode_sync (core s3 a) (s3\<lparr>heap_n := heap_n s3 + 1\<rparr>) = Inr t" using that unfolding m3(8) unfolding u_def .
  qed
  moreover have "blocks_ok w (core u a) u"
    by (rule blocks_ok_mono [OF g(3)]) (simp_all add: au cu owned_def file_blocks_def m3(5))
  moreover have "contents (core u a) u = contents ?i s @ take (unat count) buf"
    using g(4) s1(7) cu i1(1) m3(5) by (simp add: contents_def file_bytes_def file_blocks_def file_byte_def cong: map_cong)
  moreover have "others_kept (held ?i s) s u"
    unfolding others_kept_def
  proof (intro allI impI)
    fix b assume b: "allocated s b" "b \<notin> set (held ?i s)"
    have b1: "allocated s1 b" using tk1(3) b(1) .
    have nin: "b \<notin> set (owned w (core s2 a) s2)" using gr(6) s1(6) b b1 by blast
    then have "g (unat b) = sects s2 (unat b)" by (intro g(5)) (auto dest: word_unat_eq_iff [THEN iffD2])
    also have "\<dots> = sects s (unat b)" using gr(5) [OF b1 nin] tk1(5) allocated_high [OF r(2) b(1)] by simp
    finally show "allocated u b \<and> sects u (unat b) = sects s (unat b)" using gr(3) [OF b1] au m3(5) by simp
  qed
  moreover have "core u x = core s x" if "x \<noteq> a" for x
    using that m3(9) fun_cong [OF gr(4), of x] fun_cong [OF s1(4), of x] by simp
  ultimately show ?thesis using lu cu i2(2) sz by (intro exI [of _ u] exI [of _ "core u a"]) (simp add: w_def)
qed

text \<open>C1: A write appends. If the file stays below 71168 bytes, enough blocks are free and the buffers can be
  allocated, \<^verbatim>\<open>file_write\<close> returns the number of bytes, the file's contents are the old ones followed by
  the bytes written, the inode on disk is the one in memory, and the file is again one that can be
  written to. Every block that belonged to anything else is still allocated and holds what it held, and no
  other inode in memory has changed. This covers files within the direct blocks, files that come to need the
  indirect block and files that already have it.\<close>

theorem file_write_appends:
  assumes "write_ready f a buf count s" "unat (i_size (core s a)) + unat count < 71168"
    "(unat (i_size (core s a)) + unat count) div 512 - unat (i_size (core s a)) div 512 + 1 < free_blocks s"
  shows "\<exists>t. file_write f buf count s = Inr (int (unat count), t) \<and>
    contents (core t a) t = contents (core s a) s @ take (unat count) buf \<and>
    load_inode (i_no (core s a)) t = Inr (at_rest (core t a)) \<and> layout t \<and> file_ok (core t a) t \<and>
    others_kept (held (core s a) s) s t \<and>
    (\<forall>x. x \<noteq> a \<longrightarrow> core t x = core s x)"
proof -
  have no: "i_no (core s a) < 256" using assms(1) by (simp add: write_ready_def)
  obtain u i' where u: "\<And>t. inode_sync i' u = Inr t \<Longrightarrow> file_write f buf count s = Inr (int (unat count), t)"
      "i' = core u a" "i_no i' = i_no (core s a)" "layout u" "blocks_ok (unat (i_size i') div 512 + 1) i' u"
      "contents i' u = contents (core s a) s @ take (unat count) buf" "others_kept (held (core s a) s) s u"
      "\<And>x. x \<noteq> a \<Longrightarrow> core u x = core s x"
    using file_write_data [OF assms] by metis
  obtain t where t: "inode_sync i' u = Inr t" "layout t" "t = u\<lparr>sects := sects t\<rparr>"
      "\<And>b. allocated u b \<Longrightarrow> sects t (unat b) = sects u (unat b)" "load_inode (i_no i') t = Inr (at_rest i')"
      "blocks_ok (unat (i_size i') div 512 + 1) i' t" "contents i' t = contents i' u"
    using sync_appended [OF u(4,5)] no u(3) by auto
  have ct: "core t = core u" "allocated t = allocated u" by (subst t(3), simp)+
  have "i_sectors i' ! 0 \<noteq> 0"
    using allocated_nz [OF block_allocated [OF t(6) _ layout_full [OF t(2)], of 0]] t(6)
    by (simp add: nth_file_blocks blocks_ok_def)
  then have "file_ok (core t a) t" using t(6) ct(1) u(2) by (simp add: file_ok_def blocks_ok_def)
  moreover have "others_kept (held (core s a) s) s t" using u(7) t(4) ct(2) by (simp add: others_kept_def)
  ultimately show ?thesis using u t ct(1) by auto
qed

text \<open>An empty file, open in slot 3.\<close>

definition write_demo :: fsys where
  "write_demo = demo_fs\<lparr>file_table := (file_table demo_fs)[3 := \<lparr>fd_pos = 0, fd_flag = 2, fd_inode = 0xc0300000\<rparr>]\<rparr>"

lemma demo_used: "j < 4096 \<Longrightarrow> bm_used (block_bitmap write_demo) j \<longleftrightarrow> j = 0"
proof -
  assume "j < 4096"
  then have "j div 8 - 1 < 511" by simp
  then have byte: "bits (block_bitmap write_demo) ! (j div 8) = (if j div 8 = 0 then 1 else 0)"
    by (simp add: write_demo_def demo_fs_def nth_Cons')
  have "bm_used (block_bitmap write_demo) j \<longleftrightarrow> j div 8 = 0 \<and> j mod 8 = 0"
    unfolding bm_used_def byte by (simp add: bit_1_iff)
  also have "\<dots> \<longleftrightarrow> j = 0" using mult_div_mod_eq [of 8 j] by auto
  finally show ?thesis .
qed

lemma demo_layout: "layout write_demo" "4095 = free_blocks write_demo"
proof -
  have cap: "bm_cap (block_bitmap write_demo) = 4096" by (simp add: write_demo_def demo_fs_def bm_cap_def)
  show "layout write_demo"
    using demo_used [of 0] by (simp add: layout_def bm_wf_def cap) (simp add: write_demo_def demo_fs_def table_ok_def full_def)
  have "{j. j < 4096 \<and> \<not> bm_used (block_bitmap write_demo) j} = {1..<4096}"
    using demo_used by (auto simp: Suc_le_eq)
  then show "4095 = free_blocks write_demo" unfolding free_blocks_def cap by simp
qed

lemma demo_write_ready: "unat count \<le> length buf \<Longrightarrow> write_ready 3 0xc0300000 buf count write_demo"
proof -
  assume "unat count \<le> length buf"
  moreover have "file_ok (core write_demo 0xc0300000) write_demo" "i_size (core write_demo 0xc0300000) = 0"
    by (simp_all add: file_ok_def write_demo_def demo_fs_def)
  ultimately show ?thesis
    using demo_layout(1) by (simp add: write_ready_def) (simp add: write_demo_def demo_fs_def)
qed

theorem file_write_appends_witness:
  "\<exists>t. file_write 3 [104, 105, 33] 3 write_demo = Inr (3, t) \<and> contents (core t 0xc0300000) t = [104, 105, 33] \<and>
     load_inode 0 t = Inr (at_rest (core t 0xc0300000))"
proof -
  have z: "i_size (core write_demo 0xc0300000) = 0" "i_no (core write_demo 0xc0300000) = 0"
    by (simp_all add: write_demo_def demo_fs_def)
  then have "contents (core write_demo 0xc0300000) write_demo = []" by (simp add: contents_def file_bytes_def)
  then show ?thesis
    using file_write_appends [OF demo_write_ready [of 3 "[104, 105, 33]"]] z demo_layout(2) by fastforce
qed

text \<open>The largest file. A write that would take a file beyond 71680 bytes returns -1 and changes nothing;
  one that would take it to a size between 71168 and 71680 passes that check and then stops the kernel at
  the assertion on the number of blocks, which allows one block less.\<close>

theorem file_write_limits:
  assumes "fd_inode (file_table s ! f) = a" "unat (i_size (core s a)) + unat count < 2 ^ 32"
    "heap s (heap_n s) \<noteq> 0" "heap s (heap_n s + 1) \<noteq> 0" "i_sectors (core s a) ! 0 \<noteq> 0"
    "71168 \<le> unat (i_size (core s a)) + unat count"
  shows "file_write f buf count s =
    (if unat (i_size (core s a)) + unat count > 71680 then Inr (-1, s) else Inl Assert_failed)"
proof -
  have sum: "unat (i_size (core s a) + count) = unat (i_size (core s a)) + unat count" using assms(2) by (rule unat_add_u32)
  have lim: "i_size (core s a) + count > 512 * 140 \<longleftrightarrow> unat (i_size (core s a)) + unat count > 71680"
    using sum by (simp add: word_less_nat_alt)
  have "\<not> (i_size (core s a) + count) div 512 + 1 < 140" if "\<not> unat (i_size (core s a)) + unat count > 71680"
  proof -
    have q: "139 \<le> unat ((i_size (core s a) + count) div 512)" "unat ((i_size (core s a) + count) div 512) \<le> 140"
      using sum that assms(6) by (simp_all add: unat_div)
    then have "unat ((i_size (core s a) + count) div 512 + 1) = unat ((i_size (core s a) + count) div 512) + 1"
      by (subst unat_add_u32) simp_all
    then show ?thesis using q by (simp add: word_less_nat_alt)
  qed
  then show ?thesis
    using lim assms(1,3-5) by (simp add: file_write_def Let_def sys_malloc_obj_def first_block_def)
qed

theorem file_write_limits_witness:
  "file_write 3 [1] 65000 (read_demo 0) = Inr (-1, read_demo 0) \<and> file_write 3 [1] 64400 (read_demo 0) = Inl Assert_failed"
proof -
  have c: "fd_inode (file_table (read_demo 0) ! 3) = 0xc0200000" "core (read_demo 0) 0xc0200000 = demo_file"
      "i_size demo_file = 7000" "i_sectors demo_file ! 0 \<noteq> 0" "heap (read_demo 0) n = 0xc0200000 + 1024 * of_nat n" "heap_n (read_demo 0) = 0" for n
    by (simp_all add: read_demo_def demo_fs_def demo_file_def nth_append)
  show ?thesis
    using file_write_limits [OF c(1), of 65000 "[1]"] file_write_limits [OF c(1), of 64400 "[1]"] c(2-6) by simp
qed

end
