(* ===== verification/Dir.thy ===== *)
theory Dir
  imports FileWrite
begin

text \<open>
  \<^verbatim>\<open>fs/dir.c\<close>: directories. A directory is a file of entries, 24 bytes each (a name of 16 bytes, an inode
  number, a type), of which a sector holds \<^verbatim>\<open>SECTOR_SIZE / dir_entry_size\<close>. Entries are their bytes, because
  the code moves them with \<^verbatim>\<open>memcpy\<close>; a name is compared in place, up to the end of the sector
  when it has no terminator.

  A \<^verbatim>\<open>struct dir\<close> lives at an address that \<^verbatim>\<open>sys_malloc\<close> returned, but for \<^verbatim>\<open>root_dir\<close>, a global. Operations
  that use no more of it than its inode take the inode's address.
\<close>

section \<open>State\<close>

record kdir =
  dir_inode :: u32
  dir_pos :: u32
  dir_buf :: "u8 list"

record fstate =
  fs :: fsys
  dirs :: "u32 \<Rightarrow> kdir"
  root_dir :: u32
  cwd_inode_nr :: u32

abbreviation FT_UNKNOWN :: u32 where "FT_UNKNOWN \<equiv> 0"
abbreviation FT_REGULAR :: u32 where "FT_REGULAR \<equiv> 1"
abbreviation FT_DIRECTORY :: u32 where "FT_DIRECTORY \<equiv> 2"

section \<open>Entries\<close>

text \<open>\<^verbatim>\<open>dir_e + idx\<close> in a buffer, its fields, and the buffer from its name on.\<close>

definition de :: "nat \<Rightarrow> u8 list \<Rightarrow> u8 list" where
  "de idx buf = take 24 (drop (24 * idx) buf)"

definition de_i_no :: "u8 list \<Rightarrow> u32" where
  "de_i_no e = rd32 (e ! 16) (e ! 17) (e ! 18) (e ! 19)"

definition de_f_type :: "u8 list \<Rightarrow> u32" where
  "de_f_type e = rd32 (e ! 20) (e ! 21) (e ! 22) (e ! 23)"

definition chars :: "u8 list \<Rightarrow> char list" where
  "chars bs = map (\<lambda>b. char_of (unat b)) bs"

definition bytes :: "char list \<Rightarrow> u8 list" where
  "bytes cs = map of_char cs"

definition name_at :: "nat \<Rightarrow> u8 list \<Rightarrow> char list" where
  "name_at idx buf = chars (drop (24 * idx) buf)"

definition create_dir_entry :: "char list \<Rightarrow> u32 \<Rightarrow> u8 \<Rightarrow> u8 list \<Rightarrow> u8 list result" where
  "create_dir_entry filename inode_no file_type p_de =
     bindE (strlen filename) (\<lambda>n.
       assertE (n \<le> 16)
         (bindE (memcpy p_de (bytes filename) n) (\<lambda>e.
            Inr (take 16 e @ le32 inode_no @ le32 (ucast file_type)))))"

text \<open>The number of entries in a sector; a division by zero is a processor exception, which stops the kernel.\<close>

definition entries_per_sec :: "fsys \<Rightarrow> nat result" where
  "entries_per_sec s = (let n = unat (dir_entry_size (sb s)) in if n = 0 then Inl Panicked else Inr (512 div n))"

section \<open>Opening and closing\<close>

definition open_root_dir :: "fstate \<Rightarrow> fstate result" where
  "open_root_dir s =
     bindE (inode_open (root_inode_no (sb (fs s))) (fs s)) (\<lambda>(a, m).
       Inr (s\<lparr>fs := m, dirs := (dirs s)(root_dir s := (dirs s (root_dir s))\<lparr>dir_inode := a, dir_pos := 0\<rparr>)\<rparr>))"

definition dir_open :: "u32 \<Rightarrow> fstate \<Rightarrow> (u32 \<times> fstate) result" where
  "dir_open inode_no s =
     (let (pdir, m) = sys_malloc_obj (fs s) in
      bindE (inode_open inode_no m) (\<lambda>(a, m).
        if pdir = 0 then Inl Out_of_bounds
        else Inr (pdir, s\<lparr>fs := m, dirs := (dirs s)(pdir := (dirs s pdir)\<lparr>dir_inode := a, dir_pos := 0\<rparr>)\<rparr>)))"

definition dir_close :: "u32 \<Rightarrow> fstate \<Rightarrow> fstate" where
  "dir_close d s = (if d = root_dir s then s else s\<lparr>fs := inode_close (dir_inode (dirs s d)) (fs s)\<rparr>)"

section \<open>Searching\<close>

text \<open>The blocks of a directory, zero where there is none.\<close>

definition dir_blocks :: "inode \<Rightarrow> fsys \<Rightarrow> u32 list result" where
  "dir_blocks i s =
     bindE (if i_sectors i ! 12 \<noteq> 0 then bindE (dread (i_sectors i ! 12) 1 s) (\<lambda>buf. Inr (words_of buf))
            else Inr (replicate 128 0)) (\<lambda>ind.
       Inr (take 12 (i_sectors i) @ ind))"

fun search_entries :: "nat list \<Rightarrow> u8 list \<Rightarrow> char list \<Rightarrow> nat option result" where
  "search_entries [] buf name = Inr None"
| "search_entries (idx # is) buf name =
     bindE (strcmp (name_at idx buf) name) (\<lambda>r.
       if r = 0 then Inr (Some idx) else search_entries is buf name)"

fun search_blocks :: "u32 list \<Rightarrow> nat \<Rightarrow> char list \<Rightarrow> fsys \<Rightarrow> u8 list option result" where
  "search_blocks [] cnt name s = Inr None"
| "search_blocks (b # bs) cnt name s =
     (if b = 0 then search_blocks bs cnt name s
      else bindE (dread b 1 s) (\<lambda>buf.
           bindE (search_entries [0..<cnt] buf name) (\<lambda>r.
             case r of Some idx \<Rightarrow> Inr (Some (drop (24 * idx) buf)) | None \<Rightarrow> search_blocks bs cnt name s)))"

definition search_dir_entry :: "u32 \<Rightarrow> char list \<Rightarrow> u8 list \<Rightarrow> fsys \<Rightarrow> (bool \<times> u8 list \<times> fsys) result" where
  "search_dir_entry a name dir_e s =
     (let (all_blocks, s) = sys_malloc_obj s in
      if all_blocks = 0 then Inr (False, dir_e, s)
      else
        bindE (dir_blocks (core s a) s) (\<lambda>ab.
          let (buf, s) = sys_malloc_obj s in
          if buf = 0 then Inl Out_of_bounds
          else
            bindE (entries_per_sec s) (\<lambda>cnt.
            bindE (search_blocks ab cnt name s) (\<lambda>r.
              case r of None \<Rightarrow> Inr (False, dir_e, s)
              | Some p_de \<Rightarrow> bindE (memcpy dir_e p_de (unat (dir_entry_size (sb s)))) (\<lambda>e. Inr (True, e, s))))))"

section \<open>Adding an entry\<close>

fun free_entry :: "nat list \<Rightarrow> u8 list \<Rightarrow> nat option result" where
  "free_entry [] buf = Inr None"
| "free_entry (idx # is) buf =
     (if length buf < 24 * idx + 24 then Inl Out_of_bounds
      else if de_f_type (de idx buf) = FT_UNKNOWN then Inr (Some idx) else free_entry is buf)"

text \<open>A block for entry \<open>k\<close> of \<^verbatim>\<open>all_blocks\<close>, which had none, with \<open>p_de\<close> as its first entry. The numbers of the
  indirect blocks in \<open>ab\<close> are those of this call only: the table on disk is not read.\<close>

definition new_dir_block :: "nat \<Rightarrow> u32 list \<Rightarrow> u32 \<Rightarrow> u8 list \<Rightarrow> fsys \<Rightarrow> (bool \<times> fsys) result" where
  "new_dir_block k ab a p_de s =
     bindE (block_bitmap_alloc s) (\<lambda>(lba, s).
       if lba = -1 then Inr (False, s)
       else
         (let b = of_int lba :: u32; idx = b - data_start_lba (sb s); sz = dir_entry_size (sb s);
              finish = (\<lambda>ab s.
                bindE (memcpy (replicate 512 0) p_de (unat sz)) (\<lambda>io_buf.
                bindE (dwrite (ab ! k) io_buf 1 s) (\<lambda>s.
                  Inr (True, set_core a (\<lambda>i. i\<lparr>i_size := i_size i + sz\<rparr>) s))))
          in
          assertE (idx \<noteq> -1)
            (bindE (bitmap_sync idx BLOCK_BITMAP s) (\<lambda>s.
               if k < 12 then
                 finish (ab[k := b]) (set_core a (\<lambda>i. i\<lparr>i_sectors := (i_sectors i)[k := b]\<rparr>) s)
               else if k = 12 then
                 (let s = set_core a (\<lambda>i. i\<lparr>i_sectors := (i_sectors i)[12 := b]\<rparr>) s in
                  bindE (block_bitmap_alloc s) (\<lambda>(lba, s).
                    if lba = -1 then
                      bindE (bitmap_set (block_bitmap s) (unat (i_sectors (core s a) ! 12 - data_start_lba (sb s))) 0) (\<lambda>bm.
                        Inr (False, set_core a (\<lambda>i. i\<lparr>i_sectors := (i_sectors i)[12 := 0]\<rparr>) (s\<lparr>block_bitmap := bm\<rparr>)))
                    else
                      (let b = of_int lba :: u32; idx = b - data_start_lba (sb s); ab = ab[k := b] in
                       assertE (idx \<noteq> -1)
                         (bindE (bitmap_sync idx BLOCK_BITMAP s) (\<lambda>s.
                          bindE (dwrite (i_sectors (core s a) ! 12) (bytes_of (drop 12 ab)) 1 s) (finish ab))))))
               else
                 (let ab = ab[k := b] in
                  bindE (dwrite (i_sectors (core s a) ! 12) (bytes_of (drop 12 ab)) 1 s) (finish ab))))))"

fun sync_blocks :: "nat list \<Rightarrow> u32 list \<Rightarrow> nat \<Rightarrow> u32 \<Rightarrow> u8 list \<Rightarrow> fsys \<Rightarrow> (bool \<times> fsys) result" where
  "sync_blocks [] ab cnt a p_de s = Inr (False, s)"
| "sync_blocks (k # ks) ab cnt a p_de s =
     (if ab ! k = 0 then new_dir_block k ab a p_de s
      else bindE (dread (ab ! k) 1 s) (\<lambda>io_buf.
           bindE (free_entry [0..<cnt] io_buf) (\<lambda>r.
             case r of
               None \<Rightarrow> sync_blocks ks ab cnt a p_de s
             | Some idx \<Rightarrow>
                 (let sz = dir_entry_size (sb s) in
                  bindE (memcpy (drop (24 * idx) io_buf) p_de (unat sz)) (\<lambda>rest.
                  bindE (dwrite (ab ! k) (take (24 * idx) io_buf @ rest) 1 s) (\<lambda>s.
                    Inr (True, set_core a (\<lambda>i. i\<lparr>i_size := i_size i + sz\<rparr>) s)))))))"

definition sync_dir_entry :: "u32 \<Rightarrow> u8 list \<Rightarrow> fsys \<Rightarrow> (bool \<times> fsys) result" where
  "sync_dir_entry a p_de s =
     (let i = core s a in
      bindE (entries_per_sec s) (\<lambda>cnt.
        assertE (i_size i mod dir_entry_size (sb s) = 0)
          (sync_blocks [0..<140] (take 12 (i_sectors i) @ replicate 128 0) cnt a p_de s)))"

section \<open>Deleting an entry\<close>

text \<open>One pass over a sector: whether it has the entry \<^verbatim>\<open>.\<close>, how many entries besides \<^verbatim>\<open>.\<close> and \<^verbatim>\<open>..\<close>, and which
  of them has the inode number.\<close>

fun scan_entries :: "nat list \<Rightarrow> u8 list \<Rightarrow> u32 \<Rightarrow> bool \<times> nat \<times> nat option \<Rightarrow> (bool \<times> nat \<times> nat option) result" where
  "scan_entries [] buf inode_no acc = Inr acc"
| "scan_entries (idx # is) buf inode_no (first, cnt, found) =
     (if length buf < 24 * idx + 24 then Inl Out_of_bounds
      else if de_f_type (de idx buf) \<noteq> FT_UNKNOWN then
        bindE (strcmp (name_at idx buf) [CHR ''.'', NUL]) (\<lambda>r.
          if r = 0 then scan_entries is buf inode_no (True, cnt, found)
          else bindE (strcmp (name_at idx buf) [CHR ''.'', CHR ''.'', NUL]) (\<lambda>r.
            if r \<noteq> 0 then
              if de_i_no (de idx buf) = inode_no
              then assertE (found = None) (scan_entries is buf inode_no (first, cnt + 1, Some idx))
              else scan_entries is buf inode_no (first, cnt + 1, found)
            else scan_entries is buf inode_no (first, cnt, found)))
      else scan_entries is buf inode_no (first, cnt, found))"

text \<open>The loop that counts the blocks in the indirect table. Its condition is on the index, which its body does not
  change.\<close>

partial_function (option) indirect_loop :: "u32 list \<Rightarrow> u32 \<Rightarrow> u32 \<Rightarrow> (u32 \<times> u32) option" where
  "indirect_loop all_blocks indirect_block_idx indirect_block_cnt =
     (if indirect_block_idx < 140
      then indirect_loop all_blocks indirect_block_idx
             (if all_blocks ! unat indirect_block_idx \<noteq> 0 then indirect_block_cnt + 1 else indirect_block_cnt)
      else Some (indirect_block_idx, indirect_block_cnt))"

text \<open>What is done with the count: the number of the block is cleared in the table, and a table with one block is given back.\<close>

definition release_indirect :: "u32 list \<Rightarrow> u32 \<Rightarrow> fsys \<Rightarrow> fsys result" where
  "release_indirect ab a s =
     (case indirect_loop ab 12 0 of
        None \<Rightarrow> Inl Diverges
      | Some (idx, cnt) \<Rightarrow>
          assertE (cnt \<ge> 1)
            (if unat idx < length ab
             then
               let ab = ab[unat idx := 0] in
               bindE (dwrite (i_sectors (core s a) ! 12) (bytes_of (drop 12 ab)) 1 s) (\<lambda>s.
                 if cnt > 1 then Inr s
                 else
                   let bidx = ab ! 12 - data_start_lba (sb s) in
                   bindE (bitmap_set (block_bitmap s) (unat bidx) 0) (\<lambda>bm.
                   bindE (bitmap_sync bidx BLOCK_BITMAP (s\<lparr>block_bitmap := bm\<rparr>)) (\<lambda>s.
                     Inr (set_core a (\<lambda>i. i\<lparr>i_sectors := (i_sectors i)[12 := 0]\<rparr>) s))))
             else Inl Out_of_bounds))"

text \<open>The last entry of a block is deleted with the block. For a direct block the code clears the number in its
  local array only.\<close>

definition delete_found :: "nat \<Rightarrow> u32 list \<Rightarrow> u32 \<Rightarrow> u8 list \<Rightarrow> bool \<times> nat \<times> nat \<Rightarrow> fsys \<Rightarrow> fsys result" where
  "delete_found k ab a io_buf r s =
     (let (first, cnt, idx) = r; sz = dir_entry_size (sb s); b = ab ! k in
      assertE (cnt \<ge> 1)
        (bindE
          (if cnt = 1 \<and> \<not> first then
             (let bidx = b - data_start_lba (sb s) in
              bindE (bitmap_set (block_bitmap s) (unat bidx) 0) (\<lambda>bm.
              bindE (bitmap_sync bidx BLOCK_BITMAP (s\<lparr>block_bitmap := bm\<rparr>)) (\<lambda>s.
                if k < 12 then Inr s else release_indirect ab a s)))
           else
             bindE (memset (drop (24 * idx) io_buf) 0 (unat sz)) (\<lambda>rest.
               dwrite b (take (24 * idx) io_buf @ rest) 1 s))
          (\<lambda>s. assertE (i_size (core s a) \<ge> sz)
             (let s = set_core a (\<lambda>i. i\<lparr>i_size := i_size i - sz\<rparr>) s in inode_sync (core s a) s))))"

fun delete_blocks :: "nat list \<Rightarrow> u32 list \<Rightarrow> nat \<Rightarrow> u32 \<Rightarrow> u32 \<Rightarrow> fsys \<Rightarrow> (bool \<times> fsys) result" where
  "delete_blocks [] ab n a inode_no s = Inr (False, s)"
| "delete_blocks (k # ks) ab n a inode_no s =
     (if ab ! k = 0 then delete_blocks ks ab n a inode_no s
      else bindE (dread (ab ! k) 1 s) (\<lambda>io_buf.
           bindE (scan_entries [0..<n] io_buf inode_no (False, 0, None)) (\<lambda>(first, cnt, found).
             case found of
               None \<Rightarrow> delete_blocks ks ab n a inode_no s
             | Some idx \<Rightarrow> bindE (delete_found k ab a io_buf (first, cnt, idx) s) (\<lambda>s. Inr (True, s)))))"

definition delete_dir_entry :: "u32 \<Rightarrow> u32 \<Rightarrow> fsys \<Rightarrow> (bool \<times> fsys) result" where
  "delete_dir_entry a inode_no s =
     bindE (dir_blocks (core s a) s) (\<lambda>ab.
     bindE (entries_per_sec s) (\<lambda>n. delete_blocks [0..<140] ab n a inode_no s))"

section \<open>Reading\<close>

text \<open>The entry at the directory's position: entries in use are passed over until their sizes add up to it. The
  loop over the blocks has no bound but the position.\<close>

fun read_entries :: "nat list \<Rightarrow> u8 list \<Rightarrow> u32 \<Rightarrow> u32 \<Rightarrow> u32 \<Rightarrow> (u32 \<times> nat option) result" where
  "read_entries [] buf sz cur pos = Inr (cur, None)"
| "read_entries (idx # is) buf sz cur pos =
     (if length buf < 24 * idx + 24 then Inl Out_of_bounds
      else if de_f_type (de idx buf) \<noteq> 0 then
        if cur < pos then read_entries is buf sz (cur + sz) pos
        else assertE (cur = pos) (Inr (cur, Some idx))
      else read_entries is buf sz cur pos)"

fun read_dir_blocks :: "u32 list \<Rightarrow> nat \<Rightarrow> u32 \<Rightarrow> u32 \<Rightarrow> fsys \<Rightarrow> (u8 list \<times> nat) result" where
  "read_dir_blocks [] n cur pos s = Inl Out_of_bounds"
| "read_dir_blocks (b # bs) n cur pos s =
     (if b = 0 then read_dir_blocks bs n cur pos s
      else bindE (dread b 1 s) (\<lambda>dir_e.
           bindE (read_entries [0..<n] dir_e (dir_entry_size (sb s)) cur pos) (\<lambda>(cur, r).
             case r of Some idx \<Rightarrow> Inr (dir_e, idx) | None \<Rightarrow> read_dir_blocks bs n cur pos s)))"

definition dir_read :: "u32 \<Rightarrow> fstate \<Rightarrow> (u8 list option \<times> fstate) result" where
  "dir_read d s =
     (let dr = dirs s d; i = core (fs s) (dir_inode dr) in
      bindE (dir_blocks i (fs s)) (\<lambda>ab.
      bindE (entries_per_sec (fs s)) (\<lambda>n.
        if dir_pos dr < i_size i then
          bindE (read_dir_blocks ab n 0 (dir_pos dr) (fs s)) (\<lambda>(dir_e, idx).
            Inr (Some (de idx dir_e),
              s\<lparr>dirs := (dirs s)(d := dr\<lparr>dir_pos := dir_pos dr + dir_entry_size (sb (fs s)),
                  dir_buf := dir_e @ drop 512 (dir_buf dr)\<rparr>)\<rparr>))
        else Inr (None, s))))"

section \<open>Removing a directory\<close>

definition dir_is_empty :: "u32 \<Rightarrow> fsys \<Rightarrow> bool" where
  "dir_is_empty a s \<longleftrightarrow> i_size (core s a) = 2 * dir_entry_size (sb s)"

definition dir_remove :: "u32 \<Rightarrow> u32 \<Rightarrow> fsys \<Rightarrow> (int \<times> fsys) result" where
  "dir_remove parent child s =
     assertE (\<forall>k\<in>set [1..<13]. i_sectors (core s child) ! k = 0)
       (let (io_buf, s) = sys_malloc_obj s in
        if io_buf = 0 then Inr (-1, s)
        else bindE (delete_dir_entry parent (i_no (core s child)) s) (\<lambda>(_, s).
             bindE (inode_release (i_no (core s child)) s) (\<lambda>s. Inr (0, s))))"

end
