(* ===== verification/Partition.thy ===== *)
theory Partition
  imports FileRead Dir Heap Descriptors
begin

text \<open>
  The start of the ATA driver in \<^verbatim>\<open>drivers/ide.c\<close>: \<^verbatim>\<open>ide_init\<close> sets up the channels, identifies the drives and
  \<^verbatim>\<open>partition_scan\<close> reads their partition tables, following the chain of extended boot records.

  The globals of the file are the fields of \<open>kide\<close>. A drive is addressed by its channel and its number on the
  channel, \<^verbatim>\<open>&channels[c].devices[d]\<close>, and an element of \<^verbatim>\<open>partition_list\<close> by the slot of \<^verbatim>\<open>prim_parts\<close> or
  \<^verbatim>\<open>logic_parts\<close> that its tag is in. \<^verbatim>\<open>list_append\<close> on the pointer
  list refines appending to the sequence (\<open>KList\<close>), which is what it is here. \<open>bs_live\<close> counts the buffers that
  \<^verbatim>\<open>partition_scan\<close> has allocated and not freed. \<^verbatim>\<open>sys_malloc\<close> of a buffer of 512 bytes has no null
  result to consider: it takes a block or one page, and the search for one page or one frame in a full
  bitmap stops the kernel before the code that would return the null pointer (\<open>Bitmap\<close> and \<open>Paging\<close>). Recursion along a chain of boot records need not end, so that the scan is a
  partial function.
\<close>

section \<open>State\<close>

record partition_table_entry =
  bootable :: u8
  start_head :: u8
  start_sec :: u8
  start_chs :: u8
  fs_type :: u8
  end_head :: u8
  end_sec :: u8
  end_chs :: u8
  pe_start_lba :: u32
  pe_sec_cnt :: u32

datatype part_ref = Prim nat nat nat | Logic nat nat nat

record kide =
  drv :: ide
  idt_st :: idt_state
  devices :: "nat \<Rightarrow> nat \<Rightarrow> disk"
  partition_list :: "part_ref list"
  channel_cnt :: u8
  ext_lba_base :: u32
  p_no :: u8
  l_no :: u8
  bs_live :: nat
  screen :: "char list"

definition entry_of :: "u8 list \<Rightarrow> partition_table_entry" where
  "entry_of b =
     \<lparr>bootable = b ! 0, start_head = b ! 1, start_sec = b ! 2, start_chs = b ! 3, fs_type = b ! 4,
      end_head = b ! 5, end_sec = b ! 6, end_chs = b ! 7,
      pe_start_lba = rd32 (b ! 8) (b ! 9) (b ! 10) (b ! 11), pe_sec_cnt = rd32 (b ! 12) (b ! 13) (b ! 14) (b ! 15)\<rparr>"

text \<open>The table behind the 446 bytes of boot code.\<close>

definition partition_table :: "u8 list \<Rightarrow> partition_table_entry list" where
  "partition_table bs = map (\<lambda>k. entry_of (take 16 (drop (446 + 16 * k) bs))) [0..<4]"

definition set_device :: "nat \<times> nat \<Rightarrow> disk \<Rightarrow> kide \<Rightarrow> kide" where
  "set_device h dk s = s\<lparr>devices := (devices s)(fst h := (devices s (fst h))(snd h := dk))\<rparr>"

definition device :: "nat \<times> nat \<Rightarrow> kide \<Rightarrow> disk" where
  "device h s = devices s (fst h) (snd h)"

section \<open>Scanning a drive\<close>

text \<open>\<^verbatim>\<open>sys_malloc\<close> of the buffer and the read of the sector into it.\<close>

definition read_table :: "nat \<times> nat \<Rightarrow> u32 \<Rightarrow> kide \<Rightarrow> (partition_table_entry list \<times> kide) result" where
  "read_table h ext_lba s =
     bindE (ide_read (device h s) ext_lba (replicate 512 0) 1 (drv s)) (\<lambda>(bs, dr).
       Inr (partition_table bs, s\<lparr>drv := dr, bs_live := bs_live s + 1\<rparr>))"

text \<open>The fields of a slot of the drive \<open>h\<close>; \<^verbatim>\<open>sprintf\<close> writes into its name.\<close>

definition fill_part :: "nat \<times> nat \<Rightarrow> disk \<Rightarrow> u32 \<Rightarrow> partition_table_entry \<Rightarrow> u32 \<Rightarrow> partition \<Rightarrow> partition result" where
  "fill_part h dk ext_lba p no pt =
     bindE (sprintf (part_name pt) (''%s%d'' @ [NUL]) [VStr (disk_name dk), VInt no]) (\<lambda>(_, nm).
       Inr (pt\<lparr>start_lba := ext_lba + pe_start_lba p, sec_cnt := pe_sec_cnt p, my_disk := h, part_name := nm\<rparr>))"

definition add_prim :: "nat \<times> nat \<Rightarrow> u32 \<Rightarrow> partition_table_entry \<Rightarrow> kide \<Rightarrow> kide result" where
  "add_prim h ext_lba p s =
     (let dk = device h s; n = unat (p_no s) in
      if n < length (prim_parts dk)
      then bindE (fill_part h dk ext_lba p (ucast (p_no s) + 1) (prim_parts dk ! n)) (\<lambda>pt.
             let s = set_device h (dk\<lparr>prim_parts := (prim_parts dk)[n := pt]\<rparr>) s;
                 s = s\<lparr>partition_list := partition_list s @ [Prim (fst h) (snd h) n], p_no := p_no s + 1\<rparr>
             in assertE (p_no s < 4) (Inr s))
      else Inl Out_of_bounds)"

text \<open>The result tells whether the scan of the sector returns at once.\<close>

definition add_logic :: "nat \<times> nat \<Rightarrow> u32 \<Rightarrow> partition_table_entry \<Rightarrow> kide \<Rightarrow> (bool \<times> kide) result" where
  "add_logic h ext_lba p s =
     (let dk = device h s; n = unat (l_no s) in
      if n < length (logic_parts dk)
      then bindE (fill_part h dk ext_lba p (ucast (l_no s) + 5) (logic_parts dk ! n)) (\<lambda>pt.
             let s = set_device h (dk\<lparr>logic_parts := (logic_parts dk)[n := pt]\<rparr>) s;
                 s = s\<lparr>partition_list := partition_list s @ [Logic (fst h) (snd h) n], l_no := l_no s + 1\<rparr>
             in Inr (8 \<le> l_no s, s))
      else Inl Out_of_bounds)"

text \<open>Sequencing of code that may not return (\<open>None\<close>) or fault.\<close>

definition bindO :: "'a result option \<Rightarrow> ('a \<Rightarrow> 'b result option) \<Rightarrow> 'b result option" where
  "bindO m f = Option.bind m (\<lambda>r. case r of Inl e \<Rightarrow> Some (Inl e) | Inr x \<Rightarrow> f x)"

lemma bindO_simps [simp]: "bindO None f = None" "bindO (Some (Inl e)) f = Some (Inl e)" "bindO (Some (Inr x)) f = f x"
  by (simp_all add: bindO_def)

lemma bindO_mono [partial_function_mono]:
  assumes "mono_option m" "\<And>x. mono_option (\<lambda>f. k x f)"
  shows "mono_option (\<lambda>f. bindO (m f) (\<lambda>x. k x f))"
proof -
  have "mono_option (\<lambda>f. case r of Inl e \<Rightarrow> Some (Inl e) | Inr x \<Rightarrow> k x f)" for r
    by (cases r) (simp_all add: assms(2) option.const_mono)
  then show ?thesis unfolding bindO_def by (intro bind_mono assms(1))
qed

text \<open>
  The loop over the entries of a sector, its recursive calls included: a call reads the sector of the extended
  partition and runs the loop over its table.
\<close>

partial_function (option) scan_table ::
  "nat \<times> nat \<Rightarrow> u32 \<Rightarrow> partition_table_entry list \<Rightarrow> kide \<Rightarrow> kide result option" where
  "scan_table h ext_lba ps s =
     (case ps of
        [] \<Rightarrow> Some (Inr (s\<lparr>bs_live := bs_live s - 1\<rparr>))
      | p # ps \<Rightarrow>
          if fs_type p = 5
          then bindO (if ext_lba_base s \<noteq> 0
                      then bindO (Some (read_table h (pe_start_lba p + ext_lba_base s) s))
                             (\<lambda>(qs, t). scan_table h (pe_start_lba p + ext_lba_base s) qs t)
                      else bindO (Some (read_table h (pe_start_lba p) (s\<lparr>ext_lba_base := pe_start_lba p\<rparr>)))
                             (\<lambda>(qs, t). scan_table h (pe_start_lba p) qs t))
                 (scan_table h ext_lba ps)
          else if fs_type p \<noteq> 0
          then if ext_lba = 0
               then bindO (Some (add_prim h ext_lba p s)) (scan_table h ext_lba ps)
               else bindO (Some (add_logic h ext_lba p s))
                      (\<lambda>(stop, s). if stop then Some (Inr s) else scan_table h ext_lba ps s)
          else scan_table h ext_lba ps s)"

definition partition_scan :: "nat \<times> nat \<Rightarrow> u32 \<Rightarrow> kide \<Rightarrow> kide result option" where
  "partition_scan h ext_lba s = bindO (Some (read_table h ext_lba s)) (\<lambda>(ps, s). scan_table h ext_lba ps s)"

section \<open>Identifying a drive\<close>

text \<open>\<open>at\<close> counts in a byte, as \<^verbatim>\<open>index\<close> does.\<close>

function swap_loop :: "u8 list \<Rightarrow> u8 list \<Rightarrow> nat \<Rightarrow> u8 \<Rightarrow> u8 list result" where
  "swap_loop dst buf len at =
     (if unat at < len
      then (case dst of
              a # b # dst \<Rightarrow>
                if unat at + 1 < length buf
                then swap_loop dst (buf[unat at + 1 := a, unat at := b]) len (at + 2) else Inl Out_of_bounds
            | _ \<Rightarrow> Inl Out_of_bounds)
      else if unat at < length buf then Inr (buf[unat at := 0]) else Inl Out_of_bounds)"
  by pat_completeness auto
termination
  by (relation "measure (\<lambda>(dst, _). length dst)") auto

declare swap_loop.simps [simp del]

definition swap_pairs_bytes :: "u8 list \<Rightarrow> u8 list \<Rightarrow> nat \<Rightarrow> u8 list result" where
  "swap_pairs_bytes dst buf len = swap_loop dst buf len 0"

definition say :: "char list \<Rightarrow> va_arg list \<Rightarrow> kide \<Rightarrow> kide result" where
  "say fmt args s = bindE (printk32 (fmt @ [NUL]) args) (\<lambda>out. Inr (s\<lparr>screen := screen s @ out\<rparr>))"

abbreviation nl :: "char list" where "nl \<equiv> [CHR 0x0A]"

text \<open>\<open>junk\<close> is the uninitialised \<^verbatim>\<open>buf[64]\<close>.\<close>

definition identify_disk :: "u8 list \<Rightarrow> nat \<times> nat \<Rightarrow> kide \<Rightarrow> kide result" where
  "identify_disk junk h s =
     (let dk = device h s; c = my_channel dk in
      bindE (wait_done c (cmd_out c 0xec (select_disk dk (drv s)))) (\<lambda>dr.
      case busy_wait dk dr of (ok, dr) \<Rightarrow>
        if \<not> ok then Inl Panicked
        else bindE (read_from_sector dk (replicate 512 0) 0 1 dr) (\<lambda>(id_info, dr).
          let s = s\<lparr>drv := dr\<rparr> in
          bindE (swap_pairs_bytes (drop 20 id_info) junk 20) (\<lambda>buf.
          bindE (say (''  disk %s info: '' @ nl @ ''    SN: %s'' @ nl) [VStr (disk_name dk), VStr (chars buf)] s) (\<lambda>s.
          bindE (swap_pairs_bytes (drop 54 id_info) (replicate 64 0) 40) (\<lambda>buf.
          bindE (say (''    MODULE: %s'' @ nl) [VStr (chars buf)] s) (\<lambda>s.
          let sectors = rd32 (id_info ! 120) (id_info ! 121) (id_info ! 122) (id_info ! 123) in
          bindE (say (''    SECTORS: %d'' @ nl) [VInt sectors] s) (\<lambda>s.
            say (''    CAPACITY: %dMB'' @ nl) [VInt (sectors * 512 div 1024 div 1024)] s))))))))"

section \<open>Initialisation\<close>

fun part_at :: "part_ref \<Rightarrow> kide \<Rightarrow> partition" where
  "part_at (Prim c d n) s = prim_parts (devices s c d) ! n"
| "part_at (Logic c d n) s = logic_parts (devices s c d) ! n"

definition partition_info :: "part_ref \<Rightarrow> kide \<Rightarrow> kide result" where
  "partition_info r s =
     (let part = part_at r s in
      say (''  %s start_lba:0x%x, sec_cnt:0x%x'' @ nl)
        [VStr (part_name part), VInt (start_lba part), VInt (sec_cnt part)] s)"

fun info_loop :: "part_ref list \<Rightarrow> kide \<Rightarrow> kide result" where
  "info_loop [] s = Inr s"
| "info_loop (r # rs) s = bindE (partition_info r s) (info_loop rs)"

text \<open>The set-up of a channel; a third channel is outside the array.\<close>

definition channel_init :: "u32 \<Rightarrow> nat \<Rightarrow> kide \<Rightarrow> kide result" where
  "channel_init handler c s =
     (if c < length (channels (drv s))
      then bindE (sprintf (chan_name (chan c (drv s))) (''ide%d'' @ [NUL]) [VInt (of_nat c)]) (\<lambda>(_, nm).
           let irq = (if c = 0 then 0x20 + 14 else if c = 1 then 0x20 + 15 else irq_no (chan c (drv s)));
               base = (if c = 0 then 0x1f0 else if c = 1 then 0x170 else port_base (chan c (drv s)))
           in bindE (register_handler irq handler (idt_st s)) (\<lambda>i.
                Inr (s\<lparr>drv := set_chan c (\<lambda>ch. ch\<lparr>chan_name := nm, port_base := base, irq_no := irq, chan_lock := 0,
                        expecting_intr := False, disk_done := 0\<rparr>) (drv s), idt_st := i\<rparr>)))
      else Inl Out_of_bounds)"

definition device_init :: "u8 list \<Rightarrow> nat \<Rightarrow> nat \<Rightarrow> kide \<Rightarrow> kide result option" where
  "device_init junk c d s =
     (let dk = (device (c, d) s)\<lparr>my_channel := c, dev_no := of_nat d\<rparr> in
      bindO (Some (sprintf (disk_name dk) (''sd%c'' @ [NUL]) [VInt (97 + of_nat c * 2 + of_nat d)])) (\<lambda>(_, nm).
      bindO (Some (identify_disk junk (c, d) (set_device (c, d) (dk\<lparr>disk_name := nm\<rparr>) s))) (\<lambda>s.
      bindO (if d \<noteq> 0 then partition_scan (c, d) 0 s else Some (Inr s)) (\<lambda>s.
        Some (Inr (s\<lparr>p_no := 0, l_no := 0\<rparr>))))))"

fun channels_loop ::
  "u8 list \<Rightarrow> u32 \<Rightarrow> nat list \<Rightarrow> kide \<Rightarrow> kide result option" where
  "channels_loop junk handler [] s = Some (Inr s)"
| "channels_loop junk handler (c # cs) s =
     bindO (Some (channel_init handler c s)) (\<lambda>s.
     bindO (device_init junk c 0 s) (\<lambda>s.
     bindO (device_init junk c 1 s) (channels_loop junk handler cs)))"

text \<open>\<open>hd_cnt\<close> is the byte at 0x475; \<^verbatim>\<open>channel_no\<close> counts from zero to the number of channels.\<close>

definition ide_init ::
  "u8 list \<Rightarrow> u32 \<Rightarrow> u8 \<Rightarrow> kide \<Rightarrow> kide result option" where
  "ide_init junk handler hd_cnt s =
     bindO (Some (say (''ide_init start'' @ nl) [] s)) (\<lambda>s.
     if hd_cnt > 0
     then let cnt = ucast (DIV_ROUND_UP (ucast hd_cnt) 2) in
       bindO (channels_loop junk handler [0..<unat cnt] (s\<lparr>channel_cnt := cnt, partition_list := []\<rparr>)) (\<lambda>s.
       bindO (Some (say (nl @ ''  all partition information'' @ nl) [] s)) (\<lambda>s.
       bindO (Some (info_loop (partition_list s) s)) (\<lambda>s.
         Some (say (''ide_init end'' @ nl) [] s))))
     else Some (Inl Assert_failed))"

section \<open>What a scan does\<close>

lemma sprintf_name:
  assumes "c_str obj t" "0 \<le> sint w" "length t + length (num_text 10 (unat w)) < n"
  shows "sprintf (replicate n NUL) (''%s%d'' @ [NUL]) [VStr obj, VInt w] =
    Inr (length (t @ num_text 10 (unat w)),
         (t @ num_text 10 (unat w)) @ replicate (n - length (t @ num_text 10 (unat w))) NUL)"
  unfolding sprintf_def
proof (rule vsprintf_ends [of _ _ _ _ "length (t @ num_text 10 (unat w))"])
  let ?z = "replicate n NUL" and ?d = "num_text 10 (unat w)"
  have c: "strcpy ?z obj = Inr (t @ replicate (n - length t) NUL)"
    using strcpy_c_str [OF assms(1), of ?z] assms(3) by (simp add: Suc_diff_Suc replicate_Suc [symmetric] del: replicate_Suc)
  have l: "strlen obj = Inr (length t)" using assms(1) by (rule strlen_c_str)
  have "splice (length t) ?d (t @ replicate (n - length t) NUL) = splice 0 (t @ ?d) ?z"
    using assms(3) by (simp add: splice_def)
  then show "vsprintf_loop (''%s%d'' @ [NUL]) [VStr obj, VInt w] (?z, 0) = Inr (splice 0 (t @ ?d) ?z, length (t @ ?d))"
    using assms(2,3) c l
    by (simp add: vsprintf_loop.simps [of "[CHR ''%'', CHR ''s'', CHR ''%'', CHR ''d'', NUL]"]
        vsprintf_loop.simps [of "[CHR ''%'', CHR ''d'', NUL]"] vsprintf_loop.simps [of "[NUL]"] itoa_text)
  show "NUL \<notin> set (t @ ?d)" using assms(1) num_text_chars(1) by (auto simp: c_str_def)
qed (use assms in auto)

text \<open>A partition of the specification is its number, from 1 for primary and from 5 for logical ones, its first sector and
  its size; \<open>part_slot\<close> is where the driver keeps it and \<open>described\<close> what it keeps there.\<close>

type_synonym part_spec = "nat \<times> u32 \<times> u32"

definition part_slot :: "nat \<times> nat \<Rightarrow> part_spec \<Rightarrow> part_ref" where
  "part_slot h x = (if fst x < 5 then Prim (fst h) (snd h) (fst x - 1) else Logic (fst h) (snd h) (fst x - 5))"

definition described :: "nat \<times> nat \<Rightarrow> char list \<Rightarrow> part_spec \<Rightarrow> partition" where
  "described h nm x =
     \<lparr>start_lba = fst (snd x), sec_cnt = snd (snd x), my_disk = h,
      part_name = (nm @ num_text 10 (fst x)) @ replicate (8 - length (nm @ num_text 10 (fst x))) NUL\<rparr>"

definition drive_at :: "nat \<times> nat \<Rightarrow> char list \<Rightarrow> kide \<Rightarrow> bool" where
  "drive_at h nm t \<longleftrightarrow> my_channel (device h t) = fst h \<and> dev_of (device h t) = snd h \<and> c_str (disk_name (device h t)) nm \<and>
     length nm \<le> 5 \<and> length (prim_parts (device h t)) = 4 \<and> length (logic_parts (device h t)) = 8 \<and>
     chan_ready (fst h) (drv t) \<and> full (media (drv t) (fst h) (snd h))"

definition blank_from :: "nat \<Rightarrow> partition list \<Rightarrow> bool" where
  "blank_from k ps \<longleftrightarrow> (\<forall>n. k \<le> n \<and> n < length ps \<longrightarrow> part_name (ps ! n) = replicate 8 NUL)"

definition placed :: "part_spec \<Rightarrow> kide \<Rightarrow> bool" where
  "placed x t \<longleftrightarrow> (if fst x < 5 then 1 \<le> fst x \<and> fst x \<le> unat (p_no t) else fst x < unat (l_no t) + 5)"

text \<open>The scan that started in \<open>s\<close> has reached \<open>t\<close> and found \<open>A\<close>.\<close>

definition scan_inv :: "nat \<times> nat \<Rightarrow> char list \<Rightarrow> kide \<Rightarrow> part_spec list \<Rightarrow> kide \<Rightarrow> bool" where
  "scan_inv h nm s A t \<longleftrightarrow> drive_at h nm t \<and> media (drv t) = media (drv s) \<and> (\<forall>g. g \<noteq> h \<longrightarrow> device g t = device g s) \<and>
     partition_list t = partition_list s @ map (part_slot h) A \<and>
     (\<forall>x\<in>set A. part_at (part_slot h x) t = described h nm x \<and> placed x t) \<and>
     unat (p_no t) < 4 \<and> unat (l_no t) < 8 \<and>
     blank_from (unat (p_no t)) (prim_parts (device h t)) \<and> blank_from (unat (l_no t)) (logic_parts (device h t))"

lemma length_small_num: "v < 100 \<Longrightarrow> length (num_text 10 v) \<le> 2"
  by (rule length_num_text) auto

lemma u8_suc: "unat (w :: u8) < 255 \<Longrightarrow> unat (w + 1) = unat w + 1"
  using unat_add_lem [of w 1] by simp

lemma small_no: "unat (w :: u8) < 8 \<Longrightarrow> k < 10 \<Longrightarrow>
    unat (ucast w + of_nat k :: u32) = unat w + k \<and> 0 \<le> sint (ucast w + of_nat k :: u32)"
proof -
  assume a: "unat w < 8" "k < 10"
  have "unat (ucast w :: u32) = unat w" by (simp add: unsigned_ucast_eq take_bit_nat_eq_self_iff) (use a in simp)
  then have u: "unat (ucast w + of_nat k :: u32) = unat w + k"
    using unat_add_lem [of "ucast w :: u32" "of_nat k"] a by (simp add: unat_of_nat)
  moreover have "0 \<le> sint (ucast w + of_nat k :: u32)"
    using sint_small [of "ucast w + of_nat k"] u a by simp
  ultimately show ?thesis by simp
qed

lemma fill_part_ok:
  assumes "c_str (disk_name dk) nm" "length nm \<le> 5" "part_name pt = replicate 8 NUL" "unat (w :: u8) < 8" "k < 10"
  shows "fill_part h dk b p (ucast w + of_nat k) pt = Inr (described h nm (unat w + k, b + pe_start_lba p, pe_sec_cnt p))"
  using sprintf_name [OF assms(1) conjunct2 [OF small_no [OF assms(4,5)]], of 8] conjunct1 [OF small_no [OF assms(4,5)]]
    length_small_num [of "unat w + k"] assms
  by (simp add: fill_part_def described_def)

text \<open>Adding a partition to a slot that is still blank.\<close>

lemma blank_upd: "blank_from k ps \<Longrightarrow> blank_from (Suc k) (ps[k := p])"
  by (simp add: blank_from_def)

lemma device_set [simp]: "device g (set_device h dk s) = (if g = h then dk else device g s)"
  by (auto simp: device_def set_device_def prod_eq_iff)

lemma devices_set [simp]: "devices (set_device h dk s) (fst h) (snd h) = dk"
  by (simp add: set_device_def)

lemma device_upd [simp]: "device g (t\<lparr>partition_list := l, p_no := a\<rparr>) = device g t"
  "device g (t\<lparr>partition_list := l, l_no := a\<rparr>) = device g t"
  by (simp_all add: device_def)

lemma drv_set [simp]: "drv (set_device h dk s) = drv s" "partition_list (set_device h dk s) = partition_list s"
  "p_no (set_device h dk s) = p_no s" "l_no (set_device h dk s) = l_no s"
  "ext_lba_base (set_device h dk s) = ext_lba_base s" "bs_live (set_device h dk s) = bs_live s"
  by (simp_all add: set_device_def)

lemma part_at_device:
  "part_at (part_slot h x) t =
     (if fst x < 5 then prim_parts (device h t) ! (fst x - 1) else logic_parts (device h t) ! (fst x - 5))"
  by (simp add: part_slot_def device_def)

definition untouched :: "kide \<Rightarrow> kide \<Rightarrow> bool" where
  "untouched t u \<longleftrightarrow> ext_lba_base u = ext_lba_base t \<and> bs_live u = bs_live t"

lemma untouched_trans: "untouched s t \<Longrightarrow> untouched t u \<Longrightarrow> untouched s u"
  by (simp add: untouched_def)

lemma scan_inv_add:
  assumes "scan_inv h nm s A t" "drive_at h nm u" "drv u = drv t" "\<forall>g. g \<noteq> h \<longrightarrow> device g u = device g t"
    "partition_list u = partition_list t @ [part_slot h x]" "part_at (part_slot h x) u = described h nm x"
    "\<And>y. y \<in> set A \<Longrightarrow> part_at (part_slot h y) u = part_at (part_slot h y) t"
    "unat (p_no t) \<le> unat (p_no u)" "unat (l_no t) \<le> unat (l_no u)" "unat (p_no u) < 4" "unat (l_no u) < 8" "placed x u"
    "blank_from (unat (p_no u)) (prim_parts (device h u))" "blank_from (unat (l_no u)) (logic_parts (device h u))"
  shows "scan_inv h nm s (A @ [x]) u"
proof -
  have "placed y t \<Longrightarrow> placed y u" for y using assms(8,9) by (auto simp: placed_def)
  then show ?thesis using assms by (simp add: scan_inv_def ball_Un)
qed

lemma scan_inv_placed: "scan_inv h nm s A t \<Longrightarrow> y \<in> set A \<Longrightarrow> placed y t"
  by (simp add: scan_inv_def)

lemma add_prim_ok:
  assumes inv: "scan_inv h nm s A t" and n: "unat (p_no t) < 3"
  shows "\<exists>u. add_prim h b p t = Inr u \<and>
    scan_inv h nm s (A @ [(unat (p_no t) + 1, b + pe_start_lba p, pe_sec_cnt p)]) u \<and>
    unat (p_no u) = unat (p_no t) + 1 \<and> l_no u = l_no t \<and> untouched t u"
proof -
  let ?dk = "device h t" and ?n = "unat (p_no t)"
  let ?x = "(?n + 1, b + pe_start_lba p, pe_sec_cnt p)"
  let ?dk' = "?dk\<lparr>prim_parts := (prim_parts ?dk)[?n := described h nm ?x]\<rparr>"
  let ?u = "(set_device h ?dk' t)\<lparr>partition_list := partition_list t @ [Prim (fst h) (snd h) ?n], p_no := p_no t + 1\<rparr>"
  have d: "drive_at h nm t" "blank_from ?n (prim_parts ?dk)" using inv by (simp_all add: scan_inv_def)
  have f: "fill_part h ?dk b p (ucast (p_no t) + 1) (prim_parts ?dk ! ?n) = Inr (described h nm ?x)"
    using fill_part_ok [of ?dk nm "prim_parts ?dk ! ?n" "p_no t" 1 h b p] d n by (simp add: drive_at_def blank_from_def)
  have suc: "unat (p_no t + 1) = ?n + 1" using n by (intro u8_suc) simp
  have "add_prim h b p t = Inr ?u"
    using f d(1) n suc by (simp add: add_prim_def Let_def drive_at_def word_less_nat_alt)
  moreover have "scan_inv h nm s (A @ [?x]) ?u"
  proof (rule scan_inv_add [OF inv])
    fix y assume "y \<in> set A"
    then have "fst y < 5 \<Longrightarrow> ?n \<noteq> fst y - 1" using scan_inv_placed [OF inv] by (fastforce simp: placed_def)
    then show "part_at (part_slot h y) ?u = part_at (part_slot h y) t" by (auto simp: part_at_device)
  qed (use inv n suc d blank_upd [OF d(2)] in \<open>simp_all add: scan_inv_def drive_at_def dev_of_def part_at_device part_slot_def placed_def\<close>)
  ultimately show ?thesis using suc by (auto simp: untouched_def)
qed

lemma add_prim_fourth:
  assumes "scan_inv h nm s A t" "unat (p_no t) = 3"
  shows "add_prim h b p t = Inl Assert_failed"
proof -
  have d: "drive_at h nm t" "blank_from 3 (prim_parts (device h t))" using assms by (simp_all add: scan_inv_def)
  moreover have "unat (p_no t + 1) = 4" using u8_suc [of "p_no t"] assms(2) by simp
  ultimately show ?thesis
    using fill_part_ok [of "device h t" nm "prim_parts (device h t) ! 3" "p_no t" 1 h b p] assms(2)
    by (simp add: add_prim_def Let_def drive_at_def blank_from_def word_less_nat_alt)
qed


lemma view_upd [simp]:
  "part_at r (t\<lparr>drv := dr\<rparr>) = part_at r t" "part_at r (t\<lparr>bs_live := n\<rparr>) = part_at r t"
  "part_at r (t\<lparr>ext_lba_base := b\<rparr>) = part_at r t"
  "device h (t\<lparr>drv := dr\<rparr>) = device h t" "device h (t\<lparr>bs_live := n\<rparr>) = device h t"
  "device h (t\<lparr>ext_lba_base := b\<rparr>) = device h t"
  "placed x (t\<lparr>drv := dr\<rparr>) = placed x t" "placed x (t\<lparr>bs_live := n\<rparr>) = placed x t"
  "placed x (t\<lparr>ext_lba_base := b\<rparr>) = placed x t"
  by (cases r; simp add: device_def placed_def)+

lemma scan_inv_upd [simp]:
  "scan_inv h nm s A (t\<lparr>bs_live := n\<rparr>) = scan_inv h nm s A t"
  "scan_inv h nm s A (t\<lparr>ext_lba_base := b\<rparr>) = scan_inv h nm s A t"
  by (simp_all add: scan_inv_def drive_at_def)

lemma scan_inv_drv: "scan_inv h nm s A t \<Longrightarrow> chan_ready (fst h) dr \<Longrightarrow> media dr = media (drv t) \<Longrightarrow>
    scan_inv h nm s A (t\<lparr>drv := dr\<rparr>)"
  by (auto simp: scan_inv_def drive_at_def)

lemma read_table_ok:
  assumes "scan_inv h nm s A t" "unat lba \<le> 163839"
  shows "\<exists>u. read_table h lba t = Inr (partition_table (media (drv s) (fst h) (snd h) (unat lba)), u) \<and>
    scan_inv h nm s A u \<and> p_no u = p_no t \<and> l_no u = l_no t \<and> ext_lba_base u = ext_lba_base t \<and> bs_live u = bs_live t + 1"
proof -
  let ?dk = "device h t"
  have d: "my_channel ?dk = fst h" "dev_of ?dk = snd h" "chan_ready (fst h) (drv t)" "full (media (drv t) (fst h) (snd h))"
    "media (drv t) = media (drv s)"
    using assms(1) unfolding scan_inv_def drive_at_def by blast+
  obtain dr where dr: "ide_read ?dk lba (replicate 512 0) 1 (drv t) =
      Inr (splice 0 (sectors (media (drv t) (fst h) (snd h)) (unat lba) 1) (replicate 512 0), dr)"
    "chan_ready (fst h) dr" "media dr = media (drv t)"
    using ide_read_ok [of ?dk "drv t" 1 "replicate 512 0" lba] d assms(2) by (auto simp: last_start_def)
  have "splice 0 (sectors (media (drv t) (fst h) (snd h)) (unat lba) 1) (replicate 512 0) =
      media (drv s) (fst h) (snd h) (unat lba)"
    using d by (simp add: sectors_def splice_def full_def)
  then show ?thesis
    using dr scan_inv_drv [OF assms(1) dr(2,3)] by (simp add: read_table_def)
qed



lemma scan_Nil [simp]: "scan_table h lba [] s = Some (Inr (s\<lparr>bs_live := bs_live s - 1\<rparr>))"
  by (simp add: scan_table.simps)

lemma scan_free [simp]: "fs_type p = 0 \<Longrightarrow> scan_table h lba (p # ps) s = scan_table h lba ps s"
  by (simp add: scan_table.simps [of h lba "p # ps"])


text \<open>What the table of the first sector describes, with the logical partitions \<open>L\<close> where the extended partition stands.\<close>

definition is_prim :: "partition_table_entry \<Rightarrow> bool" where
  "is_prim p \<longleftrightarrow> fs_type p \<noteq> 0 \<and> fs_type p \<noteq> 5"

definition is_ext :: "partition_table_entry \<Rightarrow> bool" where
  "is_ext p \<longleftrightarrow> fs_type p = 5"



lemma scan_prim:
  "is_prim p \<Longrightarrow> scan_table h 0 (p # ps) t = bindO (Some (add_prim h 0 p t)) (scan_table h 0 ps)"
  by (simp add: scan_table.simps [of h 0 "p # ps"] is_prim_def)


section \<open>Properties\<close>

text \<open>The drive has been set up and none of its partitions has been named.\<close>

definition fresh_drive :: "nat \<times> nat \<Rightarrow> char list \<Rightarrow> kide \<Rightarrow> bool" where
  "fresh_drive h nm s \<longleftrightarrow> drive_at h nm s \<and> p_no s = 0 \<and> l_no s = 0 \<and>
     blank_from 0 (prim_parts (device h s)) \<and> blank_from 0 (logic_parts (device h s))"

lemma fresh_inv: "fresh_drive h nm s \<Longrightarrow> scan_inv h nm s [] s"
  by (simp add: fresh_drive_def scan_inv_def)


text \<open>A drive in the slot \<^verbatim>\<open>sdb\<close> with a primary partition and an extended one that holds two logical ones.\<close>

definition demo_entry :: "u8 \<Rightarrow> u32 \<Rightarrow> u32 \<Rightarrow> u8 list" where
  "demo_entry ty st n = [0, 0, 0, 0, ty, 0, 0, 0] @ le32 st @ le32 n"

definition demo_sector :: "u8 list list \<Rightarrow> u8 list" where
  "demo_sector es = replicate 446 0 @ concat es @ [0x55, 0xaa]"

lemma demo_sector_table:
  assumes "length a = 16" "length b = 16" "length c = 16" "length d = 16"
  shows "partition_table (demo_sector [a, b, c, d]) = map entry_of [a, b, c, d]" "length (demo_sector [a, b, c, d]) = 512"
  using assms by (simp_all add: partition_table_def demo_sector_def upt_rec)

lemma demo_entry_of:
  "length (demo_entry ty st n) = 16"
  "fs_type (entry_of (demo_entry ty st n)) = ty" "pe_start_lba (entry_of (demo_entry ty st n)) = st"
  "pe_sec_cnt (entry_of (demo_entry ty st n)) = n"
  by (simp_all add: demo_entry_def entry_of_def le32_def le32_rd32)


definition demo_kide :: "(nat \<Rightarrow> u8 list) \<Rightarrow> u32 \<Rightarrow> kide" where
  "demo_kide f base =
     (let blank = \<lparr>start_lba = 0, sec_cnt = 0, my_disk = (0, 0), part_name = replicate 8 NUL\<rparr> in
      \<lparr>drv = demo_ide\<lparr>media := (\<lambda>_ _. f)\<rparr>,
       idt_st = \<lparr>idt32 = [], intr_name = [], idt_table = replicate 0x81 0, ports32 = [], idt_operand = 0\<rparr>,
       devices = (\<lambda>c d. \<lparr>disk_name = ''sd'' @ [if d = 1 then CHR ''b'' else CHR ''a'', NUL], my_channel = c, dev_no = of_nat d,
           prim_parts = replicate 4 blank, logic_parts = replicate 8 blank\<rparr>),
       partition_list = [], channel_cnt = 1, ext_lba_base = base, p_no = 0, l_no = 0, bs_live = 0, screen = []\<rparr>)"

lemma demo_fresh: "full f \<Longrightarrow> fresh_drive (0, 1) ''sdb'' (demo_kide f base)"
  by (simp add: fresh_drive_def drive_at_def demo_kide_def demo_ide_def device_def Let_def blank_from_def chan_ready_def configured_def chan_def
      dev_of_def c_str_Cons)




text \<open>C39: A drive with four primary partitions stops the kernel: the index is checked after it has been increased, so that the
  fourth partition, which fits the table and the array of the drive, fails the assertion.\<close>

theorem four_primary_stops:
  assumes "fresh_drive h nm s" "\<forall>p\<in>set (partition_table (media (drv s) (fst h) (snd h) 0)). is_prim p"
  shows "partition_scan h 0 s = Some (Inl Assert_failed)"
proof -
  obtain p q r e where ps: "partition_table (media (drv s) (fst h) (snd h) 0) = [p, q, r, e]"
    by (simp add: partition_table_def upt_rec)
  obtain t where t: "read_table h 0 s = Inr ([p, q, r, e], t)" "scan_inv h nm s [] t" "p_no t = 0"
    using read_table_ok [OF fresh_inv [OF assms(1)], of 0] assms(1) ps by (auto simp: fresh_drive_def)
  obtain A u where u: "add_prim h 0 p t = Inr u" "scan_inv h nm s A u" "unat (p_no u) = 1"
    using add_prim_ok [OF t(2), of 0 p] t(3) by auto
  obtain B v where v: "add_prim h 0 q u = Inr v" "scan_inv h nm s B v" "unat (p_no v) = 2"
    using add_prim_ok [OF u(2), of 0 q] u(3) by auto
  obtain C w where w: "add_prim h 0 r v = Inr w" "scan_inv h nm s C w" "unat (p_no w) = 3"
    using add_prim_ok [OF v(2), of 0 r] v(3) by auto
  have "add_prim h 0 e w = Inl Assert_failed" by (rule add_prim_fourth [OF w(2,3)])
  then show ?thesis using assms(2) t(1) u(1) v(1) w(1) ps by (simp add: partition_scan_def scan_prim)
qed

theorem four_primary_stops_witness:
  "partition_scan (0, 1) 0 (demo_kide (\<lambda>n. demo_sector (replicate 4 (demo_entry 0x83 1 99))) 0) = Some (Inl Assert_failed)"
proof -
  let ?f = "\<lambda>n :: nat. demo_sector (replicate 4 (demo_entry 0x83 1 99))"
  have t: "partition_table (?f n) = replicate 4 (entry_of (demo_entry 0x83 1 99))" "length (?f n) = 512" for n
    using demo_sector_table [of "demo_entry 0x83 1 99" "demo_entry 0x83 1 99" "demo_entry 0x83 1 99" "demo_entry 0x83 1 99"]
    by (simp_all add: demo_entry_of(1) numeral_eq_Suc)
  have "media (drv (demo_kide ?f 0)) (fst (0, 1)) (snd (0, 1)) = ?f" by (simp add: demo_kide_def Let_def)
  moreover have "full ?f" using t(2) by (simp add: full_def)
  ultimately show ?thesis
    using four_primary_stops [OF demo_fresh, of ?f 0] t(1) by (simp add: is_prim_def demo_entry_of)
qed

text \<open>The base of the extended partition is never cleared. On the second drive that has one, its first boot record is looked
  for at the sum of both starts, which stops the kernel when that is behind the last sector the driver serves.\<close>

theorem stale_base_stops:
  assumes "fresh_drive h nm s" "ext_lba_base s \<noteq> 0" "partition_table (media (drv s) (fst h) (snd h) 0) = p # ps" "is_ext p"
    "max_lba < pe_start_lba p + ext_lba_base s"
  shows "partition_scan h 0 s = Some (Inl Assert_failed)"
proof -
  obtain t where t: "read_table h 0 s = Inr (p # ps, t)" "ext_lba_base t = ext_lba_base s"
    using read_table_ok [OF fresh_inv [OF assms(1)], of 0] assms(1,3) by auto
  have "read_table h (pe_start_lba p + ext_lba_base t) t = Inl Assert_failed"
    using assms(5) t(2) by (simp add: read_table_def ide_read_def linorder_not_le [symmetric])
  then show ?thesis
    using t assms(2,4) by (simp add: partition_scan_def scan_table.simps [of h 0 "p # ps"] is_ext_def)
qed

end
