(* ===== verification/DirEntries.thy ===== *)
theory DirEntries
  imports Dir "HOL-Library.Multiset"
begin

text \<open>
  Directories as lists of entries: what \<^verbatim>\<open>search_dir_entry\<close>, \<^verbatim>\<open>sync_dir_entry\<close> and \<^verbatim>\<open>delete_dir_entry\<close> do to
  the entries of a directory, and where the code departs from it.
\<close>

section \<open>The entries of a directory\<close>

definition slots :: "u8 list \<Rightarrow> u8 list list" where
  "slots buf = map (\<lambda>idx. de idx buf) [0..<21]"

definition ename :: "u8 list \<Rightarrow> char list" where
  "ename e = takeWhile (\<lambda>c. c \<noteq> NUL) (chars (take 16 e))"

text \<open>A sector of entries whose names end within their field.\<close>

definition sector_ok :: "u8 list \<Rightarrow> bool" where
  "sector_ok buf \<longleftrightarrow> length buf = 512 \<and> (\<forall>e\<in>set (slots buf). NUL \<in> set (chars (take 16 e)))"

definition dir_ab :: "inode \<Rightarrow> fsys \<Rightarrow> u32 list" where
  "dir_ab i s = take 12 (i_sectors i) @
     (if i_sectors i ! 12 \<noteq> 0 then words_of (sects s (unat (i_sectors i ! 12))) else replicate 128 0)"

definition dir_slots :: "u32 list \<Rightarrow> fsys \<Rightarrow> u8 list list" where
  "dir_slots bs s = concat (map (\<lambda>b. slots (sects s (unat b))) (filter (\<lambda>b. b \<noteq> 0) bs))"

definition dir_ok :: "inode \<Rightarrow> fsys \<Rightarrow> bool" where
  "dir_ok i s \<longleftrightarrow> full (sects s) \<and> length (i_sectors i) = 13 \<and> dir_entry_size (sb s) = 24 \<and>
     unat (i_sectors i ! 12) \<le> 163839 \<and>
     (\<forall>b\<in>set (dir_ab i s). b \<noteq> 0 \<longrightarrow> unat b \<le> 163839 \<and> sector_ok (sects s (unat b)))"

lemma dir_slots_Cons [simp]:
  "dir_slots (b # bs) s = (if b = 0 then dir_slots bs s else slots (sects s (unat b)) @ dir_slots bs s)"
  "dir_slots [] s = []"
  by (simp_all add: dir_slots_def)

lemma dir_slots_append [simp]: "dir_slots (bs @ cs) s = dir_slots bs s @ dir_slots cs s"
  by (simp add: dir_slots_def)

lemma find_append: "find P (xs @ ys) = (case find P xs of None \<Rightarrow> find P ys | Some x \<Rightarrow> Some x)"
  by (induction xs) simp_all

lemma find_map: "find P (map f xs) = map_option f (find (P \<circ> f) xs)"
  by (induction xs) simp_all

section \<open>Searching\<close>

lemma name_c_str:
  assumes "sector_ok buf" "idx < 21"
  shows "c_str (name_at idx buf) (ename (de idx buf))"
proof -
  let ?n = "chars (take 16 (de idx buf))"
  have "NUL \<in> set ?n" using assms by (simp add: sector_ok_def slots_def)
  then obtain xs r where r: "?n = xs @ NUL # r" "NUL \<notin> set xs" by (meson split_list_first)
  then have "ename (de idx buf) = xs" by (simp add: ename_def takeWhile_append)
  moreover have "name_at idx buf = ?n @ chars (drop 16 (drop (24 * idx) buf))"
    using append_take_drop_id [of 16 "drop (24 * idx) buf"] unfolding name_at_def de_def chars_def
    by (simp add: min_def del: drop_drop append_take_drop_id flip: map_append)
  ultimately show ?thesis using r by (simp add: c_str_def)
qed

lemma search_entries_find:
  assumes "sector_ok buf" "c_str name nm" "set is \<subseteq> {..<21}"
  shows "search_entries is buf name = Inr (find (\<lambda>idx. ename (de idx buf) = nm) is)"
  using assms(3)
proof (induction "is")
  case (Cons idx "is")
  obtain d where "strcmp (name_at idx buf) name = Inr d" "d = 0 \<longleftrightarrow> ename (de idx buf) = nm"
    using strcmp_c_str [OF name_c_str [OF assms(1), of idx] assms(2)] Cons.prems by auto
  then show ?case using Cons by simp
qed simp

lemma search_blocks_find:
  assumes "c_str name nm" "\<forall>b\<in>set bs. b \<noteq> 0 \<longrightarrow> unat b \<le> 163839 \<and> sector_ok (sects s (unat b))"
  shows "\<exists>r. search_blocks bs 21 name s = Inr r \<and> map_option (take 24) r = find (\<lambda>e. ename e = nm) (dir_slots bs s) \<and>
    (\<forall>p. r = Some p \<longrightarrow> 24 \<le> length p)"
  using assms(2)
proof (induction bs)
  case (Cons b bs)
  show ?case
  proof (cases "b = 0")
    case False
    let ?buf = "sects s (unat b)"
    have b: "unat b \<le> 163839" "sector_ok ?buf" "length ?buf = 512" using Cons.prems False by (simp_all add: sector_ok_def)
    have se: "search_entries [0..<21] ?buf name = Inr (find (\<lambda>idx. ename (de idx ?buf) = nm) [0..<21])"
      by (rule search_entries_find [OF b(2) assms(1)]) auto
    have fs: "find (\<lambda>e. ename e = nm) (slots ?buf) = map_option (\<lambda>idx. de idx ?buf) (find (\<lambda>idx. ename (de idx ?buf) = nm) [0..<21])"
      by (simp add: slots_def find_map comp_def)
    show ?thesis
    proof (cases "find (\<lambda>idx. ename (de idx ?buf) = nm) [0..<21]")
      case None
      then show ?thesis using Cons False se fs dread_one [OF b(1)] by (simp add: find_append)
    next
      case (Some idx)
      then have "idx \<in> set [0..<21]" by (metis find_Some_iff nth_mem)
      then show ?thesis using Some False se fs dread_one [OF b(1)] b(3) by (simp add: find_append de_def)
    qed
  qed (use Cons in simp)
qed simp

lemma dir_blocks_eq: "dir_ok i s \<Longrightarrow> dir_blocks i s = Inr (dir_ab i s)"
  using dread_one [of "i_sectors i ! 12" s] by (simp add: dir_ok_def dir_blocks_def dir_ab_def)

lemma search_dir_entry_eq:
  assumes "dir_ok (core s a) s" "c_str name nm" "length dir_e = 24" "heap s (heap_n s) \<noteq> 0" "heap s (heap_n s + 1) \<noteq> 0"
  shows "search_dir_entry a name dir_e s =
    Inr (case find (\<lambda>e. ename e = nm) (dir_slots (dir_ab (core s a) s) s) of
           None \<Rightarrow> (False, dir_e, s\<lparr>heap_n := heap_n s + 2\<rparr>) | Some e \<Rightarrow> (True, e, s\<lparr>heap_n := heap_n s + 2\<rparr>))"
proof -
  let ?bs = "dir_ab (core s a) s"
  let ?s1 = "s\<lparr>heap_n := Suc (heap_n s)\<rparr>" and ?s2 = "s\<lparr>heap_n := Suc (Suc (heap_n s))\<rparr>"
  have ok: "\<forall>b\<in>set ?bs. b \<noteq> 0 \<longrightarrow> unat b \<le> 163839 \<and> sector_ok (sects ?s2 (unat b))" "dir_entry_size (sb s) = 24"
    using assms(1) by (simp_all add: dir_ok_def)
  have "dir_ok (core s a) ?s1" using assms(1) by (simp add: dir_ok_def dir_ab_def)
  then have db: "dir_blocks (core s a) ?s1 = Inr ?bs" using dir_blocks_eq by (simp add: dir_ab_def)
  have eq: "dir_slots ?bs ?s2 = dir_slots ?bs s" by (simp add: dir_slots_def)
  obtain r where r: "search_blocks ?bs 21 name ?s2 = Inr r"
      "map_option (take 24) r = find (\<lambda>e. ename e = nm) (dir_slots ?bs s)" "\<And>p. r = Some p \<Longrightarrow> 24 \<le> length p"
    using search_blocks_find [OF assms(2) ok(1)] unfolding eq by blast
  have "search_dir_entry a name dir_e s = (case r of None \<Rightarrow> Inr (False, dir_e, ?s2) | Some p \<Rightarrow> Inr (True, take 24 p, ?s2))"
    using assms(3-5) r(1,3) db ok(2)
    by (simp add: search_dir_entry_def sys_malloc_obj_def entries_per_sec_def memcpy_eq split: option.split)
  then show ?thesis unfolding r(2) [symmetric] by (cases r) simp_all
qed

text \<open>C23: A search returns the first entry of the directory with the name, and reports that there is none
  otherwise, through direct and indirect blocks; nothing on disk changes.\<close>

theorem search_dir_entry_finds:
  assumes "dir_ok (core s a) s" "c_str name nm" "length dir_e = 24" "heap s (heap_n s) \<noteq> 0" "heap s (heap_n s + 1) \<noteq> 0"
  shows "search_dir_entry a name dir_e s =
    Inr (case find (\<lambda>e. ename e = nm) (dir_slots (dir_ab (core s a) s) s) of
           None \<Rightarrow> (False, dir_e, s\<lparr>heap_n := heap_n s + 2\<rparr>) | Some e \<Rightarrow> (True, e, s\<lparr>heap_n := heap_n s + 2\<rparr>))"
  using search_dir_entry_eq [OF assms] .

section \<open>Adding\<close>

definition in_use :: "u8 list \<Rightarrow> bool" where
  "in_use e \<longleftrightarrow> de_f_type e \<noteq> FT_UNKNOWN"

definition entries :: "inode \<Rightarrow> fsys \<Rightarrow> u8 list list" where
  "entries i s = filter in_use (dir_slots (dir_ab i s) s)"

abbreviation no_entry :: "u8 list" where
  "no_entry \<equiv> replicate 24 0"

text \<open>A directory within its direct blocks; the first block of the root directory is the first of the data area.\<close>

definition dir_block :: "fsys \<Rightarrow> u32 \<Rightarrow> bool" where
  "dir_block s b \<longleftrightarrow> allocated s b \<or> unat b = data_start s"

definition small_dir :: "inode \<Rightarrow> fsys \<Rightarrow> bool" where
  "small_dir i s \<longleftrightarrow> layout s \<and> length (i_sectors i) = 13 \<and> dir_entry_size (sb s) = 24 \<and> i_sectors i ! 12 = 0 \<and>
     i_size i = of_nat (24 * length (entries i s)) \<and> distinct (filter (\<lambda>b. b \<noteq> 0) (take 12 (i_sectors i))) \<and>
     (\<forall>b\<in>set (take 12 (i_sectors i)). b \<noteq> 0 \<longrightarrow> dir_block s b)"

lemma length_slots [simp]: "length (slots buf) = 21"
  by (simp add: slots_def)

lemma nth_slots: "i < 21 \<Longrightarrow> slots buf ! i = de i buf"
  by (simp add: slots_def)

lemma slots_splice:
  assumes "length buf = 512" "length e = 24" "idx < 21"
  shows "slots (splice (24 * idx) e buf) = (slots buf)[idx := e]"
proof (rule nth_equalityI)
  fix i assume "i < length (slots (splice (24 * idx) e buf))"
  then have i: "i < 21" by simp
  have fit: "24 * idx + length e \<le> length buf" using assms by simp
  show "slots (splice (24 * idx) e buf) ! i = (slots buf)[idx := e] ! i"
  proof (cases "i = idx")
    case True
    then show ?thesis using i take_drop_splice [OF fit] assms(2) by (simp add: nth_slots de_def)
  next
    case False
    then have "24 * i + 24 \<le> 24 * idx \<or> 24 * idx + length e \<le> 24 * i" using assms(2) by auto
    then show ?thesis using i False take_drop_splice_other [OF fit, of "24 * i" 24] assms(1) by (simp add: nth_slots de_def)
  qed
qed simp

lemma slots_fresh: "length e = 24 \<Longrightarrow> slots (e @ replicate 488 0) = e # replicate 20 no_entry"
proof (rule nth_equalityI)
  fix i assume e: "length e = 24" and "i < length (slots (e @ replicate 488 0))"
  then show "slots (e @ replicate 488 0) ! i = (e # replicate 20 no_entry) ! i"
    by (cases i) (simp_all add: nth_slots de_def)
qed simp

lemma not_in_use [simp]: "\<not> in_use no_entry"
  by (simp add: in_use_def de_f_type_def rd32_def)

lemma mset_filter_update:
  assumes "i < length xs" "\<not> P (xs ! i)" "P y"
  shows "mset (filter P (xs[i := y])) = add_mset y (mset (filter P xs))"
  unfolding upd_conv_take_nth_drop [OF assms(1)] using id_take_nth_drop [OF assms(1)] assms(2,3)
  by (metis (no_types, lifting) filter.simps(2) filter_append mset.simps(2) mset_append union_mset_add_mset_right)

text \<open>The slots of a directory after a change of one sector, or with one block more.\<close>

lemma dir_slots_other: "\<forall>b\<in>set bs. b \<noteq> 0 \<longrightarrow> sects t (unat b) = sects s (unat b) \<Longrightarrow> dir_slots bs t = dir_slots bs s"
  by (induction bs) auto

lemma free_entry_find: "length buf = 512 \<Longrightarrow> set is \<subseteq> {..<21} \<Longrightarrow>
    free_entry is buf = Inr (find (\<lambda>idx. \<not> in_use (de idx buf)) is)"
  by (induction "is") (auto simp: in_use_def)

lemma free_entry_all:
  assumes "length buf = 512"
  shows "(\<forall>e\<in>set (slots buf). in_use e) \<and> free_entry [0..<21] buf = Inr None \<or>
    (\<exists>idx<21. \<not> in_use (de idx buf) \<and> free_entry [0..<21] buf = Inr (Some idx))"
proof -
  have fe: "free_entry [0..<21] buf = Inr (find (\<lambda>idx. \<not> in_use (de idx buf)) [0..<21])"
    by (rule free_entry_find [OF assms]) auto
  show ?thesis
  proof (cases "find (\<lambda>idx. \<not> in_use (de idx buf)) [0..<21]")
    case None
    then have "\<forall>e\<in>set (slots buf). in_use e" by (auto simp: find_None_iff slots_def)
    then show ?thesis using fe None by simp
  next
    case (Some idx)
    then have "idx < 21" "\<not> in_use (de idx buf)" by (auto simp: find_Some_iff)
    then show ?thesis using fe Some by auto
  qed
qed

lemma dir_block_low: "layout s \<Longrightarrow> dir_block s b \<Longrightarrow> unat b \<le> 163839"
  "layout s \<Longrightarrow> dir_block s b \<Longrightarrow> unat (inode_table_lba (sb s)) + 608 \<le> unat b"
proof -
  assume l: "layout s" and b: "dir_block s b"
  have "0 < bm_cap (block_bitmap s)" using l by (simp add: layout_def bm_cap_def)
  then show "unat b \<le> 163839" using l b by (auto simp: layout_def dir_block_def allocated_def)
  show "unat (inode_table_lba (sb s)) + 608 \<le> unat b"
    using l b by (auto simp: layout_def dir_block_def allocated_def)
qed

text \<open>What adding an entry leaves alone: sectors from the inode table on but for the one written.\<close>

definition added :: "u32 \<Rightarrow> u32 \<Rightarrow> fsys \<Rightarrow> fsys \<Rightarrow> bool" where
  "added a b s t \<longleftrightarrow> layout t \<and> meta t = meta s \<and> (\<forall>c. allocated s c \<longrightarrow> allocated t c) \<and>
     (\<forall>m. unat (inode_table_lba (sb s)) \<le> m \<longrightarrow> m \<noteq> unat b \<longrightarrow> sects t m = sects s m) \<and>
     (\<forall>x. x \<noteq> a \<longrightarrow> core t x = core s x)"

lemma new_direct_block:
  assumes "small_dir (core s a) s" "k < 12" "free_blocks s > 0" "length p_de = 24" "length ab = 140"
  shows "\<exists>b t. new_dir_block k ab a p_de s = Inr (True, t) \<and> allocated t b \<and> \<not> allocated s b \<and> added a b s t \<and>
    core t a = (core s a)\<lparr>i_sectors := (i_sectors (core s a))[k := b], i_size := i_size (core s a) + 24\<rparr> \<and>
    sects t (unat b) = p_de @ replicate 488 0"
proof -
  have l: "layout s" "dir_entry_size (sb s) = 24" using assms(1) by (simp_all add: small_dir_def)
  obtain b s1 where b: "block_bitmap_alloc s = Inr (int (unat b), s1)" "takes [b] s s1" "core s1 = core s"
      "unat (b - data_start_lba (sb s)) = unat b - data_start s"
    using alloc_block [OF l(1) assms(3)] by blast
  have s1: "layout s1" "allocated s1 b" "sb s1 = sb s" "\<not> allocated s b"
    using b(2) takes_sb [OF b(2)] by (simp_all add: takes_def)
  obtain s2 where s2: "bitmap_sync (b - data_start_lba (sb s)) BLOCK_BITMAP s1 = Inr s2" "takes [] s1 s2" "core s2 = core s1"
    using sync_block [OF s1(1,2)] s1(3) by auto
  have t2: "takes [b] s s2" using takes_trans [OF b(2) s2(2)] by simp
  have l2: "layout s2" "allocated s2 b" "sb s2 = sb s" "meta s2 = meta s" using t2 takes_sb [OF t2] by (simp_all add: takes_def)
  have nm: "b - data_start_lba (sb s) \<noteq> -1"
  proof
    assume "b - data_start_lba (sb s) = -1"
    then have "unat (b - data_start_lba (sb s)) = 2 ^ 32 - 1" by (simp add: unsigned_minus_1_eq_mask mask_eq_exp_minus_1)
    then show False using allocated_low [OF s1(1,2)] b(4) by simp
  qed
  define s3 where "s3 = set_core a (\<lambda>i. i\<lparr>i_sectors := (i_sectors i)[k := b]\<rparr>) s2"
  have low: "unat b \<le> 163839" using allocated_low [OF s1(1,2)] .
  let ?new = "p_de @ replicate 488 0"
  define t where "t = set_core a (\<lambda>i. i\<lparr>i_size := i_size i + 24\<rparr>) (s3\<lparr>sects := (sects s3)(unat b := ?new)\<rparr>)"
  have run: "new_dir_block k ab a p_de s = Inr (True, t)"
    using b(1) s1(3) s2(1) nm assms(2,4,5) uint_not_neg [of b] l(2) dwrite_one [OF low, of ?new s3]
    by (simp add: new_dir_block_def Let_def memcpy_eq s3_def [symmetric] t_def)
  have "layout (s3\<lparr>sects := (sects s3)(unat b := ?new)\<rparr>)"
    by (rule layout_sects) (use l2(1) assms(4) in \<open>simp_all add: s3_def\<close>)
  then have "added a b s t"
    using t2 s2(3) b(3) l2(4) by (simp add: added_def t_def s3_def takes_def)
  moreover have "core t a = (core s a)\<lparr>i_sectors := (i_sectors (core s a))[k := b], i_size := i_size (core s a) + 24\<rparr>"
    "sects t (unat b) = ?new" "allocated t b"
    using s2(3) b(3) l2(2) by (simp_all add: t_def s3_def)
  ultimately show ?thesis using run s1(4) by blast
qed

lemma sync_skip:
  assumes "\<forall>j\<in>set ks. ab ! j \<noteq> 0 \<and> unat (ab ! j) \<le> 163839 \<and> length (sects s (unat (ab ! j))) = 512 \<and>
    (\<forall>e\<in>set (slots (sects s (unat (ab ! j)))). in_use e)"
  shows "sync_blocks (ks @ ks') ab 21 a p_de s = sync_blocks ks' ab 21 a p_de s"
  using assms
proof (induction ks)
  case (Cons k ks)
  have "free_entry [0..<21] (sects s (unat (ab ! k))) = Inr None"
    using free_entry_all [of "sects s (unat (ab ! k))"] Cons.prems by (auto simp: slots_def)
  then show ?case using Cons dread_one [of "ab ! k" s] by simp
qed simp

text \<open>A list of slots that gains an entry.\<close>

definition gains :: "u8 list \<Rightarrow> u8 list list \<Rightarrow> u8 list list \<Rightarrow> bool" where
  "gains p xs ys \<longleftrightarrow> mset (filter in_use ys) = add_mset p (mset (filter in_use xs)) \<and> p \<in> set ys \<and>
     set ys \<subseteq> insert p (set xs \<union> {no_entry})"

lemma gains_mid: "gains p y y' \<Longrightarrow> gains p (x @ y @ z) (x @ y' @ z)"
  by (auto simp: gains_def)

lemma gains_update: "i < length xs \<Longrightarrow> \<not> in_use (xs ! i) \<Longrightarrow> in_use p \<Longrightarrow> gains p xs (xs[i := p])"
  using mset_filter_update [of i xs in_use p] set_update_subset_insert [of xs i p] set_update_memI [of i xs p]
  by (auto simp: gains_def)

lemma gains_fresh: "in_use p \<Longrightarrow> gains p [] (p # replicate n no_entry)"
  by (auto simp: gains_def)

lemma gains_find:
  assumes "gains p xs ys" "find (\<lambda>e. ename e = ename p) xs = None" "ename p \<noteq> []"
  shows "find (\<lambda>e. ename e = ename p) ys = Some p"
proof -
  have "ename no_entry = []" by (simp add: ename_def chars_def char_of_def)
  then have "e = p" if "e \<in> set ys" "ename e = ename p" for e
    using assms that by (auto simp: gains_def find_None_iff)
  moreover have "p \<in> set ys" using assms(1) by (simp add: gains_def)
  ultimately show ?thesis by (induction ys) auto
qed

lemma length_dir_slots: "length (dir_slots bs s) = 21 * length (filter (\<lambda>b. b \<noteq> 0) bs)"
  by (induction bs) auto

lemma dir_slots_zeros [simp]: "dir_slots (replicate n 0) s = []"
  by (induction n) auto

lemma entries_bound:
  assumes "length (i_sectors i) = 13" "i_sectors i ! 12 = 0"
  shows "length (entries i s) \<le> 252"
proof -
  have "length (entries i s) \<le> length (dir_slots (take 12 (i_sectors i)) s)"
    using assms by (simp add: entries_def dir_ab_def)
  also have "\<dots> \<le> 21 * 12"
    unfolding length_dir_slots using length_filter_le [of "\<lambda>b. b \<noteq> 0" "take 12 (i_sectors i)"] assms(1) by simp
  finally show ?thesis by simp
qed

text \<open>The blocks before and after a given one.\<close>

lemma split_at_block:
  assumes "length xs = 13" "k < 12"
  shows "\<exists>pre post. take 12 xs = pre @ xs ! k # post \<and> (\<forall>b. take 12 (xs[k := b]) = pre @ b # post)"
proof -
  have l: "k < length (take 12 xs)" using assms by simp
  have "take 12 (xs[k := b]) = (take 12 xs)[k := b]" for b using assms(2) by (simp add: take_update_swap)
  then show ?thesis
    using id_take_nth_drop [OF l] upd_conv_take_nth_drop [OF l] assms(2) by (metis nth_take)
qed

text \<open>Block \<open>k\<close> takes the entry: by a free slot in it, or as a new block.\<close>

lemma take_entry:
  assumes "small_dir (core s a) s" "k < 12" "length p_de = 24" "in_use p_de" "ab = take 12 (i_sectors (core s a)) @ replicate 128 0"
    "ab ! k = 0 \<and> free_blocks s > 0 \<or> ab ! k \<noteq> 0 \<and> (\<exists>e\<in>set (slots (sects s (unat (ab ! k)))). \<not> in_use e)"
  shows "\<exists>b t y y'. sync_blocks (k # ks) ab 21 a p_de s = Inr (True, t) \<and> added a b s t \<and> dir_block t b \<and> gains p_de y y' \<and>
    core t a = (core s a)\<lparr>i_sectors := (i_sectors (core s a))[k := b], i_size := i_size (core s a) + 24\<rparr> \<and>
    (ab ! k \<noteq> 0 \<and> b = ab ! k \<and> y = slots (sects s (unat b)) \<or> ab ! k = 0 \<and> \<not> dir_block s b \<and> y = []) \<and>
    slots (sects t (unat b)) = y'"
proof (cases "ab ! k = 0")
  case True
  have la: "length ab = 140" using assms(1,5) by (simp add: small_dir_def)
  have fr: "free_blocks s > 0" using True assms(6) by auto
  obtain b t where t: "new_dir_block k ab a p_de s = Inr (True, t)" "allocated t b" "\<not> allocated s b" "added a b s t"
      "core t a = (core s a)\<lparr>i_sectors := (i_sectors (core s a))[k := b], i_size := i_size (core s a) + 24\<rparr>"
      "sects t (unat b) = p_de @ replicate 488 0"
    using new_direct_block [OF assms(1,2) fr assms(3) la] by blast
  have "data_start t = data_start s" using t(4) by (simp add: added_def meta_def)
  then have "\<not> dir_block s b" using t(2,3) by (auto simp: dir_block_def allocated_def)
  moreover have "slots (sects t (unat b)) = p_de # replicate 20 no_entry" using t(6) slots_fresh [OF assms(3)] by simp
  ultimately show ?thesis
    using t(1,2,4,5) True gains_fresh [OF assms(4), of 20] by (auto simp: dir_block_def)
next
  case False
  let ?b = "ab ! k" and ?i = "core s a"
  let ?buf = "sects s (unat (ab ! k))"
  have sm: "layout s" "length (i_sectors ?i) = 13" "dir_entry_size (sb s) = 24" using assms(1) by (simp_all add: small_dir_def)
  have bk: "?b = i_sectors ?i ! k" using assms(2,5) sm(2) by (simp add: nth_append)
  then have "?b \<in> set (take 12 (i_sectors ?i))" using assms(2) sm(2) by (auto simp: in_set_conv_nth intro!: exI [of _ k])
  then have db: "dir_block s ?b" using assms(1) False by (simp add: small_dir_def)
  have low: "unat ?b \<le> 163839" by (rule dir_block_low(1)) (fact sm db)+
  have lb: "length ?buf = 512" using layout_full [OF sm(1)] by (simp add: full_def)
  have "\<exists>e\<in>set (slots ?buf). \<not> in_use e" using False assms(6) by auto
  then obtain idx where idx: "idx < 21" "\<not> in_use (de idx ?buf)" "free_entry [0..<21] ?buf = Inr (Some idx)"
    using free_entry_all [OF lb] by auto
  have fit: "24 * idx + length p_de \<le> length ?buf" using idx(1) lb assms(3) by simp
  let ?new = "splice (24 * idx) p_de ?buf"
  have ln: "length ?new = 512" using fit lb by simp
  have mc: "memcpy (drop (24 * idx) ?buf) p_de 24 = Inr (p_de @ drop (24 * idx + 24) ?buf)"
    using assms(3) fit lb by (simp add: memcpy_eq add.commute)
  let ?u = "s\<lparr>sects := (sects s)(unat ?b := ?new)\<rparr>"
  have dw: "dwrite ?b ?new (Suc 0) s = Inr ?u" by (rule dwrite_one [OF low ln])
  define t where "t = set_core a (\<lambda>i. i\<lparr>i_size := i_size i + 24\<rparr>) ?u"
  have "sync_blocks (k # ks) ab 21 a p_de s = Inr (True, t)"
    using False dread_one [OF low] idx(3) mc dw sm(3) assms(3) by (simp add: Let_def splice_def t_def)
  moreover have "layout t" using layout_sects [OF sm(1) ln] by (simp add: t_def)
  then have "added a ?b s t" by (simp add: added_def t_def)
  moreover have "dir_block t ?b" using db by (simp add: dir_block_def t_def)
  moreover have "slots (sects t (unat ?b)) = (slots ?buf)[idx := p_de]"
    using slots_splice [OF lb assms(3) idx(1)] by (simp add: t_def)
  moreover have "gains p_de (slots ?buf) ((slots ?buf)[idx := p_de])"
    by (rule gains_update) (use idx assms(4) in \<open>simp_all add: nth_slots\<close>)
  moreover have "core t a = ?i\<lparr>i_sectors := (i_sectors ?i)[k := ?b], i_size := i_size ?i + 24\<rparr>"
    unfolding bk by (simp add: t_def)
  ultimately show ?thesis using False by blast
qed

lemma small_dir_slots:
  assumes "small_dir i s" "k < 12" "i' = i\<lparr>i_sectors := (i_sectors i)[k := b], i_size := z\<rparr>" "added a b s t" "gains p y y'"
    "i_sectors i ! k \<noteq> 0 \<and> b = i_sectors i ! k \<and> y = slots (sects s (unat b)) \<or> i_sectors i ! k = 0 \<and> \<not> dir_block s b \<and> y = []"
    "slots (sects t (unat b)) = y'" "b \<noteq> 0"
  shows "gains p (dir_slots (dir_ab i s) s) (dir_slots (dir_ab i' t) t)"
proof -
  have i: "length (i_sectors i) = 13" "i_sectors i ! 12 = 0" "layout s" "distinct (filter (\<lambda>b. b \<noteq> 0) (take 12 (i_sectors i)))"
      "\<And>c. c \<in> set (take 12 (i_sectors i)) \<Longrightarrow> c \<noteq> 0 \<Longrightarrow> dir_block s c"
    using assms(1) by (auto simp: small_dir_def)
  obtain pre post where sp: "take 12 (i_sectors i) = pre @ i_sectors i ! k # post" "\<And>b. take 12 ((i_sectors i)[k := b]) = pre @ b # post"
    using split_at_block [OF i(1) assms(2)] by blast
  have keep: "sects t (unat c) = sects s (unat c)" if "c \<in> set pre \<union> set post" "c \<noteq> 0" for c
  proof -
    have dc: "dir_block s c" using i(5) that unfolding sp(1) by auto
    have "c \<noteq> b" using assms(6) dc that i(4) unfolding sp(1) by auto
    then have "unat c \<noteq> unat b" by (simp add: word_unat_eq_iff)
    then show ?thesis using assms(4) dir_block_low(2) [OF i(3) dc] by (simp add: added_def)
  qed
  have "dir_ab i' t = pre @ b # post @ replicate 128 0" using assms(2,3) i(1,2) by (simp add: dir_ab_def sp(2))
  then have new: "dir_slots (dir_ab i' t) t = dir_slots pre s @ y' @ dir_slots post s"
    using assms(7,8) dir_slots_other [of pre t s] dir_slots_other [of post t s] keep by simp
  have "dir_ab i s = pre @ i_sectors i ! k # post @ replicate 128 0" using i(2) by (simp add: dir_ab_def sp(1))
  then have "dir_slots (dir_ab i s) s = dir_slots pre s @ y @ dir_slots post s" using assms(6) by auto
  then show ?thesis unfolding new using gains_mid [OF assms(5)] by simp
qed

text \<open>The search for room ends at the first direct block that has any.\<close>

lemma sync_dir_entry_start:
  assumes "small_dir (core s a) s" "ab = take 12 (i_sectors (core s a)) @ replicate 128 0"
    "\<exists>k<12. i_sectors (core s a) ! k = 0 \<or> (\<exists>e\<in>set (slots (sects s (unat (i_sectors (core s a) ! k)))). \<not> in_use e)"
  shows "\<exists>k<12. (ab ! k = 0 \<or> (\<exists>e\<in>set (slots (sects s (unat (ab ! k)))). \<not> in_use e)) \<and>
    sync_dir_entry a p_de s = sync_blocks (k # [Suc k..<140]) ab 21 a p_de s"
proof -
  let ?i = "core s a"
  let ?room = "\<lambda>k. ab ! k = 0 \<or> (\<exists>e\<in>set (slots (sects s (unat (ab ! k)))). \<not> in_use e)"
  have i: "layout s" "length (i_sectors ?i) = 13" "dir_entry_size (sb s) = 24" "i_sectors ?i ! 12 = 0"
      "i_size ?i = of_nat (24 * length (entries ?i s))"
      "\<And>c. c \<in> set (take 12 (i_sectors ?i)) \<Longrightarrow> c \<noteq> 0 \<Longrightarrow> dir_block s c"
    using assms(1) by (auto simp: small_dir_def)
  have abk: "ab ! j = i_sectors ?i ! j" if "j < 12" for j using that i(2) assms(2) by (simp add: nth_append)
  obtain k0 where k0: "?room k0" "k0 < 12" using assms(3) abk by auto
  obtain k where k: "k < 12" "?room k" "\<forall>j<k. \<not> ?room j" by (rule first_index [of ?room, OF k0])
  have mem: "i_sectors ?i ! j \<in> set (take 12 (i_sectors ?i))" if "j < 12" for j
    using that i(2) by (auto simp: in_set_conv_nth intro!: exI [of _ j])
  have "\<forall>j\<in>set [0..<k]. ab ! j \<noteq> 0 \<and> unat (ab ! j) \<le> 163839 \<and> length (sects s (unat (ab ! j))) = 512 \<and>
      (\<forall>e\<in>set (slots (sects s (unat (ab ! j)))). in_use e)"
    using k(1,3) abk mem i(6) dir_block_low(1) [OF i(1)] layout_full [OF i(1)] by (auto simp: full_def)
  then have skip: "sync_blocks ([0..<k] @ k # [Suc k..<140]) ab 21 a p_de s = sync_blocks (k # [Suc k..<140]) ab 21 a p_de s"
    by (rule sync_skip)
  have upt: "[0..<140] = [0..<k] @ k # [Suc k..<140]"
    using k(1) upt_add_eq_append [of 0 k "140 - k"] by (simp add: upt_conv_Cons)
  have "unat (i_size ?i) = 24 * length (entries ?i s)"
    unfolding i(5) using entries_bound [OF i(2,4), of s] by (simp only: unat_of_nat) simp
  then have "i_size ?i mod 24 = 0" by (simp add: word_unat_eq_iff unat_mod)
  then have "sync_dir_entry a p_de s = sync_blocks [0..<140] ab 21 a p_de s"
    using i(3) assms(2) by (simp add: sync_dir_entry_def entries_per_sec_def Let_def del: upt_rec_numeral sync_blocks.simps)
  then have "sync_dir_entry a p_de s = sync_blocks (k # [Suc k..<140]) ab 21 a p_de s" unfolding upt skip .
  then show ?thesis using k by blast
qed

text \<open>C12: Adding an entry to a directory without an indirect table that has room in its direct blocks, a free slot or
  a block number that is still 0, succeeds: the entries are the old ones
  and the new one, the size counts them, and a search for the new name, if no entry had it,
  finds the new entry. The directory is again well formed, and blocks that are not its own keep what they hold. With an
  indirect table and full direct blocks the code allocates a second table and loses the entries of the first (\<^verbatim>\<open>dir.c:146\<close>).\<close>

theorem sync_dir_entry_adds:
  assumes "small_dir (core s a) s" "length p_de = 24" "in_use p_de" "free_blocks s > 0"
    "\<exists>k<12. i_sectors (core s a) ! k = 0 \<or> (\<exists>e\<in>set (slots (sects s (unat (i_sectors (core s a) ! k)))). \<not> in_use e)"
  shows "\<exists>t. sync_dir_entry a p_de s = Inr (True, t) \<and> small_dir (core t a) t \<and>
    mset (entries (core t a) t) = add_mset p_de (mset (entries (core s a) s)) \<and>
    (find (\<lambda>e. ename e = ename p_de) (dir_slots (dir_ab (core s a) s) s) = None \<longrightarrow> ename p_de \<noteq> [] \<longrightarrow>
       find (\<lambda>e. ename e = ename p_de) (dir_slots (dir_ab (core t a) t) t) = Some p_de) \<and>
    others_kept (take 12 (i_sectors (core s a))) s t"
proof -
  let ?i = "core s a"
  define ab where "ab = take 12 (i_sectors ?i) @ replicate 128 0"
  have i: "layout s" "length (i_sectors ?i) = 13" "dir_entry_size (sb s) = 24" "i_sectors ?i ! 12 = 0"
      "i_size ?i = of_nat (24 * length (entries ?i s))" "distinct (filter (\<lambda>b. b \<noteq> 0) (take 12 (i_sectors ?i)))"
      "\<And>c. c \<in> set (take 12 (i_sectors ?i)) \<Longrightarrow> c \<noteq> 0 \<Longrightarrow> dir_block s c"
    using assms(1) by (auto simp: small_dir_def)
  have abk: "ab ! j = i_sectors ?i ! j" if "j < 12" for j using that i(2) by (simp add: ab_def nth_append)
  obtain k where k: "k < 12" "ab ! k = 0 \<or> (\<exists>e\<in>set (slots (sects s (unat (ab ! k)))). \<not> in_use e)"
      "sync_dir_entry a p_de s = sync_blocks (k # [Suc k..<140]) ab 21 a p_de s"
    using sync_dir_entry_start [OF assms(1) ab_def assms(5)] by blast
  obtain b t y y' where t: "sync_blocks (k # [Suc k..<140]) ab 21 a p_de s = Inr (True, t)" "added a b s t" "dir_block t b"
      "gains p_de y y'" "core t a = ?i\<lparr>i_sectors := (i_sectors ?i)[k := b], i_size := i_size ?i + 24\<rparr>"
      "ab ! k \<noteq> 0 \<and> b = ab ! k \<and> y = slots (sects s (unat b)) \<or> ab ! k = 0 \<and> \<not> dir_block s b \<and> y = []"
      "slots (sects t (unat b)) = y'"
    using take_entry [OF assms(1) k(1) assms(2,3) ab_def] k(2) assms(4) by blast
  have lt: "layout t" "sb t = sb s" using t(2) by (simp_all add: added_def meta_def)
  have bnz: "b \<noteq> 0" using dir_block_low(2) [OF lt(1) t(3)] by auto
  have g: "gains p_de (dir_slots (dir_ab ?i s) s) (dir_slots (dir_ab (core t a) t) t)"
    by (rule small_dir_slots [OF assms(1) k(1) t(5,2,4) _ t(7) bnz]) (use t(6) abk [OF k(1)] in simp)
  then have ms: "mset (entries (core t a) t) = add_mset p_de (mset (entries ?i s))" by (simp add: gains_def entries_def)
  have "length (entries (core t a) t) = length (entries ?i s) + 1" using arg_cong [OF ms, of size] by simp
  moreover obtain pre post where sp: "take 12 (i_sectors ?i) = pre @ i_sectors ?i ! k # post" "\<And>b. take 12 ((i_sectors ?i)[k := b]) = pre @ b # post"
    using split_at_block [OF i(2) k(1)] by blast
  have bl: "take 12 (i_sectors (core t a)) = pre @ b # post" using t(5) sp(2) by simp
  have new: "b = i_sectors ?i ! k \<or> b \<notin> set (take 12 (i_sectors ?i))" using t(6) abk [OF k(1)] i(7) bnz by metis
  have "distinct (filter (\<lambda>b. b \<noteq> 0) (take 12 (i_sectors (core t a))))"
    using new i(6) bnz unfolding bl sp(1) by (auto split: if_splits)
  moreover have "dir_block t c" if "c \<in> set (take 12 (i_sectors (core t a)))" "c \<noteq> 0" for c
  proof (cases "c = b")
    case False
    then have "c \<in> set (take 12 (i_sectors ?i))" using that(1) unfolding bl sp(1) by auto
    then show ?thesis using i(7) that(2) t(2) lt(2) by (auto simp: dir_block_def added_def)
  qed (use t(3) in simp)
  ultimately have "small_dir (core t a) t"
    using lt i(2-5) t(5) k(1) by (simp add: small_dir_def)
  moreover have "others_kept (take 12 (i_sectors ?i)) s t"
    unfolding others_kept_def
  proof (intro allI impI)
    fix c assume c: "allocated s c" "c \<notin> set (take 12 (i_sectors ?i))"
    have "i_sectors ?i ! k \<in> set (take 12 (i_sectors ?i))" unfolding sp(1) by simp
    then have "c \<noteq> b" using t(6) c abk [OF k(1)] by (auto simp: dir_block_def)
    then show "allocated t c \<and> sects t (unat c) = sects s (unat c)"
      using t(2) c(1) allocated_high [OF i(1) c(1)] by (auto simp: added_def word_unat_eq_iff)
  qed
  ultimately show ?thesis using k(3) t(1) ms gains_find [OF g] by auto
qed

section \<open>Deleting\<close>

abbreviation dot :: string where "dot \<equiv> [CHR ''.'']"
abbreviation dotdot :: string where "dotdot \<equiv> [CHR ''.'', CHR ''.'']"

text \<open>Entries other than \<^verbatim>\<open>.\<close> and \<^verbatim>\<open>..\<close>, and those among them with the inode number.\<close>

definition proper :: "u8 list \<Rightarrow> bool" where
  "proper e \<longleftrightarrow> in_use e \<and> ename e \<noteq> dot \<and> ename e \<noteq> dotdot"

definition target :: "u32 \<Rightarrow> u8 list \<Rightarrow> bool" where
  "target inode_no e \<longleftrightarrow> proper e \<and> de_i_no e = inode_no"

lemma scan_entries_spec:
  assumes "sector_ok buf" "set is \<subseteq> {..<21}"
  shows "scan_entries is buf ino (first, cnt, found) =
    (let ms = filter (\<lambda>idx. target ino (de idx buf)) is in
     if ms = [] \<or> length ms = 1 \<and> found = None
     then Inr (first \<or> (\<exists>idx\<in>set is. in_use (de idx buf) \<and> ename (de idx buf) = dot),
       cnt + length (filter (\<lambda>idx. proper (de idx buf)) is), if ms = [] then found else Some (hd ms))
     else Inl Assert_failed)"
  using assms(2)
proof (induction "is" arbitrary: first cnt found)
  case (Cons idx "is")
  have lb: "24 * idx + 24 \<le> length buf" using assms(1) Cons.prems by (auto simp: sector_ok_def)
  have nm: "c_str (name_at idx buf) (ename (de idx buf))" using name_c_str [OF assms(1)] Cons.prems by simp
  obtain d1 where d1: "strcmp (name_at idx buf) [CHR ''.'', NUL] = Inr d1" "d1 = 0 \<longleftrightarrow> ename (de idx buf) = dot"
    using strcmp_c_str [OF nm, of "[CHR ''.'', NUL]" dot] by (auto simp: c_str_Cons)
  obtain d2 where d2: "strcmp (name_at idx buf) [CHR ''.'', CHR ''.'', NUL] = Inr d2" "d2 = 0 \<longleftrightarrow> ename (de idx buf) = dotdot"
    using strcmp_c_str [OF nm, of "[CHR ''.'', CHR ''.'', NUL]" dotdot] by (auto simp: c_str_Cons)
  have "set is \<subseteq> {..<21}" using Cons.prems by auto
  note IH = Cons.IH [OF this]
  consider "\<not> in_use (de idx buf)" | "in_use (de idx buf)" "ename (de idx buf) = dot"
    | "in_use (de idx buf)" "ename (de idx buf) = dotdot" | "proper (de idx buf)" by (auto simp: proper_def)
  then show ?case
  proof cases
    case 4
    then have "in_use (de idx buf)" "ename (de idx buf) \<noteq> dot" "ename (de idx buf) \<noteq> dotdot" by (simp_all add: proper_def)
    then show ?thesis
      using 4 lb d1 d2 IH by (cases found) (auto simp: target_def in_use_def Let_def)
  qed (use lb d1 d2 IH in \<open>auto simp: target_def proper_def in_use_def Let_def\<close>)
qed simp

lemma filter_index: "filter (\<lambda>idx. P (de idx buf)) [0..<21] = [] \<longleftrightarrow> filter P (slots buf) = []"
  "map (\<lambda>idx. de idx buf) (filter (\<lambda>idx. P (de idx buf)) [0..<21]) = filter P (slots buf)"
  "length (filter (\<lambda>idx. P (de idx buf)) [0..<21]) = length (filter P (slots buf))"
  unfolding slots_def by (simp_all add: filter_map comp_def del: upt_rec_numeral)

text \<open>A sector with one target, and one with none.\<close>

lemma scan_found:
  assumes "sector_ok buf" "filter (target ino) (slots buf) = [e]"
  shows "\<exists>idx<21. slots buf ! idx = e \<and> scan_entries [0..<21] buf ino (False, 0, None) =
    Inr (\<exists>e'\<in>set (slots buf). in_use e' \<and> ename e' = dot, length (filter proper (slots buf)), Some idx)"
proof -
  let ?ms = "filter (\<lambda>idx. target ino (de idx buf)) [0..<21]"
  have "map (\<lambda>idx. de idx buf) ?ms = [e]" using filter_index(2) [where P = "target ino" and buf = buf] assms(2) by (simp del: upt_rec_numeral)
  then obtain idx where idx: "?ms = [idx]" "de idx buf = e" by (auto simp del: upt_rec_numeral)
  then have "idx \<in> set ?ms" by (simp del: upt_rec_numeral)
  then have "idx < 21" by (simp del: upt_rec_numeral)
  moreover have "scan_entries [0..<21] buf ino (False, 0, None) =
      Inr (\<exists>e'\<in>set (slots buf). in_use e' \<and> ename e' = dot, length (filter proper (slots buf)), Some idx)"
    using scan_entries_spec [OF assms(1), of "[0..<21]" ino False 0 None] idx(1) filter_index(3) [where P = proper and buf = buf]
    by (simp add: slots_def lessThan_atLeast0 del: upt_rec_numeral)
  ultimately show ?thesis using idx(2) by (auto simp: nth_slots)
qed

lemma scan_none:
  assumes "sector_ok buf" "filter (target ino) (slots buf) = []"
  shows "\<exists>f c. scan_entries [0..<21] buf ino (False, 0, None) = Inr (f, c, None)"
  using scan_entries_spec [OF assms(1), of "[0..<21]" ino False 0 None] filter_index(1) [where P = "target ino" and buf = buf] assms(2)
  by (simp add: lessThan_atLeast0 del: upt_rec_numeral)

lemma delete_skip:
  assumes "\<forall>j\<in>set ks. ab ! j \<noteq> 0 \<longrightarrow> unat (ab ! j) \<le> 163839 \<and> sector_ok (sects s (unat (ab ! j))) \<and>
    filter (target ino) (slots (sects s (unat (ab ! j)))) = []"
  shows "delete_blocks (ks @ ks') ab 21 a ino s = delete_blocks ks' ab 21 a ino s"
  using assms
proof (induction ks)
  case (Cons k ks)
  show ?case
  proof (cases "ab ! k = 0")
    case False
    then obtain f c where "scan_entries [0..<21] (sects s (unat (ab ! k))) ino (False, 0, None) = Inr (f, c, None)"
      using scan_none [of "sects s (unat (ab ! k))" ino] Cons.prems by auto
    then show ?thesis using Cons False dread_one [of "ab ! k" s] by simp
  qed (use Cons in simp)
qed simp

lemma length_dir_ab: "dir_ok i s \<Longrightarrow> length (dir_ab i s) = 140"
  by (simp add: dir_ok_def dir_ab_def length_words_of full_def)

text \<open>If the directory has one target, in block \<open>k\<close>, the deletion comes down to that block.\<close>

lemma delete_reaches:
  assumes "dir_ok (core s a) s" "ab = dir_ab (core s a) s" "filter (target ino) (entries (core s a) s) = [e]"
    "k < 140" "ab ! k = b" "b \<noteq> 0" "e \<in> set (slots (sects s (unat b)))"
  shows "\<exists>idx<21. slots (sects s (unat b)) ! idx = e \<and> filter (target ino) (slots (sects s (unat b))) = [e] \<and>
    delete_dir_entry a ino s = bindE (delete_found k ab a (sects s (unat b))
      (\<exists>e'\<in>set (slots (sects s (unat b))). in_use e' \<and> ename e' = dot, length (filter proper (slots (sects s (unat b)))), idx) s)
      (\<lambda>t. Inr (True, t))"
proof -
  have ok: "\<And>c. c \<in> set ab \<Longrightarrow> c \<noteq> 0 \<Longrightarrow> unat c \<le> 163839 \<and> sector_ok (sects s (unat c))" "dir_entry_size (sb s) = 24"
    using assms(1,2) by (auto simp: dir_ok_def)
  have la: "length ab = 140" using length_dir_ab [OF assms(1)] assms(2) by simp
  have sp: "ab = take k ab @ b # drop (Suc k) ab" using id_take_nth_drop [of k ab] assms(4,5) la by simp
  have tg: "filter (target ino) (filter in_use xs) = filter (target ino) xs" for xs
    unfolding filter_filter by (rule filter_cong) (auto simp: target_def proper_def)
  have "filter (target ino) (dir_slots ab s) = [e]" using assms(2,3) by (simp only: entries_def tg)
  then have fl: "filter (target ino) (dir_slots (take k ab) s) @ filter (target ino) (slots (sects s (unat b))) @
      filter (target ino) (dir_slots (drop (Suc k) ab) s) = [e]"
    using assms(6) arg_cong [OF sp, of "\<lambda>l. filter (target ino) (dir_slots l s)"] by simp
  have "target ino e" using arg_cong [OF assms(3), of set] by auto
  then have "filter (target ino) (slots (sects s (unat b))) \<noteq> []" using assms(7) by (auto simp: filter_empty_conv)
  then have parts: "filter (target ino) (dir_slots (take k ab) s) = []" "filter (target ino) (slots (sects s (unat b))) = [e]"
    using fl by (auto simp: append_eq_Cons_conv)
  have "filter (target ino) (slots (sects s (unat (ab ! j)))) = []" if "j < k" "ab ! j \<noteq> 0" for j
  proof -
    have "ab ! j \<in> set (take k ab)" using that(1) assms(4) la by (auto simp: in_set_conv_nth)
    then show ?thesis using parts(1) that(2) by (fastforce simp: dir_slots_def filter_empty_conv)
  qed
  then have "\<forall>j\<in>set [0..<k]. ab ! j \<noteq> 0 \<longrightarrow> unat (ab ! j) \<le> 163839 \<and> sector_ok (sects s (unat (ab ! j))) \<and>
      filter (target ino) (slots (sects s (unat (ab ! j)))) = []"
    using ok(1) assms(4) la by auto
  then have skip: "delete_blocks ([0..<k] @ k # [Suc k..<140]) ab 21 a ino s = delete_blocks (k # [Suc k..<140]) ab 21 a ino s"
    by (rule delete_skip)
  have upt: "[0..<140] = [0..<k] @ k # [Suc k..<140]"
    using assms(4) upt_add_eq_append [of 0 k "140 - k"] by (simp add: upt_conv_Cons)
  have "b \<in> set ab" using assms(4,5) la by auto
  then have bo: "unat b \<le> 163839" "sector_ok (sects s (unat b))" using ok(1) assms(6) by simp_all
  have "delete_dir_entry a ino s = delete_blocks [0..<140] ab 21 a ino s"
    using dir_blocks_eq [OF assms(1)] ok(2) assms(2)
    by (simp add: delete_dir_entry_def entries_per_sec_def Let_def del: upt_rec_numeral delete_blocks.simps)
  then have st: "delete_dir_entry a ino s = delete_blocks (k # [Suc k..<140]) ab 21 a ino s" unfolding upt skip .
  obtain idx where idx: "idx < 21" "slots (sects s (unat b)) ! idx = e" "scan_entries [0..<21] (sects s (unat b)) ino (False, 0, None) =
      Inr (\<exists>e'\<in>set (slots (sects s (unat b))). in_use e' \<and> ename e' = dot, length (filter proper (slots (sects s (unat b)))), Some idx)"
    using scan_found [OF bo(2) parts(2)] by blast
  show ?thesis
    using st idx dread_one [OF bo(1)] assms(5,6) parts(2) by (auto simp del: upt_rec_numeral)
qed

text \<open>The slots before and after those of one direct block.\<close>

lemma dir_slots_change:
  assumes "small_dir i s" "k < 12" "i_sectors i ! k = b" "b \<noteq> 0" "i_sectors i' = i_sectors i"
    "\<And>c. dir_block s c \<Longrightarrow> c \<noteq> b \<Longrightarrow> sects t (unat c) = sects s (unat c)"
  shows "\<exists>x z. dir_slots (dir_ab i s) s = x @ slots (sects s (unat b)) @ z \<and>
    dir_slots (dir_ab i' t) t = x @ slots (sects t (unat b)) @ z"
proof -
  have i: "length (i_sectors i) = 13" "i_sectors i ! 12 = 0" "distinct (filter (\<lambda>b. b \<noteq> 0) (take 12 (i_sectors i)))"
      "\<And>c. c \<in> set (take 12 (i_sectors i)) \<Longrightarrow> c \<noteq> 0 \<Longrightarrow> dir_block s c"
    using assms(1) by (auto simp: small_dir_def)
  obtain pre post where sp: "take 12 (i_sectors i) = pre @ b # post"
    using split_at_block [OF i(1) assms(2)] assms(3) by blast
  have keep: "sects t (unat c) = sects s (unat c)" if "c \<in> set pre \<union> set post" "c \<noteq> 0" for c
  proof (rule assms(6))
    show "dir_block s c" using i(4) that unfolding sp by auto
    show "c \<noteq> b" using i(3) that assms(4) unfolding sp by auto
  qed
  have "dir_ab i s = pre @ b # post @ replicate 128 0" "dir_ab i' t = pre @ b # post @ replicate 128 0"
    using i(2) assms(5) by (simp_all add: dir_ab_def sp)
  then show ?thesis
    using assms(4) dir_slots_other [of pre t s] dir_slots_other [of post t s] keep
    by (intro exI [of _ "dir_slots pre s"] exI [of _ "dir_slots post s"]) simp
qed

text \<open>The inode of the directory is written back with its new size.\<close>

lemma finish_delete:
  assumes "layout u" "length (i_sectors (core u a)) = 13" "24 \<le> unat (i_size (core u a))" "dir_entry_size (sb u) = 24"
  shows "\<exists>t. assertE (i_size (core u a) \<ge> 24) (let s = set_core a (\<lambda>i. i\<lparr>i_size := i_size i - 24\<rparr>) u in inode_sync (core s a) s) = Inr t \<and>
    layout t \<and> core t = (core u)(a := (core u a)\<lparr>i_size := i_size (core u a) - 24\<rparr>) \<and> sb t = sb u \<and> allocated t = allocated u \<and>
    (\<forall>m. unat (inode_table_lba (sb u)) + 608 \<le> m \<longrightarrow> sects t m = sects u m)"
proof -
  define v where "v = set_core a (\<lambda>i. i\<lparr>i_size := i_size i - 24\<rparr>) u"
  have cv: "core v a = (core u a)\<lparr>i_size := i_size (core u a) - 24\<rparr>" by (simp add: v_def)
  have lv1: "layout v" using assms(1) by (simp add: v_def)
  then have lv: "layout v" "table_ok v" by (simp_all add: layout_def)
  obtain t where t: "inode_sync (core v a) v = Inr t" "table_ok t" "t = v\<lparr>sects := sects t\<rparr>" "outside_table v t"
    using sync_slot [OF lv(2), of "core v a"] assms(2) cv by auto
  have f: "sb t = sb u" "block_bitmap t = block_bitmap u" "core t = core v" "part_start t = part_start u" "part_cnt t = part_cnt u"
    by (subst t(3), simp add: v_def set_core_def)+
  have "layout t" using lv(1) t(2) f by (simp add: layout_def v_def set_core_def)
  moreover have "allocated t = allocated u" using f by (simp add: allocated_def fun_eq_iff)
  moreover have "\<forall>m. unat (inode_table_lba (sb u)) + 608 \<le> m \<longrightarrow> sects t m = sects u m"
    using t(4) by (simp add: outside_table_def v_def)
  moreover have "core t = (core u)(a := (core u a)\<lparr>i_size := i_size (core u a) - 24\<rparr>)" using f(3) by (simp add: v_def)
  moreover have "i_size (core u a) \<ge> 24" using assms(3) by (simp add: word_le_nat_alt)
  ultimately show ?thesis using t(1) f(1) by (auto simp: Let_def v_def)
qed

lemma delete_found_clear:
  assumes "1 \<le> cnt" "\<not> (cnt = 1 \<and> \<not> first)" "dir_entry_size (sb s) = 24" "length buf = 512" "idx < 21" "unat b \<le> 163839"
    "ab ! k = b" "u = s\<lparr>sects := (sects s)(unat b := splice (24 * idx) no_entry buf)\<rparr>"
  shows "delete_found k ab a buf (first, cnt, idx) s =
    assertE (i_size (core u a) \<ge> 24) (let s = set_core a (\<lambda>i. i\<lparr>i_size := i_size i - 24\<rparr>) u in inode_sync (core s a) s)"
proof -
  have fit: "24 * idx + length no_entry \<le> length buf" using assms(4,5) by simp
  have "memset (drop (24 * idx) buf) 0 24 = Inr (no_entry @ drop (24 * idx + 24) buf)"
    using fit assms(4) by (simp add: memset_eq add.commute)
  moreover have "dwrite b (splice (24 * idx) no_entry buf) (Suc 0) s = Inr u"
    unfolding assms(8) by (rule dwrite_one [OF assms(6)]) (use fit assms(4) in simp)
  ultimately show ?thesis using assms(1-3,7,8) by (auto simp: delete_found_def splice_def Let_def)
qed

text \<open>The counting loop does not return: whatever it would return, its index would not be below 140.\<close>

lemma indirect_loop_returns: "indirect_loop ab i c = Some r \<Longrightarrow> \<not> i < 140"
  by (erule indirect_loop.raw_induct [rotated]) (auto split: if_splits)

lemma indirect_loop_diverges: "indirect_loop ab 12 c = None"
  using indirect_loop_returns [of ab 12 c] by (cases "indirect_loop ab 12 c") auto

lemma delete_found_release:
  assumes "ab ! k = b" "dir_entry_size (sb s) = 24" "bitmap_set (block_bitmap s) (unat (b - data_start_lba (sb s))) 0 = Inr bm"
    "bitmap_sync (b - data_start_lba (sb s)) BLOCK_BITMAP (s\<lparr>block_bitmap := bm\<rparr>) = Inr u"
    "dir_entry_size (sb u) = 24"
  shows "delete_found k ab a buf (False, 1, idx) s =
    (if k < 12 then assertE (i_size (core u a) \<ge> 24) (let s = set_core a (\<lambda>i. i\<lparr>i_size := i_size i - 24\<rparr>) u in inode_sync (core s a) s)
     else Inl Diverges)"
  using assms by (simp add: delete_found_def Let_def release_indirect_def indirect_loop_diverges)

definition well_named :: "inode \<Rightarrow> fsys \<Rightarrow> bool" where
  "well_named i s \<longleftrightarrow> (\<forall>b\<in>set (take 12 (i_sectors i)). b \<noteq> 0 \<longrightarrow> sector_ok (sects s (unat b)))"

lemma small_dir_ok: "small_dir i s \<Longrightarrow> well_named i s \<Longrightarrow> dir_ok i s"
proof -
  assume s: "small_dir i s" "well_named i s"
  then have l: "layout s" by (simp add: small_dir_def)
  have "unat b \<le> 163839 \<and> sector_ok (sects s (unat b))" if "b \<in> set (take 12 (i_sectors i))" "b \<noteq> 0" for b
    using that s dir_block_low(1) [OF l] by (auto simp: small_dir_def well_named_def)
  then show ?thesis using s(1) layout_full [OF l] by (auto simp: dir_ok_def small_dir_def dir_ab_def)
qed

lemma small_dir_size:
  assumes "small_dir i s"
  shows "unat (i_size i) = 24 * length (entries i s)"
proof -
  have i: "i_size i = of_nat (24 * length (entries i s))" "length (i_sectors i) = 13" "i_sectors i ! 12 = 0"
    using assms by (auto simp: small_dir_def)
  show ?thesis unfolding i(1) using entries_bound [OF i(2,3), of s] by (simp only: unat_of_nat) simp
qed

text \<open>C14: In a directory without an indirect table, deleting an entry from a block that holds another entry, or the entry \<^verbatim>\<open>.\<close>, removes exactly this entry: the
  directory's other entries, the other blocks and the well-formedness of the directory are kept.\<close>

theorem delete_dir_entry_removes:
  assumes "small_dir (core s a) s" "well_named (core s a) s" "filter (target ino) (entries (core s a) s) = [e]"
    "k < 12" "i_sectors (core s a) ! k = b" "b \<noteq> 0" "e \<in> set (slots (sects s (unat b)))"
    "\<exists>e'\<in>set (slots (sects s (unat b))). in_use e' \<and> ename e' = dot \<or> proper e' \<and> e' \<noteq> e"
  shows "\<exists>t. delete_dir_entry a ino s = Inr (True, t) \<and> mset (entries (core s a) s) = add_mset e (mset (entries (core t a) t)) \<and>
    small_dir (core t a) t \<and> i_sectors (core t a) = i_sectors (core s a) \<and> others_kept [b] s t"
proof -
  let ?i = "core s a" and ?buf = "sects s (unat b)"
  have i: "layout s" "length (i_sectors ?i) = 13" "dir_entry_size (sb s) = 24" "i_sectors ?i ! 12 = 0"
      "i_size ?i = of_nat (24 * length (entries ?i s))" "\<And>c. c \<in> set (take 12 (i_sectors ?i)) \<Longrightarrow> c \<noteq> 0 \<Longrightarrow> dir_block s c"
    using assms(1) by (auto simp: small_dir_def)
  have abk: "dir_ab ?i s ! k = b" using assms(4,5) i(2) by (simp add: dir_ab_def nth_append)
  obtain idx where idx: "idx < 21" "slots ?buf ! idx = e" "filter (target ino) (slots ?buf) = [e]"
      "delete_dir_entry a ino s = bindE (delete_found k (dir_ab (core s a) s) a ?buf
        (\<exists>e'\<in>set (slots ?buf). in_use e' \<and> ename e' = dot, length (filter proper (slots ?buf)), idx) s) (\<lambda>t. Inr (True, t))"
    using delete_reaches [OF small_dir_ok [OF assms(1,2)] refl assms(3) _ abk assms(6,7)] assms(4) by auto
  have te: "target ino e" using arg_cong [OF assms(3), of set] by auto
  have ine: "in_use e" "proper e" using te by (simp_all add: target_def proper_def)
  have cnt: "1 \<le> length (filter proper (slots ?buf))" using ine(2) assms(7) by (cases "filter proper (slots ?buf)") (auto simp: filter_empty_conv)
  have keepb: "\<not> (length (filter proper (slots ?buf)) = 1 \<and> \<not> (\<exists>e'\<in>set (slots ?buf). in_use e' \<and> ename e' = dot))"
  proof (intro notI, elim conjE)
    assume one: "length (filter proper (slots ?buf)) = 1" and "\<not> (\<exists>e'\<in>set (slots ?buf). in_use e' \<and> ename e' = dot)"
    then obtain e' where "e' \<in> set (filter proper (slots ?buf))" "e' \<noteq> e" using assms(8) by auto
    moreover have "e \<in> set (filter proper (slots ?buf))" using ine(2) assms(7) by simp
    moreover obtain y where "filter proper (slots ?buf) = [y]" using one by (auto simp: length_Suc_conv)
    ultimately show False by simp
  qed
  have "b \<in> set (take 12 (i_sectors ?i))" using assms(4,5) i(2) by (auto simp: in_set_conv_nth intro!: exI [of _ k])
  then have db: "dir_block s b" using i(6) assms(6) by blast
  have low: "unat b \<le> 163839" by (rule dir_block_low(1) [OF i(1) db])
  have lb: "length ?buf = 512" using layout_full [OF i(1)] by (simp add: full_def)
  have fit: "24 * idx + length no_entry \<le> length ?buf" using idx(1) lb by simp
  let ?new = "splice (24 * idx) no_entry ?buf"
  have ln: "length ?new = 512" using fit lb by simp
  define u where "u = s\<lparr>sects := (sects s)(unat b := ?new)\<rparr>"
  have lu: "layout u" unfolding u_def by (rule layout_sects [OF i(1) ln])
  have sz: "24 \<le> unat (i_size (core u a))"
    using small_dir_size [OF assms(1)] assms(3) by (cases "entries ?i s") (auto simp: u_def)
  obtain t where t: "assertE (i_size (core u a) \<ge> 24) (let s = set_core a (\<lambda>i. i\<lparr>i_size := i_size i - 24\<rparr>) u in inode_sync (core s a) s) = Inr t"
      "layout t" "core t = (core u)(a := (core u a)\<lparr>i_size := i_size (core u a) - 24\<rparr>)" "sb t = sb u" "allocated t = allocated u"
      "\<And>m. unat (inode_table_lba (sb u)) + 608 \<le> m \<Longrightarrow> sects t m = sects u m"
    using finish_delete [OF lu, of a] i(2,3) sz by (auto simp: u_def)
  have del: "delete_dir_entry a ino s = Inr (True, t)"
    unfolding idx(4) delete_found_clear [OF cnt keepb i(3) lb idx(1) low abk u_def] t(1) by simp
  have ct: "core t a = ?i\<lparr>i_size := i_size ?i - 24\<rparr>" using t(3) by (simp add: u_def)
  have high: "unat (inode_table_lba (sb u)) + 608 \<le> unat c" if "dir_block s c" for c
    using dir_block_low(2) [OF i(1) that] by (simp add: u_def)
  have same: "sects t (unat c) = sects s (unat c)" if "dir_block s c" "c \<noteq> b" for c
    using t(6) [OF high [OF that(1)]] that(2) by (auto simp: u_def word_unat_eq_iff)
  have here: "slots (sects t (unat b)) = (slots ?buf)[idx := no_entry]"
    using t(6) [OF high [OF db]] slots_splice [OF lb _ idx(1), of no_entry] by (simp add: u_def)
  obtain x z where xz: "dir_slots (dir_ab ?i s) s = x @ slots ?buf @ z"
      "dir_slots (dir_ab (core t a) t) t = x @ slots (sects t (unat b)) @ z"
    using dir_slots_change [OF assms(1,4,5,6) _ same, of "core t a"] ct by auto
  have "(slots ?buf)[idx := no_entry, idx := e] = slots ?buf" using idx(2) by (metis list_update_id list_update_overwrite)
  then have "gains e ((slots ?buf)[idx := no_entry]) (slots ?buf)"
    using gains_update [of idx "(slots ?buf)[idx := no_entry]" e] idx(1) ine(1) by simp
  then have "gains e (dir_slots (dir_ab (core t a) t) t) (dir_slots (dir_ab ?i s) s)"
    unfolding xz here by (rule gains_mid)
  then have ms: "mset (entries ?i s) = add_mset e (mset (entries (core t a) t))" by (simp add: gains_def entries_def)
  have "length (entries ?i s) = Suc (length (entries (core t a) t))" using arg_cong [OF ms, of size] by simp
  then have "i_size ?i - 24 = of_nat (24 * length (entries (core t a) t))" using i(5) by simp
  moreover have "\<And>c. dir_block s c \<Longrightarrow> dir_block t c" using t(4,5) by (simp add: dir_block_def u_def)
  ultimately have "small_dir (core t a) t" using assms(1) t(2,4) ct by (simp add: small_dir_def u_def)
  moreover have "others_kept [b] s t" using same t(5) by (auto simp: others_kept_def dir_block_def u_def)
  ultimately show ?thesis using del ms ct by auto
qed

text \<open>Giving up a block.\<close>

lemma release_block:
  assumes "layout s" "allocated s b"
  shows "\<exists>bm u. bitmap_set (block_bitmap s) (unat (b - data_start_lba (sb s))) 0 = Inr bm \<and>
    bitmap_sync (b - data_start_lba (sb s)) BLOCK_BITMAP (s\<lparr>block_bitmap := bm\<rparr>) = Inr u \<and>
    layout u \<and> meta u = meta s \<and> core u = core s \<and> \<not> allocated u b \<and> (\<forall>c. c \<noteq> b \<longrightarrow> allocated u c = allocated s c) \<and>
    (\<forall>m\<ge>unat (inode_table_lba (sb s)). sects u m = sects s m)"
proof -
  let ?j = "unat b - data_start s"
  have j: "data_start s < unat b" "?j < bm_cap (block_bitmap s)" using assms(2) by (simp_all add: allocated_def)
  have uj: "unat (b - data_start_lba (sb s)) = ?j" by (rule unat_sub) (use j(1) in \<open>simp add: word_le_nat_alt\<close>)
  have wf: "bm_wf (block_bitmap s)" using assms(1) by (simp add: layout_def)
  obtain bm where bm: "bitmap_set (block_bitmap s) ?j 0 = Inr bm" "bm_wf bm" "bm_cap bm = bm_cap (block_bitmap s)"
      "bm_used bm = (bm_used (block_bitmap s))(?j := False)"
    using bm.put_bit [OF wf j(2), of 0] by auto
  let ?t = "s\<lparr>block_bitmap := bm\<rparr>"
  have "unat (btmp_bytes_len bm) = unat (btmp_bytes_len (block_bitmap s))" using bm(3) by (simp add: bm_cap_def)
  then have lt: "layout ?t" using assms(1) bm(2-4) j(1) by (simp add: layout_def table_ok_def)
  obtain u where u: "bitmap_sync (b - data_start_lba (sb s)) BLOCK_BITMAP ?t = Inr u" "takes [] ?t u" "core u = core s"
    using sync_range [OF lt, of b] j bm(3) by auto
  have al: "allocated u c = allocated ?t c" for c using u(2) by (simp add: takes_def)
  have "\<not> allocated ?t b" using bm(4) by (simp add: allocated_def)
  moreover have "allocated ?t c = allocated s c" if "c \<noteq> b" for c
    using that bm(3,4) j(1) by (auto simp: allocated_def word_unat_eq_iff)
  ultimately show ?thesis using bm(1) u al uj by (simp add: takes_def meta_def)
qed

lemma alone_counts:
  assumes "filter (target ino) xs = [e]" "\<forall>e'\<in>set xs. in_use e' \<longrightarrow> target ino e' \<or> ename e' = dotdot"
  shows "length (filter proper xs) = 1" "\<not> (\<exists>e'\<in>set xs. in_use e' \<and> ename e' = dot)"
proof -
  have "filter proper xs = filter (target ino) xs"
    by (rule filter_cong) (use assms(2) in \<open>auto simp: target_def proper_def\<close>)
  then show "length (filter proper xs) = 1" using assms(1) by simp
  show "\<not> (\<exists>e'\<in>set xs. in_use e' \<and> ename e' = dot)" using assms(2) by (auto simp: target_def proper_def)
qed

text \<open>Deleting the only entry of a direct block gives the block back to the bitmap but neither clears the
  entry nor takes the block from the inode: the call reports success, the directory still lists the block, which
  is now free for other use, and it still shows the entry.\<close>

theorem delete_last_entry_dangles:
  assumes "small_dir (core s a) s" "well_named (core s a) s" "filter (target ino) (entries (core s a) s) = [e]"
    "k < 12" "i_sectors (core s a) ! k = b" "allocated s b" "e \<in> set (slots (sects s (unat b)))"
    "\<forall>e'\<in>set (slots (sects s (unat b))). in_use e' \<longrightarrow> target ino e' \<or> ename e' = dotdot"
  shows "\<exists>t. delete_dir_entry a ino s = Inr (True, t) \<and> \<not> allocated t b \<and> i_sectors (core t a) ! k = b \<and>
    entries (core t a) t = entries (core s a) s \<and> i_size (core t a) = i_size (core s a) - 24"
proof -
  let ?i = "core s a" and ?buf = "sects s (unat b)"
  have i: "layout s" "length (i_sectors ?i) = 13" "dir_entry_size (sb s) = 24" using assms(1) by (simp_all add: small_dir_def)
  have bnz: "b \<noteq> 0" using allocated_nz [OF assms(6)] .
  have abk: "dir_ab ?i s ! k = b" using assms(4,5) i(2) by (simp add: dir_ab_def nth_append)
  obtain idx where idx: "filter (target ino) (slots ?buf) = [e]"
      "delete_dir_entry a ino s = bindE (delete_found k (dir_ab (core s a) s) a ?buf
        (\<exists>e'\<in>set (slots ?buf). in_use e' \<and> ename e' = dot, length (filter proper (slots ?buf)), idx) s) (\<lambda>t. Inr (True, t))"
    using delete_reaches [OF small_dir_ok [OF assms(1,2)] refl assms(3) _ abk bnz assms(7)] assms(4) by auto
  have one: "length (filter proper (slots ?buf)) = 1" "(\<exists>e'\<in>set (slots ?buf). in_use e' \<and> ename e' = dot) = False"
    using alone_counts [OF idx(1) assms(8)] by simp_all
  obtain bm u where u: "bitmap_set (block_bitmap s) (unat (b - data_start_lba (sb s))) 0 = Inr bm"
      "bitmap_sync (b - data_start_lba (sb s)) BLOCK_BITMAP (s\<lparr>block_bitmap := bm\<rparr>) = Inr u" "layout u" "meta u = meta s"
      "core u = core s" "\<not> allocated u b" "\<And>m. unat (inode_table_lba (sb s)) \<le> m \<Longrightarrow> sects u m = sects s m"
    using release_block [OF i(1) assms(6)] by blast
  have su: "dir_entry_size (sb u) = 24" "sb u = sb s" using u(4) i(3) by (simp_all add: meta_def)
  have sz: "24 \<le> unat (i_size (core u a))"
    using small_dir_size [OF assms(1)] assms(3) u(5) by (cases "entries ?i s") auto
  obtain t where t: "assertE (i_size (core u a) \<ge> 24) (let s = set_core a (\<lambda>i. i\<lparr>i_size := i_size i - 24\<rparr>) u in inode_sync (core s a) s) = Inr t"
      "core t = (core u)(a := (core u a)\<lparr>i_size := i_size (core u a) - 24\<rparr>)" "allocated t = allocated u"
      "\<And>m. unat (inode_table_lba (sb u)) + 608 \<le> m \<Longrightarrow> sects t m = sects u m"
    using finish_delete [OF u(3), of a] i(2) su(1) sz u(5) by auto
  have "delete_dir_entry a ino s = Inr (True, t)"
    unfolding idx(2) one delete_found_release [OF abk i(3) u(1,2) su(1)] using assms(4) t(1) by simp
  moreover have ct: "core t a = ?i\<lparr>i_size := i_size ?i - 24\<rparr>" using t(2) u(5) by simp
  moreover have same: "sects t (unat c) = sects s (unat c)" if "dir_block s c" for c
    using t(4) u(7) su(2) dir_block_low(2) [OF i(1) that] by simp
  have "sects t (unat b) = sects s (unat b)" by (rule same) (use assms(6) in \<open>simp add: dir_block_def\<close>)
  then have "entries (core t a) t = entries ?i s"
    using dir_slots_change [OF assms(1,4,5) bnz _ same, of "core t a"] ct by (auto simp: entries_def)
  ultimately show ?thesis using t(3) u(6) assms(5) by simp
qed

text \<open>C34: Deleting the only entry of an indirect block never returns: the loop that counts the indirect blocks does
  not advance its index, so that it has no result, whatever the table holds.\<close>

theorem delete_indirect_entry_diverges:
  assumes "layout s" "dir_ok (core s a) s" "filter (target ino) (entries (core s a) s) = [e]"
    "12 \<le> k" "k < 140" "dir_ab (core s a) s ! k = b" "allocated s b" "e \<in> set (slots (sects s (unat b)))"
    "\<forall>e'\<in>set (slots (sects s (unat b))). in_use e' \<longrightarrow> target ino e' \<or> ename e' = dotdot"
  shows "delete_dir_entry a ino s = Inl Diverges"
proof -
  let ?buf = "sects s (unat b)"
  obtain idx where idx: "filter (target ino) (slots ?buf) = [e]"
      "delete_dir_entry a ino s = bindE (delete_found k (dir_ab (core s a) s) a ?buf
        (\<exists>e'\<in>set (slots ?buf). in_use e' \<and> ename e' = dot, length (filter proper (slots ?buf)), idx) s) (\<lambda>t. Inr (True, t))"
    using delete_reaches [OF assms(2) refl assms(3,5,6) allocated_nz [OF assms(7)] assms(8)] by auto
  have one: "length (filter proper (slots ?buf)) = 1" "(\<exists>e'\<in>set (slots ?buf). in_use e' \<and> ename e' = dot) = False"
    using alone_counts [OF idx(1) assms(9)] by simp_all
  have sz: "dir_entry_size (sb s) = 24" using assms(2) by (simp add: dir_ok_def)
  obtain bm u where u: "bitmap_set (block_bitmap s) (unat (b - data_start_lba (sb s))) 0 = Inr bm"
      "bitmap_sync (b - data_start_lba (sb s)) BLOCK_BITMAP (s\<lparr>block_bitmap := bm\<rparr>) = Inr u" "meta u = meta s"
    using release_block [OF assms(1,7)] by blast
  have su: "dir_entry_size (sb u) = 24" using u(3) sz by (simp add: meta_def)
  show ?thesis unfolding idx(2) one delete_found_release [OF assms(6) sz u(1,2) su] using assms(4) by simp
qed

section \<open>Examples\<close>

text \<open>A directory whose first block holds \<^verbatim>\<open>.\<close>, \<^verbatim>\<open>..\<close> and \<^verbatim>\<open>a\<close>, and another block, direct or indirect, \<^verbatim>\<open>b\<close>.\<close>

definition mk_de :: "char list \<Rightarrow> u32 \<Rightarrow> u32 \<Rightarrow> u8 list" where
  "mk_de nm ino ft = take 16 (bytes nm @ replicate 16 0) @ le32 ino @ le32 ft"

definition sector :: "u8 list list \<Rightarrow> u8 list" where
  "sector es = concat es @ replicate (512 - 24 * length es) 0"

abbreviation demo_first :: "u8 list list" where
  "demo_first \<equiv> [mk_de ''.'' 0 2, mk_de ''..'' 0 2, mk_de ''a'' 5 1]"

abbreviation demo_b :: "u8 list" where
  "demo_b \<equiv> mk_de ''b'' 6 1"

definition dir_demo :: "u32 list \<Rightarrow> fsys" where
  "dir_demo bs = demo_fs\<lparr>
     sects := (\<lambda>n. if n = 712 then sector demo_first else if n = 713 then sector [demo_b]
       else if n = 714 then bytes_of (713 # replicate 127 0) else replicate 512 0),
     block_bitmap := \<lparr>btmp_bytes_len = 512, bits = 15 # replicate 511 0\<rparr>,
     core := (\<lambda>_. \<lparr>i_no = 7, i_size = 96, i_open_cnts = 1, write_deny = False, i_sectors = bs\<rparr>)\<rparr>"

abbreviation direct_demo :: fsys where "direct_demo \<equiv> dir_demo ([712, 713] @ replicate 11 0)"
abbreviation indirect_demo :: fsys where "indirect_demo \<equiv> dir_demo ([712] @ replicate 11 0 @ [714])"

lemma char_byte: "char_of (unat (of_char c :: u8)) = c" "char_of (0 :: nat) = NUL"
proof -
  have "of_char c = (of_nat (of_char c) :: u8)" by (simp only: of_nat_of_char)
  moreover have "of_char c < (256 :: nat)" by simp
  ultimately have "unat (of_char c :: u8) = of_char c" by (simp only: unat_of_nat) simp
  then show "char_of (unat (of_char c :: u8)) = c" by simp
qed (simp add: char_of_def)

lemma mk_de_facts:
  assumes "length nm < 16" "NUL \<notin> set nm"
  shows "length (mk_de nm ino ft) = 24" "de_f_type (mk_de nm ino ft) = ft" "de_i_no (mk_de nm ino ft) = ino"
    "ename (mk_de nm ino ft) = nm" "NUL \<in> set (chars (take 16 (mk_de nm ino ft)))"
proof -
  obtain m where m: "16 - length nm = Suc m" using assms(1) by (cases "16 - length nm") auto
  have b: "length (take 16 (bytes nm @ replicate 16 (0::u8))) = 16" by (simp add: bytes_def)
  show "length (mk_de nm ino ft) = 24" unfolding mk_de_def using b by (simp add: le32_def)
  show "de_f_type (mk_de nm ino ft) = ft" "de_i_no (mk_de nm ino ft) = ino"
    unfolding mk_de_def de_f_type_def de_i_no_def nth_append b by (simp_all add: le32_def le32_rd32)
  have c: "chars (take 16 (mk_de nm ino ft)) = nm @ replicate (Suc m) NUL"
    using assms(1) m by (auto simp: mk_de_def chars_def bytes_def o_def min_def char_byte)
  show "NUL \<in> set (chars (take 16 (mk_de nm ino ft)))" unfolding c by simp
  have "takeWhile (\<lambda>c. c \<noteq> NUL) (nm @ replicate (Suc m) NUL) = nm" using assms(2) by (induction nm) auto
  then show "ename (mk_de nm ino ft) = nm" unfolding ename_def c .
qed

lemma slots_sector:
  assumes "length es \<le> 21" "\<forall>e\<in>set es. length e = 24"
  shows "length (sector es) = 512" "slots (sector es) = es @ replicate (21 - length es) no_entry"
proof -
  have len: "length (concat es) = 24 * length es" using assms(2) by (induction es) auto
  then show "length (sector es) = 512" using assms(1) by (simp add: sector_def)
  show "slots (sector es) = es @ replicate (21 - length es) no_entry"
  proof (rule nth_equalityI)
    fix i assume "i < length (slots (sector es))"
    then have i: "i < 21" by simp
    have "take 24 (drop (24 * i) (concat es)) = es ! i" if "i < length es" using that assms(2)
    proof (induction es arbitrary: i)
      case (Cons e es)
      then show ?case by (cases i) simp_all
    qed simp
    moreover have "take (24 - (24 * length es - 24 * i)) (replicate (512 - 24 * length es) 0) = ([] :: u8 list)" if "i < length es" using that by simp
    ultimately show "slots (sector es) ! i = (es @ replicate (21 - length es) no_entry) ! i"
      using i len by (cases "i < length es") (simp_all add: nth_slots de_def sector_def nth_append)
  qed (use assms in simp)
qed

lemmas demo_sector = slots_sector [where es = demo_first] slots_sector [where es = "[demo_b]"]

lemma demo_sectors:
  "length (sector demo_first) = 512" "slots (sector demo_first) = demo_first @ replicate 18 no_entry"
  "length (sector [demo_b]) = 512" "slots (sector [demo_b]) = demo_b # replicate 20 no_entry"
  using demo_sector by (simp_all add: mk_de_facts)

lemma demo_dir_used: "j < 4096 \<Longrightarrow> bm_used (block_bitmap (dir_demo bs)) j \<longleftrightarrow> j < 4"
proof -
  assume "j < 4096"
  then have "j div 8 - 1 < 511" by simp
  then have byte: "bits (block_bitmap (dir_demo bs)) ! (j div 8) = (if j div 8 = 0 then 15 else 0)"
    by (simp add: dir_demo_def nth_Cons')
  have "(15 :: u8) = mask 4" by (simp add: mask_eq_exp_minus_1)
  then have "bm_used (block_bitmap (dir_demo bs)) j \<longleftrightarrow> j div 8 = 0 \<and> j mod 8 < 4"
    unfolding bm_used_def byte \<open>15 = mask 4\<close> by (auto simp: bit_mask_iff simp del: mask_numeral)
  also have "\<dots> \<longleftrightarrow> j < 4" using mult_div_mod_eq [of 8 j] by auto
  finally show ?thesis .
qed

lemma demo_dir_layout: "layout (dir_demo bs)" "free_blocks (dir_demo bs) > 0"
proof -
  have cap: "bm_cap (block_bitmap (dir_demo bs)) = 4096" by (simp add: dir_demo_def bm_cap_def)
  show "layout (dir_demo bs)"
    using demo_dir_used [of 0] demo_sectors(1,3)
    by (simp add: layout_def bm_wf_def cap) (simp add: dir_demo_def demo_fs_def table_ok_def full_def length_bytes_of)
  have "{j. j < 4096 \<and> \<not> bm_used (block_bitmap (dir_demo bs)) j} = {4..<4096}"
    using demo_dir_used by auto
  then show "free_blocks (dir_demo bs) > 0" unfolding free_blocks_def cap by simp
qed

lemma demo_alloc: "allocated (dir_demo bs) 713"
  using demo_dir_used [of 1] by (simp add: allocated_def dir_demo_def demo_fs_def bm_cap_def)

lemma demo_ab: "dir_ab (core direct_demo a) direct_demo = [712, 713] @ replicate 138 0"
  "dir_ab (core indirect_demo a) indirect_demo = [712] @ replicate 11 0 @ [713] @ replicate 127 0"
  by (simp_all add: dir_ab_def dir_demo_def nth_append replicate_add [symmetric])

lemma demo_slots:
  "dir_slots (dir_ab (core direct_demo a) direct_demo) direct_demo = demo_first @ replicate 18 no_entry @ demo_b # replicate 20 no_entry"
  "dir_slots (dir_ab (core indirect_demo a) indirect_demo) indirect_demo = demo_first @ replicate 18 no_entry @ demo_b # replicate 20 no_entry"
  unfolding demo_ab dir_slots_append dir_slots_zeros by (simp_all add: dir_demo_def demo_sectors)

lemma demo_entries:
  "entries (core direct_demo a) direct_demo = demo_first @ [demo_b]"
  "entries (core indirect_demo a) indirect_demo = demo_first @ [demo_b]"
  unfolding entries_def demo_slots filter_append filter.simps by (simp_all add: filter_replicate) (simp_all add: in_use_def mk_de_facts)

lemma no_entry_name: "NUL \<in> set (chars (replicate 16 0))"
  by (simp add: chars_def char_byte)

lemma demo_small: "small_dir (core direct_demo a) direct_demo" "well_named (core direct_demo a) direct_demo"
proof -
  have "dir_block direct_demo 712" by (simp add: dir_block_def dir_demo_def demo_fs_def)
  then show "small_dir (core direct_demo a) direct_demo"
    unfolding small_dir_def demo_entries using demo_dir_layout(1) demo_alloc [of "[712, 713] @ replicate 11 0"]
    by (simp add: dir_block_def) (simp add: dir_demo_def demo_fs_def)
  show "well_named (core direct_demo a) direct_demo"
    by (simp add: well_named_def dir_demo_def sector_ok_def demo_sectors mk_de_facts no_entry_name)
qed

lemma demo_indirect_ok: "dir_ok (core indirect_demo a) indirect_demo"
  unfolding dir_ok_def demo_ab using layout_full [OF demo_dir_layout(1)]
  by (simp add: dir_demo_def nth_append) (simp add: demo_fs_def sector_ok_def demo_sectors mk_de_facts no_entry_name)

lemma demo_targets:
  "filter (target 5) (entries (core direct_demo a) direct_demo) = [mk_de ''a'' 5 1]"
  "filter (target 6) (entries (core direct_demo a) direct_demo) = [demo_b]"
  "filter (target 6) (entries (core indirect_demo a) indirect_demo) = [demo_b]"
  unfolding demo_entries by (simp_all add: target_def proper_def in_use_def mk_de_facts)

lemma demo_block_slots: "slots (sects (dir_demo bs) 712) = demo_first @ replicate 18 no_entry"
  "slots (sects (dir_demo bs) 713) = demo_b # replicate 20 no_entry"
  by (simp_all add: dir_demo_def demo_sectors)

theorem search_dir_entry_finds_witness:
  "\<exists>t u. search_dir_entry 1 (''b'' @ [NUL]) (replicate 24 0) indirect_demo = Inr (True, demo_b, t) \<and>
     search_dir_entry 1 (''c'' @ [NUL]) (replicate 24 0) indirect_demo = Inr (False, replicate 24 0, u)"
proof -
  have "heap indirect_demo n \<noteq> 0" if "n < 2" for n
    using that by (cases n) (simp_all add: dir_demo_def demo_fs_def)
  moreover have "heap_n indirect_demo = 0" by (simp add: dir_demo_def demo_fs_def)
  ultimately have h: "heap indirect_demo (heap_n indirect_demo) \<noteq> 0" "heap indirect_demo (heap_n indirect_demo + 1) \<noteq> 0"
    by simp_all
  have c: "c_str (''b'' @ [NUL]) ''b''" "c_str (''c'' @ [NUL]) ''c''" by (simp_all add: c_str_def)
  have "ename no_entry = []" by (simp add: ename_def chars_def char_byte)
  then show ?thesis
    using search_dir_entry_finds [OF demo_indirect_ok c(1) _ h, of no_entry] search_dir_entry_finds [OF demo_indirect_ok c(2) _ h, of no_entry]
    unfolding demo_slots by (simp add: mk_de_facts find_append find_None_iff [THEN iffD2])
qed

theorem sync_dir_entry_adds_witness:
  "\<exists>t. sync_dir_entry 1 (mk_de ''c'' 9 1) direct_demo = Inr (True, t) \<and>
     mset (entries (core t 1) t) = mset (demo_first @ [demo_b, mk_de ''c'' 9 1])"
proof -
  have "i_sectors (core direct_demo 1) ! 3 = 0" by (simp add: dir_demo_def)
  then have "\<exists>k<12. i_sectors (core direct_demo 1) ! k = 0 \<or>
      (\<exists>e\<in>set (slots (sects direct_demo (unat (i_sectors (core direct_demo 1) ! k)))). \<not> in_use e)"
    by (intro exI [of _ 3]) simp
  moreover have "length (mk_de ''c'' 9 1) = 24" "in_use (mk_de ''c'' 9 1)" by (simp_all add: mk_de_facts in_use_def)
  ultimately obtain t where "sync_dir_entry 1 (mk_de ''c'' 9 1) direct_demo = Inr (True, t)"
      "mset (entries (core t 1) t) = add_mset (mk_de ''c'' 9 1) (mset (demo_first @ [demo_b]))"
    using sync_dir_entry_adds [OF demo_small(1) [of 1], of "mk_de ''c'' 9 1", OF _ _ demo_dir_layout(2)] unfolding demo_entries by blast
  then show ?thesis by auto
qed

theorem delete_dir_entry_removes_witness:
  "\<exists>t. delete_dir_entry 1 5 direct_demo = Inr (True, t) \<and>
     add_mset (mk_de ''a'' 5 1) (mset (entries (core t 1) t)) = mset (demo_first @ [demo_b])"
proof -
  have "\<exists>e'\<in>set (slots (sects direct_demo 712)). in_use e' \<and> ename e' = dot \<or> proper e' \<and> e' \<noteq> mk_de ''a'' 5 1"
    by (simp add: demo_block_slots in_use_def mk_de_facts)
  moreover have "i_sectors (core direct_demo 1) ! 0 = 712" by (simp add: dir_demo_def)
  ultimately show ?thesis
    using delete_dir_entry_removes [OF demo_small [of 1] demo_targets(1), of 0 712] unfolding demo_entries
    by (auto simp: demo_block_slots)
qed

lemma alone: "\<forall>e'\<in>set (demo_b # replicate 20 no_entry). in_use e' \<longrightarrow> target 6 e' \<or> ename e' = dotdot"
proof -
  have "target 6 demo_b" by (simp add: target_def proper_def in_use_def mk_de_facts)
  then show ?thesis by simp
qed

theorem delete_last_entry_dangles_witness:
  "\<exists>t. delete_dir_entry 1 6 direct_demo = Inr (True, t) \<and> \<not> allocated t 713 \<and> demo_b \<in> set (entries (core t 1) t)"
proof -
  have b: "i_sectors (core direct_demo 1) ! 1 = 713" "unat (713 :: u32) = 713" by (simp_all add: dir_demo_def)
  obtain t where "delete_dir_entry 1 6 direct_demo = Inr (True, t)" "\<not> allocated t 713" "entries (core t 1) t = demo_first @ [demo_b]"
    using delete_last_entry_dangles [OF demo_small [of 1] demo_targets(2) _ b(1) demo_alloc] alone
    unfolding demo_entries b(2) demo_block_slots by fastforce
  then show ?thesis by auto
qed

theorem delete_indirect_entry_diverges_witness:
  "delete_dir_entry 1 6 indirect_demo = Inl Diverges"
proof -
  have "dir_ab (core indirect_demo 1) indirect_demo ! 12 = 713" unfolding demo_ab by (simp add: nth_append)
  then show ?thesis
    using delete_indirect_entry_diverges [OF demo_dir_layout(1) demo_indirect_ok [of 1] demo_targets(3), of 12 713] alone
    by (simp add: demo_alloc demo_block_slots)
qed

end
