(* ===== verification/DirRead.thy ===== *)
theory DirRead
  imports DirEntries
begin

text \<open>
  Reading a directory: successive calls of \<^verbatim>\<open>dir_read\<close> return its entries in order, and then nothing.
\<close>

text \<open>The position of entry \<open>n\<close>.\<close>

definition pos_of :: "nat \<Rightarrow> u32" where
  "pos_of n = of_nat (24 * n)"

lemma pos_of_less: "24 * p < 2 ^ 32 \<Longrightarrow> c \<le> p \<Longrightarrow> pos_of c < pos_of p \<longleftrightarrow> c < p"
  unfolding pos_of_def word_less_nat_alt unat_of_nat by simp

lemma pos_of_simps [simp]: "pos_of 0 = 0" "pos_of n + 24 = pos_of (Suc n)"
  by (simp_all add: pos_of_def)

lemma read_entries_spec:
  assumes "length buf = 512" "24 * p < 2 ^ 32"
  shows "filter in_use (map (\<lambda>i. de i buf) is) = es \<Longrightarrow> set is \<subseteq> {..<21} \<Longrightarrow> c \<le> p \<Longrightarrow>
    (if p - c < length es
     then \<exists>idx. read_entries is buf 24 (pos_of c) (pos_of p) = Inr (pos_of p, Some idx) \<and> de idx buf = es ! (p - c)
     else read_entries is buf 24 (pos_of c) (pos_of p) = Inr (pos_of (c + length es), None))"
proof (induction "is" arbitrary: c es)
  case (Cons i "is")
  have i: "\<not> length buf < 24 * i + 24" using Cons.prems assms(1) by auto
  show ?case
  proof (cases "in_use (de i buf)")
    case False
    then have "read_entries (i # is) buf 24 (pos_of c) (pos_of p) = read_entries is buf 24 (pos_of c) (pos_of p)"
      using i by (simp add: in_use_def)
    then show ?thesis using Cons.IH [of es c] Cons.prems False by simp
  next
    case True
    then obtain es' where es: "es = de i buf # es'" "filter in_use (map (\<lambda>i. de i buf) is) = es'" using Cons.prems(1) by auto
    show ?thesis
    proof (cases "c = p")
      case True
      then show ?thesis using i \<open>in_use (de i buf)\<close> es(1) by (simp add: in_use_def assertE_def)
    next
      case False
      then have c: "Suc c \<le> p" "p - c = Suc (p - Suc c)" using Cons.prems by auto
      have lt: "pos_of c < pos_of p" using pos_of_less [OF assms(2) Cons.prems(3)] c(1) by simp
      then have "read_entries (i # is) buf 24 (pos_of c) (pos_of p) = read_entries is buf 24 (pos_of (Suc c)) (pos_of p)"
        using i \<open>in_use (de i buf)\<close> by (simp add: in_use_def)
      then show ?thesis using Cons.IH [OF es(2) _ c(1)] Cons.prems(2) c(2) es(1) by simp
    qed
  qed
qed simp

lemma read_blocks_spec:
  assumes "24 * p < 2 ^ 32" "dir_entry_size (sb s) = 24"
  shows "\<forall>b\<in>set bs. b \<noteq> 0 \<longrightarrow> unat b \<le> 163839 \<and> length (sects s (unat b)) = 512 \<Longrightarrow> c \<le> p \<Longrightarrow>
    p - c < length (filter in_use (dir_slots bs s)) \<Longrightarrow>
    \<exists>buf idx. read_dir_blocks bs 21 (pos_of c) (pos_of p) s = Inr (buf, idx) \<and>
      de idx buf = filter in_use (dir_slots bs s) ! (p - c)"
proof (induction bs arbitrary: c)
  case (Cons b bs)
  show ?case
  proof (cases "b = 0")
    case True
    then show ?thesis using Cons by simp
  next
    case False
    let ?buf = "sects s (unat b)"
    define es where "es = filter in_use (slots ?buf)"
    have b: "unat b \<le> 163839" "length ?buf = 512" using Cons.prems(1) False by auto
    have rd: "dread b 1 s = Inr ?buf" using dread_one [OF b(1)] by simp
    have "set [0..<21] \<subseteq> {..<21 :: nat}" by auto
    note sp = read_entries_spec [OF b(2) assms(1) es_def [unfolded slots_def, symmetric] this Cons.prems(2)]
    have all: "filter in_use (dir_slots (b # bs) s) = es @ filter in_use (dir_slots bs s)" using False by (simp add: es_def)
    show ?thesis
    proof (cases "p - c < length es")
      case True
      then show ?thesis using sp False rd assms(2) unfolding all by (auto simp: nth_append simp del: upt_rec_numeral)
    next
      case later: False
      have c: "c + length es \<le> p" "p - (c + length es) = p - c - length es" using later Cons.prems(2) by auto
      have "p - (c + length es) < length (filter in_use (dir_slots bs s))" using Cons.prems(3) later c unfolding all by simp
      then obtain buf idx where "read_dir_blocks bs 21 (pos_of (c + length es)) (pos_of p) s = Inr (buf, idx)"
          "de idx buf = filter in_use (dir_slots bs s) ! (p - c - length es)"
        using Cons.IH [OF _ c(1)] Cons.prems(1) unfolding c(2) by auto
      moreover have "read_dir_blocks (b # bs) 21 (pos_of c) (pos_of p) s = read_dir_blocks bs 21 (pos_of (c + length es)) (pos_of p) s"
        using sp later False rd assms(2) by (simp del: upt_rec_numeral)
      ultimately show ?thesis using later unfolding all by (simp add: nth_append)
    qed
  qed
qed simp

text \<open>C24: Reading a directory: with the position at entry \<open>n\<close>, \<^verbatim>\<open>dir_read\<close> returns the entry \<open>n\<close> among those in use and
  moves to the next; behind the last one it returns nothing. So a listing from the start shows every entry
  once and ends.\<close>

theorem dir_read_lists:
  assumes "i = core (fs s) (dir_inode (dirs s d))" "dir_ok i (fs s)" "24 * length (entries i (fs s)) < 2 ^ 32"
    "i_size i = pos_of (length (entries i (fs s)))" "dir_pos (dirs s d) = pos_of n" "n \<le> length (entries i (fs s))"
  shows "\<exists>t. dir_read d s = Inr (if n < length (entries i (fs s)) then Some (entries i (fs s) ! n) else None, t) \<and>
    fs t = fs s \<and> dir_inode (dirs t d) = dir_inode (dirs s d) \<and>
    dir_pos (dirs t d) = pos_of (if n < length (entries i (fs s)) then n + 1 else n)"
proof -
  have sz: "dir_entry_size (sb (fs s)) = 24" using assms(2) by (simp add: dir_ok_def)
  have start: "dir_blocks i (fs s) = Inr (dir_ab i (fs s))" "entries_per_sec (fs s) = Inr 21"
    using dir_blocks_eq [OF assms(2)] sz by (simp_all add: entries_per_sec_def)
  have lt: "dir_pos (dirs s d) < i_size i \<longleftrightarrow> n < length (entries i (fs s))"
    unfolding assms(4,5) using pos_of_less [OF assms(3,6)] .
  show ?thesis
  proof (cases "n < length (entries i (fs s))")
    case True
    have "\<forall>b\<in>set (dir_ab i (fs s)). b \<noteq> 0 \<longrightarrow> unat b \<le> 163839 \<and> length (sects (fs s) (unat b)) = 512"
      using assms(2) by (auto simp: dir_ok_def full_def)
    then obtain buf idx where r: "read_dir_blocks (dir_ab i (fs s)) 21 0 (pos_of n) (fs s) = Inr (buf, idx)"
        "de idx buf = entries i (fs s) ! n"
      using read_blocks_spec [OF _ sz, of n "dir_ab i (fs s)" 0] assms(3,6) True unfolding entries_def by auto
    then show ?thesis
      using True lt start sz assms(5) unfolding dir_read_def assms(1) [symmetric] by (simp add: Let_def assms(1) [symmetric])
  next
    case False
    then show ?thesis using lt start assms(5) by (simp add: dir_read_def Let_def assms(1) [symmetric])
  qed
qed

theorem dir_read_lists_witness:
  "\<exists>t. dir_read 3 \<lparr>fs = indirect_demo, dirs = (\<lambda>_. \<lparr>dir_inode = 1, dir_pos = 72, dir_buf = []\<rparr>), root_dir = 1, cwd_inode_nr = 0\<rparr> =
     Inr (Some demo_b, t) \<and> dir_pos (dirs t 3) = 96"
proof -
  let ?s = "\<lparr>fs = indirect_demo, dirs = (\<lambda>_. \<lparr>dir_inode = 1, dir_pos = 72, dir_buf = []\<rparr>), root_dir = 1, cwd_inode_nr = 0\<rparr>"
  have z: "i_size (core indirect_demo 1) = 96" by (simp add: dir_demo_def)
  then show ?thesis
    using dir_read_lists [of "core indirect_demo 1" ?s 3 3] demo_indirect_ok [of 1] demo_entries(2) [of 1] by (auto simp: pos_of_def)
qed

end
