(* ===== verification/Path.thy ===== *)
theory Path
  imports CString
begin

text \<open>
  Path names (\<^verbatim>\<open>path_parse\<close> and \<^verbatim>\<open>path_depth_cnt\<close> of \<^verbatim>\<open>fs/fs.c\<close>). \<^verbatim>\<open>path_parse\<close> copies the first component of a path
  into the caller's buffer, without a terminator and without a bound, and returns the rest of the path.

  \<^verbatim>\<open>strcat\<close> and \<^verbatim>\<open>strrchr\<close> are declared in \<^verbatim>\<open>include/lib/string.h\<close> and used by \<^verbatim>\<open>fs/fs.c\<close>, but no file defines them; they are
  taken to be the functions of the C standard.
\<close>

section \<open>Standard functions\<close>

fun strcat :: "char list \<Rightarrow> char list \<Rightarrow> char list result" where
  "strcat [] src = Inl Out_of_bounds"
| "strcat (c # dst) src =
     (if c = NUL then strcpy (c # dst) src else bindE (strcat dst src) (\<lambda>dst. Inr (c # dst)))"

fun strrchr :: "char list \<Rightarrow> char \<Rightarrow> nat option result" where
  "strrchr [] c = Inl Out_of_bounds"
| "strrchr (x # s) c =
     (if x = NUL then Inr None
      else bindE (strrchr s c) (\<lambda>r. Inr (case r of Some n \<Rightarrow> Some (Suc n) | None \<Rightarrow> if x = c then Some 0 else None)))"

section \<open>Model\<close>

fun skip_slashes :: "char list \<Rightarrow> char list result" where
  "skip_slashes [] = Inl Out_of_bounds"
| "skip_slashes (c # p) = (if c = CHR ''/'' then skip_slashes p else Inr (c # p))"

fun copy_name :: "char list \<Rightarrow> char list \<Rightarrow> (char list \<times> char list) result" where
  "copy_name [] name = Inl Out_of_bounds"
| "copy_name (c # p) name =
     (if c \<noteq> CHR ''/'' \<and> c \<noteq> NUL
      then case name of [] \<Rightarrow> Inl Out_of_bounds
           | _ # name \<Rightarrow> bindE (copy_name p name) (\<lambda>(p, name). Inr (p, c # name))
      else Inr (c # p, name))"

definition path_parse :: "char list \<Rightarrow> char list \<Rightarrow> (char list option \<times> char list) result" where
  "path_parse pathname name_store =
     bindE (skip_slashes pathname) (\<lambda>p.
     bindE (copy_name p name_store) (\<lambda>(p, name).
       case p of [] \<Rightarrow> Inl Out_of_bounds | c # _ \<Rightarrow> Inr (if c = NUL then None else Some p, name)))"

lemma skip_slashes_shorter: "skip_slashes p = Inr q \<Longrightarrow> length q \<le> length p"
  by (induction p) (auto split: if_splits intro: le_SucI)

lemma skip_slashes_less: "skip_slashes (CHR ''/'' # p) = Inr q \<Longrightarrow> length q < length (CHR ''/'' # p)"
  using skip_slashes_shorter [of p q] by simp

lemma skip_slashes_head: "skip_slashes p = Inr q \<Longrightarrow> \<exists>c t. q = c # t \<and> c \<noteq> CHR ''/''"
  by (induction p) (auto split: if_splits)

lemma copy_name_shorter: "copy_name p n = Inr (q, m) \<Longrightarrow> length q \<le> length p"
  by (induction p n arbitrary: q m rule: copy_name.induct)
    (auto simp: bindE_eq_Inr split: if_splits list.splits intro: le_SucI)

lemma copy_name_less:
  "copy_name p n = Inr (d # q, m) \<Longrightarrow> d \<noteq> NUL \<Longrightarrow> \<exists>c r. p = c # r \<and> (c = CHR ''/'' \<or> length (d # q) < length p)"
  by (cases p) (auto simp: bindE_eq_Inr less_Suc_eq_le split: if_splits list.splits dest!: copy_name_shorter)

lemma path_parse_shorter:
  assumes "path_parse p n = Inr (Some q, m)"
  shows "length q < length p"
proof -
  obtain r d q' where r: "skip_slashes p = Inr r" "copy_name r n = Inr (d # q', m)" "d \<noteq> NUL" "q = d # q'"
  proof -
    obtain r where r: "skip_slashes p = Inr r" using assms by (cases "skip_slashes p") (simp_all add: path_parse_def)
    obtain t k where t: "copy_name r n = Inr (t, k)" using assms r by (cases "copy_name r n") (auto simp: path_parse_def)
    then obtain d q' where "t = d # q'" using assms r by (cases t) (simp_all add: path_parse_def)
    moreover from this have "d \<noteq> NUL" "q = d # q'" "k = m" using assms r t by (auto simp: path_parse_def split: if_splits)
    ultimately show thesis using that r t by simp
  qed
  have "length q < length r" using copy_name_less [OF r(2,3)] skip_slashes_head [OF r(1)] unfolding r(4) by blast
  then show ?thesis using skip_slashes_shorter [OF r(1)] by simp
qed

text \<open>The loops over the components of a path end: \<open>path_meas\<close> decreases.\<close>

definition path_meas :: "char list option \<Rightarrow> char list \<Rightarrow> nat" where
  "path_meas p name = (case p of None \<Rightarrow> 0 | Some p \<Rightarrow> 2 * Suc (length p)) + (if name \<noteq> [] \<and> name ! 0 \<noteq> NUL then 1 else 0)"

lemma path_meas_None: "name ! 0 \<noteq> NUL \<Longrightarrow> name \<noteq> [] \<Longrightarrow> name' ! 0 = NUL \<Longrightarrow> path_meas None name' < path_meas None name"
  by (simp add: path_meas_def)

lemma path_meas_Some: "path_parse p n = Inr (q, m) \<Longrightarrow> path_meas q m < path_meas (Some p) name"
  using path_parse_shorter [of p n _ m] by (cases q) (auto simp: path_meas_def)

function depth_loop :: "char list option \<Rightarrow> char list \<Rightarrow> u32 \<Rightarrow> u32 result" where
  "depth_loop p name depth =
     (if name = [] then Inl Out_of_bounds
      else if name ! 0 \<noteq> NUL then
        (case p of
           None \<Rightarrow> depth_loop None (replicate 16 NUL) (depth + 1)
         | Some p \<Rightarrow> bindE (path_parse p (replicate 16 NUL)) (\<lambda>(p, name). depth_loop p name (depth + 1)))
      else Inr depth)"
  by pat_completeness auto
termination
  by (relation "measure (\<lambda>(p, name, depth). path_meas p name)") (auto intro: path_meas_None path_meas_Some)

declare depth_loop.simps [simp del]

text \<open>\<open>junk\<close> is what the uninitialised array \<^verbatim>\<open>name\<close> of 16 characters holds.\<close>

definition path_depth_cnt :: "char list \<Rightarrow> char list \<Rightarrow> u32 result" where
  "path_depth_cnt junk pathname = bindE (path_parse pathname junk) (\<lambda>(p, name). depth_loop p name 0)"

section \<open>Components\<close>

text \<open>The reference: split the path at every slash and drop the empty parts.\<close>

fun split :: "char list \<Rightarrow> char list list" where
  "split [] = [[]]"
| "split (c # s) = (if c = CHR ''/'' then [] # split s else case split s of w # ws \<Rightarrow> (c # w) # ws | [] \<Rightarrow> [[c]])"

definition components :: "char list \<Rightarrow> char list list" where
  "components s = filter (\<lambda>w. w \<noteq> []) (split s)"

abbreviation skip :: "char list \<Rightarrow> char list" where
  "skip s \<equiv> dropWhile (\<lambda>c. c = CHR ''/'') s"

definition word :: "char list \<Rightarrow> char list" where
  "word s = takeWhile (\<lambda>c. c \<noteq> CHR ''/'') (skip s)"

definition rest :: "char list \<Rightarrow> char list" where
  "rest s = dropWhile (\<lambda>c. c \<noteq> CHR ''/'') (skip s)"

lemma components_slash [simp]: "components (CHR ''/'' # s) = components s"
  by (simp add: components_def)

lemma components_Nil [simp]: "components [] = []"
  by (simp add: components_def)

lemma components_drop: "components (skip s) = components s"
  by (induction s) auto

lemma split_word: "split s = takeWhile (\<lambda>c. c \<noteq> CHR ''/'') s # (case dropWhile (\<lambda>c. c \<noteq> CHR ''/'') s of [] \<Rightarrow> [] | _ # r \<Rightarrow> split r)"
  by (induction s) auto

lemma skip_head: "skip s = [] \<or> (\<exists>c t. skip s = c # t \<and> c \<noteq> CHR ''/'')"
  by (induction s) auto

lemma drop_head: "dropWhile (\<lambda>c. c \<noteq> CHR ''/'') s = [] \<or> (\<exists>r. dropWhile (\<lambda>c. c \<noteq> CHR ''/'') s = CHR ''/'' # r)"
  by (induction s) auto

lemma word_Nil: "word s = [] \<longleftrightarrow> skip s = []"
proof (cases "skip s")
  case (Cons c t)
  then have "c \<noteq> CHR ''/''" using skip_head [of s] by simp
  then show ?thesis unfolding word_def Cons by simp
qed (simp only: word_def takeWhile.simps)

lemma components_none: "word s = [] \<Longrightarrow> components s = []"
  unfolding word_Nil using components_drop [of s] by (simp only: components_Nil)

lemma components_some: "word s \<noteq> [] \<Longrightarrow> components s = word s # components (rest s)"
proof -
  assume w: "word s \<noteq> []"
  have "filter (\<lambda>w. w \<noteq> []) (case rest s of [] \<Rightarrow> [] | _ # r \<Rightarrow> split r) = components (rest s)"
    using drop_head [of "skip s"] unfolding rest_def [symmetric] by (auto simp: components_def)
  moreover have "split (skip s) = word s # (case rest s of [] \<Rightarrow> [] | _ # r \<Rightarrow> split r)"
    unfolding word_def rest_def by (rule split_word)
  ultimately have "components (skip s) = word s # components (rest s)" using w by (simp add: components_def)
  then show ?thesis by (simp add: components_drop)
qed

lemma skip_slashes_c_str:
  "c_str p s \<Longrightarrow> \<exists>q. skip_slashes p = Inr q \<and> c_str q (dropWhile (\<lambda>c. c = CHR ''/'') s)"
proof (induction p arbitrary: s)
  case (Cons c p)
  then show ?case by (cases "c = NUL") (auto simp: c_str_Cons)
qed simp

lemma copy_name_c_str:
  "c_str p s \<Longrightarrow> length (takeWhile (\<lambda>c. c \<noteq> CHR ''/'') s) \<le> length n \<Longrightarrow>
   \<exists>q. copy_name p n = Inr (q, takeWhile (\<lambda>c. c \<noteq> CHR ''/'') s @ drop (length (takeWhile (\<lambda>c. c \<noteq> CHR ''/'') s)) n) \<and>
     c_str q (dropWhile (\<lambda>c. c \<noteq> CHR ''/'') s)"
proof (induction p n arbitrary: s rule: copy_name.induct)
  case (2 c p n)
  show ?case
  proof (cases "c \<noteq> CHR ''/'' \<and> c \<noteq> NUL")
    case True
    then obtain t where t: "s = c # t" "c_str p t" using 2 by (auto simp: c_str_Cons)
    then obtain x m where "n = x # m" using 2 True by (cases n) auto
    then show ?thesis using 2 True t by fastforce
  next
    case False
    then show ?thesis using 2 by (auto simp: c_str_Cons)
  qed
qed simp

lemma copy_name_overrun:
  "c_str p s \<Longrightarrow> length n < length (takeWhile (\<lambda>c. c \<noteq> CHR ''/'') s) \<Longrightarrow> copy_name p n = Inl Out_of_bounds"
proof (induction p n arbitrary: s rule: copy_name.induct)
  case (2 c p n)
  then have "c \<noteq> CHR ''/'' \<and> c \<noteq> NUL" by (auto simp: c_str_Cons split: if_splits)
  then show ?case using 2 by (cases n) (auto simp: c_str_Cons)
qed simp

text \<open>What \<^verbatim>\<open>path_parse\<close> does to a terminated path.\<close>

lemma path_parse_c_str:
  assumes "c_str p s"
  shows "length (word s) \<le> length n \<Longrightarrow>
      \<exists>q. path_parse p n = Inr (q, word s @ drop (length (word s)) n) \<and>
        (if rest s = [] then q = None else \<exists>q'. q = Some q' \<and> c_str q' (rest s))"
    "length n < length (word s) \<Longrightarrow> path_parse p n = Inl Out_of_bounds"
proof -
  obtain r where r: "skip_slashes p = Inr r" "c_str r (dropWhile (\<lambda>c. c = CHR ''/'') s)"
    using skip_slashes_c_str [OF assms] by blast
  show "path_parse p n = Inl Out_of_bounds" if "length n < length (word s)"
    using r(1) copy_name_overrun [OF r(2)] that unfolding word_def by (simp add: path_parse_def)
  show "\<exists>q. path_parse p n = Inr (q, word s @ drop (length (word s)) n) \<and>
      (if rest s = [] then q = None else \<exists>q'. q = Some q' \<and> c_str q' (rest s))" if le: "length (word s) \<le> length n"
  proof -
    obtain q where q: "copy_name r n = Inr (q, word s @ drop (length (word s)) n)" "c_str q (rest s)"
      using copy_name_c_str [OF r(2)] le unfolding word_def rest_def by blast
    then obtain c q' where "q = c # q'" by (cases q) auto
    then show ?thesis using q r(1) by (auto simp: path_parse_def c_str_Cons split: if_splits)
  qed
qed

lemma word_props: "c_str p s \<Longrightarrow> NUL \<notin> set (word s) \<and> CHR ''/'' \<notin> set (word s) \<and> NUL \<notin> set (rest s)"
  by (auto simp: c_str_def word_def rest_def dest!: set_takeWhileD set_dropWhileD)

definition too_long :: "nat \<Rightarrow> char list list \<Rightarrow> bool" where
  "too_long n ws \<longleftrightarrow> (\<exists>w\<in>set ws. n < length w)"

lemma too_long_simps [simp]: "\<not> too_long n []" "too_long n (w # ws) \<longleftrightarrow> n < length w \<or> too_long n ws"
  by (auto simp: too_long_def)

text \<open>A component in the buffer and the rest of the path still to come.\<close>

lemma depth_loop_components:
  assumes "case p of None \<Rightarrow> s = [] | Some q \<Rightarrow> c_str q s" "name \<noteq> []" "name ! 0 \<noteq> NUL"
  shows "depth_loop p name d =
    (if too_long 16 (components s) then Inl Out_of_bounds else Inr (d + 1 + of_nat (length (components s))))"
  using assms
proof (induction "case p of None \<Rightarrow> 0 | Some q \<Rightarrow> Suc (length q)" arbitrary: p s name d rule: less_induct)
  case less
  have stop: "depth_loop q (replicate 16 NUL) e = Inr e" for q e by (subst depth_loop.simps) simp
  show ?case
  proof (cases p)
    case None
    then show ?thesis using less.prems stop by (subst depth_loop.simps) simp
  next
    case (Some q)
    have q: "c_str q s" using less.prems(1) Some by simp
    let ?name = "word s @ drop (length (word s)) (replicate 16 NUL)"
    have step: "depth_loop p name d = bindE (path_parse q (replicate 16 NUL)) (\<lambda>(p, name). depth_loop p name (d + 1))"
      using less.prems(2,3) Some by (subst depth_loop.simps) simp
    show ?thesis
    proof (cases "length (word s) \<le> 16")
      case False
      then have "word s \<noteq> []" by auto
      then show ?thesis using step path_parse_c_str(2) [OF q, of "replicate 16 NUL"] False by (simp add: components_some)
    next
      case True
      obtain r where r: "path_parse q (replicate 16 NUL) = Inr (r, ?name)"
          "if rest s = [] then r = None else \<exists>q'. r = Some q' \<and> c_str q' (rest s)"
        using path_parse_c_str(1) [OF q, of "replicate 16 NUL"] True by auto
      show ?thesis
      proof (cases "word s = []")
        case empty: True
        then show ?thesis using step r(1) by (simp add: stop components_none)
      next
        case False
        have "?name ! 0 \<noteq> NUL" using False word_props [OF q] by (cases "word s") auto
        moreover have "case r of None \<Rightarrow> rest s = [] | Some q \<Rightarrow> c_str q (rest s)" using r(2) by (auto split: if_splits)
        moreover have "(case r of None \<Rightarrow> 0 | Some q \<Rightarrow> Suc (length q)) < (case p of None \<Rightarrow> 0 | Some q \<Rightarrow> Suc (length q))"
          using path_parse_shorter [of q "replicate 16 NUL" _ ?name] r(1) Some by (cases r) auto
        ultimately have "depth_loop r ?name (d + 1) =
            (if too_long 16 (components (rest s)) then Inl Out_of_bounds else Inr (d + 1 + 1 + of_nat (length (components (rest s)))))"
          using less.hyps [of r "rest s" ?name "d + 1"] False by simp
        then show ?thesis unfolding step r(1) components_some [OF False] using True by (simp add: ac_simps)
      qed
    qed
  qed
qed

lemma path_depth_eq:
  assumes "c_str obj path" "length junk = 16"
  shows "path_depth_cnt junk obj =
    (if too_long 16 (components path) then Inl Out_of_bounds
     else if components path = [] then Inr (if junk ! 0 = NUL then 0 else 1)
     else Inr (of_nat (length (components path))))"
proof (cases "length (word path) \<le> 16")
  case False
  then have "word path \<noteq> []" by auto
  then show ?thesis
    using path_parse_c_str(2) [OF assms(1), of junk] False assms(2) by (simp add: path_depth_cnt_def components_some)
next
  case True
  let ?name = "word path @ drop (length (word path)) junk"
  obtain r where r: "path_parse obj junk = Inr (r, ?name)"
      "if rest path = [] then r = None else \<exists>q'. r = Some q' \<and> c_str q' (rest path)"
    using path_parse_c_str(1) [OF assms(1), of junk] True assms(2) by auto
  have c: "case r of None \<Rightarrow> rest path = [] | Some q \<Rightarrow> c_str q (rest path)" using r(2) by (auto split: if_splits)
  have ne: "?name \<noteq> []" using assms(2) by auto
  show ?thesis
  proof (cases "word path = []")
    case False
    have "?name ! 0 \<noteq> NUL" using False word_props [OF assms(1)] by (cases "word path") auto
    then show ?thesis unfolding path_depth_cnt_def r(1) components_some [OF False] using depth_loop_components [OF c ne] True by (simp add: add.commute)
  next
    case empty: True
    have cr: "components (rest path) = []" using empty unfolding rest_def word_Nil by (simp only: dropWhile.simps components_Nil)
    have "junk \<noteq> []" using assms(2) by auto
    then have "depth_loop r junk 0 = Inr (if junk ! 0 = NUL then 0 else 1)"
      using depth_loop_components [OF c, of junk 0] cr by (cases "junk ! 0 = NUL") (simp_all add: depth_loop.simps [of r junk])
    then show ?thesis using r(1) empty by (simp add: path_depth_cnt_def components_none)
  qed
qed

text \<open>C18: \<^verbatim>\<open>path_depth_cnt\<close> counts the components of a path, the parts between slashes that are not empty, whatever the
  number of slashes between, before and after them; a component of more than 16 characters overruns its
  buffer, and for a path with no component the result depends on what was left on the stack.\<close>

theorem path_depth_components:
  assumes "c_str obj path" "length junk = 16"
  shows "path_depth_cnt junk obj =
    (if too_long 16 (components path) then Inl Out_of_bounds
     else if components path = [] then Inr (if junk ! 0 = NUL then 0 else 1)
     else Inr (of_nat (length (components path))))"
  using path_depth_eq [OF assms] .

theorem path_depth_components_witness:
  "path_depth_cnt (replicate 16 (CHR ''x'')) (''//a/bc///d/'' @ [NUL]) = Inr 3 \<and>
   path_depth_cnt (replicate 16 (CHR ''x'')) (''/'' @ [NUL]) = Inr 1 \<and>
   path_depth_cnt (replicate 16 NUL) (''/abcdefghijklmnopq'' @ [NUL]) = Inl Out_of_bounds"
  using path_depth_components [of "''//a/bc///d/'' @ [NUL]" "''//a/bc///d/''" "replicate 16 (CHR ''x'')"]
    path_depth_components [of "''/'' @ [NUL]" "''/''" "replicate 16 (CHR ''x'')"]
    path_depth_components [of "''/abcdefghijklmnopq'' @ [NUL]" "''/abcdefghijklmnopq''" "replicate 16 NUL"]
  by (simp add: components_def c_str_Cons)

end
