(* ===== verification/Fs.thy ===== *)
theory Fs
  imports Dir Path
begin

text \<open>
  \<^verbatim>\<open>fs/fs.c\<close>: name resolution and the file-system calls, with \<^verbatim>\<open>file_create\<close> of \<^verbatim>\<open>fs/file.c\<close>. A call returns the value of
  the C function and the new state; what it prints with \<^verbatim>\<open>printk\<close> is not part of the state. A path is the object
  the pointer points into.

  Three local variables are read before they are written on some paths: the name buffers of the two calls of
  \<^verbatim>\<open>path_depth_cnt\<close> and the directory entry of \<^verbatim>\<open>search_file\<close>. What the stack holds there is an argument.
  The characters that \<^verbatim>\<open>ioq_getchar\<close> delivers to a read from standard input are an argument as well.
\<close>

section \<open>State\<close>

record path_search_record =
  searched_path :: "char list"
  parent_dir :: u32
  file_type :: u32

record junk =
  junk_name :: "nat \<Rightarrow> char list"
  junk_entry :: "u8 list"

record stat =
  st_ino :: u32
  st_size :: u32
  st_filetype :: u32

abbreviation empty_record :: path_search_record where
  "empty_record \<equiv> \<lparr>searched_path = replicate 512 NUL, parent_dir = 0, file_type = FT_UNKNOWN\<rparr>"

abbreviation cstr :: "char list \<Rightarrow> char list" where
  "cstr s \<equiv> s @ [NUL]"

text \<open>The inode of an open directory.\<close>

definition dir_core :: "u32 \<Rightarrow> fstate \<Rightarrow> inode" where
  "dir_core d s = core (fs s) (dir_inode (dirs s d))"

section \<open>Creating a file\<close>

definition clear_file :: "nat \<Rightarrow> fsys \<Rightarrow> fsys" where
  "clear_file f = set_file f (\<lambda>_. \<lparr>fd_pos = 0, fd_flag = 0, fd_inode = 0\<rparr>)"

definition file_create :: "u32 \<Rightarrow> char list \<Rightarrow> u8 \<Rightarrow> fsys \<Rightarrow> (int \<times> fsys) result" where
  "file_create dir filename flag s =
     (let (io_buf, s) = sys_malloc_obj s in
      if io_buf = 0 then Inr (-1, s)
      else bindE (inode_bitmap_alloc s) (\<lambda>(ino, s).
        if ino = -1 then Inr (-1, s)
        else
          (let inode_no = of_int ino :: u32; (a, s) = sys_malloc_obj s;
               release = (\<lambda>s. bindE (bitmap_set (inode_bitmap s) (unat inode_no) 0) (\<lambda>bm. Inr (-1, s\<lparr>inode_bitmap := bm\<rparr>)))
           in
           if a = 0 then release s
           else
             (let s = set_core a (inode_init inode_no) s; fd_idx = get_free_slot_in_global s in
              if fd_idx = -1 then release s
              else
                (let s = set_file (nat fd_idx) (\<lambda>_. \<lparr>fd_pos = 0, fd_flag = ucast flag, fd_inode = a\<rparr>) s;
                     s = set_core a (\<lambda>i. i\<lparr>write_deny := False\<rparr>) s
                 in
                 bindE (create_dir_entry filename inode_no (ucast FT_REGULAR) (replicate 24 0)) (\<lambda>de.
                 bindE (sync_dir_entry dir de s) (\<lambda>(ok, s).
                   if \<not> ok then release (clear_file (nat fd_idx) s)
                   else
                     bindE (inode_sync (core s dir) s) (\<lambda>s.
                     bindE (inode_sync (core s a) s) (\<lambda>s.
                     bindE (bitmap_sync inode_no INODE_BITMAP s) (\<lambda>s.
                       Inr (pcb_fd_install fd_idx
                         (set_core a (\<lambda>i. i\<lparr>i_open_cnts := 1\<rparr>) (s\<lparr>open_inode := a # open_inode s\<rparr>)))))))))))))"

section \<open>Resolving a path\<close>

definition is_root_path :: "char list \<Rightarrow> bool result" where
  "is_root_path p =
     bindE (strcmp p (cstr ''/'')) (\<lambda>r. if r = 0 then Inr True else
     bindE (strcmp p (cstr ''/.'')) (\<lambda>r. if r = 0 then Inr True else
     bindE (strcmp p (cstr ''/..'')) (\<lambda>r. Inr (r = 0))))"

text \<open>\<^verbatim>\<open>strlen\<close> and the two \<^verbatim>\<open>strcat\<close> on the record of what has been searched.\<close>

definition extend_path :: "char list \<Rightarrow> char list \<Rightarrow> char list result" where
  "extend_path path name = bindE (strcat path (cstr ''/'')) (\<lambda>path. strcat path name)"

definition clear_name :: "char list \<Rightarrow> char list" where
  "clear_name name = replicate 16 NUL @ drop 16 name"

text \<open>The loop of \<^verbatim>\<open>search_file\<close>: the rest of the path, the component in the buffer, the last entry found, the
  directory being searched and the number of its parent.\<close>

function search_loop :: "char list option \<Rightarrow> char list \<Rightarrow> u8 list \<Rightarrow> path_search_record \<Rightarrow> u32 \<Rightarrow> u32 \<Rightarrow> fstate \<Rightarrow>
    (u32 \<times> path_search_record \<times> fstate) result" where
  "search_loop sub name dir_e rec pdir pino s =
     (if length name < 16 then Inl Out_of_bounds
      else if name ! 0 \<noteq> NUL then
        bindE (strlen (searched_path rec)) (\<lambda>n. assertE (n < 512)
          (bindE (extend_path (searched_path rec) name) (\<lambda>sp.
             let rec = rec\<lparr>searched_path := sp\<rparr> in
             bindE (search_dir_entry (dir_inode (dirs s pdir)) name dir_e (fs s)) (\<lambda>(found, dir_e, m).
               let s = s\<lparr>fs := m\<rparr> in
               if found then
                 bindE (case sub of None \<Rightarrow> Inr (None, clear_name name) | Some p \<Rightarrow> path_parse p (clear_name name)) (\<lambda>(sub, name).
                   if de_f_type dir_e = FT_DIRECTORY then
                     (let pino = i_no (dir_core pdir s); s = dir_close pdir s in
                      bindE (dir_open (de_i_no dir_e) s) (\<lambda>(pdir, s).
                        search_loop sub name dir_e (rec\<lparr>parent_dir := pdir\<rparr>) pdir pino s))
                   else if de_f_type dir_e = FT_REGULAR then Inr (de_i_no dir_e, rec\<lparr>file_type := FT_REGULAR\<rparr>, s)
                   else search_loop sub name dir_e rec pdir pino s)
               else Inr (-1, rec, s)))))
      else
        (let s = dir_close (parent_dir rec) s in
         bindE (dir_open pino s) (\<lambda>(pdir, s). Inr (de_i_no dir_e, rec\<lparr>parent_dir := pdir, file_type := FT_DIRECTORY\<rparr>, s))))"
  by pat_completeness auto

lemma search_measure:
  assumes "name ! 0 \<noteq> NUL" "\<not> length name < 16"
    "(case sub of None \<Rightarrow> Inr (None, clear_name name) | Some p \<Rightarrow> path_parse p (clear_name name)) = Inr (sub', name')"
  shows "path_meas sub' name' < path_meas sub name"
proof (cases sub)
  case None
  then have "sub' = None" "name' ! 0 = NUL" using assms by (auto simp: clear_name_def nth_append)
  then show ?thesis using None assms(1,2) by (auto simp: path_meas_def)
next
  case (Some p)
  then show ?thesis using assms path_meas_Some [of p "clear_name name"] by simp
qed

termination search_loop
  by (relation "measure (\<lambda>(sub, name, _). path_meas sub name)") (auto intro: search_measure)

declare search_loop.simps [simp del]

definition search_file :: "u8 list \<Rightarrow> char list \<Rightarrow> path_search_record \<Rightarrow> fstate \<Rightarrow> (u32 \<times> path_search_record \<times> fstate) result" where
  "search_file junk pathname rec s =
     bindE (is_root_path pathname) (\<lambda>r.
       if r then Inr (0, rec\<lparr>searched_path := (searched_path rec)[0 := NUL], parent_dir := root_dir s, file_type := FT_DIRECTORY\<rparr>, s)
       else
         bindE (strlen pathname) (\<lambda>path_len.
           assertE (pathname ! 0 = CHR ''/'' \<and> path_len > 1 \<and> path_len < 512)
             (bindE (path_parse pathname (replicate 512 NUL)) (\<lambda>(sub, name).
                search_loop sub name junk (rec\<lparr>parent_dir := root_dir s, file_type := FT_UNKNOWN\<rparr>) (root_dir s) 0 s))))"

section \<open>Descriptors\<close>

definition fd_local2global :: "u32 \<Rightarrow> fsys \<Rightarrow> nat result" where
  "fd_local2global fd_local s =
     (if unat fd_local \<ge> length (fd_table s) then Inl Out_of_bounds
      else let global_fd = sint (fd_table s ! unat fd_local) in assertE (global_fd \<ge> 0 \<and> global_fd < 32) (Inr (nat global_fd)))"

definition sys_close :: "u32 \<Rightarrow> fsys \<Rightarrow> (int \<times> fsys) result" where
  "sys_close fd s =
     (if sint fd > 2 then
        bindE (fd_local2global fd s) (\<lambda>g.
          let (ret, s) = file_close g s in Inr (ret, s\<lparr>fd_table := (fd_table s)[unat fd := -1]\<rparr>))
      else Inr (-1, s))"

text \<open>The text a write to standard output shows; without a terminator \<^verbatim>\<open>console_put_str\<close> reads on behind the buffer.\<close>

definition shown :: "u8 list \<Rightarrow> char list result" where
  "shown tmp = (if NUL \<in> set (chars tmp) then Inr (takeWhile (\<lambda>c. c \<noteq> NUL) (chars tmp)) else Inl Out_of_bounds)"

definition sys_write :: "u32 \<Rightarrow> u8 list \<Rightarrow> u32 \<Rightarrow> fsys \<Rightarrow> (int \<times> char list \<times> fsys) result" where
  "sys_write fd buf count s =
     (if sint fd < 0 then Inr (-1, [], s)
      else if fd = 1 then
        bindE (memcpy (replicate 1024 0) buf (unat count)) (\<lambda>tmp. bindE (shown tmp) (\<lambda>out. Inr (sint count, out, s)))
      else
        bindE (fd_local2global fd s) (\<lambda>g.
          if fd_flag (file_table s ! g) AND 1 \<noteq> 0 \<or> fd_flag (file_table s ! g) AND 2 \<noteq> 0
          then bindE (file_write g buf count s) (\<lambda>(n, s). Inr (n, [], s))
          else Inr (-1, ''sys_write: not allowed to write file without flag O_WRONLY or O_RDWR'' @ [CHR 0x0A], s)))"

definition sys_read :: "char list \<Rightarrow> u32 \<Rightarrow> u32 \<Rightarrow> fsys \<Rightarrow> (int \<times> u8 list \<times> fsys) result" where
  "sys_read keys fd count s =
     (if sint fd < 0 \<or> fd = 1 \<or> fd = 2 then Inr (-1, [], s)
      else if fd = 0 then
        if length keys < unat count then Inl Suspended
        else Inr (if count = 0 then -1 else sint count, bytes (take (unat count) keys), s)
      else bindE (fd_local2global fd s) (\<lambda>g. file_read g count s))"

text \<open>The sums of signed positions are taken to wrap around.\<close>

definition sys_lseek :: "u32 \<Rightarrow> u32 \<Rightarrow> u8 \<Rightarrow> fsys \<Rightarrow> (int \<times> fsys) result" where
  "sys_lseek fd offset whence s =
     (if sint fd < 0 then Inr (-1, s)
      else
        assertE (whence > 0 \<and> whence < 4)
          (bindE (fd_local2global fd s) (\<lambda>g.
             let fl = file_table s ! g; file_size = i_size (core s (fd_inode fl));
                 new_pos = (if whence = 1 then offset else if whence = 2 then fd_pos fl + offset else file_size + offset)
             in if sint new_pos < 0 \<or> sint new_pos > sint (file_size + 1) then Inr (-1, s)
                else Inr (sint new_pos, set_file g (\<lambda>fl. fl\<lparr>fd_pos := new_pos\<rparr>) s))))"

section \<open>Opening files\<close>

text \<open>A file that exists is opened without closing its directory again.\<close>

definition sys_open :: "junk \<Rightarrow> char list \<Rightarrow> u8 \<Rightarrow> fstate \<Rightarrow> (int \<times> fstate) result" where
  "sys_open j pathname flags s =
     bindE (strlen pathname) (\<lambda>n.
       if n = 0 then Inl Out_of_bounds
       else if pathname ! (n - 1) = CHR ''/'' then Inr (-1, s)
       else
         assertE (flags \<le> 7)
           (bindE (path_depth_cnt (junk_name j 0) pathname) (\<lambda>path_depth.
            bindE (search_file (junk_entry j) pathname empty_record s) (\<lambda>(inode_no, rec, s).
              let found = (inode_no \<noteq> -1); fail = Inr (-1, dir_close (parent_dir rec) s) in
              if file_type rec = FT_DIRECTORY then fail
              else
                bindE (path_depth_cnt (junk_name j 1) (searched_path rec)) (\<lambda>path_searched_depth.
                  if path_searched_depth \<noteq> path_depth then fail
                  else if \<not> found \<and> flags AND 4 = 0 then fail
                  else if found \<and> flags AND 4 \<noteq> 0 then fail
                  else if flags AND 4 \<noteq> 0 then
                    bindE (strrchr pathname (CHR ''/'')) (\<lambda>k.
                      case k of None \<Rightarrow> Inl Out_of_bounds
                      | Some k \<Rightarrow>
                          bindE (file_create (dir_inode (dirs s (parent_dir rec))) (drop (k + 1) pathname) flags (fs s)) (\<lambda>(fd, m).
                            Inr (fd, dir_close (parent_dir rec) (s\<lparr>fs := m\<rparr>))))
                  else bindE (file_open inode_no flags (fs s)) (\<lambda>(fd, m). Inr (fd, s\<lparr>fs := m\<rparr>)))))))"

section \<open>Removing files\<close>

definition in_table :: "u32 \<Rightarrow> fsys \<Rightarrow> bool" where
  "in_table inode_no s \<longleftrightarrow>
     (\<exists>f\<in>set (take 32 (file_table s)). fd_inode f \<noteq> 0 \<and> i_no (core s (fd_inode f)) = inode_no)"

definition sys_unlink :: "junk \<Rightarrow> char list \<Rightarrow> fstate \<Rightarrow> (int \<times> fstate) result" where
  "sys_unlink j pathname s =
     bindE (search_file (junk_entry j) pathname empty_record s) (\<lambda>(inode_no, rec, s).
       let fail = Inr (-1, dir_close (parent_dir rec) s) in
       assertE (inode_no \<noteq> 0)
         (if inode_no = -1 then fail
          else if file_type rec = FT_DIRECTORY then fail
          else if in_table inode_no (fs s) then fail
          else
            (let (io_buf, m) = sys_malloc_obj (fs s) in
             if io_buf = 0 then Inl Out_of_bounds
             else
               bindE (delete_dir_entry (dir_inode (dirs s (parent_dir rec))) inode_no m) (\<lambda>(_, m).
               bindE (inode_release inode_no m) (\<lambda>m.
                 Inr (0, dir_close (parent_dir rec) (s\<lparr>fs := m\<rparr>)))))))"

section \<open>Directories\<close>

text \<open>The first sector of a new directory.\<close>

definition dot_entries :: "u32 \<Rightarrow> u32 \<Rightarrow> u8 list" where
  "dot_entries self parent =
     bytes ''.'' @ replicate 15 0 @ le32 self @ le32 FT_DIRECTORY @
     bytes ''..'' @ replicate 14 0 @ le32 parent @ le32 FT_DIRECTORY"

definition sys_mkdir :: "junk \<Rightarrow> char list \<Rightarrow> fstate \<Rightarrow> (int \<times> fstate) result" where
  "sys_mkdir j pathname s =
     (let (io_buf, m) = sys_malloc_obj (fs s); s = s\<lparr>fs := m\<rparr> in
      if io_buf = 0 then Inr (-1, s)
      else
        bindE (search_file (junk_entry j) pathname empty_record s) (\<lambda>(inode_no, rec, s).
          let fail = (\<lambda>m. Inr (-1, dir_close (parent_dir rec) (s\<lparr>fs := m\<rparr>))) in
          if inode_no \<noteq> -1 then fail (fs s)
          else
            bindE (path_depth_cnt (junk_name j 0) pathname) (\<lambda>d.
            bindE (path_depth_cnt (junk_name j 1) (searched_path rec)) (\<lambda>d'.
              if d \<noteq> d' then fail (fs s)
              else
                bindE (strrchr (searched_path rec) (CHR ''/'')) (\<lambda>k.
                bindE (inode_bitmap_alloc (fs s)) (\<lambda>(ino, m).
                  if ino = -1 then fail m
                  else
                    (let inode_no = of_int ino :: u32; dir = dir_inode (dirs s (parent_dir rec));
                         release = (\<lambda>m. bindE (bitmap_set (inode_bitmap m) (unat inode_no) 0) (\<lambda>bm. fail (m\<lparr>inode_bitmap := bm\<rparr>))) in
                     bindE (block_bitmap_alloc m) (\<lambda>(lba, m).
                       if lba = -1 then release m
                       else
                         (let b = of_int lba :: u32; sz = dir_entry_size (sb m);
                              new = \<lparr>i_no = inode_no, i_size = 2 * sz, i_open_cnts = 0, write_deny = False,
                                i_sectors = (replicate 13 0)[0 := b]\<rparr> in
                          bindE (bitmap_sync (b - data_start_lba (sb m)) BLOCK_BITMAP m) (\<lambda>m.
                          bindE (dwrite b (dot_entries inode_no (i_no (core m dir)) @ replicate 464 0) 1 m) (\<lambda>m.
                          bindE (case k of None \<Rightarrow> Inl Out_of_bounds
                                 | Some k \<Rightarrow> create_dir_entry (drop (k + 1) (searched_path rec)) inode_no (ucast FT_DIRECTORY) (replicate 24 0)) (\<lambda>de.
                          bindE (sync_dir_entry dir de m) (\<lambda>(ok, m).
                            if \<not> ok then release m
                            else
                              bindE (inode_sync (core m dir) m) (\<lambda>m.
                              bindE (inode_sync new m) (\<lambda>m.
                              bindE (bitmap_sync inode_no INODE_BITMAP m) (\<lambda>m.
                                Inr (0, dir_close (parent_dir rec) (s\<lparr>fs := m\<rparr>))))))))))))))))))"

definition sys_opendir :: "junk \<Rightarrow> char list \<Rightarrow> fstate \<Rightarrow> (u32 \<times> fstate) result" where
  "sys_opendir j name s =
     bindE (strlen name) (\<lambda>n.
       assertE (n < 512)
         (if name ! 0 = CHR ''/'' \<and> (name ! 1 = NUL \<or> name ! 1 = CHR ''.'') then Inr (root_dir s, s)
          else
            bindE (search_file (junk_entry j) name empty_record s) (\<lambda>(inode_no, rec, s).
            bindE (if inode_no \<noteq> -1 \<and> file_type rec = FT_DIRECTORY then dir_open inode_no s else Inr (0, s)) (\<lambda>(ret, s).
              Inr (ret, dir_close (parent_dir rec) s)))))"

definition sys_closedir :: "u32 \<Rightarrow> fstate \<Rightarrow> int \<times> fstate" where
  "sys_closedir d s = (if d \<noteq> 0 then (0, dir_close d s) else (-1, s))"

definition sys_readdir :: "u32 \<Rightarrow> fstate \<Rightarrow> (u8 list option \<times> fstate) result" where
  "sys_readdir d s = assertE (d \<noteq> 0) (dir_read d s)"

definition sys_rewinddir :: "u32 \<Rightarrow> fstate \<Rightarrow> fstate" where
  "sys_rewinddir d s = s\<lparr>dirs := (dirs s)(d := (dirs s d)\<lparr>dir_pos := 0\<rparr>)\<rparr>"

definition sys_rmdir :: "junk \<Rightarrow> char list \<Rightarrow> fstate \<Rightarrow> (int \<times> fstate) result" where
  "sys_rmdir j pathname s =
     bindE (search_file (junk_entry j) pathname empty_record s) (\<lambda>(inode_no, rec, s).
       assertE (inode_no \<noteq> 0)
         (bindE
           (if inode_no = -1 \<or> file_type rec = FT_REGULAR then Inr (-1, s)
            else
              bindE (dir_open inode_no s) (\<lambda>(d, s).
              bindE (if \<not> dir_is_empty (dir_inode (dirs s d)) (fs s) then Inr (-1, s)
                     else bindE (dir_remove (dir_inode (dirs s (parent_dir rec))) (dir_inode (dirs s d)) (fs s)) (\<lambda>(r, m).
                       Inr (if r = 0 then 0 else -1, s\<lparr>fs := m\<rparr>))) (\<lambda>(ret, s).
                Inr (ret, dir_close d s))))
           (\<lambda>(ret, s). Inr (ret, dir_close (parent_dir rec) s))))"

section \<open>The working directory\<close>

definition get_parent_dir_inode_nr :: "u32 \<Rightarrow> fsys \<Rightarrow> (u32 \<times> fsys) result" where
  "get_parent_dir_inode_nr child_inode_nr s =
     bindE (inode_open child_inode_nr s) (\<lambda>(a, s).
       let block_lba = i_sectors (core s a) ! 0 in
       assertE (block_lba \<ge> data_start_lba (sb s))
         (let s = inode_close a s in
          bindE (dread block_lba 1 s) (\<lambda>buf.
            assertE (de_i_no (de 1 buf) < 4096 \<and> de_f_type (de 1 buf) = FT_DIRECTORY) (Inr (de_i_no (de 1 buf), s)))))"

fun child_entry :: "nat list \<Rightarrow> u8 list \<Rightarrow> u32 \<Rightarrow> nat option result" where
  "child_entry [] buf c = Inr None"
| "child_entry (idx # is) buf c =
     (if length buf < 24 * idx + 24 then Inl Out_of_bounds
      else if de_i_no (de idx buf) = c then Inr (Some idx) else child_entry is buf c)"

fun child_blocks :: "u32 list \<Rightarrow> nat \<Rightarrow> u32 \<Rightarrow> char list \<Rightarrow> fsys \<Rightarrow> char list option result" where
  "child_blocks [] n c path s = Inr None"
| "child_blocks (b # bs) n c path s =
     (if b = 0 then child_blocks bs n c path s
      else bindE (dread b 1 s) (\<lambda>buf.
           bindE (child_entry [0..<n] buf c) (\<lambda>r.
             case r of None \<Rightarrow> child_blocks bs n c path s
             | Some idx \<Rightarrow> bindE (extend_path path (name_at idx buf)) (\<lambda>path. Inr (Some path)))))"

definition get_child_dir_name :: "u32 \<Rightarrow> u32 \<Rightarrow> char list \<Rightarrow> fsys \<Rightarrow> (char list option \<times> fsys) result" where
  "get_child_dir_name p_inode_nr c_inode_nr path s =
     bindE (inode_open p_inode_nr s) (\<lambda>(a, s).
     bindE (dir_blocks (core s a) s) (\<lambda>ab.
       let s = inode_close a s in
       bindE (entries_per_sec s) (\<lambda>n.
       bindE (child_blocks ab n c_inode_nr path s) (\<lambda>r. Inr (r, s)))))"

definition text_len :: "char list \<Rightarrow> nat" where
  "text_len p = length (takeWhile (\<lambda>c. c \<noteq> NUL) p)"

lemma text_len_le: "text_len p \<le> length p"
  by (simp add: text_len_def length_takeWhile_le)

lemma strcpy_text: "strcpy d s = Inr q \<Longrightarrow> length q = length d \<and> text_len q = text_len s"
  by (induction d s arbitrary: q rule: strcpy.induct) (auto simp: text_len_def bindE_eq_Inr split: if_splits)

lemma strcat_text: "strcat d s = Inr q \<Longrightarrow> length q = length d \<and> text_len q = text_len d + text_len s"
proof (induction d s arbitrary: q rule: strcat.induct)
  case (2 c d s)
  show ?case
  proof (cases "c = NUL")
    case True
    then show ?thesis using 2 strcpy_text [of "c # d" s q] by (simp add: text_len_def)
  next
    case False
    then show ?thesis using 2 by (auto simp: bindE_eq_Inr text_len_def)
  qed
qed simp

lemma extend_path_text: "extend_path p n = Inr q \<Longrightarrow> length q = length p \<and> text_len q = text_len p + 1 + text_len n"
  by (auto simp: extend_path_def bindE_eq_Inr text_len_def dest!: strcat_text)

lemma child_blocks_text: "child_blocks bs n c p s = Inr (Some q) \<Longrightarrow> length q = length p \<and> text_len p < text_len q"
proof (induction bs)
  case (Cons b bs)
  show ?case
  proof (cases "b = 0")
    case False
    then obtain buf r where "dread b 1 s = Inr buf" "child_entry [0..<n] buf c = Inr r"
      using Cons.prems by (auto simp: bindE_eq_Inr)
    then show ?thesis using Cons False by (cases r) (auto simp: bindE_eq_Inr dest!: extend_path_text)
  qed (use Cons in simp)
qed simp

lemma child_name_text: "get_child_dir_name d c p s = Inr (Some q, t) \<Longrightarrow> length q = length p \<and> text_len p < text_len q"
  by (auto simp: get_child_dir_name_def bindE_eq_Inr Let_def dest!: child_blocks_text)

text \<open>The loop up to the root ends even if the directories form a cycle: every step makes the path longer.\<close>

function up_loop :: "u32 \<Rightarrow> char list \<Rightarrow> fsys \<Rightarrow> (char list option \<times> fsys) result" where
  "up_loop c path s =
     (if c \<noteq> 0 then
        bindE (get_parent_dir_inode_nr c s) (\<lambda>(p, s).
        bindE (get_child_dir_name p c path s) (\<lambda>(r, s).
          case r of None \<Rightarrow> Inr (None, s) | Some path \<Rightarrow> up_loop p path s))
      else Inr (Some path, s))"
  by pat_completeness auto

lemma up_measure: "get_child_dir_name d c p s = Inr (Some q, t) \<Longrightarrow> length q - text_len q < length p - text_len p"
  using child_name_text [of d c p s q t] text_len_le [of q] by (auto intro: diff_less_mono2)

termination up_loop
  by (relation "measure (\<lambda>(c, path, s). length path - text_len path)") (auto intro: up_measure)

declare up_loop.simps [simp del]

lemma strrchr_bound: "strrchr p c = Inr (Some k) \<Longrightarrow> k < text_len p"
proof (induction p arbitrary: k)
  case (Cons x p)
  then show ?case by (auto simp: text_len_def bindE_eq_Inr split: if_splits option.splits)
qed simp

lemma text_len_cut: "k < text_len p \<Longrightarrow> text_len (p[k := NUL]) = k"
proof (induction p arbitrary: k)
  case (Cons x p)
  then show ?case by (cases k) (auto simp: text_len_def split: if_splits)
qed (simp add: text_len_def)

text \<open>The components come out in reverse order; they are moved one by one to the end of the result.\<close>

function turn_loop :: "char list \<Rightarrow> char list \<Rightarrow> char list result" where
  "turn_loop rpath buf =
     bindE (strrchr rpath (CHR ''/'')) (\<lambda>r.
       case r of None \<Rightarrow> Inr buf
       | Some k \<Rightarrow>
           bindE (strlen buf) (\<lambda>n. let len = n mod 65536 in
           bindE (strcpy (drop len buf) (drop k rpath)) (\<lambda>tail.
             turn_loop (rpath[k := NUL]) (take len buf @ tail))))"
  by pat_completeness auto
termination
  by (relation "measure (\<lambda>(rpath, buf). text_len rpath)") (auto simp: text_len_cut strrchr_bound dest: strrchr_bound)

declare turn_loop.simps [simp del]

definition sys_getcwd :: "char list \<Rightarrow> u32 \<Rightarrow> fstate \<Rightarrow> (char list option \<times> fstate) result" where
  "sys_getcwd buf sz s =
     (let (io_buf, m) = sys_malloc_obj (fs s); s = s\<lparr>fs := m\<rparr> in
      if io_buf = 0 then Inr (None, s)
      else
        (let child = cwd_inode_nr s in
         assertE (sint child \<ge> 0 \<and> sint child < 4096)
           (if child = 0 then
              if length buf < 2 then Inl Out_of_bounds else Inr (Some (CHR ''/'' # NUL # drop 2 buf), s)
            else if length buf < unat sz then Inl Out_of_bounds
            else
              (let buf = replicate (unat sz) NUL @ drop (unat sz) buf in
               bindE (up_loop child (replicate 512 NUL) (fs s)) (\<lambda>(r, m).
                 case r of None \<Rightarrow> Inr (None, s\<lparr>fs := m\<rparr>)
                 | Some rpath \<Rightarrow>
                     bindE (strlen rpath) (\<lambda>n. assertE (n \<le> unat sz)
                       (bindE (turn_loop rpath buf) (\<lambda>buf. Inr (Some buf, s\<lparr>fs := m\<rparr>)))))))))"

definition sys_chdir :: "junk \<Rightarrow> char list \<Rightarrow> fstate \<Rightarrow> (int \<times> fstate) result" where
  "sys_chdir j path s =
     bindE (search_file (junk_entry j) path empty_record s) (\<lambda>(inode_no, rec, s).
       let ok = (inode_no \<noteq> -1 \<and> file_type rec = FT_DIRECTORY) in
       Inr (if ok then 0 else -1, dir_close (parent_dir rec) (if ok then s\<lparr>cwd_inode_nr := inode_no\<rparr> else s)))"

text \<open>\<^verbatim>\<open>sys_stat\<close> clears only the first byte of the search record and never closes the directory the search leaves open.\<close>

definition sys_stat :: "junk \<Rightarrow> char list \<Rightarrow> char list \<Rightarrow> stat \<Rightarrow> fstate \<Rightarrow> (int \<times> stat \<times> fstate) result" where
  "sys_stat j left path buf s =
     bindE (is_root_path path) (\<lambda>r.
       if r then Inr (0, \<lparr>st_ino = 0, st_size = i_size (dir_core (root_dir s) s), st_filetype = FT_DIRECTORY\<rparr>, s)
       else
         bindE (search_file (junk_entry j) path (empty_record\<lparr>searched_path := left[0 := NUL]\<rparr>) s) (\<lambda>(inode_no, rec, s).
           if inode_no \<noteq> -1 then
             bindE (inode_open inode_no (fs s)) (\<lambda>(a, m).
               Inr (0, \<lparr>st_ino = inode_no, st_size = i_size (core m a), st_filetype = file_type rec\<rparr>,
                 s\<lparr>fs := inode_close a m\<rparr>))
           else Inr (-1, buf, s)))"

end
