(* ===== verification/Mkfs.thy ===== *)
theory Mkfs
  imports Fs DirEntries
begin

text \<open>
  Making and mounting a file system (\<^verbatim>\<open>partition_format\<close>, \<^verbatim>\<open>mount_partition\<close> and \<^verbatim>\<open>filesys_init\<close> of \<^verbatim>\<open>fs/fs.c\<close>). A super block
  is thirteen words and 460 bytes of padding, which the code leaves as the stack had them.

  \<^verbatim>\<open>filesys_init\<close> walks over the channels and looks at the second drive of each, but it never resets the index of
  the partition, so that only the twelve partitions of the first channel's drive are examined.
\<close>

section \<open>Model\<close>

definition sb_bytes :: "super_block \<Rightarrow> u8 list \<Rightarrow> u8 list" where
  "sb_bytes b pad =
     bytes_of [magic b, sb_sec_cnt b, inode_cnt b, part_lba_base b, block_bitmap_lba b, block_bitmap_sects b, inode_bitmap_lba b,
       inode_bitmap_sects b, inode_table_lba b, inode_table_sects b, data_start_lba b, root_inode_no b, dir_entry_size b] @ pad"

definition sb_of :: "u8 list \<Rightarrow> super_block" where
  "sb_of bs =
     (let w = words_of bs in
      \<lparr>magic = w ! 0, sb_sec_cnt = w ! 1, inode_cnt = w ! 2, part_lba_base = w ! 3, block_bitmap_lba = w ! 4,
       block_bitmap_sects = w ! 5, inode_bitmap_lba = w ! 6, inode_bitmap_sects = w ! 7, inode_table_lba = w ! 8,
       inode_table_sects = w ! 9, data_start_lba = w ! 10, root_inode_no = w ! 11, dir_entry_size = w ! 12\<rparr>)"

definition DIV_ROUND_UP_u32 :: "u32 \<Rightarrow> u32 \<Rightarrow> u32" where
  "DIV_ROUND_UP_u32 x step = (x + step - 1) div step"

text \<open>The super block of a new file system, and the length of its block bitmap in bits.\<close>

definition new_super_block :: "partition \<Rightarrow> u32 \<times> super_block" where
  "new_super_block part =
     (let boot_sector_sects = 1; super_block_sects = 1;
          ib_sects = DIV_ROUND_UP_u32 4096 4096;
          it_sects = DIV_ROUND_UP_u32 (76 * 4096) 512;
          used_sectors = boot_sector_sects + super_block_sects + ib_sects + it_sects;
          free_sectors = sec_cnt part - used_sectors;
          bb_sects = DIV_ROUND_UP_u32 free_sectors 4096;
          bit_len = free_sectors - bb_sects;
          bb_sects = DIV_ROUND_UP_u32 bit_len 4096;
          bb_lba = start_lba part + 2;
          ib_lba = bb_lba + bb_sects;
          it_lba = ib_lba + ib_sects
      in (bit_len,
          \<lparr>magic = 0x12345678, sb_sec_cnt = sec_cnt part, inode_cnt = 4096, part_lba_base = start_lba part,
           block_bitmap_lba = bb_lba, block_bitmap_sects = bb_sects, inode_bitmap_lba = ib_lba, inode_bitmap_sects = ib_sects,
           inode_table_lba = it_lba, inode_table_sects = it_sects, data_start_lba = it_lba + it_sects,
           root_inode_no = 0, dir_entry_size = 24\<rparr>))"

text \<open>The bits of \<^verbatim>\<open>buf[last_byte]\<close> with an index up to and including \<^verbatim>\<open>last_bit\<close> are cleared.\<close>

fun clear_bits :: "nat list \<Rightarrow> u8 \<Rightarrow> u8" where
  "clear_bits [] b = b"
| "clear_bits (i # is) b = clear_bits is (b AND NOT (push_bit i 1))"

definition format_bitmap :: "u32 \<Rightarrow> u8 list \<Rightarrow> u8 list result" where
  "format_bitmap bit_len buf =
     (let last_byte = unat (bit_len div 8); last_bit = unat (bit_len mod 8); last_size = 512 - last_byte mod 512;
          buf = buf[0 := buf ! 0 OR 1] in
      bindE (memset (drop last_byte buf) 0xff last_size) (\<lambda>tail.
        let buf = take last_byte buf @ tail in Inr (buf[last_byte := clear_bits [0..<last_bit + 1] (buf ! last_byte)])))"

definition partition_format :: "u8 list \<Rightarrow> partition \<Rightarrow> fsys \<Rightarrow> fsys result" where
  "partition_format pad part s =
     (let (bit_len, b) = new_super_block part;
          bb = unat (block_bitmap_sects b); ib = unat (inode_bitmap_sects b); it = unat (inode_table_sects b);
          n = unat (of_nat (max (max bb ib) it * 512) :: u32) in
      bindE (dwrite (start_lba part + 1) (sb_bytes b pad) 1 s) (\<lambda>s.
        let (buf, s) = sys_malloc_obj s in
        if buf = 0 then Inl Out_of_bounds
        else
          bindE (format_bitmap bit_len (replicate n 0)) (\<lambda>bm.
          bindE (dwrite (block_bitmap_lba b) bm bb s) (\<lambda>s.
          bindE (dwrite (inode_bitmap_lba b) (1 # replicate (n - 1) 0) ib s) (\<lambda>s.
          bindE (dwrite (inode_table_lba b)
            (pure_bytes \<lparr>i_no = 0, i_size = dir_entry_size b * 2, i_open_cnts = 0, write_deny = False,
               i_sectors = (replicate 13 0)[0 := data_start_lba b]\<rparr> @ replicate (n - 76) 0) it s) (\<lambda>s.
            dwrite (data_start_lba b) (dot_entries 0 0 @ replicate (n - 48) 0) 1 s))))))"

text \<open>\<^verbatim>\<open>mount_partition\<close> for a partition whose name is the one asked for.\<close>

definition mount :: "partition \<Rightarrow> fsys \<Rightarrow> fsys result" where
  "mount part s =
     (let (sb_buf, s) = sys_malloc_obj s; (sbp, s) = sys_malloc_obj s in
      if sbp = 0 then Inl Panicked
      else if sb_buf = 0 then Inl Out_of_bounds
      else
        bindE (dread (start_lba part + 1) 1 s) (\<lambda>buf.
          let b = sb_of buf; (bb, s) = sys_malloc_obj s in
          if bb = 0 then Inl Panicked
          else
            bindE (dread (block_bitmap_lba b) (unat (block_bitmap_sects b)) s) (\<lambda>bbits.
              let (ib, s) = sys_malloc_obj s in
              if ib = 0 then Inl Panicked
              else
                bindE (dread (inode_bitmap_lba b) (unat (inode_bitmap_sects b)) s) (\<lambda>ibits.
                  Inr (s\<lparr>part_start := start_lba part, part_cnt := sec_cnt part, sb := b,
                         block_bitmap := \<lparr>btmp_bytes_len = block_bitmap_sects b * 512, bits = bbits\<rparr>,
                         inode_bitmap := \<lparr>btmp_bytes_len = inode_bitmap_sects b * 512, bits = ibits\<rparr>,
                         open_inode := []\<rparr>)))))"

definition mount_partition :: "partition \<Rightarrow> char list \<Rightarrow> fsys \<Rightarrow> (bool \<times> fsys) result" where
  "mount_partition part name s =
     bindE (strcmp (part_name part) name) (\<lambda>r.
       if r = 0 then bindE (mount part s) (\<lambda>s. Inr (True, s)) else Inr (False, s))"

fun mount_list :: "partition list \<Rightarrow> char list \<Rightarrow> fsys \<Rightarrow> (bool \<times> fsys) result" where
  "mount_list [] name s = Inr (False, s)"
| "mount_list (p # ps) name s =
     bindE (mount_partition p name s) (\<lambda>(r, s). if r then Inr (True, s) else mount_list ps name s)"

text \<open>The partitions of the drive in turn; one without a file system gets one.\<close>

fun format_parts :: "u8 list \<Rightarrow> partition list \<Rightarrow> fsys \<Rightarrow> fsys result" where
  "format_parts pad [] s = Inr s"
| "format_parts pad (p # ps) s =
     (if sec_cnt p \<noteq> 0 then
        bindE (dread (start_lba p + 1) 1 s) (\<lambda>buf.
        bindE (if magic (sb_of buf) = 0x12345678 then Inr s else partition_format pad p s) (format_parts pad ps))
      else format_parts pad ps s)"

definition filesys_init :: "u8 list \<Rightarrow> nat \<Rightarrow> disk \<Rightarrow> partition list \<Rightarrow> fstate \<Rightarrow> fstate result" where
  "filesys_init pad channel_cnt dsk partition_list s =
     (let (sb_buf, m) = sys_malloc_obj (fs s) in
      if sb_buf = 0 then Inl Panicked
      else
        bindE (if channel_cnt > 0 then format_parts pad (prim_parts dsk @ logic_parts dsk) m else Inr m) (\<lambda>m.
        bindE (mount_list partition_list (cstr ''sdb1'') m) (\<lambda>(found, m).
          if \<not> found then Inl Out_of_bounds
          else
            bindE (open_root_dir (s\<lparr>fs := m\<rparr>)) (\<lambda>s.
              Inr (s\<lparr>fs := (fs s)\<lparr>file_table := map (\<lambda>f. f\<lparr>fd_inode := 0\<rparr>) (file_table (fs s))\<rparr>\<rparr>)))))"

section \<open>The new super block\<close>

text \<open>A partition that has room for the tables and at least eight blocks, and lies in the part of the drive the driver
  reaches with room for a bitmap of whole sectors.\<close>

definition fits :: "partition \<Rightarrow> bool" where
  "fits p \<longleftrightarrow> 620 \<le> unat (sec_cnt p) \<and> unat (start_lba p) + unat (sec_cnt p) + 4095 \<le> 163840"

definition free_sects :: "partition \<Rightarrow> nat" where
  "free_sects p = unat (sec_cnt p) - 611"

definition blocks :: "partition \<Rightarrow> nat" where
  "blocks p = free_sects p - (free_sects p + 4095) div 4096"

definition bitmap_sects :: "partition \<Rightarrow> nat" where
  "bitmap_sects p = (blocks p + 4095) div 4096"

lemma sizes:
  assumes "fits p"
  shows "8 \<le> blocks p" "1 \<le> bitmap_sects p" "bitmap_sects p \<le> 40" "611 + bitmap_sects p + blocks p \<le> unat (sec_cnt p)"
    "blocks p \<le> 4096 * bitmap_sects p" "4096 * bitmap_sects p \<le> blocks p + 4095" "free_sects p < 2 ^ 20" "blocks p < 2 ^ 20"
  using assms by (auto simp: fits_def free_sects_def blocks_def bitmap_sects_def)

lemma unat_div_up: "unat x + 4095 < 2 ^ 32 \<Longrightarrow> unat (DIV_ROUND_UP_u32 x 4096) = (unat x + 4095) div 4096"
proof -
  assume "unat x + 4095 < 2 ^ 32"
  then have "unat (4095 + x) = 4095 + unat x" by (subst unat_add_u32) simp_all
  then show ?thesis unfolding DIV_ROUND_UP_u32_def by (simp add: unat_div)
qed

lemma new_super_block_facts:
  assumes "fits p" "new_super_block p = (bit_len, b)"
  shows "unat bit_len = blocks p" "unat (block_bitmap_sects b) = bitmap_sects p" "inode_bitmap_sects b = 1" "inode_table_sects b = 608"
    "unat (start_lba p + 1) = unat (start_lba p) + 1"
    "unat (block_bitmap_lba b) = unat (start_lba p) + 2" "unat (inode_bitmap_lba b) = unat (start_lba p) + 2 + bitmap_sects p"
    "unat (inode_table_lba b) = unat (start_lba p) + 3 + bitmap_sects p" "unat (data_start_lba b) = unat (start_lba p) + 611 + bitmap_sects p"
    "root_inode_no b = 0" "dir_entry_size b = 24" "magic b = 0x12345678"
proof -
  define f where "f = sec_cnt p - 611"
  define bb where "bb = DIV_ROUND_UP_u32 (f - DIV_ROUND_UP_u32 f 4096) 4096"
  have c: "DIV_ROUND_UP_u32 4096 4096 = 1" "DIV_ROUND_UP_u32 (76 * 4096) 512 = 608" by (simp_all add: DIV_ROUND_UP_u32_def)
  have f: "unat f = free_sects p"
    using assms(1) by (simp add: f_def free_sects_def fits_def unat_sub word_le_nat_alt)
  have b1: "unat (DIV_ROUND_UP_u32 f 4096) = (free_sects p + 4095) div 4096"
    using unat_div_up [of f] f sizes(7) [OF assms(1)] by simp
  moreover have "(free_sects p + 4095) div 4096 \<le> free_sects p" using assms(1) by (auto simp: fits_def free_sects_def)
  ultimately have l: "unat (f - DIV_ROUND_UP_u32 f 4096) = blocks p" using f by (simp add: blocks_def unat_sub word_le_nat_alt)
  then have bb: "unat bb = bitmap_sects p" using unat_div_up [of "f - DIV_ROUND_UP_u32 f 4096"] sizes(8) [OF assms(1)]
    by (simp add: bb_def bitmap_sects_def)
  have e: "new_super_block p = (f - DIV_ROUND_UP_u32 f 4096,
      \<lparr>magic = 0x12345678, sb_sec_cnt = sec_cnt p, inode_cnt = 4096, part_lba_base = start_lba p,
       block_bitmap_lba = start_lba p + 2, block_bitmap_sects = bb, inode_bitmap_lba = start_lba p + 2 + bb, inode_bitmap_sects = 1,
       inode_table_lba = start_lba p + 2 + bb + 1, inode_table_sects = 608, data_start_lba = start_lba p + 2 + bb + 1 + 608,
       root_inode_no = 0, dir_entry_size = 24\<rparr>)"
    unfolding new_super_block_def c f_def bb_def by (simp add: Let_def)
  have lim: "unat (start_lba p) + 700 < 2 ^ 32" "unat bb \<le> 40" using assms(1) sizes(3) [OF assms(1)] bb by (simp_all add: fits_def)
  have a: "unat (start_lba p + 1) = unat (start_lba p) + 1" "unat (start_lba p + 2) = unat (start_lba p) + 2"
    using lim by (subst unat_add_u32, simp_all)+
  have a2: "unat (start_lba p + 2 + bb) = unat (start_lba p) + 2 + unat bb" using a lim by (subst unat_add_u32) simp_all
  have a3: "unat (start_lba p + 2 + bb + 1) = unat (start_lba p) + 3 + unat bb" using a2 lim by (subst unat_add_u32) simp_all
  have a4: "unat (start_lba p + 2 + bb + 1 + 608) = unat (start_lba p) + 611 + unat bb" using a3 lim by (subst unat_add_u32) simp_all
  show "unat bit_len = blocks p" "unat (block_bitmap_sects b) = bitmap_sects p" "inode_bitmap_sects b = 1" "inode_table_sects b = 608"
    "unat (start_lba p + 1) = unat (start_lba p) + 1"
    "unat (block_bitmap_lba b) = unat (start_lba p) + 2" "unat (inode_bitmap_lba b) = unat (start_lba p) + 2 + bitmap_sects p"
    "unat (inode_table_lba b) = unat (start_lba p) + 3 + bitmap_sects p" "unat (data_start_lba b) = unat (start_lba p) + 611 + bitmap_sects p"
    "root_inode_no b = 0" "dir_entry_size b = 24" "magic b = 0x12345678"
    using assms(2) a a2 a3 a4 l bb unfolding e by (simp_all only: prod.inject) auto
qed

lemma sb_roundtrip: "length pad = 460 \<Longrightarrow> sb_of (sb_bytes b pad) = b"
proof -
  have w: "words_of (bytes_of ws @ pad) = ws @ words_of pad" for ws
    by (induction ws) (simp_all add: bytes_of_def le32_def le32_rd32)
  show ?thesis unfolding sb_of_def sb_bytes_def w by simp
qed

section \<open>The new bitmap\<close>

lemma clear_bits_bit: "k < 8 \<Longrightarrow> bit (clear_bits is b) k \<longleftrightarrow> bit b k \<and> k \<notin> set is"
  by (induction "is" b rule: clear_bits.induct) (auto simp: bit_simps)

lemma sector_gap: "d < 512 * (q div 512 + 1) \<Longrightarrow> q < d \<Longrightarrow> d - q < 512 - q mod (512 :: nat)"
proof -
  assume "d < 512 * (q div 512 + 1)" "q < d"
  then obtain e where e: "d = q + e" "q + e < 512 * (q div 512) + 512" by (auto dest: less_imp_add_positive)
  moreover have "512 * (q div 512) + q mod 512 = q" by simp
  ultimately have "e + q mod 512 < 512" by linarith
  then show ?thesis using e(1) by (simp add: less_diff_conv)
qed

lemma format_bitmap_bytes:
  assumes "8 \<le> unat l" "unat l < 2 ^ 20"
  shows "\<exists>bm. format_bitmap l (replicate 311296 0) = Inr bm \<and> length bm = 311296 \<and>
    (\<forall>i. i div 8 < 512 * ((unat l + 4095) div 4096) \<longrightarrow> (bit (bm ! (i div 8)) (i mod 8) \<longleftrightarrow> i = 0 \<or> unat l < i))"
proof -
  define q r where "q = unat l div 8" and "r = unat l mod 8"
  have q: "unat (l div 8) = q" "unat (l mod 8) = r" by (simp_all add: q_def r_def unat_div unat_mod)
  have lim: "1 \<le> q" "q + (512 - q mod 512) \<le> 311296" "q < 311296" "unat l = 8 * q + r" "r < 8"
    using assms by (auto simp: q_def r_def)
  let ?b0 = "(replicate 311296 0)[0 := replicate 311296 0 ! 0 OR 1] :: u8 list"
  let ?bm = "take q ?b0 @ replicate (512 - q mod 512) 255 @ drop (q + (512 - q mod 512)) ?b0"
  have ms: "memset (drop q ?b0) 255 (512 - q mod 512) = Inr (replicate (512 - q mod 512) 255 @ drop (q + (512 - q mod 512)) ?b0)"
    using lim by (simp add: memset_eq add.commute)
  have f: "format_bitmap l (replicate 311296 0) = Inr (?bm[q := clear_bits [0..<r + 1] (?bm ! q)])"
    unfolding format_bitmap_def Let_def q ms by simp
  have len: "length ?bm = 311296" using lim by simp
  have "bit (?bm[q := clear_bits [0..<r + 1] (?bm ! q)] ! (i div 8)) (i mod 8) \<longleftrightarrow> i = 0 \<or> unat l < i"
    if i: "i div 8 < 512 * ((unat l + 4095) div 4096)" for i
  proof -
    have bq: "?bm ! q = 255" using lim by (simp add: nth_append)
    have "(255 :: u8) = mask 8" by (simp add: mask_eq_exp_minus_1)
    then have one: "bit (255 :: u8) k \<longleftrightarrow> k < 8" for k by (simp only: bit_mask_iff) auto
    have m8: "i mod 8 < 8" by simp
    consider "i div 8 < q" | "i div 8 = q" | "q < i div 8" by linarith
    then show ?thesis
    proof cases
      case 1
      have "?bm ! (i div 8) = (if i div 8 = 0 then 1 else 0)" using 1 lim by (simp add: nth_append)
      then have "bit (?bm ! (i div 8)) (i mod 8) \<longleftrightarrow> i div 8 = 0 \<and> i mod 8 = 0" by (simp add: bit_1_iff)
      moreover have "i < 8 * q" using 1 by linarith
      ultimately show ?thesis using 1 lim by auto
    next
      case 2
      then have "bit (?bm[q := clear_bits [0..<r + 1] (?bm ! q)] ! (i div 8)) (i mod 8) \<longleftrightarrow> r < i mod 8"
        using len lim(3) by (simp only: nth_list_update_eq clear_bits_bit [OF m8] bq one) auto
      moreover have "i = 8 * q + i mod 8" using 2 by auto
      ultimately show ?thesis using lim by auto
    next
      case 3
      have "(unat l + 4095) div 4096 = (q + 511) div 512 \<or> (unat l + 4095) div 4096 = q div 512 + 1"
        using lim by auto
      moreover have "(q + 511) div 512 \<le> q div 512 + 1" by linarith
      ultimately have "(unat l + 4095) div 4096 \<le> q div 512 + 1" by auto
      then have "i div 8 < 512 * (q div 512 + 1)" using i mult_le_mono2 [of _ _ 512] by (meson less_le_trans)
      then have "i div 8 - q < 512 - q mod 512" using 3 sector_gap by blast
      then have "?bm ! (i div 8) = 255" using 3 lim by (simp add: nth_append)
      then have "bit (?bm[q := clear_bits [0..<r + 1] (?bm ! q)] ! (i div 8)) (i mod 8)"
        using 3 one m8 by (simp only: nth_list_update_neq)
      moreover have "8 * q + 8 \<le> i" using 3 by linarith
      ultimately show ?thesis using lim by auto
    qed
  qed
  then show ?thesis using f len by auto
qed

section \<open>Formatting and mounting\<close>

lemma sectors_one: "sectors f a 1 = f a"
  by (simp add: sectors_def)

lemma last_start_le: "0 < n \<Longrightarrow> last_start a n \<le> a + n"
proof -
  have "256 * ((n - 1) div 256) \<le> n - 1" by simp
  then show ?thesis unfolding last_start_def by linarith
qed

lemma dwrite_many:
  assumes "0 < n" "unat lba + n \<le> 163839" "512 * n \<le> length bs"
  shows "dwrite lba bs n s = Inr (s\<lparr>sects := store (unat lba) (take (512 * n) bs) (sects s)\<rparr>)"
  using assms last_start_le [of n "unat lba"] by (simp add: dwrite_def)

lemma dread_many:
  assumes "0 < n" "unat lba + n \<le> 163839"
  shows "dread lba n s = Inr (sectors (sects s) (unat lba) n)"
  using assms last_start_le [of n "unat lba"] by (simp add: dread_def)

abbreviation root_inode :: "super_block \<Rightarrow> inode" where
  "root_inode b \<equiv> \<lparr>i_no = 0, i_size = dir_entry_size b * 2, i_open_cnts = 0, write_deny = False,
     i_sectors = (replicate 13 0)[0 := data_start_lba b]\<rparr>"

text \<open>The sectors of a new file system.\<close>

definition formatted :: "partition \<Rightarrow> super_block \<Rightarrow> u8 list \<Rightarrow> (nat \<Rightarrow> u8 list) \<Rightarrow> bool" where
  "formatted p b pad f \<longleftrightarrow>
     (let a = unat (start_lba p); n = bitmap_sects p in
      sectors f (a + 1) 1 = sb_bytes b pad \<and> length (sectors f (a + 2) n) = 512 * n \<and>
      (\<forall>i. i div 8 < 512 * n \<longrightarrow> (bit (sectors f (a + 2) n ! (i div 8)) (i mod 8) \<longleftrightarrow> i = 0 \<or> blocks p < i)) \<and>
      sectors f (a + 2 + n) 1 = 1 # replicate 511 0 \<and>
      take 76 (sectors f (a + 3 + n) 608) = pure_bytes (root_inode b) \<and>
      f (a + 611 + n) = dot_entries 0 0 @ replicate 464 0 \<and> full f)"

lemma length_dots: "length (dot_entries x y) = 48"
  by (simp add: dot_entries_def bytes_def le32_def)

lemma partition_format_ok:
  assumes "fits p" "new_super_block p = (l, b)" "length pad = 460" "full (sects s)" "heap s (heap_n s) \<noteq> 0"
  shows "\<exists>f. partition_format pad p s = Inr (s\<lparr>sects := f, heap_n := Suc (heap_n s)\<rparr>) \<and> formatted p b pad f"
proof -
  note nf = new_super_block_facts [OF assms(1,2)] and z = sizes [OF assms(1)]
  let ?a = "unat (start_lba p)" and ?n = "bitmap_sects p"
  have a: "?a + 4000 \<le> 163839" using assms(1) by (simp add: fits_def)
  obtain bm where bm: "format_bitmap l (replicate 311296 0) = Inr bm" "length bm = 311296"
      "\<And>i. i div 8 < 512 * ?n \<Longrightarrow> bit (bm ! (i div 8)) (i mod 8) \<longleftrightarrow> i = 0 \<or> blocks p < i"
    using format_bitmap_bytes [of l] nf(1) z(1,8) unfolding bitmap_sects_def by auto
  have n: "unat (of_nat (max (max ?n 1) 608 * 512) :: u32) = 311296"
    using z(3) by (simp add: max_def)
  define r i where "r = dot_entries 0 0 @ replicate 464 0" and "i = pure_bytes (root_inode b) @ replicate 311220 0"
  have len: "length r = 512" "length i = 311296" "length (sb_bytes b pad) = 512"
    using assms(3) by (simp_all add: r_def i_def length_dots pure_bytes_def sb_bytes_def)
  define f1 where "f1 = store (?a + 1) (sb_bytes b pad) (sects s)"
  define f2 where "f2 = store (?a + 2) (take (512 * ?n) bm) f1"
  define f3 where "f3 = store (?a + 2 + ?n) (1 # replicate 511 0) f2"
  define f4 where "f4 = store (?a + 3 + ?n) i f3"
  define f5 where "f5 = store (?a + 611 + ?n) r f4"
  have w1: "dwrite (start_lba p + 1) (sb_bytes b pad) 1 s = Inr (s\<lparr>sects := f1\<rparr>)"
    using dwrite_many [of 1 "start_lba p + 1" "sb_bytes b pad" s] nf(5) a len by (simp add: f1_def)
  have w2: "dwrite (block_bitmap_lba b) bm ?n t = Inr (t\<lparr>sects := f2\<rparr>)" if "sects t = f1" for t
    using dwrite_many [of ?n "block_bitmap_lba b" bm t] nf(6) a bm(2) z(2,3) that by (simp add: f2_def)
  have w3: "dwrite (inode_bitmap_lba b) (1 # replicate 311295 0) 1 t = Inr (t\<lparr>sects := f3\<rparr>)" if "sects t = f2" for t
    using dwrite_many [of 1 "inode_bitmap_lba b" "1 # replicate 311295 0" t] nf(7) a z(2,3) that by (simp add: f3_def take_Cons')
  have w4: "dwrite (inode_table_lba b) i 608 t = Inr (t\<lparr>sects := f4\<rparr>)" if "sects t = f3" for t
    using dwrite_many [of 608 "inode_table_lba b" i t] nf(8) a z(2,3) len that by (simp add: f4_def)
  have w5: "dwrite (data_start_lba b) (dot_entries 0 0 @ replicate 311248 0) 1 t = Inr (t\<lparr>sects := f5\<rparr>)" if "sects t = f4" for t
    using dwrite_many [of 1 "data_start_lba b" "dot_entries 0 0 @ replicate 311248 0" t] nf(9) a z(2,3) that
    by (simp add: f5_def r_def length_dots)
  have one: "unat (1 :: u32) = 1" "unat (608 :: u32) = 608" by simp_all
  have sub: "311296 - 1 = (311295 :: nat)" "311296 - 76 = (311220 :: nat)" "311296 - 48 = (311248 :: nat)" by simp_all
  have "partition_format pad p s = Inr (s\<lparr>sects := f5, heap_n := Suc (heap_n s)\<rparr>)"
    unfolding partition_format_def assms(2) Let_def prod.case nf(2,3,4) one n w1 sub
    using assms(5) bm(1) by (simp add: sys_malloc_obj_def w2 w3 [unfolded One_nat_def] w4 [unfolded i_def] w5 [unfolded One_nat_def])
  moreover have "formatted p b pad f5"
  proof -
    have l: "length (take (512 * ?n) bm) div 512 = ?n" "length i div 512 = 608" "length r div 512 = 1" "512 * ?n \<le> length bm"
      using len z(3) bm(2) by simp_all
    have c5: "sectors f5 (?a + 611 + ?n) 1 = r" unfolding f5_def by (rule sectors_store) (simp add: len)
    have c4: "sectors f5 (?a + 3 + ?n) 608 = i"
      unfolding f5_def using sectors_other [of "?a + 3 + ?n" 608 "?a + 611 + ?n" r f4] sectors_store [of i 608 "?a + 3 + ?n" f3] len
      by (simp add: f4_def)
    have c3: "sectors f5 (?a + 2 + ?n) 1 = 1 # replicate 511 0"
      unfolding f5_def f4_def f3_def using l sectors_store [of "1 # replicate 511 0" 1 "?a + 2 + ?n" f2]
      by (simp add: sectors_other)
    have c2: "sectors f5 (?a + 2) ?n = take (512 * ?n) bm"
      unfolding f5_def f4_def f3_def f2_def using l sectors_store [of "take (512 * ?n) bm" ?n "?a + 2" f1]
      by (simp add: sectors_other)
    have c1: "sectors f5 (?a + 1) 1 = sb_bytes b pad"
      unfolding f5_def f4_def f3_def f2_def f1_def using l len sectors_store [of "sb_bytes b pad" 1 "?a + 1" "sects s"]
      by (simp add: sectors_other)
    have fl: "full f5" unfolding f5_def f4_def f3_def f2_def f1_def using assms(4) by (intro full_store)
    have "f5 (?a + 611 + ?n) = r" using c5 by (simp only: sectors_one)
    moreover have "take 76 i = pure_bytes (root_inode b)" by (simp add: i_def pure_bytes_def)
    ultimately show ?thesis unfolding formatted_def Let_def c1 c2 c3 c4 using fl l(4) bm(3) by (simp add: r_def)
  qed
  ultimately show ?thesis by blast
qed

lemma mount_ok:
  assumes "fits p" "new_super_block p = (l, b)" "length pad = 460" "formatted p b pad (sects s)" "\<forall>k<4. heap s (heap_n s + k) \<noteq> 0"
  shows "\<exists>t. mount p s = Inr t \<and> sects t = sects s \<and> sb t = b \<and> part_start t = start_lba p \<and> part_cnt t = sec_cnt p \<and> open_inode t = [] \<and>
    heap t = heap s \<and> heap_n t = heap_n s + 4 \<and> inode_bitmap t = \<lparr>btmp_bytes_len = 512, bits = 1 # replicate 511 0\<rparr> \<and>
    block_bitmap t = \<lparr>btmp_bytes_len = of_nat (512 * bitmap_sects p), bits = sectors (sects s) (unat (start_lba p) + 2) (bitmap_sects p)\<rparr>"
proof -
  note nf = new_super_block_facts [OF assms(1,2)] and z = sizes [OF assms(1)]
  have a: "unat (start_lba p) + 4000 \<le> 163839" using assms(1) by (simp add: fits_def)
  have r1: "dread (start_lba p + 1) 1 t = Inr (sb_bytes b pad)" if "sects t = sects s" for t
    using dread_many [of 1 "start_lba p + 1" t] nf(5) a that assms(4) by (simp add: formatted_def Let_def)
  have r2: "dread (block_bitmap_lba b) (bitmap_sects p) t = Inr (sectors (sects s) (unat (start_lba p) + 2) (bitmap_sects p))"
    if "sects t = sects s" for t
    using dread_many [of "bitmap_sects p" "block_bitmap_lba b" t] nf(6) a z(2,3) that by simp
  have r3: "dread (inode_bitmap_lba b) 1 t = Inr (1 # replicate 511 0)" if "sects t = sects s" for t
    using dread_many [of 1 "inode_bitmap_lba b" t] nf(7) a z(2,3) that assms(4) by (simp add: formatted_def Let_def)
  have h: "heap s (heap_n s) \<noteq> 0" "heap s (Suc (heap_n s)) \<noteq> 0" "heap s (Suc (Suc (heap_n s))) \<noteq> 0" "heap s (Suc (Suc (Suc (heap_n s)))) \<noteq> 0"
    using assms(5) [rule_format, of 0] assms(5) [rule_format, of 1] assms(5) [rule_format, of 2] assms(5) [rule_format, of 3]
    by (simp_all add: numeral_eq_Suc)
  have m: "unat (block_bitmap_sects b * 512) = 512 * bitmap_sects p"
    using nf(2) z(3) by (subst unat_mult_u32) simp_all
  then have m': "block_bitmap_sects b * 512 = of_nat (512 * bitmap_sects p)" by (metis unat_of_nat_u32 unat_lt word_unat_eq_iff)
  have four: "heap_n s + 4 = Suc (Suc (Suc (Suc (heap_n s))))" by simp
  show ?thesis
    unfolding mount_def sys_malloc_obj_def
    using h r1 [unfolded One_nat_def] r2 r3 [unfolded One_nat_def] nf(2,3) m sb_roundtrip [OF assms(3), of b] four m' by simp
qed

lemma dot_sector: "dot_entries x y @ replicate 464 0 = sector [mk_de ''.'' x 2, mk_de ''..'' y 2]"
proof -
  have "mk_de ''.'' x 2 @ mk_de ''..'' y 2 = dot_entries x y" by (simp add: mk_de_def dot_entries_def bytes_def)
  then show ?thesis by (simp add: sector_def)
qed

lemma dot_slots: "slots (dot_entries x y @ replicate 464 0) = [mk_de ''.'' x 2, mk_de ''..'' y 2] @ replicate 19 no_entry"
  unfolding dot_sector using slots_sector [of "[mk_de ''.'' x 2, mk_de ''..'' y 2]"] by (simp add: mk_de_facts)

text \<open>A file system that has just been made and mounted.\<close>

definition fresh_fs :: "partition \<Rightarrow> fsys \<Rightarrow> bool" where
  "fresh_fs p t \<longleftrightarrow> layout t \<and> part_start t = start_lba p \<and> part_cnt t = sec_cnt p \<and> open_inode t = [] \<and>
     data_start t = unat (start_lba p) + 611 + bitmap_sects p \<and> bm_cap (block_bitmap t) = 4096 * bitmap_sects p \<and>
     (\<forall>j<bm_cap (block_bitmap t). bm_used (block_bitmap t) j \<longleftrightarrow> j = 0 \<or> blocks p < j)"

definition fresh_root :: "fsys \<Rightarrow> bool" where
  "fresh_root t \<longleftrightarrow> (\<exists>r. load_inode 0 t = Inr r \<and> i_no r = 0 \<and> small_dir r t \<and> well_named r t \<and>
     entries r t = [mk_de ''.'' 0 2, mk_de ''..'' 0 2])"

lemma format_mount_state:
  assumes "fits p" "length pad = 460" "full (sects s)" "\<forall>k<5. heap s (heap_n s + k) \<noteq> 0"
  shows "\<exists>u t. partition_format pad p s = Inr u \<and> mount p u = Inr t \<and> fresh_fs p t \<and> fresh_root t"
proof -
  obtain l b where nb: "new_super_block p = (l, b)" by force
  note nf = new_super_block_facts [OF assms(1) nb] and z = sizes [OF assms(1)]
  have h: "heap s (heap_n s) \<noteq> 0" "\<forall>k<4. heap s (Suc (heap_n s) + k) \<noteq> 0"
    using assms(4) [rule_format, of 0] assms(4) [rule_format, of "Suc _"] by auto
  obtain f where f: "partition_format pad p s = Inr (s\<lparr>sects := f, heap_n := Suc (heap_n s)\<rparr>)" "formatted p b pad f"
    using partition_format_ok [OF assms(1) nb assms(2,3) h(1)] by blast
  let ?u = "s\<lparr>sects := f, heap_n := Suc (heap_n s)\<rparr>"
  obtain t where t: "mount p ?u = Inr t" "sects t = f" "sb t = b" "part_start t = start_lba p" "part_cnt t = sec_cnt p" "open_inode t = []"
      "block_bitmap t = \<lparr>btmp_bytes_len = of_nat (512 * bitmap_sects p), bits = sectors f (unat (start_lba p) + 2) (bitmap_sects p)\<rparr>"
    using mount_ok [OF assms(1) nb assms(2), of ?u] f(2) h(2) by auto
  have len: "unat (btmp_bytes_len (block_bitmap t)) = 512 * bitmap_sects p" "512 * bitmap_sects p < 2 ^ 28"
    unfolding t(7) bitmap.select_convs using z(3) unat_of_nat_u32 [of "512 * bitmap_sects p"] by simp_all
  then have cap: "bm_cap (block_bitmap t) = 4096 * bitmap_sects p" by (simp add: bm_cap_def)
  have ff: "full f" "f (data_start t) = dot_entries 0 0 @ replicate 464 0"
    using f(2) nf(9) t(3) by (simp_all add: formatted_def Let_def)
  have used: "bm_used (block_bitmap t) j \<longleftrightarrow> j = 0 \<or> blocks p < j" if "j < bm_cap (block_bitmap t)" for j
  proof -
    have "j div 8 < 512 * bitmap_sects p" using that unfolding cap by linarith
    then show ?thesis using f(2) unfolding bm_used_def t(7) by (simp add: formatted_def Let_def)
  qed
  have lay: "layout t"
  proof -
    have "table_ok t" using ff(1) t(2-5) nf(8) z(1,3,4) assms(1) by (simp add: table_ok_def fits_def)
    moreover have "bm_wf (block_bitmap t)" using f(2) t(7) len by (simp add: bm_wf_def formatted_def Let_def del: of_nat_mult)
    moreover have "bm_used (block_bitmap t) 0" using used [of 0] cap z(2) by simp
    ultimately show ?thesis using t(3) len cap nf(6,8,9) z assms(1) by (simp add: layout_def fits_def)
  qed
  have "load_inode 0 t = Inr (root_inode b)"
  proof -
    have tt: "table t = sectors f (unat (start_lba p) + 3 + bitmap_sects p) (608 + 1)" using t(2,3) nf(8) by (simp add: table_def)
    have "slot 0 t = pure_bytes (root_inode b)"
      using f(2) length_sectors [OF ff(1)] unfolding slot_def tt sectors_add by (simp add: formatted_def Let_def)
    moreover have "table_ok t" using lay by (simp add: layout_def)
    ultimately show ?thesis using load_slot [of t 0] pure_bytes_of(2) [of "root_inode b"] by simp
  qed
  moreover have "small_dir (root_inode b) t \<and> well_named (root_inode b) t \<and> entries (root_inode b) t = [mk_de ''.'' 0 2, mk_de ''..'' 0 2]"
  proof -
    have sec: "take 12 (i_sectors (root_inode b)) = data_start_lba b # replicate 11 0" "i_sectors (root_inode b) ! 12 = 0"
      by (simp_all add: numeral_eq_Suc)
    have nz: "data_start_lba b \<noteq> 0" using nf(9) by auto
    have ent: "entries (root_inode b) t = [mk_de ''.'' 0 2, mk_de ''..'' 0 2]"
      unfolding entries_def dir_ab_def sec using ff(2) t(2,3) nz dot_slots [of 0 0]
      by (simp add: filter_replicate) (simp add: in_use_def mk_de_facts)
    have "sector_ok (f (data_start t))"
      unfolding sector_ok_def ff(2) dot_slots by (simp add: length_dots mk_de_facts no_entry_name)
    then show ?thesis using ent lay sec nz nf(11) t(2,3) by (simp add: small_dir_def well_named_def dir_block_def)
  qed
  ultimately have "fresh_root t" unfolding fresh_root_def by auto
  moreover have "fresh_fs p t" using lay t cap used nf(9) by (simp add: fresh_fs_def)
  ultimately show ?thesis using f(1) t(1) by blast
qed

text \<open>C7: Formatting a partition and mounting it establishes the invariant that the operations on files and directories
  need: the areas on disk are disjoint and in range, the bitmap marks as taken the root directory's block and, except for the first
  of them, the blocks beyond the partition, and the root directory has the entries \<^verbatim>\<open>.\<close> and \<^verbatim>\<open>..\<close>.\<close>

theorem format_mount:
  assumes "fits p" "length pad = 460" "full (sects s)" "\<forall>k<5. heap s (heap_n s + k) \<noteq> 0"
  shows "\<exists>u t. partition_format pad p s = Inr u \<and> mount p u = Inr t \<and> layout t \<and> fresh_fs p t \<and> fresh_root t"
  using format_mount_state [OF assms] by (auto simp: fresh_fs_def)

definition demo_part :: partition where
  "demo_part = \<lparr>start_lba = 100, sec_cnt = 4000, my_disk = (0, 1), part_name = cstr ''sdb1''\<rparr>"

lemma demo_heap: "\<forall>k<5. heap demo_fs (heap_n demo_fs + k) \<noteq> 0"
proof (intro allI impI)
  fix k :: nat assume "k < 5"
  then have "k \<in> {0, 1, 2, 3, 4}" by auto
  then show "heap demo_fs (heap_n demo_fs + k) \<noteq> 0" by (auto simp: demo_fs_def)
qed

lemma demo_fits: "fits demo_part" "full (sects demo_fs)"
  by (simp_all add: fits_def demo_part_def demo_fs_def full_def)

theorem format_mount_witness:
  "\<exists>u t. partition_format (replicate 460 0) demo_part demo_fs = Inr u \<and> mount demo_part u = Inr t \<and> layout t"
  using format_mount [OF demo_fits(1) _ demo_fits(2) demo_heap, of "replicate 460 0"] by auto

text \<open>The bitmap of a new file system offers one block too many: the loop that clears the bits of the last byte runs
  one bit too far, and unless the number of blocks is a multiple of 4096 the block it frees is the first sector
  behind the partition.\<close>

theorem format_overcommits:
  assumes "fits p" "length pad = 460" "full (sects s)" "\<forall>k<5. heap s (heap_n s + k) \<noteq> 0"
    "bitmap_sects p = (free_sects p + 4095) div 4096" "blocks p mod 4096 \<noteq> 0"
  shows "\<exists>u t. partition_format pad p s = Inr u \<and> mount p u = Inr t \<and>
    blocks p < bm_cap (block_bitmap t) \<and> \<not> bm_used (block_bitmap t) (blocks p) \<and>
    data_start t + blocks p = unat (part_start t) + unat (part_cnt t)"
proof -
  obtain u t where t: "partition_format pad p s = Inr u" "mount p u = Inr t" "fresh_fs p t" using format_mount_state [OF assms(1-4)] by blast
  have "blocks p \<noteq> 4096 * bitmap_sects p" using assms(6) by (metis mod_mult_self1_is_0)
  then have lt: "blocks p < bm_cap (block_bitmap t)" using t(3) sizes(5) [OF assms(1)] by (simp add: fresh_fs_def)
  have "\<not> bm_used (block_bitmap t) (blocks p)" using t(3) lt sizes(1) [OF assms(1)] by (auto simp: fresh_fs_def)
  moreover have "611 + bitmap_sects p + blocks p = unat (sec_cnt p)"
    using assms(1,5) by (auto simp: blocks_def free_sects_def fits_def)
  ultimately show ?thesis using t lt by (auto simp: fresh_fs_def)
qed

theorem format_overcommits_witness:
  "\<exists>u t. partition_format (replicate 460 0) demo_part demo_fs = Inr u \<and> mount demo_part u = Inr t \<and>
     \<not> bm_used (block_bitmap t) 3388"
proof -
  have b: "blocks demo_part = 3388" "bitmap_sects demo_part = (free_sects demo_part + 4095) div 4096"
    by (simp_all add: blocks_def free_sects_def bitmap_sects_def demo_part_def)
  then show ?thesis using format_overcommits [OF demo_fits(1) _ demo_fits(2) demo_heap b(2), of "replicate 460 0"] by auto
qed

end
