(* ===== verification/Lookup.thy ===== *)
theory Lookup
  imports Fs DirEntries
begin

text \<open>
  Resolving a path. The abstract reading is a walk over the directories on disk, one component at a time; \<open>search_file\<close>
  performs it by opening and closing directories, and the reference counts of the open inodes come out right.
\<close>

section \<open>Open inodes\<close>

text \<open>\<open>refs\<close> lists the references to open inodes, one entry for each: every open inode is counted as often as it
  is referred to, and agrees with its copy on disk.\<close>

definition opened :: "u32 list \<Rightarrow> fsys \<Rightarrow> bool" where
  "opened refs s \<longleftrightarrow> table_ok s \<and> distinct (open_inode s) \<and> set (open_inode s) = set refs \<and>
     (\<forall>a\<in>set refs. unat (i_open_cnts (core s a)) = count_list refs a \<and> load_inode (i_no (core s a)) s = Inr (at_rest (core s a)))"

text \<open>What \<^verbatim>\<open>sys_malloc\<close> gives in the next \<open>k\<close> calls: addresses that are not in use, and no address twice.\<close>

definition stock :: "u32 \<Rightarrow> nat \<Rightarrow> fsys \<Rightarrow> bool" where
  "stock r k s \<longleftrightarrow> (\<forall>n\<in>{heap_n s..<heap_n s + k}. heap s n \<noteq> 0 \<and> heap s n \<notin> set (open_inode s) \<and> heap s n \<noteq> r) \<and>
     inj_on (heap s) {heap_n s..<heap_n s + k}"

text \<open>What opening and closing leave alone.\<close>

definition same_disk :: "fsys \<Rightarrow> fsys \<Rightarrow> bool" where
  "same_disk s t \<longleftrightarrow> sects t = sects s \<and> sb t = sb s \<and> part_start t = part_start s \<and> part_cnt t = part_cnt s \<and>
     block_bitmap t = block_bitmap s \<and> inode_bitmap t = inode_bitmap s \<and> heap t = heap s \<and>
     file_table t = file_table s \<and> fd_table t = fd_table s"

lemma same_disk_refl [simp]: "same_disk s s"
  by (simp add: same_disk_def)

lemma same_disk_trans: "same_disk s t \<Longrightarrow> same_disk t u \<Longrightarrow> same_disk s u"
  by (simp add: same_disk_def)

lemma dread_same: "sects t = sects s \<Longrightarrow> dread b n t = dread b n s"
  by (simp add: dread_def)

lemma load_inode_same: "same_disk s t \<Longrightarrow> load_inode n t = load_inode n s"
  by (simp add: load_inode_def inode_locate_def same_disk_def dread_def Let_def)

lemma table_ok_same: "same_disk s t \<Longrightarrow> table_ok t = table_ok s"
  by (simp add: table_ok_def same_disk_def)

lemma stock_mono: "stock r k s \<Longrightarrow> j \<le> k \<Longrightarrow> stock r j s"
  by (auto simp: stock_def inj_on_def)

lemma stock_step: "stock r (Suc k) s \<Longrightarrow> stock r k (s\<lparr>heap_n := Suc (heap_n s)\<rparr>)"
  by (auto simp: stock_def inj_on_def)

lemma stock_now: "stock r (Suc k) s \<Longrightarrow> heap s (heap_n s) \<noteq> 0 \<and> heap s (heap_n s) \<notin> set (open_inode s) \<and> heap s (heap_n s) \<noteq> r"
  by (simp add: stock_def)

lemma opened_heap: "opened refs s \<Longrightarrow> opened refs (s\<lparr>heap_n := n\<rparr>)"
proof -
  assume o: "opened refs s"
  have "same_disk s (s\<lparr>heap_n := n\<rparr>)" by (simp add: same_disk_def)
  then show ?thesis using o load_inode_same [of s "s\<lparr>heap_n := n\<rparr>"] table_ok_same [of s "s\<lparr>heap_n := n\<rparr>"] by (simp add: opened_def)
qed

lemma find_open_Some: "find_open no as s = Some a \<Longrightarrow> a \<in> set as \<and> i_no (core s a) = no"
  by (induction as) (auto split: if_splits)

lemma inode_open_ok:
  assumes "opened refs s" "stock r (Suc (Suc k)) s" "length refs < 2 ^ 32 - 1" "load_inode no s = Inr i" "at_rest i = i" "i_no i = no"
  shows "\<exists>a t. inode_open no s = Inr (a, t) \<and> opened (a # refs) t \<and> stock r k t \<and> same_disk s t \<and> at_rest (core t a) = i \<and>
    (\<forall>b\<in>set refs. at_rest (core t b) = at_rest (core s b)) \<and> heap_n t \<ge> heap_n s"
proof (cases "find_open no (open_inode s) s")
  case (Some a)
  let ?t = "set_core a (\<lambda>i. i\<lparr>i_open_cnts := i_open_cnts i + 1\<rparr>) s"
  have a: "a \<in> set refs" "i_no (core s a) = no" using find_open_Some [OF Some] assms(1) by (simp_all add: opened_def)
  have sd: "same_disk s ?t" by (simp add: same_disk_def set_core_def)
  have c: "unat (i_open_cnts (core s a)) = count_list refs a" "at_rest (core s a) = i"
    using assms(1,4) a by (auto simp: opened_def)
  have "unat (i_open_cnts (core s a) + 1) = count_list refs a + 1"
    using c(1) count_le_length [of refs a] assms(3) by (subst unat_add_u32) simp_all
  then have "opened (a # refs) ?t"
    using assms(1) a(1) load_inode_same [OF sd] table_ok_same [OF sd] by (auto simp: opened_def set_core_def)
  moreover have "stock r k ?t" using stock_mono [OF assms(2), of k] by (simp add: stock_def set_core_def)
  moreover have "at_rest (core ?t b) = at_rest (core s b)" for b by (simp add: set_core_def)
  moreover have "heap_n ?t = heap_n s" by (simp add: set_core_def)
  ultimately show ?thesis using Some c(2) sd by (intro exI [of _ a] exI [of _ ?t]) (simp add: inode_open_def)
next
  case None
  let ?a = "heap s (heap_n s)"
  let ?t = "s\<lparr>heap_n := heap_n s + 2, core := (core s)(?a := i\<lparr>i_open_cnts := 1\<rparr>), open_inode := ?a # open_inode s\<rparr>"
  have n: "?a \<noteq> 0" "?a \<notin> set (open_inode s)" "heap s (Suc (heap_n s)) \<noteq> 0"
    using stock_now [OF assms(2)] stock_now [OF stock_step [OF assms(2)]] by simp_all
  have sd: "same_disk s ?t" by (simp add: same_disk_def)
  have nr: "?a \<notin> set refs" using n(2) assms(1) by (simp add: opened_def)
  then have cnt: "count_list refs ?a = 0" by simp
  have e: "inode_open no s = Inr (?a, ?t)" using None assms(4) n by (simp add: inode_open_def sys_malloc_obj_def)
  have "opened (?a # refs) ?t"
    using assms(1,4-6) nr cnt n load_inode_same [OF sd] table_ok_same [OF sd] by (auto simp: opened_def)
  moreover have "stock r k ?t"
  proof -
    have "heap s n \<noteq> ?a" if "heap_n s + 2 \<le> n" "n < heap_n s + 2 + k" for n
      using assms(2) that inj_onD [of "heap s" "{heap_n s..<heap_n s + Suc (Suc k)}" n "heap_n s"] by (auto simp: stock_def)
    then show ?thesis using assms(2) by (auto simp: stock_def inj_on_def)
  qed
  moreover have "at_rest (core ?t ?a) = i" using assms(5) by simp
  moreover have "\<forall>b\<in>set refs. at_rest (core ?t b) = at_rest (core s b)" using nr by auto
  ultimately show ?thesis using e sd by auto
qed

lemma inode_close_ok:
  assumes "opened (a # refs) s" "stock r k s" "length refs < 2 ^ 32 - 1"
  shows "opened refs (inode_close a s)" "stock r k (inode_close a s)" "same_disk s (inode_close a s)"
    "at_rest (core (inode_close a s) b) = at_rest (core s b)"
proof -
  let ?t = "inode_close a s"
  have c: "unat (i_open_cnts (core s a)) = count_list refs a + 1" using assms(1) by (auto simp: opened_def)
  have lim: "count_list refs a < 2 ^ 32 - 1" using count_le_length [of refs a] assms(3) by simp
  have d: "unat (i_open_cnts (core s a) - 1) = count_list refs a" using c by (subst unat_sub) (simp_all add: word_le_nat_alt)
  then have z: "i_open_cnts (core s a) - 1 = 0 \<longleftrightarrow> a \<notin> set refs" by (metis count_notin count_list_0_iff unat_eq_zero)
  show sd: "same_disk s ?t" by (simp add: inode_close_def set_core_def same_disk_def Let_def)
  show "at_rest (core ?t b) = at_rest (core s b)" by (simp add: inode_close_def set_core_def Let_def)
  show "stock r k ?t" using assms(2) set_remove1_subset [of a "open_inode s"] unfolding stock_def inode_close_def Let_def
    by (auto simp: set_core_def)
  show "opened refs ?t"
    using assms(1) z d load_inode_same [OF sd] table_ok_same [OF sd] unfolding opened_def inode_close_def Let_def
    by (auto simp: set_core_def)
qed

section \<open>Directories\<close>

text \<open>\<open>refs\<close> and the reference of an open directory; the root directory is open all the time.\<close>

definition hold :: "fstate \<Rightarrow> u32 \<Rightarrow> u32 list \<Rightarrow> u32 list" where
  "hold s d refs = (if d = root_dir s then refs else dir_inode (dirs s d) # refs)"

definition same_state :: "fstate \<Rightarrow> fstate \<Rightarrow> bool" where
  "same_state s t \<longleftrightarrow> same_disk (fs s) (fs t) \<and> root_dir t = root_dir s \<and> cwd_inode_nr t = cwd_inode_nr s \<and> dirs t (root_dir s) = dirs s (root_dir s)"

lemma same_state_refl [simp]: "same_state s s"
  by (simp add: same_state_def)

lemma same_state_trans: "same_state s t \<Longrightarrow> same_state t u \<Longrightarrow> same_state s u"
  by (auto simp: same_state_def intro: same_disk_trans)

text \<open>A directory is open, with the number \<open>no\<close>.\<close>

definition at_dir :: "u32 list \<Rightarrow> nat \<Rightarrow> fstate \<Rightarrow> u32 \<Rightarrow> u32 \<Rightarrow> bool" where
  "at_dir refs k s d no \<longleftrightarrow> opened (hold s d refs) (fs s) \<and> stock (root_dir s) k (fs s) \<and>
     dir_inode (dirs s (root_dir s)) \<in> set refs \<and> length refs < 2 ^ 31 \<and> i_no (dir_core (root_dir s) s) = 0 \<and> i_no (dir_core d s) = no"

text \<open>No directory but the root is open.\<close>

definition at_rest_dirs :: "u32 list \<Rightarrow> nat \<Rightarrow> fstate \<Rightarrow> bool" where
  "at_rest_dirs refs k s \<longleftrightarrow> opened refs (fs s) \<and> stock (root_dir s) k (fs s) \<and>
     dir_inode (dirs s (root_dir s)) \<in> set refs \<and> length refs < 2 ^ 31 \<and> i_no (dir_core (root_dir s) s) = 0"

lemma at_dir_inode: "at_dir refs k s d no \<Longrightarrow> dir_inode (dirs s d) \<in> set (hold s d refs)"
  by (auto simp: at_dir_def hold_def)

lemma at_dir_load: "at_dir refs k s d no \<Longrightarrow> load_inode no (fs s) = Inr (at_rest (dir_core d s))"
  using at_dir_inode [of refs k s d no] by (auto simp: at_dir_def opened_def dir_core_def)

lemma dir_close_ok:
  assumes "at_dir refs k s d no"
  shows "at_rest_dirs refs k (dir_close d s)" "same_state s (dir_close d s)"
proof -
  show "at_rest_dirs refs k (dir_close d s)"
  proof (cases "d = root_dir s")
    case True
    then show ?thesis using assms by (simp add: dir_close_def at_dir_def hold_def at_rest_dirs_def)
  next
    case False
    then have "opened (dir_inode (dirs s d) # refs) (fs s)" "stock (root_dir s) k (fs s)" "length refs < 2 ^ 32 - 1"
      using assms by (simp_all add: at_dir_def hold_def)
    note cl = inode_close_ok [OF this]
    have "i_no (core (inode_close (dir_inode (dirs s d)) (fs s)) b) = i_no (core (fs s) b)" for b using arg_cong [OF cl(4), of i_no b] by simp
    then show ?thesis using cl False assms by (simp add: dir_close_def at_dir_def at_rest_dirs_def dir_core_def)
  qed
  show "same_state s (dir_close d s)"
    by (simp add: dir_close_def same_state_def same_disk_def inode_close_def set_core_def Let_def)
qed

lemma dir_open_ok:
  assumes "at_rest_dirs refs (k + 3) s" "load_inode no (fs s) = Inr i" "at_rest i = i" "i_no i = no"
  shows "\<exists>d t. dir_open no s = Inr (d, t) \<and> at_dir refs k t d no \<and> same_state s t \<and> d \<noteq> root_dir s \<and> d \<noteq> 0"
proof -
  let ?m = "(fs s)\<lparr>heap_n := Suc (heap_n (fs s))\<rparr>" and ?d = "heap (fs s) (heap_n (fs s))"
  have st: "opened refs ?m" "stock (root_dir s) (Suc (Suc k)) ?m" "length refs < 2 ^ 32 - 1" "?d \<noteq> 0" "?d \<noteq> root_dir s"
  proof -
    have "stock (root_dir s) (Suc (Suc (Suc k))) (fs s)" using assms(1) by (simp add: at_rest_dirs_def numeral_3_eq_3)
    note stock_step [OF this] stock_now [OF this]
    then show "opened refs ?m" "stock (root_dir s) (Suc (Suc k)) ?m" "length refs < 2 ^ 32 - 1" "?d \<noteq> 0" "?d \<noteq> root_dir s"
      using assms(1) opened_heap [of refs "fs s"] by (simp_all add: at_rest_dirs_def)
  qed
  have "same_disk (fs s) ?m" by (simp add: same_disk_def)
  then have "load_inode no ?m = Inr i" using load_inode_same assms(2) by simp
  from inode_open_ok [OF st(1-3) this assms(3,4)]
  obtain a m where m: "inode_open no ?m = Inr (a, m)" "opened (a # refs) m" "stock (root_dir s) k m" "same_disk ?m m" "at_rest (core m a) = i"
      "\<And>b. b \<in> set refs \<Longrightarrow> at_rest (core m b) = at_rest (core ?m b)"
    by blast
  let ?t = "s\<lparr>fs := m, dirs := (dirs s)(?d := (dirs s ?d)\<lparr>dir_inode := a, dir_pos := 0\<rparr>)\<rparr>"
  have op: "dir_open no s = Inr (?d, ?t)" using m(1) st(4) by (simp add: dir_open_def sys_malloc_obj_def)
  have "i_no (core m a) = no" using m(5) assms(4) by auto
  moreover have "i_no (core m (dir_inode (dirs s (root_dir s)))) = 0"
    using arg_cong [OF m(6), of "dir_inode (dirs s (root_dir s))" i_no] assms(1) by (simp add: at_rest_dirs_def dir_core_def)
  ultimately have "at_dir refs k ?t ?d no"
    using m(2,3) st(5) assms(1) by (simp add: at_dir_def hold_def at_rest_dirs_def dir_core_def)
  moreover have "same_state s ?t" using m(4) st(5) by (simp add: same_state_def same_disk_def)
  ultimately show ?thesis using op st(4,5) by blast
qed

section \<open>The walk\<close>

text \<open>The entry of a directory with a name, and the walk along a list of names: the number found or -1, the type, the
  number of the directory that holds it, and how many names were used. A walk that meets a file ends there.\<close>

definition lookup :: "fsys \<Rightarrow> u32 \<Rightarrow> char list \<Rightarrow> u8 list option" where
  "lookup s d nm = (case load_inode d s of Inl _ \<Rightarrow> None | Inr i \<Rightarrow> find (\<lambda>e. ename e = nm) (dir_slots (dir_ab i s) s))"

fun walk :: "fsys \<Rightarrow> u32 \<Rightarrow> u32 \<Rightarrow> char list list \<Rightarrow> u32 \<times> u32 \<times> u32 \<times> nat" where
  "walk s par d [] = (d, FT_DIRECTORY, par, 0)"
| "walk s par d (c # cs) =
     (case lookup s d c of
        None \<Rightarrow> (-1, FT_UNKNOWN, d, 1)
      | Some e \<Rightarrow>
          if de_f_type e = FT_DIRECTORY
          then let (r, ft, p, n) = walk s d (de_i_no e) cs in (r, ft, p, Suc n)
          else (de_i_no e, FT_REGULAR, d, 1))"

text \<open>The directories on disk, with numbers in \<open>ds\<close>: each is well formed and its entries lead to directories or files.\<close>

definition dirs_ok :: "u32 set \<Rightarrow> fsys \<Rightarrow> bool" where
  "dirs_ok ds s \<longleftrightarrow> 0 \<in> ds \<and>
     (\<forall>d\<in>ds. \<exists>i. load_inode d s = Inr i \<and> at_rest i = i \<and> i_no i = d \<and> dir_ok i s \<and>
        (\<forall>e\<in>set (dir_slots (dir_ab i s) s). ename e \<noteq> [] \<longrightarrow>
           de_f_type e = FT_REGULAR \<or> de_f_type e = FT_DIRECTORY \<and> de_i_no e \<in> ds))"

section \<open>Searching one directory\<close>

lemma dir_ok_same: "same_disk s t \<Longrightarrow> i_sectors i = i_sectors j \<Longrightarrow> dir_ok i t = dir_ok j s"
  by (simp add: dir_ok_def dir_ab_def same_disk_def)

lemma dir_slots_same: "same_disk s t \<Longrightarrow> i_sectors i = i_sectors j \<Longrightarrow> dir_slots (dir_ab i t) t = dir_slots (dir_ab j s) s"
  by (simp add: dir_slots_def dir_ab_def same_disk_def)

lemma takeWhile_shorter: "c \<in> set xs \<Longrightarrow> length (takeWhile (\<lambda>x. x \<noteq> c) xs) < length xs"
  by (induction xs) auto

lemma length_slot: "dir_ok i s \<Longrightarrow> e \<in> set (dir_slots (dir_ab i s) s) \<Longrightarrow> length e = 24 \<and> length (ename e) < 16"
proof -
  assume "dir_ok i s" "e \<in> set (dir_slots (dir_ab i s) s)"
  then obtain buf where b: "sector_ok buf" "e \<in> set (slots buf)" by (auto simp: dir_slots_def dir_ok_def)
  then have "length e = 24" by (auto simp: slots_def sector_ok_def de_def)
  moreover have "NUL \<in> set (chars (take 16 e))" using b by (simp add: sector_ok_def)
  then have "length (takeWhile (\<lambda>c. c \<noteq> NUL) (chars (take 16 e))) < length (chars (take 16 e))"
    by (rule takeWhile_shorter)
  ultimately show ?thesis by (simp add: ename_def chars_def)
qed

lemma search_at_dir:
  assumes "at_dir refs (Suc (Suc k)) s d no" "dirs_ok ds (fs s)" "no \<in> ds" "c_str name w" "length dir_e = 24"
  shows "search_dir_entry (dir_inode (dirs s d)) name dir_e (fs s) =
    Inr (case lookup (fs s) no w of None \<Rightarrow> (False, dir_e, (fs s)\<lparr>heap_n := heap_n (fs s) + 2\<rparr>)
         | Some e \<Rightarrow> (True, e, (fs s)\<lparr>heap_n := heap_n (fs s) + 2\<rparr>))"
    "lookup (fs s) no w = Some e \<Longrightarrow> length e = 24 \<and> ename e = w \<and> length w < 16 \<and>
       (w \<noteq> [] \<longrightarrow> de_f_type e = FT_REGULAR \<or> de_f_type e = FT_DIRECTORY \<and> de_i_no e \<in> ds)"
proof -
  obtain i where i: "load_inode no (fs s) = Inr i" "dir_ok i (fs s)"
      "\<And>e. e \<in> set (dir_slots (dir_ab i (fs s)) (fs s)) \<Longrightarrow> ename e \<noteq> [] \<Longrightarrow>
         de_f_type e = FT_REGULAR \<or> de_f_type e = FT_DIRECTORY \<and> de_i_no e \<in> ds"
    using assms(2,3) unfolding dirs_ok_def by blast
  have sec: "i_sectors (core (fs s) (dir_inode (dirs s d))) = i_sectors i"
    using at_dir_load [OF assms(1)] i(1) by (auto simp: dir_core_def)
  have h: "heap (fs s) (heap_n (fs s)) \<noteq> 0" "heap (fs s) (heap_n (fs s) + 1) \<noteq> 0"
    using assms(1) stock_now [of "root_dir s" "Suc k" "fs s"] stock_now [OF stock_step, of "root_dir s" k "fs s"] by (auto simp: at_dir_def)
  have lk: "lookup (fs s) no w = find (\<lambda>e. ename e = w) (dir_slots (dir_ab i (fs s)) (fs s))" by (simp add: lookup_def i(1))
  show "search_dir_entry (dir_inode (dirs s d)) name dir_e (fs s) =
    Inr (case lookup (fs s) no w of None \<Rightarrow> (False, dir_e, (fs s)\<lparr>heap_n := heap_n (fs s) + 2\<rparr>)
         | Some e \<Rightarrow> (True, e, (fs s)\<lparr>heap_n := heap_n (fs s) + 2\<rparr>))"
    unfolding lk dir_slots_same [OF same_disk_refl sec, symmetric]
    by (rule search_dir_entry_eq [OF _ assms(4,5) h]) (simp add: dir_ok_same [OF same_disk_refl sec] i(2))
  assume "lookup (fs s) no w = Some e"
  then have "e \<in> set (dir_slots (dir_ab i (fs s)) (fs s))" "ename e = w" unfolding lk by (auto simp: find_Some_iff)
  then show "length e = 24 \<and> ename e = w \<and> length w < 16 \<and>
       (w \<noteq> [] \<longrightarrow> de_f_type e = FT_REGULAR \<or> de_f_type e = FT_DIRECTORY \<and> de_i_no e \<in> ds)"
    using length_slot [OF i(2)] i(3) by auto
qed

lemma lookup_same: "same_disk s t \<Longrightarrow> lookup t d nm = lookup s d nm"
  unfolding lookup_def by (simp add: load_inode_same dir_slots_same [OF _ refl] split: sum.split)

lemma dirs_ok_same: "same_disk s t \<Longrightarrow> dirs_ok ds s \<Longrightarrow> dirs_ok ds t"
  unfolding dirs_ok_def by (simp add: load_inode_same dir_slots_same [OF _ refl] dir_ok_same [OF _ refl])

section \<open>Texts\<close>

text \<open>A string in a buffer of 512 characters that is otherwise zero.\<close>

definition padded :: "char list \<Rightarrow> char list" where
  "padded w = w @ replicate (512 - length w) NUL"

lemma padded_c_str: "NUL \<notin> set w \<Longrightarrow> length w < 512 \<Longrightarrow> c_str (padded w) w"
  unfolding c_str_def padded_def by (auto intro!: exI [of _ "replicate (511 - length w) NUL"] simp: replicate_Suc [symmetric] simp del: replicate_Suc)

lemma strcat_c_str:
  "c_str dst u \<Longrightarrow> c_str src v \<Longrightarrow> length u + length v < length dst \<Longrightarrow>
   strcat dst src = Inr (u @ v @ NUL # drop (length u + length v + 1) dst)"
  by (induction dst arbitrary: u) (auto simp: c_str_Cons strcpy_c_str split: if_splits)

lemma extend_padded:
  assumes "NUL \<notin> set sp" "NUL \<notin> set w" "length sp + 1 + length w < 512"
  shows "extend_path (padded sp) (padded w) = Inr (padded (sp @ CHR ''/'' # w))"
proof -
  have "strcat (padded sp) (cstr ''/'') = Inr (padded (sp @ ''/''))"
    using strcat_c_str [OF padded_c_str [OF assms(1)], of "cstr ''/''" "''/''"] assms(3)
    by (simp add: c_str_Cons padded_def replicate_Suc [symmetric] del: replicate_Suc)
  moreover have "strcat (padded (sp @ ''/'')) (padded w) = Inr (padded (sp @ CHR ''/'' # w))"
    using strcat_c_str [OF padded_c_str [of "sp @ ''/''"] padded_c_str [OF assms(2)]] assms
    by (simp add: padded_def replicate_Suc [symmetric] del: replicate_Suc)
  ultimately show ?thesis by (simp add: extend_path_def)
qed

definition cost :: "char list list \<Rightarrow> nat" where
  "cost ws = sum_list (map (\<lambda>w. Suc (length w)) ws)"

lemma cost_components: "cost (components s) \<le> length s + 1"
proof (induction s rule: measure_induct_rule [of length])
  case (less s)
  show ?case
  proof (cases "word s = []")
    case True
    then show ?thesis by (simp add: components_none cost_def)
  next
    case False
    have l: "length (word s) + length (rest s) = length (skip s)" unfolding word_def rest_def by (metis length_append takeWhile_dropWhile_id)
    have k: "length (skip s) \<le> length s" by (rule length_dropWhile_le)
    show ?thesis
    proof (cases "rest s = []")
      case True
      then show ?thesis unfolding components_some [OF False] using l k by (simp add: cost_def)
    next
      case ne: False
      obtain r where r: "rest s = CHR ''/'' # r" using ne drop_head [of "skip s"] by (auto simp: rest_def)
      have "length r < length s" using l k r by simp
      then have "cost (components r) \<le> length r + 1" by (rule less)
      then show ?thesis unfolding components_some [OF False] r using l k r by (simp add: cost_def)
    qed
  qed
qed

lemma word_NUL: "NUL \<notin> set s \<Longrightarrow> NUL \<notin> set (word s) \<and> NUL \<notin> set (rest s)"
  unfolding word_def rest_def by (meson set_takeWhileD set_dropWhileD)

lemma walk_same: "same_disk s t \<Longrightarrow> walk t par d ws = walk s par d ws"
  by (induction ws arbitrary: par d) (simp_all add: lookup_same split: option.split)

section \<open>The loop\<close>

text \<open>The search ended as the walk did: what was found, the path searched, and the directory left open.\<close>

definition ended :: "u32 list \<Rightarrow> nat \<Rightarrow> fstate \<Rightarrow> char list \<Rightarrow> char list list \<Rightarrow> u32 \<times> u32 \<times> u32 \<times> nat \<Rightarrow> u32 \<times> path_search_record \<times> fstate \<Rightarrow> bool" where
  "ended refs k s sp ws w r \<longleftrightarrow>
     (case w of (no, ft, par, n) \<Rightarrow> case r of (no', rec, t) \<Rightarrow>
        no' = no \<and> file_type rec = ft \<and> searched_path rec = padded (sp @ concat (map (\<lambda>w. CHR ''/'' # w) (take n ws))) \<and>
        at_dir refs k t (parent_dir rec) par \<and> same_state s t)"

text \<open>At the end of the path: the last directory is closed and its parent opened.\<close>

lemma search_loop_end:
  assumes "at_dir refs (k + 3) s pdir no" "dirs_ok ds (fs s)" "par \<in> ds" "parent_dir rec = pdir" "searched_path rec = padded sp"
  shows "\<exists>r. search_loop sub (replicate 512 NUL) dir_e rec pdir par s = Inr r \<and> ended refs k s sp [] (de_i_no dir_e, FT_DIRECTORY, par, 0) r"
proof -
  note cl = dir_close_ok [OF assms(1)]
  have "dirs_ok ds (fs (dir_close pdir s))" using dirs_ok_same assms(2) cl(2) unfolding same_state_def by blast
  then obtain i where i: "load_inode par (fs (dir_close pdir s)) = Inr i" "at_rest i = i" "i_no i = par"
    using assms(3) unfolding dirs_ok_def by blast
  obtain d t where t: "dir_open par (dir_close pdir s) = Inr (d, t)" "at_dir refs k t d par" "same_state (dir_close pdir s) t"
    using dir_open_ok [OF cl(1) i] by blast
  have "search_loop sub (replicate 512 NUL) dir_e rec pdir par s = Inr (de_i_no dir_e, rec\<lparr>parent_dir := d, file_type := FT_DIRECTORY\<rparr>, t)"
    using t(1) assms(4) by (subst search_loop.simps) simp
  then show ?thesis using t(2) same_state_trans [OF cl(2) t(3)] assms(5) by (simp add: ended_def)
qed

text \<open>The next component moves into the buffer.\<close>

lemma next_name:
  assumes "case sub of None \<Rightarrow> rst = [] | Some q \<Rightarrow> c_str q rst" "cost (components rst) \<le> 511"
  shows "\<exists>sub'. (case sub of None \<Rightarrow> Inr (None, replicate 512 NUL) | Some p \<Rightarrow> path_parse p (replicate 512 NUL)) = Inr (sub', padded (word rst)) \<and>
    (case sub' of None \<Rightarrow> rest rst = [] | Some q \<Rightarrow> c_str q (rest rst))"
proof (cases sub)
  case None
  then show ?thesis using assms(1) by (simp add: padded_def word_def rest_def)
next
  case (Some q)
  have q: "c_str q rst" using assms(1) Some by simp
  have len: "length (word rst) \<le> length (replicate 512 NUL)"
    using assms(2) by (cases "word rst = []") (simp_all add: components_some cost_def)
  obtain sub' where s: "path_parse q (replicate 512 NUL) = Inr (sub', word rst @ drop (length (word rst)) (replicate 512 NUL))"
      "if rest rst = [] then sub' = None else \<exists>q'. sub' = Some q' \<and> c_str q' (rest rst)"
    using path_parse_c_str(1) [OF q len] by blast
  then show ?thesis using Some by (auto simp: padded_def split: if_splits)
qed

lemma at_dir_mono: "at_dir refs k s d no \<Longrightarrow> j \<le> k \<Longrightarrow> at_dir refs j s d no"
  using stock_mono by (auto simp: at_dir_def)

lemma at_dir_heap: "at_dir refs (Suc (Suc k)) s d no \<Longrightarrow> at_dir refs k (s\<lparr>fs := (fs s)\<lparr>heap_n := heap_n (fs s) + 2\<rparr>\<rparr>) d no"
proof -
  assume a: "at_dir refs (Suc (Suc k)) s d no"
  then have "stock (root_dir s) k ((fs s)\<lparr>heap_n := heap_n (fs s) + 2\<rparr>)"
    using stock_step [of "root_dir s" "Suc k" "fs s"] stock_step [of "root_dir s" k "(fs s)\<lparr>heap_n := Suc (heap_n (fs s))\<rparr>"]
    by (simp add: at_dir_def)
  then show ?thesis using a opened_heap [of _ "fs s"] by (auto simp: at_dir_def hold_def dir_core_def)
qed

lemma clear_padded: "length w < 16 \<Longrightarrow> clear_name (padded w) = replicate 512 NUL"
  by (simp add: clear_name_def padded_def replicate_add [symmetric])

text \<open>One round of the loop: nothing found, a file, or a directory in which the search goes on.\<close>

lemma search_loop_step:
  assumes "dirs_ok ds (fs s)" "at_dir refs (k + 5) s pdir no" "no \<in> ds" "searched_path rec = padded sp" "NUL \<notin> set sp" "length dir_e = 24"
    "w \<noteq> []" "NUL \<notin> set w" "case sub of None \<Rightarrow> rst = [] | Some q \<Rightarrow> c_str q rst" "length sp + cost (w # components rst) \<le> 511"
    "rec' = rec\<lparr>searched_path := padded (sp @ CHR ''/'' # w)\<rparr>" "s' = s\<lparr>fs := (fs s)\<lparr>heap_n := heap_n (fs s) + 2\<rparr>\<rparr>"
  shows "lookup (fs s) no w = None \<Longrightarrow> search_loop sub (padded w) dir_e rec pdir par s = Inr (-1, rec', s')"
    "lookup (fs s) no w = Some e \<Longrightarrow> de_f_type e \<noteq> FT_DIRECTORY \<Longrightarrow>
       search_loop sub (padded w) dir_e rec pdir par s = Inr (de_i_no e, rec'\<lparr>file_type := FT_REGULAR\<rparr>, s')"
    "lookup (fs s) no w = Some e \<Longrightarrow> de_f_type e = FT_DIRECTORY \<Longrightarrow>
       \<exists>d t sub'. search_loop sub (padded w) dir_e rec pdir par s = search_loop sub' (padded (word rst)) e (rec'\<lparr>parent_dir := d\<rparr>) d no t \<and>
         at_dir refs k t d (de_i_no e) \<and> same_state s t \<and> (case sub' of None \<Rightarrow> rest rst = [] | Some q \<Rightarrow> c_str q (rest rst))"
proof -
  have len: "length sp + 1 + length w < 512" "length w < 512" "cost (components rst) \<le> 511" using assms(10) by (simp_all add: cost_def)
  note cw = padded_c_str [OF assms(8) len(2)]
  note find = search_at_dir [OF at_dir_mono [OF assms(2), of "Suc (Suc 0)"] assms(1,3) cw assms(6), simplified]
  have l512: "length (padded w) = 512" using len by (simp add: padded_def)
  have n0: "padded w ! 0 \<noteq> NUL" using assms(7,8) by (cases w) (auto simp: padded_def)
  have sl: "strlen (padded sp) = Inr (length sp)" using padded_c_str [OF assms(5)] len strlen_c_str by simp
  note ex = extend_padded [OF assms(5,8) len(1)]
  obtain sub' where sub: "(case sub of None \<Rightarrow> Inr (None, replicate 512 NUL) | Some p \<Rightarrow> path_parse p (replicate 512 NUL)) = Inr (sub', padded (word rst))"
      "case sub' of None \<Rightarrow> rest rst = [] | Some q \<Rightarrow> c_str q (rest rst)"
    using next_name [OF assms(9) len(3)] by blast
  have adv: "(case sub of None \<Rightarrow> Inr (None, clear_name (padded w)) | Some p \<Rightarrow> path_parse p (clear_name (padded w))) = Inr (sub', padded (word rst))"
    if "length w < 16" using sub(1) unfolding clear_padded [OF that] .
  define m where "m = (fs s)\<lparr>heap_n := heap_n (fs s) + 2\<rparr>"
  have s2: "s\<lparr>fs := m\<rparr> = s'" by (simp add: assms(12) m_def)
  note find1 = find(1) [folded m_def]
  have step: "search_loop sub (padded w) dir_e rec pdir par s =
      (case lookup (fs s) no w of None \<Rightarrow> Inr (-1, rec', s')
       | Some e \<Rightarrow>
           bindE (case sub of None \<Rightarrow> Inr (None, clear_name (padded w)) | Some p \<Rightarrow> path_parse p (clear_name (padded w))) (\<lambda>(sub, name).
             if de_f_type e = FT_DIRECTORY then
               bindE (dir_open (de_i_no e) (dir_close pdir s')) (\<lambda>(pdir', t).
                 search_loop sub name e (rec'\<lparr>parent_dir := pdir'\<rparr>) pdir' (i_no (dir_core pdir s')) t)
             else if de_f_type e = FT_REGULAR then Inr (de_i_no e, rec'\<lparr>file_type := FT_REGULAR\<rparr>, s')
             else search_loop sub name e rec' pdir par s'))"
    unfolding assms(11) using l512 n0 sl ex len find1 s2
    by (subst search_loop.simps) (simp add: assms(4) Let_def split: option.split cong: if_cong)
  show "search_loop sub (padded w) dir_e rec pdir par s = Inr (-1, rec', s')" if "lookup (fs s) no w = None"
    using step that by simp
  show "search_loop sub (padded w) dir_e rec pdir par s = Inr (de_i_no e, rec'\<lparr>file_type := FT_REGULAR\<rparr>, s')"
    if "lookup (fs s) no w = Some e" "de_f_type e \<noteq> FT_DIRECTORY"
  proof -
    have "length w < 16" "de_f_type e = FT_REGULAR" using find(2) [OF that(1)] that(2) assms(7) by auto
    then show ?thesis unfolding step using that(1) adv by simp
  qed
  show "\<exists>d t sub'. search_loop sub (padded w) dir_e rec pdir par s = search_loop sub' (padded (word rst)) e (rec'\<lparr>parent_dir := d\<rparr>) d no t \<and>
         at_dir refs k t d (de_i_no e) \<and> same_state s t \<and> (case sub' of None \<Rightarrow> rest rst = [] | Some q \<Rightarrow> c_str q (rest rst))"
    if e: "lookup (fs s) no w = Some e" "de_f_type e = FT_DIRECTORY"
  proof -
    have e2: "length w < 16" "de_i_no e \<in> ds" using find(2) [OF e(1)] assms(7) e(2) by auto
    have s': "at_dir refs (k + 3) s' pdir no" "same_state s s'"
      using at_dir_heap [OF at_dir_mono [OF assms(2)], of "k + 3"] unfolding assms(12) by (simp_all add: same_state_def same_disk_def)
    note cl = dir_close_ok [OF s'(1)]
    have ss: "same_state s (dir_close pdir s')" using same_state_trans [OF s'(2) cl(2)] .
    then have "dirs_ok ds (fs (dir_close pdir s'))" using dirs_ok_same assms(1) unfolding same_state_def by blast
    then obtain i where i: "load_inode (de_i_no e) (fs (dir_close pdir s')) = Inr i" "at_rest i = i" "i_no i = de_i_no e"
      using e2(2) unfolding dirs_ok_def by blast
    obtain d t where t: "dir_open (de_i_no e) (dir_close pdir s') = Inr (d, t)" "at_dir refs k t d (de_i_no e)" "same_state (dir_close pdir s') t"
      using dir_open_ok [OF cl(1) i] by blast
    have "i_no (dir_core pdir s') = no" using s'(1) by (simp add: at_dir_def)
    then have "search_loop sub (padded w) dir_e rec pdir par s = search_loop sub' (padded (word rst)) e (rec'\<lparr>parent_dir := d\<rparr>) d no t"
      unfolding step using e t(1) adv [OF e2(1)] by simp
    then show ?thesis using t(2) same_state_trans [OF ss t(3)] sub(2) by blast
  qed
qed

lemma search_loop_walk:
  assumes "dirs_ok ds (fs s)" "at_dir refs (5 * length (w # ws) + 3 + k) s pdir no" "no \<in> ds" "par \<in> ds" "parent_dir rec = pdir" "file_type rec = FT_UNKNOWN"
    "searched_path rec = padded sp" "NUL \<notin> set sp" "length dir_e = 24"
    "w \<noteq> []" "NUL \<notin> set w" "components rst = ws" "NUL \<notin> set rst" "case sub of None \<Rightarrow> rst = [] | Some q \<Rightarrow> c_str q rst"
    "length sp + cost (w # ws) \<le> 511"
  shows "\<exists>r. search_loop sub (padded w) dir_e rec pdir par s = Inr r \<and> ended refs k s sp (w # ws) (walk (fs s) par no (w # ws)) r"
  using assms
proof (induction ws arbitrary: s pdir no par rec sp dir_e w rst sub)
  case Nil
  have at: "at_dir refs (k + 3 + 5) s pdir no" using at_dir_mono [OF Nil.prems(2), of "k + 3 + 5"] by simp
  note st = search_loop_step [OF Nil.prems(1) at Nil.prems(3,7-11,14) _ refl refl] and ah = at_dir_mono [OF at_dir_heap [OF at_dir_mono [OF at, of "Suc (Suc k)"]], of k]
  have b: "length sp + cost (w # components rst) \<le> 511" using Nil.prems(12,15) by simp
  have wr: "padded (word rst) = replicate 512 NUL" using Nil.prems(12) components_some [of rst] by (cases "word rst = []") (auto simp: padded_def)
  show ?case
  proof (cases "lookup (fs s) no w")
    case None
    then show ?thesis using st(1) [OF b None] ah Nil.prems(5,6)
      by (simp add: ended_def same_state_def same_disk_def)
  next
    case (Some e)
    show ?thesis
    proof (cases "de_f_type e = FT_DIRECTORY")
      case False
      then show ?thesis using st(2) [OF b Some False] Some ah Nil.prems(5)
        by (simp add: ended_def same_state_def same_disk_def)
    next
      case True
      obtain d t sub' where t: "search_loop sub (padded w) dir_e rec pdir par s =
            search_loop sub' (padded (word rst)) e (rec\<lparr>searched_path := padded (sp @ CHR ''/'' # w), parent_dir := d\<rparr>) d no t"
          "at_dir refs (k + 3) t d (de_i_no e)" "same_state s t"
        using st(3) [OF b Some True, of par] by blast
      have "dirs_ok ds (fs t)" using dirs_ok_same Nil.prems(1) t(3) unfolding same_state_def by blast
      from search_loop_end [OF t(2) this Nil.prems(3), of "rec\<lparr>searched_path := padded (sp @ CHR ''/'' # w), parent_dir := d\<rparr>" "sp @ CHR ''/'' # w" sub' e]
      obtain r where r: "search_loop sub (padded w) dir_e rec pdir par s = Inr r" "ended refs k t (sp @ CHR ''/'' # w) [] (de_i_no e, FT_DIRECTORY, no, 0) r"
        unfolding t(1) wr by auto
      then show ?thesis using Some True same_state_trans [OF t(3)] by (auto simp: ended_def)
    qed
  qed
next
  case (Cons w' ws)
  have at: "at_dir refs (5 * length (w' # ws) + 3 + k + 5) s pdir no" using at_dir_mono [OF Cons.prems(2), of "5 * length (w' # ws) + 3 + k + 5"] by simp
  note st = search_loop_step [OF Cons.prems(1) at Cons.prems(3,7-11,14) _ refl refl] and ah = at_dir_mono [OF at_dir_heap [OF at_dir_mono [OF at, of "Suc (Suc k)"]], of k]
  have b: "length sp + cost (w # components rst) \<le> 511" using Cons.prems(12,15) by simp
  have wr: "word rst \<noteq> []" using Cons.prems(12) components_none [of rst] by auto
  then have ws: "word rst = w'" "components (rest rst) = ws" using Cons.prems(12) components_some [of rst] by simp_all
  show ?case
  proof (cases "lookup (fs s) no w")
    case None
    then show ?thesis using st(1) [OF b None] ah Cons.prems(5,6)
      by (simp add: ended_def same_state_def same_disk_def)
  next
    case (Some e)
    show ?thesis
    proof (cases "de_f_type e = FT_DIRECTORY")
      case False
      then show ?thesis using st(2) [OF b Some False] Some ah Cons.prems(5)
        by (simp add: ended_def same_state_def same_disk_def)
    next
      case True
      obtain d t sub' where t: "search_loop sub (padded w) dir_e rec pdir par s =
            search_loop sub' (padded w') e (rec\<lparr>searched_path := padded (sp @ CHR ''/'' # w), parent_dir := d\<rparr>) d no t"
          "at_dir refs (5 * length (w' # ws) + 3 + k) t d (de_i_no e)" "same_state s t" "case sub' of None \<Rightarrow> rest rst = [] | Some q \<Rightarrow> c_str q (rest rst)"
        using st(3) [OF b Some True, of par] unfolding ws(1) by blast
      have sd: "same_disk (fs s) (fs t)" using t(3) by (simp add: same_state_def)
      note ok = dirs_ok_same [OF sd Cons.prems(1)]
      have e: "de_i_no e \<in> ds" "length e = 24"
        using search_at_dir(2) [OF at_dir_mono [OF at, of "Suc (Suc 0)"] Cons.prems(1,3) padded_c_str [OF Cons.prems(11)] Cons.prems(9) Some] True Cons.prems(10,15) by (auto simp: cost_def)
      have nul: "NUL \<notin> set (sp @ CHR ''/'' # w)" "NUL \<notin> set w'" "NUL \<notin> set (rest rst)" "length (sp @ CHR ''/'' # w) + cost (w' # ws) \<le> 511"
        using Cons.prems(8,11,15) ws(1) word_NUL [OF Cons.prems(13)] by (auto simp: cost_def)
      obtain r where r: "search_loop sub (padded w) dir_e rec pdir par s = Inr r"
          "ended refs k t (sp @ CHR ''/'' # w) (w' # ws) (walk (fs t) no (de_i_no e) (w' # ws)) r"
        unfolding t(1) using Cons.IH [OF ok t(2) e(1) Cons.prems(3), where rec = "rec\<lparr>searched_path := padded (sp @ CHR ''/'' # w), parent_dir := d\<rparr>"
            and sp = "sp @ CHR ''/'' # w" and dir_e = e and rst = "rest rst" and sub = sub'] nul e(2) wr ws t(4) Cons.prems(6) by auto
      have "walk (fs t) no (de_i_no e) (w' # ws) = walk (fs s) no (de_i_no e) (w' # ws)" by (rule walk_same [OF sd])
      then show ?thesis using r Some True same_state_trans [OF t(3)] by (auto simp: ended_def split: prod.split)
    qed
  qed
qed

section \<open>Resolution of a path\<close>

abbreviation root_names :: "char list set" where
  "root_names \<equiv> {''/'', ''/.'', ''/..''}"

lemma strcmp_zero: "c_str a s \<Longrightarrow> c_str b t \<Longrightarrow> \<exists>d. strcmp a b = Inr d \<and> (d = 0 \<longleftrightarrow> s = t)"
  using strcmp_c_str [of a s b t] by auto

lemma is_root_path_c_str:
  assumes "c_str p s"
  shows "is_root_path p = Inr (s \<in> root_names)"
proof -
  obtain a b c where "strcmp p (cstr ''/'') = Inr a" "a = 0 \<longleftrightarrow> s = ''/''" "strcmp p (cstr ''/.'') = Inr b" "b = 0 \<longleftrightarrow> s = ''/.''"
      "strcmp p (cstr ''/..'') = Inr c" "c = 0 \<longleftrightarrow> s = ''/..''"
    using strcmp_zero [OF assms c_str_snoc_NUL [of "''/''"]] strcmp_zero [OF assms c_str_snoc_NUL [of "''/.''"]]
      strcmp_zero [OF assms c_str_snoc_NUL [of "''/..''"]] by auto
  then show ?thesis by (auto simp: is_root_path_def)
qed

definition resolvable :: "u32 set \<Rightarrow> u32 list \<Rightarrow> nat \<Rightarrow> fstate \<Rightarrow> char list \<Rightarrow> char list \<Rightarrow> bool" where
  "resolvable ds refs k s path text \<longleftrightarrow> dirs_ok ds (fs s) \<and> at_rest_dirs refs (5 * length (components text) + 3 + k) s \<and>
     c_str path text \<and> length text < 512 \<and> (\<exists>t. text = CHR ''/'' # t) \<and> components text \<noteq> [] \<and> text \<notin> root_names"

lemma search_file_start:
  assumes "resolvable ds refs k s path text"
  shows "\<exists>sub. search_file junk path rec s =
      search_loop sub (padded (word text)) junk (rec\<lparr>parent_dir := root_dir s, file_type := FT_UNKNOWN\<rparr>) (root_dir s) 0 s \<and>
    (case sub of None \<Rightarrow> rest text = [] | Some q \<Rightarrow> c_str q (rest text))" "cost (components text) \<le> 511" "word text \<noteq> []"
proof -
  have a: "c_str path text" "length text < 512" "components text \<noteq> []" "text \<notin> root_names"
    using assms(1) by (simp_all add: resolvable_def)
  obtain t where t: "text = CHR ''/'' # t" using assms(1) by (auto simp: resolvable_def)
  show w: "word text \<noteq> []" using a(3) components_none by blast
  show cost: "cost (components text) \<le> 511" using cost_components [of t] a(2) t by simp
  then have lw: "length (word text) \<le> 512" unfolding components_some [OF w] by (simp add: cost_def)
  obtain sub where sub: "path_parse path (replicate 512 NUL) = Inr (sub, padded (word text))"
      "if rest text = [] then sub = None else \<exists>q. sub = Some q \<and> c_str q (rest text)"
    using path_parse_c_str(1) [OF a(1), of "replicate 512 NUL"] lw by (auto simp: padded_def)
  have c0: "path ! 0 = CHR ''/''" using a(1) t by (auto simp: c_str_def)
  have l1: "1 < length text" using w t by (cases t) (auto simp: word_def)
  have "search_file junk path rec s =
      search_loop sub (padded (word text)) junk (rec\<lparr>parent_dir := root_dir s, file_type := FT_UNKNOWN\<rparr>) (root_dir s) 0 s"
    using is_root_path_c_str [OF a(1)] a(2,4) strlen_c_str [OF a(1)] c0 l1 sub(1) by (simp add: search_file_def)
  then show "\<exists>sub. search_file junk path rec s =
      search_loop sub (padded (word text)) junk (rec\<lparr>parent_dir := root_dir s, file_type := FT_UNKNOWN\<rparr>) (root_dir s) 0 s \<and>
    (case sub of None \<Rightarrow> rest text = [] | Some q \<Rightarrow> c_str q (rest text))"
    using sub(2) by (auto split: if_splits)
qed

lemma search_file_walk:
  assumes "resolvable ds refs k s path text" "length junk = 24" "searched_path rec = padded []"
  shows "\<exists>r. search_file junk path rec s = Inr r \<and> ended refs k s [] (components text) (walk (fs s) 0 0 (components text)) r"
proof -
  note st = search_file_start [OF assms(1)]
  have a: "dirs_ok ds (fs s)" "at_rest_dirs refs (5 * length (components text) + 3 + k) s" "NUL \<notin> set text"
    using assms(1) by (auto simp: resolvable_def c_str_def)
  note cs = components_some [OF st(3)]
  have ad: "at_dir refs (5 * length (components text) + 3 + k) s (root_dir s) 0" using a(2) by (simp add: at_dir_def at_rest_dirs_def hold_def)
  have z: "0 \<in> ds" using a(1) by (simp add: dirs_ok_def)
  let ?rec = "rec\<lparr>parent_dir := root_dir s, file_type := FT_UNKNOWN\<rparr>"
  obtain sub where sub: "search_file junk path rec s = search_loop sub (padded (word text)) junk ?rec (root_dir s) 0 s"
      "case sub of None \<Rightarrow> rest text = [] | Some q \<Rightarrow> c_str q (rest text)"
    using st(1) by blast
  show ?thesis
    unfolding sub(1) using search_loop_walk [OF a(1) ad [unfolded cs] z z, of ?rec "[]" junk "rest text" sub]
      assms(2,3) st(2,3) word_NUL [OF a(3)] sub(2) unfolding cs by simp
qed

text \<open>C2: Name resolution: the search for an absolute path performs exactly the walk along its components over the
  directories on disk. It returns the number found or -1 and the kind of what it found, records the part of the path it
  used, leaves exactly one more reference to an open inode, that of the directory that holds the result, and changes
  nothing on disk.\<close>

theorem search_file_walks:
  assumes "resolvable ds refs k s path text" "length junk = 24"
  shows "\<exists>r. search_file junk path empty_record s = Inr r \<and> ended refs k s [] (components text) (walk (fs s) 0 0 (components text)) r"
  using search_file_walk [OF assms] by (simp add: padded_def)

end
