(* ===== verification/Resolve.thy ===== *)
theory Resolve
  imports Lookup
begin

text \<open>
  What the calls make of the resolution of a path: the errors of \<^verbatim>\<open>sys_open\<close>, the reference that \<^verbatim>\<open>sys_stat\<close> leaves behind,
  and the rest of the path that \<^verbatim>\<open>sys_unlink\<close> does not look at.
\<close>

section \<open>An example\<close>

text \<open>A root directory with a file \<^verbatim>\<open>a\<close> and a directory \<^verbatim>\<open>d\<close> that holds a file \<^verbatim>\<open>b\<close>.\<close>

definition demo_dir_inode :: "u32 \<Rightarrow> u32 \<Rightarrow> u32 \<Rightarrow> inode" where
  "demo_dir_inode n sz b = \<lparr>i_no = n, i_size = sz, i_open_cnts = 0, write_deny = False, i_sectors = b # replicate 12 0\<rparr>"

abbreviation root_list :: "u8 list list" where
  "root_list \<equiv> [mk_de ''.'' 0 2, mk_de ''..'' 0 2, mk_de ''a'' 5 1, mk_de ''d'' 1 2]"

abbreviation sub_list :: "u8 list list" where
  "sub_list \<equiv> [mk_de ''.'' 1 2, mk_de ''..'' 0 2, mk_de ''b'' 6 1]"

definition tree_sects :: "nat \<Rightarrow> u8 list" where
  "tree_sects n =
     (if n = 104 then pure_bytes (demo_dir_inode 0 96 712) @ pure_bytes (demo_dir_inode 1 72 713) @ replicate 360 0
      else if n = 712 then sector root_list else if n = 713 then sector sub_list else replicate 512 0)"

definition tree_fs :: fsys where
  "tree_fs = demo_fs\<lparr>sects := tree_sects, open_inode := [0xc0100000],
     core := (\<lambda>_. (demo_dir_inode 0 96 712)\<lparr>i_open_cnts := 1\<rparr>)\<rparr>"

definition tree_state :: fstate where
  "tree_state = \<lparr>fs = tree_fs, dirs = (\<lambda>_. \<lparr>dir_inode = 0xc0100000, dir_pos = 0, dir_buf = []\<rparr>),
     root_dir = 0xc0090000, cwd_inode_nr = 0\<rparr>"

lemma tree_sectors:
  "length (sector root_list) = 512" "slots (sector root_list) = root_list @ replicate 17 no_entry"
  "length (sector sub_list) = 512" "slots (sector sub_list) = sub_list @ replicate 18 no_entry"
  using slots_sector [of root_list] slots_sector [of sub_list] by (simp_all add: mk_de_facts)

lemma tree_full: "full tree_sects"
  by (simp add: full_def tree_sects_def tree_sectors pure_bytes_def demo_dir_inode_def)

lemma tree_table: "table_ok tree_fs"
  using tree_full by (simp add: table_ok_def tree_fs_def demo_fs_def)

lemma tree_slot:
  "slot 0 tree_fs = pure_bytes (demo_dir_inode 0 96 712)" "slot 1 tree_fs = pure_bytes (demo_dir_inode 1 72 713)"
proof -
  have "table tree_fs = sectors tree_sects 104 (1 + 608)" by (simp add: table_def tree_fs_def demo_fs_def)
  then have t: "table tree_fs = tree_sects 104 @ sectors tree_sects 105 608" unfolding sectors_add by (simp add: sectors_def)
  show "slot 0 tree_fs = pure_bytes (demo_dir_inode 0 96 712)" "slot 1 tree_fs = pure_bytes (demo_dir_inode 1 72 713)"
    unfolding slot_def t by (simp_all add: tree_sects_def pure_bytes_def demo_dir_inode_def)
qed

lemma tree_load: "load_inode 0 tree_fs = Inr (demo_dir_inode 0 96 712)" "load_inode 1 tree_fs = Inr (demo_dir_inode 1 72 713)"
  using load_slot [OF tree_table, of 0] load_slot [OF tree_table, of 1] tree_slot
    pure_bytes_of(2) [of "demo_dir_inode 0 96 712"] pure_bytes_of(2) [of "demo_dir_inode 1 72 713"]
  by (simp_all add: demo_dir_inode_def)

lemma tree_slots:
  "dir_slots (dir_ab (demo_dir_inode 0 96 712) tree_fs) tree_fs = root_list @ replicate 17 no_entry"
  "dir_slots (dir_ab (demo_dir_inode 1 72 713) tree_fs) tree_fs = sub_list @ replicate 18 no_entry"
proof -
  have ab: "dir_ab (demo_dir_inode n sz b) tree_fs = b # replicate 139 0" for n sz b
    by (simp add: dir_ab_def demo_dir_inode_def replicate_add [symmetric] take_Cons' nth_Cons')
  show "dir_slots (dir_ab (demo_dir_inode 0 96 712) tree_fs) tree_fs = root_list @ replicate 17 no_entry"
    "dir_slots (dir_ab (demo_dir_inode 1 72 713) tree_fs) tree_fs = sub_list @ replicate 18 no_entry"
    unfolding ab dir_slots_Cons dir_slots_zeros using tree_sectors by (simp_all add: tree_fs_def tree_sects_def)
qed

lemma no_entry_empty: "ename no_entry = []"
  by (simp add: ename_def chars_def char_byte)

lemma tree_dirs: "dirs_ok {0, 1} tree_fs"
proof -
  have ok: "dir_ok (demo_dir_inode n sz b) tree_fs" if "b = 712 \<or> b = 713" for n sz b
  proof -
    have "dir_ab (demo_dir_inode n sz b) tree_fs = b # replicate 139 0"
      by (simp add: dir_ab_def demo_dir_inode_def replicate_add [symmetric] take_Cons' nth_Cons')
    moreover have "sector_ok (tree_sects 712)" "sector_ok (tree_sects 713)"
      using tree_sectors by (simp_all add: sector_ok_def tree_sects_def mk_de_facts no_entry_name)
    ultimately show ?thesis using that tree_full by (auto simp: dir_ok_def demo_dir_inode_def) (auto simp: tree_fs_def demo_fs_def)
  qed
  have i: "at_rest (demo_dir_inode n sz b) = demo_dir_inode n sz b" "i_no (demo_dir_inode n sz b) = n" for n sz b
    by (simp_all add: demo_dir_inode_def)
  have e: "\<forall>e\<in>set (root_list @ replicate 17 no_entry). ename e \<noteq> [] \<longrightarrow> de_f_type e = 1 \<or> de_f_type e = 2 \<and> de_i_no e \<in> {0, 1}"
    "\<forall>e\<in>set (sub_list @ replicate 18 no_entry). ename e \<noteq> [] \<longrightarrow> de_f_type e = 1 \<or> de_f_type e = 2 \<and> de_i_no e \<in> {0, 1}"
    using no_entry_empty by (simp_all add: mk_de_facts)
  show ?thesis unfolding dirs_ok_def
    using tree_load i e unfolding tree_slots [symmetric] by (simp add: ok)
qed

lemma tree_rest: "at_rest_dirs [0xc0100000] 30 tree_state"
proof -
  have u: "unat (0xc0200000 + 1024 * of_nat n :: u32) = 0xc0200000 + 1024 * n" if "n < 30" for n
    using that by (subst unat_add_u32; simp add: unat_mult_u32 unat_of_nat)
  have h: "heap tree_fs n = 0xc0200000 + 1024 * of_nat n" "heap_n tree_fs = 0" for n by (simp_all add: tree_fs_def demo_fs_def)
  have "heap tree_fs n \<noteq> 0 \<and> heap tree_fs n \<notin> set (open_inode tree_fs) \<and> heap tree_fs n \<noteq> 0xc0090000" if "n < 30" for n
    using u [OF that] that unfolding h(1) by (auto simp: tree_fs_def word_unat_eq_iff)
  moreover have "inj_on (heap tree_fs) {0..<30}"
    unfolding inj_on_def h(1) using u by (metis atLeastLessThan_iff add_left_cancel mult_cancel1 zero_neq_numeral)
  ultimately have "stock 0xc0090000 30 tree_fs" by (simp add: stock_def h(2))
  moreover have "opened [0xc0100000] tree_fs"
    using tree_table tree_load(1) by (simp add: opened_def) (simp add: tree_fs_def demo_dir_inode_def)
  moreover have "i_no (core tree_fs 0xc0100000) = 0" by (simp add: tree_fs_def demo_dir_inode_def)
  ultimately show ?thesis by (simp add: at_rest_dirs_def tree_state_def dir_core_def)
qed

lemma at_rest_mono: "at_rest_dirs refs k s \<Longrightarrow> j \<le> k \<Longrightarrow> at_rest_dirs refs j s"
  using stock_mono by (auto simp: at_rest_dirs_def)

lemma tree_resolvable:
  assumes "text = CHR ''/'' # t" "NUL \<notin> set text" "length text < 512" "components text \<noteq> []" "text \<notin> root_names"
    "5 * length (components text) + 3 + k \<le> 30"
  shows "resolvable {0, 1} [0xc0100000] k tree_state (cstr text) text"
  using assms tree_dirs at_rest_mono [OF tree_rest, of "5 * length (components text) + 3 + k"]
    c_str_snoc_NUL [OF assms(2)]
  by (simp add: resolvable_def) (simp add: tree_state_def)

lemma tree_lookup:
  "lookup tree_fs 0 ''d'' = Some (mk_de ''d'' 1 2)" "lookup tree_fs 0 ''a'' = Some (mk_de ''a'' 5 1)"
  "lookup tree_fs 1 ''b'' = Some (mk_de ''b'' 6 1)" "lookup tree_fs 1 ''x'' = None"
  unfolding lookup_def tree_load sum.case tree_slots by (simp_all add: mk_de_facts find_None_iff no_entry_empty)

lemma fs_tree [simp]: "fs tree_state = tree_fs"
  by (simp add: tree_state_def)

theorem search_file_walks_witness:
  "\<exists>rec t. search_file (replicate 24 0) (cstr ''/d//b'') empty_record tree_state = Inr (6, rec, t) \<and>
     file_type rec = FT_REGULAR \<and> searched_path rec = padded ''/d/b'' \<and> at_dir [0xc0100000] 0 t (parent_dir rec) 1"
proof -
  have c: "components ''/d//b'' = [''d'', ''b'']" by (simp add: components_def)
  have w: "walk tree_fs 0 0 [''d'', ''b''] = (6, FT_REGULAR, 1, 2)" by (simp add: tree_lookup mk_de_facts)
  have "resolvable {0, 1} [0xc0100000] 0 tree_state (cstr ''/d//b'') ''/d//b''"
    by (rule tree_resolvable) (simp_all add: components_def)
  then show ?thesis using search_file_walks [of "{0, 1}" "[0xc0100000]" 0 tree_state "cstr ''/d//b''" "''/d//b''" "replicate 24 0"]
    unfolding c fs_tree w by (auto simp: ended_def)
qed

section \<open>Opening a file\<close>

lemma until_slash:
  assumes "CHR ''/'' \<notin> set w" "r = [] \<or> (\<exists>t. r = CHR ''/'' # t)"
  shows "takeWhile (\<lambda>c. c \<noteq> CHR ''/'') (w @ r) = w \<and> dropWhile (\<lambda>c. c \<noteq> CHR ''/'') (w @ r) = r"
  using assms by (induction w) auto

lemma components_joined:
  "\<forall>w\<in>set ws. w \<noteq> [] \<and> CHR ''/'' \<notin> set w \<Longrightarrow> components (concat (map (\<lambda>w. CHR ''/'' # w) ws)) = ws"
proof (induction ws)
  case (Cons w ws)
  let ?r = "concat (map (\<lambda>w. CHR ''/'' # w) ws)"
  have r: "?r = [] \<or> (\<exists>t. ?r = CHR ''/'' # t)" by (cases ws) auto
  have w: "w \<noteq> []" "CHR ''/'' \<notin> set w" using Cons.prems by auto
  have sk: "skip (w @ ?r) = w @ ?r" using w by (cases w) auto
  have "takeWhile (\<lambda>c. c \<noteq> CHR ''/'') (w @ ?r) = w" "dropWhile (\<lambda>c. c \<noteq> CHR ''/'') (w @ ?r) = ?r"
    using until_slash [OF w(2) r] by simp_all
  then have "word (w @ ?r) = w" "rest (w @ ?r) = ?r" unfolding word_def rest_def sk by simp_all
  then show ?case using components_some [of "w @ ?r"] w(1) Cons by simp
qed (simp add: components_def)

lemma split_parts: "w \<in> set (split s) \<Longrightarrow> CHR ''/'' \<notin> set w \<and> set w \<subseteq> set s"
proof (induction s arbitrary: w)
  case (Cons c s)
  show ?case
  proof (cases "c = CHR ''/''")
    case True
    then show ?thesis using Cons by auto
  next
    case False
    obtain v vs where v: "split s = v # vs" using split_word [of s] by blast
    then have "w = c # v \<or> w \<in> set vs" using Cons.prems False by auto
    then show ?thesis using Cons.IH [of v] Cons.IH [of w] v False by auto
  qed
qed simp

lemma components_parts: "w \<in> set (components s) \<Longrightarrow> w \<noteq> [] \<and> CHR ''/'' \<notin> set w \<and> set w \<subseteq> set s"
  using split_parts [of w s] by (auto simp: components_def)

text \<open>The depth of the part of a path that was searched.\<close>

lemma searched_depth:
  assumes "NUL \<notin> set text" "ws = components text" "0 < n" "n \<le> length ws" "cost ws \<le> 511" "\<not> too_long 16 ws" "length junk = 16"
  shows "path_depth_cnt junk (padded (concat (map (\<lambda>w. CHR ''/'' # w) (take n ws)))) = Inr (of_nat n)"
proof -
  let ?sp = "concat (map (\<lambda>w. CHR ''/'' # w) (take n ws))"
  have ws: "w \<noteq> [] \<and> CHR ''/'' \<notin> set w \<and> NUL \<notin> set w" if "w \<in> set (take n ws)" for w
    using components_parts [of w "text"] in_set_takeD [OF that] assms(1,2) by auto
  have "length ?sp = cost (take n ws)" by (simp add: cost_def length_concat o_def)
  also have "\<dots> \<le> cost ws" by (metis append_take_drop_id cost_def le_add1 map_append sum_list_append)
  finally have "length ?sp < 512" using assms(5) by simp
  moreover have "NUL \<notin> set ?sp" using ws by auto
  ultimately have c: "c_str (padded ?sp) ?sp" by (intro padded_c_str)
  have co: "components ?sp = take n ws" using ws by (intro components_joined) auto
  have "\<not> too_long 16 (take n ws)" using assms(6) in_set_takeD [of _ n ws] by (auto simp: too_long_def)
  moreover have "take n ws \<noteq> []" using assms(3,4) by auto
  ultimately show ?thesis using path_depth_eq [OF c assms(7)] assms(4) unfolding co by simp
qed

lemma walk_le: "walk s par d ws = (no, ft, p, n) \<Longrightarrow> n \<le> length ws"
  by (induction ws arbitrary: par d n p ft no) (auto split: option.splits if_splits prod.splits)

lemma walk_steps: "walk s par d (w # ws) = (no, ft, p, n) \<Longrightarrow> 0 < n \<and> n \<le> length (w # ws)"
  using walk_le [of s par d "w # ws" no ft p n] by (auto split: option.splits if_splits prod.splits)

lemma resolvable_facts:
  assumes "resolvable ds refs k s path text"
  shows "NUL \<notin> set text" "cost (components text) \<le> 511" "0 < length text" "length (components text) < 512"
proof -
  show "NUL \<notin> set text" using assms by (auto simp: resolvable_def c_str_def)
  obtain t where t: "text = CHR ''/'' # t" "length text < 512" using assms by (auto simp: resolvable_def)
  then show c: "cost (components text) \<le> 511" using cost_components [of t] by simp
  have "length ws \<le> cost ws" for ws by (induction ws) (simp_all add: cost_def)
  from this [of "components text"] show "length (components text) < 512" using c by linarith
  show "0 < length text" using t by simp
qed

text \<open>C35: \<^verbatim>\<open>sys_open\<close> returns -1 for a directory, for a path with a missing directory or a file in the middle, for a file that does
  not exist unless it is to be created, and for one to be created that exists; nothing on disk changes and no
  directory stays open.\<close>

theorem sys_open_refuses:
  assumes "resolvable ds refs k s path text" "length (junk_entry j) = 24" "\<forall>i. length (junk_name j i) = 16" "flags \<le> 7"
    "last text \<noteq> CHR ''/''" "\<not> too_long 16 (components text)" "walk (fs s) 0 0 (components text) = (no, ft, par, n)"
    "ft = FT_DIRECTORY \<or> n < length (components text) \<or> no = -1 \<and> flags AND 4 = 0 \<or> no \<noteq> -1 \<and> flags AND 4 \<noteq> 0"
  shows "\<exists>t. sys_open j path flags s = Inr (-1, t) \<and> same_state s t \<and> at_rest_dirs refs k t"
proof -
  note rf = resolvable_facts [OF assms(1)]
  have c: "c_str path text" "components text \<noteq> []" using assms(1) by (simp_all add: resolvable_def)
  obtain rec t where r: "search_file (junk_entry j) path empty_record s = Inr (no, rec, t)" "file_type rec = ft"
      "searched_path rec = padded (concat (map (\<lambda>w. CHR ''/'' # w) (take n (components text))))" "at_dir refs k t (parent_dir rec) par" "same_state s t"
    using search_file_walk [OF assms(1,2), of empty_record] assms(7) by (auto simp: ended_def padded_def)
  have n: "0 < n" "n \<le> length (components text)" using walk_steps assms(7) c(2) by (cases "components text"; auto)+
  have d1: "path_depth_cnt (junk_name j 0) path = Inr (of_nat (length (components text)))"
    using path_depth_eq [OF c(1)] assms(3,6) c(2) by simp
  have d2: "path_depth_cnt (junk_name j 1) (searched_path rec) = Inr (of_nat n)"
    unfolding r(3) using searched_depth [OF rf(1) refl n rf(2) assms(6)] assms(3) by simp
  have eq: "(of_nat n :: u32) = of_nat (length (components text)) \<longleftrightarrow> n = length (components text)"
    using n(2) rf(4) by (simp add: word_of_nat_eq_iff take_bit_nat_eq_self)
  have pl: "path ! (length text - 1) = last text" using c(1) rf(3) by (auto simp: c_str_def nth_append last_conv_nth)
  have "sys_open j path flags s = Inr (-1, dir_close (parent_dir rec) t)"
    using strlen_c_str [OF c(1)] rf(3) pl assms(4,5,8) d1 d2 eq r(1,2) by (auto simp: sys_open_def Let_def)
  then show ?thesis using dir_close_ok [OF r(4)] same_state_trans [OF r(5)] by auto
qed

theorem sys_open_refuses_witness:
  "\<exists>t. sys_open \<lparr>junk_name = (\<lambda>_. replicate 16 NUL), junk_entry = replicate 24 0\<rparr> (cstr ''/d/x'') 2 tree_state = Inr (-1, t) \<and>
     same_state tree_state t"
proof -
  have c: "components ''/d/x'' = [''d'', ''x'']" by (simp add: components_def)
  have w: "walk (fs tree_state) 0 0 (components ''/d/x'') = (-1, FT_UNKNOWN, 1, 2)" unfolding c by (simp add: tree_lookup mk_de_facts)
  have "resolvable {0, 1} [0xc0100000] 0 tree_state (cstr ''/d/x'') ''/d/x''"
    by (rule tree_resolvable) (simp_all add: components_def)
  from sys_open_refuses [OF this _ _ _ _ _ w, of "\<lparr>junk_name = (\<lambda>_. replicate 16 NUL), junk_entry = replicate 24 0\<rparr>" 2]
  show ?thesis unfolding c by auto
qed

section \<open>Removing a file\<close>

text \<open>A search that meets a file at the first component.\<close>

lemma search_file_file:
  assumes "resolvable ds refs k s path text" "length junk = 24" "searched_path rec = padded []" "components text = w # ws"
    "lookup (fs s) 0 w = Some e" "de_f_type e = FT_REGULAR"
  shows "search_file junk path rec s =
    Inr (de_i_no e, rec\<lparr>searched_path := padded (CHR ''/'' # w), parent_dir := root_dir s, file_type := FT_REGULAR\<rparr>,
      s\<lparr>fs := (fs s)\<lparr>heap_n := heap_n (fs s) + 2\<rparr>\<rparr>)"
proof -
  obtain sub where sub: "search_file junk path rec s =
        search_loop sub (padded (word text)) junk (rec\<lparr>parent_dir := root_dir s, file_type := FT_UNKNOWN\<rparr>) (root_dir s) 0 s"
      "case sub of None \<Rightarrow> rest text = [] | Some q \<Rightarrow> c_str q (rest text)"
    using search_file_start [OF assms(1)] by blast
  have wt: "word text = w" "components (rest text) = ws" "word text \<noteq> []"
    using assms(4) components_some [of "text"] components_none [of "text"] by (cases "word text = []"; auto)+
  have a: "dirs_ok ds (fs s)" "at_rest_dirs refs (5 * length (components text) + 3 + k) s" using assms(1) by (simp_all add: resolvable_def)
  have ad: "at_dir refs (0 + 5) s (root_dir s) 0"
    using at_rest_mono [OF a(2), of 5] assms(4) by (simp add: at_dir_def at_rest_dirs_def hold_def)
  have z: "0 \<in> ds" using a(1) by (simp add: dirs_ok_def)
  have ft: "de_f_type e \<noteq> FT_DIRECTORY" using assms(6) by simp
  note rf = resolvable_facts [OF assms(1)]
  show ?thesis
    unfolding sub(1)
    using search_loop_step(2) [OF a(1) ad z, where rec = "rec\<lparr>parent_dir := root_dir s, file_type := FT_UNKNOWN\<rparr>" and sp = "[]"
          and dir_e = junk and w = w and sub = sub and rst = "rest text" and e = e and par = 0, OF _ _ _ _ _ _ _ refl refl assms(5) ft]
      assms(2-4) wt sub(2) rf word_NUL [OF rf(1)] by simp
qed

text \<open>\<^verbatim>\<open>sys_unlink\<close> does not look at the rest of a path once it has met a file: \<^verbatim>\<open>unlink("/a/x")\<close>, where \<^verbatim>\<open>/a\<close> is a file, does exactly
  what \<^verbatim>\<open>unlink("/a")\<close> does, and so removes \<^verbatim>\<open>/a\<close>.\<close>

theorem sys_unlink_ignores_rest:
  assumes "resolvable ds refs k s path text" "resolvable ds' refs' k' s path' text'" "length (junk_entry j) = 24"
    "components text = w # ws" "components text' = [w]" "lookup (fs s) 0 w = Some e" "de_f_type e = FT_REGULAR"
  shows "sys_unlink j path s = sys_unlink j path' s"
proof -
  have "search_file (junk_entry j) path empty_record s = search_file (junk_entry j) path' empty_record s"
    using search_file_file [OF assms(1,3) _ assms(4,6,7), of empty_record] search_file_file [OF assms(2,3) _ assms(5,6,7), of empty_record]
    by (simp add: padded_def)
  then show ?thesis unfolding sys_unlink_def by simp
qed

theorem sys_unlink_ignores_rest_witness:
  "sys_unlink \<lparr>junk_name = (\<lambda>_. replicate 16 NUL), junk_entry = replicate 24 0\<rparr> (cstr ''/a/x'') tree_state =
   sys_unlink \<lparr>junk_name = (\<lambda>_. replicate 16 NUL), junk_entry = replicate 24 0\<rparr> (cstr ''/a'') tree_state"
proof (rule sys_unlink_ignores_rest)
  show "resolvable {0, 1} [0xc0100000] 0 tree_state (cstr ''/a/x'') ''/a/x''" "resolvable {0, 1} [0xc0100000] 0 tree_state (cstr ''/a'') ''/a''"
    by (rule tree_resolvable; simp add: components_def)+
  show "lookup (fs tree_state) 0 ''a'' = Some (mk_de ''a'' 5 1)" by (simp add: tree_lookup)
qed (simp_all add: components_def mk_de_facts)

end
