(* ===== verification/Thread.thy ===== *)
theory Thread
  imports Sync Path Format
begin

text \<open>
  The rest of \<^verbatim>\<open>sched/thread.c\<close>: allocation of process identifiers, creation of threads, start-up of the
  thread system and the listing of threads (\<^verbatim>\<open>sys_ps\<close>).

  \<^verbatim>\<open>next_pid\<close> is the static variable of \<^verbatim>\<open>allocate_pid\<close> and \<^verbatim>\<open>pid_lock\<close> the address of its lock. The addresses of
  the functions \<^verbatim>\<open>kernel_thread\<close>, \<^verbatim>\<open>init_kthread\<close> and \<^verbatim>\<open>idle\<close> are fields of the state. An operation that finds a lock
  taken ends in \<open>Suspended\<close>.
\<close>

record kthread = klock +
  next_pid :: "16 word"
  pid_lock :: u32
  kernel_thread_fn :: u32
  init_kthread_fn :: u32
  idle_fn :: u32

section \<open>Process identifiers\<close>

definition lock_take :: "u32 \<Rightarrow> 'a klock_scheme \<Rightarrow> 'a klock_scheme result" where
  "lock_take lk s =
     bindE (lock_acquire lk s) (\<lambda>(got, s').
       if lk_holder s lk = running_thread s then Inr s'
       else if got then lock_acquired lk s' else Inl Suspended)"

text \<open>\<^verbatim>\<open>allocate_pid\<close> up to the release of the lock, and the read of \<^verbatim>\<open>next_pid\<close> after it.\<close>

definition pid_increment :: "kthread \<Rightarrow> kthread result" where
  "pid_increment s =
     bindE (lock_take (pid_lock s) s) (\<lambda>s.
       lock_release (pid_lock s) (s\<lparr>next_pid := next_pid s + 1\<rparr>))"

definition pid_read :: "kthread \<Rightarrow> 16 word" where
  "pid_read s = next_pid s"

definition allocate_pid :: "kthread \<Rightarrow> (16 word \<times> kthread) result" where
  "allocate_pid s = bindE (pid_increment s) (\<lambda>s. Inr (pid_read s, s))"

definition fork_pid :: "kthread \<Rightarrow> (16 word \<times> kthread) result" where
  "fork_pid s = allocate_pid s"

section \<open>Creation of threads\<close>

definition zero_task :: task_struct where
  "zero_task = \<lparr>self_kstack = 0, pid = 0, status = TASK_RUNNING, name = replicate 16 NUL, priority = 0, ticks = 0,
     elapsed_ticks = 0, fd_table = replicate 8 0, pgdir = 0,
     userprog_vaddr = \<lparr>vaddr_bitmap = \<lparr>btmp_bytes_len = 0, bits = []\<rparr>, vaddr_start = 0\<rparr>,
     cwd_inode_nr = 0, parent_pid = 0, stack_magic = 0\<rparr>"

text \<open>The list nodes that a control block contains: its two tags and the free lists of its block descriptors.\<close>

definition pcb_nodes :: "u32 \<Rightarrow> u32 set" where
  "pcb_nodes p = {general_tag p, all_list_tag p} \<union>
     (\<Union>i<DESC_CNT. foot (free_list (desc_addr (u_block_desc p) i)) [])"

definition pcb_descs :: "u32 \<Rightarrow> u32 set" where
  "pcb_descs p = desc_addr (u_block_desc p) ` {..<DESC_CNT}"

text \<open>\<^verbatim>\<open>memset(pthread, 0, sizeof(*pthread))\<close>. The fields of the running thread that \<open>mm\<close> keeps follow.\<close>

definition memset_pcb :: "u32 \<Rightarrow> 'a ksched_scheme \<Rightarrow> 'a ksched_scheme" where
  "memset_pcb p s =
     set_task p (\<lambda>_. zero_task)
       (on_mm (\<lambda>m. m\<lparr>prev := (\<lambda>a. if a \<in> pcb_nodes p then 0 else prev m a),
                       nxt := (\<lambda>a. if a \<in> pcb_nodes p then 0 else nxt m a),
                       bd_size := (\<lambda>a. if a \<in> pcb_descs p then 0 else bd_size m a),
                       bd_per := (\<lambda>a. if a \<in> pcb_descs p then 0 else bd_per m a),
                       cur_pgdir := (if p = running_thread s then 0 else cur_pgdir m),
                       cur_vaddr := (if p = running_thread s then userprog_vaddr zero_task else cur_vaddr m)\<rparr>) s)"

text \<open>\<^verbatim>\<open>fd_table\<close> after the assignments and the loop over the other descriptors.\<close>

definition fd_standard :: "u32 list" where
  "fd_standard = [0, 1, 2] @ replicate (8 - 3) (- 1)"

definition init_thread :: "u32 \<Rightarrow> char list \<Rightarrow> u8 \<Rightarrow> kthread \<Rightarrow> kthread result" where
  "init_thread p nm prio s =
     (if p = 0 then Inl Out_of_bounds
      else
        bindE (allocate_pid (memset_pcb p s)) (\<lambda>(id, s).
        bindE (strcpy (name (task s p)) nm) (\<lambda>nm.
          Inr (set_task p (\<lambda>t. t\<lparr>pid := id, name := nm,
                 status := (if p = main_thread s then TASK_RUNNING else TASK_READY),
                 self_kstack := p + 4096, priority := prio, ticks := prio, elapsed_ticks := 0, pgdir := 0,
                 fd_table := fd_standard, cwd_inode_nr := 0, parent_pid := - 1, stack_magic := 0x12345678\<rparr>) s))))"

text \<open>\<^verbatim>\<open>self_kstack\<close> points to words, so that taking the size of a structure (76 and 32 bytes) from it moves it by
  four times as many bytes. The fields of \<^verbatim>\<open>struct thread_stack\<close> are \<^verbatim>\<open>ebp\<close>, \<^verbatim>\<open>ebx\<close>, \<^verbatim>\<open>edi\<close>, \<^verbatim>\<open>esi\<close>, \<^verbatim>\<open>eip\<close>,
  an unused word, \<^verbatim>\<open>function\<close> and \<^verbatim>\<open>func_arg\<close>.\<close>

definition thread_create :: "u32 \<Rightarrow> u32 \<Rightarrow> u32 \<Rightarrow> kthread \<Rightarrow> kthread" where
  "thread_create p function func_arg s =
     (let k = self_kstack (task s p) - 4 * 76 - 4 * 32;
          s = set_task p (\<lambda>t. t\<lparr>self_kstack := k\<rparr>) s
      in on_mm (\<lambda>m. m\<lparr>cell := (cell m)(k + 16 := kernel_thread_fn s, k + 24 := function, k + 28 := func_arg,
            k := 0, k + 4 := 0, k + 12 := 0, k + 8 := 0)\<rparr>) s)"

text \<open>The two guarded appends at the end of \<^verbatim>\<open>thread_start\<close>.\<close>

definition enlist_all :: "u32 \<Rightarrow> 'a ksched_scheme \<Rightarrow> 'a ksched_scheme result" where
  "enlist_all p s =
     not_in (thread_all_list s) (all_list_tag p) s
       (Inr (on_mm (list_append (thread_all_list s) (all_list_tag p)) s))"

definition enlist :: "u32 \<Rightarrow> 'a ksched_scheme \<Rightarrow> 'a ksched_scheme result" where
  "enlist p s =
     not_in (thread_ready_list s) (general_tag p) s
       (enlist_all p (on_mm (list_append (thread_ready_list s) (general_tag p)) s))"

definition thread_start :: "char list \<Rightarrow> u8 \<Rightarrow> u32 \<Rightarrow> u32 \<Rightarrow> kthread \<Rightarrow> (u32 \<times> kthread) result" where
  "thread_start nm prio function func_arg s =
     bindE (get_kernel_pages 1 (mm s)) (\<lambda>(p, m).
     bindE (init_thread p nm prio (s\<lparr>mm := m\<rparr>)) (\<lambda>s.
     bindE (enlist p (thread_create p function func_arg s)) (\<lambda>s. Inr (p, s))))"

definition make_main_thread :: "kthread \<Rightarrow> kthread result" where
  "make_main_thread s =
     (let s = s\<lparr>main_thread := running_thread s\<rparr> in
      bindE (init_thread (main_thread s) (''main'' @ [NUL]) 31 s) (\<lambda>s. enlist_all (main_thread s) s))"

definition default_prio :: u8 where "default_prio = 31"

definition thread_init :: "kthread \<Rightarrow> (display list \<times> kthread) result" where
  "thread_init s =
     (let s = on_mm (list_init (thread_ready_list s)) s;
          s = on_mm (list_init (thread_all_list s)) s;
          s = lock_init (pid_lock s) s
      in bindE (thread_start (''init'' @ [NUL]) default_prio (init_kthread_fn s) 0 s) (\<lambda>(_, s).
         bindE (make_main_thread s) (\<lambda>s.
         bindE (thread_start (''idle'' @ [NUL]) 10 (idle_fn s) 0 s) (\<lambda>(p, s).
           Inr ([Put_str (''thread_init start'' @ [CHR 0x0A]), Put_str (''thread_init done'' @ [CHR 0x0A])],
                s\<lparr>idle_thread := p\<rparr>)))))"

text \<open>The entry of a kernel thread, which then calls the function, and one round of the idle thread up to the switch.\<close>

definition kernel_thread :: "'a ksched_scheme \<Rightarrow> 'a ksched_scheme" where
  "kernel_thread s = on_mm (\<lambda>m. snd (intr_enable m)) s"

definition idle :: "'a ksched_scheme \<Rightarrow> 'a ksched_scheme result" where
  "idle s = thread_block TASK_BLOCKED s"

section \<open>Listing of threads\<close>

text \<open>The branch of \<^verbatim>\<open>sys_write\<close> for standard output: the bytes go through a zeroed buffer of 1024 bytes and are shown up to
  the first null byte.\<close>

definition stdout_write :: "char list \<Rightarrow> nat \<Rightarrow> char list result" where
  "stdout_write buf count =
     (if count \<le> length buf \<and> count \<le> 1024 then
        (let tmp = take count buf @ replicate (1024 - count) NUL in
         if NUL \<in> set tmp then Inr (takeWhile (\<lambda>c. c \<noteq> NUL) tmp) else Inl Out_of_bounds)
      else Inl Out_of_bounds)"

text \<open>The loop of \<^verbatim>\<open>pad_print\<close> with \<open>n\<close> rounds to go; the callers pass 16 for \<^verbatim>\<open>buf_len\<close>, so the eight bit index does not wrap.\<close>

fun pad_loop :: "nat \<Rightarrow> nat \<Rightarrow> char list \<Rightarrow> char list result" where
  "pad_loop 0 idx buf = Inr buf"
| "pad_loop (Suc n) idx buf =
     (if idx < length buf then pad_loop n (idx + 1) (buf[idx := CHR '' '']) else Inl Out_of_bounds)"

datatype pad_arg = Pad_s "char list" | Pad_d "16 word" | Pad_x u32

fun pad_format :: "char list \<Rightarrow> pad_arg \<Rightarrow> (nat \<times> char list) result" where
  "pad_format buf (Pad_s p) = sprintf buf (''%s'' @ [NUL]) [VStr p]"
| "pad_format buf (Pad_d v) = sprintf buf (''%d'' @ [NUL]) [VInt (scast v)]"
| "pad_format buf (Pad_x v) = sprintf buf (''%x'' @ [NUL]) [VInt v]"

definition pad_print :: "char list \<Rightarrow> nat \<Rightarrow> pad_arg \<Rightarrow> char list result" where
  "pad_print buf buf_len arg =
     (if length buf < buf_len then Inl Out_of_bounds
      else
        bindE (pad_format (replicate buf_len NUL @ drop buf_len buf) arg) (\<lambda>(n, buf).
        bindE (pad_loop (buf_len - n) n buf) (\<lambda>buf. stdout_write buf (buf_len - 1))))"

fun status_text :: "task_status \<Rightarrow> char list" where
  "status_text TASK_RUNNING = ''RUNNING''"
| "status_text TASK_READY = ''READY''"
| "status_text TASK_BLOCKED = ''BLOCKED''"
| "status_text TASK_WAITING = ''WAITING''"
| "status_text TASK_HANGING = ''HANGING''"
| "status_text TASK_DIED = ''DIED''"

text \<open>The row of one thread; every \<^verbatim>\<open>pad_print\<close> clears the buffer \<^verbatim>\<open>out_pad\<close> first.\<close>

definition elem2thread_info :: "task_struct \<Rightarrow> char list result" where
  "elem2thread_info t =
     (let out_pad = replicate 16 NUL in
      bindE (pad_print out_pad 16 (Pad_d (pid t))) (\<lambda>a.
      bindE (pad_print out_pad 16 (if parent_pid t = - 1 then Pad_s (''NULL'' @ [NUL]) else Pad_d (parent_pid t))) (\<lambda>b.
      bindE (pad_print out_pad 16 (Pad_s (status_text (status t) @ [NUL]))) (\<lambda>c.
      bindE (pad_print out_pad 16 (Pad_x (elapsed_ticks t))) (\<lambda>d.
      bindE (strlen (name t)) (\<lambda>n.
        assertE (n < 17)
          (if n > 16 then Inl Out_of_bounds
           else
             bindE (strcat (take n (name t) @ replicate (16 - n) NUL) [CHR 0x0A, NUL]) (\<lambda>out_pad.
             bindE (strlen out_pad) (\<lambda>n.
             bindE (stdout_write out_pad n) (\<lambda>e. Inr (a @ b @ c @ d @ e)))))))))))"

definition ps_title :: "char list" where
  "ps_title = ''PID             PPID            STAT            TICKS            COMMAND'' @ [CHR 0x0A, NUL]"

text \<open>\<^verbatim>\<open>list_traversal\<close> with \<^verbatim>\<open>elem2thread_info\<close>, which changes no list and never stops it.\<close>

partial_function (option) ps_loop :: "'a ksched_scheme \<Rightarrow> u32 \<Rightarrow> u32 \<Rightarrow> char list \<Rightarrow> char list result option" where
  "ps_loop s tail elem out =
     (if elem \<noteq> tail
      then (case elem2thread_info (task s (elem - 76)) of
              Inl e \<Rightarrow> Some (Inl e)
            | Inr row \<Rightarrow> ps_loop s tail (nxt (mm s) elem) (out @ row))
      else Some (Inr out))"

definition sys_ps :: "'a ksched_scheme \<Rightarrow> char list result option" where
  "sys_ps s =
     (case bindE (strlen ps_title) (stdout_write ps_title) of
        Inl e \<Rightarrow> Some (Inl e)
      | Inr out \<Rightarrow>
          if list_empty (thread_all_list s) (mm s) then Some (Inr out)
          else ps_loop s (list_tail (thread_all_list s)) (nxt (mm s) (list_head (thread_all_list s))) out)"

subsection \<open>What is printed\<close>

definition column :: "char list \<Rightarrow> char list" where
  "column t = t @ replicate (15 - length t) (CHR '' '')"

lemma pad_loop_eq:
  "idx + n \<le> length buf \<Longrightarrow> pad_loop n idx buf = Inr (splice idx (replicate n (CHR '' '')) buf)"
proof (induction n arbitrary: idx buf)
  case (Suc n)
  have "splice (Suc idx) (replicate n (CHR '' '')) (buf[idx := CHR '' '']) = splice idx (replicate (Suc n) (CHR '' '')) buf"
    using Suc.prems by (auto intro!: nth_equalityI simp: nth_splice nth_list_update nth_Cons')
  then show ?case using Suc by simp
qed simp

lemma stdout_write_eq:
  assumes "n \<le> length buf" "n < 1024" "NUL \<notin> set (take n buf)"
  shows "stdout_write buf n = Inr (take n buf)"
proof -
  have "takeWhile (\<lambda>c. c \<noteq> NUL) (take n buf @ replicate (1024 - n) NUL) = take n buf"
    using assms by (subst takeWhile_append2) auto
  then show ?thesis using assms by (simp add: stdout_write_def)
qed

lemma pad_print_eq:
  assumes "pad_format (replicate 16 NUL) arg = Inr (length t, t @ replicate (16 - length t) NUL)"
    "length t < 16" "NUL \<notin> set t"
  shows "pad_print (replicate 16 NUL) 16 arg = Inr (column t)"
proof -
  let ?b = "t @ replicate (16 - length t) (CHR '' '')"
  have "pad_loop (16 - length t) (length t) (t @ replicate (16 - length t) NUL) = Inr ?b"
    using assms(2) by (subst pad_loop_eq) (simp_all add: splice_def)
  moreover have "take 15 ?b = column t" using assms(2) by (simp add: column_def min_def)
  moreover have "NUL \<notin> set (column t)" using assms(3) by (auto simp: column_def)
  ultimately show ?thesis
    using assms(1,2) stdout_write_eq [of 15 ?b] by (simp add: pad_print_def)
qed

lemma pad_columns:
  "pad_print (replicate 16 NUL) 16 (Pad_d v) = Inr (column (int_text (scast v)))"
  "pad_print (replicate 16 NUL) 16 (Pad_x w) = Inr (column (num_text 16 (unat w)))"
  "c_str obj t \<Longrightarrow> length t < 16 \<Longrightarrow> pad_print (replicate 16 NUL) 16 (Pad_s obj) = Inr (column t)"
proof -
  show "pad_print (replicate 16 NUL) 16 (Pad_d v) = Inr (column (int_text (scast v)))"
    using vsprintf_int [of 16 "scast v"] length_int_text [of "scast v"] int_text_no_nul
    by (intro pad_print_eq) (simp_all add: sprintf_def)
  show "pad_print (replicate 16 NUL) 16 (Pad_x w) = Inr (column (num_text 16 (unat w)))"
    using vsprintf_hex [of 16 w] num_text_u32(2) [of w] hex_no_nul
    by (intro pad_print_eq) (simp_all add: sprintf_def)
  show "pad_print (replicate 16 NUL) 16 (Pad_s obj) = Inr (column t)" if "c_str obj t" "length t < 16"
    using vsprintf_str [OF that] that by (intro pad_print_eq) (simp_all add: sprintf_def c_str_def)
qed

definition ps_row :: "task_struct \<Rightarrow> char list \<Rightarrow> char list" where
  "ps_row t nm =
     column (int_text (scast (pid t))) @
     column (if parent_pid t = - 1 then ''NULL'' else int_text (scast (parent_pid t))) @
     column (status_text (status t)) @ column (num_text 16 (unat (elapsed_ticks t))) @ nm @ [CHR 0x0A]"

lemma status_columns: "pad_print (replicate 16 NUL) 16 (Pad_s (status_text st @ [NUL])) = Inr (column (status_text st))"
  by (rule pad_columns(3)) (cases st; simp add: c_str_Cons)+

lemma parent_columns:
  "pad_print (replicate 16 NUL) 16 (if q = - 1 then Pad_s (''NULL'' @ [NUL]) else Pad_d q) =
     Inr (column (if q = - 1 then ''NULL'' else int_text (scast q)))"
  using pad_columns(3) [of "''NULL'' @ [NUL]" "''NULL''"] pad_columns(1) [of q] by (simp add: c_str_Cons)

lemma elem2thread_info_eq:
  assumes "c_str (name t) nm" "length (name t) = 16"
  shows "elem2thread_info t =
    (if length nm < 15 then Inr (ps_row t nm) else Inl Out_of_bounds)"
proof -
  have n: "strlen (name t) = Inr (length nm)" "take (length nm) (name t) = nm" "NUL \<notin> set nm" "length nm < 16"
    using assms by (auto simp: strlen_c_str c_str_def)
  have cat: "strcat (nm @ replicate k NUL) [CHR 0x0A, NUL] =
      (if 1 < k then Inr (nm @ [CHR 0x0A] @ replicate (k - 1) NUL) else Inl Out_of_bounds)" for k
    using n(3)
  proof (induction nm)
    case Nil
    then show ?case by (cases k; cases "k - 1") auto
  qed auto
  show ?thesis
  proof (cases "length nm < 15")
    case True
    let ?o = "nm @ [CHR 0x0A] @ replicate (15 - length nm) NUL"
    have "strlen ?o = Inr (length nm + 1)"
      using True n(3) strlen_padded [of "nm @ [CHR 0x0A]" "15 - length nm"] by simp
    moreover have "stdout_write ?o (length nm + 1) = Inr (nm @ [CHR 0x0A])"
      using True n(3) stdout_write_eq [of "length nm + 1" ?o] by simp
    ultimately show ?thesis
      using True n cat [of "16 - length nm"]
      by (simp add: elem2thread_info_def pad_columns(1,2) status_columns parent_columns ps_row_def Suc_diff_Suc
          del: replicate.simps)
  next
    case False
    then have "16 - length nm = 1" using n(4) by simp
    then show ?thesis
      using False n cat [of 1]
      by (simp add: elem2thread_info_def pad_columns(1,2) status_columns parent_columns del: replicate.simps)
  qed
qed

lemma tag_back [simp]: "all_list_tag p - 76 = p"
  by (simp add: all_list_tag_def)

lemma ps_loop_chain:
  assumes "chain (mm s) a (map all_list_tag A) tail" "tail \<notin> all_list_tag ` set A"
    "\<forall>p\<in>set A. c_str (name (task s p)) (nm p) \<and> length (name (task s p)) = 16"
  shows "ps_loop s tail (nxt (mm s) a) out =
    Some (if \<forall>p\<in>set A. length (nm p) < 15 then Inr (out @ concat (map (\<lambda>p. ps_row (task s p) (nm p)) A))
          else Inl Out_of_bounds)"
  using assms
proof (induction A arbitrary: a out)
  case Nil
  then show ?case by (simp add: ps_loop.simps)
next
  case (Cons p A)
  have nx: "nxt (mm s) a = all_list_tag p" "chain (mm s) (all_list_tag p) (map all_list_tag A) tail"
    using Cons.prems(1) by simp_all
  note row = elem2thread_info_eq [of "task s p" "nm p"]
  show ?case
    using Cons.prems Cons.IH [OF nx(2)] nx(1) row
    by (subst ps_loop.simps) auto
qed

lemma title_shown: "bindE (strlen ps_title) (stdout_write ps_title) = Inr (butlast ps_title)"
proof -
  have t: "c_str ps_title (butlast ps_title)" "length ps_title = 74"
    by (simp_all add: ps_title_def c_str_Cons)
  then show ?thesis
    using stdout_write_eq [of 73 ps_title] by (simp add: strlen_c_str butlast_conv_take c_str_def)
qed

text \<open>C38: \<^verbatim>\<open>sys_ps\<close> prints the title and then one line for each thread, in the order of the list of all threads, with
  the identifier, that of the parent, the state, the ticks in hexadecimal and the name, unless some
  name has fifteen characters, the most a terminated name in the field of 16 bytes can have: then the newline and its terminator do not fit behind it in the buffer.\<close>

theorem sys_ps_lists:
  assumes "klist (mm s) (thread_all_list s) (map all_list_tag A)"
    "\<forall>p\<in>set A. c_str (name (task s p)) (nm p) \<and> length (name (task s p)) = 16"
  shows "sys_ps s =
    Some (if \<forall>p\<in>set A. length (nm p) < 15
          then Inr (butlast ps_title @ concat (map (\<lambda>p. ps_row (task s p) (nm p)) A))
          else Inl Out_of_bounds)"
proof (cases A)
  case Nil
  then show ?thesis using kl.empt_iff [OF assms(1)] by (simp add: sys_ps_def title_shown)
next
  case (Cons p B)
  then have "\<not> list_empty (thread_all_list s) (mm s)" using kl.empt_iff [OF assms(1)] by simp
  moreover have "chain (mm s) (list_head (thread_all_list s)) (map all_list_tag A) (list_tail (thread_all_list s))"
    "list_tail (thread_all_list s) \<notin> all_list_tag ` set A"
    using assms(1) by (auto simp: klist_def)
  ultimately show ?thesis
    using ps_loop_chain [OF _ _ assms(2)] by (simp add: sys_ps_def title_shown)
qed

definition demo_ps :: "char list \<Rightarrow> ksched" where
  "demo_ps nm = demo_sched\<lparr>mm := list_append 0x200 (all_list_tag 0x1000) (list_init 0x200 (mm demo_sched)),
     task := (\<lambda>p. (demo_task TASK_RUNNING p)\<lparr>name := nm @ replicate (16 - length nm) NUL\<rparr>)\<rparr>"

lemma demo_ps_list: "klist (mm (demo_ps nm)) 0x200 (map all_list_tag [0x1000])"
  using kl.app_holds [OF klist_init, of "all_list_tag 0x1000" "0x200" "mm demo_sched"]
  by (simp add: demo_ps_def foot_def list_head_def list_tail_def all_list_tag_def)

theorem sys_ps_lists_witness:
  "sys_ps (demo_ps ''fifteen_letters'') = Some (Inl Out_of_bounds)"
  using sys_ps_lists [of "demo_ps ''fifteen_letters''" "[0x1000]" "\<lambda>_. ''fifteen_letters''"]
    demo_ps_list [of "''fifteen_letters''"]
  by (simp add: demo_ps_def demo_sched_def c_str_Cons)

section \<open>A free lock\<close>

text \<open>The lists and the interrupt flag are the same outside the addresses \<open>X\<close>.\<close>

definition lists_off :: "u32 set \<Rightarrow> vm \<Rightarrow> vm \<Rightarrow> bool" where
  "lists_off X m m' \<longleftrightarrow> (\<forall>a. a \<notin> X \<longrightarrow> prev m' a = prev m a \<and> nxt m' a = nxt m a) \<and> eflags m' = eflags m"

definition window :: "u32 set" where
  "window = {a. 0xffc00000 \<le> unat a}"

lemma lists_off_refl [simp]: "lists_off X m m"
  by (simp add: lists_off_def)

lemma lists_off_trans: "lists_off X a b \<Longrightarrow> lists_off Y b c \<Longrightarrow> X \<union> Y \<subseteq> Z \<Longrightarrow> lists_off Z a c"
  unfolding lists_off_def by (metis Un_iff subsetD)

lemma lists_off_klist:
  assumes "lists_off X m m'" "foot l xs \<inter> X = {}"
  shows "klist m' l xs = klist m l xs"
proof -
  have "chain m' (list_head l) xs (list_tail l) = chain m (list_head l) xs (list_tail l)"
    by (rule chain_cong) (use assms in \<open>auto simp: lists_off_def foot_def\<close>)
  then show ?thesis by (simp add: klist_def)
qed

lemma lists_off_upd [simp]:
  "lists_off X m (set_pool pf q m') = lists_off X m m'" "lists_off X m (set_vaddr pf v m') = lists_off X m m'"
  "lists_off X m (set_cell a w m') = lists_off X m m'"
  by (cases pf; simp add: lists_off_def set_cell_def)+

lemma palloc_lists: "palloc pf m = Inr (a, m') \<Longrightarrow> lists_off {} m m'"
  by (auto simp: palloc_def Let_def result_elims simp del: set_pool.simps get_pool.simps split: if_splits)

lemma window_page: "in_range (pte_ptr v AND 0xfffff000) PG_SIZE x \<Longrightarrow> x \<in> window"
proof -
  let ?b = "pte_ptr v AND 0xfffff000"
  assume r: "in_range ?b PG_SIZE x"
  obtain k where k: "unat ?b = k * 4096" "k = unat (pte_ptr v) div 4096" by (simp add: unat_page)
  have "1047552 * 4096 div 4096 \<le> k" unfolding k(2) unat_pte_ptr by (rule div_le_mono) simp
  then have b: "0xffc00000 \<le> unat ?b" unfolding k(1) by simp
  have "k < 1048576" using unat_lt [of ?b] unfolding k(1) by simp
  then have "unat ?b + 4096 \<le> 2 ^ 32" unfolding k(1) by simp
  moreover have "unat (x - ?b) < 4096" using r by (simp add: in_range_def PG_SIZE_def)
  ultimately have "unat ?b \<le> unat x" using unat_add_u32 [of "x - ?b" ?b] by simp
  then show ?thesis using b by (simp add: window_def)
qed

lemma page_table_add_lists: "page_table_add v a m = Inr m' \<Longrightarrow> lists_off window m m'"
  using window_page [of v]
  by (auto simp: page_table_add_def Let_def result_elims lists_off_def mem_zero_def set_cell_def
      split: if_splits dest!: palloc_lists)

lemma map_pages_lists: "map_pages pf n v m = Inr (b, m') \<Longrightarrow> lists_off window m m'"
proof (induction n arbitrary: v m)
  case (Suc n)
  then obtain f m1 where f: "palloc pf m = Inr (f, m1)"
    "(if f = 0 then Inr (False, m1) else bindE (page_table_add v f m1) (map_pages pf n (v + 4096))) = Inr (b, m')"
    by (auto simp: result_elims)
  have "lists_off window m1 m'"
    using f(2) Suc.IH by (auto simp: result_elims split: if_splits dest!: page_table_add_lists intro: lists_off_trans)
  then show ?case using lists_off_trans [OF palloc_lists [OF f(1)]] by simp
qed simp

lemma vaddr_get_lists: "vaddr_get pf n m = Inr (a, m') \<Longrightarrow> lists_off {} m m'"
  by (auto simp: vaddr_get_def Let_def result_elims simp del: set_vaddr.simps get_vaddr.simps split: if_splits)

lemma get_kernel_pages_lists:
  assumes "get_kernel_pages 1 m = Inr (p, m')"
  shows "lists_off (window \<union> {x. in_range p PG_SIZE x}) m m'"
proof -
  obtain m1 where m1: "malloc_page PF_KERNEL 1 m = Inr (p, m1)" "m' = (if p \<noteq> 0 then mem_zero p PG_SIZE m1 else m1)"
    using assms by (auto simp: get_kernel_pages_def result_elims split: if_splits)
  have "lists_off window m m1"
    using m1(1)
    by (auto simp: malloc_page_def result_elims simp del: map_pages.simps One_nat_def split: if_splits
        dest!: vaddr_get_lists map_pages_lists intro: lists_off_trans)
  then show ?thesis using m1(2) by (auto simp: lists_off_def mem_zero_def)
qed

definition lock_free :: "u32 \<Rightarrow> 'a klock_scheme \<Rightarrow> bool" where
  "lock_free lk s \<longleftrightarrow> sm_value s (lock_sema lk) = 1 \<and> lk_holder s lk = 0 \<and> lk_repeat s lk = 0 \<and>
     klist (mm s) (wait_list lk) [] \<and> running_thread s \<noteq> 0"

lemma lock_take_free:
  assumes "lock_free lk s"
  shows "lock_take lk s =
    Inr (s\<lparr>sm_old := (sm_old s)(running_thread s := fst (intr_disable (mm s))),
           sm_value := (sm_value s)(lock_sema lk := 0),
           lk_holder := (lk_holder s)(lk := running_thread s), lk_repeat := (lk_repeat s)(lk := 1)\<rparr>)"
proof -
  have "snd (intr_set_status (fst (intr_disable (mm s))) (snd (intr_disable (mm s)))) = mm s"
    using restore_flag [of "snd (intr_disable (mm s))" "mm s"] by (simp add: disable_flag)
  then show ?thesis
    using assms
    by (simp add: lock_take_def lock_acquire_def lock_acquired_def lock_free_def sema_down_def sema_try_def Let_def
        split_beta on_mm_def running_thread_def)
qed

lemma lock_release_free:
  assumes "lk_holder s lk = running_thread s" "lk_repeat s lk = 1" "sm_value s (lock_sema lk) = 0"
    "klist (mm s) (wait_list lk) []"
  shows "lock_release lk s =
    Inr (s\<lparr>sm_value := (sm_value s)(lock_sema lk := 1), lk_holder := (lk_holder s)(lk := 0),
           lk_repeat := (lk_repeat s)(lk := 0)\<rparr>)"
proof -
  have "snd (intr_set_status (fst (intr_disable (mm s))) (snd (intr_disable (mm s)))) = mm s"
    using restore_flag [of "snd (intr_disable (mm s))" "mm s"] by (simp add: disable_flag)
  moreover have "list_empty (wait_list lk) (snd (intr_disable (mm s)))"
    using kl.empt_iff [of "snd (intr_disable (mm s))" "wait_list lk" "[]"] assms(4) by (simp add: disabled_list)
  ultimately show ?thesis
    using assms(1-3) by (simp add: lock_release_def lock_release_begin_def sema_up_def Let_def split_beta on_mm_def)
qed

lemma pid_increment_free:
  assumes "lock_free (pid_lock s) s"
  shows "pid_increment s =
    Inr (s\<lparr>sm_old := (sm_old s)(running_thread s := fst (intr_disable (mm s))), next_pid := next_pid s + 1\<rparr>)"
proof -
  let ?lk = "pid_lock s"
  let ?t = "s\<lparr>sm_old := (sm_old s)(running_thread s := fst (intr_disable (mm s))),
      sm_value := (sm_value s)(lock_sema ?lk := 0), lk_holder := (lk_holder s)(?lk := running_thread s),
      lk_repeat := (lk_repeat s)(?lk := 1), next_pid := next_pid s + 1\<rparr>"
  have "lock_release ?lk ?t = Inr (?t\<lparr>sm_value := (sm_value ?t)(lock_sema ?lk := 1), lk_holder := (lk_holder ?t)(?lk := 0),
      lk_repeat := (lk_repeat ?t)(?lk := 0)\<rparr>)"
    using assms by (intro lock_release_free) (simp_all add: lock_free_def running_thread_def)
  moreover have "(sm_value s)(lock_sema ?lk := 1) = sm_value s" "(lk_holder s)(?lk := 0) = lk_holder s"
    "(lk_repeat s)(?lk := 0) = lk_repeat s"
    using assms by (simp_all add: lock_free_def fun_upd_idem)
  ultimately show ?thesis
    by (simp add: pid_increment_def lock_take_free [OF assms])
qed

text \<open>The identifier is read after the lock is released. When another thread allocates between the two, both get the
  identifier of the second.\<close>

lemma pid_read_late:
  assumes "lock_free (pid_lock s) s" "pid_increment s = Inr s1"
    and "next_pid t = next_pid s1" "lock_free (pid_lock t) t" "allocate_pid t = Inr (second, s2)"
    and "next_pid u = next_pid s2"
  shows "pid_read u = second \<and> second = next_pid s + 2"
  using assms pid_increment_free [OF assms(1)] pid_increment_free [OF assms(4)]
  by (auto simp: allocate_pid_def pid_read_def)

section \<open>A new thread\<close>

lemma pcb_offset:
  assumes "pcb p" "unat c < 4096"
  shows "(p + c) AND 0xfffff000 = p"
proof -
  have "unat p div 4096 * 4096 = unat p" using assms(1) unfolding pcb_def by (metis unat_page)
  then obtain k where k: "unat p = k * 4096" by metis
  then have "k < 2 ^ 20" using unat_lt [of p] by simp
  then have "unat (p + c) = k * 4096 + unat c" using unat_add_u32 [of p c] k assms(2) by simp
  then have "unat ((p + c) AND 0xfffff000) = unat p" using assms(2) by (simp add: unat_page k)
  then show ?thesis by (simp add: word_unat_eq_iff)
qed

abbreviation page_at :: "u32 \<Rightarrow> u32 set" where
  "page_at p \<equiv> {x. in_range p PG_SIZE x}"

lemma pcb_nodes_page: "pcb_nodes p \<subseteq> page_at p"
proof -
  have "unat (of_nat i * 24 + 108 :: u32) < 4096 \<and> unat (of_nat i * 24 + 116 :: u32) < 4096" if "i < 7" for i :: nat
  proof -
    have "i \<in> {0, 1, 2, 3, 4, 5, 6}" using that by auto
    then show ?thesis by auto
  qed
  moreover have "in_range p PG_SIZE (general_tag p)" "in_range p PG_SIZE (all_list_tag p)"
    by (simp_all add: in_range_def PG_SIZE_def general_tag_def all_list_tag_def)
  ultimately show ?thesis
    by (auto simp: pcb_nodes_def in_range_def PG_SIZE_def foot_def list_head_def
        list_tail_def free_list_def desc_addr_def u_block_desc_def DESC_CNT_def algebra_simps)
qed

text \<open>The thread system: the scheduler's lists, the list of all threads, and the free lock of the identifiers,
  none of which share a node. A page is fresh when it is none of theirs.\<close>

definition threads_inv :: "u32 set \<Rightarrow> u32 \<Rightarrow> u32 list \<Rightarrow> u32 list \<Rightarrow> kthread \<Rightarrow> bool" where
  "threads_inv T r R A s \<longleftrightarrow>
     sched_rel T r R s \<and> klist (mm s) (thread_all_list s) (map all_list_tag A) \<and> lock_free (pid_lock s) s \<and>
     foot (thread_ready_list s) (map general_tag R) \<inter> foot (thread_all_list s) (map all_list_tag A) = {} \<and>
     foot (wait_list (pid_lock s)) [] \<inter>
       (foot (thread_ready_list s) (map general_tag R) \<union> foot (thread_all_list s) (map all_list_tag A)) = {}"

definition fresh_page :: "u32 \<Rightarrow> u32 set \<Rightarrow> u32 list \<Rightarrow> u32 list \<Rightarrow> kthread \<Rightarrow> bool" where
  "fresh_page p T R A s \<longleftrightarrow> pcb p \<and> p \<notin> T \<and> p \<noteq> main_thread s \<and>
     (foot (thread_ready_list s) (map general_tag R) \<union> foot (thread_all_list s) (map all_list_tag A) \<union>
      foot (wait_list (pid_lock s)) []) \<inter> (window \<union> page_at p) = {}"

text \<open>The control block that \<^verbatim>\<open>init_thread\<close> and \<^verbatim>\<open>thread_create\<close> leave.\<close>

definition new_task :: "u32 \<Rightarrow> 16 word \<Rightarrow> char list \<Rightarrow> u8 \<Rightarrow> task_struct" where
  "new_task p i nm prio = zero_task\<lparr>pid := i, name := nm @ replicate (16 - length nm) NUL, status := TASK_READY,
     self_kstack := p + 3664, priority := prio, ticks := prio, fd_table := fd_standard, parent_pid := - 1,
     stack_magic := 0x12345678\<rparr>"

definition enters :: "u32 \<Rightarrow> u32 \<Rightarrow> u32 \<Rightarrow> u32 \<Rightarrow> vm \<Rightarrow> bool" where
  "enters k eip function func_arg m \<longleftrightarrow>
     cell m (k + 16) = eip \<and> cell m (k + 24) = function \<and> cell m (k + 28) = func_arg \<and>
     cell m k = 0 \<and> cell m (k + 4) = 0 \<and> cell m (k + 8) = 0 \<and> cell m (k + 12) = 0"

lemma memset_fields [simp]:
  fixes s :: kthread
  shows "pid_lock (memset_pcb p s) = pid_lock s" "next_pid (memset_pcb p s) = next_pid s"
    "main_thread (memset_pcb p s) = main_thread s" "esp (memset_pcb p s) = esp s"
    "task (memset_pcb p s) = (task s)(p := zero_task)" "kernel_thread_fn (memset_pcb p s) = kernel_thread_fn s"
    "eflags (mm (memset_pcb p s)) = eflags (mm s)" "thread_ready_list (memset_pcb p s) = thread_ready_list s"
    "thread_all_list (memset_pcb p s) = thread_all_list s" "sm_value (memset_pcb p s) = sm_value s"
    "lk_holder (memset_pcb p s) = lk_holder s" "lk_repeat (memset_pcb p s) = lk_repeat s"
    "running_thread (memset_pcb p s) = running_thread s"
  by (simp_all add: memset_pcb_def set_task_def on_mm_def running_thread_def)

lemma created:
  assumes "lock_free (pid_lock s) (memset_pcb p s)" "p \<noteq> 0" "p \<noteq> main_thread s" "c_str obj nm" "length nm < 16"
  shows "\<exists>t. init_thread p obj prio s = Inr t \<and>
    (let u = thread_create p f a t in
      task u = (task s)(p := new_task p (next_pid s + 1) nm prio) \<and> next_pid u = next_pid s + 1 \<and>
      enters (p + 3664) (kernel_thread_fn s) f a (mm u) \<and> esp u = esp s \<and>
      prev (mm u) = prev (mm (memset_pcb p s)) \<and> nxt (mm u) = nxt (mm (memset_pcb p s)) \<and> eflags (mm u) = eflags (mm s) \<and>
      thread_ready_list u = thread_ready_list s \<and> thread_all_list u = thread_all_list s \<and> pid_lock u = pid_lock s \<and>
      sm_value u = sm_value s \<and> lk_holder u = lk_holder s \<and> lk_repeat u = lk_repeat s)"
proof -
  let ?m = "memset_pcb p s"
  let ?i = "?m\<lparr>sm_old := (sm_old ?m)(running_thread ?m := fst (intr_disable (mm ?m))), next_pid := next_pid ?m + 1\<rparr>"
  have "allocate_pid ?m = Inr (next_pid s + 1, ?i)"
    using assms(1) pid_increment_free [of ?m] by (simp add: allocate_pid_def pid_read_def)
  moreover have "strcpy (name (task ?i p)) obj = Inr (nm @ replicate (16 - length nm) NUL)"
    using strcpy_c_str [OF assms(4), of "replicate 16 NUL"] assms(5)
    by (simp add: zero_task_def Suc_diff_Suc replicate_Suc [symmetric] del: replicate_Suc replicate.simps)
  ultimately show ?thesis
    using assms(2,3)
    by (auto simp: init_thread_def thread_create_def Let_def set_task_def on_mm_def new_task_def enters_def
        zero_task_def fun_eq_iff)
qed

lemma enlist_ok:
  assumes R: "klist (mm s) (thread_ready_list s) (map general_tag R)"
    and A: "klist (mm s) (thread_all_list s) (map all_list_tag A)"
    and d: "foot (thread_ready_list s) (map general_tag R) \<inter> foot (thread_all_list s) (map all_list_tag A) = {}"
    and p: "{general_tag p, all_list_tag p} \<inter>
        (foot (thread_ready_list s) (map general_tag R) \<union> foot (thread_all_list s) (map all_list_tag A)) = {}"
  shows "\<exists>m. enlist p s = Inr (s\<lparr>mm := m\<rparr>) \<and> klist m (thread_ready_list s) (map general_tag (R @ [p])) \<and>
    klist m (thread_all_list s) (map all_list_tag (A @ [p])) \<and> cell m = cell (mm s) \<and> eflags m = eflags (mm s) \<and>
    (\<forall>l. klist (mm s) l [] \<longrightarrow> foot l [] \<inter> (foot (thread_ready_list s) (map general_tag R) \<union>
       foot (thread_all_list s) (map all_list_tag A) \<union> {general_tag p, all_list_tag p}) = {} \<longrightarrow> klist m l [])"
proof -
  let ?r = "thread_ready_list s" and ?a = "thread_all_list s"
  let ?m1 = "list_append ?r (general_tag p) (mm s)" let ?m2 = "list_append ?a (all_list_tag p) ?m1"
  have ne: "general_tag p \<noteq> all_list_tag p" by (simp add: general_tag_def all_list_tag_def)
  have n: "general_tag p \<notin> set (map general_tag R)" "all_list_tag p \<notin> set (map all_list_tag A)"
    using p by (auto simp: foot_def)
  have r1: "klist ?m1 ?r (map general_tag (R @ [p]))" using kl.app_holds [OF R] p by simp
  have a1: "klist ?m1 ?a (map all_list_tag A)" using kl.app_other [OF R A d] p by simp
  have a1': "klist (mm (s\<lparr>mm := ?m1\<rparr>)) ?a (map all_list_tag A)" using a1 by simp
  have a2: "klist ?m2 ?a (map all_list_tag (A @ [p]))" using kl.app_holds [OF a1] p by simp
  have d': "foot ?a (map all_list_tag A) \<inter> foot ?r (map general_tag (R @ [p])) = {}"
    using d p by (auto simp: foot_def)
  have r2: "klist ?m2 ?r (map general_tag (R @ [p]))"
    using kl.app_other [OF a1 r1 d'] p ne by (auto simp: foot_def)
  have o: "klist ?m2 l []" if "klist (mm s) l []" "foot l [] \<inter> (foot ?r (map general_tag R) \<union>
       foot ?a (map all_list_tag A) \<union> {general_tag p, all_list_tag p}) = {}" for l
    using that kl.app_other [OF R that(1), of "general_tag p"]
      kl.app_other [OF a1, of l "[]" "all_list_tag p"] by (simp add: Int_Un_distrib Int_commute)
  have "enlist p s = Inr (s\<lparr>mm := ?m2\<rparr>)"
    by (simp add: enlist_def enlist_all_def not_in_ok [OF R n(1)] not_in_ok [OF a1' n(2)] on_mm_def)
  moreover have "cell ?m2 = cell (mm s)" "eflags ?m2 = eflags (mm s)"
    by (simp_all add: list_append_def insert_before_eq)
  ultimately show ?thesis using r2 a2 o by blast
qed

text \<open>C11: \<^verbatim>\<open>thread_start\<close> keeps the invariant of the thread system. With the lock of the identifiers free and a page
  that no list uses, it returns; the new thread is ready behind the others and last in the list of all threads; its
  identifier is the next one; its first switch enters \<^verbatim>\<open>kernel_thread\<close> with the function and its argument
  on a stack inside its page; and no other control block has changed.\<close>

theorem thread_start_ready:
  assumes inv: "threads_inv T r R A s" and pg: "get_kernel_pages 1 (mm s) = Inr (p, m)"
    and fresh: "fresh_page p T R A s" and nm: "c_str obj nm" "length nm < 16"
  shows "\<exists>s'. thread_start obj prio f a s = Inr (p, s') \<and> threads_inv (insert p T) r (R @ [p]) (A @ [p]) s' \<and>
    task s' = (task s)(p := new_task p (next_pid s + 1) nm prio) \<and> next_pid s' = next_pid s + 1 \<and>
    enters (self_kstack (task s' p)) (kernel_thread_fn s) f a (mm s')"
proof -
  let ?X = "window \<union> page_at p" and ?r = "thread_ready_list s" and ?a = "thread_all_list s" and ?w = "wait_list (pid_lock s)"
  let ?g = "map general_tag" and ?t = "map all_list_tag"
  have rel: "sched_rel T r R s" and A: "klist (mm s) ?a (?t A)" and free: "lock_free (pid_lock s) s"
    and d: "foot ?r (?g R) \<inter> foot ?a (?t A) = {}" "foot ?w [] \<inter> (foot ?r (?g R) \<union> foot ?a (?t A)) = {}"
    using inv by (simp_all add: threads_inv_def)
  have p: "pcb p" "p \<noteq> 0" "p \<notin> T" "p \<noteq> main_thread s" and X: "(foot ?r (?g R) \<union> foot ?a (?t A) \<union> foot ?w []) \<inter> ?X = {}"
    using fresh by (auto simp: fresh_page_def pcb_def)
  have r: "running_thread s = r" "r \<in> T" "set R \<subseteq> T" "r \<notin> set R" and R: "klist (mm s) ?r (?g R)"
    using rel unfolding sched_rel_def by blast+
  let ?s = "s\<lparr>mm := m\<rparr>" let ?z = "memset_pcb p ?s"
  have off: "lists_off ?X (mm s) (mm ?z)"
    using get_kernel_pages_lists [OF pg] pcb_nodes_page [of p]
    by (auto simp: lists_off_def memset_pcb_def sched_simps)
  have keep: "klist (mm ?z) l xs = klist (mm s) l xs" if "foot l xs \<inter> ?X = {}" for l xs
    using lists_off_klist [OF off that] .
  have "lock_free (pid_lock s) ?z"
    using free keep [of ?w "[]"] X by (auto simp: lock_free_def running_thread_def)
  then have "lock_free (pid_lock ?s) ?z" by simp
  from created [OF this p(2) _ nm, of prio f a] p(4) obtain t u where
    t: "init_thread p obj prio ?s = Inr t" "u = thread_create p f a t"
    and u: "task u = (task s)(p := new_task p (next_pid s + 1) nm prio)" "next_pid u = next_pid s + 1"
      "enters (p + 3664) (kernel_thread_fn s) f a (mm u)" "esp u = esp s" "prev (mm u) = prev (mm ?z)" "nxt (mm u) = nxt (mm ?z)"
      "thread_ready_list u = ?r" "thread_all_list u = ?a" "pid_lock u = pid_lock s"
      "sm_value u = sm_value s" "lk_holder u = lk_holder s" "lk_repeat u = lk_repeat s"
    by (auto simp: Let_def)
  have ku: "klist (mm u) l xs = klist (mm s) l xs" if "foot l xs \<inter> ?X = {}" for l xs
    using keep [OF that] klist_field_cong [OF u(5,6)] by simp
  have tags: "{general_tag p, all_list_tag p} \<subseteq> ?X" using pcb_nodes_page [of p] by (auto simp: pcb_nodes_def)
  have X': "foot ?r (?g R) \<inter> ?X = {}" "foot ?a (?t A) \<inter> ?X = {}" "foot ?w [] \<inter> ?X = {}" using X by blast+
  have p': "{general_tag p, all_list_tag p} \<inter> (foot ?r (?g R) \<union> foot ?a (?t A)) = {}" using tags X by blast
  obtain m' where m': "enlist p u = Inr (u\<lparr>mm := m'\<rparr>)" "klist m' ?r (?g (R @ [p]))" "klist m' ?a (?t (A @ [p]))"
      "cell m' = cell (mm u)" "klist (mm u) ?w [] \<longrightarrow> foot ?w [] \<inter> (foot ?r (?g R) \<union> foot ?a (?t A) \<union>
         {general_tag p, all_list_tag p}) = {} \<longrightarrow> klist m' ?w []"
    using enlist_ok [of u R A p] ku [OF X'(1)] ku [OF X'(2)] R A d(1) p' u(7,8) by auto
  have w: "klist m' ?w []"
    using m'(5) ku [OF X'(3)] free d(2) tags X by (auto simp: lock_free_def)
  let ?u = "u\<lparr>mm := m'\<rparr>"
  have "(p + 3664) AND 0xfffff000 = p" using pcb_offset [OF p(1), of 3664] by simp
  then have rel': "sched_rel (insert p T) r (R @ [p]) ?u"
    using rel m'(2) u p r tags X
    by (auto simp: sched_rel_def running_thread_def new_task_def foot_def)
  have d': "foot ?r (?g (R @ [p])) \<inter> foot ?a (?t (A @ [p])) = {}"
    "foot ?w [] \<inter> (foot ?r (?g (R @ [p])) \<union> foot ?a (?t (A @ [p]))) = {}"
    using d tags X by (auto simp: foot_def general_tag_def all_list_tag_def)
  have "threads_inv (insert p T) r (R @ [p]) (A @ [p]) ?u"
    unfolding threads_inv_def using rel' m'(3) d' w free u r
    by (auto simp: lock_free_def running_thread_def)
  then show ?thesis
    using pg t m'(1,4) u by (auto simp: thread_start_def enters_def new_task_def)
qed

definition demo_thread :: kthread where
  "demo_thread = lock_init 0x400
       \<lparr>mm = list_init 0x200 (mm demo_sched), esp = 0x1f00, cr3_reg = 0x100000, tss_st = tss_st demo_sched,
        task = task demo_sched, thread_ready_list = 0x100, thread_all_list = 0x200, main_thread = 0x1000,
        idle_thread = 0x3000, all_ticks = 0, blk_old = (\<lambda>_. INTR_OFF), sm_value = (\<lambda>_. 0), sm_old = (\<lambda>_. INTR_OFF),
        lk_holder = (\<lambda>_. 0), lk_repeat = (\<lambda>_. 0), next_pid = 2, pid_lock = 0x400, kernel_thread_fn = 0xc0001000,
        init_kthread_fn = 0xc0001100, idle_fn = 0xc0001200\<rparr>"

lemma demo_thread_fields:
  "thread_ready_list demo_thread = 0x100" "thread_all_list demo_thread = 0x200" "pid_lock demo_thread = 0x400"
  "main_thread demo_thread = 0x1000" "next_pid demo_thread = 2" "esp demo_thread = 0x1f00"
  "task demo_thread = task demo_sched" "kernel_thread_fn demo_thread = 0xc0001000"
  "mm demo_thread = list_init (wait_list 0x400) (list_init 0x200 (mm demo_sched))"
  by (simp_all add: demo_thread_def lock_init_def sema_init_def on_mm_def)

lemma demo_feet:
  "foot 0x100 [] = {0x100, 0x108}" "foot 0x200 [] = {0x200, 0x208}" "foot (wait_list 0x400) [] = {0x408, 0x410}"
  "general_tag 0x2000 = 0x2044"
  by (simp_all add: foot_def list_head_def list_tail_def sema_waiters_def lock_sema_def general_tag_def)

lemma foot_Cons: "foot l (x # xs) = insert x (foot l xs)"
  by (auto simp: foot_def)

lemma demo_threads: "threads_inv {0x1000, 0x2000, 0x3000} 0x1000 [0x2000] [] demo_thread"
proof -
  have "klist (mm demo_sched) 0x100 (map general_tag [0x2000])"
    using demo_rel by (simp add: sched_rel_def demo_sched_def)
  then have "klist (mm demo_thread) 0x100 (map general_tag [0x2000])"
    unfolding demo_thread_fields by (intro klist_init_other) (simp_all add: demo_feet foot_Cons)
  moreover have "klist (mm demo_thread) 0x200 []"
    unfolding demo_thread_fields by (intro klist_init_other klist_init) (simp add: demo_feet)
  moreover have "klist (mm demo_thread) (wait_list 0x400) []"
    unfolding demo_thread_fields by (rule klist_init)
  moreover have "lk_holder demo_thread 0x400 = 0" "lk_repeat demo_thread 0x400 = 0" "sm_value demo_thread (lock_sema 0x400) = 1"
    by (simp_all add: demo_thread_def lock_init_fields)
  ultimately show ?thesis
    using demo_rel
    by (auto simp: threads_inv_def lock_free_def sched_rel_def running_thread_def demo_thread_fields demo_feet foot_Cons
        demo_sched_def)
qed

lemma demo_page: "\<exists>m. get_kernel_pages 1 (mm demo_thread) = Inr (0xc0101000, m)"
proof -
  have "\<exists>p n. mm demo_thread = demo_vm\<lparr>eflags := 2, prev := p, nxt := n\<rparr>"
    by (simp add: demo_thread_fields demo_sched_def list_init_def list_append_def insert_before_eq Let_def) blast
  then obtain p n where m: "mm demo_thread = demo_vm\<lparr>eflags := 2, prev := p, nxt := n\<rparr>" by blast
  have "bitmap_scan \<lparr>btmp_bytes_len = 1, bits = [1]\<rparr> 1 = Inr 1" by code_simp
  then have "room PF_KERNEL 1 1 (mm demo_thread)"
    using demo_room unfolding m
    by (auto simp: room_def Let_def demo_vm_def vm_ok_def all_pf pool_cap_def unmapped_def free_frames_def pool_used_def
        unat_pde_ptr unat_pte_ptr)
  from malloc_page_ok [OF this] show ?thesis
    by (auto simp: get_kernel_pages_def m) (simp add: demo_vm_def)
qed

theorem thread_start_ready_witness:
  "\<exists>s'. thread_start (''worker'' @ [NUL]) 5 0xc0002000 7 demo_thread = Inr (0xc0101000, s') \<and>
     threads_inv {0xc0101000, 0x1000, 0x2000, 0x3000} 0x1000 [0x2000, 0xc0101000] [0xc0101000] s' \<and> next_pid s' = 3"
proof -
  obtain m where m: "get_kernel_pages 1 (mm demo_thread) = Inr (0xc0101000, m)" using demo_page by blast
  have "fresh_page 0xc0101000 {0x1000, 0x2000, 0x3000} [0x2000] [] demo_thread"
    by (auto simp: fresh_page_def pcb_def demo_thread_fields demo_feet foot_Cons window_def in_range_def PG_SIZE_def)
  from thread_start_ready [OF demo_threads m this, of "''worker'' @ [NUL]" "''worker''" 5 "0xc0002000" 7]
  show ?thesis by (auto simp: demo_thread_fields c_str_Cons)
qed

end
