(* ===== verification/Process.thy ===== *)
theory Process
  imports Thread Fs Heap
begin

text \<open>
  User processes: the parts of \<^verbatim>\<open>proc/process.c\<close> that create a process and start it. The switch between address spaces,
  \<^verbatim>\<open>page_dir_activate\<close> and \<^verbatim>\<open>process_activate\<close>, is in \<open>Sched\<close>.

  \<open>kproc\<close> puts the components together that processes use: threads and memory, the file system, and the
  contents of user memory. Every page directory has an address space of its own below 0xc0000000. \<open>umem\<close> is the memory of
  the one in force, byte by byte, and its page tables are the cells of \<open>mm\<close> behind 0xffc00000; \<open>spaces\<close> keeps both for the
  directories that are not in force. The directory itself is a page of the kernel and is seen through the window at
  0xfffff000 while it is in force. Page tables of the kernel, from 0xfff00000 on, are shared by all directories.
  The contents are kept by virtual address and not by frame, so that two pages on one frame would not show the same bytes; that
  the frames given out are distinct is proved on the page tables (\<open>Paging\<close>, \<open>Fork\<close>).
\<close>

section \<open>State\<close>

record space =
  sp_mem :: "u32 \<Rightarrow> u8"
  sp_cell :: "u32 \<Rightarrow> u32"

record kproc =
  kth :: kthread
  kfs :: fstate
  umem :: "u32 \<Rightarrow> u8"
  act_dir :: u32
  spaces :: "u32 \<Rightarrow> space"
  start_process_fn :: u32
  intr_exit_fn :: u32

definition on_th :: "(kthread \<Rightarrow> kthread result) \<Rightarrow> kproc \<Rightarrow> kproc result" where
  "on_th f s = bindE (f (kth s)) (\<lambda>t. Inr (s\<lparr>kth := t\<rparr>))"

definition on_vm :: "(vm \<Rightarrow> ('a \<times> vm) result) \<Rightarrow> kproc \<Rightarrow> ('a \<times> kproc) result" where
  "on_vm f s = bindE (f (mm (kth s))) (\<lambda>(x, m). Inr (x, s\<lparr>kth := (kth s)\<lparr>mm := m\<rparr>\<rparr>))"

definition set_pcb :: "u32 \<Rightarrow> (task_struct \<Rightarrow> task_struct) \<Rightarrow> kproc \<Rightarrow> kproc" where
  "set_pcb p f s = s\<lparr>kth := set_task p f (kth s)\<rparr>"

definition on_cells :: "((u32 \<Rightarrow> u32) \<Rightarrow> u32 \<Rightarrow> u32) \<Rightarrow> kproc \<Rightarrow> kproc" where
  "on_cells f s = s\<lparr>kth := on_mm (\<lambda>m. m\<lparr>cell := f (cell m)\<rparr>) (kth s)\<rparr>"

definition SELECTOR_U_CODE :: u32 where "SELECTOR_U_CODE = push_bit 3 5 + push_bit 2 0 + 3"

definition SELECTOR_U_DATA :: u32 where "SELECTOR_U_DATA = push_bit 3 6 + push_bit 2 0 + 3"

definition USER_STACK3_VADDR :: u32 where "USER_STACK3_VADDR = 0xc0000000 - 0x1000"

definition USER_VADDR_START :: u32 where "USER_VADDR_START = 0x8048000"

section \<open>The interrupt frame\<close>

text \<open>Byte offsets of the fields of \<^verbatim>\<open>struct intr_stack\<close>, which has 76 bytes.\<close>

datatype frame_field = F_vec_no | F_edi | F_esi | F_ebp | F_esp_dummy | F_ebx | F_edx | F_ecx | F_eax |
  F_gs | F_fs | F_es | F_ds | F_error_code | F_eip | F_cs | F_eflags | F_esp | F_ss

fun frame_off :: "frame_field \<Rightarrow> u32" where
  "frame_off F_vec_no = 0"
| "frame_off F_edi = 4"
| "frame_off F_esi = 8"
| "frame_off F_ebp = 12"
| "frame_off F_esp_dummy = 16"
| "frame_off F_ebx = 20"
| "frame_off F_edx = 24"
| "frame_off F_ecx = 28"
| "frame_off F_eax = 32"
| "frame_off F_gs = 36"
| "frame_off F_fs = 40"
| "frame_off F_es = 44"
| "frame_off F_ds = 48"
| "frame_off F_error_code = 52"
| "frame_off F_eip = 56"
| "frame_off F_cs = 60"
| "frame_off F_eflags = 64"
| "frame_off F_esp = 68"
| "frame_off F_ss = 72"

lemma frame_off_inj: "frame_off f = frame_off g \<longleftrightarrow> f = g"
  by (cases f; cases g) simp_all

text \<open>Assignments to fields of the frame at \<open>k\<close>, in order.\<close>

definition set_frame :: "u32 \<Rightarrow> (frame_field \<times> u32) list \<Rightarrow> kproc \<Rightarrow> kproc" where
  "set_frame k fvs s = on_cells (\<lambda>c. foldl (\<lambda>c (f, v). c(k + frame_off f := v)) c fvs) s"

definition frame :: "u32 \<Rightarrow> frame_field \<Rightarrow> kproc \<Rightarrow> u32" where
  "frame k f s = cell (mm (kth s)) (k + frame_off f)"

lemma frame_foldl:
  "foldl (\<lambda>c (f, v). c(k + frame_off f := v)) c fvs (k + frame_off g) =
     foldl (\<lambda>w (f, v). if f = g then v else w) (c (k + frame_off g)) fvs"
  by (induction fvs arbitrary: c) (auto simp: frame_off_inj)

lemma frame_set: "frame k g (set_frame k fvs s) = foldl (\<lambda>w (f, v). if f = g then v else w) (frame k g s) fvs"
  by (simp add: frame_def set_frame_def on_cells_def on_mm_def frame_foldl)

text \<open>The registers with which \<^verbatim>\<open>intr_exit\<close> of \<^verbatim>\<open>arch/x86/kernel.asm\<close> leaves the kernel when the stack pointer is at the
  frame \<open>k\<close>: the vector number, the slot of the stack pointer and the error code are skipped.\<close>

record user_context =
  u_edi :: u32
  u_esi :: u32
  u_ebp :: u32
  u_ebx :: u32
  u_edx :: u32
  u_ecx :: u32
  u_eax :: u32
  u_gs :: u32
  u_fs :: u32
  u_es :: u32
  u_ds :: u32
  u_eip :: u32
  u_cs :: u32
  u_eflags :: u32
  u_esp :: u32
  u_ss :: u32

definition intr_exit :: "u32 \<Rightarrow> kproc \<Rightarrow> user_context" where
  "intr_exit k s =
     \<lparr>u_edi = frame k F_edi s, u_esi = frame k F_esi s, u_ebp = frame k F_ebp s, u_ebx = frame k F_ebx s,
      u_edx = frame k F_edx s, u_ecx = frame k F_ecx s, u_eax = frame k F_eax s, u_gs = frame k F_gs s, u_fs = frame k F_fs s,
      u_es = frame k F_es s, u_ds = frame k F_ds s, u_eip = frame k F_eip s, u_cs = frame k F_cs s,
      u_eflags = frame k F_eflags s, u_esp = frame k F_esp s, u_ss = frame k F_ss s\<rparr>"

section \<open>Starting a process\<close>

text \<open>The result is the address of the frame with which the thread jumps to \<^verbatim>\<open>intr_exit\<close>.\<close>

definition start_process :: "u32 \<Rightarrow> kproc \<Rightarrow> (u32 \<times> kproc) result" where
  "start_process function s =
     (let cur = running_thread (kth s);
          k = self_kstack (task (kth s) cur) + 4 * 32;
          s = set_pcb cur (\<lambda>t. t\<lparr>self_kstack := k\<rparr>) s;
          s = set_frame k [(F_esp_dummy, 0), (F_ebp, 0), (F_esi, 0), (F_edi, 0), (F_eax, 0), (F_ecx, 0), (F_edx, 0), (F_ebx, 0),
                (F_gs, 0), (F_ds, SELECTOR_U_DATA), (F_es, SELECTOR_U_DATA), (F_fs, SELECTOR_U_DATA), (F_eip, function),
                (F_cs, SELECTOR_U_CODE), (F_eflags, push_bit 12 0 OR push_bit 9 1 OR push_bit 1 1)] s
      in bindE (on_vm (get_a_page PF_USER USER_STACK3_VADDR) s) (\<lambda>(page, s).
           Inr (k, set_frame k [(F_esp, page + 4096), (F_ss, SELECTOR_U_DATA)] s)))"

section \<open>Creating a process\<close>

text \<open>The entries of the kernel are copied from the directory in force, and the last entry leads to the directory itself.\<close>

definition create_page_dir :: "kproc \<Rightarrow> (u32 \<times> kproc) result" where
  "create_page_dir s =
     bindE (on_vm (get_kernel_pages 1) s) (\<lambda>(d, s).
       if d = 0 then Inr (0, s)
       else
         (let s = on_cells (\<lambda>c a. if in_range (d + 0x300 * 4) 1024 a then c (0xfffff000 + 0x300 * 4 + (a - (d + 0x300 * 4))) else c a) s;
              phy = addr_v2p d (mm (kth s))
          in Inr (d, on_cells (\<lambda>c. c(d + 1023 * 4 := phy OR 4 OR 2 OR 1)) s)))"

definition bitmap_len :: u32 where
  "bitmap_len = (0xc0000000 - USER_VADDR_START) div 4096 div 8"

definition create_user_vaddr_bitmap :: "u32 \<Rightarrow> kproc \<Rightarrow> kproc result" where
  "create_user_vaddr_bitmap p s =
     (let pg_cnt = unat (DIV_ROUND_UP bitmap_len 4096) in
      bindE (on_vm (get_kernel_pages pg_cnt) s) (\<lambda>(a, s).
        if a = 0 then Inl Out_of_bounds
        else
          bindE (bitmap_init \<lparr>btmp_bytes_len = bitmap_len, bits = replicate (pg_cnt * 4096) 0\<rparr>) (\<lambda>bm.
            Inr (set_pcb p (\<lambda>t. t\<lparr>userprog_vaddr := \<lparr>vaddr_bitmap = bm, vaddr_start = USER_VADDR_START\<rparr>\<rparr>) s))))"

definition process_execute :: "u32 \<Rightarrow> char list \<Rightarrow> kproc \<Rightarrow> kproc result" where
  "process_execute filename nm s =
     bindE (on_vm (get_kernel_pages 1) s) (\<lambda>(p, s).
     bindE (on_th (init_thread p nm default_prio) s) (\<lambda>s.
     bindE (create_user_vaddr_bitmap p s) (\<lambda>s.
     bindE (on_th (\<lambda>t. Inr (thread_create p (start_process_fn s) filename t)) s) (\<lambda>s.
     bindE (create_page_dir s) (\<lambda>(d, s).
     let s = set_pcb p (\<lambda>t. t\<lparr>pgdir := d\<rparr>) s;
         s = s\<lparr>kth := on_mm (block_desc_init (u_block_desc p)) (kth s)\<rparr>;
         old_status = fst (intr_disable (mm (kth s)));
         s = s\<lparr>kth := on_mm (\<lambda>m. snd (intr_disable m)) (kth s)\<rparr>
     in bindE (on_th (enlist p) s) (\<lambda>s.
          Inr (s\<lparr>kth := on_mm (\<lambda>m. snd (intr_set_status old_status m)) (kth s)\<rparr>)))))))"

section \<open>Mapping a user page\<close>

definition present :: "u32 \<Rightarrow> (u32 \<Rightarrow> u32) \<Rightarrow> bool" where
  "present v c \<longleftrightarrow> c (pde_ptr v) AND 1 \<noteq> 0 \<and> c (pte_ptr v) AND 1 \<noteq> 0"

text \<open>The cells that differ between address spaces: the page tables of user memory and the directory.\<close>

definition user_window :: "u32 \<Rightarrow> bool" where
  "user_window a \<longleftrightarrow> 0xffc00000 \<le> unat a \<and> unat a < 0xfff00000"

definition dir_window :: "u32 \<Rightarrow> bool" where
  "dir_window a \<longleftrightarrow> 0xfffff000 \<le> unat a"

lemma in_range_nat:
  assumes "unat a + n \<le> 2 ^ 32"
  shows "in_range a n x \<longleftrightarrow> unat a \<le> unat x \<and> unat x < unat a + n"
proof (cases "a \<le> x")
  case True
  then show ?thesis using unat_sub [OF True] by (auto simp: in_range_def word_le_nat_alt)
next
  case False
  have "unat (x - a) = 2 ^ 32 + unat x - unat a"
    using unat_sub_if' [of x a] False by (simp add: word_le_nat_alt)
  then show ?thesis using False assms by (auto simp: in_range_def word_le_nat_alt)
qed

lemma unat_table_page: "unat (pte_ptr v AND 0xfffff000) = 0xffc00000 + unat v div 2 ^ 22 * 4096"
proof -
  have "(4290772992 + 4 * (unat v div 4096)) div 4096 = 1047552 + 4 * (unat v div 4096) div 4096" by simp
  also have "4 * (unat v div 4096) div 4096 = unat v div 2 ^ 22" by (simp add: div_mult2_eq [symmetric])
  finally show ?thesis by (simp add: unat_page unat_pte_ptr)
qed

lemma in_table_page:
  "in_range (pte_ptr v AND 0xfffff000) PG_SIZE (pte_ptr w) \<longleftrightarrow> unat w div 2 ^ 22 = unat v div 2 ^ 22"
proof -
  let ?v = "unat v div 2 ^ 22" and ?w = "unat w div 4096"
  have "unat v < 2 ^ 32" by (rule unat_lt)
  then have "?v < 1024" by (simp add: less_mult_imp_div_less)
  then have "unat (pte_ptr v AND 0xfffff000) + 4096 \<le> 2 ^ 32" unfolding unat_table_page by simp
  then have "in_range (pte_ptr v AND 0xfffff000) PG_SIZE (pte_ptr w) \<longleftrightarrow> 1024 * ?v \<le> ?w \<and> ?w < 1024 * ?v + 1024"
    using in_range_nat [of "pte_ptr v AND 0xfffff000" 4096 "pte_ptr w"]
    unfolding unat_table_page unat_pte_ptr PG_SIZE_def by auto
  also have "\<dots> \<longleftrightarrow> ?w div 1024 = ?v" by (auto simp: less_eq_div_iff_mult_less_eq div_less_iff_less_mult intro: le_antisym)
  finally show ?thesis by (simp add: div_mult2_eq [symmetric])
qed

lemma pde_ptr_eq: "pde_ptr v = pde_ptr w \<longleftrightarrow> unat v div 2 ^ 22 = unat w div 2 ^ 22"
  by (simp add: word_unat_eq_iff unat_pde_ptr)

lemma pte_ptr_eq: "pte_ptr v = pte_ptr w \<longleftrightarrow> unat v div 4096 = unat w div 4096"
  by (simp add: word_unat_eq_iff unat_pte_ptr)

text \<open>What mapping the page of \<open>v\<close> leaves of the rest: all other pages are mapped as they were, and of the cells only the
  private ones have changed.\<close>

definition maps :: "u32 \<Rightarrow> (u32 \<Rightarrow> u32) \<Rightarrow> (u32 \<Rightarrow> u32) \<Rightarrow> bool" where
  "maps v c c' \<longleftrightarrow> present v c' \<and>
     (\<forall>w. unat w < 0xc0000000 \<and> unat w div 4096 \<noteq> unat v div 4096 \<longrightarrow>
        present w c' = present w c \<and> (present w c \<longrightarrow> c' (pte_ptr w) = c (pte_ptr w))) \<and>
     (\<forall>a. \<not> user_window a \<and> \<not> (dir_window a \<and> unat a < 0xfffffc00) \<longrightarrow> c' a = c a)"

lemma user_tables:
  assumes "unat v < 0xc0000000"
  shows "user_window (pte_ptr v)" "dir_window (pde_ptr v) \<and> unat (pde_ptr v) < 0xfffffc00"
    "in_range (pte_ptr v AND 0xfffff000) PG_SIZE a \<Longrightarrow> user_window a"
proof -
  have d: "unat v div 4096 < 0xc0000" "unat v div 2 ^ 22 < 768" using assms by (simp_all add: less_mult_imp_div_less)
  then show "user_window (pte_ptr v)" "dir_window (pde_ptr v) \<and> unat (pde_ptr v) < 0xfffffc00"
    unfolding user_window_def dir_window_def unat_pte_ptr unat_pde_ptr by simp_all
  have "unat (pte_ptr v AND 0xfffff000) + 4096 \<le> 0xfff00000" unfolding unat_table_page using d by simp
  moreover have "0xffc00000 \<le> unat (pte_ptr v AND 0xfffff000)" unfolding unat_table_page by simp
  ultimately show "user_window a" if "in_range (pte_ptr v AND 0xfffff000) PG_SIZE a"
    using that in_range_nat [of "pte_ptr v AND 0xfffff000" PG_SIZE a] by (simp add: user_window_def PG_SIZE_def)
qed

lemma user_not_dir: "user_window a \<Longrightarrow> dir_window b \<Longrightarrow> a \<noteq> b"
  by (auto simp: user_window_def dir_window_def)

lemma page_div: "unat w div 4096 = unat v div 4096 \<Longrightarrow> unat w div 2 ^ 22 = unat v div (2 ^ 22 :: nat)"
proof -
  have "n div 2 ^ 22 = n div 4096 div (1024 :: nat)" for n by (simp add: div_mult2_eq [symmetric])
  then show "unat w div 4096 = unat v div 4096 \<Longrightarrow> ?thesis" by metis
qed

lemma maps_old_table:
  assumes "unat v < 0xc0000000" "c (pde_ptr v) AND 1 \<noteq> 0" "e AND 1 \<noteq> 0"
  shows "maps v c (c(pte_ptr v := e))"
proof -
  have "pde_ptr w \<noteq> pte_ptr v" for w using pte_below_pde [of v w] assms(1) by auto
  moreover have "w \<noteq> pte_ptr v" if "\<not> user_window w" for w using user_tables(1) [OF assms(1)] that by blast
  ultimately show ?thesis using assms(2,3) by (auto simp: maps_def present_def pte_ptr_eq)
qed

lemma maps_new_table:
  assumes "unat v < 0xc0000000" "c (pde_ptr v) AND 1 = 0" "e AND 1 \<noteq> 0" "d AND 1 \<noteq> 0"
  shows "maps v c ((\<lambda>a. if in_range (pte_ptr v AND 0xfffff000) PG_SIZE a then 0 else (c(pde_ptr v := d)) a)(pte_ptr v := e))"
    (is "maps v c ?c")
proof -
  have np: "pte_ptr v \<noteq> pde_ptr w" for w using pte_below_pde [of v w] assms(1) by simp
  have dir: "\<not> in_range (pte_ptr v AND 0xfffff000) PG_SIZE (pde_ptr w)" for w
  proof
    assume "in_range (pte_ptr v AND 0xfffff000) PG_SIZE (pde_ptr w)"
    then have "user_window (pde_ptr w)" using user_tables(3) [OF assms(1)] by blast
    then show False by (simp add: user_window_def unat_pde_ptr)
  qed
  have "present v ?c" using np dir assms(3,4) by (simp add: present_def)
  moreover have "present w ?c = present w c \<and> (present w c \<longrightarrow> ?c (pte_ptr w) = c (pte_ptr w))"
    if w: "unat w < 0xc0000000" "unat w div 4096 \<noteq> unat v div 4096" for w
  proof (cases "unat w div 2 ^ 22 = unat v div 2 ^ 22")
    case True
    then have "c (pde_ptr w) AND 1 = 0" using assms(2) pde_ptr_eq [of w v] by simp
    then show ?thesis using True w in_table_page [of v w] by (simp add: present_def pte_ptr_eq)
  next
    case False
    have "pte_ptr w \<noteq> pde_ptr v" using pte_below_pde [of w v] w(1) by simp
    then show ?thesis
      using False w in_table_page [of v w] np [of w] dir by (simp add: present_def pte_ptr_eq pde_ptr_eq)
  qed
  moreover have "?c a = c a" if "\<not> user_window a" "\<not> (dir_window a \<and> unat a < 0xfffffc00)" for a
    using that user_tables [OF assms(1)] by auto
  ultimately show ?thesis by (auto simp: maps_def)
qed

lemma mem_zero_pools [simp]:
  "kernel_pool (mem_zero a n m) = kernel_pool m" "user_pool (mem_zero a n m) = user_pool m"
  "cell (mem_zero a n m) = (\<lambda>x. if in_range a n x then 0 else cell m x)"
  by (simp_all add: mem_zero_def)

lemma set_cell_pools [simp]:
  "kernel_pool (set_cell a v m) = kernel_pool m" "user_pool (set_cell a v m) = user_pool m"
  "cell (set_cell a v m) = (cell m)(a := v)"
  by (simp_all add: set_cell_def)

lemma pools_cong:
  assumes "kernel_pool m' = kernel_pool m" "user_pool m' = user_pool m"
  shows "vm_ok m' = vm_ok m" "free_frames pf m' = free_frames pf m" "pool_used pf m' = pool_used pf m"
    "pool_cap pf m' = pool_cap pf m" "frame_addr pf m' = frame_addr pf m"
  using assms
  by (cases pf; simp add: vm_ok_def all_pf free_frames_def pool_used_def pool_cap_def frame_addr_def fun_eq_iff)+

definition same_user :: "vm \<Rightarrow> vm \<Rightarrow> bool" where
  "same_user m m' \<longleftrightarrow> cur_vaddr m' = cur_vaddr m \<and> cur_pgdir m' = cur_pgdir m \<and> kernel_vaddr m' = kernel_vaddr m"

lemma or_flags: "(p OR PG_FLAGS) AND (1 :: u32) \<noteq> 0"
  by (simp add: bit.conj_disj_distrib2)

text \<open>The frames a step may take: none of the user pool and at most one of the kernel's.\<close>

lemma page_table_add_ok:
  assumes ok: "vm_ok m" and v: "unat v < 0xc0000000" and np: "\<not> present v (cell m)" and fr: "0 < free_frames PF_KERNEL m"
  shows "\<exists>m'. page_table_add v p m = Inr m' \<and> maps v (cell m) (cell m') \<and> cell m' (pte_ptr v) = p OR PG_FLAGS \<and>
    vm_ok m' \<and> user_pool m' = user_pool m \<and> free_frames PF_KERNEL m - 1 \<le> free_frames PF_KERNEL m' \<and> same_user m m'"
proof (cases "cell m (pde_ptr v) AND 1 = 0")
  case False
  then have "cell m (pte_ptr v) AND 1 = 0" using np by (simp add: present_def)
  then have "page_table_add v p m = Inr (m\<lparr>cell := (cell m)(pte_ptr v := p OR PG_FLAGS)\<rparr>)" (is "_ = Inr ?m")
    using page_table_add_present False by blast
  moreover have "maps v (cell m) (cell ?m)" using maps_old_table [of v "cell m" "p OR PG_FLAGS"] v False or_flags by simp
  ultimately show ?thesis using pools_cong [of ?m m] ok by (auto simp: same_user_def)
next
  case True
  have "\<exists>i<pool_cap PF_KERNEL m. \<not> pool_used PF_KERNEL m i" using free_frames_Suc [of 0 PF_KERNEL m] fr by simp
  then obtain f bm where f: "palloc PF_KERNEL m = Inr (frame_addr PF_KERNEL m f, with_bitmap PF_KERNEL bm m)"
    "f < pool_cap PF_KERNEL m" "\<not> pool_used PF_KERNEL m f" "bm_wf bm" "bm_cap bm = pool_cap PF_KERNEL m"
    "bm_used bm = (pool_used PF_KERNEL m)(f := True)"
    using palloc_ok [OF ok] by blast
  let ?w = "with_bitmap PF_KERNEL bm m"
  let ?m = "set_cell (pte_ptr v) (p OR PG_FLAGS)
      (mem_zero (pte_ptr v AND 0xfffff000) PG_SIZE (set_cell (pde_ptr v) (frame_addr PF_KERNEL m f OR PG_FLAGS) ?w))"
  have "in_range (pte_ptr v AND 0xfffff000) PG_SIZE (pte_ptr v)" by (simp add: in_table_page)
  then have "page_table_add v p m = Inr ?m" using True f(1) by (simp add: page_table_add_def Let_def)
  moreover have "maps v (cell m) (cell ?m)" using maps_new_table [of v "cell m" "p OR PG_FLAGS" "frame_addr PF_KERNEL m f OR PG_FLAGS"] v True or_flags
    by (simp add: cong: if_cong)
  moreover have "vm_ok ?m" "free_frames PF_KERNEL ?m = free_frames PF_KERNEL m - 1"
    using pools_cong [of ?m ?w] vm_ok_upd(1) [OF ok f(4,5)] free_frames_alloc [OF f(2,3,5,6), of "cell m"] by simp_all
  moreover have "same_user m ?m" by (simp add: same_user_def set_cell_def mem_zero_def with_bitmap_def)
  ultimately show ?thesis by (auto simp: with_bitmap_def)
qed

lemma map_one_ok:
  assumes ok: "vm_ok m" and v: "unat v < 0xc0000000" and np: "\<not> present v (cell m)" and fr: "0 < free_frames PF_KERNEL m"
    "0 < free_frames PF_USER m" "0 < plock (user_pool m)"
  shows "\<exists>f m'. map_one PF_USER v m = Inr (v, m') \<and> maps v (cell m) (cell m') \<and>
    cell m' (pte_ptr v) = frame_addr PF_USER m f OR PG_FLAGS \<and> f < pool_cap PF_USER m \<and> \<not> pool_used PF_USER m f \<and>
    pool_used PF_USER m' = (pool_used PF_USER m)(f := True) \<and> vm_ok m' \<and>
    free_frames PF_USER m' = free_frames PF_USER m - 1 \<and> free_frames PF_KERNEL m - 1 \<le> free_frames PF_KERNEL m' \<and>
    frame_addr PF_USER m' = frame_addr PF_USER m \<and> pool_cap PF_USER m' = pool_cap PF_USER m \<and>
    plock (user_pool m') = plock (user_pool m) - 1 \<and> same_user m m'"
proof -
  have "\<exists>i<pool_cap PF_USER m. \<not> pool_used PF_USER m i" using free_frames_Suc [of 0 PF_USER m] fr by simp
  then obtain f bm where f: "palloc PF_USER m = Inr (frame_addr PF_USER m f, with_bitmap PF_USER bm m)"
    "f < pool_cap PF_USER m" "\<not> pool_used PF_USER m f" "bm_wf bm" "bm_cap bm = pool_cap PF_USER m"
    "bm_used bm = (pool_used PF_USER m)(f := True)"
    using palloc_ok [OF ok] by blast
  let ?w = "with_bitmap PF_USER bm m"
  have w: "vm_ok ?w" "free_frames PF_USER ?w = free_frames PF_USER m - 1" "free_frames PF_KERNEL ?w = free_frames PF_KERNEL m"
    "cell ?w = cell m"
    using vm_ok_upd(1) [OF ok f(4,5)] free_frames_alloc [OF f(2,3,5,6), of "cell m"]
    by (simp_all add: with_bitmap_def free_frames_def pool_cap_def pool_used_def)
  obtain m1 where m1: "page_table_add v (frame_addr PF_USER m f) ?w = Inr m1" "maps v (cell m) (cell m1)"
    "cell m1 (pte_ptr v) = frame_addr PF_USER m f OR PG_FLAGS" "vm_ok m1" "user_pool m1 = user_pool ?w"
    "free_frames PF_KERNEL m - 1 \<le> free_frames PF_KERNEL m1" "same_user ?w m1"
    using page_table_add_ok [OF w(1) v, of "frame_addr PF_USER m f"] np fr(1) w by auto
  let ?m = "set_pool PF_USER ((get_pool PF_USER m1)\<lparr>plock := plock (get_pool PF_USER m1) - 1\<rparr>) m1"
  have l: "lock_release_pool PF_USER m1 = Inr ?m"
    using m1(5) fr(3) by (simp add: lock_release_pool_def with_bitmap_def)
  have nz: "frame_addr PF_USER m f \<noteq> 0" using frame_unat(3) [OF ok f(2)] by auto
  have "map_one PF_USER v m = Inr (v, ?m)" using f(1) m1(1) l nz by (simp add: map_one_def)
  moreover have "vm_ok ?m" using m1(4) by (simp add: vm_ok_def all_pf pool_cap_def)
  moreover have "free_frames PF_USER ?m = free_frames PF_USER m - 1" "free_frames PF_KERNEL ?m = free_frames PF_KERNEL m1"
    "pool_used PF_USER ?m = (pool_used PF_USER m)(f := True)" "frame_addr PF_USER ?m = frame_addr PF_USER m"
    "pool_cap PF_USER ?m = pool_cap PF_USER m" "plock (user_pool ?m) = plock (user_pool m) - 1"
    using w(2) m1(5) f(5,6)
    by (simp_all add: free_frames_def pool_cap_def pool_used_def frame_addr_def with_bitmap_def fun_eq_iff)
  moreover have "same_user m ?m" using m1(7) by (simp add: same_user_def with_bitmap_def)
  ultimately show ?thesis using m1 f by (intro exI [of _ f] exI [of _ ?m]) simp
qed

text \<open>\<^verbatim>\<open>get_a_page\<close> for a page of the running process.\<close>

definition page_index :: "u32 \<Rightarrow> vm \<Rightarrow> nat" where
  "page_index v m = unat ((v - vaddr_start (cur_vaddr m)) div 4096)"

definition page_free :: "u32 \<Rightarrow> vm \<Rightarrow> bool" where
  "page_free v m \<longleftrightarrow> vm_ok m \<and> cur_pgdir m \<noteq> 0 \<and> bm_wf (vaddr_bitmap (cur_vaddr m)) \<and>
     0 < page_index v m \<and> page_index v m < bm_cap (vaddr_bitmap (cur_vaddr m)) \<and> page_index v m < 2 ^ 31 \<and>
     unat v < 0xc0000000 \<and> \<not> present v (cell m) \<and> 0 < free_frames PF_KERNEL m \<and> 0 < free_frames PF_USER m"

lemma get_a_page_ok:
  assumes "page_free v m"
  shows "\<exists>f m'. get_a_page PF_USER v m = Inr (v, m') \<and> maps v (cell m) (cell m') \<and>
    cell m' (pte_ptr v) = frame_addr PF_USER m f OR PG_FLAGS \<and> \<not> pool_used PF_USER m f \<and>
    bm_used (vaddr_bitmap (cur_vaddr m')) = (bm_used (vaddr_bitmap (cur_vaddr m)))(page_index v m := True)"
proof -
  let ?va = "cur_vaddr m" and ?i = "page_index v m"
  let ?l = "lock_acquire_pool PF_USER m"
  note a = assms [unfolded page_free_def]
  obtain bm where bm: "bitmap_set (vaddr_bitmap ?va) ?i 1 = Inr bm" "bm_used bm = (bm_used (vaddr_bitmap ?va))(?i := True)"
    using bm.put_bit [of "vaddr_bitmap ?va" ?i 1] a by auto
  let ?m = "set_vaddr PF_USER (?va\<lparr>vaddr_bitmap := bm\<rparr>) ?l"
  have l: "vm_ok ?m" "free_frames pf ?m = free_frames pf m" "0 < plock (user_pool ?m)" "cell ?m = cell m"
    "frame_addr PF_USER ?m = frame_addr PF_USER m" "pool_used PF_USER ?m = pool_used PF_USER m" for pf
    using a
    by (cases pf; simp add: vm_ok_def all_pf lock_acquire_pool_def free_frames_def pool_cap_def pool_used_def frame_addr_def
        fun_eq_iff)+
  have "sint ((v - vaddr_start ?va) div 4096) = int ?i"
    using a sint_small [of "(v - vaddr_start ?va) div 4096"] by (simp only: page_index_def)
  then have "0 < sint ((v - vaddr_start ?va) div 4096)" using a by (simp only: of_nat_0_less_iff)
  then have g: "get_a_page PF_USER v m = map_one PF_USER v ?m"
    using a bm(1)
    by (simp add: get_a_page_def lock_acquire_pool_def page_index_def Let_def)
  obtain f m' where m': "map_one PF_USER v ?m = Inr (v, m')" "maps v (cell m) (cell m')" "same_user ?m m'"
    "cell m' (pte_ptr v) = frame_addr PF_USER m f OR PG_FLAGS" "\<not> pool_used PF_USER m f"
    using map_one_ok [OF l(1), of v] a l by auto
  then show ?thesis using g bm(2) by (auto simp: same_user_def)
qed

section \<open>The directory of a process\<close>

lemma unat_entry: "i < 1024 \<Longrightarrow> unat (4 * of_nat i :: u32) = 4 * i"
proof -
  assume i: "i < 1024"
  have "(4 * of_nat i :: u32) = of_nat (4 * i)" by simp
  then show ?thesis using i unat_of_nat [of "4 * i", where 'a = 32] by (simp del: of_nat_mult)
qed

lemma kernel_entries:
  assumes "i < 1024"
  shows "in_range (d + 0xc00) 1024 (d + 4 * of_nat i) \<longleftrightarrow> 768 \<le> i"
proof -
  have "unat (4 * of_nat i - (0xc00 :: u32)) < 1024 \<longleftrightarrow> 768 \<le> i"
    using unat_entry [OF assms] assms unat_sub_if' [of "4 * of_nat i :: u32" "0xc00"] by (auto split: if_splits)
  then show ?thesis by (simp add: in_range_def)
qed

text \<open>A new directory shares the entries of the kernel with the directory in force, has no entry for user memory, and its last
  entry leads to itself, so that the window of the page tables works after a switch to it.\<close>

theorem create_page_dir_shares:
  assumes pg: "get_kernel_pages 1 (mm (kth s)) = Inr (d, m)" and d: "d \<noteq> 0" "unat d + 4096 \<le> 0xffc00000"
  shows "\<exists>s'. create_page_dir s = Inr (d, s') \<and> (\<forall>i<1024. cell (mm (kth s')) (d + 4 * of_nat i) =
    (if i = 1023 then addr_v2p d m OR 7 else if 768 \<le> i then cell m (0xfffff000 + 4 * of_nat i) else 0))"
proof -
  let ?c = "\<lambda>a. if in_range (d + 0xc00) 1024 a then cell m (0xfffffc00 + (a - (d + 0xc00))) else cell m a"
  have z: "cell m (d + 4 * of_nat i) = 0" if "i < 1024" for i
  proof -
    obtain m0 where "m = mem_zero d PG_SIZE m0"
      using pg d(1) by (auto simp: get_kernel_pages_def result_elims split: if_splits)
    then show ?thesis using unat_entry [OF that] that by (simp add: in_range_def PG_SIZE_def)
  qed
  have "unat (d + 0xc00) + 1024 \<le> 0xffc00000" using d(2) unat_add_u32 [of d "0xc00"] by simp
  then have "\<not> in_range (d + 0xc00) 1024 (pte_ptr d)"
    using in_range_nat [of "d + 0xc00" 1024 "pte_ptr d"] by (simp add: unat_pte_ptr)
  then have v2p: "addr_v2p d (m\<lparr>cell := ?c\<rparr>) = addr_v2p d m" by (simp add: addr_v2p_def)
  let ?s = "s\<lparr>kth := (kth s)\<lparr>mm := m\<lparr>cell := ?c(d + 0xffc := addr_v2p d m OR 7)\<rparr>\<rparr>\<rparr>"
  have "create_page_dir s = Inr (d, ?s)"
    using pg d(1) v2p by (simp add: create_page_dir_def on_vm_def on_cells_def on_mm_def Let_def or.assoc cong: if_cong)
  moreover have "cell (mm (kth ?s)) (d + 4 * of_nat i) =
      (if i = 1023 then addr_v2p d m OR 7 else if 768 \<le> i then cell m (0xfffff000 + 4 * of_nat i) else 0)"
    if i: "i < 1024" for i
  proof -
    have "4 * of_nat i = (0xffc :: u32) \<longleftrightarrow> i = 1023"
      using unat_entry [OF i] by (auto simp: word_unat_eq_iff)
    then show ?thesis using z [OF i] kernel_entries [OF i, of d] by simp
  qed
  ultimately show ?thesis by blast
qed

section \<open>Properties\<close>

lemma unat_frame: "unat k + 76 \<le> 0xffc00000 \<Longrightarrow> unat (k + frame_off f) < 0xffc00000"
proof -
  have "unat (frame_off f) \<le> 72" by (cases f) simp_all
  then show "unat k + 76 \<le> 0xffc00000 \<Longrightarrow> ?thesis" using unat_add_u32 [of k "frame_off f"] by simp
qed

lemma frame_updates_low:
  "unat k + 76 \<le> 0xffc00000 \<Longrightarrow> 0xffc00000 \<le> unat a \<Longrightarrow> foldl (\<lambda>c (f, v). c(k + frame_off f := v)) c fvs a = c a"
proof (induction fvs arbitrary: c)
  case (Cons x fvs)
  obtain f v where "x = (f, v)" by (cases x)
  then show ?case using Cons unat_frame [OF Cons.prems(1), of f] by auto
qed simp

lemma set_frame_mm:
  "mm (kth (set_frame k fvs s)) = (mm (kth s))\<lparr>cell := foldl (\<lambda>c (f, v). c(k + frame_off f := v)) (cell (mm (kth s))) fvs\<rparr>"
  by (simp add: set_frame_def on_cells_def on_mm_def)

lemma present_cong: "(\<And>a. 0xffc00000 \<le> unat a \<Longrightarrow> c' a = c a) \<Longrightarrow> present v c' = present v c"
  by (simp add: present_def unat_pde_ptr unat_pte_ptr)

lemma present_frame:
  "unat k + 76 \<le> 0xffc00000 \<Longrightarrow> present v (cell (mm (kth (set_frame k fvs s)))) = present v (cell (mm (kth s)))"
  unfolding set_frame_mm by (rule present_cong) (simp add: frame_updates_low)

lemma page_free_frame: "unat k + 76 \<le> 0xffc00000 \<Longrightarrow> page_free v (mm (kth (set_frame k fvs s))) = page_free v (mm (kth s))"
  using present_frame [of k v fvs s] pools_cong [of "mm (kth (set_frame k fvs s))" "mm (kth s)"]
  by (simp add: set_frame_mm page_free_def page_index_def)

lemma maps_frame: "maps v c c' \<Longrightarrow> unat k + 76 \<le> 0xffc00000 \<Longrightarrow> c' (k + frame_off f) = c (k + frame_off f)"
  using unat_frame [of k f] by (simp add: maps_def user_window_def dir_window_def)

text \<open>C26: The first switch to a new process ends in user mode: \<^verbatim>\<open>start_process\<close> maps the top page of user memory as its
  stack and leaves the kernel at the entry of the program with the user segments, the interrupts on, the stack pointer at the
  end of user memory and all other registers zero.\<close>

theorem start_process_enters:
  assumes "page_free USER_STACK3_VADDR (mm (kth s))" "p = running_thread (kth s)"
    "unat (self_kstack (task (kth s) p) + 128) + 76 \<le> 0xffc00000"
  shows "\<exists>k s'. start_process entry s = Inr (k, s') \<and>
    intr_exit k s' = \<lparr>u_edi = 0, u_esi = 0, u_ebp = 0, u_ebx = 0, u_edx = 0, u_ecx = 0, u_eax = 0, u_gs = 0, u_fs = 0x33,
      u_es = 0x33, u_ds = 0x33, u_eip = entry, u_cs = 0x2b, u_eflags = 0x202, u_esp = 0xc0000000, u_ss = 0x33\<rparr> \<and>
    present USER_STACK3_VADDR (cell (mm (kth s')))"
proof -
  define k where "k = self_kstack (task (kth s) p) + 128"
  define fvs where "fvs = [(F_esp_dummy, 0), (F_ebp, 0), (F_esi, 0), (F_edi, 0), (F_eax, 0), (F_ecx, 0), (F_edx, 0), (F_ebx, 0),
      (F_gs, 0), (F_ds, SELECTOR_U_DATA), (F_es, SELECTOR_U_DATA), (F_fs, SELECTOR_U_DATA), (F_eip, entry),
      (F_cs, SELECTOR_U_CODE), (F_eflags, push_bit 12 0 OR push_bit 9 1 OR push_bit 1 (1 :: u32))]"
  define t where "t = set_frame k fvs (set_pcb p (\<lambda>t. t\<lparr>self_kstack := k\<rparr>) s)"
  have low: "unat k + 76 \<le> 0xffc00000" using assms(3) by (simp add: k_def)
  have pf: "page_free USER_STACK3_VADDR (mm (kth t))"
    using assms(1) page_free_frame [OF low] by (simp add: t_def set_pcb_def set_task_def)
  then obtain f m' where m': "get_a_page PF_USER USER_STACK3_VADDR (mm (kth t)) = Inr (USER_STACK3_VADDR, m')"
      "maps USER_STACK3_VADDR (cell (mm (kth t))) (cell m')"
    using get_a_page_ok by blast
  let ?t = "t\<lparr>kth := (kth t)\<lparr>mm := m'\<rparr>\<rparr>"
  let ?s = "set_frame k [(F_esp, USER_STACK3_VADDR + 4096), (F_ss, SELECTOR_U_DATA)] ?t"
  have fr: "frame k g ?t = frame k g t" for g using maps_frame [OF m'(2) low] by (simp add: frame_def)
  have "start_process entry s = bindE (on_vm (get_a_page PF_USER USER_STACK3_VADDR) t) (\<lambda>(page, s).
      Inr (k, set_frame k [(F_esp, page + 4096), (F_ss, SELECTOR_U_DATA)] s))"
    by (simp add: start_process_def Let_def assms(2) t_def fvs_def k_def)
  then have "start_process entry s = Inr (k, ?s)" using m'(1) by (simp add: on_vm_def)
  moreover have "present USER_STACK3_VADDR (cell (mm (kth ?s)))"
    using m'(2) by (simp add: present_frame [OF low]) (simp add: maps_def)
  moreover have "frame k g ?s = foldl (\<lambda>w (f, v). if f = g then v else w) (frame k g t)
      [(F_esp, USER_STACK3_VADDR + 4096), (F_ss, SELECTOR_U_DATA)]" for g
    unfolding frame_set fr ..
  moreover have "frame k g t = foldl (\<lambda>w (f, v). if f = g then v else w) (frame k g (set_pcb p (\<lambda>t. t\<lparr>self_kstack := k\<rparr>) s)) fvs" for g
    unfolding t_def frame_set ..
  ultimately show ?thesis
    by (intro exI [of _ k] exI [of _ ?s])
      (simp add: intr_exit_def fvs_def SELECTOR_U_DATA_def SELECTOR_U_CODE_def USER_STACK3_VADDR_def)
qed

text \<open>A process with an empty address space of eight pages below the kernel.\<close>

definition proc_vm :: vm where
  "proc_vm = demo_vm\<lparr>cur_pgdir := 0xc0105000,
     cur_vaddr := \<lparr>vaddr_bitmap = \<lparr>btmp_bytes_len = 1, bits = [0]\<rparr>, vaddr_start = 0xbfff8000\<rparr>\<rparr>"

definition demo_proc :: kproc where
  "demo_proc = \<lparr>kth = demo_thread\<lparr>mm := proc_vm\<rparr>,
     kfs = \<lparr>fs = demo_fs, dirs = (\<lambda>_. \<lparr>dir_inode = 0, dir_pos = 0, dir_buf = []\<rparr>), root_dir = 0, cwd_inode_nr = 0\<rparr>,
     umem = (\<lambda>a. ucast a), act_dir = 0xc0105000, spaces = (\<lambda>_. \<lparr>sp_mem = (\<lambda>_. 0), sp_cell = (\<lambda>_. 0)\<rparr>),
     start_process_fn = 0xc0002000, intr_exit_fn = 0xc0003000\<rparr>"

lemma proc_vm_ok: "vm_ok proc_vm" "free_frames PF_KERNEL proc_vm = 7" "free_frames PF_USER proc_vm = 8"
proof -
  have used: "bm_used \<lparr>btmp_bytes_len = 1, bits = [1]\<rparr> j \<longleftrightarrow> j = 0" "\<not> bm_used \<lparr>btmp_bytes_len = 1, bits = [0]\<rparr> j"
    if "j < 8" for j using that by (auto simp: bm_used_def bit_1_iff)
  then have "{i. i < 8 \<and> \<not> bm_used \<lparr>btmp_bytes_len = 1, bits = [1]\<rparr> i} = {1..<8}"
    "{i. i < 8 \<and> \<not> bm_used \<lparr>btmp_bytes_len = 1, bits = [0]\<rparr> i} = {..<8}" by auto
  then show "free_frames PF_KERNEL proc_vm = 7" "free_frames PF_USER proc_vm = 8"
    by (simp_all add: free_frames_def pool_cap_def pool_used_def proc_vm_def demo_vm_def bm_cap_def)
  show "vm_ok proc_vm"
    by (simp add: vm_ok_def all_pf proc_vm_def demo_vm_def bm_wf_def pool_cap_def bm_cap_def)
qed

lemma proc_absent: "unat v < 0xc0000000 \<Longrightarrow> \<not> present v (cell proc_vm)"
proof -
  assume "unat v < 0xc0000000"
  then have "unat v div 4096 < 0xc0000" by (simp add: less_mult_imp_div_less)
  then have "\<not> unat (pte_ptr v) \<ge> 0xfffff000" unfolding unat_pte_ptr by simp
  then show ?thesis by (simp add: present_def proc_vm_def demo_vm_def)
qed

theorem start_process_enters_witness:
  "\<exists>k s'. start_process 0x8048000 demo_proc = Inr (k, s') \<and> u_eip (intr_exit k s') = 0x8048000 \<and>
     u_cs (intr_exit k s') = 0x2b \<and> u_esp (intr_exit k s') = 0xc0000000"
proof -
  have m: "mm (kth demo_proc) = proc_vm" by (simp add: demo_proc_def)
  have "page_free USER_STACK3_VADDR (mm (kth demo_proc))"
    using proc_vm_ok proc_absent [of USER_STACK3_VADDR] unfolding m
    by (simp add: page_free_def page_index_def USER_STACK3_VADDR_def)
      (simp add: proc_vm_def bm_wf_def bm_cap_def)
  moreover have "running_thread (kth demo_proc) = 0x1000" "self_kstack (task (kth demo_proc) 0x1000) = 0x1f00"
    by (simp_all add: demo_proc_def running_thread_def demo_thread_fields demo_sched_def demo_task_def)
  ultimately obtain k s' where "start_process 0x8048000 demo_proc = Inr (k, s')"
    "intr_exit k s' = \<lparr>u_edi = 0, u_esi = 0, u_ebp = 0, u_ebx = 0, u_edx = 0, u_ecx = 0, u_eax = 0, u_gs = 0, u_fs = 0x33,
      u_es = 0x33, u_ds = 0x33, u_eip = 0x8048000, u_cs = 0x2b, u_eflags = 0x202, u_esp = 0xc0000000, u_ss = 0x33\<rparr>"
    using start_process_enters [of demo_proc "0x1000" "0x8048000"] by auto
  then show ?thesis by auto
qed

end
