(* ===== verification/Fork.thy ===== *)
theory Fork
  imports Process
begin

text \<open>
  \<^verbatim>\<open>proc/fork.c\<close>: \<^verbatim>\<open>sys_fork\<close> copies the control block and the kernel stack of the running process, gives the child a page
  directory of its own, copies every page of user memory that the parent's bitmap marks as used through a buffer in
  the kernel, and arranges that the child returns from the same system call with the value 0.

  The buffer page is a local value here; the page itself is allocated and freed. The parent is the running thread, so that its
  bitmap is \<open>cur_vaddr\<close> and its file descriptors and working directory are those of the file system's state.
\<close>

section \<open>Switching address spaces\<close>

text \<open>The cells seen after a switch to the directory \<open>d\<close>. The directory in force is written back to its page, the
  directory and the page tables of the other space come into view.\<close>

definition written_back :: "kproc \<Rightarrow> u32 \<Rightarrow> u32" where
  "written_back s a = (let c = cell (mm (kth s)) in
     if in_range (act_dir s) 4096 a then c (0xfffff000 + (a - act_dir s)) else c a)"

definition saved :: "kproc \<Rightarrow> u32 \<Rightarrow> space" where
  "saved s = (spaces s)(act_dir s := \<lparr>sp_mem = umem s, sp_cell = cell (mm (kth s))\<rparr>)"

definition space_view :: "u32 \<Rightarrow> kproc \<Rightarrow> u32 \<Rightarrow> u32" where
  "space_view d s a =
     (if dir_window a then written_back s (d + (a - 0xfffff000))
      else if user_window a then sp_cell (saved s d) a else written_back s a)"

definition enter_space :: "u32 \<Rightarrow> kproc \<Rightarrow> kproc" where
  "enter_space d s = (on_cells (\<lambda>_. space_view d s) s)\<lparr>umem := sp_mem (saved s d), act_dir := d, spaces := saved s\<rparr>"

definition activate :: "u32 \<Rightarrow> kproc \<Rightarrow> kproc" where
  "activate p s = enter_space (pgdir (task (kth s) p)) (s\<lparr>kth := page_dir_activate p (kth s)\<rparr>)"

section \<open>Copying user memory\<close>

text \<open>Touching a page that is not mapped is a page fault.\<close>

definition copy_one :: "u32 \<Rightarrow> u32 \<Rightarrow> u32 \<Rightarrow> kproc \<Rightarrow> kproc result" where
  "copy_one child parent prog_vaddr s =
     (if \<not> present prog_vaddr (cell (mm (kth s))) then Inl Out_of_bounds
      else let buf_page = umem s in
        bindE (on_vm (get_a_page_without_opvaddrbitmap PF_USER prog_vaddr) (activate child s)) (\<lambda>(_, s).
          if present prog_vaddr (cell (mm (kth s)))
          then Inr (activate parent (s\<lparr>umem := (\<lambda>a. if in_range prog_vaddr 4096 a then buf_page a else umem s a)\<rparr>))
          else Inl Out_of_bounds))"

fun copy_bits :: "u32 \<Rightarrow> u32 \<Rightarrow> u32 \<Rightarrow> u8 \<Rightarrow> nat \<Rightarrow> nat list \<Rightarrow> kproc \<Rightarrow> kproc result" where
  "copy_bits child parent start byte idx_byte [] s = Inr s"
| "copy_bits child parent start byte idx_byte (idx_bit # js) s =
     bindE (if push_bit idx_bit (1 :: u32) AND ucast byte \<noteq> 0
            then copy_one child parent (of_nat (idx_byte * 8 + idx_bit) * 4096 + start) s else Inr s)
       (copy_bits child parent start byte idx_byte js)"

fun copy_bytes :: "u32 \<Rightarrow> u32 \<Rightarrow> u32 \<Rightarrow> u8 list \<Rightarrow> nat list \<Rightarrow> kproc \<Rightarrow> kproc result" where
  "copy_bytes child parent start btmp [] s = Inr s"
| "copy_bytes child parent start btmp (idx_byte # ks) s =
     (if idx_byte < length btmp
      then bindE (if btmp ! idx_byte \<noteq> 0 then copy_bits child parent start (btmp ! idx_byte) idx_byte [0..<8] s else Inr s)
             (copy_bytes child parent start btmp ks)
      else Inl Out_of_bounds)"

definition copy_body_stack3 :: "u32 \<Rightarrow> u32 \<Rightarrow> kproc \<Rightarrow> kproc result" where
  "copy_body_stack3 child parent s =
     (let va = cur_vaddr (mm (kth s)); bm = vaddr_bitmap va in
      copy_bytes child parent (vaddr_start va) (bits bm) [0..<unat (btmp_bytes_len bm)] s)"

section \<open>The control block and the stack of the child\<close>

text \<open>\<^verbatim>\<open>memcpy(child_thread, parent_thread, PG_SIZE)\<close> and the assignments that clear the tags.\<close>

definition copy_pcb :: "u32 \<Rightarrow> u32 \<Rightarrow> kproc \<Rightarrow> kproc" where
  "copy_pcb child parent s =
     (let m = mm (kth s);
          t = (task (kth s) parent)\<lparr>userprog_vaddr := cur_vaddr m, task_struct.fd_table := fsys.fd_table (fs (kfs s)),
                task_struct.cwd_inode_nr := fstate.cwd_inode_nr (kfs s)\<rparr>;
          s = set_pcb child (\<lambda>_. t) s;
          s = on_cells (\<lambda>c a. if in_range child 4096 a then c (parent + (a - child)) else c a) s
      in s\<lparr>kth := on_mm (\<lambda>m. m\<lparr>prev := (prev m)(general_tag child := 0, all_list_tag child := 0),
             nxt := (nxt m)(general_tag child := 0, all_list_tag child := 0)\<rparr>) (kth s)\<rparr>)"

definition copy_pcb_vaddrbitmap_stack0 :: "u32 \<Rightarrow> u32 \<Rightarrow> kproc \<Rightarrow> kproc result" where
  "copy_pcb_vaddrbitmap_stack0 child parent s =
     (let s = copy_pcb child parent s in
      bindE (fork_pid (kth s)) (\<lambda>(id, t).
        let s = set_pcb child (\<lambda>c. c\<lparr>pid := id, elapsed_ticks := 0, status := TASK_READY, ticks := priority c,
                  parent_pid := pid (task t parent)\<rparr>) (s\<lparr>kth := t\<rparr>);
            s = s\<lparr>kth := on_mm (block_desc_init (u_block_desc child)) (kth s)\<rparr>;
            bitmap_pg_cnt = unat (DIV_ROUND_UP bitmap_len 4096)
        in bindE (on_vm (get_kernel_pages bitmap_pg_cnt) s) (\<lambda>(vaddr_btmp, s).
             let c = task (kth s) child; va = userprog_vaddr c; bs = bits (vaddr_bitmap va) in
             if vaddr_btmp = 0 \<or> length bs < bitmap_pg_cnt * 4096 then Inl Out_of_bounds
             else
               bindE (strlen (name c)) (\<lambda>n.
               assertE (n < 11)
                 (bindE (strcat (name c) (''_fork'' @ [NUL])) (\<lambda>nm.
                    Inr (set_pcb child (\<lambda>c. c\<lparr>name := nm, userprog_vaddr :=
                      va\<lparr>vaddr_bitmap := (vaddr_bitmap va)\<lparr>bits := take (bitmap_pg_cnt * 4096) bs\<rparr>\<rparr>\<rparr>) s)))))))"

definition child_frame :: "u32 \<Rightarrow> u32" where
  "child_frame p = p + 4096 - 76"

definition build_child_stack :: "u32 \<Rightarrow> kproc \<Rightarrow> kproc" where
  "build_child_stack child s =
     (let k = child_frame child;
          s = set_frame k [(F_eax, 0)] s;
          s = on_cells (\<lambda>c. c(k - 4 := intr_exit_fn s, k - 8 := 0, k - 12 := 0, k - 16 := 0, k - 20 := 0)) s
      in set_pcb child (\<lambda>t. t\<lparr>self_kstack := k - 20\<rparr>) s)"

fun update_inode_open_cnts :: "u32 list \<Rightarrow> fsys \<Rightarrow> fsys result" where
  "update_inode_open_cnts [] m = Inr m"
| "update_inode_open_cnts (global_fd # fds) m =
     assertE (sint global_fd < 32)
       (if global_fd \<noteq> -1
        then if sint global_fd < 0 then Inl Out_of_bounds
             else update_inode_open_cnts fds
               (set_core (fd_inode (file_table m ! unat global_fd)) (\<lambda>i. i\<lparr>i_open_cnts := i_open_cnts i + 1\<rparr>) m)
        else update_inode_open_cnts fds m)"

section \<open>Forking\<close>

text \<open>The result is whether the copy has succeeded; only the first and the third step report a failure.\<close>

definition copy_process :: "u32 \<Rightarrow> u32 \<Rightarrow> kproc \<Rightarrow> (bool \<times> kproc) result" where
  "copy_process child parent s =
     bindE (on_vm (get_kernel_pages 1) s) (\<lambda>(buf_page, s).
       if buf_page = 0 then Inr (False, s)
       else
         bindE (copy_pcb_vaddrbitmap_stack0 child parent s) (\<lambda>s.
         bindE (create_page_dir s) (\<lambda>(d, s).
           let s = set_pcb child (\<lambda>t. t\<lparr>pgdir := d\<rparr>) s in
           if d = 0 then Inr (False, s)
           else
             bindE (copy_body_stack3 child parent s) (\<lambda>s.
             let s = build_child_stack child s in
             bindE (update_inode_open_cnts (drop 3 (task_struct.fd_table (task (kth s) child))) (fs (kfs s))) (\<lambda>m.
             bindE (mfree_page PF_KERNEL buf_page 1 (mm (kth s))) (\<lambda>v.
               Inr (True, s\<lparr>kth := (kth s)\<lparr>mm := v\<rparr>, kfs := (kfs s)\<lparr>fs := m\<rparr>\<rparr>)))))))"

definition sys_fork :: "kproc \<Rightarrow> (16 word \<times> kproc) result" where
  "sys_fork s =
     (let parent = running_thread (kth s) in
      bindE (on_vm (get_kernel_pages 1) s) (\<lambda>(child, s).
        if child = 0 then Inr (-1, s)
        else
          assertE (intr_get_status (mm (kth s)) = INTR_OFF \<and> pgdir (task (kth s) parent) \<noteq> 0)
            (bindE (copy_process child parent s) (\<lambda>(ok, s).
               if \<not> ok then Inr (-1, s)
               else bindE (on_th (enlist child) s) (\<lambda>s. Inr (pid (task (kth s) child), s))))))"

section \<open>Two address spaces\<close>

text \<open>The parent's space is in force, and the two directories are different pages of the kernel.\<close>

definition two_spaces :: "u32 \<Rightarrow> u32 \<Rightarrow> kproc \<Rightarrow> bool" where
  "two_spaces d e s \<longleftrightarrow> act_dir s = d \<and> d \<noteq> e \<and> unat d mod 4096 = 0 \<and> unat e mod 4096 = 0 \<and>
     unat d + 4096 \<le> 0xffc00000 \<and> unat e + 4096 \<le> 0xffc00000"

lemma dir_offset: "dir_window a \<Longrightarrow> unat (a - 0xfffff000) < 4096"
proof -
  assume w: "dir_window a"
  then have "(0xfffff000 :: u32) \<le> a" by (simp add: dir_window_def word_le_nat_alt)
  then have "unat (a - 0xfffff000) = unat a - 0xfffff000" using unat_sub [of "0xfffff000" a] by simp
  then show ?thesis using unat_lt [of a] w by (simp add: dir_window_def)
qed

lemma unat_in_page: "unat d + 4096 \<le> 0xffc00000 \<Longrightarrow> unat (x :: u32) < 4096 \<Longrightarrow> unat (d + x) = unat d + unat x"
  using unat_add_u32 [of d x] by simp

lemma kernel_page:
  assumes "unat d + 4096 \<le> 0xffc00000" "unat (x :: u32) < 4096"
  shows "\<not> dir_window (d + x)" "\<not> user_window (d + x)" "in_range d 4096 (d + x)"
  using unat_in_page [OF assms] assms by (simp_all add: dir_window_def user_window_def in_range_def)

lemma other_page:
  assumes "unat d mod 4096 = 0" "unat e mod 4096 = 0" "d \<noteq> e" "unat d + 4096 \<le> 0xffc00000" "unat e + 4096 \<le> 0xffc00000"
    "unat (x :: u32) < 4096"
  shows "\<not> in_range d 4096 (e + x)"
proof
  assume "in_range d 4096 (e + x)"
  then have r: "unat d \<le> unat e + unat x" "unat e + unat x < unat d + 4096"
    using in_range_nat [of d 4096 "e + x"] assms(4) unat_in_page [OF assms(5,6)] by auto
  obtain j k where jk: "unat d = 4096 * j" "unat e = 4096 * k" using assms(1,2) by (auto simp: mod_eq_0_iff_dvd dvd_def)
  have "j = k" using r assms(6) unfolding jk by linarith
  then show False using jk assms(3) by (simp add: word_unat_eq_iff)
qed

lemma enter_fields [simp]:
  "cell (mm (kth (enter_space d s))) = space_view d s" "umem (enter_space d s) = sp_mem (saved s d)"
  "act_dir (enter_space d s) = d" "spaces (enter_space d s) = saved s" "task (kth (enter_space d s)) = task (kth s)"
  "kfs (enter_space d s) = kfs s"
  by (simp_all add: enter_space_def on_cells_def on_mm_def)

lemma cr3_fields [simp]:
  "saved (s\<lparr>kth := page_dir_activate p (kth s)\<rparr>) = saved s"
  "space_view d (s\<lparr>kth := page_dir_activate p (kth s)\<rparr>) = space_view d s"
proof -
  have m: "mm (page_dir_activate p (kth s)) = mm (kth s)" by (simp add: page_dir_activate_def)
  show "saved (s\<lparr>kth := page_dir_activate p (kth s)\<rparr>) = saved s" unfolding saved_def by (simp add: m)
  then show "space_view d (s\<lparr>kth := page_dir_activate p (kth s)\<rparr>) = space_view d s"
    unfolding space_view_def [abs_def] written_back_def [abs_def] Let_def by (simp add: m cong: if_cong)
qed

lemma activate_fields [simp]:
  "cell (mm (kth (activate p s))) = space_view (pgdir (task (kth s) p)) s"
  "umem (activate p s) = sp_mem (saved s (pgdir (task (kth s) p)))" "act_dir (activate p s) = pgdir (task (kth s) p)"
  "spaces (activate p s) = saved s" "task (kth (activate p s)) = task (kth s)" "kfs (activate p s) = kfs s"
  by (simp_all add: activate_def) (simp add: page_dir_activate_def)

lemma activate_mm: "mm (kth (activate p s)) = (mm (kth s))\<lparr>cell := space_view (pgdir (task (kth s) p)) s\<rparr>"
  by (simp add: activate_def enter_space_def on_cells_def on_mm_def) (simp add: page_dir_activate_def)

text \<open>Leaving a space for another one and coming back finds it as it was, and what was done to the other one in between
  is seen at the next visit.\<close>

lemma come_back:
  assumes two: "two_spaces d e s" and t: "act_dir t = e" "spaces t = saved s"
    and keep: "\<And>a. \<not> user_window a \<Longrightarrow> \<not> dir_window a \<Longrightarrow> cell (mm (kth t)) a = space_view e s a"
    and w: "user_window a \<or> dir_window a"
  shows "space_view d t a = cell (mm (kth s)) a" "space_view e (enter_space d t) a = cell (mm (kth t)) a"
    "sp_mem (saved t d) = umem s" "sp_mem (saved (enter_space d t) e) = umem t"
proof -
  note g = two [unfolded two_spaces_def]
  show "sp_mem (saved t d) = umem s" "sp_mem (saved (enter_space d t) e) = umem t"
    using g t by (auto simp: saved_def)
  show "space_view d t a = cell (mm (kth s)) a"
  proof (cases "dir_window a")
    case True
    let ?x = "a - 0xfffff000"
    have x: "unat ?x < 4096" using dir_offset [OF True] .
    have "cell (mm (kth t)) (d + ?x) = space_view e s (d + ?x)" using keep kernel_page [of d ?x] g x by blast
    moreover have "\<not> in_range e 4096 (d + ?x)" using other_page [of e d ?x] g x by auto
    ultimately show ?thesis
      using True g t kernel_page [of d ?x] x by (simp add: space_view_def written_back_def Let_def)
  next
    case False
    then show ?thesis using w g t by (auto simp: space_view_def saved_def)
  qed
  show "space_view e (enter_space d t) a = cell (mm (kth t)) a"
  proof (cases "dir_window a")
    case True
    let ?x = "a - 0xfffff000"
    have x: "unat ?x < 4096" using dir_offset [OF True] .
    have "\<not> in_range d 4096 (e + ?x)" using other_page [of d e ?x] g x by auto
    then show ?thesis
      using True g t kernel_page [of e ?x] x by (simp add: space_view_def written_back_def Let_def)
  next
    case False
    then show ?thesis using w g t by (auto simp: space_view_def saved_def)
  qed
qed

section \<open>Copying one page\<close>

definition maps_user :: "u32 \<Rightarrow> (u32 \<Rightarrow> u32) \<Rightarrow> (u32 \<Rightarrow> u32) \<Rightarrow> bool" where
  "maps_user v c c' \<longleftrightarrow> present v c' \<and>
     (\<forall>w. unat w < 0xc0000000 \<and> unat w div 4096 \<noteq> unat v div 4096 \<longrightarrow>
        present w c' = present w c \<and> (present w c \<longrightarrow> c' (pte_ptr w) = c (pte_ptr w)))"

lemma tables_private: "unat w < 0xc0000000 \<Longrightarrow> user_window (pte_ptr w) \<and> dir_window (pde_ptr w)"
  using user_tables(1,2) by blast

lemma maps_user_cong:
  assumes "maps v c c'" "unat v < 0xc0000000" "\<And>a. user_window a \<or> dir_window a \<Longrightarrow> c'' a = c' a"
  shows "maps_user v c c''"
proof -
  have "c'' (pte_ptr w) = c' (pte_ptr w)" "present w c'' = present w c'" if "unat w < 0xc0000000" for w
    using assms(3) tables_private [OF that] by (simp_all add: present_def)
  then show ?thesis using assms(1,2) by (simp add: maps_def maps_user_def)
qed

definition fork_inv :: "u32 \<Rightarrow> u32 \<Rightarrow> u32 \<Rightarrow> u32 \<Rightarrow> kproc \<Rightarrow> bool" where
  "fork_inv child parent d e s \<longleftrightarrow> two_spaces d e s \<and> pgdir (task (kth s) child) = e \<and> pgdir (task (kth s) parent) = d \<and>
     vm_ok (mm (kth s))"

text \<open>The memory and the tables of the parent are not changed by \<open>s'\<close>.\<close>

definition parent_same :: "kproc \<Rightarrow> kproc \<Rightarrow> bool" where
  "parent_same s s' \<longleftrightarrow> umem s' = umem s \<and>
     (\<forall>a. user_window a \<or> dir_window a \<longrightarrow> cell (mm (kth s')) a = cell (mm (kth s)) a) \<and>
     cur_vaddr (mm (kth s')) = cur_vaddr (mm (kth s)) \<and> frame_addr PF_USER (mm (kth s')) = frame_addr PF_USER (mm (kth s))"

lemma lock_pool_same:
  "cell (lock_acquire_pool PF_USER m) = cell m" "vm_ok (lock_acquire_pool PF_USER m) = vm_ok m"
  "free_frames pf (lock_acquire_pool PF_USER m) = free_frames pf m" "pool_used pf (lock_acquire_pool PF_USER m) = pool_used pf m"
  "0 < plock (user_pool (lock_acquire_pool PF_USER m))" "frame_addr pf (lock_acquire_pool PF_USER m) = frame_addr pf m"
  "cur_vaddr (lock_acquire_pool PF_USER m) = cur_vaddr m"
  by (cases pf; simp add: lock_acquire_pool_def vm_ok_def all_pf free_frames_def pool_cap_def pool_used_def frame_addr_def
      fun_eq_iff)+

lemma copy_one_ok:
  assumes inv: "fork_inv child parent d e s" and v: "present v (cell (mm (kth s)))" "\<not> present v (space_view e s)"
    "unat v < 0xc0000000" and fr: "0 < free_frames PF_KERNEL (mm (kth s))" "0 < free_frames PF_USER (mm (kth s))"
  shows "\<exists>s' f. copy_one child parent v s = Inr s' \<and> fork_inv child parent d e s' \<and> parent_same s s' \<and>
    maps_user v (space_view e s) (space_view e s') \<and>
    space_view e s' (pte_ptr v) = frame_addr PF_USER (mm (kth s)) f OR PG_FLAGS \<and> \<not> pool_used PF_USER (mm (kth s)) f \<and>
    pool_used PF_USER (mm (kth s')) = (pool_used PF_USER (mm (kth s)))(f := True) \<and>
    sp_mem (saved s' e) = (\<lambda>a. if in_range v 4096 a then umem s a else sp_mem (saved s e) a) \<and>
    free_frames PF_KERNEL (mm (kth s)) - 1 \<le> free_frames PF_KERNEL (mm (kth s')) \<and>
    free_frames PF_USER (mm (kth s')) = free_frames PF_USER (mm (kth s)) - 1"
proof -
  have two: "two_spaces d e s" and pg: "pgdir (task (kth s) child) = e" "pgdir (task (kth s) parent) = d"
    and ok: "vm_ok (mm (kth s))" using inv by (simp_all add: fork_inv_def)
  let ?c = "activate child s" let ?m = "mm (kth ?c)" let ?l = "lock_acquire_pool PF_USER ?m"
  have m: "?m = (mm (kth s))\<lparr>cell := space_view e s\<rparr>" using activate_mm [of child s] pg by simp
  have same: "vm_ok ?m = vm_ok (mm (kth s))" "free_frames pf ?m = free_frames pf (mm (kth s))"
    "pool_used pf ?m = pool_used pf (mm (kth s))" "frame_addr pf ?m = frame_addr pf (mm (kth s))" "cell ?m = space_view e s"
    "cur_vaddr ?m = cur_vaddr (mm (kth s))" for pf
    using pools_cong [of ?m "mm (kth s)"] unfolding m by simp_all
  obtain f m2 where m2: "map_one PF_USER v ?l = Inr (v, m2)" "maps v (space_view e s) (cell m2)"
    "cell m2 (pte_ptr v) = frame_addr PF_USER (mm (kth s)) f OR PG_FLAGS" "\<not> pool_used PF_USER (mm (kth s)) f"
    "pool_used PF_USER m2 = (pool_used PF_USER (mm (kth s)))(f := True)" "vm_ok m2"
    "free_frames PF_USER m2 = free_frames PF_USER (mm (kth s)) - 1"
    "free_frames PF_KERNEL (mm (kth s)) - 1 \<le> free_frames PF_KERNEL m2"
    "frame_addr PF_USER m2 = frame_addr PF_USER (mm (kth s))" "same_user ?l m2"
    using map_one_ok [of ?l v] ok v fr pg by (auto simp: lock_pool_same same)
  define t where "t = ?c\<lparr>kth := (kth ?c)\<lparr>mm := m2\<rparr>, umem := (\<lambda>a. if in_range v 4096 a then umem s a else umem ?c a)\<rparr>"
  define t' where "t' = t\<lparr>kth := page_dir_activate parent (kth t)\<rparr>"
  have mt: "mm (kth t') = m2" "mm (kth t) = m2" "umem t' = umem t" "task (kth t) = task (kth s)" "task (kth t') = task (kth s)"
    by (simp_all add: t'_def t_def page_dir_activate_def)
  have t': "act_dir t' = e" "spaces t' = saved s" "sp_mem (saved s e) = umem ?c"
    using pg by (simp_all add: t'_def t_def)
  have act: "activate parent t = enter_space d t'" using pg mt(4) by (simp add: activate_def t'_def)
  have keep: "cell (mm (kth t')) a = space_view e s a" if "\<not> user_window a" "\<not> dir_window a" for a
    using m2(2) that mt(1) by (simp add: maps_def)
  note home = come_back [OF two t'(1,2) keep]
  have dw: "user_window (0xfffff000 :: u32) \<or> dir_window 0xfffff000" by (simp add: dir_window_def)
  let ?s = "enter_space d t'"
  have "present v (cell m2)" using m2(2) by (simp add: maps_def)
  then have "copy_one child parent v s = Inr ?s"
    using v(1) m2(1) act unfolding t_def
    by (simp add: copy_one_def on_vm_def get_a_page_without_opvaddrbitmap_def Let_def cong: if_cong)
  moreover have cells: "mm (kth ?s) = m2\<lparr>cell := space_view d t'\<rparr>"
    using mt(1) by (simp add: enter_space_def on_cells_def on_mm_def)
  moreover have "vm_ok (mm (kth ?s))" "free_frames pf (mm (kth ?s)) = free_frames pf m2"
    "pool_used pf (mm (kth ?s)) = pool_used pf m2" "frame_addr pf (mm (kth ?s)) = frame_addr pf m2" for pf
    using pools_cong [of "mm (kth ?s)" m2] m2(6) unfolding cells by simp_all
  moreover have view: "space_view e ?s a = cell m2 a" if "user_window a \<or> dir_window a" for a
    using home(2) [of a] that mt(1) by auto
  moreover have "parent_same s ?s"
    using home(1) home(3) [OF _ _ dw] m2(9,10) calculation(5) cells
    by (auto simp: parent_same_def same_user_def lock_pool_same same)
  moreover have "fork_inv child parent d e ?s"
    using two pg calculation(3) mt by (simp add: fork_inv_def two_spaces_def)
  moreover have "maps_user v (space_view e s) (space_view e ?s)"
    using maps_user_cong [OF m2(2) v(3)] view by blast
  moreover have "sp_mem (saved ?s e) = umem t'" by (rule home(4) [OF _ _ dw])
  moreover have "umem t' = (\<lambda>a. if in_range v 4096 a then umem s a else sp_mem (saved s e) a)"
    using mt(3) t'(3) by (simp add: t_def cong: if_cong)
  ultimately show ?thesis
    using m2 user_tables(1) [OF v(3)] by (intro exI [of _ ?s] exI [of _ f]) simp
qed

section \<open>Copying all pages\<close>

fun copy_list :: "u32 \<Rightarrow> u32 \<Rightarrow> u32 list \<Rightarrow> kproc \<Rightarrow> kproc result" where
  "copy_list child parent [] s = Inr s"
| "copy_list child parent (v # vs) s = bindE (copy_one child parent v s) (copy_list child parent vs)"

lemma copy_list_append: "copy_list child parent (vs @ ws) s = bindE (copy_list child parent vs s) (copy_list child parent ws)"
  by (induction vs arbitrary: s) (auto simp: bindE_assoc intro!: bindE_cong)

lemma bit_test: "j < 8 \<Longrightarrow> push_bit j (1 :: u32) AND ucast (b :: u8) \<noteq> 0 \<longleftrightarrow> bit b j"
  using and_exp_eq_0_iff_not_bit [of "ucast b :: u32" j] by (simp add: push_bit_of_1 and.commute bit_simps)

lemma copy_bits_eq:
  "set js \<subseteq> {..<8} \<Longrightarrow> copy_bits child parent start byte k js s =
     copy_list child parent (map (\<lambda>j. of_nat (k * 8 + j) * 4096 + start) (filter (bit byte) js)) s"
proof (induction js arbitrary: s)
  case (Cons j js)
  then show ?case using bit_test [of j byte] by (cases "bit byte j") (auto intro!: bindE_cong)
qed simp

definition used_pages :: "bitmap \<Rightarrow> u32 \<Rightarrow> nat list \<Rightarrow> u32 list" where
  "used_pages bm start is = map (\<lambda>i. of_nat i * 4096 + start) (filter (bm_used bm) is)"

lemma used_byte:
  "map (\<lambda>j. of_nat (k * 8 + j) * 4096 + start) (filter (bit (bits bm ! k)) [0..<8]) =
     used_pages bm start [8 * k..<8 * k + 8]"
proof -
  have s: "[8 * k..<8 * k + 8] = map (\<lambda>j. k * 8 + j) [0..<8]" by (simp add: map_add_upt mult.commute add.commute)
  have "bm_used bm (k * 8 + j) = bit (bits bm ! k) j" if "j < 8" for j using that by (simp add: bm_used_def)
  then have "filter (bm_used bm \<circ> (\<lambda>j. k * 8 + j)) [0..<8] = filter (bit (bits bm ! k)) [0..<8]"
    by (intro filter_cong) simp_all
  then show ?thesis unfolding used_pages_def s filter_map by (simp add: comp_def)
qed

lemma copy_bytes_eq:
  "a \<le> n \<Longrightarrow> n \<le> length (bits bm) \<Longrightarrow> copy_bytes child parent start (bits bm) [a..<n] s =
     copy_list child parent (used_pages bm start [8 * a..<8 * n]) s"
proof (induction "n - a" arbitrary: a s)
  case (Suc x)
  have up: "[a..<n] = a # [Suc a..<n]" using Suc by (simp add: upt_conv_Cons)
  have "[8 * a..<8 * n] = [8 * a..<8 * a + 8] @ [8 * Suc a..<8 * n]"
    using Suc upt_add_eq_append [of "8 * a" "8 * a + 8" "8 * n - (8 * a + 8)"] by (simp add: add.commute)
  then have sp: "used_pages bm start [8 * a..<8 * n] =
      used_pages bm start [8 * a..<8 * a + 8] @ used_pages bm start [8 * Suc a..<8 * n]"
    by (simp add: used_pages_def)
  have "bits bm ! a = 0 \<Longrightarrow> used_pages bm start [8 * a..<8 * a + 8] = []" unfolding used_byte [symmetric] by simp
  then have "(if bits bm ! a \<noteq> 0 then copy_bits child parent start (bits bm ! a) a [0..<8] s else Inr s) =
      copy_list child parent (used_pages bm start [8 * a..<8 * a + 8]) s" for s
    using copy_bits_eq [of "[0..<8]" child parent start "bits bm ! a" a s] used_byte [of a start bm]
    by (auto simp: lessThan_atLeast0)
  then show ?case
    using Suc.hyps(1) [of "Suc a"] Suc.hyps(2) Suc.prems up sp
    by (simp add: copy_list_append) (auto intro!: bindE_cong)
qed (simp add: used_pages_def)

text \<open>The pages \<open>vs\<close> of the parent have been copied to the child on the way from \<open>s\<close> to \<open>s'\<close>.\<close>

definition copied :: "u32 list \<Rightarrow> u32 \<Rightarrow> kproc \<Rightarrow> kproc \<Rightarrow> bool" where
  "copied vs e s s' \<longleftrightarrow>
     (\<forall>w. unat w < 0xc0000000 \<longrightarrow> (present w (space_view e s') \<longleftrightarrow>
        present w (space_view e s) \<or> (\<exists>v\<in>set vs. unat w div 4096 = unat v div 4096))) \<and>
     (\<forall>a. sp_mem (saved s' e) a = (if \<exists>v\<in>set vs. in_range v 4096 a then umem s a else sp_mem (saved s e) a)) \<and>
     (\<forall>v\<in>set vs. \<exists>f. space_view e s' (pte_ptr v) = frame_addr PF_USER (mm (kth s)) f OR PG_FLAGS \<and>
        \<not> pool_used PF_USER (mm (kth s)) f)"

definition kept_tables :: "u32 \<Rightarrow> kproc \<Rightarrow> kproc \<Rightarrow> bool" where
  "kept_tables e s s' \<longleftrightarrow> (\<forall>w. unat w < 0xc0000000 \<and> present w (space_view e s) \<longrightarrow>
     space_view e s' (pte_ptr w) = space_view e s (pte_ptr w))"

lemma copy_list_ok:
  assumes "fork_inv child parent d e s" "distinct vs" "length vs \<le> free_frames PF_KERNEL (mm (kth s))"
    "length vs \<le> free_frames PF_USER (mm (kth s))"
    "\<forall>v\<in>set vs. unat v < 0xc0000000 \<and> unat v mod 4096 = 0 \<and> present v (cell (mm (kth s))) \<and> \<not> present v (space_view e s)"
  shows "\<exists>s'. copy_list child parent vs s = Inr s' \<and> fork_inv child parent d e s' \<and> parent_same s s' \<and>
    copied vs e s s' \<and> kept_tables e s s'"
  using assms
proof (induction vs arbitrary: s)
  case Nil
  then show ?case by (auto simp: parent_same_def copied_def kept_tables_def)
next
  case (Cons v vs)
  obtain s1 f where s1: "copy_one child parent v s = Inr s1" "fork_inv child parent d e s1" "parent_same s s1"
    "maps_user v (space_view e s) (space_view e s1)"
    "space_view e s1 (pte_ptr v) = frame_addr PF_USER (mm (kth s)) f OR PG_FLAGS" "\<not> pool_used PF_USER (mm (kth s)) f"
    "pool_used PF_USER (mm (kth s1)) = (pool_used PF_USER (mm (kth s)))(f := True)"
    "sp_mem (saved s1 e) = (\<lambda>a. if in_range v 4096 a then umem s a else sp_mem (saved s e) a)"
    "free_frames PF_KERNEL (mm (kth s)) - 1 \<le> free_frames PF_KERNEL (mm (kth s1))"
    "free_frames PF_USER (mm (kth s1)) = free_frames PF_USER (mm (kth s)) - 1"
    using copy_one_ok [OF Cons.prems(1), of v] Cons.prems(3-5) by auto
  have v: "unat v < 0xc0000000" using Cons.prems(5) by simp
  have other: "unat w div 4096 \<noteq> unat v div 4096" if "w \<in> set vs" for w
  proof
    assume "unat w div 4096 = unat v div 4096"
    then have "unat w = unat v" using Cons.prems(5) that by (metis div_mult_mod_eq list.set_intros)
    then have "w = v" by (simp add: word_unat_eq_iff)
    then show False using Cons.prems(2) that by simp
  qed
  have same: "present w (cell (mm (kth s1))) = present w (cell (mm (kth s)))" if "unat w < 0xc0000000" for w
    using s1(3) tables_private [OF that] by (simp add: parent_same_def present_def)
  have mu: "present w (space_view e s1) = present w (space_view e s) \<and>
      (present w (space_view e s) \<longrightarrow> space_view e s1 (pte_ptr w) = space_view e s (pte_ptr w))"
    if "unat w < 0xc0000000" "unat w div 4096 \<noteq> unat v div 4096" for w
    using s1(4) that unfolding maps_user_def by blast
  obtain s' where s': "copy_list child parent vs s1 = Inr s'" "fork_inv child parent d e s'" "parent_same s1 s'"
    "copied vs e s1 s'" "kept_tables e s1 s'"
    using Cons.IH [OF s1(2)] Cons.prems(2-5) s1(9,10) other same mu by fastforce
  have "present v (space_view e s1)" using s1(4) by (simp add: maps_user_def)
  then have pv: "space_view e s' (pte_ptr v) = frame_addr PF_USER (mm (kth s)) f OR PG_FLAGS"
    using s'(5) s1(5) v by (simp add: kept_tables_def)
  have "parent_same s s'" using s1(3) s'(3) by (simp add: parent_same_def)
  moreover have "kept_tables e s s'"
    unfolding kept_tables_def
  proof (intro allI impI)
    fix w assume w: "unat w < 0xc0000000 \<and> present w (space_view e s)"
    then have "unat w div 4096 \<noteq> unat v div 4096" using Cons.prems(5) pte_ptr_eq [of w v] pde_ptr_eq [of w v] page_div [of w v]
      by (auto simp: present_def)
    then show "space_view e s' (pte_ptr w) = space_view e s (pte_ptr w)"
      using s'(5) mu [of w] w unfolding kept_tables_def by metis
  qed
  moreover have "copied (v # vs) e s s'"
    unfolding copied_def
  proof (intro conjI allI impI ballI)
    fix w :: u32 assume w: "unat w < 0xc0000000"
    have "present w (space_view e s1) \<longleftrightarrow> present w (space_view e s) \<or> unat w div 4096 = unat v div 4096"
    proof (cases "unat w div 4096 = unat v div 4096")
      case True
      then have "pte_ptr w = pte_ptr v" "pde_ptr w = pde_ptr v" using page_div [of w v] by (simp_all add: pte_ptr_eq pde_ptr_eq)
      then show ?thesis using True \<open>present v (space_view e s1)\<close> by (simp add: present_def)
    qed (use mu w in blast)
    then show "present w (space_view e s') \<longleftrightarrow>
        present w (space_view e s) \<or> (\<exists>x\<in>set (v # vs). unat w div 4096 = unat x div 4096)"
      using s'(4) w by (auto simp: copied_def)
  next
    fix a
    show "sp_mem (saved s' e) a = (if \<exists>x\<in>set (v # vs). in_range x 4096 a then umem s a else sp_mem (saved s e) a)"
      using s'(4) s1(3,8) by (auto simp: copied_def parent_same_def)
  next
    fix x assume "x \<in> set (v # vs)"
    then show "\<exists>f. space_view e s' (pte_ptr x) = frame_addr PF_USER (mm (kth s)) f OR PG_FLAGS \<and>
        \<not> pool_used PF_USER (mm (kth s)) f"
      using s'(4) s1(3,6,7) pv by (fastforce simp: copied_def parent_same_def split: if_splits)
  qed
  ultimately show ?case using s1(1) s'(1,2) by auto
qed

lemma used_pages_facts:
  assumes "unat start mod 4096 = 0" "unat start + 4096 * n \<le> 0xc0000000"
  shows "distinct (used_pages bm start [0..<n])"
    "\<forall>v\<in>set (used_pages bm start [0..<n]). unat v < 0xc0000000 \<and> unat v mod 4096 = 0"
proof -
  have u: "unat (of_nat i * 4096 + start) = unat start + 4096 * i" if "i < n" for i
    using unat_page_of [of start n i] assms(2) that by (simp add: add.commute)
  then have "inj_on (\<lambda>i. of_nat i * 4096 + start) {..<n}"
    by (intro inj_onI) (metis add_left_cancel lessThan_iff mult_left_cancel zero_neq_numeral)
  then show "distinct (used_pages bm start [0..<n])"
    by (auto simp: used_pages_def distinct_map intro: inj_on_subset)
  show "\<forall>v\<in>set (used_pages bm start [0..<n]). unat v < 0xc0000000 \<and> unat v mod 4096 = 0"
    using u assms by (auto simp: used_pages_def simp del: unat_of_nat)
qed

section \<open>Properties\<close>

text \<open>C5: The child of a fork gets a copy of the parent's memory. When every page that the parent's bitmap marks is mapped, the
  child's directory is still empty and there are frames enough, the copy loop returns; the child then has exactly the
  marked pages, their bytes are those of the parent, each in a frame that was free before; and the memory, the page tables and
  the bitmap of the parent are as they were.\<close>

theorem copy_body_copies:
  assumes inv: "fork_inv child parent d e s" and va: "va = cur_vaddr (mm (kth s))" "bm_wf (vaddr_bitmap va)"
    "unat (vaddr_start va) mod 4096 = 0" "unat (vaddr_start va) + 4096 * bm_cap (vaddr_bitmap va) \<le> 0xc0000000"
    and vs: "vs = used_pages (vaddr_bitmap va) (vaddr_start va) [0..<bm_cap (vaddr_bitmap va)]"
      "\<forall>v\<in>set vs. present v (cell (mm (kth s)))"
    and fresh: "\<forall>w. unat w < 0xc0000000 \<longrightarrow> \<not> present w (space_view e s)"
    and fr: "length vs \<le> free_frames PF_KERNEL (mm (kth s))" "length vs \<le> free_frames PF_USER (mm (kth s))"
  shows "\<exists>s'. copy_body_stack3 child parent s = Inr s' \<and> parent_same s s' \<and>
    (\<forall>w. unat w < 0xc0000000 \<longrightarrow> (present w (space_view e s') \<longleftrightarrow> (\<exists>v\<in>set vs. unat w div 4096 = unat v div 4096))) \<and>
    (\<forall>v\<in>set vs. \<forall>a. in_range v 4096 a \<longrightarrow> sp_mem (saved s' e) a = umem s a) \<and>
    (\<forall>v\<in>set vs. \<exists>f. space_view e s' (pte_ptr v) = frame_addr PF_USER (mm (kth s)) f OR PG_FLAGS \<and>
      \<not> pool_used PF_USER (mm (kth s)) f)"
proof -
  let ?bm = "vaddr_bitmap va"
  have "copy_body_stack3 child parent s = copy_list child parent vs s"
    using copy_bytes_eq [of 0 "unat (btmp_bytes_len ?bm)" ?bm child parent "vaddr_start va" s] va(1,2) vs(1)
    by (simp add: copy_body_stack3_def Let_def bm_wf_def bm_cap_def)
  moreover obtain s' where "copy_list child parent vs s = Inr s'" "parent_same s s'" "copied vs e s s'"
    using copy_list_ok [OF inv, of vs] used_pages_facts [OF va(3,4), of ?bm] vs fresh fr by auto
  ultimately show ?thesis using fresh by (auto simp: copied_def)
qed

lemma child_page: "in_range child 4096 (child_frame child + frame_off f)"
  "parent + (child_frame child + frame_off f - child) = child_frame parent + frame_off f"
  by (cases f; simp add: in_range_def child_frame_def)+

lemma copy_pcb_frame: "frame (child_frame child) f (copy_pcb child parent s) = frame (child_frame parent) f s"
  unfolding frame_def child_page(2) [of parent child f, symmetric] using child_page(1) [of child f]
  by (simp add: copy_pcb_def on_cells_def set_pcb_def set_task_def on_mm_def Let_def)

lemma build_child_frame:
  "frame (child_frame child) f (build_child_stack child s) = (if f = F_eax then 0 else frame (child_frame child) f s)"
proof -
  let ?k = "child_frame child"
  have "?k + frame_off f \<noteq> ?k - 4" "?k + frame_off f \<noteq> ?k - 8" "?k + frame_off f \<noteq> ?k - 12" "?k + frame_off f \<noteq> ?k - 16"
    "?k + frame_off f \<noteq> ?k - 20" by (cases f; simp)+
  then have "frame ?k f (build_child_stack child s) = frame ?k f (set_frame ?k [(F_eax, 0)] s)"
    by (simp add: frame_def build_child_stack_def Let_def set_pcb_def set_task_def on_cells_def on_mm_def)
  then show ?thesis by (simp add: frame_set)
qed

text \<open>C27: The child resumes where the parent is. Once the control block and the kernel stack have been copied and
  \<^verbatim>\<open>build_child_stack\<close> has run, the first switch to the child takes four zeros and the address of \<^verbatim>\<open>intr_exit\<close> from its stack,
  and \<^verbatim>\<open>intr_exit\<close> then leaves the kernel with all the registers of the parent, except that the system call
  returns 0.\<close>

theorem child_resumes:
  "let t = build_child_stack child (copy_pcb child parent s); k = self_kstack (task (kth t) child) in
    intr_exit (child_frame child) t = (intr_exit (child_frame parent) s)\<lparr>u_eax := 0\<rparr> \<and>
    k + 20 = child_frame child \<and> cell (mm (kth t)) (k + 16) = intr_exit_fn s \<and>
    cell (mm (kth t)) k = 0 \<and> cell (mm (kth t)) (k + 4) = 0 \<and> cell (mm (kth t)) (k + 8) = 0 \<and> cell (mm (kth t)) (k + 12) = 0"
proof -
  let ?t = "build_child_stack child (copy_pcb child parent s)" and ?k = "child_frame child - 20"
  have k: "self_kstack (task (kth ?t) child) = ?k"
    by (simp add: build_child_stack_def Let_def set_pcb_def set_task_def)
  have f: "intr_exit_fn (copy_pcb child parent s) = intr_exit_fn s"
    by (simp add: copy_pcb_def Let_def set_pcb_def on_cells_def)
  have c: "cell (mm (kth ?t)) (?k + x) = (if x = 16 then intr_exit_fn s else 0)" if "x \<in> {0, 4, 8, 12, 16}" for x
    using that f by (auto simp: build_child_stack_def Let_def set_pcb_def set_task_def on_cells_def on_mm_def set_frame_def)
  have "cell (mm (kth ?t)) ?k = 0" "cell (mm (kth ?t)) (?k + 4) = 0" "cell (mm (kth ?t)) (?k + 8) = 0"
    "cell (mm (kth ?t)) (?k + 12) = 0"
    using c [of 0] c [of 4] c [of 8] c [of 12] by simp_all
  moreover have "cell (mm (kth ?t)) (?k + 16) = intr_exit_fn s" using c [of 16] by simp
  moreover have "intr_exit (child_frame child) ?t = (intr_exit (child_frame parent) s)\<lparr>u_eax := 0\<rparr>"
    by (simp add: intr_exit_def build_child_frame copy_pcb_frame)
  ultimately show ?thesis unfolding Let_def k by simp
qed

text \<open>A process with one page at the start of its address space and a child whose directory is still empty.\<close>

definition fork_vm :: vm where
  "fork_vm = proc_vm\<lparr>cell := (cell proc_vm)(pte_ptr 0x8048000 := 0x208007),
     cur_vaddr := \<lparr>vaddr_bitmap = \<lparr>btmp_bytes_len = 1, bits = [1]\<rparr>, vaddr_start = 0x8048000\<rparr>\<rparr>"

definition fork_demo :: kproc where
  "fork_demo = demo_proc\<lparr>kth := (kth demo_proc)\<lparr>mm := fork_vm,
     task := (\<lambda>p. (demo_task TASK_READY p)\<lparr>pgdir := if p = 0x1000 then 0xc0105000 else 0xc0106000\<rparr>)\<rparr>\<rparr>"

lemma fork_demo_inv: "fork_inv 0x2000 0x1000 0xc0105000 0xc0106000 fork_demo"
  using proc_vm_ok(1) pools_cong(1) [of fork_vm proc_vm]
  by (simp add: fork_inv_def two_spaces_def fork_demo_def demo_proc_def fork_vm_def)

lemma fork_demo_pages:
  "used_pages \<lparr>btmp_bytes_len = 1, bits = [1]\<rparr> 0x8048000 [0..<8] = [0x8048000]"
  by (simp add: used_pages_def bm_used_def upt_rec bit_1_iff)

lemma fork_demo_fresh: "unat w < 0xc0000000 \<Longrightarrow> \<not> present w (space_view 0xc0106000 fork_demo)"
proof -
  assume w: "unat w < 0xc0000000"
  let ?x = "pde_ptr w - 0xfffff000"
  have dw: "dir_window (pde_ptr w)" by (simp add: dir_window_def unat_pde_ptr)
  have x: "unat ?x < 4096" using dir_offset [OF dw] .
  have "\<not> in_range 0xc0105000 4096 (0xc0106000 + ?x)" using other_page [of "0xc0105000" "0xc0106000" ?x] x by simp
  moreover have "unat (0xc0106000 + ?x) < 0xfff00000" "unat (0xc0106000 + ?x) < 0xffc00000"
    using unat_in_page [of "0xc0106000" ?x] x by simp_all
  ultimately have "space_view 0xc0106000 fork_demo (pde_ptr w) = 0"
    using dw by (auto simp: space_view_def written_back_def fork_demo_def demo_proc_def fork_vm_def proc_vm_def demo_vm_def
        word_unat_eq_iff unat_pte_ptr Let_def)
  then show ?thesis by (simp add: present_def)
qed

theorem copy_body_copies_witness:
  "\<exists>s'. copy_body_stack3 0x2000 0x1000 fork_demo = Inr s' \<and> present 0x8048000 (space_view 0xc0106000 s') \<and>
     sp_mem (saved s' 0xc0106000) 0x8048123 = 0x23 \<and> umem s' = umem fork_demo"
proof -
  have m: "mm (kth fork_demo) = fork_vm" "umem fork_demo = (\<lambda>a. ucast a)" by (simp_all add: fork_demo_def demo_proc_def)
  have fr: "free_frames PF_KERNEL fork_vm = 7" "free_frames PF_USER fork_vm = 8"
    using proc_vm_ok(2,3) pools_cong(2) [of fork_vm proc_vm] by (simp_all add: fork_vm_def)
  have pr: "present 0x8048000 (cell fork_vm)"
    using pte_below_pde [of "0x8048000" "0x8048000"]
    by (simp add: present_def fork_vm_def proc_vm_def demo_vm_def unat_pde_ptr)
  have v: "cur_vaddr fork_vm = \<lparr>vaddr_bitmap = \<lparr>btmp_bytes_len = 1, bits = [1]\<rparr>, vaddr_start = 0x8048000\<rparr>"
    by (simp add: fork_vm_def)
  let ?vs = "[0x8048000] :: u32 list"
  obtain s' where s': "copy_body_stack3 0x2000 0x1000 fork_demo = Inr s'" "parent_same fork_demo s'"
    "\<forall>w. unat w < 0xc0000000 \<longrightarrow> (present w (space_view 0xc0106000 s') \<longleftrightarrow> (\<exists>v\<in>set ?vs. unat w div 4096 = unat v div 4096))"
    "\<forall>v\<in>set ?vs. \<forall>a. in_range v 4096 a \<longrightarrow> sp_mem (saved s' 0xc0106000) a = umem fork_demo a"
    using copy_body_copies [OF fork_demo_inv, of "cur_vaddr fork_vm" ?vs] fork_demo_fresh fork_demo_pages fr pr
    unfolding m v by (auto simp: bm_wf_def bm_cap_def)
  have "in_range 0x8048000 4096 (0x8048123 :: u32)" by (simp add: in_range_def)
  then show ?thesis using s' m(2) by (auto simp: parent_same_def)
qed

end
