(* ===== verification/Calls.thy ===== *)
theory Calls
  imports Fs
begin

text \<open>
  The calls on open files: seeking, and what a seek behind the end of the file does to the next read.
\<close>

section \<open>Seeking\<close>

text \<open>Where a seek starts from.\<close>

definition seek_base :: "u8 \<Rightarrow> kfile \<Rightarrow> inode \<Rightarrow> int" where
  "seek_base whence fl i = (if whence = 1 then 0 else if whence = 2 then sint (fd_pos fl) else sint (i_size i))"

lemma sint_add_u32: "- (2 ^ 31) \<le> sint a + sint b \<Longrightarrow> sint a + sint b < 2 ^ 31 \<Longrightarrow> sint (a + b :: u32) = sint a + sint b"
  by (subst sint_word_ariths(1)) (simp add: signed_take_bit_int_eq_self)

lemma sys_lseek_eq:
  assumes "sint fd \<ge> 0" "fd_local2global fd s = Inr g" "whence \<in> {1, 2, 3}" "fl = file_table s ! g" "i = core s (fd_inode fl)"
    "sint (i_size i) + 1 < 2 ^ 31" "dest = seek_base whence fl i + sint offset" "- (2 ^ 31) \<le> dest" "dest < 2 ^ 31"
  shows "sys_lseek fd offset whence s =
    (if 0 \<le> dest \<and> dest \<le> sint (i_size i) + 1
     then Inr (dest, s\<lparr>file_table := (file_table s)[g := fl\<lparr>fd_pos := of_int dest\<rparr>]\<rparr>) else Inr (-1, s))"
proof -
  define n where "n = (if whence = 1 then offset else if whence = 2 then fd_pos fl + offset else i_size i + offset)"
  have n: "sint n = dest"
    using assms(7-9) sint_add_u32 [of "fd_pos fl" offset] sint_add_u32 [of "i_size i" offset]
    by (auto simp: n_def seek_base_def)
  have "- (2 ^ 31) \<le> sint (i_size i)" using sint_ge [of "i_size i"] by simp
  then have e: "sint (i_size i + 1) = sint (i_size i) + 1" using sint_add_u32 [of "i_size i" 1] assms(6) by simp
  have w: "whence > 0 \<and> whence < 4" using assms(3) by auto
  have "of_int dest = n" unfolding n [symmetric] by simp
  moreover have "\<not> sint fd < 0" using assms(1) by simp
  moreover from this have "sys_lseek fd offset whence s =
      (if sint n < 0 \<or> sint n > sint (i_size i + 1) then Inr (-1, s) else Inr (sint n, set_file g (\<lambda>fl. fl\<lparr>fd_pos := n\<rparr>) s))"
    unfolding sys_lseek_def assms(2) n_def assms(4,5) Let_def using w by simp
  ultimately show ?thesis unfolding n e by (auto simp: set_file_def assms(4))
qed

text \<open>C36: \<^verbatim>\<open>sys_lseek\<close> moves the position of an open file to the offset from the start, the position or the end, when
  that lies between the start and one byte behind the end, and otherwise returns -1 and changes nothing. Only the
  destination counts: the comment at \<^verbatim>\<open>SEEK_END\<close> says that the offset must be less than 0 there, but the code tests no such thing
  and accepts the offsets 0 and 1 from the end too.\<close>

theorem sys_lseek_spec:
  assumes "sint fd \<ge> 0" "fd_local2global fd s = Inr g" "whence \<in> {1, 2, 3}" "fl = file_table s ! g" "i = core s (fd_inode fl)"
    "sint (i_size i) + 1 < 2 ^ 31" "dest = seek_base whence fl i + sint offset" "- (2 ^ 31) \<le> dest" "dest < 2 ^ 31"
  shows "sys_lseek fd offset whence s =
    (if 0 \<le> dest \<and> dest \<le> sint (i_size i) + 1
     then Inr (dest, s\<lparr>file_table := (file_table s)[g := fl\<lparr>fd_pos := of_int dest\<rparr>]\<rparr>) else Inr (-1, s))"
  using sys_lseek_eq [OF assms] .

definition seek_demo :: fsys where
  "seek_demo = write_demo\<lparr>fd_table := [0, 1, 2, 3, -1, -1, -1, -1],
     core := (core write_demo)(0xc0300000 := (core write_demo 0xc0300000)\<lparr>i_size := 100\<rparr>)\<rparr>"

theorem sys_lseek_spec_witness:
  "sys_lseek 3 (-10) 3 seek_demo =
     Inr (90, seek_demo\<lparr>file_table := (file_table seek_demo)[3 := \<lparr>fd_pos = 90, fd_flag = 2, fd_inode = 0xc0300000\<rparr>]\<rparr>) \<and>
   sys_lseek 3 (-101) 3 seek_demo = Inr (-1, seek_demo)"
proof -
  let ?s = seek_demo
  have g: "fd_local2global 3 ?s = Inr 3" by (simp add: fd_local2global_def seek_demo_def)
  have f: "file_table ?s ! 3 = \<lparr>fd_pos = 0, fd_flag = 2, fd_inode = 0xc0300000\<rparr>" "i_size (core ?s 0xc0300000) = 100"
    by (simp_all add: seek_demo_def write_demo_def demo_fs_def)
  have "sys_lseek 3 (-10) 3 ?s = Inr (90, ?s\<lparr>file_table := (file_table ?s)[3 := (file_table ?s ! 3)\<lparr>fd_pos := of_int 90\<rparr>]\<rparr>)"
    using sys_lseek_spec [OF _ g, of 3 "file_table ?s ! 3" "core ?s 0xc0300000" 90 "-10"] f by (simp add: seek_base_def)
  moreover have "sys_lseek 3 (-101) 3 ?s = Inr (-1, ?s)"
    using sys_lseek_spec [OF _ g, of 3 "file_table ?s ! 3" "core ?s 0xc0300000" "-1" "-101"] f by (simp add: seek_base_def)
  ultimately show ?thesis unfolding f(1) by simp
qed

section \<open>Reading behind the end\<close>

lemma read_data_overruns:
  "length ab \<le> 140 \<Longrightarrow> unat pos \<le> 71680 \<Longrightarrow> 71680 < unat pos + unat size_left \<Longrightarrow> read_data ab pos size_left s \<noteq> Inr r"
proof (induction "unat size_left" arbitrary: pos size_left r rule: less_induct)
  case less
  have pos: "size_left > 0" using less by (auto simp: word_less_nat_alt)
  define c where "c = chunk_size pos size_left"
  have c: "unat c = min (unat size_left) (512 - unat pos mod 512)" unfolding c_def by (rule unat_chunk)
  show ?case
  proof (cases "length ab \<le> unat (pos div 512)")
    case True
    then show ?thesis using pos by (subst read_data.simps) (simp add: Let_def)
  next
    case False
    then have "unat pos div 512 < 140" using less by (simp add: unat_div)
    then have lim: "unat pos + unat c \<le> 71680" using c mult_div_mod_eq [of 512 "unat pos"] mod_less_divisor [of 512 "unat pos"] by linarith
    have p: "unat (pos + c) = unat pos + unat c" using lim by (intro unat_add_u32) simp
    have l: "unat (size_left - c) = unat size_left - unat c" by (rule unat_sub) (simp add: word_le_nat_alt c)
    have "read_data ab (pos + c) (size_left - c) s \<noteq> Inr q" for q
      using less.hyps [of "size_left - c" "pos + c"] less.prems chunk_progress [OF pos, of pos] lim unfolding p l c_def [symmetric] by simp
    then show ?thesis using pos by (subst read_data.simps) (auto simp: Let_def c_def [symmetric] bindE_eq_Inr)
  qed
qed

lemma read_blocks_length: "full (sects s) \<Longrightarrow> read_blocks a b sec s = Inr ab \<Longrightarrow> length ab = 140"
proof -
  have c: "length (copy_blocks ks sec ab) = length ab" for ks ab by (induction ks sec ab rule: copy_blocks.induct) simp_all
  have l: "length ab = 140" if f: "full (sects s)" and ab: "load_indirect t x s = Inr ab" and x: "length x = 140" for t x ab
  proof -
    obtain buf where b: "dread t 1 s = Inr buf" "ab = take 12 x @ words_of buf" using ab by (auto simp: load_indirect_def bindE_eq_Inr)
    then have "length buf = 512" using f by (auto simp: dread_def assertE_def length_sectors split: if_splits)
    then show ?thesis using b(2) x by (simp add: length_words_of)
  qed
  assume "full (sects s)" "read_blocks a b sec s = Inr ab"
  then show ?thesis by (auto simp: read_blocks_def Let_def assertE_eq_Inr c l split: if_splits)
qed

text \<open>A seek to one byte behind the end is accepted, and a read from there does not come back: the size left to read
  is computed as the end minus the position, which is negative and taken as 4 GB, so the copy runs on
  until it is outside the table of blocks.\<close>

theorem lseek_past_end_read_faults:
  assumes "sint fd > 2" "fd_local2global fd s = Inr g" "g < length (file_table s)" "i = core s (fd_inode (file_table s ! g))"
    "unat (i_size i) < 71000" "full (sects s)" "heap s (heap_n s) \<noteq> 0" "heap s (heap_n s + 1) \<noteq> 0"
  shows "\<exists>t. sys_lseek fd 1 3 s = Inr (int (unat (i_size i)) + 1, t) \<and> (\<forall>r. sys_read keys fd count t \<noteq> Inr r)"
proof -
  let ?fl = "file_table s ! g" and ?p = "i_size i + 1"
  have u: "uint (i_size i) < 71000" using assms(5) unfolding uint_nat by linarith
  have size: "sint (i_size i) = int (unat (i_size i))" using assms(5) by (intro sint_small) simp
  define t where "t = s\<lparr>file_table := (file_table s)[g := ?fl\<lparr>fd_pos := ?p\<rparr>]\<rparr>"
  have d: "seek_base 3 ?fl i + sint (1 :: u32) = int (unat (i_size i)) + 1" unfolding seek_base_def using size by simp
  have "of_int (int (unat (i_size i)) + 1) = ?p" by simp
  then have seek: "sys_lseek fd 1 3 s = Inr (int (unat (i_size i)) + 1, t)"
    using sys_lseek_eq [OF _ assms(2) _ refl assms(4) _ d [symmetric]] assms(1) u size by (simp add: t_def)
  have p: "unat ?p = unat (i_size i) + 1" using assms(5) by (subst unat_add_u32) simp_all
  have "file_read g count t \<noteq> Inr r" for r
  proof -
    have t: "file_table t ! g = ?fl\<lparr>fd_pos := ?p\<rparr>" "core t = core s" "sects t = sects s" "heap t = heap s" "heap_n t = heap_n s"
      using assms(3) by (simp_all add: t_def)
    let ?u = "t\<lparr>heap_n := Suc (Suc (heap_n s))\<rparr>"
    have rd: "bindE (read_blocks a b sec ?u) (\<lambda>ab. bindE (read_data ab ?p z ?u) k) \<noteq> Inr r" if "71680 < unat z"
      for a b sec z and k :: "u8 list \<times> u32 \<Rightarrow> (int \<times> u8 list \<times> fsys) result"
      using read_blocks_length [of ?u a b sec] read_data_overruns [of _ ?p z ?u] assms(5,6) p that t(3)
      by (auto simp: bindE_eq_Inr)
    show ?thesis
    proof (cases "?p + count > i_size i")
      case True
      have "(-1 :: u32) = 0xffffffff" by simp
      then have "71680 < unat (-1 :: u32)" by (simp only:) simp
      from rd [OF this] show ?thesis
        unfolding file_read_def Let_def t using True assms(7,8) by (simp add: assms(4) [symmetric] sys_malloc_obj_def t assertE_def)
    next
      case False
      then have "unat (?p + count) < unat ?p" using p unfolding word_less_nat_alt by linarith
      then have "2 ^ 32 \<le> unat ?p + unat count" using unat_add_u32 [of ?p count] by linarith
      then have "71680 < unat count" using p assms(5) by simp
      from rd [OF this] show ?thesis
        unfolding file_read_def Let_def t using False assms(7,8) by (simp add: assms(4) [symmetric] sys_malloc_obj_def t assertE_def)
    qed
  qed
  moreover have "sys_read keys fd count t = file_read g count t"
    using assms(1,2) by (auto simp: sys_read_def fd_local2global_def t_def)
  ultimately show ?thesis using seek by auto
qed

theorem lseek_past_end_read_faults_witness:
  "\<exists>t. sys_lseek 3 1 3 (read_demo 0\<lparr>fd_table := [0, 1, 2, 3, -1, -1, -1, -1]\<rparr>) = Inr (7001, t) \<and>
     (\<forall>r. sys_read [] 3 10 t \<noteq> Inr r)"
proof -
  let ?s = "read_demo 0\<lparr>fd_table := [0, 1, 2, 3, -1, -1, -1, -1]\<rparr>"
  have g: "fd_local2global 3 ?s = Inr 3" by (simp add: fd_local2global_def)
  have f: "3 < length (file_table ?s)" "core ?s a = demo_file" "full (sects ?s)" "heap ?s (heap_n ?s) \<noteq> 0" "heap ?s (heap_n ?s + 1) \<noteq> 0" for a
    using full_demo by (simp_all add: read_demo_def demo_fs_def)
  have "unat (i_size demo_file) = 7000" by (simp add: demo_file_def)
  then show ?thesis using lseek_past_end_read_faults [OF _ g f(1) f(2) [symmetric] _ f(3,4,5), of "[]" 10] by auto
qed

end
