(* ===== verification/Exec.thy ===== *)
theory Exec
  imports Process Calls
begin

text \<open>
  \<^verbatim>\<open>proc/exec.c\<close>: loading a program in the ELF format and replacing the running process by it. The file is read with the calls of
  \<open>Fs\<close>; \<^verbatim>\<open>sys_read\<close> into user memory stores the bytes it delivers, and storing to a page that is not mapped is a page
  fault. The descriptor of a file that has been opened is never that of the standard input.
\<close>

section \<open>Headers\<close>

record Elf32_Ehdr =
  e_ident :: "u8 list"
  e_type :: u16
  e_machine :: u16
  e_version :: u32
  e_entry :: u32
  e_phoff :: u32
  e_shoff :: u32
  e_flags :: u32
  e_ehsize :: u16
  e_phentsize :: u16
  e_phnum :: u16
  e_shentsize :: u16
  e_shnum :: u16
  e_shstrndx :: u16

record Elf32_Phdr =
  p_type :: u32
  p_offset :: u32
  p_vaddr :: u32
  p_paddr :: u32
  p_filesz :: u32
  p_memsz :: u32
  p_flags :: u32
  p_align :: u32

definition rd16 :: "u8 \<Rightarrow> u8 \<Rightarrow> u16" where
  "rd16 a b = ucast a OR push_bit 8 (ucast b)"

definition ehdr_of :: "u8 list \<Rightarrow> Elf32_Ehdr" where
  "ehdr_of b =
     (let h = (\<lambda>k. rd16 (b ! k) (b ! (k + 1)));
          w = (\<lambda>k. rd32 (b ! k) (b ! (k + 1)) (b ! (k + 2)) (b ! (k + 3)))
      in \<lparr>e_ident = take 16 b, e_type = h 16, e_machine = h 18, e_version = w 20, e_entry = w 24, e_phoff = w 28,
          e_shoff = w 32, e_flags = w 36, e_ehsize = h 40, e_phentsize = h 42, e_phnum = h 44, e_shentsize = h 46,
          e_shnum = h 48, e_shstrndx = h 50\<rparr>)"

definition phdr_of :: "u8 list \<Rightarrow> Elf32_Phdr" where
  "phdr_of b =
     (let w = (\<lambda>k. rd32 (b ! k) (b ! (k + 1)) (b ! (k + 2)) (b ! (k + 3)))
      in \<lparr>p_type = w 0, p_offset = w 4, p_vaddr = w 8, p_paddr = w 12, p_filesz = w 16, p_memsz = w 20, p_flags = w 24,
          p_align = w 28\<rparr>)"

definition PT_LOAD :: u32 where "PT_LOAD = 1"

section \<open>Segments\<close>

definition on_fs :: "(fsys \<Rightarrow> ('a \<times> fsys) result) \<Rightarrow> kproc \<Rightarrow> ('a \<times> kproc) result" where
  "on_fs f s = bindE (f (fs (kfs s))) (\<lambda>(x, m). Inr (x, s\<lparr>kfs := (kfs s)\<lparr>fs := m\<rparr>\<rparr>))"

definition overlay :: "u32 \<Rightarrow> u8 list \<Rightarrow> (u32 \<Rightarrow> u8) \<Rightarrow> u32 \<Rightarrow> u8" where
  "overlay v bs m a = (if in_range v (length bs) a then bs ! unat (a - v) else m a)"

definition store_user :: "u32 \<Rightarrow> u8 list \<Rightarrow> kproc \<Rightarrow> kproc result" where
  "store_user v bs s =
     (if \<forall>k<length bs. present (v + of_nat k) (cell (mm (kth s)))
      then Inr (s\<lparr>umem := overlay v bs (umem s)\<rparr>) else Inl Out_of_bounds)"

definition read_user :: "u32 \<Rightarrow> u32 \<Rightarrow> u32 \<Rightarrow> kproc \<Rightarrow> (int \<times> kproc) result" where
  "read_user fd buf count s =
     bindE (sys_read [] fd count (fs (kfs s))) (\<lambda>(n, bs, m).
     bindE (store_user buf bs (s\<lparr>kfs := (kfs s)\<lparr>fs := m\<rparr>\<rparr>)) (\<lambda>s. Inr (n, s)))"

definition occupy_pages :: "u32 \<Rightarrow> u32 \<Rightarrow> u32" where
  "occupy_pages filesz vaddr =
     (let size_in_first_page = 4096 - (vaddr AND 0xfff) in
      if filesz > size_in_first_page
      then let left_size = filesz - size_in_first_page in DIV_ROUND_UP left_size 4096 + 1 else 1)"

text \<open>The loop tests the entries of \<open>vaddr\<close> in every round.\<close>

fun alloc_loop :: "nat \<Rightarrow> u32 \<Rightarrow> u32 \<Rightarrow> kproc \<Rightarrow> (bool \<times> kproc) result" where
  "alloc_loop 0 vaddr vaddr_page s = Inr (True, s)"
| "alloc_loop (Suc n) vaddr vaddr_page s =
     (if \<not> present vaddr (cell (mm (kth s)))
      then bindE (on_vm (get_a_page PF_USER vaddr_page) s) (\<lambda>(a, s).
             if a = 0 then Inr (False, s) else alloc_loop n vaddr (vaddr_page + 4096) s)
      else alloc_loop n vaddr (vaddr_page + 4096) s)"

definition segment_load :: "u32 \<Rightarrow> u32 \<Rightarrow> u32 \<Rightarrow> u32 \<Rightarrow> kproc \<Rightarrow> (bool \<times> kproc) result" where
  "segment_load fd offset filesz vaddr s =
     (let vaddr_first_page = vaddr AND 0xfffff000 in
      bindE (alloc_loop (unat (occupy_pages filesz vaddr)) vaddr vaddr_first_page s) (\<lambda>(ok, s).
        if \<not> ok then Inr (False, s)
        else
          bindE (on_fs (sys_lseek fd offset 1) s) (\<lambda>(_, s).
          bindE (read_user fd vaddr filesz s) (\<lambda>(_, s). Inr (True, s)))))"

section \<open>Programs\<close>

text \<open>A header on the kernel's stack, zeroed before it is read.\<close>

definition read_header :: "u32 \<Rightarrow> nat \<Rightarrow> kproc \<Rightarrow> (int \<times> u8 list \<times> kproc) result" where
  "read_header fd n s =
     bindE (sys_read [] fd (of_nat n) (fs (kfs s))) (\<lambda>(r, bs, m).
       Inr (r, splice 0 bs (replicate n 0), s\<lparr>kfs := (kfs s)\<lparr>fs := m\<rparr>\<rparr>))"

text \<open>The body of the loop for one program header.\<close>

definition load_header :: "u32 \<Rightarrow> Elf32_Phdr \<Rightarrow> kproc \<Rightarrow> (bool \<times> kproc) result" where
  "load_header fd ph s =
     (if p_type ph = PT_LOAD then segment_load fd (p_offset ph) (p_filesz ph) (p_vaddr ph) s else Inr (True, s))"

fun load_segments :: "u32 \<Rightarrow> u16 \<Rightarrow> nat \<Rightarrow> u32 \<Rightarrow> kproc \<Rightarrow> (bool \<times> kproc) result" where
  "load_segments fd phsize 0 off s = Inr (True, s)"
| "load_segments fd phsize (Suc n) off s =
     bindE (on_fs (sys_lseek fd off 1) s) (\<lambda>(_, s).
     bindE (read_header fd (unat phsize) s) (\<lambda>(r, b, s).
       if r \<noteq> int (unat phsize) then Inr (False, s)
       else
         bindE (load_header fd (phdr_of b) s)
           (\<lambda>(ok, s). if \<not> ok then Inr (False, s) else load_segments fd phsize n (off + ucast phsize) s)))"

definition elf_ok :: "Elf32_Ehdr \<Rightarrow> bool result" where
  "elf_ok eh =
     bindE (memcmp (e_ident eh) [0x7f, 0x45, 0x4c, 0x46, 1, 1, 1] 7) (\<lambda>c.
       Inr (c = 0 \<and> e_type eh = 2 \<and> e_machine eh = 3 \<and> e_version eh = 1 \<and> e_phnum eh \<le> 1024 \<and> e_phentsize eh = 32))"

definition load_image :: "u32 \<Rightarrow> kproc \<Rightarrow> (u32 \<times> kproc) result" where
  "load_image fd s =
     bindE (read_header fd 52 s) (\<lambda>(r, b, s).
     bindE
       (if r \<noteq> 52 then Inr (-1, s)
        else
          let eh = ehdr_of b in
          bindE (elf_ok eh) (\<lambda>good.
            if \<not> good then Inr (-1, s)
            else
              bindE (load_segments fd (e_phentsize eh) (unat (e_phnum eh)) (e_phoff eh) s) (\<lambda>(ok, s).
                Inr (if ok then e_entry eh else -1, s))))
       (\<lambda>(ret, s). bindE (on_fs (sys_close fd) s) (\<lambda>(_, s). Inr (ret, s))))"

definition load :: "junk \<Rightarrow> char list \<Rightarrow> kproc \<Rightarrow> (u32 \<times> kproc) result" where
  "load j path s =
     bindE (sys_open j path 0 (kfs s)) (\<lambda>(fd, f).
       let s = s\<lparr>kfs := f\<rparr> in if fd = -1 then Inr (1, s) else load_image (word_of_int fd) s)"

section \<open>Replacing a process\<close>

text \<open>\<open>args\<close> are the words from \<^verbatim>\<open>argv\<close> on. The call returns a value, or it jumps to \<^verbatim>\<open>intr_exit\<close> with the frame at the given
  address.\<close>

datatype exec_result = Exec_returns int | Exec_enters u32

fun count_args :: "u32 list \<Rightarrow> nat result" where
  "count_args [] = Inl Out_of_bounds"
| "count_args (a # args) = (if a = 0 then Inr 0 else bindE (count_args args) (\<lambda>n. Inr (n + 1)))"

definition sys_execv :: "junk \<Rightarrow> char list \<Rightarrow> u32 \<Rightarrow> u32 list \<Rightarrow> kproc \<Rightarrow> (exec_result \<times> kproc) result" where
  "sys_execv j path argv args s =
     bindE (count_args args) (\<lambda>argc.
     bindE (load j path s) (\<lambda>(entry_point, s).
       if entry_point = -1 then Inr (Exec_returns (-1), s)
       else if length path < 16 then Inl Out_of_bounds
       else
         let p = running_thread (kth s);
             s = set_pcb p (\<lambda>t. t\<lparr>name := (take 16 path)[15 := NUL]\<rparr>) s;
             k = p + 4096 - 76
         in Inr (Exec_enters k,
              set_frame k [(F_ebx, argv), (F_ecx, of_nat argc), (F_eip, entry_point), (F_esp, 0xc0000000)] s)))"

section \<open>Reading the program file\<close>

text \<open>The descriptor \<open>fd\<close> is open on a file with the bytes \<open>F\<close>, whose blocks, direct and indirect, are on the disk, and memory
  for the buffers of a read does not run out. A read that starts in a direct block and ends in the first indirect
  one delivers wrong bytes (\<open>FileRead\<close>); \<open>clear_read\<close> excludes it.\<close>

definition clear_read :: "nat \<Rightarrow> nat \<Rightarrow> bool" where
  "clear_read off n \<longleftrightarrow> \<not> (off div 512 < 12 \<and> (off + n) div 512 = 12)"

definition program_file :: "u32 \<Rightarrow> nat \<Rightarrow> inode \<Rightarrow> u8 list \<Rightarrow> fsys \<Rightarrow> bool" where
  "program_file fd g i F s \<longleftrightarrow> sint fd > 2 \<and> fd_local2global fd s = Inr g \<and> g < length (file_table s) \<and>
     i = core s (fd_inode (file_table s ! g)) \<and> (\<forall>n. heap s n \<noteq> 0) \<and>
     blocks_readable 0 (unat (i_size i) div 512) i s \<and>
     F = file_bytes i s 0 (unat (i_size i))"

lemma length_file_bytes [simp]: "length (file_bytes i s a n) = n"
  by (simp add: file_bytes_def)

lemma program_size: "program_file fd g i F s \<Longrightarrow> length F = unat (i_size i) \<and> unat (i_size i) < 71168"
proof -
  assume "program_file fd g i F s"
  then have "length F = unat (i_size i)" "unat (i_size i) div 512 < 139"
    by (auto simp: program_file_def blocks_readable_def)
  then show ?thesis using mult_div_mod_eq [of 512 "unat (i_size i)"] mod_less_divisor [of 512 "unat (i_size i)"] by linarith
qed

lemma program_upd:
  assumes "program_file fd g i F s"
  shows "program_file fd g i F (set_file g (\<lambda>fl. fl\<lparr>fd_pos := p\<rparr>) s)" "program_file fd g i F (s\<lparr>heap_n := n\<rparr>)"
proof -
  have same: "fd_local2global fd (s'\<lparr>heap_n := n\<rparr>) = fd_local2global fd s'"
    "fd_local2global fd (set_file g (\<lambda>fl. fl\<lparr>fd_pos := p\<rparr>) s') = fd_local2global fd s'"
    "file_bytes i (s'\<lparr>heap_n := n\<rparr>) = file_bytes i s'"
    "file_bytes i (set_file g (\<lambda>fl. fl\<lparr>fd_pos := p\<rparr>) s') = file_bytes i s'" for s'
    by (simp_all add: set_file_def fd_local2global_def file_bytes_def [abs_def] file_byte_def [abs_def] file_blocks_def)
  have read: "blocks_readable a b i (s'\<lparr>heap_n := n\<rparr>) = blocks_readable a b i s'"
    "blocks_readable a b i (set_file g (\<lambda>fl. fl\<lparr>fd_pos := p\<rparr>) s') = blocks_readable a b i s'" for a b s'
    by (simp_all add: blocks_readable_def set_file_def file_blocks_def)
  show "program_file fd g i F (set_file g (\<lambda>fl. fl\<lparr>fd_pos := p\<rparr>) s)" "program_file fd g i F (s\<lparr>heap_n := n\<rparr>)"
    using assms unfolding program_file_def same read by (auto simp: set_file_def)
qed

lemma seek_ok:
  assumes "program_file fd g i F s" "off \<le> length F"
  shows "sys_lseek fd (of_nat off) 1 s = Inr (int off, set_file g (\<lambda>fl. fl\<lparr>fd_pos := of_nat off\<rparr>) s)"
proof -
  have sz: "unat (i_size i) < 71168" "length F = unat (i_size i)" "\<not> sint fd < 0" "fd_local2global fd s = Inr g"
    "i = core s (fd_inode (file_table s ! g))"
    using assms(1) program_size [OF assms(1)] by (auto simp: program_file_def)
  have o: "unat (of_nat off :: u32) = off" using assms(2) sz by (simp add: unat_of_nat)
  then have "sint (of_nat off :: u32) = int off" using sint_small [of "of_nat off"] assms(2) sz(1,2) by simp
  moreover have "unat (i_size i + 1) = unat (i_size i) + 1" using unat_add_u32 [of "i_size i" 1] sz(1) by simp
  then have "sint (i_size i + 1) = int (unat (i_size i) + 1)" using sint_small [of "i_size i + 1"] sz(1) by simp
  then have "\<not> sint (i_size i + 1) < int off" using assms(2) sz(2) by linarith
  ultimately show ?thesis using sz(3-5) by (simp add: sys_lseek_def Let_def)
qed

lemma read_ok:
  assumes "program_file fd g i F s" "unat (fd_pos (file_table s ! g)) = off" "off + n \<le> length F" "clear_read off n"
  shows "\<exists>t. sys_read keys fd (of_nat n) s = Inr (int n, take n (drop off F), t) \<and> program_file fd g i F t"
proof -
  let ?fl = "file_table s ! g"
  note p = assms(1) [unfolded program_file_def]
  have len: "length F = unat (i_size i)" "length F < 71168" using program_size [OF assms(1)] by auto
  have n: "unat (of_nat n :: u32) = n" using assms(3) len(2) by (simp add: unat_of_nat)
  have rs: "read_size ?fl i (of_nat n) = n" using assms(2,3) n len by (simp add: read_size_def)
  have e: "end_block ?fl i (of_nat n) = (off + n) div 512" "start_block ?fl = off div 512"
    using assms(2) rs by (simp_all add: end_block_def start_block_def)
  then have le: "end_block ?fl i (of_nat n) \<le> unat (i_size i) div 512" using assms(3) len(1) by (simp add: div_le_mono)
  have "read_ready g (of_nat n) i ?fl s"
    using p assms(2,3) n len by (simp add: read_ready_def word_le_nat_alt)
  moreover have "blocks_readable (start_block ?fl) (end_block ?fl i (of_nat n)) i s"
    using p le by (auto simp: blocks_readable_def)
  moreover have "\<not> (fd_pos ?fl = i_size i \<and> (of_nat n :: u32) > 0)"
    using assms(2,3) len n by (auto simp: word_less_nat_alt)
  ultimately have r: "file_read g (of_nat n) s = Inr (int n, file_bytes i s off n,
      set_file g (\<lambda>fl. fl\<lparr>fd_pos := fd_pos fl + of_nat n\<rparr>) (s\<lparr>heap_n := heap_n s + 2\<rparr>))"
    using file_read_eq [of g "of_nat n" i ?fl s] assms(2,4) e rs by (simp add: set_file_def clear_read_def)
  have "file_bytes i s off n = take n (drop off F)"
    using p assms(3) len(1) by (simp add: file_bytes_def take_map drop_map)
  moreover have "set_file g (\<lambda>fl. fl\<lparr>fd_pos := fd_pos fl + of_nat n\<rparr>) (s\<lparr>heap_n := heap_n s + 2\<rparr>) =
      set_file g (\<lambda>fl. fl\<lparr>fd_pos := fd_pos ?fl + of_nat n\<rparr>) (s\<lparr>heap_n := heap_n s + 2\<rparr>)"
    by (simp add: set_file_def)
  moreover have "sys_read keys fd (of_nat n) s = file_read g (of_nat n) s" using p by (auto simp: sys_read_def)
  ultimately show ?thesis using r program_upd assms(1) by simp
qed

lemma seek_read:
  assumes "program_file fd g i F s" "off + n \<le> length F" "clear_read off n"
  shows "\<exists>m t. sys_lseek fd (of_nat off) 1 s = Inr (int off, m) \<and> sys_read keys fd (of_nat n) m = Inr (int n, take n (drop off F), t) \<and>
    program_file fd g i F t"
proof -
  let ?m = "set_file g (\<lambda>fl. fl\<lparr>fd_pos := of_nat off\<rparr>) s"
  have g: "g < length (file_table s)" "length F < 71168"
    using assms(1) program_size [OF assms(1)] by (auto simp: program_file_def)
  have "unat (fd_pos (file_table ?m ! g)) = off" using g assms(2) by (simp add: set_file_def unat_of_nat)
  then show ?thesis
    using seek_ok [OF assms(1), of off] read_ok [OF program_upd(1) [OF assms(1)], of "of_nat off" off n keys] assms(2,3) by auto
qed

section \<open>Loading a segment\<close>

lemma same_page: "unat w div 4096 = unat v div 4096 \<Longrightarrow> present w c = present v c"
proof -
  assume a: "unat w div 4096 = unat v div 4096"
  have "pte_ptr w = pte_ptr v" using a by (simp only: pte_ptr_eq)
  moreover have "pde_ptr w = pde_ptr v" using page_div [OF a] by (simp only: pde_ptr_eq)
  ultimately show ?thesis by (simp add: present_def)
qed

lemma first_page: "unat (v AND 0xfffff000) div 4096 = unat (v :: u32) div 4096" "unat (v AND 0xfffff000) \<le> unat v"
  by (simp_all add: unat_page)

lemma alloc_present: "present v (cell (mm (kth s))) \<Longrightarrow> alloc_loop n v p s = Inr (True, s)"
  by (induction n arbitrary: p) simp_all

text \<open>The pages behind the first one are never allocated: once the first page is mapped the test of the loop is false.\<close>

lemma alloc_first:
  assumes "present v (cell (mm (kth s))) \<or> page_free (v AND 0xfffff000) (mm (kth s)) \<and> v AND 0xfffff000 \<noteq> 0"
  shows "\<exists>m. alloc_loop (Suc n) v (v AND 0xfffff000) s = Inr (True, s\<lparr>kth := (kth s)\<lparr>mm := m\<rparr>\<rparr>) \<and> present v (cell m) \<and>
    (\<forall>w. unat w < 0xc0000000 \<and> unat w div 4096 \<noteq> unat v div 4096 \<longrightarrow> present w (cell m) = present w (cell (mm (kth s))))"
proof (cases "present v (cell (mm (kth s)))")
  case True
  then show ?thesis using alloc_present [OF True, of "Suc n"] by (intro exI [of _ "mm (kth s)"]) simp
next
  case False
  let ?p = "v AND 0xfffff000"
  obtain m where m: "get_a_page PF_USER ?p (mm (kth s)) = Inr (?p, m)" "maps ?p (cell (mm (kth s))) (cell m)"
    using get_a_page_ok assms False by blast
  have pv: "present v (cell m)" using m(2) same_page [OF first_page(1) [of v]] by (simp add: maps_def)
  have "alloc_loop n v q (s\<lparr>kth := (kth s)\<lparr>mm := m\<rparr>\<rparr>) = Inr (True, s\<lparr>kth := (kth s)\<lparr>mm := m\<rparr>\<rparr>)" for q
    using pv by (intro alloc_present) simp
  then have "alloc_loop (Suc n) v ?p s = Inr (True, s\<lparr>kth := (kth s)\<lparr>mm := m\<rparr>\<rparr>)"
    using False m(1) assms by (simp add: on_vm_def)
  then show ?thesis using pv m(2) first_page(1) [of v] by (intro exI [of _ m]) (auto simp: maps_def)
qed

lemma occupy_pages_pos: "\<exists>n. unat (occupy_pages filesz v) = Suc n"
proof -
  have "unat (DIV_ROUND_UP x 4096 + 1) = unat (DIV_ROUND_UP x 4096) + 1" for x :: u32
  proof -
    have "unat (x + 4096 - 1) div 4096 < 2 ^ 20" using unat_lt [of "x + 4096 - 1"] by (simp add: less_mult_imp_div_less)
    then show ?thesis using unat_add_u32 [of "DIV_ROUND_UP x 4096" 1] by (simp add: DIV_ROUND_UP_def unat_div)
  qed
  then show ?thesis by (simp add: occupy_pages_def Let_def)
qed

lemma segment_reads:
  assumes f: "program_file fd g i F (fs (kfs s))" "off + n \<le> length F" "clear_read off n"
    and a: "present v (cell (mm (kth s))) \<or> page_free (v AND 0xfffff000) (mm (kth s)) \<and> v AND 0xfffff000 \<noteq> 0"
  shows "\<exists>m t. segment_load fd (of_nat off) (of_nat n) v s =
      bindE (store_user v (take n (drop off F)) (s\<lparr>kth := (kth s)\<lparr>mm := m\<rparr>, kfs := (kfs s)\<lparr>fs := t\<rparr>\<rparr>)) (\<lambda>s. Inr (True, s)) \<and>
    program_file fd g i F t \<and> present v (cell m) \<and> (present v (cell (mm (kth s))) \<longrightarrow> m = mm (kth s)) \<and>
    (\<forall>w. unat w < 0xc0000000 \<and> unat w div 4096 \<noteq> unat v div 4096 \<longrightarrow> present w (cell m) = present w (cell (mm (kth s))))"
proof -
  obtain k where k: "unat (occupy_pages (of_nat n) v) = Suc k" using occupy_pages_pos by blast
  obtain m where m: "alloc_loop (Suc k) v (v AND 0xfffff000) s = Inr (True, s\<lparr>kth := (kth s)\<lparr>mm := m\<rparr>\<rparr>)" "present v (cell m)"
    "\<forall>w. unat w < 0xc0000000 \<and> unat w div 4096 \<noteq> unat v div 4096 \<longrightarrow> present w (cell m) = present w (cell (mm (kth s)))"
    using alloc_first [OF a, of k] by blast
  have same: "present v (cell (mm (kth s))) \<longrightarrow> m = mm (kth s)"
  proof
    assume "present v (cell (mm (kth s)))"
    then have "s\<lparr>kth := (kth s)\<lparr>mm := m\<rparr>\<rparr> = s" using alloc_present [of v s "Suc k"] m(1) by simp
    then have "mm (kth (s\<lparr>kth := (kth s)\<lparr>mm := m\<rparr>\<rparr>)) = mm (kth s)" by (rule arg_cong)
    then show "m = mm (kth s)" by simp
  qed
  obtain t1 t2 where t: "sys_lseek fd (of_nat off) 1 (fs (kfs s)) = Inr (int off, t1)"
    "sys_read [] fd (of_nat n) t1 = Inr (int n, take n (drop off F), t2)" "program_file fd g i F t2"
    using seek_read [OF f, of "[]"] by blast
  have "segment_load fd (of_nat off) (of_nat n) v s =
      bindE (store_user v (take n (drop off F)) (s\<lparr>kth := (kth s)\<lparr>mm := m\<rparr>, kfs := (kfs s)\<lparr>fs := t2\<rparr>\<rparr>)) (\<lambda>s. Inr (True, s))"
    using k m(1) t by (simp add: segment_load_def on_fs_def read_user_def Let_def bindE_assoc)
  then show ?thesis using m t(3) same by blast
qed

section \<open>Properties\<close>

text \<open>C40: A segment that reaches into a second page which is not mapped yet cannot be loaded: the loop that should allocate its pages
  tests the first page in every round, allocates at most that one, and the read of the file runs into a page fault.\<close>

theorem segment_second_page_faults:
  assumes f: "program_file fd g i F (fs (kfs s))" "off + n \<le> length F" "clear_read off n"
    and a: "present v (cell (mm (kth s))) \<or> page_free (v AND 0xfffff000) (mm (kth s)) \<and> v AND 0xfffff000 \<noteq> 0"
    and long: "4096 < unat v mod 4096 + n"
    and snd: "unat (v AND 0xfffff000) + 4096 < 0xc0000000" "\<not> present ((v AND 0xfffff000) + 4096) (cell (mm (kth s)))"
  shows "segment_load fd (of_nat off) (of_nat n) v s = Inl Out_of_bounds"
proof -
  let ?p = "v AND 0xfffff000"
  define k where "k = 4096 - unat v mod 4096"
  obtain m t where mt: "segment_load fd (of_nat off) (of_nat n) v s =
      bindE (store_user v (take n (drop off F)) (s\<lparr>kth := (kth s)\<lparr>mm := m\<rparr>, kfs := (kfs s)\<lparr>fs := t\<rparr>\<rparr>)) (\<lambda>s. Inr (True, s))"
    "\<forall>w. unat w < 0xc0000000 \<and> unat w div 4096 \<noteq> unat v div 4096 \<longrightarrow> present w (cell m) = present w (cell (mm (kth s)))"
    using segment_reads [OF f a] by blast
  have p: "unat (?p + 4096) = unat ?p + 4096" using unat_add_u32 [of ?p 4096] snd(1) by simp
  have "unat ?p + unat v mod 4096 = unat v" by (simp add: unat_page)
  then have "unat v + k = unat ?p + 4096" using mod_less_divisor [of 4096 "unat v"] unfolding k_def by linarith
  moreover have "unat (of_nat k :: u32) = k" using unat_of_nat [of k, where 'a = 32] by (simp add: k_def del: of_nat_diff)
  ultimately have "unat (v + of_nat k) = unat (?p + 4096)" using unat_add_u32 [of v "of_nat k"] snd(1) p by simp
  then have vk: "v + of_nat k = ?p + 4096" by (simp add: word_unat_eq_iff)
  have "unat (?p + 4096) div 4096 \<noteq> unat v div 4096" unfolding p using first_page(1) [of v] by simp
  then have "\<not> present (v + of_nat k) (cell m)" using mt(2) snd p unfolding vk by simp
  moreover have "k < length (take n (drop off F))" using long f(2) by (simp add: k_def)
  ultimately show ?thesis unfolding mt(1) by (auto simp: store_user_def)
qed

text \<open>The segments that a table of \<open>n\<close> program headers at \<open>off\<close> describes, laid over the memory one after the other.\<close>

fun memory_image :: "u8 list \<Rightarrow> nat \<Rightarrow> nat \<Rightarrow> (u32 \<Rightarrow> u8) \<Rightarrow> u32 \<Rightarrow> u8" where
  "memory_image F off 0 m = m"
| "memory_image F off (Suc n) m =
     (let ph = phdr_of (take 32 (drop off F)) in
      memory_image F (off + 32) n
        (if p_type ph = PT_LOAD
         then overlay (p_vaddr ph) (take (unat (p_filesz ph)) (drop (unat (p_offset ph)) F)) m else m))"

definition segment_ok :: "u8 list \<Rightarrow> (u32 \<Rightarrow> u32) \<Rightarrow> Elf32_Phdr \<Rightarrow> bool" where
  "segment_ok F c ph \<longleftrightarrow> (p_type ph = PT_LOAD \<longrightarrow>
     unat (p_offset ph) + unat (p_filesz ph) \<le> length F \<and> clear_read (unat (p_offset ph)) (unat (p_filesz ph)) \<and>
     present (p_vaddr ph) c \<and> (\<forall>k<unat (p_filesz ph). present (p_vaddr ph + of_nat k) c))"

text \<open>The program header at \<open>off\<close> can be read, and its segment.\<close>

definition header_ok :: "u8 list \<Rightarrow> (u32 \<Rightarrow> u32) \<Rightarrow> nat \<Rightarrow> bool" where
  "header_ok F c off \<longleftrightarrow> clear_read off 32 \<and> segment_ok F c (phdr_of (take 32 (drop off F)))"

lemma load_segments_ok:
  assumes "program_file fd g i F (fs (kfs s))" "off + 32 * n \<le> length F"
    "\<forall>k<n. header_ok F (cell (mm (kth s))) (off + 32 * k)"
  shows "\<exists>t. load_segments fd 32 n (of_nat off) s = Inr (True, s\<lparr>kfs := (kfs s)\<lparr>fs := t\<rparr>, umem := memory_image F off n (umem s)\<rparr>) \<and>
    program_file fd g i F t"
  using assms
proof (induction n arbitrary: off s)
  case 0
  then show ?case by (intro exI [of _ "fs (kfs s)"]) simp
next
  case (Suc n)
  let ?b = "take 32 (drop off F)" let ?ph = "phdr_of ?b"
  obtain t1 t2 where t: "sys_lseek fd (of_nat off) 1 (fs (kfs s)) = Inr (int off, t1)"
    "sys_read [] fd 32 t1 = Inr (32, ?b, t2)" "program_file fd g i F t2"
    using seek_read [OF Suc.prems(1), of off 32 "[]"] Suc.prems(2,3) by (force simp: header_ok_def)
  have b: "splice 0 ?b (replicate 32 0) = ?b" using Suc.prems(2) by (simp add: splice_def)
  let ?s1 = "s\<lparr>kfs := (kfs s)\<lparr>fs := t2\<rparr>\<rparr>"
  have ok: "segment_ok F (cell (mm (kth s))) ?ph" using Suc.prems(3) [rule_format, of 0] by (simp add: header_ok_def)
  let ?m = "if p_type ?ph = PT_LOAD
      then overlay (p_vaddr ?ph) (take (unat (p_filesz ?ph)) (drop (unat (p_offset ?ph)) F)) (umem s) else umem s"
  have "\<exists>t. load_header fd ?ph ?s1 =
      Inr (True, s\<lparr>kfs := (kfs s)\<lparr>fs := t\<rparr>, umem := ?m\<rparr>) \<and> program_file fd g i F t"
  proof (cases "p_type ?ph = PT_LOAD")
    case True
    then have o: "unat (p_offset ?ph) + unat (p_filesz ?ph) \<le> length F"
      "clear_read (unat (p_offset ?ph)) (unat (p_filesz ?ph))" "present (p_vaddr ?ph) (cell (mm (kth ?s1)))"
      "\<forall>k<unat (p_filesz ?ph). present (p_vaddr ?ph + of_nat k) (cell (mm (kth s)))"
      using ok by (simp_all add: segment_ok_def)
    let ?d = "take (unat (p_filesz ?ph)) (drop (unat (p_offset ?ph)) F)"
    obtain m t where "segment_load fd (p_offset ?ph) (p_filesz ?ph) (p_vaddr ?ph) ?s1 =
        bindE (store_user (p_vaddr ?ph) ?d (?s1\<lparr>kth := (kth ?s1)\<lparr>mm := m\<rparr>, kfs := (kfs ?s1)\<lparr>fs := t\<rparr>\<rparr>)) (\<lambda>s. Inr (True, s))"
      "program_file fd g i F t" "m = mm (kth s)"
      using segment_reads [of fd g i F ?s1 "unat (p_offset ?ph)" "unat (p_filesz ?ph)" "p_vaddr ?ph"] t(3) o by auto
    then show ?thesis using True o(1,4) by (auto simp: load_header_def store_user_def)
  qed (use t(3) in \<open>auto simp: load_header_def\<close>)
  then obtain t3 where t3: "load_header fd ?ph ?s1 = Inr (True, s\<lparr>kfs := (kfs s)\<lparr>fs := t3\<rparr>, umem := ?m\<rparr>)" "program_file fd g i F t3" by blast
  let ?s2 = "s\<lparr>kfs := (kfs s)\<lparr>fs := t3\<rparr>, umem := ?m\<rparr>"
  have "load_segments fd 32 (Suc n) (of_nat off) s = load_segments fd 32 n (of_nat (off + 32)) ?s2"
  proof -
    have r: "read_header fd 32 (s\<lparr>kfs := (kfs s)\<lparr>fs := t1\<rparr>\<rparr>) = Inr (32, ?b, ?s1)"
      unfolding read_header_def using t(2) b by simp
    have l: "on_fs (sys_lseek fd (of_nat off) 1) s = Inr (int off, s\<lparr>kfs := (kfs s)\<lparr>fs := t1\<rparr>\<rparr>)"
      using t(1) by (simp add: on_fs_def)
    have u: "unat (32 :: u16) = 32" "of_nat off + ucast (32 :: u16) = (of_nat (off + 32) :: u32)" by simp_all
    show ?thesis unfolding load_segments.simps l bindE_Inr split_conv u r t3(1) by simp
  qed
  moreover have "program_file fd g i F (fs (kfs ?s2))" "off + 32 + 32 * n \<le> length F" using t3(2) Suc.prems(2) by simp_all
  moreover have "header_ok F (cell (mm (kth ?s2))) (off + 32 + 32 * k)" if "k < n" for k
    using Suc.prems(3) [rule_format, of "Suc k"] that by (simp add: add.assoc)
  ultimately obtain t4 where "load_segments fd 32 (Suc n) (of_nat off) s =
      Inr (True, ?s2\<lparr>kfs := (kfs ?s2)\<lparr>fs := t4\<rparr>, umem := memory_image F (off + 32) n (umem ?s2)\<rparr>)" "program_file fd g i F t4"
    using Suc.IH [of ?s2 "off + 32"] by metis
  then show ?case by (intro exI [of _ t4]) (simp add: Let_def)
qed

text \<open>C13: A well-formed program is loaded: when the headers of the file are those of a 32-bit executable and every loadable segment
  lies in the file and in pages that are all mapped already, \<^verbatim>\<open>load\<close> returns the entry point; user memory then holds the bytes of the
  segments at their addresses and is otherwise unchanged, and the file is closed. The file may use direct and indirect
  blocks (below 139 of them), but neither a program header nor a segment may start in a direct block and end in block 12:
  \<^verbatim>\<open>file_read\<close> delivers wrong bytes there. For pages that are not mapped see the theorem on the second page.\<close>

theorem load_image_loads:
  assumes f: "program_file fd g i F (fs (kfs s))" "fd_pos (file_table (fs (kfs s)) ! g) = 0" "52 \<le> length F"
    and eh: "eh = ehdr_of (take 52 F)" "elf_ok eh = Inr True" "unat (e_phoff eh) + 32 * unat (e_phnum eh) \<le> length F"
    and seg: "\<forall>k<unat (e_phnum eh). header_ok F (cell (mm (kth s))) (unat (e_phoff eh) + 32 * k)"
  shows "\<exists>t. load_image fd s = Inr (e_entry eh, s\<lparr>kfs := (kfs s)\<lparr>fs := t\<rparr>,
      umem := memory_image F (unat (e_phoff eh)) (unat (e_phnum eh)) (umem s)\<rparr>) \<and>
    unat fd < length (fsys.fd_table t) \<and> fsys.fd_table t ! unat fd = -1"
proof -
  let ?b = "take 52 F"
  obtain t1 where t1: "sys_read [] fd 52 (fs (kfs s)) = Inr (52, ?b, t1)" "program_file fd g i F t1"
    using read_ok [OF f(1), of 0 52 "[]"] f(2,3) by (auto simp: clear_read_def)
  let ?s1 = "s\<lparr>kfs := (kfs s)\<lparr>fs := t1\<rparr>\<rparr>"
  have b: "splice 0 ?b (replicate 52 0) = ?b" using f(3) by (simp add: splice_def)
  have r: "read_header fd 52 s = Inr (52, ?b, ?s1)" unfolding read_header_def using t1(1) b by simp
  have ps: "e_phentsize eh = 32" using eh(2) by (auto simp: elf_ok_def result_elims)
  obtain t2 where t2: "load_segments fd 32 (unat (e_phnum eh)) (e_phoff eh) ?s1 =
      Inr (True, ?s1\<lparr>kfs := (kfs ?s1)\<lparr>fs := t2\<rparr>, umem := memory_image F (unat (e_phoff eh)) (unat (e_phnum eh)) (umem ?s1)\<rparr>)"
      "program_file fd g i F t2"
    using load_segments_ok [of fd g i F ?s1 "unat (e_phoff eh)" "unat (e_phnum eh)"] t1(2) eh(3) seg by auto
  obtain t3 where t3: "sys_close fd t2 = Inr (0, t3)" "unat fd < length (fsys.fd_table t3)" "fsys.fd_table t3 ! unat fd = -1"
    using t2(2)
    by (auto simp: sys_close_def program_file_def file_close_def fd_local2global_def inode_close_def set_core_def Let_def
        split: if_splits)
  have "load_image fd s = Inr (e_entry eh, s\<lparr>kfs := (kfs s)\<lparr>fs := t3\<rparr>,
      umem := memory_image F (unat (e_phoff eh)) (unat (e_phnum eh)) (umem s)\<rparr>)"
    unfolding load_image_def r using eh(1,2) ps t2(1) t3(1) by (simp add: Let_def on_fs_def)
  then show ?thesis using t3(2,3) by blast
qed

text \<open>Executing a file that cannot be opened does not fail: \<^verbatim>\<open>load\<close> reports it with the value 1, \<^verbatim>\<open>sys_execv\<close> takes that
  for the entry point of a program, renames the process and leaves the kernel for address 1.\<close>

theorem execv_missing_enters:
  assumes "sys_open j path 0 (kfs s) = Inr (-1, f)" "count_args args = Inr n" "16 \<le> length path"
  shows "\<exists>k s'. sys_execv j path argv args s = Inr (Exec_enters k, s') \<and> u_eip (intr_exit k s') = 1 \<and>
    u_esp (intr_exit k s') = 0xc0000000"
  using assms by (simp add: sys_execv_def load_def Let_def intr_exit_def frame_set)

theorem execv_missing_enters_witness:
  "\<exists>k s'. sys_execv \<lparr>junk_name = (\<lambda>_. []), junk_entry = []\<rparr> (''/usr/bin/missing/'' @ [NUL]) 0 [0] demo_proc = Inr (Exec_enters k, s') \<and>
     u_eip (intr_exit k s') = 1"
proof -
  have "sys_open \<lparr>junk_name = (\<lambda>_. []), junk_entry = []\<rparr> (''/usr/bin/missing/'' @ [NUL]) 0 (kfs demo_proc) = Inr (-1, kfs demo_proc)"
    by (simp add: sys_open_def strlen_c_str [of _ "''/usr/bin/missing/''"] c_str_def)
  then show ?thesis
    using execv_missing_enters [of "\<lparr>junk_name = (\<lambda>_. []), junk_entry = []\<rparr>" "''/usr/bin/missing/'' @ [NUL]" demo_proc
        "kfs demo_proc" "[0]" 0 0] by auto
qed

text \<open>A file with an executable of one segment: sixteen bytes for address 0x8048010.\<close>

definition demo_elf :: "u8 list" where
  "demo_elf = [0x7f, 0x45, 0x4c, 0x46, 1, 1, 1, 0, 0, 0, 0, 0, 0, 0, 0, 0, 2, 0, 3, 0] @ le32 1 @ le32 0x8048010 @ le32 52 @
     le32 0 @ le32 0 @ [52, 0, 32, 0, 1, 0, 0, 0, 0, 0, 0, 0] @
     le32 1 @ le32 84 @ le32 0x8048010 @ le32 0 @ le32 16 @ le32 16 @ le32 5 @ le32 4096 @ replicate 16 0x90"

definition elf_inode :: inode where
  "elf_inode = \<lparr>i_no = 1, i_size = 100, i_open_cnts = 1, write_deny = False, i_sectors = 713 # replicate 12 0\<rparr>"

definition elf_fs :: fsys where
  "elf_fs = demo_fs\<lparr>sects := (\<lambda>n. if n = 713 then demo_elf @ replicate 412 0 else replicate 512 0),
     core := (\<lambda>_. elf_inode), heap := (\<lambda>_. 0xc0300000),
     file_table := replicate 32 \<lparr>fd_pos = 0, fd_flag = 0, fd_inode = 0xc0200000\<rparr>, fsys.fd_table := [0, 1, 2, 3, -1, -1, -1, -1]\<rparr>"

definition elf_proc :: kproc where
  "elf_proc = demo_proc\<lparr>kth := (kth demo_proc)\<lparr>mm := proc_vm\<lparr>cell := (cell proc_vm)(pte_ptr 0x8048000 := 0x208007)\<rparr>\<rparr>,
     kfs := (kfs demo_proc)\<lparr>fs := elf_fs\<rparr>\<rparr>"

lemma length_demo_elf: "length demo_elf = 100"
  by (simp add: demo_elf_def le32_def)

lemma one_block:
  assumes "length (i_sectors i) = 13" "n \<le> 512" "full (sects s)"
  shows "file_bytes i s 0 n = take n (sects s (unat (i_sectors i ! 0)))"
proof (rule nth_equalityI)
  show "file_bytes i s 0 n ! k = take n (sects s (unat (i_sectors i ! 0))) ! k" if "k < length (file_bytes i s 0 n)" for k
    using that assms nth_file_blocks(1) [OF assms(1), of 0 s] by (simp add: file_bytes_def file_byte_def)
qed (use assms in \<open>simp add: full_def\<close>)

lemma elf_file: "program_file 3 3 elf_inode demo_elf elf_fs"
proof -
  have "full (sects elf_fs)" by (simp add: elf_fs_def full_def length_demo_elf)
  moreover from this have "file_bytes elf_inode elf_fs 0 100 = demo_elf"
    using one_block [of elf_inode 100 elf_fs] by (simp add: elf_inode_def elf_fs_def length_demo_elf)
  moreover from calculation(1) have "blocks_readable 0 (unat (i_size elf_inode) div 512) elf_inode elf_fs"
    using nth_file_blocks(1) [of elf_inode 0 elf_fs] by (simp add: blocks_readable_def elf_inode_def)
  ultimately show ?thesis
    by (simp add: program_file_def) (simp add: elf_fs_def elf_inode_def fd_local2global_def)
qed

lemma elf_mapped: "present 0x8048010 (cell (mm (kth elf_proc)))" "present 0x8048ff8 (cell (mm (kth elf_proc)))"
  "\<not> present 0x8049000 (cell (mm (kth elf_proc)))"
proof -
  let ?c = "cell (mm (kth elf_proc))"
  have c: "?c = (cell proc_vm)(pte_ptr 0x8048000 := 0x208007)" by (simp add: elf_proc_def)
  have "present 0x8048000 ?c"
    using pte_below_pde [of "0x8048000" "0x8048000"] unfolding c
    by (simp add: present_def proc_vm_def demo_vm_def unat_pde_ptr)
  then show "present 0x8048010 ?c" "present 0x8048ff8 ?c"
    using same_page [of "0x8048010" "0x8048000" ?c] same_page [of "0x8048ff8" "0x8048000" ?c] by simp_all
  have "pte_ptr 0x8049000 \<noteq> pte_ptr 0x8048000" "pde_ptr 0x8049000 \<noteq> pte_ptr 0x8048000"
    using pte_below_pde [of "0x8048000" "0x8049000"] by (simp_all add: pte_ptr_eq)
  then show "\<not> present 0x8049000 ?c"
    using proc_absent [of "0x8049000"] unfolding c by (simp add: present_def)
qed

theorem segment_second_page_faults_witness:
  "segment_load 3 84 16 0x8048ff8 elf_proc = Inl Out_of_bounds"
proof -
  have "fs (kfs elf_proc) = elf_fs" by (simp add: elf_proc_def)
  then show ?thesis
    using segment_second_page_faults [of 3 3 elf_inode demo_elf elf_proc 84 16 "0x8048ff8"] elf_file elf_mapped
    by (simp add: length_demo_elf clear_read_def)
qed

theorem load_image_loads_witness:
  "\<exists>s'. load_image 3 elf_proc = Inr (0x8048010, s') \<and> umem s' 0x8048015 = 0x90 \<and> umem s' 0x8048020 = umem elf_proc 0x8048020"
proof -
  have fs: "fs (kfs elf_proc) = elf_fs" "fd_pos (file_table elf_fs ! 3) = 0" by (simp_all add: elf_proc_def elf_fs_def)
  have mc: "memcmp [127, 69, 76, 70, 1, 1, 1, 0, 0, 0, 0, 0, 0, 0, 0, 0] [127, 69, 76, 70, 1, 1, 1] 7 = Inr 0"
    by code_simp
  have eh: "e_phoff (ehdr_of (take 52 demo_elf)) = 52" "e_phnum (ehdr_of (take 52 demo_elf)) = 1"
    "e_entry (ehdr_of (take 52 demo_elf)) = 0x8048010" "elf_ok (ehdr_of (take 52 demo_elf)) = Inr True"
    by (simp_all add: demo_elf_def le32_def ehdr_of_def rd16_def rd32_def elf_ok_def mc Let_def)
  let ?ph = "phdr_of (take 32 (drop 52 demo_elf))"
  have ph: "p_type ?ph = PT_LOAD" "p_offset ?ph = 84" "p_vaddr ?ph = 0x8048010" "p_filesz ?ph = 16"
    by (simp_all add: demo_elf_def le32_def phdr_of_def rd32_def PT_LOAD_def Let_def)
  have im: "memory_image demo_elf 52 1 (umem elf_proc) = overlay 0x8048010 (take 16 (drop 84 demo_elf)) (umem elf_proc)"
    using ph by (simp add: Let_def)
  have "take 16 (drop 84 demo_elf) = replicate 16 0x90" by (simp add: demo_elf_def le32_def)
  then have ov: "overlay 0x8048010 (take 16 (drop 84 demo_elf)) (umem elf_proc) 0x8048015 = 0x90"
    "overlay 0x8048010 (take 16 (drop 84 demo_elf)) (umem elf_proc) 0x8048020 = umem elf_proc 0x8048020"
    by (simp_all add: overlay_def in_range_def)
  have "present (0x8048010 + of_nat k) (cell (mm (kth elf_proc)))" if "k < 16" for k
  proof -
    have u: "unat (0x8048010 + of_nat k :: u32) = 134512656 + k" "unat (0x8048010 :: u32) = 134512656"
      using unat_add_u32 [of "0x8048010" "of_nat k"] that by (simp_all add: unat_of_nat)
    have "(16 + k + 32840 * 4096) div 4096 = 32840" using that by (subst div_mult_self1) simp_all
    then have "unat (0x8048010 + of_nat k :: u32) div 4096 = unat (0x8048010 :: u32) div 4096"
      unfolding u by (simp add: add.commute)
    from same_page [OF this] show ?thesis using elf_mapped(1) by simp
  qed
  then have hd: "header_ok demo_elf (cell (mm (kth elf_proc))) 52"
    using ph elf_mapped(1) by (simp add: header_ok_def segment_ok_def clear_read_def length_demo_elf)
  show ?thesis
    using load_image_loads [of 3 3 elf_inode demo_elf elf_proc "ehdr_of (take 52 demo_elf)"] elf_file fs eh hd im ov
    by (auto simp: length_demo_elf)
qed

end
